(* ===== verification/Prelude.thy ===== *)
theory Prelude
  imports Main "HOL-Library.Word" "HOL-Library.Product_Lexorder"
begin

text \<open>
  Shared vocabulary of the development: the machine types, the result type of fallible code, the
  bind of that type, loops over a list, and generic facts on lists that several components use.
  A C++ exception, a failed assertion and an access outside an allocation are the three ways in
  which the modelled code stops; \<open>Out_Of_Fuel\<close> belongs to the model only, and the search theories
  prove that it is never the result.
\<close>

section \<open>Machine types\<close>

type_synonym byte = "8 word"
type_synonym u16 = "16 word"
type_synonym u32 = "32 word"
type_synonym u64 = "64 word"

text \<open>A value-initialised pair, as \<open>std::vector<std::pair<..>> (n)\<close> makes it.\<close>

instantiation prod :: (zero, zero) zero
begin

definition zero_prod :: "'a \<times> 'b" where
  "zero_prod = (0, 0)"

instance ..

end

lemma unat_of_nat32: "n < 2 ^ 32 \<Longrightarrow> unat (of_nat n :: u32) = n"
  by (simp add: unat_of_nat)

lemma unat32_bound: "unat (w :: u32) < 2 ^ 32"
  using unsigned_less [of w, where 'a = nat] by simp

lemma unat_of_nat_eq_byte: "n < 256 \<Longrightarrow> of_nat n = (b :: byte) \<longleftrightarrow> n = unat b"
  by (auto simp: unat_of_nat)

lemma byte_of_u32: "ucast (ucast (ucast (of_nat c :: u32) :: byte) :: u32) = (of_nat c :: byte)"
  by (rule bit_word_eqI) (auto simp: bit_simps)

lemma finite_unat_less [simp]: "finite {v :: 'a::len word. unat v < n}"
  by (rule finite_subset [of _ UNIV]) simp_all

lemma card_unat_less: "card {v :: 'a::len word. unat v < n} \<le> n"
proof -
  have "card {v :: 'a word. unat v < n} = card (unat ` {v :: 'a word. unat v < n})"
    by (rule card_image [symmetric]) (auto simp: inj_on_def word_unat_eq_iff)
  also have "\<dots> \<le> card {..<n}" by (intro card_mono) auto
  finally show ?thesis by simp
qed

section \<open>Fallible code\<close>

datatype fault = Out_Of_Bounds | Runtime_Error string | Assert_Failed | Out_Of_Fuel

type_synonym 'a result = "fault + 'a"

definition rbind :: "'a result \<Rightarrow> ('a \<Rightarrow> 'b result) \<Rightarrow> 'b result" where
  "rbind m f = (case m of Inl e \<Rightarrow> Inl e | Inr x \<Rightarrow> f x)"

definition require :: "bool \<Rightarrow> fault \<Rightarrow> unit result" where
  "require b e = (if b then Inr () else Inl e)"

named_theorems result_simps

lemma rbind_Inl [simp, code_unfold]: "rbind (Inl e) f = Inl e"
  by (simp add: rbind_def)

lemma rbind_Inr [simp, code_unfold]: "rbind (Inr x) f = f x"
  by (simp add: rbind_def)

lemma rbind_assoc: "rbind (rbind m f) g = rbind m (\<lambda>x. rbind (f x) g)"
  by (simp add: rbind_def split: sum.split)

lemma rbind_eq_Inr [result_simps]: "rbind m f = Inr y \<longleftrightarrow> (\<exists>x. m = Inr x \<and> f x = Inr y)"
  by (cases m) auto

lemma rbind_cong [fundef_cong]:
  "m = m' \<Longrightarrow> (\<And>x. m' = Inr x \<Longrightarrow> f x = f' x) \<Longrightarrow> rbind m f = rbind m' f'"
  by (simp add: rbind_def split: sum.split)

lemma require_eq_Inr [result_simps]: "require b e = Inr u \<longleftrightarrow> b"
  by (simp add: require_def)

lemma require_True [simp]: "require True e = Inr ()"
  by (simp add: require_def)

lemma require_False [simp]: "require False e = Inl e"
  by (simp add: require_def)

text \<open>A loop whose body may fail: \<open>for (x : xs) s = body(x, s)\<close>.\<close>

fun rfold :: "('a \<Rightarrow> 's \<Rightarrow> 's result) \<Rightarrow> 'a list \<Rightarrow> 's \<Rightarrow> 's result" where
  "rfold f [] s = Inr s"
| "rfold f (x # xs) s = rbind (f x s) (rfold f xs)"

text \<open>A loop that appends one value per element to an output vector.\<close>

fun rmap :: "('a \<Rightarrow> 'b result) \<Rightarrow> 'a list \<Rightarrow> 'b list result" where
  "rmap f [] = Inr []"
| "rmap f (x # xs) = rbind (f x) (\<lambda>y. rbind (rmap f xs) (\<lambda>ys. Inr (y # ys)))"

lemma rfold_append: "rfold f (xs @ ys) s = rbind (rfold f xs s) (\<lambda>t. rfold f ys t)"
  by (induction xs arbitrary: s) (auto simp: rbind_def split: sum.split)

lemma rfold_pure:
  assumes "\<And>x s. x \<in> set xs \<Longrightarrow> f x s = Inr (g x s)"
  shows "rfold f xs s = Inr (fold g xs s)"
  using assms by (induction xs arbitrary: s) simp_all

lemma rmap_pure:
  assumes "\<And>x. x \<in> set xs \<Longrightarrow> f x = Inr (g x)"
  shows "rmap f xs = Inr (map g xs)"
  using assms by (induction xs) simp_all

lemma rmap_eq_Inr: "rmap f xs = Inr ys \<longleftrightarrow> length ys = length xs \<and> (\<forall>i < length xs. f (xs ! i) = Inr (ys ! i))"
proof (induction xs arbitrary: ys)
  case (Cons x xs)
  show ?case
  proof (cases ys)
    case (Cons y ys')
    with Cons.IH [of ys'] show ?thesis
      by (auto simp: rbind_eq_Inr All_less_Suc2 dest: sym)
  qed (simp add: rbind_eq_Inr)
qed auto

lemma rmap_total: "(\<And>x. x \<in> set xs \<Longrightarrow> \<exists>y. f x = Inr y) \<Longrightarrow> \<exists>ys. rmap f xs = Inr ys"
  by (induction xs) fastforce+

lemma rmap_cong: "(\<And>x. x \<in> set xs \<Longrightarrow> f x = g x) \<Longrightarrow> rmap f xs = rmap g xs"
  by (induction xs) simp_all

lemma rfold_cong: "(\<And>x s. x \<in> set xs \<Longrightarrow> f x s = g x s) \<Longrightarrow> rfold f xs s = rfold g xs s"
  by (induction xs arbitrary: s) (auto simp: rbind_def split: sum.split)

text \<open>An invariant of a fallible loop, relative to what has been processed so far.\<close>

lemma rfold_invariant:
  assumes "P [] s" and "\<And>ys x zs s. xs = ys @ x # zs \<Longrightarrow> P ys s \<Longrightarrow> \<exists>s'. f x s = Inr s' \<and> P (ys @ [x]) s'"
  shows "\<exists>s'. rfold f xs s = Inr s' \<and> P xs s'"
proof -
  have "\<exists>s'. rfold f zs t = Inr s' \<and> P (ys @ zs) s'" if "xs = ys @ zs" "P ys t" for ys zs t
    using that
  proof (induction zs arbitrary: ys t)
    case Nil
    then show ?case by simp
  next
    case (Cons x zs)
    from assms(2) [OF Cons.prems] obtain t' where t': "f x t = Inr t'" "P (ys @ [x]) t'" by blast
    with Cons.IH [of "ys @ [x]" t'] Cons.prems(1) show ?case by simp
  qed
  from this [of "[]" xs s] assms(1) show ?thesis by simp
qed

section \<open>Arrays\<close>

text \<open>
  An array, or the storage of a \<open>std::vector\<close>, is a list; reading or writing outside it is the fault
  \<open>Out_Of_Bounds\<close>.
\<close>

definition rget :: "'a list \<Rightarrow> nat \<Rightarrow> 'a result" where
  "rget xs i = (if i < length xs then Inr (xs ! i) else Inl Out_Of_Bounds)"

definition rput :: "'a list \<Rightarrow> nat \<Rightarrow> 'a \<Rightarrow> 'a list result" where
  "rput xs i x = (if i < length xs then Inr (xs[i := x]) else Inl Out_Of_Bounds)"

lemma rget_ok [simp]: "i < length xs \<Longrightarrow> rget xs i = Inr (xs ! i)"
  by (simp add: rget_def)

lemma rget_fault [simp]: "length xs \<le> i \<Longrightarrow> rget xs i = Inl Out_Of_Bounds"
  by (simp add: rget_def)

lemma rget_eq_Inr [result_simps]: "rget xs i = Inr x \<longleftrightarrow> i < length xs \<and> x = xs ! i"
  by (auto simp: rget_def)

lemma rput_ok [simp]: "i < length xs \<Longrightarrow> rput xs i x = Inr (xs[i := x])"
  by (simp add: rput_def)

lemma rput_eq_Inr [result_simps]: "rput xs i x = Inr ys \<longleftrightarrow> i < length xs \<and> ys = xs[i := x]"
  by (auto simp: rput_def)

section \<open>Lists\<close>

lemma upt_split: "[0..<n] = ys @ v # zs \<Longrightarrow> v = length ys \<and> length ys < n"
proof
  assume split: "[0..<n] = ys @ v # zs"
  from arg_cong [OF split, of length] show "length ys < n" by simp
  then have "[0..<n] ! length ys = length ys" by simp
  then show "v = length ys" by (simp only: split nth_append_length)
qed

lemma upt_split_prefix:
  assumes "[0..<n] = ys @ v # zs"
  shows "set ys = {..<v}"
proof -
  have "ys = take v [0..<n]" using assms upt_split [OF assms] by simp
  also have "\<dots> = [0..<v]" using upt_split [OF assms] by (simp add: take_upt)
  finally show ?thesis by (simp only: set_upt atLeast0LessThan)
qed

text \<open>\<open>memmove (&xs[dst], &xs[src], n)\<close> on an array of elements; both ranges must lie inside it.\<close>

definition memmove_list :: "'a list \<Rightarrow> nat \<Rightarrow> nat \<Rightarrow> nat \<Rightarrow> 'a list" where
  "memmove_list xs dst src n = take dst xs @ take n (drop src xs) @ drop (dst + n) xs"

definition rmove :: "'a list \<Rightarrow> nat \<Rightarrow> nat \<Rightarrow> nat \<Rightarrow> 'a list result" where
  "rmove xs dst src n =
     (if dst + n \<le> length xs \<and> src + n \<le> length xs then Inr (memmove_list xs dst src n)
      else Inl Out_Of_Bounds)"

lemma rmove_ok [simp]:
  "dst + n \<le> length xs \<Longrightarrow> src + n \<le> length xs \<Longrightarrow> rmove xs dst src n = Inr (memmove_list xs dst src n)"
  by (simp add: rmove_def)

lemma length_memmove_list [simp]:
  "dst + n \<le> length xs \<Longrightarrow> src + n \<le> length xs \<Longrightarrow> length (memmove_list xs dst src n) = length xs"
  by (auto simp: memmove_list_def min_def)

lemma nth_memmove_list:
  assumes "dst + n \<le> length xs" and "src + n \<le> length xs" and "i < length xs"
  shows "memmove_list xs dst src n ! i
         = (if i < dst then xs ! i else if i < dst + n then xs ! (src + (i - dst)) else xs ! i)"
proof -
  have "length xs - src \<le> n \<Longrightarrow> length xs = src + n" using assms by simp
  then show ?thesis using assms by (auto simp: memmove_list_def nth_append min_def)
qed

lemma take_memmove_gap:
  assumes "k \<le> n" and "n < length xs"
  shows "take (Suc n) ((memmove_list xs (Suc k) k (n - k))[k := x])
         = take k xs @ x # drop k (take n xs)"
proof (rule nth_equalityI)
  show "length (take (Suc n) ((memmove_list xs (Suc k) k (n - k))[k := x]))
        = length (take k xs @ x # drop k (take n xs))"
    using assms by simp
next
  fix i assume "i < length (take (Suc n) ((memmove_list xs (Suc k) k (n - k))[k := x]))"
  then have i: "i < Suc n" by simp
  consider "i < k" | "i = k" | j where "i = Suc (k + j)" by (metis less_iff_Suc_add linorder_neqE_nat)
  then show "take (Suc n) ((memmove_list xs (Suc k) k (n - k))[k := x]) ! i
        = (take k xs @ x # drop k (take n xs)) ! i"
  proof cases
    case 3
    with assms i show ?thesis
      by (simp add: nth_memmove_list nth_append min_def)
  qed (use assms i in \<open>simp_all add: nth_memmove_list nth_append min_def\<close>)
qed

lemma sorted_wrt_take: "sorted_wrt P xs \<Longrightarrow> sorted_wrt P (take n xs)"
  by (metis append_take_drop_id sorted_wrt_append)

lemma fold_max_ge: "m \<le> fold max xs (m::'a::linorder)"
  by (induction xs arbitrary: m) (auto intro: order_trans [OF max.cobounded2])

lemma fold_max_ge_elem: "x \<in> set xs \<Longrightarrow> x \<le> fold max xs (m::'a::linorder)"
  by (induction xs arbitrary: m) (auto intro: order_trans [OF max.cobounded1 fold_max_ge])

end
