(* ===== verification/NeighborQueue.thy ===== *)
theory NeighborQueue
  imports Prelude
begin

text \<open>
  The bounded priority queues of \<open>include/neighbor.h\<close>: \<open>diskann::NeighborPriorityQueue\<close> (keyed by a vertex
  id) and \<open>dsmann::NeighborPriorityQueue\<close> (keyed by a (server, local id) pair) have the same text up to
  the type of the key, so the operations are polymorphic in it. The storage \<open>_data\<close> is a list with its
  real length, the spare slot included, and each access to it is checked. Distances are any linear
  order: a NaN has no counterpart here.
\<close>

section \<open>Neighbours\<close>

record ('i, 'd) nbr =
  nb_id :: 'i
  nb_dist :: 'd
  nb_expanded :: bool

definition nbr_new :: "'i \<Rightarrow> 'd \<Rightarrow> ('i, 'd) nbr" where
  "nbr_new i d = \<lparr>nb_id = i, nb_dist = d, nb_expanded = False\<rparr>"

text \<open>\<open>operator<\<close>: by distance, equal distances by id.\<close>

definition nb_lt :: "('i::linorder, 'd::linorder) nbr \<Rightarrow> ('i, 'd) nbr \<Rightarrow> bool" where
  "nb_lt x y \<longleftrightarrow> nb_dist x < nb_dist y \<or> (nb_dist x = nb_dist y \<and> nb_id x < nb_id y)"

definition nb_key :: "('i, 'd) nbr \<Rightarrow> 'd \<times> 'i" where
  "nb_key x = (nb_dist x, nb_id x)"

lemma nb_lt_key: "nb_lt x y \<longleftrightarrow> nb_key x < nb_key y"
  by (simp add: nb_lt_def nb_key_def less_prod_def')

lemma nbr_new_sel [simp]:
  "nb_id (nbr_new i d) = i" "nb_dist (nbr_new i d) = d" "nb_expanded (nbr_new i d) = False"
  "nb_key (nbr_new i d) = (d, i)"
  by (simp_all add: nbr_new_def nb_key_def)

lemma nb_key_expanded [simp]: "nb_key (x\<lparr>nb_expanded := b\<rparr>) = nb_key x"
  by (simp add: nb_key_def)

section \<open>The queue\<close>

record ('i, 'd) npq =
  pq_size :: nat
  pq_cap :: nat
  pq_cur :: nat
  pq_data :: "('i, 'd) nbr list"

definition pq_empty :: "('i, 'd) npq" where
  "pq_empty = \<lparr>pq_size = 0, pq_cap = 0, pq_cur = 0, pq_data = []\<rparr>"

text \<open>The explicit constructor: \<open>_data (capacity + 1)\<close> value-initialises the slots.\<close>

definition pq_new :: "nat \<Rightarrow> ('i::zero, 'd::zero) npq" where
  "pq_new c = \<lparr>pq_size = 0, pq_cap = c, pq_cur = 0, pq_data = replicate (c + 1) (nbr_new 0 0)\<rparr>"

text \<open>The loop of \<open>insert\<close>: the position for the new element, or \<open>None\<close> for the early \<open>return false\<close>.\<close>

function pq_locate ::
    "('i::linorder, 'd::linorder) nbr list \<Rightarrow> ('i, 'd) nbr \<Rightarrow> nat \<Rightarrow> nat \<Rightarrow> nat option result" where
  "pq_locate d x lo hi =
     (if lo < hi then
        let mid = (lo + hi) div 2 in
        rbind (rget d mid) (\<lambda>m.
          if nb_lt x m then pq_locate d x lo mid
          else if nb_id m = nb_id x then Inr None
          else pq_locate d x (mid + 1) hi)
      else Inr (Some lo))"
  by pat_completeness auto
termination by (relation "measure (\<lambda>(d, x, lo, hi). hi - lo)") auto

declare pq_locate.simps [simp del]

text \<open>
  The guard of \<open>insert\<close> reads \<open>_data[_size - 1]\<close>; for an empty queue of capacity 0 the index wraps
  around and is outside the storage.
\<close>

definition pq_rejects :: "('i::linorder, 'd::linorder) npq \<Rightarrow> ('i, 'd) nbr \<Rightarrow> bool result" where
  "pq_rejects q x =
     (if pq_size q = pq_cap q then
        if pq_size q = 0 then Inl Out_Of_Bounds
        else rbind (rget (pq_data q) (pq_size q - 1)) (\<lambda>l. Inr (nb_lt l x))
      else Inr False)"

definition pq_place :: "('i::linorder, 'd::linorder) npq \<Rightarrow> ('i, 'd) nbr \<Rightarrow> nat \<Rightarrow> ('i, 'd) npq result" where
  "pq_place q x lo =
     rbind (if lo < pq_cap q then rmove (pq_data q) (lo + 1) lo (pq_size q - lo) else Inr (pq_data q))
       (\<lambda>d. rbind (rput d lo (nbr_new (nb_id x) (nb_dist x)))
         (\<lambda>d. Inr (q\<lparr>pq_data := d,
                     pq_size := (if pq_size q < pq_cap q then pq_size q + 1 else pq_size q),
                     pq_cur := (if lo < pq_cur q then lo else pq_cur q)\<rparr>)))"

definition pq_insert ::
    "('i::linorder, 'd::linorder) npq \<Rightarrow> ('i, 'd) nbr \<Rightarrow> (('i, 'd) npq \<times> bool) result" where
  "pq_insert q x =
     rbind (pq_rejects q x) (\<lambda>r.
       if r then Inr (q, False)
       else rbind (pq_locate (pq_data q) x 0 (pq_size q)) (\<lambda>p. case p of
         None \<Rightarrow> Inr (q, False)
       | Some lo \<Rightarrow> rbind (pq_place q x lo) (\<lambda>q'. Inr (q', True))))"

text \<open>The loop of \<open>closest_unexpanded\<close>, from the entry already marked.\<close>

function pq_advance :: "('i, 'd) nbr list \<Rightarrow> nat \<Rightarrow> nat \<Rightarrow> nat" where
  "pq_advance d n cur =
     (if cur < n \<and> nb_expanded (d ! cur) then pq_advance d n (cur + 1) else cur)"
  by pat_completeness auto
termination by (relation "measure (\<lambda>(d, n, cur). n - cur)") auto

declare pq_advance.simps [simp del]

definition pq_closest_unexpanded ::
    "('i, 'd) npq \<Rightarrow> (('i, 'd) npq \<times> ('i, 'd) nbr) result" where
  "pq_closest_unexpanded q =
     rbind (rget (pq_data q) (pq_cur q)) (\<lambda>m.
       let d = (pq_data q)[pq_cur q := m\<lparr>nb_expanded := True\<rparr>] in
       Inr (q\<lparr>pq_data := d, pq_cur := pq_advance d (pq_size q) (pq_cur q)\<rparr>, d ! pq_cur q))"

definition pq_has_unexpanded :: "('i, 'd) npq \<Rightarrow> bool" where
  "pq_has_unexpanded q \<longleftrightarrow> pq_cur q < pq_size q"

definition pq_at :: "('i, 'd) npq \<Rightarrow> nat \<Rightarrow> ('i, 'd) nbr result" where
  "pq_at q i = rget (pq_data q) i"

definition pq_reserve :: "('i::zero, 'd::zero) npq \<Rightarrow> nat \<Rightarrow> ('i, 'd) npq" where
  "pq_reserve q c =
     q\<lparr>pq_data := (if length (pq_data q) < c + 1
                   then pq_data q @ replicate (c + 1 - length (pq_data q)) (nbr_new 0 0)
                   else pq_data q),
       pq_cap := c\<rparr>"

definition pq_clear :: "('i, 'd) npq \<Rightarrow> ('i, 'd) npq" where
  "pq_clear q = q\<lparr>pq_size := 0, pq_cur := 0\<rparr>"

section \<open>The binary search\<close>

text \<open>On a sorted prefix the loop finds the upper bound of the new key, and rejects only a used id.\<close>

definition pq_located ::
    "('i::linorder, 'd::linorder) nbr list \<Rightarrow> ('i, 'd) nbr \<Rightarrow> nat \<Rightarrow> nat option \<Rightarrow> bool" where
  "pq_located d x n r = (case r of
     None \<Rightarrow> (\<exists>i<n. nb_id (d ! i) = nb_id x)
   | Some k \<Rightarrow> k \<le> n \<and> (\<forall>i<k. nb_key (d ! i) \<le> nb_key x) \<and> (\<forall>i. k \<le> i \<and> i < n \<longrightarrow> nb_key x < nb_key (d ! i))
       \<and> (k = 0 \<or> nb_id (d ! (k - 1)) \<noteq> nb_id x))"

lemma pq_locate_range:
  assumes sorted: "\<And>i j. i < j \<Longrightarrow> j < n \<Longrightarrow> nb_key (d ! i) < nb_key (d ! j)" and "n \<le> length d"
  shows "lo \<le> hi \<Longrightarrow> hi \<le> n \<Longrightarrow> (\<And>i. i < lo \<Longrightarrow> nb_key (d ! i) \<le> nb_key x) \<Longrightarrow>
    (\<And>i. hi \<le> i \<Longrightarrow> i < n \<Longrightarrow> nb_key x < nb_key (d ! i)) \<Longrightarrow>
    lo = 0 \<or> nb_id (d ! (lo - 1)) \<noteq> nb_id x \<Longrightarrow>
    \<exists>r. pq_locate d x lo hi = Inr r \<and> pq_located d x n r"
proof (induction "hi - lo" arbitrary: lo hi rule: less_induct)
  case less
  let ?mid = "(lo + hi) div 2"
  show ?case
  proof (cases "lo < hi")
    case False
    with less.prems(1) have "lo = hi" by simp
    then have "pq_locate d x lo hi = Inr (Some hi)" by (subst pq_locate.simps) simp
    moreover have "pq_located d x n (Some hi)"
      using less.prems \<open>lo = hi\<close> by (auto simp: pq_located_def)
    ultimately show ?thesis by blast
  next
    case True
    then have mid: "lo \<le> ?mid" "?mid < hi" by auto
    with less.prems(2) \<open>n \<le> length d\<close>
    have eq: "pq_locate d x lo hi = (if nb_key x < nb_key (d ! ?mid) then pq_locate d x lo ?mid
        else if nb_id (d ! ?mid) = nb_id x then Inr None else pq_locate d x (?mid + 1) hi)"
      by (simp add: pq_locate.simps [of d x lo hi] True Let_def nb_lt_key)
    have up: "nb_key x < nb_key (d ! i)" if "nb_key x < nb_key (d ! ?mid)" "?mid \<le> i" "i < n" for i
      using that sorted [of ?mid i] by (cases "i = ?mid") (auto intro: less_trans)
    have low: "nb_key (d ! i) \<le> nb_key x" if "\<not> nb_key x < nb_key (d ! ?mid)" "i < ?mid + 1" for i
      using that sorted [of i ?mid] mid less.prems(2)
      by (cases "i = ?mid") (auto simp: not_less intro: order_trans less_imp_le)
    show ?thesis
    proof (cases "nb_key x < nb_key (d ! ?mid)")
      case lt: True
      have "\<exists>r. pq_locate d x lo ?mid = Inr r \<and> pq_located d x n r"
        using less.hyps [of ?mid lo] less.prems mid up [OF lt] by auto
      then show ?thesis by (simp add: eq lt)
    next
      case ge: False
      show ?thesis
      proof (cases "nb_id (d ! ?mid) = nb_id x")
        case True
        with ge mid less.prems(2) show ?thesis
          by (auto simp: eq pq_located_def intro!: exI [of _ ?mid])
      next
        case False
        have "\<exists>r. pq_locate d x (?mid + 1) hi = Inr r \<and> pq_located d x n r"
          using less.hyps [of hi "?mid + 1"] less.prems mid low [OF ge] False by auto
        then show ?thesis by (simp add: eq ge False)
      qed
    qed
  qed
qed

section \<open>The invariant\<close>

definition pq_items :: "('i, 'd) npq \<Rightarrow> ('i, 'd) nbr list" where
  "pq_items q = take (pq_size q) (pq_data q)"

text \<open>The comment above the class: the cursor is the first unexpanded entry, or the size.\<close>

definition pq_wf :: "('i::linorder, 'd::linorder) npq \<Rightarrow> bool" where
  "pq_wf q \<longleftrightarrow> 0 < pq_cap q \<and> pq_size q \<le> pq_cap q \<and> pq_cap q < length (pq_data q) \<and>
     sorted_wrt nb_lt (pq_items q) \<and> pq_cur q \<le> pq_size q \<and>
     (\<forall>i < pq_cur q. nb_expanded (pq_data q ! i)) \<and>
     (pq_cur q < pq_size q \<longrightarrow> \<not> nb_expanded (pq_data q ! pq_cur q))"

lemma pq_wfD:
  assumes "pq_wf q"
  shows "0 < pq_cap q" "pq_size q \<le> pq_cap q" "pq_cap q < length (pq_data q)"
    "sorted_wrt nb_lt (pq_items q)" "pq_cur q \<le> pq_size q"
    "\<And>i. i < pq_cur q \<Longrightarrow> nb_expanded (pq_data q ! i)"
    "pq_cur q < pq_size q \<Longrightarrow> \<not> nb_expanded (pq_data q ! pq_cur q)"
  using assms by (auto simp: pq_wf_def)

lemma length_pq_items [simp]: "pq_wf q \<Longrightarrow> length (pq_items q) = pq_size q"
  by (auto simp: pq_items_def pq_wf_def)

lemma nth_pq_items: "pq_wf q \<Longrightarrow> i < pq_size q \<Longrightarrow> pq_items q ! i = pq_data q ! i"
  by (simp add: pq_items_def)

lemma pq_wf_sorted:
  assumes "pq_wf q" and "i < j" and "j < pq_size q"
  shows "nb_key (pq_data q ! i) < nb_key (pq_data q ! j)"
  using sorted_wrt_nth_less [OF pq_wfD(4) [OF assms(1)] assms(2)] assms
  by (simp add: nth_pq_items nb_lt_key)

text \<open>What the queue holds, as keys in order, and which of them are expanded.\<close>

definition pq_keys :: "('i, 'd) npq \<Rightarrow> ('d \<times> 'i) list" where
  "pq_keys q = map nb_key (pq_items q)"

definition pq_done :: "('i, 'd) npq \<Rightarrow> ('d \<times> 'i) set" where
  "pq_done q = nb_key ` {x \<in> set (pq_items q). nb_expanded x}"

lemma length_pq_keys [simp]: "pq_wf q \<Longrightarrow> length (pq_keys q) = pq_size q"
  by (simp add: pq_keys_def)

lemma nth_pq_keys: "pq_wf q \<Longrightarrow> i < pq_size q \<Longrightarrow> pq_keys q ! i = nb_key (pq_data q ! i)"
  by (simp add: pq_keys_def nth_pq_items)

lemma pq_keys_strict: "pq_wf q \<Longrightarrow> sorted_wrt (<) (pq_keys q)"
  using pq_wfD(4) [of q] by (simp add: pq_keys_def sorted_wrt_map nb_lt_key [abs_def])

lemma pq_keys_sorted_list: "pq_wf q \<Longrightarrow> pq_keys q = sorted_list_of_set (set (pq_keys q))"
  using pq_keys_strict [of q]
  by (simp add: strict_sorted_iff sorted_list_of_set.idem_if_sorted_distinct)

lemma pq_done_subset: "pq_done q \<subseteq> set (pq_keys q)"
  by (auto simp: pq_done_def pq_keys_def)

lemma pq_done_nth:
  assumes "pq_wf q" and "i < pq_size q"
  shows "nb_key (pq_data q ! i) \<in> pq_done q \<longleftrightarrow> nb_expanded (pq_data q ! i)"
proof
  assume "nb_key (pq_data q ! i) \<in> pq_done q"
  then obtain j where j: "j < pq_size q" "nb_expanded (pq_data q ! j)"
    "nb_key (pq_data q ! j) = nb_key (pq_data q ! i)"
    using assms by (fastforce simp: pq_done_def in_set_conv_nth nth_pq_items)
  have "j = i"
    using j assms pq_wf_sorted [of q i j] pq_wf_sorted [of q j i] by (cases i j rule: linorder_cases) auto
  with j show "nb_expanded (pq_data q ! i)" by simp
next
  assume "nb_expanded (pq_data q ! i)"
  with assms show "nb_key (pq_data q ! i) \<in> pq_done q"
    by (auto simp: pq_done_def in_set_conv_nth nth_pq_items intro!: image_eqI [of _ _ "pq_data q ! i"])
qed

section \<open>Insertion\<close>

text \<open>The abstract operation: a sorted list of keys that keeps the \<open>cap\<close> smallest.\<close>

definition pool_insert :: "nat \<Rightarrow> 'k::linorder \<Rightarrow> 'k list \<Rightarrow> 'k list" where
  "pool_insert cap k ks = take cap (insort k ks)"

lemma insort_split:
  assumes "\<forall>y \<in> set ys. y < k" and "\<forall>z \<in> set zs. k < z"
  shows "insort k (ys @ zs) = ys @ k # (zs :: 'k::linorder list)"
  using assms by (induction ys) (cases zs, auto)

lemma take_insort_take: "take n (insort k (take n xs)) = take n (insort k xs)"
proof (induction xs arbitrary: n)
  case (Cons x xs)
  show ?case
  proof (cases n)
    case (Suc m)
    have "take m (x # take m xs) = take m (x # xs)" by (cases m) (simp_all add: min_def)
    with Cons.IH [of m] Suc show ?thesis by simp
  qed simp
qed simp

text \<open>The \<open>n\<close> least elements of a set, in order.\<close>

definition least_keys :: "nat \<Rightarrow> 'k::linorder set \<Rightarrow> 'k list" where
  "least_keys n S = take n (sorted_list_of_set S)"

lemma least_keys_strict: "sorted_wrt (<) (least_keys n S)"
  by (simp add: least_keys_def sorted_wrt_take)

lemma set_least_keys: "finite S \<Longrightarrow> set (least_keys n S) \<subseteq> S"
  using set_take_subset [of n "sorted_list_of_set S"] by (simp add: least_keys_def)

lemma pool_insert_least_keys:
  assumes "finite S" and "k \<notin> set (least_keys n S)"
  shows "pool_insert n k (least_keys n S) = least_keys n (insert k S)"
proof (cases "k \<in> S")
  case False
  with assms show ?thesis by (simp add: pool_insert_def least_keys_def take_insort_take)
next
  case True
  let ?xs = "sorted_list_of_set S"
  have "k \<in> set (drop n ?xs)"
    using assms True set_append [of "take n ?xs" "drop n ?xs"]
    by (simp add: least_keys_def del: set_append) blast
  moreover have "sorted_wrt (<) (take n ?xs @ drop n ?xs)" by simp
  ultimately have "\<forall>y \<in> set (take n ?xs). y < k"
    by (simp only: sorted_wrt_append) blast
  then have "insort k (take n ?xs) = take n ?xs @ [k]"
    using insort_split [of "take n ?xs" k "[]"] by simp
  moreover have "n \<le> length ?xs" using \<open>k \<in> set (drop n ?xs)\<close> by (cases "n \<le> length ?xs") auto
  ultimately show ?thesis
    using True by (simp add: pool_insert_def least_keys_def insert_absorb)
qed

lemma in_take_strict_sorted:
  assumes "sorted_wrt (<) (xs :: 'k::linorder list)"
  shows "k \<in> set (take n xs) \<longleftrightarrow> k \<in> set xs \<and> card {y \<in> set xs. y < k} < n"
  using assms
proof (induction xs arbitrary: n)
  case (Cons x xs)
  show ?case
  proof (cases n)
    case (Suc m)
    have less: "x < y" if "y \<in> set xs" for y using Cons.prems that by simp
    show ?thesis
    proof (cases "k = x")
      case True
      have "{y \<in> set (x # xs). y < x} = {}" using less by fastforce
      with True Suc show ?thesis by (simp only:) simp
    next
      case False
      have "{y \<in> set (x # xs). y < k} = insert x {y \<in> set xs. y < k}" if "k \<in> set xs"
        using less [OF that] by auto
      moreover have "x \<notin> {y \<in> set xs. y < k}" using less by blast
      ultimately have "card {y \<in> set (x # xs). y < k} = Suc (card {y \<in> set xs. y < k})" if "k \<in> set xs"
        using that by simp
      with False Suc Cons show ?thesis by auto
    qed
  qed simp
qed simp

lemma in_least_keys:
  "finite S \<Longrightarrow> k \<in> set (least_keys n S) \<longleftrightarrow> k \<in> S \<and> card {y \<in> S. y < k} < n"
  unfolding least_keys_def by (subst in_take_strict_sorted) auto

lemma least_keys_antimono:
  assumes "finite T" and "S \<subseteq> T" and "k \<in> S" and "k \<in> set (least_keys n T)"
  shows "k \<in> set (least_keys n S)"
proof -
  have "card {y \<in> S. y < k} \<le> card {y \<in> T. y < k}" using assms by (intro card_mono) auto
  with assms show ?thesis by (simp add: in_least_keys finite_subset)
qed

text \<open>Inserting in any order leaves the least keys of everything inserted.\<close>

lemma fold_pool_insert:
  assumes "finite S"
  shows "fold (\<lambda>k ks. if k \<in> set ks then ks else pool_insert n k ks) xs (least_keys n S)
         = least_keys n (S \<union> set xs)"
  using assms
proof (induction xs arbitrary: S)
  case (Cons k xs)
  have "(if k \<in> set (least_keys n S) then least_keys n S else pool_insert n k (least_keys n S))
      = least_keys n (insert k S)"
    using pool_insert_least_keys [of S k n] set_least_keys [of S n] Cons.prems
    by (auto simp: insert_absorb)
  with Cons show ?case by simp
qed simp

lemma pq_rejects_ok:
  assumes "pq_wf q"
  shows "pq_rejects q x = Inr (pq_size q = pq_cap q \<and> last (pq_keys q) < nb_key x)"
proof (cases "pq_size q = pq_cap q")
  case True
  with assms have "0 < pq_size q" "pq_keys q \<noteq> []" by (auto simp: pq_wf_def simp flip: length_0_conv)
  with assms True show ?thesis
    by (auto simp: pq_rejects_def pq_wf_def nb_lt_key last_conv_nth nth_pq_keys)
qed (simp add: pq_rejects_def)

text \<open>What placing the element at an upper bound does to the storage.\<close>

lemma pq_place_ok:
  assumes wf: "pq_wf q" and k: "k \<le> pq_size q" "k < pq_cap q"
    and low: "\<And>i. i < k \<Longrightarrow> nb_key (pq_data q ! i) < nb_key x"
    and up: "\<And>i. k \<le> i \<Longrightarrow> i < pq_size q \<Longrightarrow> nb_key x < nb_key (pq_data q ! i)"
  shows "\<exists>q'. pq_place q x k = Inr q' \<and> pq_wf q' \<and> pq_cap q' = pq_cap q \<and>
    pq_keys q' = pool_insert (pq_cap q) (nb_key x) (pq_keys q) \<and>
    pq_done q' = pq_done q \<inter> set (pq_keys q')"
proof -
  let ?n = "pq_size q" and ?x = "nbr_new (nb_id x) (nb_dist x)"
  let ?n' = "if ?n < pq_cap q then ?n + 1 else ?n"
  define d where "d = (memmove_list (pq_data q) (k + 1) k (?n - k))[k := ?x]"
  define q' where "q' = q\<lparr>pq_data := d, pq_size := ?n', pq_cur := (if k < pq_cur q then k else pq_cur q)\<rparr>"
  have n: "?n \<le> pq_cap q" "?n < length (pq_data q)" "pq_cap q < length (pq_data q)"
    using wf by (auto simp: pq_wf_def)
  have place: "pq_place q x k = Inr q'"
    using k n by (simp add: pq_place_def q'_def d_def)
  have xs: "take (Suc ?n) d = take k (pq_items q) @ ?x # drop k (pq_items q)"
    using take_memmove_gap [OF k(1) n(2), of ?x] k(1) by (simp add: d_def pq_items_def min_def)
  have items: "pq_items q' = take (pq_cap q) (take k (pq_items q) @ ?x # drop k (pq_items q))"
  proof -
    have "pq_items q' = take (pq_cap q) (take (Suc ?n) d)"
      using n by (cases "?n < pq_cap q") (simp_all add: q'_def pq_items_def min_absorb1 min_absorb2 del: take_Suc)
    then show ?thesis by (simp add: xs)
  qed
  have d_nth: "d ! i = (if i < k then pq_data q ! i else if i = k then ?x else if i \<le> ?n then pq_data q ! (i - 1)
      else pq_data q ! i)" if "i < length (pq_data q)" for i
    using that k(1) n by (auto simp: d_def nth_memmove_list nth_list_update)
  have keyx: "(nb_dist x, nb_id x) = nb_key x" by (simp add: nb_key_def)
  have keys: "pq_keys q' = pool_insert (pq_cap q) (nb_key x) (pq_keys q)"
  proof -
    have "insort (nb_key x) (take k (pq_keys q) @ drop k (pq_keys q))
        = take k (pq_keys q) @ nb_key x # drop k (pq_keys q)"
      using low up wf k by (intro insort_split) (simp_all add: all_set_conv_all_nth nth_pq_keys)
    then have "insort (nb_key x) (pq_keys q) = take k (pq_keys q) @ nb_key x # drop k (pq_keys q)" by simp
    also have "\<dots> = map nb_key (take k (pq_items q) @ ?x # drop k (pq_items q))"
      by (simp add: pq_keys_def take_map drop_map keyx)
    finally show ?thesis by (simp only: pool_insert_def pq_keys_def items take_map)
  qed
  have len: "length d = length (pq_data q)" using k(1) n by (simp add: d_def)
  have "nb_key x \<notin> set (pq_keys q)"
  proof
    assume "nb_key x \<in> set (pq_keys q)"
    then obtain i where "i < ?n" "nb_key (pq_data q ! i) = nb_key x"
      using wf by (auto simp: in_set_conv_nth nth_pq_keys)
    with low [of i] up [of i] show False by (cases "i < k") auto
  qed
  then have new: "nb_key x \<notin> nb_key ` set (pq_items q)" by (simp add: pq_keys_def)
  have "sorted_wrt (<) (pq_keys q')"
    using pq_keys_strict [OF wf] \<open>nb_key x \<notin> set (pq_keys q)\<close>
    by (simp add: keys pool_insert_def strict_sorted_iff sorted_insort distinct_insort
          sorted_wrt_take)
  then have "sorted_wrt nb_lt (pq_items q')"
    by (simp add: pq_keys_def sorted_wrt_map nb_lt_key [abs_def])
  moreover have "\<forall>i < pq_cur q'. nb_expanded (pq_data q' ! i)"
    using pq_wfD(5,6) [OF wf] n k by (auto simp: q'_def d_nth)
  moreover have "pq_cur q' < pq_size q' \<longrightarrow> \<not> nb_expanded (pq_data q' ! pq_cur q')"
    using pq_wfD(5,7) [OF wf] n k by (auto simp: q'_def d_nth)
  moreover have "pq_cur q' \<le> pq_size q'" "0 < pq_cap q'" "pq_size q' \<le> pq_cap q'" "pq_cap q' < length (pq_data q')"
    using pq_wfD(1,2,5) [OF wf] n k len by (auto simp: q'_def)
  ultimately have wf': "pq_wf q'" by (simp add: pq_wf_def)
  have sub: "set (pq_items q') \<subseteq> insert ?x (set (pq_items q))"
    by (auto simp: items dest!: in_set_takeD in_set_dropD)
  have inj: "inj_on nb_key (set (pq_items q))"
    using pq_keys_strict [OF wf] by (simp add: pq_keys_def strict_sorted_iff distinct_map)
  have "pq_done q' = pq_done q \<inter> set (pq_keys q')"
  proof (intro equalityI subsetI)
    fix c assume "c \<in> pq_done q'"
    then show "c \<in> pq_done q \<inter> set (pq_keys q')"
      using sub by (force simp: pq_done_def pq_keys_def)
  next
    fix c assume "c \<in> pq_done q \<inter> set (pq_keys q')"
    then obtain y z where y: "y \<in> set (pq_items q)" "nb_expanded y" "c = nb_key y"
      and z: "z \<in> set (pq_items q')" "c = nb_key z"
      by (auto simp: pq_done_def pq_keys_def)
    moreover have "z \<noteq> ?x" using new y z(2) by (auto simp: keyx)
    ultimately have "z = y" using sub inj by (auto dest: inj_onD)
    with y z show "c \<in> pq_done q'" by (auto simp: pq_done_def)
  qed
  with place wf' keys show ?thesis by (auto simp: q'_def)
qed

text \<open>
  The three outcomes of an insertion into a well-formed queue: too far for a full queue, an entry with
  the same id met by the search, or placed.
\<close>

lemma pq_keys_le_last: "pq_wf q \<Longrightarrow> c \<in> set (pq_keys q) \<Longrightarrow> c \<le> last (pq_keys q)"
  using pq_keys_strict [of q] by (cases "pq_keys q" rule: rev_cases) (auto simp: sorted_wrt_append)

lemma pq_last_nth: "pq_wf q \<Longrightarrow> 0 < pq_size q \<Longrightarrow> last (pq_keys q) = nb_key (pq_data q ! (pq_size q - 1))"
  by (subst last_conv_nth) (auto simp: nth_pq_keys simp flip: length_0_conv)

lemma pq_insert_cases [consumes 1, case_names far same placed]:
  assumes wf: "pq_wf q"
  obtains
    "pq_insert q x = Inr (q, False)" "pq_size q = pq_cap q" "last (pq_keys q) < nb_key x"
  | d where "pq_insert q x = Inr (q, False)" "(d, nb_id x) \<in> set (pq_keys q)"
      "pq_size q = pq_cap q \<Longrightarrow> nb_key x \<le> last (pq_keys q)"
  | q' where "pq_insert q x = Inr (q', True)" "pq_wf q'" "pq_cap q' = pq_cap q"
      "nb_key x \<notin> set (pq_keys q)" "pq_size q < pq_cap q \<or> nb_key x < last (pq_keys q)"
      "pq_keys q' = pool_insert (pq_cap q) (nb_key x) (pq_keys q)"
      "pq_done q' = pq_done q \<inter> set (pq_keys q')"
proof -
  have n: "pq_size q \<le> pq_cap q" "pq_size q \<le> length (pq_data q)"
    using wf by (auto simp: pq_wf_def)
  show thesis
  proof (cases "pq_size q = pq_cap q \<and> last (pq_keys q) < nb_key x")
    case True
    with wf that(1) show ?thesis by (auto simp: pq_insert_def pq_rejects_ok)
  next
    case False
    obtain r where r: "pq_locate (pq_data q) x 0 (pq_size q) = Inr r"
      and located: "pq_located (pq_data q) x (pq_size q) r"
      using pq_locate_range [of "pq_size q" "pq_data q" 0 "pq_size q" x] pq_wf_sorted [OF wf] n by auto
    have ins: "pq_insert q x = (case r of None \<Rightarrow> Inr (q, False)
        | Some lo \<Rightarrow> rbind (pq_place q x lo) (\<lambda>q'. Inr (q', True)))"
      using False wf by (auto simp: pq_insert_def pq_rejects_ok r)
    show ?thesis
    proof (cases r)
      case None
      with located obtain i where i: "i < pq_size q" "nb_id (pq_data q ! i) = nb_id x"
        by (auto simp: pq_located_def)
      then have "nb_key (pq_data q ! i) \<in> set (pq_keys q)"
        using wf by (auto simp: in_set_conv_nth nth_pq_keys)
      with i(2) ins None False that(2) show ?thesis by (auto simp: nb_key_def not_less)
    next
      case (Some k)
      with located have k: "k \<le> pq_size q"
        and low: "\<And>i. i < k \<Longrightarrow> nb_key (pq_data q ! i) \<le> nb_key x"
        and up: "\<And>i. k \<le> i \<Longrightarrow> i < pq_size q \<Longrightarrow> nb_key x < nb_key (pq_data q ! i)"
        and id: "k = 0 \<or> nb_id (pq_data q ! (k - 1)) \<noteq> nb_id x"
        by (auto simp: pq_located_def)
      have low': "nb_key (pq_data q ! i) < nb_key x" if "i < k" for i
      proof (cases "i = k - 1")
        case True
        with id that low [OF that] show ?thesis by (auto simp: nb_key_def less_prod_def' less_eq_prod_def)
      next
        case False
        with that k have "nb_key (pq_data q ! i) < nb_key (pq_data q ! (k - 1))"
          by (intro pq_wf_sorted [OF wf]) auto
        with low [of "k - 1"] that show ?thesis by (auto intro: less_le_trans)
      qed
      have new: "nb_key x \<notin> set (pq_keys q)"
      proof
        assume "nb_key x \<in> set (pq_keys q)"
        then obtain i where "i < pq_size q" "nb_key (pq_data q ! i) = nb_key x"
          using wf by (auto simp: in_set_conv_nth nth_pq_keys)
        with low' [of i] up [of i] show False by (cases "i < k") auto
      qed
      have "last (pq_keys q) < nb_key x" if "k = pq_size q" "0 < k"
        using low' [of "k - 1"] that pq_last_nth [OF wf] by simp
      with False k n pq_wfD(1) [OF wf] have cap: "k < pq_cap q" by fastforce
      have lt: "pq_size q < pq_cap q \<or> nb_key x < last (pq_keys q)"
      proof (rule disjCI)
        assume "\<not> nb_key x < last (pq_keys q)"
        moreover have "last (pq_keys q) \<in> set (pq_keys q)" if "pq_size q = pq_cap q"
          using that pq_wfD(1) [OF wf] wf by (intro last_in_set) (auto simp flip: length_0_conv)
        moreover have "last (pq_keys q) = nb_key x" if "pq_size q = pq_cap q"
          using that False calculation(1) by auto
        ultimately show "pq_size q < pq_cap q" using n(1) new by (cases "pq_size q = pq_cap q") auto
      qed
      from pq_place_ok [OF wf k cap low' up] that(3) [OF _ _ _ new lt] show ?thesis
        by (auto simp: ins Some)
    qed
  qed
qed

lemma pq_insert_wf:
  assumes "pq_wf q" and "pq_insert q x = Inr (q', b)"
  shows "pq_wf q'" and "pq_cap q' = pq_cap q" and "\<not> b \<Longrightarrow> q' = q"
  using assms by (cases rule: pq_insert_cases [where x = x]; simp)+

lemma pool_insert_far:
  assumes "pq_wf q" and "pq_size q = pq_cap q" and "last (pq_keys q) < k"
  shows "pool_insert (pq_cap q) k (pq_keys q) = pq_keys q"
proof -
  have "\<forall>y \<in> set (pq_keys q). y < k" using assms pq_keys_le_last le_less_trans by blast
  then show ?thesis
    using insort_split [of "pq_keys q" k "[]"] assms by (simp add: pool_insert_def)
qed

text \<open>
  Insertion refines \<open>pool_insert\<close>: under the hypothesis that the pool holds no other distance for the
  new id (distances are a function of the id in every search), the element enters exactly when it
  is new and smaller than the worst of a full pool.
\<close>

lemma pq_insert_refines:
  assumes wf: "pq_wf q"
    and ids: "\<And>d. (d, nb_id x) \<in> set (pq_keys q) \<Longrightarrow> d = nb_dist x"
  shows "\<exists>q'. pq_insert q x = Inr (q', nb_key x \<notin> set (pq_keys q) \<and>
        (pq_size q < pq_cap q \<or> nb_key x < last (pq_keys q))) \<and>
    pq_wf q' \<and> pq_cap q' = pq_cap q \<and>
    pq_keys q' = (if nb_key x \<in> set (pq_keys q) then pq_keys q
                  else pool_insert (pq_cap q) (nb_key x) (pq_keys q)) \<and>
    pq_done q' = pq_done q \<inter> set (pq_keys q')"
  using wf
proof (cases rule: pq_insert_cases [where x = x])
  case far
  then have "nb_key x \<notin> set (pq_keys q)" using pq_keys_le_last [OF wf] leD by blast
  with far wf show ?thesis by (auto simp: pool_insert_far Int_absorb2 [OF pq_done_subset])
next
  case (same d)
  with ids have "nb_key x \<in> set (pq_keys q)" by (simp add: nb_key_def)
  with same wf show ?thesis by (auto simp: Int_absorb2 [OF pq_done_subset])
qed auto

section \<open>The other operations\<close>

lemma pq_at_key:
  assumes "pq_wf q" and "i < length (pq_keys q)"
  shows "\<exists>n. pq_at q i = Inr n \<and> (nb_dist n, nb_id n) = pq_keys q ! i"
proof -
  have "i < pq_size q" "i < length (pq_data q)" using assms by (auto simp: pq_wf_def)
  with assms(1) show ?thesis by (simp add: pq_at_def nth_pq_keys nb_key_def)
qed

lemma pq_advance_bounds: "cur \<le> n \<Longrightarrow> cur \<le> pq_advance d n cur \<and> pq_advance d n cur \<le> n"
  by (induction d n cur rule: pq_advance.induct) (subst (1 2) pq_advance.simps, auto)

lemma pq_advance_expanded:
  "i < pq_advance d n cur \<Longrightarrow> cur \<le> i \<Longrightarrow> nb_expanded (d ! i)"
proof (induction d n cur rule: pq_advance.induct)
  case (1 d n cur)
  then show ?case
    by (cases "i = cur") (auto simp: pq_advance.simps [of d n cur] split: if_splits)
qed

lemma pq_advance_stop: "pq_advance d n cur < n \<Longrightarrow> \<not> nb_expanded (d ! pq_advance d n cur)"
proof (induction d n cur rule: pq_advance.induct)
  case (1 d n cur)
  then show ?case
    by (cases "cur < n \<and> nb_expanded (d ! cur)") (auto simp: pq_advance.simps [of d n cur])
qed

lemma pq_has_unexpanded_iff:
  assumes wf: "pq_wf q"
  shows "pq_has_unexpanded q \<longleftrightarrow> pq_done q \<noteq> set (pq_keys q)"
proof
  assume "pq_has_unexpanded q"
  then have "nb_key (pq_data q ! pq_cur q) \<in> set (pq_keys q) - pq_done q"
    using wf pq_wfD(7) [OF wf]
    by (auto simp: pq_has_unexpanded_def pq_done_nth in_set_conv_nth nth_pq_keys)
  then show "pq_done q \<noteq> set (pq_keys q)" by blast
next
  assume "pq_done q \<noteq> set (pq_keys q)"
  then obtain c where "c \<in> set (pq_keys q)" "c \<notin> pq_done q" using pq_done_subset [of q] by blast
  then obtain i where "i < pq_size q" "\<not> nb_expanded (pq_data q ! i)"
    using wf by (auto simp: in_set_conv_nth nth_pq_keys pq_done_nth)
  then show "pq_has_unexpanded q"
    using pq_wfD(6) [OF wf, of i] by (cases "i < pq_cur q") (auto simp: pq_has_unexpanded_def)
qed

text \<open>\<open>closest_unexpanded\<close> returns the least unexpanded key and marks it.\<close>

lemma pq_closest_unexpanded_refines:
  assumes wf: "pq_wf q" and some: "pq_has_unexpanded q"
  shows "\<exists>q' m. pq_closest_unexpanded q = Inr (q', m) \<and> pq_wf q' \<and> pq_cap q' = pq_cap q \<and>
    pq_keys q' = pq_keys q \<and> nb_key m \<in> set (pq_keys q) - pq_done q \<and>
    (\<forall>c \<in> set (pq_keys q) - pq_done q. nb_key m \<le> c) \<and> pq_done q' = insert (nb_key m) (pq_done q)"
proof -
  let ?i = "pq_cur q" and ?n = "pq_size q"
  let ?m = "(pq_data q ! ?i)\<lparr>nb_expanded := True\<rparr>"
  let ?d = "(pq_data q)[?i := ?m]"
  let ?q' = "q\<lparr>pq_data := ?d, pq_cur := pq_advance ?d ?n ?i\<rparr>"
  have i: "?i < ?n" "?n \<le> pq_cap q" "?n < length (pq_data q)"
    using some wf by (auto simp: pq_has_unexpanded_def pq_wf_def)
  have eq: "pq_closest_unexpanded q = Inr (?q', ?m)"
    using i by (simp add: pq_closest_unexpanded_def Let_def)
  have keys: "pq_keys ?q' = pq_keys q"
    using i by (auto simp: pq_keys_def pq_items_def take_update_swap map_update intro: list_update_same_conv [THEN iffD2])
  have wf': "pq_wf ?q'"
    unfolding pq_wf_def
  proof (intro conjI allI impI)
    have "sorted_wrt (<) (pq_keys ?q')" by (simp only: keys pq_keys_strict [OF wf])
    then show "sorted_wrt nb_lt (pq_items ?q')"
      by (simp add: pq_keys_def sorted_wrt_map nb_lt_key [abs_def])
    show "nb_expanded (pq_data ?q' ! j)" if "j < pq_cur ?q'" for j
      using that pq_wfD(6) [OF wf] pq_advance_expanded [of j ?d ?n ?i] i
      by (cases "j < ?i") auto
  qed (use pq_wfD(1-3) [OF wf] i pq_advance_bounds [of ?i ?n ?d] pq_advance_stop [of ?d ?n ?i] in auto)
  have key: "nb_key ?m = pq_keys q ! ?i" using wf i by (simp add: nth_pq_keys)
  have "c \<in> pq_done ?q' \<longleftrightarrow> c \<in> insert (nb_key ?m) (pq_done q)" if "c \<in> set (pq_keys q)" for c
  proof -
    from that wf obtain j where j: "j < ?n" "c = nb_key (pq_data q ! j)"
      by (auto simp: in_set_conv_nth nth_pq_keys)
    have "c \<in> pq_done ?q' \<longleftrightarrow> nb_expanded (?d ! j)"
      using pq_done_nth [OF wf', of j] j i by (cases "j = ?i") auto
    moreover have "c \<in> pq_done q \<longleftrightarrow> nb_expanded (pq_data q ! j)"
      using pq_done_nth [OF wf, of j] j by simp
    moreover have "c = nb_key ?m \<longleftrightarrow> j = ?i"
      using pq_wf_sorted [OF wf, of j ?i] pq_wf_sorted [OF wf, of ?i j] j i
      by (cases j ?i rule: linorder_cases) auto
    ultimately show ?thesis using i by (cases "j = ?i") auto
  qed
  moreover have mem: "nb_key ?m \<in> set (pq_keys q)" unfolding key using i wf by (intro nth_mem) simp
  ultimately have "pq_done ?q' = insert (nb_key ?m) (pq_done q)"
    using pq_done_subset [of q] pq_done_subset [of ?q', unfolded keys] by blast
  moreover have "nb_key ?m \<notin> pq_done q"
    using pq_done_nth [OF wf, of ?i] pq_wfD(7) [OF wf] i by simp
  moreover have "nb_key ?m \<le> c" if "c \<in> set (pq_keys q) - pq_done q" for c
  proof -
    from that wf obtain j where j: "j < ?n" "c = nb_key (pq_data q ! j)" "\<not> nb_expanded (pq_data q ! j)"
      by (auto simp: in_set_conv_nth nth_pq_keys pq_done_nth)
    with pq_wfD(6) [OF wf] have "?i \<le> j" by (meson not_le)
    with j pq_wf_sorted [OF wf, of ?i j] show ?thesis by (cases "?i = j") auto
  qed
  ultimately show ?thesis using eq wf' keys mem by auto
qed

lemma pq_closest_unexpanded_wf:
  assumes "pq_wf q" and "pq_has_unexpanded q" and "pq_closest_unexpanded q = Inr (q', m)"
  shows "pq_wf q'" "pq_cap q' = pq_cap q" "pq_keys q' = pq_keys q"
    "pq_done q' = insert (nb_key m) (pq_done q)" "nb_key m \<in> set (pq_keys q) - pq_done q"
  using pq_closest_unexpanded_refines [OF assms(1,2)] assms(3) by auto

lemma pq_clear_wf: "pq_wf q \<Longrightarrow> pq_wf (pq_clear q) \<and> pq_keys (pq_clear q) = [] \<and> pq_cap (pq_clear q) = pq_cap q"
  by (simp add: pq_clear_def pq_wf_def pq_items_def pq_keys_def)

lemma pq_reserve_wf:
  assumes "0 < c" and "pq_size q = 0" and "pq_cur q = 0"
  shows "pq_wf (pq_reserve q c)" "pq_keys (pq_reserve q c) = []" "pq_cap (pq_reserve q c) = c"
    "pq_done (pq_reserve q c) = {}"
  using assms by (auto simp: pq_reserve_def pq_wf_def pq_items_def pq_keys_def pq_done_def)

text \<open>Growing a queue that holds entries keeps them.\<close>

lemma pq_reserve_keeps:
  assumes "pq_wf q" and "pq_size q \<le> c" and "0 < c"
  shows "pq_wf (pq_reserve q c)" "pq_keys (pq_reserve q c) = pq_keys q"
    "pq_done (pq_reserve q c) = pq_done q"
proof -
  have n: "pq_size q \<le> length (pq_data q)" using assms by (simp add: pq_wf_def)
  have items: "pq_items (pq_reserve q c) = pq_items q" using n by (simp add: pq_items_def pq_reserve_def)
  show "pq_keys (pq_reserve q c) = pq_keys q" "pq_done (pq_reserve q c) = pq_done q"
    by (simp_all add: pq_keys_def pq_done_def items)
  show "pq_wf (pq_reserve q c)"
    unfolding pq_wf_def items using assms n
    by (auto simp: pq_wf_def pq_reserve_def nth_append)
qed

text \<open>A whole run of insertions, as the search loops make them.\<close>

definition pq_insert_all :: "('i::linorder \<Rightarrow> 'd::linorder) \<Rightarrow> 'i list \<Rightarrow> ('i, 'd) npq \<Rightarrow> ('i, 'd) npq result" where
  "pq_insert_all f is q =
     rfold (\<lambda>i q. rbind (pq_insert q (nbr_new i (f i))) (\<lambda>(q', b). Inr q')) is q"

lemma pq_insert_all_refines:
  assumes "pq_wf q" and "finite S" and "pq_keys q = least_keys (pq_cap q) ((\<lambda>i. (f i, i)) ` S)"
  shows "\<exists>q'. pq_insert_all f is q = Inr q' \<and> pq_wf q' \<and> pq_cap q' = pq_cap q \<and>
    pq_keys q' = least_keys (pq_cap q) ((\<lambda>i. (f i, i)) ` (S \<union> set is)) \<and>
    pq_done q' = pq_done q \<inter> set (pq_keys q')"
  using assms
proof (induction "is" arbitrary: q S)
  case Nil
  then show ?case using pq_done_subset [of q] by (auto simp: pq_insert_all_def)
next
  case (Cons i "is")
  let ?k = "\<lambda>i. (f i, i)"
  have sub: "set (pq_keys q) \<subseteq> ?k ` S" using Cons.prems by (simp add: set_least_keys)
  have ids: "d = f i" if "(d, i) \<in> set (pq_keys q)" for d using sub that by auto
  obtain q' b where q': "pq_insert q (nbr_new i (f i)) = Inr (q', b)" "pq_wf q'" "pq_cap q' = pq_cap q"
    "pq_keys q' = (if ?k i \<in> set (pq_keys q) then pq_keys q else pool_insert (pq_cap q) (?k i) (pq_keys q))"
    "pq_done q' = pq_done q \<inter> set (pq_keys q')"
    using pq_insert_refines [OF Cons.prems(1), of "nbr_new i (f i)", unfolded nbr_new_sel, OF ids] by blast
  have keys: "pq_keys q' = least_keys (pq_cap q') (?k ` insert i S)"
    using pool_insert_least_keys [of "?k ` S" "?k i" "pq_cap q"] Cons.prems sub q'(3,4)
    by (auto simp: insert_absorb)
  from Cons.IH [OF q'(2) _ keys] Cons.prems(2) obtain q2 where q2: "pq_insert_all f is q' = Inr q2"
    "pq_wf q2" "pq_cap q2 = pq_cap q" "pq_keys q2 = least_keys (pq_cap q) (?k ` (insert i S \<union> set is))"
    "pq_done q2 = pq_done q' \<inter> set (pq_keys q2)"
    using q'(3) by auto
  have "c \<in> set (pq_keys q')" if "c \<in> set (pq_keys q)" "c \<in> set (pq_keys q2)" for c
  proof -
    have "finite (?k ` (insert i S \<union> set is))" using Cons.prems(2) by simp
    moreover have "?k ` insert i S \<subseteq> ?k ` (insert i S \<union> set is)" by (rule image_mono) auto
    moreover have "c \<in> ?k ` insert i S" using that(1) sub by blast
    moreover have "c \<in> set (least_keys (pq_cap q) (?k ` (insert i S \<union> set is)))" using that(2) by (simp only: q2(4))
    ultimately have "c \<in> set (least_keys (pq_cap q) (?k ` insert i S))" by (rule least_keys_antimono)
    then show ?thesis by (simp only: keys q'(3))
  qed
  with pq_done_subset [of q] q'(5) q2(5) have d: "pq_done q2 = pq_done q \<inter> set (pq_keys q2)" by blast
  have "pq_insert_all f (i # is) q = Inr q2" using q2(1) by (simp add: pq_insert_all_def q'(1))
  moreover have "S \<union> set (i # is) = insert i S \<union> set is" by auto
  ultimately show ?case using q2(2-4) d by (intro exI [of _ q2] conjI) (simp_all only:)
qed

lemma pq_reserve_empty_keys: "pq_keys (pq_reserve pq_empty c) = []"
  by (simp add: pq_reserve_def pq_empty_def pq_keys_def pq_items_def)

section \<open>The two namespaces\<close>

text \<open>
  \<open>diskann\<close> uses vertex ids, \<open>dsmann\<close> pairs (server, local id) ordered lexicographically as
  \<open>std::pair\<close> is; the class is written out twice in the source.
\<close>

type_synonym item = "byte \<times> u32"

definition diskann_lt :: "(u32, 'd::linorder) nbr \<Rightarrow> (u32, 'd) nbr \<Rightarrow> bool" where
  "diskann_lt = nb_lt"

definition diskann_eq :: "(u32, 'd) nbr \<Rightarrow> (u32, 'd) nbr \<Rightarrow> bool" where
  "diskann_eq x y \<longleftrightarrow> nb_id x = nb_id y"

definition dsmann_lt :: "(item, 'd::linorder) nbr \<Rightarrow> (item, 'd) nbr \<Rightarrow> bool" where
  "dsmann_lt = nb_lt"

definition dsmann_eq :: "(item, 'd) nbr \<Rightarrow> (item, 'd) nbr \<Rightarrow> bool" where
  "dsmann_eq x y \<longleftrightarrow> nb_id x = nb_id y"

definition dsmann_new :: "nat \<Rightarrow> (item, 'd::zero) npq" where
  "dsmann_new = pq_new"

definition dsmann_insert ::
    "(item, 'd::linorder) npq \<Rightarrow> (item, 'd) nbr \<Rightarrow> ((item, 'd) npq \<times> bool) result" where
  "dsmann_insert = pq_insert"

definition dsmann_closest_unexpanded :: "(item, 'd) npq \<Rightarrow> ((item, 'd) npq \<times> (item, 'd) nbr) result" where
  "dsmann_closest_unexpanded = pq_closest_unexpanded"

definition dsmann_has_unexpanded :: "(item, 'd) npq \<Rightarrow> bool" where
  "dsmann_has_unexpanded = pq_has_unexpanded"

definition dsmann_reserve :: "(item, 'd::zero) npq \<Rightarrow> nat \<Rightarrow> (item, 'd) npq" where
  "dsmann_reserve = pq_reserve"

definition dsmann_at :: "(item, 'd) npq \<Rightarrow> nat \<Rightarrow> (item, 'd) nbr result" where
  "dsmann_at = pq_at"

definition dsmann_clear :: "(item, 'd) npq \<Rightarrow> (item, 'd) npq" where
  "dsmann_clear = pq_clear"

section \<open>Properties of the queue\<close>

text \<open>Every state a client can bring a queue of capacity \<open>c\<close> into.\<close>

inductive pq_reach :: "nat \<Rightarrow> ('i::{linorder,zero}, 'd::{linorder,zero}) npq \<Rightarrow> bool" for c where
  reserve: "pq_reach c (pq_reserve pq_empty c)"
| insert: "pq_reach c q \<Longrightarrow> pq_insert q (nbr_new i d) = Inr (q', b) \<Longrightarrow> pq_reach c q'"
| closest: "pq_reach c q \<Longrightarrow> pq_has_unexpanded q \<Longrightarrow> pq_closest_unexpanded q = Inr (q', m) \<Longrightarrow> pq_reach c q'"
| clear: "pq_reach c q \<Longrightarrow> pq_reach c (pq_clear q)"

lemma pq_reach_wf: "pq_reach c q \<Longrightarrow> 0 < c \<Longrightarrow> pq_wf q \<and> pq_cap q = c"
proof (induction rule: pq_reach.induct)
  case reserve
  then show ?case using pq_reserve_wf [of c pq_empty] by (auto simp: pq_empty_def)
next
  case (insert q i d q' b)
  then show ?case using pq_insert_wf(1,2) by blast
next
  case (closest q q' m)
  then show ?case using pq_closest_unexpanded_wf(1,2) by blast
next
  case (clear q)
  then show ?case using pq_clear_wf by blast
qed

text \<open>
  C9: in every state reached by insertions, removals and clears, the queue is strictly sorted by (distance, id), never
  exceeds its capacity, and the cursor is the first unexpanded entry: the invariant stated above
  the class.
\<close>

theorem queue_invariant:
  assumes "pq_reach c q" and "0 < c"
  shows "pq_size q \<le> c \<and> sorted_wrt nb_lt (take (pq_size q) (pq_data q)) \<and>
    (\<forall>i < pq_cur q. nb_expanded (pq_data q ! i)) \<and>
    (pq_has_unexpanded q \<longleftrightarrow> (\<exists>i < pq_size q. \<not> nb_expanded (pq_data q ! i))) \<and>
    (pq_has_unexpanded q \<longrightarrow> \<not> nb_expanded (pq_data q ! pq_cur q))"
proof -
  from pq_reach_wf [OF assms] have wf: "pq_wf q" and c: "pq_cap q = c" by auto
  have "pq_has_unexpanded q" if "i < pq_size q" "\<not> nb_expanded (pq_data q ! i)" for i
    using that pq_wfD(6) [OF wf, of i] by (cases "i < pq_cur q") (auto simp: pq_has_unexpanded_def)
  with wf c show ?thesis by (auto simp: pq_wf_def pq_items_def pq_has_unexpanded_def)
qed

theorem queue_invariant_witness:
  "\<exists>q :: (nat, nat) npq. pq_insert (pq_reserve pq_empty 1) (nbr_new 7 5) = Inr (q, True) \<and> pq_size q \<le> 1 \<and>
     sorted_wrt nb_lt (take (pq_size q) (pq_data q))"
proof -
  define q0 :: "(nat, nat) npq" where "q0 = pq_reserve pq_empty 1"
  obtain q where q: "pq_insert q0 (nbr_new 7 5) = Inr (q, True)"
    by (simp add: q0_def pq_insert_def pq_rejects_def pq_reserve_def pq_empty_def pq_locate.simps
        pq_place_def rmove_def rput_def memmove_list_def)
  have "pq_reach 1 q" using q by (auto simp: q0_def intro: pq_reach.intros)
  with q queue_invariant [of 1 q] show ?thesis by (auto simp: q0_def)
qed

text \<open>
  C10: a fresh queue of capacity \<open>L\<close> into which the search loops insert ids with the distances of a
  function \<open>f\<close>, in any order and with repetitions, holds exactly the \<open>L\<close> least (distance, id) pairs
  among them, in order, and no insertion leaves the storage.
\<close>

theorem queue_keeps_least:
  fixes f :: "'i::{linorder,zero} \<Rightarrow> 'd::{linorder,zero}"
  assumes "0 < L"
  shows "\<exists>q. pq_insert_all f is (pq_reserve pq_empty L) = Inr q \<and>
    pq_keys q = least_keys L ((\<lambda>i. (f i, i)) ` set is)"
proof -
  define q0 :: "('i, 'd) npq" where "q0 = pq_reserve pq_empty L"
  have "pq_wf q0" "pq_cap q0 = L" "pq_keys q0 = []"
    using pq_reserve_wf [OF assms, of pq_empty] by (simp_all add: q0_def pq_empty_def)
  with pq_insert_all_refines [of q0 "{}" f "is"] show ?thesis
    by (auto simp: q0_def least_keys_def)
qed

theorem queue_keeps_least_witness:
  "\<exists>q. pq_insert_all (\<lambda>i::nat. 10 - i) [3, 1, 4, 1, 5] (pq_reserve pq_empty 2) = Inr q \<and>
    pq_keys q = [(5, 5), (6, 4)]"
proof -
  have "least_keys 2 ((\<lambda>i::nat. (10 - i, i)) ` set [3, 1, 4, 1, 5]) = [(5, 5), (6, 4)]"
    unfolding least_keys_def set_map [symmetric] sorted_list_of_set_sort_remdups by code_simp
  with queue_keeps_least [of 2 "\<lambda>i::nat. 10 - i" "[3, 1, 4, 1, 5]"] show ?thesis by simp
qed

end
