(* ===== verification/Scratch.thy ===== *)
theory Scratch
  imports NeighborQueue
begin

text \<open>
  The per-thread search scratch space (\<open>InMemQueryScratch\<close> of both namespaces of
  \<open>include/neighbor.h\<close>) and the visited-list pool of \<open>include/visited_list_pool.h\<close>. A
  \<open>tsl::robin_set\<close> is a set; \<open>reserve\<close> on it is a hint without effect on the contents, recorded only in
  the trace field \<open>rs_hint\<close> of the per-server sets, because one constructor issues it too early.
\<close>

section \<open>\<open>diskann::InMemQueryScratch\<close>\<close>

record ('i, 'd) scratch =
  sc_L :: u32
  sc_R :: u32
  sc_best :: "('i, 'd) npq"
  sc_inserted_rs :: "'i set"
  sc_inserted_bs :: "bool list"
  sc_ids :: "'i list"

definition sc_resize_for_new_L ::
    "('i::zero, 'd::zero) scratch \<Rightarrow> u32 \<Rightarrow> ('i, 'd) scratch result" where
  "sc_resize_for_new_L s l =
     (if sc_L s < l then Inr (s\<lparr>sc_L := l, sc_best := pq_reserve (sc_best s) (unat l)\<rparr>)
      else Inl (Runtime_Error ''error@resize_for_new_L: resize failed.''))"

definition sc_new :: "u32 \<Rightarrow> u32 \<Rightarrow> ('i::zero, 'd::zero) scratch result" where
  "sc_new l r = sc_resize_for_new_L
     \<lparr>sc_L = 0, sc_R = r, sc_best = pq_empty, sc_inserted_rs = {}, sc_inserted_bs = [], sc_ids = []\<rparr> l"

text \<open>\<open>clear\<close> empties the sets and resets the bits, keeping their number.\<close>

definition sc_clear :: "('i, 'd) scratch \<Rightarrow> ('i, 'd) scratch" where
  "sc_clear s = s\<lparr>sc_best := pq_clear (sc_best s), sc_inserted_rs := {},
     sc_inserted_bs := replicate (length (sc_inserted_bs s)) False, sc_ids := []\<rparr>"

definition sc_wf :: "('i::linorder, 'd::linorder) scratch \<Rightarrow> bool" where
  "sc_wf s \<longleftrightarrow> pq_wf (sc_best s) \<and> pq_cap (sc_best s) = unat (sc_L s) \<and> 0 < sc_L s"

lemma sc_new_ok:
  "sc_new l r = (if 0 < l then Inr \<lparr>sc_L = l, sc_R = r, sc_best = pq_reserve pq_empty (unat l),
     sc_inserted_rs = {}, sc_inserted_bs = [], sc_ids = []\<rparr>
   else Inl (Runtime_Error ''error@resize_for_new_L: resize failed.''))"
  by (simp add: sc_new_def sc_resize_for_new_L_def)

lemma unat_gt_0_word: "0 < (l :: 'a::len word) \<Longrightarrow> 0 < unat l"
  by (simp add: unat_gt_0 word_gt_0)

lemma sc_new_wf:
  assumes "sc_new l r = Inr s"
  shows "sc_wf s" "pq_keys (sc_best s) = []" "sc_L s = l"
  using assms pq_reserve_wf [of "unat l" pq_empty] unat_gt_0_word [of l]
  by (auto simp: sc_new_ok sc_wf_def pq_empty_def split: if_splits)

lemma sc_clear_wf:
  assumes "sc_wf s"
  shows "sc_wf (sc_clear s)" "pq_keys (sc_best (sc_clear s)) = []" "sc_L (sc_clear s) = sc_L s"
  using assms pq_clear_wf [of "sc_best s"] by (auto simp: sc_wf_def sc_clear_def)

lemma sc_resize_wf:
  assumes "sc_wf s" and "sc_resize_for_new_L s l = Inr s'"
  shows "sc_wf s'" "pq_keys (sc_best s') = pq_keys (sc_best s)" "sc_L s' = l"
proof -
  have lt: "sc_L s < l" and s': "s' = s\<lparr>sc_L := l, sc_best := pq_reserve (sc_best s) (unat l)\<rparr>"
    using assms(2) by (auto simp: sc_resize_for_new_L_def split: if_splits)
  have "unat (sc_L s) < unat l" using lt by (simp add: word_less_nat_alt)
  with assms(1) have "pq_size (sc_best s) \<le> unat l" "0 < unat l" "0 < l"
    using lt by (auto simp: sc_wf_def pq_wf_def)
  with assms(1) pq_reserve_keeps [of "sc_best s" "unat l"]
  show "sc_wf s'" "pq_keys (sc_best s') = pq_keys (sc_best s)" "sc_L s' = l"
    by (auto simp: s' sc_wf_def pq_reserve_def)
qed

section \<open>\<open>dsmann::InMemQueryScratch\<close>\<close>

record rset =
  rs_elems :: "u32 set"
  rs_hint :: nat

definition rset_empty :: rset where
  "rset_empty = \<lparr>rs_elems = {}, rs_hint = 0\<rparr>"

record 'd ds_scratch =
  ds_L :: u32
  ds_R :: u32
  ds_best :: "(item, 'd) npq"
  ds_inserted :: "rset list"
  ds_items :: "item list"

definition ds_resize_for_new_L :: "('d::zero) ds_scratch \<Rightarrow> u32 \<Rightarrow> 'd ds_scratch result" where
  "ds_resize_for_new_L s l =
     (if ds_L s < l then
        Inr (s\<lparr>ds_L := l, ds_best := dsmann_reserve (ds_best s) (unat l),
               ds_inserted := map (\<lambda>r. r\<lparr>rs_hint := unat (20 * l)\<rparr>) (ds_inserted s)\<rparr>)
      else Inl (Runtime_Error ''error@resize_for_new_L: resize failed.''))"

definition ds_new :: "u32 \<Rightarrow> u32 \<Rightarrow> u32 \<Rightarrow> ('d::zero) ds_scratch result" where
  "ds_new l r num_servers =
     rbind (ds_resize_for_new_L
        \<lparr>ds_L = 0, ds_R = r, ds_best = pq_empty, ds_inserted = [], ds_items = []\<rparr> l)
       (\<lambda>s. Inr (s\<lparr>ds_inserted := ds_inserted s @ replicate (unat num_servers - length (ds_inserted s)) rset_empty\<rparr>))"

definition ds_clear :: "'d ds_scratch \<Rightarrow> 'd ds_scratch" where
  "ds_clear s = s\<lparr>ds_best := dsmann_clear (ds_best s),
     ds_inserted := map (\<lambda>r. r\<lparr>rs_elems := {}\<rparr>) (ds_inserted s), ds_items := []\<rparr>"

definition ds_wf :: "('d::linorder) ds_scratch \<Rightarrow> bool" where
  "ds_wf s \<longleftrightarrow> pq_wf (ds_best s) \<and> pq_cap (ds_best s) = unat (ds_L s) \<and> 0 < ds_L s"

lemma ds_new_ok:
  assumes "0 < l"
  shows "ds_new l r n = Inr \<lparr>ds_L = l, ds_R = r, ds_best = pq_reserve pq_empty (unat l),
     ds_inserted = replicate (unat n) rset_empty, ds_items = []\<rparr>"
  using assms by (simp add: ds_new_def ds_resize_for_new_L_def dsmann_reserve_def)

lemma ds_new_zero: "ds_new 0 r n = Inl (Runtime_Error ''error@resize_for_new_L: resize failed.'')"
  by (simp add: ds_new_def ds_resize_for_new_L_def)

lemma ds_new_wf:
  assumes "ds_new l r n = Inr s"
  shows "ds_wf s" "pq_keys (ds_best s) = []" "ds_L s = l" "length (ds_inserted s) = unat n"
proof -
  have "0 < l" using assms by (cases "l = 0") (auto simp: word_gt_0 ds_new_zero)
  with assms have "s = \<lparr>ds_L = l, ds_R = r, ds_best = pq_reserve pq_empty (unat l),
     ds_inserted = replicate (unat n) rset_empty, ds_items = []\<rparr>" by (simp add: ds_new_ok)
  with \<open>0 < l\<close> pq_reserve_wf [of "unat l" pq_empty] unat_gt_0_word [of l]
  show "ds_wf s" "pq_keys (ds_best s) = []" "ds_L s = l" "length (ds_inserted s) = unat n"
    by (auto simp: ds_wf_def pq_empty_def)
qed

lemma ds_clear_wf:
  assumes "ds_wf s"
  shows "ds_wf (ds_clear s)" "pq_keys (ds_best (ds_clear s)) = []" "ds_L (ds_clear s) = ds_L s"
    "\<forall>r \<in> set (ds_inserted (ds_clear s)). rs_elems r = {}"
  using assms pq_clear_wf [of "ds_best s"] by (auto simp: ds_wf_def ds_clear_def dsmann_clear_def)

section \<open>Visited lists\<close>

text \<open>
  A list marks the elements visited in the current round by the 16-bit round number \<open>curV\<close>; the array
  is wiped only when the number wraps around to 0.
\<close>

record vlist =
  vl_cur :: u16
  vl_mass :: "u16 list"

text \<open>\<open>new vl_type[n]\<close> is not initialised, so the constructor's contents are a parameter.\<close>

definition vl_new :: "u16 list \<Rightarrow> vlist" where
  "vl_new garbage = \<lparr>vl_cur = -1, vl_mass = garbage\<rparr>"

definition vl_reset :: "vlist \<Rightarrow> vlist" where
  "vl_reset v =
     (let c = vl_cur v + 1 in
      if c = 0 then v\<lparr>vl_cur := c + 1, vl_mass := replicate (length (vl_mass v)) 0\<rparr>
      else v\<lparr>vl_cur := c\<rparr>)"

definition vl_mark :: "vlist \<Rightarrow> nat \<Rightarrow> vlist" where
  "vl_mark v i = v\<lparr>vl_mass := (vl_mass v)[i := vl_cur v]\<rparr>"

definition vl_visited :: "vlist \<Rightarrow> nat set" where
  "vl_visited v = {i. i < length (vl_mass v) \<and> vl_mass v ! i = vl_cur v}"

record vpool =
  vp_num :: nat
  vp_lists :: "vlist list"

definition vp_new :: "u16 list list \<Rightarrow> nat \<Rightarrow> vpool" where
  "vp_new gs n = \<lparr>vp_num = n, vp_lists = rev (map vl_new gs)\<rparr>"

definition vp_get :: "u16 list \<Rightarrow> vpool \<Rightarrow> vpool \<times> vlist" where
  "vp_get garbage p = (case vp_lists p of
     [] \<Rightarrow> (p, vl_reset (vl_new garbage))
   | v # vs \<Rightarrow> (p\<lparr>vp_lists := vs\<rparr>, vl_reset v))"

definition vp_release :: "vpool \<Rightarrow> vlist \<Rightarrow> vpool" where
  "vp_release p v = p\<lparr>vp_lists := v # vp_lists p\<rparr>"

text \<open>
  Between resets no slot holds a number above the current round, except before the first reset,
  when the round number is \<open>-1\<close>, the largest.
\<close>

definition vl_wf :: "vlist \<Rightarrow> bool" where
  "vl_wf v \<longleftrightarrow> (\<forall>m \<in> set (vl_mass v). m \<le> vl_cur v)"

lemma vl_new_wf: "vl_wf (vl_new g)"
  by (simp add: vl_wf_def vl_new_def)

lemma vl_mark_wf: "vl_wf v \<Longrightarrow> vl_wf (vl_mark v i)"
  by (auto simp: vl_wf_def vl_mark_def dest!: set_update_subset_insert [THEN subsetD])

lemma word_less_Suc: "(c :: 'a::len word) + 1 \<noteq> 0 \<Longrightarrow> c < c + 1"
  using unatSuc [of c] by (simp add: word_less_nat_alt add.commute)

lemma vl_reset_wf: "vl_wf v \<Longrightarrow> vl_wf (vl_reset v)"
  using word_less_Suc [of "vl_cur v"]
  by (auto simp: vl_wf_def vl_reset_def Let_def intro: order_trans less_imp_le)

text \<open>After a reset nothing counts as visited, whatever the array held and across the wrap-around.\<close>

lemma vl_reset_none: "vl_wf v \<Longrightarrow> vl_visited (vl_reset v) = {}"
proof (cases "vl_cur v + 1 = 0")
  case False
  assume "vl_wf v"
  then have "vl_mass v ! i \<noteq> vl_cur v + 1" if "i < length (vl_mass v)" for i
    using word_less_Suc [OF False] nth_mem [OF that] by (force simp: vl_wf_def)
  with False show ?thesis by (auto simp: vl_reset_def vl_visited_def Let_def)
qed (auto simp: vl_reset_def vl_visited_def Let_def)

lemma vl_mark_visited:
  "i < length (vl_mass v) \<Longrightarrow> vl_visited (vl_mark v i) = insert i (vl_visited v)"
  by (auto simp: vl_visited_def vl_mark_def nth_list_update)

definition vp_wf :: "vpool \<Rightarrow> bool" where
  "vp_wf p \<longleftrightarrow> (\<forall>v \<in> set (vp_lists p). vl_wf v \<and> length (vl_mass v) = vp_num p)"

lemma vp_new_wf: "(\<forall>g \<in> set gs. length g = n) \<Longrightarrow> vp_wf (vp_new gs n)"
  by (auto simp: vp_wf_def vp_new_def vl_new_wf) (simp add: vl_new_def)

lemma vp_get_ok:
  assumes "vp_wf p" and "length g = vp_num p" and "vp_get g p = (p', v)"
  shows "vp_wf p'" "vl_wf v" "vl_visited v = {}" "length (vl_mass v) = vp_num p"
  using assms vl_reset_wf vl_reset_none vl_new_wf
  by (auto simp: vp_get_def vp_wf_def split: list.splits)
    (auto simp: vl_reset_def vl_new_def Let_def)

lemma vp_release_wf:
  "vp_wf p \<Longrightarrow> vl_wf v \<Longrightarrow> length (vl_mass v) = vp_num p \<Longrightarrow> vp_wf (vp_release p v)"
  by (simp add: vp_wf_def vp_release_def)

end
