(* ===== verification/InsertPool.thy ===== *)
theory InsertPool
  imports NeighborQueue
begin

text \<open>
  \<open>InsertIntoPool\<close> and \<open>InsertIntoPoolItem\<close> of \<open>include/neighbor.h\<close>: insertion into an array that is
  sorted by distance only. The array has one slot more than the \<open>K\<close> entries in use. The two functions
  have the same text up to the type of the key.
\<close>

record ('i, 'd) pnbr =
  pn_id :: 'i
  pn_dist :: 'd
  pn_flag :: bool

definition pnbr_new :: "'i \<Rightarrow> 'd \<Rightarrow> bool \<Rightarrow> ('i, 'd) pnbr" where
  "pnbr_new i d f = \<lparr>pn_id = i, pn_dist = d, pn_flag = f\<rparr>"

definition pn_lt :: "('i, 'd::linorder) pnbr \<Rightarrow> ('i, 'd) pnbr \<Rightarrow> bool" where
  "pn_lt x y \<longleftrightarrow> pn_dist x < pn_dist y"

text \<open>\<open>while (left < right - 1)\<close>: the indices are in range on entry, and stay between their first values.\<close>

function ip_bisect :: "('i, 'd::linorder) pnbr list \<Rightarrow> ('i, 'd) pnbr \<Rightarrow> nat \<Rightarrow> nat \<Rightarrow> nat \<times> nat" where
  "ip_bisect a x left right =
     (if left + 1 < right then
        let mid = (left + right) div 2 in
        if pn_dist x < pn_dist (a ! mid) then ip_bisect a x left mid else ip_bisect a x mid right
      else (left, right))"
  by pat_completeness auto
termination by (relation "measure (\<lambda>(a, x, left, right). right - left)") auto

declare ip_bisect.simps [simp del]

text \<open>\<open>while (left > 0)\<close>: \<open>None\<close> when the id is met, otherwise the index at which the scan stops.\<close>

fun ip_scan :: "('i, 'd::linorder) pnbr list \<Rightarrow> ('i, 'd) pnbr \<Rightarrow> nat \<Rightarrow> nat option" where
  "ip_scan a x 0 = Some 0"
| "ip_scan a x (Suc l) =
     (if pn_dist (a ! Suc l) < pn_dist x then Some (Suc l)
      else if pn_id (a ! Suc l) = pn_id x then None
      else ip_scan a x l)"

text \<open>The function returns the array and the position, or \<open>K + 1\<close> when the id is already there.\<close>

definition insert_into_pool ::
    "('i, 'd::linorder) pnbr list \<Rightarrow> nat \<Rightarrow> ('i, 'd) pnbr \<Rightarrow> (('i, 'd) pnbr list \<times> nat) result" where
  "insert_into_pool a K x =
     rbind (rget a 0) (\<lambda>first.
     if pn_dist x < pn_dist first then
       rbind (rmove a 1 0 K) (\<lambda>a. Inr (a[0 := x], 0))
     else if K = 0 then Inl Out_Of_Bounds
     else rbind (rget a (K - 1)) (\<lambda>lst.
     if pn_dist lst < pn_dist x then rbind (rput a K x) (\<lambda>a. Inr (a, K))
     else let (left, right) = ip_bisect a x 0 (K - 1) in
       case ip_scan a x left of
         None \<Rightarrow> Inr (a, K + 1)
       | Some l \<Rightarrow>
           if pn_id (a ! l) = pn_id x \<or> pn_id (a ! right) = pn_id x then Inr (a, K + 1)
           else rbind (rmove a (right + 1) right (K - right)) (\<lambda>a. Inr (a[right := x], right))))"

definition insert_into_pool_item ::
    "(item, 'd::linorder) pnbr list \<Rightarrow> nat \<Rightarrow> (item, 'd) pnbr \<Rightarrow> ((item, 'd) pnbr list \<times> nat) result" where
  "insert_into_pool_item = insert_into_pool"

definition efanna_insert_into_pool ::
    "(u32, 'd::linorder) pnbr list \<Rightarrow> nat \<Rightarrow> (u32, 'd) pnbr \<Rightarrow> ((u32, 'd) pnbr list \<times> nat) result" where
  "efanna_insert_into_pool = insert_into_pool"

section \<open>Correctness\<close>

abbreviation pn_sorted :: "('i, 'd::linorder) pnbr list \<Rightarrow> bool" where
  "pn_sorted xs \<equiv> sorted (map pn_dist xs)"

lemma ip_bisect_range:
  "left \<le> right \<Longrightarrow> ip_bisect a x left right = (l, r) \<Longrightarrow> left \<le> l \<and> l \<le> r \<and> r \<le> right \<and> r \<le> l + 1"
proof (induction a x left right rule: ip_bisect.induct)
  case (1 a x left right)
  show ?case
  proof (cases "left + 1 < right")
    case True
    let ?mid = "(left + right) div 2"
    have "left \<le> ?mid" "?mid \<le> right" using True by auto
    with 1 True show ?thesis
      by (auto simp: ip_bisect.simps [of a x left right] Let_def split: if_splits)
  next
    case False
    with 1 show ?thesis by (auto simp: ip_bisect.simps [of a x left right])
  qed
qed

lemma ip_bisect_left:
  "pn_dist (a ! left) \<le> pn_dist x \<Longrightarrow> ip_bisect a x left right = (l, r) \<Longrightarrow> pn_dist (a ! l) \<le> pn_dist x"
proof (induction a x left right rule: ip_bisect.induct)
  case (1 a x left right)
  then show ?case
    by (auto simp: ip_bisect.simps [of a x left right] Let_def not_less split: if_splits)
qed

lemma ip_bisect_right:
  "ip_bisect a x left right = (l, r) \<Longrightarrow> r = right \<or> pn_dist x < pn_dist (a ! r)"
proof (induction a x left right rule: ip_bisect.induct)
  case (1 a x left right)
  then show ?case
    by (auto simp: ip_bisect.simps [of a x left right] Let_def split: if_splits)
qed

lemma ip_scan_Some:
  "ip_scan a x left = Some l \<Longrightarrow> l \<le> left \<and> (l = 0 \<or> pn_dist (a ! l) < pn_dist x) \<and>
     (\<forall>i. l < i \<and> i \<le> left \<longrightarrow> pn_dist x \<le> pn_dist (a ! i) \<and> pn_id (a ! i) \<noteq> pn_id x)"
proof (induction a x left rule: ip_scan.induct)
  case (2 a x left)
  then show ?case by (auto simp: not_less le_Suc_eq split: if_splits)
qed simp

lemma ip_scan_None: "ip_scan a x left = None \<Longrightarrow> \<exists>i \<le> left. pn_id (a ! i) = pn_id x"
  by (induction a x left rule: ip_scan.induct) (auto split: if_splits intro: le_SucI)

text \<open>What it means that \<open>x\<close> was put at position \<open>r\<close> of the first \<open>K\<close> entries.\<close>

definition ip_placed ::
    "('i, 'd::linorder) pnbr list \<Rightarrow> nat \<Rightarrow> ('i, 'd) pnbr \<Rightarrow> ('i, 'd) pnbr list \<Rightarrow> nat \<Rightarrow> bool" where
  "ip_placed a K x a' r \<longleftrightarrow> r \<le> K \<and> length a' = length a \<and>
     take (K + 1) a' = take r a @ x # drop r (take K a) \<and> pn_sorted (take (K + 1) a')"

lemma ip_placedI:
  assumes "r \<le> K" and "K < length a" and "pn_sorted (take K a)"
    and "\<And>i. i < r \<Longrightarrow> pn_dist (a ! i) \<le> pn_dist x"
    and "\<And>i. r \<le> i \<Longrightarrow> i < K \<Longrightarrow> pn_dist x \<le> pn_dist (a ! i)"
  shows "ip_placed a K x ((memmove_list a (r + 1) r (K - r))[r := x]) r"
proof -
  have eq: "take (K + 1) ((memmove_list a (r + 1) r (K - r))[r := x]) = take r a @ x # drop r (take K a)"
    using take_memmove_gap [OF assms(1,2)] by simp
  have "take K a = take r a @ drop r (take K a)"
    using assms(1) append_take_drop_id [of r "take K a"] by (simp add: min_absorb1)
  then have "pn_sorted (take r a @ drop r (take K a))" using assms(3) by simp
  moreover have "\<forall>y \<in> set (take r a). pn_dist y \<le> pn_dist x"
    using assms(1,2,4) by (simp add: all_set_conv_all_nth)
  moreover have "\<forall>y \<in> set (drop r (take K a)). pn_dist x \<le> pn_dist y"
    using assms(1,2,5) by (simp add: all_set_conv_all_nth)
  ultimately have "pn_sorted (take r a @ x # drop r (take K a))"
    by (auto simp: sorted_append)
  with assms(1,2) eq show ?thesis by (simp add: ip_placed_def)
qed

lemma insert_into_pool_correct:
  assumes K: "0 < K" "K < length a" and sorted: "pn_sorted (take K a)"
  shows "\<exists>a' r. insert_into_pool a K x = Inr (a', r) \<and>
     (r = K + 1 \<and> a' = a \<and> (\<exists>i < K. pn_id (a ! i) = pn_id x) \<or>
      ip_placed a K x a' r \<and> \<not> (\<exists>i < K. pn_id (a ! i) = pn_id x \<and> pn_dist (a ! i) = pn_dist x))"
proof -
  have mono: "pn_dist (a ! i) \<le> pn_dist (a ! j)" if "i \<le> j" "j < K" for i j
    using sorted_nth_mono [OF sorted, of i j] that K by simp
  have [simp]: "a \<noteq> []" using K by auto
  consider (first) "pn_dist x < pn_dist (a ! 0)"
    | (lst) "\<not> pn_dist x < pn_dist (a ! 0)" "pn_dist (a ! (K - 1)) < pn_dist x"
    | (mid) "\<not> pn_dist x < pn_dist (a ! 0)" "\<not> pn_dist (a ! (K - 1)) < pn_dist x" by blast
  then show ?thesis
  proof cases
    case first
    then have "pn_dist x < pn_dist (a ! i)" if "i < K" for i using mono [of 0 i] that by auto
    moreover from this have "ip_placed a K x ((memmove_list a 1 0 K)[0 := x]) 0"
      using ip_placedI [OF _ K(2) sorted, of 0 x] by (auto simp: less_imp_le)
    moreover have "insert_into_pool a K x = Inr ((memmove_list a 1 0 K)[0 := x], 0)"
      using first K by (simp add: insert_into_pool_def)
    ultimately show ?thesis by fastforce
  next
    case lst
    have less: "pn_dist (a ! i) < pn_dist x" if "i < K" for i 
    proof -
      have "pn_dist (a ! i) \<le> pn_dist (a ! (K - 1))" using that K by (intro mono) auto
      then show ?thesis using lst(2) by (rule le_less_trans)
    qed
    have "ip_placed a K x (a[K := x]) K"
      using ip_placedI [OF le_refl K(2) sorted, of x] K less by (simp add: memmove_list_def less_imp_le)
    moreover have "insert_into_pool a K x = Inr (a[K := x], K)"
      using lst K by (simp add: insert_into_pool_def)
    ultimately show ?thesis using less by fastforce
  next
    case mid
    obtain left right where lr: "ip_bisect a x 0 (K - 1) = (left, right)" by fastforce
    from ip_bisect_range [OF _ lr] have range: "left \<le> right" "right \<le> K - 1" "right \<le> left + 1" by auto
    have low: "pn_dist (a ! left) \<le> pn_dist x" using ip_bisect_left [OF _ lr] mid(1) by (simp add: not_less)
    have up: "right = K - 1 \<or> pn_dist x < pn_dist (a ! right)" using ip_bisect_right [OF lr] .
    have ins: "insert_into_pool a K x = (case ip_scan a x left of None \<Rightarrow> Inr (a, K + 1)
        | Some l \<Rightarrow> if pn_id (a ! l) = pn_id x \<or> pn_id (a ! right) = pn_id x then Inr (a, K + 1)
           else Inr ((memmove_list a (right + 1) right (K - right))[right := x], right))"
      using mid K range by (simp add: insert_into_pool_def lr [unfolded One_nat_def] split: option.split)
    show ?thesis
    proof (cases "ip_scan a x left")
      case None
      with ip_scan_None [OF None] range K show ?thesis by (fastforce simp: ins)
    next
      case (Some l)
      note l = ip_scan_Some [OF Some]
      show ?thesis
      proof (cases "pn_id (a ! l) = pn_id x \<or> pn_id (a ! right) = pn_id x")
        case True
        with l range K have "\<exists>i < K. pn_id (a ! i) = pn_id x"
          by (metis One_nat_def Suc_pred le_imp_less_Suc le_trans)
        with True Some show ?thesis by (simp add: ins)
      next
        case False
        have "pn_dist (a ! i) \<le> pn_dist x" if "i < right" for i
        proof -
          have "i \<le> left" "left < K" using that range K by auto
          then have "pn_dist (a ! i) \<le> pn_dist (a ! left)" by (rule mono)
          then show ?thesis using low by (rule order_trans)
        qed
        moreover have "pn_dist x \<le> pn_dist (a ! i)" if "right \<le> i" "i < K" for i
        proof -
          have "pn_dist x \<le> pn_dist (a ! right)" using up mid(2) by (auto simp: not_less)
          also have "\<dots> \<le> pn_dist (a ! i)" using that by (rule mono)
          finally show ?thesis .
        qed
        ultimately have placed: "ip_placed a K x ((memmove_list a (right + 1) right (K - right))[right := x]) right"
          using range by (intro ip_placedI [OF _ K(2) sorted]) auto
        have "pn_dist (a ! i) \<noteq> pn_dist x" if i: "i < K" "pn_id (a ! i) = pn_id x" for i
        proof -
          have "i \<noteq> l" "i \<noteq> right" "\<not> (l < i \<and> i \<le> left)" using False i l by auto
          then consider "i < l" | "right < i" using range l by linarith
          then show ?thesis
          proof cases
            case 1
            with l range K have "i \<le> l" "l < K" "pn_dist (a ! l) < pn_dist x" by auto
            with mono [of i l] show ?thesis by auto
          next
            case 2
            with up i have "right \<le> i" "pn_dist x < pn_dist (a ! right)" by auto
            with i mono [of right i] show ?thesis by auto
          qed
        qed
        with placed Some False show ?thesis by (auto simp: ins)
      qed
    qed
  qed
qed

end
