(* ===== verification/ByteMemory.thy ===== *)
theory ByteMemory
  imports Prelude
begin

text \<open>
  Byte-addressed memory: an allocation is a list of bytes, a pointer into it an offset. Every access
  checks the bounds of the allocation. Integers are stored little-endian, as on the x86 machines the
  program is written for (it uses \<open>memcpy\<close> and pointer casts on them).
\<close>

unbundle bit_operations_syntax

section \<open>Little-endian integers\<close>

definition le_bytes :: "nat \<Rightarrow> 'a::len word \<Rightarrow> byte list" where
  "le_bytes n w = map (\<lambda>i. ucast (drop_bit (8 * i) w)) [0..<n]"

fun le_word :: "byte list \<Rightarrow> 'a::len word" where
  "le_word [] = 0"
| "le_word (b # bs) = ucast b OR push_bit 8 (le_word bs)"

lemma length_le_bytes [simp]: "length (le_bytes n w) = n"
  by (simp add: le_bytes_def)

lemma bit_le_word:
  "bit (le_word bs :: 'a::len word) j \<longleftrightarrow> j < LENGTH('a) \<and> j div 8 < length bs \<and> bit (bs ! (j div 8)) (j mod 8)"
proof (induction bs arbitrary: j)
  case (Cons b bs)
  show ?case
  proof (cases "j < 8")
    case True
    then show ?thesis by (auto simp: bit_simps)
  next
    case False
    then have "j div 8 = Suc ((j - 8) div 8)" "j mod 8 = (j - 8) mod 8"
      by (simp_all add: le_div_geq le_mod_geq)
    moreover have "\<not> bit b j" using False bit_imp_le_length [of b j] by auto
    ultimately show ?thesis using False Cons.IH [of "j - 8"] by (auto simp: bit_simps)
  qed
qed simp

lemma bit_le_bytes: "i < n \<Longrightarrow> k < 8 \<Longrightarrow> bit (le_bytes n (w :: 'a::len word) ! i) k \<longleftrightarrow> bit w (8 * i + k)"
  by (auto simp: le_bytes_def bit_simps add.commute dest: bit_imp_le_length)

lemma le_word_bytes:
  fixes w :: "'a::len word"
  assumes "LENGTH('a) \<le> 8 * n"
  shows "le_word (le_bytes n w) = w"
proof (rule bit_word_eqI)
  fix j assume j: "j < LENGTH('a)"
  then have "j div 8 < n" using assms by auto
  moreover have "8 * (j div 8) + j mod 8 = j" "j mod 8 < 8" by simp_all
  ultimately show "bit (le_word (le_bytes n w) :: 'a word) j \<longleftrightarrow> bit w j"
    using j by (simp only: bit_le_word bit_le_bytes length_le_bytes simp_thms)
qed

section \<open>Slices\<close>

definition slice :: "'a list \<Rightarrow> nat \<Rightarrow> nat \<Rightarrow> 'a list" where
  "slice m off n = take n (drop off m)"

lemma length_slice [simp]: "off + n \<le> length m \<Longrightarrow> length (slice m off n) = n"
  by (simp add: slice_def)

lemma slice_slice: "i + k \<le> n \<Longrightarrow> slice (slice m off n) i k = slice m (off + i) k"
  by (simp add: slice_def take_drop drop_drop add.commute min_absorb1)

lemma slice_prefix: "slice m off n = bs @ cs \<Longrightarrow> slice m off (length bs) = bs"
  by (metis append_eq_conv_conj length_append min.absorb1 le_add1 slice_def take_take length_take min.cobounded1 min_def order_trans)

section \<open>Loads and stores\<close>

definition load :: "byte list \<Rightarrow> nat \<Rightarrow> nat \<Rightarrow> byte list result" where
  "load m off n = (if off + n \<le> length m then Inr (slice m off n) else Inl Out_Of_Bounds)"

definition store :: "byte list \<Rightarrow> nat \<Rightarrow> byte list \<Rightarrow> byte list result" where
  "store m off bs =
     (if off + length bs \<le> length m then Inr (take off m @ bs @ drop (off + length bs) m)
      else Inl Out_Of_Bounds)"

definition load8 :: "byte list \<Rightarrow> nat \<Rightarrow> byte result" where
  "load8 m off = rbind (load m off 1) (\<lambda>bs. Inr (le_word bs))"

definition load32 :: "byte list \<Rightarrow> nat \<Rightarrow> u32 result" where
  "load32 m off = rbind (load m off 4) (\<lambda>bs. Inr (le_word bs))"

definition store32 :: "byte list \<Rightarrow> nat \<Rightarrow> u32 \<Rightarrow> byte list result" where
  "store32 m off w = store m off (le_bytes 4 w)"

text \<open>An array of 32-bit values: \<open>memcpy\<close> of a float vector, or reading it through a pointer.\<close>

definition bytes32s :: "u32 list \<Rightarrow> byte list" where
  "bytes32s ws = concat (map (le_bytes 4) ws)"

definition load32s :: "byte list \<Rightarrow> nat \<Rightarrow> nat \<Rightarrow> u32 list result" where
  "load32s m off n = rmap (\<lambda>i. load32 m (off + 4 * i)) [0..<n]"

lemma length_bytes32s [simp]: "length (bytes32s ws) = 4 * length ws"
  by (induction ws) (simp_all add: bytes32s_def)

lemma store_Nil [simp]: "off \<le> length m \<Longrightarrow> store m off [] = Inr m"
  by (simp add: store_def)

lemma length_store: "store m off bs = Inr m' \<Longrightarrow> length m' = length m"
  by (auto simp: store_def split: if_splits)

text \<open>Writing a record field after field is writing it at once.\<close>

lemma store_append:
  "store m off (bs @ cs) = rbind (store m off bs) (\<lambda>m. store m (off + length bs) cs)"
  by (auto simp: store_def ac_simps)

lemma slice_store_same:
  "store m off bs = Inr m' \<Longrightarrow> slice m' off (length bs) = bs"
  by (auto simp: store_def slice_def split: if_splits)

lemma slice_store_other:
  assumes "store m off bs = Inr m'" and "o2 + n \<le> off \<or> off + length bs \<le> o2"
  shows "slice m' o2 n = slice m o2 n"
proof (rule nth_equalityI)
  have len: "length m' = length m" using assms(1) by (rule length_store)
  then show "length (slice m' o2 n) = length (slice m o2 n)" by (simp add: slice_def)
  fix i assume "i < length (slice m' o2 n)"
  then show "slice m' o2 n ! i = slice m o2 n ! i"
    using assms len by (auto simp: store_def slice_def nth_append split: if_splits)
qed

lemma load_slice: "slice m off n = bs \<Longrightarrow> off + n \<le> length m \<Longrightarrow> load m off n = Inr bs"
  by (simp add: load_def)

lemma load32_slice:
  "slice m off 4 = le_bytes 4 w \<Longrightarrow> off + 4 \<le> length m \<Longrightarrow> load32 m off = Inr w"
  by (simp add: load32_def load_slice le_word_bytes)

lemma load8_slice:
  "slice m off 1 = le_bytes 1 w \<Longrightarrow> off + 1 \<le> length m \<Longrightarrow> load8 m off = Inr w"
  by (simp add: load8_def load_slice le_word_bytes)

lemma slice_bytes32s: "i < length ws \<Longrightarrow> slice (bytes32s ws) (4 * i) 4 = le_bytes 4 (ws ! i)"
proof (induction ws arbitrary: i)
  case (Cons w ws)
  then show ?case
    by (cases i) (simp_all add: bytes32s_def slice_def)
qed simp

lemma load32s_slice:
  assumes "slice m off (4 * length ws) = bytes32s ws" and "off + 4 * length ws \<le> length m"
  shows "load32s m off (length ws) = Inr ws"
proof -
  have "load32 m (off + 4 * i) = Inr (ws ! i)" if "i < length ws" for i
  proof (rule load32_slice)
    have "slice m (off + 4 * i) 4 = slice (slice m off (4 * length ws)) (4 * i) 4"
      using that by (simp add: slice_slice)
    then show "slice m (off + 4 * i) 4 = le_bytes 4 (ws ! i)"
      using that by (simp add: assms(1) slice_bytes32s)
  qed (use assms(2) that in simp)
  then have "load32s m off (length ws) = Inr (map ((!) ws) [0..<length ws])"
    unfolding load32s_def by (intro rmap_pure) simp
  then show ?thesis by (simp add: map_nth)
qed

section \<open>Filling an array of fixed-size records\<close>

text \<open>
  Writing record \<open>v\<close> of at most \<open>sz\<close> bytes at \<open>v * sz\<close> for \<open>v = 0, 1, ..\<close> leaves every record in place.
\<close>

lemma fill_records:
  assumes "\<And>v. v < n \<Longrightarrow> length (rec v) \<le> sz" and "length m = n * sz"
  shows "\<exists>m'. rfold (\<lambda>v m. store m (v * sz) (rec v)) [0..<n] m = Inr m' \<and> length m' = n * sz \<and>
    (\<forall>v < n. slice m' (v * sz) (length (rec v)) = rec v)"
proof -
  let ?P = "\<lambda>vs m'. length m' = n * sz \<and> (\<forall>v \<in> set vs. slice m' (v * sz) (length (rec v)) = rec v)"
  have "\<exists>m'. rfold (\<lambda>v m. store m (v * sz) (rec v)) [0..<n] m = Inr m' \<and> ?P [0..<n] m'"
  proof (rule rfold_invariant)
    fix ys v zs m assume split: "[0..<n] = ys @ v # zs" and inv: "?P ys m"
    have "v < n" using split by (metis atLeastLessThan_iff in_set_conv_decomp set_upt)
    have less: "u < v" if "u \<in> set ys" for u
      using sorted_wrt_upt [of 0 n] that unfolding split by (simp add: sorted_wrt_append)
    have "v * sz + length (rec v) \<le> v * sz + sz" using assms(1) [OF \<open>v < n\<close>] by simp
    also have "\<dots> = Suc v * sz" by simp
    also have "\<dots> \<le> n * sz" using \<open>v < n\<close> by (intro mult_le_mono1) simp
    finally obtain m' where m': "store m (v * sz) (rec v) = Inr m'" using inv by (simp add: store_def)
    have "slice m' (u * sz) (length (rec u)) = rec u" if "u \<in> set ys" for u
    proof -
      have "u * sz + length (rec u) \<le> Suc u * sz" using assms(1) [of u] less [OF that] \<open>v < n\<close> by simp
      also have "\<dots> \<le> v * sz" using less [OF that] by (intro mult_le_mono1) simp
      finally show ?thesis using slice_store_other [OF m', of "u * sz" "length (rec u)"] inv that by simp
    qed
    with slice_store_same [OF m'] length_store [OF m'] inv m'
    show "\<exists>m'. store m (v * sz) (rec v) = Inr m' \<and> ?P (ys @ [v]) m'" by auto
  qed (use assms(2) in simp)
  then show ?thesis by auto
qed

end
