(* ===== verification/IndexState.thy ===== *)
theory IndexState
  imports ByteMemory NeighborQueue
begin

text \<open>
  The state of \<open>numaann::Index\<close> (\<open>include/index.h\<close>), field by field. A float array is the list of the 32-bit
  patterns of its elements, \<open>None\<close> a null pointer. The queries of the model never look inside a
  float: comparison functions are parameters.
\<close>

record index =
  ix_coarse_num :: nat
  ix_coarse_data :: "u32 list option"
  ix_dimension :: nat
  ix_learn_num :: nat
  ix_learn_data :: "u32 list option"
  ix_learn_graph :: "u32 list list"
  ix_learn_graph_R :: u32
  ix_learn_graph_EP :: u32
  ix_learn_projection :: "u32 list list"
  ix_learn_in_bucket :: "u32 list option"
  ix_learn_local_ratio :: "(nat \<times> nat) list"
  ix_base_num :: nat
  ix_base_data :: "u32 list option"
  ix_base_graph :: "u32 list list"
  ix_base_graph_R :: u32
  ix_base_graph_EP :: u32
  ix_element_num :: nat
  ix_element_size :: nat
  ix_data_offset :: nat
  ix_label_offset :: nat
  ix_neighbor_offset :: nat
  ix_base_index_R :: u32
  ix_base_index :: "byte list option"
  ix_base_index_EP :: u32
  ix_bucket_count :: nat
  ix_data_num :: "nat list"
  ix_base_in_bucket :: "u32 list option"
  ix_base_to_lid :: "u32 list"
  ix_buckets :: "byte list list"
  ix_membkt_EP :: item

text \<open>
  A constructed index: the member initialisers of the class; members without one (numbers read before
  they are set nowhere in the program) are 0 here.
\<close>

definition index_new :: index where
  "index_new = \<lparr>ix_coarse_num = 0, ix_coarse_data = None, ix_dimension = 0, ix_learn_num = 0,
     ix_learn_data = None, ix_learn_graph = [], ix_learn_graph_R = 0, ix_learn_graph_EP = 0,
     ix_learn_projection = [], ix_learn_in_bucket = None, ix_learn_local_ratio = [], ix_base_num = 0,
     ix_base_data = None, ix_base_graph = [], ix_base_graph_R = 0, ix_base_graph_EP = 0,
     ix_element_num = 0, ix_element_size = 0, ix_data_offset = 0, ix_label_offset = 0,
     ix_neighbor_offset = 0, ix_base_index_R = 0, ix_base_index = None, ix_base_index_EP = 0,
     ix_bucket_count = 0, ix_data_num = [], ix_base_in_bucket = None, ix_base_to_lid = [],
     ix_buckets = [], ix_membkt_EP = (0, 0)\<rparr>"

text \<open>Dereferencing a pointer that may be null.\<close>

definition deref :: "'a option \<Rightarrow> 'a result" where
  "deref p = (case p of None \<Rightarrow> Inl Out_Of_Bounds | Some x \<Rightarrow> Inr x)"

lemma deref_Some [simp]: "deref (Some x) = Inr x"
  by (simp add: deref_def)

lemma deref_eq_Inr [result_simps]: "deref p = Inr x \<longleftrightarrow> p = Some x"
  by (auto simp: deref_def split: option.splits)

text \<open>Reading \<open>n\<close> elements of an array from position \<open>i\<close> (the source of a \<open>memcpy\<close>).\<close>

definition rslice :: "'a list \<Rightarrow> nat \<Rightarrow> nat \<Rightarrow> 'a list result" where
  "rslice xs i n = (if i + n \<le> length xs then Inr (slice xs i n) else Inl Out_Of_Bounds)"

lemma rslice_ok [simp]: "i + n \<le> length xs \<Longrightarrow> rslice xs i n = Inr (slice xs i n)"
  by (simp add: rslice_def)

lemma row_bound: "v < n \<Longrightarrow> v * d + d \<le> n * (d::nat)"
proof -
  assume "v < n"
  then have "Suc v * d \<le> n * d" by (intro mult_le_mono1) simp
  then show ?thesis by simp
qed

text \<open>
  \<open>for (unsigned i = 0; i < n; i++)\<close> with a 64-bit \<open>n\<close>: the 32-bit counter wraps around and the loop
  does not end when \<open>n\<close> exceeds its range.
\<close>

definition loop32 :: "nat \<Rightarrow> (nat \<Rightarrow> 's \<Rightarrow> 's result) \<Rightarrow> 's \<Rightarrow> 's result" where
  "loop32 n f s = (if n < 2 ^ 32 then rfold f [0..<n] s else Inl Out_Of_Fuel)"

lemma loop32_ok [simp]: "n < 2 ^ 32 \<Longrightarrow> loop32 n f s = rfold f [0..<n] s"
  by (simp add: loop32_def)

text \<open>What C promises of \<open>malloc\<close>: memory, if any, of the size asked for.\<close>

definition malloc_ok :: "(nat \<Rightarrow> byte list option) \<Rightarrow> bool" where
  "malloc_ok malloc \<longleftrightarrow> (\<forall>n m. malloc n = Some m \<longrightarrow> length m = n)"

lemma malloc_ok_length: "malloc_ok malloc \<Longrightarrow> malloc n = Some m \<Longrightarrow> length m = n"
  by (simp add: malloc_ok_def)

end
