(* ===== verification/Partition.thy ===== *)
theory Partition
  imports IndexState
begin

text \<open>
  Assigning base vectors to servers: \<open>compute_closest_point\<close>, \<open>compute_closest_coarse_cluster\<close>, and the two loops of
  \<open>generate_base_index_on_buckets\<close> that choose a bucket for every vertex and a slot in the bucket.
\<close>

section \<open>The closest point\<close>

text \<open>The loop keeps the first point at the least distance met so far.\<close>

fun closest_loop :: "(nat \<Rightarrow> 'd::linorder result) \<Rightarrow> nat list \<Rightarrow> nat \<Rightarrow> 'd \<Rightarrow> nat result" where
  "closest_loop d [] best m = Inr best"
| "closest_loop d (i # is) best m =
     rbind (d i) (\<lambda>x. if x < m then closest_loop d is i x else closest_loop d is best m)"

definition compute_closest_point ::
    "u32 list option \<Rightarrow> nat \<Rightarrow> nat \<Rightarrow> u32 list option \<Rightarrow> (u32 list \<Rightarrow> u32 list \<Rightarrow> 'd::linorder) \<Rightarrow> u32 result" where
  "compute_closest_point base base_num base_dim query cmp =
     (case (base, query) of
        (Some data, Some q) \<Rightarrow>
          if base_num = 0 \<or> base_dim = 0 then Inl (Runtime_Error ''error@compute_closest_point'')
          else let d = (\<lambda>i. rbind (rslice data (i * base_dim) base_dim) (\<lambda>x. Inr (cmp x q))) in
            rbind (d 0) (\<lambda>m. rbind (closest_loop d [1..<base_num] 0 m) (\<lambda>c. Inr (of_nat c)))
      | _ \<Rightarrow> Inl (Runtime_Error ''error@compute_closest_point''))"

definition compute_closest_coarse_cluster ::
    "index \<Rightarrow> (u32 list \<Rightarrow> u32 list \<Rightarrow> 'd::linorder) \<Rightarrow> u32 list option \<Rightarrow> u32 result" where
  "compute_closest_coarse_cluster ix cmp point =
     (if ix_coarse_data ix = None then Inl (Runtime_Error ''error@compute_closest_coarse_cluster'')
      else compute_closest_point (ix_coarse_data ix) (ix_coarse_num ix) (ix_dimension ix) point cmp)"

text \<open>The least index among those of least value.\<close>

definition first_min :: "(nat \<Rightarrow> 'd::linorder) \<Rightarrow> nat \<Rightarrow> nat \<Rightarrow> bool" where
  "first_min f n c \<longleftrightarrow> c < n \<and> (\<forall>i < n. f c \<le> f i) \<and> (\<forall>i < c. f c < f i)"

lemma first_min_unique: "first_min f n c \<Longrightarrow> first_min f n c' \<Longrightarrow> c = c'"
  by (metis first_min_def leD linorder_neqE_nat)

lemma closest_loop_first_min:
  assumes "\<And>i. i < n \<Longrightarrow> d i = Inr (f i)" and "first_min f k c" and "k \<le> n" and "m = f c"
  shows "\<exists>c'. closest_loop d [k..<n] c m = Inr c' \<and> first_min f n c'"
  using assms(2-4)
proof (induction "n - k" arbitrary: k c m)
  case 0
  then show ?case by simp
next
  case (Suc j)
  then have k: "k < n" "[k..<n] = k # [Suc k..<n]" by (auto simp: upt_conv_Cons)
  let ?c = "if f k < f c then k else c"
  have min: "first_min f (Suc k) ?c"
    using Suc.prems(1) by (auto simp: first_min_def less_Suc_eq not_less dest: less_le_trans less_imp_le)
  have "closest_loop d [k..<n] c m = closest_loop d [Suc k..<n] ?c (f ?c)"
    using assms(1) [OF k(1)] Suc.prems(3) by (simp add: k(2))
  with Suc.hyps(1) [OF _ min] Suc.hyps(2) k(1) show ?case by simp
qed

lemma closest_point_first_min:
  assumes "base_num \<noteq> 0" and "base_dim \<noteq> 0" and "length data = base_num * base_dim" and "base_num < 2 ^ 32"
  shows "\<exists>c. compute_closest_point (Some data) base_num base_dim (Some q) cmp = Inr (of_nat c) \<and>
    first_min (\<lambda>i. cmp (slice data (i * base_dim) base_dim) q) base_num c"
proof -
  let ?f = "\<lambda>i. cmp (slice data (i * base_dim) base_dim) q"
  let ?d = "\<lambda>i. rbind (rslice data (i * base_dim) base_dim) (\<lambda>x. Inr (cmp x q))"
  have d: "?d i = Inr (?f i)" if "i < base_num" for i
    using row_bound [OF that, of base_dim] assms(3) by simp
  have "first_min ?f 1 0" by (simp add: first_min_def)
  from closest_loop_first_min [of base_num ?d ?f 1 0, OF d this _ refl] assms(1)
  obtain c where "closest_loop ?d [1..<base_num] 0 (?f 0) = Inr c" "first_min ?f base_num c" by auto
  with d [of 0] assms(1,2) show ?thesis
    by (intro exI [of _ c]) (simp add: compute_closest_point_def Let_def)
qed

section \<open>Buckets and slots\<close>

text \<open>
  \<open>server_id_t bucket_id = compute_closest_coarse_cluster (..)\<close>: the cluster number is cut to one byte. The
  array \<open>_base_in_bucket\<close> holds it as an \<open>unsigned\<close>.
\<close>

definition assign_buckets :: "index \<Rightarrow> (u32 list \<Rightarrow> u32 list \<Rightarrow> 'd::linorder) \<Rightarrow> u32 list \<Rightarrow> u32 list result" where
  "assign_buckets ix cmp data =
     rmap (\<lambda>v. rbind (rslice data (v * ix_dimension ix) (ix_dimension ix)) (\<lambda>x.
       rbind (compute_closest_coarse_cluster ix cmp (Some x)) (\<lambda>c.
       Inr (ucast (ucast c :: byte))))) [0..<ix_base_num ix]"

text \<open>One iteration of the second loop, over the counters, the places and the local ids.\<close>

definition place_vertex ::
    "u32 list \<Rightarrow> nat \<Rightarrow> nat list \<times> item list \<times> u32 list \<Rightarrow> (nat list \<times> item list \<times> u32 list) result" where
  "place_vertex in_bucket v = (\<lambda>(data_num, place, lid).
     rbind (rget in_bucket v) (\<lambda>b.
     let bucket = ucast b :: byte in
     rbind (rget data_num (unat bucket)) (\<lambda>c.
     let local_id = of_nat c :: u32 in
     rbind (rput place v (bucket, local_id)) (\<lambda>place.
     rbind (rput data_num (unat bucket) (c + 1)) (\<lambda>data_num.
     rbind (rput lid v local_id) (\<lambda>lid.
     Inr (data_num, place, lid)))))))"

definition place_vertices ::
    "u32 list \<Rightarrow> nat \<Rightarrow> nat list \<times> item list \<times> u32 list \<Rightarrow> (nat list \<times> item list \<times> u32 list) result" where
  "place_vertices in_bucket n = loop32 n (place_vertex in_bucket)"

text \<open>Where vertex \<open>id\<close> goes: its bucket, and the number of earlier vertices in the bucket.\<close>

definition bucket_of :: "u32 list \<Rightarrow> nat \<Rightarrow> byte" where
  "bucket_of bb v = ucast (bb ! v)"

definition earlier :: "u32 list \<Rightarrow> nat \<Rightarrow> byte \<Rightarrow> nat" where
  "earlier bb v b = card {j. j < v \<and> bucket_of bb j = b}"

definition place_of :: "u32 list \<Rightarrow> nat \<Rightarrow> item" where
  "place_of bb v = (bucket_of bb v, of_nat (earlier bb v (bucket_of bb v)))"

lemma earlier_le: "earlier bb v b \<le> v"
proof -
  have "earlier bb v b \<le> card {..<v}" unfolding earlier_def by (intro card_mono) auto
  then show ?thesis by simp
qed

lemma earlier_Suc: "earlier bb (Suc v) b = earlier bb v b + (if bucket_of bb v = b then 1 else 0)"
proof -
  have "{j. j < Suc v \<and> bucket_of bb j = b}
      = (if bucket_of bb v = b then insert v {j. j < v \<and> bucket_of bb j = b} else {j. j < v \<and> bucket_of bb j = b})"
    by (auto simp: less_Suc_eq)
  then show ?thesis by (simp add: earlier_def)
qed

lemma earlier_mono: "i \<le> j \<Longrightarrow> earlier bb i b \<le> earlier bb j b"
  unfolding earlier_def by (intro card_mono) auto

lemma earlier_strict: "i < j \<Longrightarrow> earlier bb i (bucket_of bb i) < earlier bb j (bucket_of bb i)"
  using earlier_mono [of "Suc i" j bb "bucket_of bb i"] by (simp add: earlier_Suc)

lemma place_vertices_ok:
  assumes n: "n < 2 ^ 32" and len: "length bb = n" "length pl = n" "length li = n"
    and ok: "\<And>v. v < n \<Longrightarrow> unat (bucket_of bb v) < k" and k: "k \<le> 256"
  shows "place_vertices bb n (replicate k 0, pl, li) =
    Inr (map (\<lambda>b. earlier bb n (of_nat b)) [0..<k], map (place_of bb) [0..<n], map (snd \<circ> place_of bb) [0..<n])"
proof -
  let ?dn = "\<lambda>t. map (\<lambda>b. earlier bb t (of_nat b)) [0..<k]"
  let ?P = "\<lambda>ys (dn, p, l). dn = ?dn (length ys) \<and> p = map (place_of bb) [0..<length ys] @ drop (length ys) pl \<and>
    l = map (snd \<circ> place_of bb) [0..<length ys] @ drop (length ys) li"
  have "\<exists>s'. rfold (place_vertex bb) [0..<n] (replicate k 0, pl, li) = Inr s' \<and> ?P [0..<n] s'"
  proof (rule rfold_invariant)
    show "?P [] (replicate k 0, pl, li)" by (simp add: earlier_def map_replicate_const)
  next
    fix ys v zs and s :: "nat list \<times> item list \<times> u32 list"
    assume split: "[0..<n] = ys @ v # zs" and inv: "?P ys s"
    have v: "v = length ys" "length ys < n"
      using upt_split [OF split] by auto
    obtain dn p l where s: "s = (dn, p, l)" by (cases s)
    let ?b = "bucket_of bb v" and ?t = "length ys"
    have b: "unat ?b < k" "of_nat (unat ?b) = ?b" using ok [OF v(2)] by (simp_all add: v(1))
    have dn: "dn ! unat ?b = earlier bb ?t ?b" "length dn = k" using inv b by (simp_all add: s)
    have step: "place_vertex bb v s = Inr (dn[unat ?b := earlier bb ?t ?b + 1], p[v := place_of bb v],
        l[v := snd (place_of bb v)])"
      using inv v len b dn by (simp add: place_vertex_def s Let_def place_of_def bucket_of_def)
    have "(of_nat c = ?b) = (c = unat ?b)" if "c < k" for c
      using that k b(2) by (metis unat_of_nat_eq_byte order_less_le_trans)
    moreover have "unat (of_nat c :: byte) = c" if "c < k" for c using that k by (simp add: unat_of_nat)
    ultimately have "dn[unat ?b := earlier bb ?t ?b + 1] = ?dn (length (ys @ [v]))"
      using inv b(1) by (intro nth_equalityI) (auto simp: s nth_list_update earlier_Suc v(1))
    moreover have "p[v := place_of bb v] = map (place_of bb) [0..<length (ys @ [v])] @ drop (length (ys @ [v])) pl"
      using inv v len by (intro nth_equalityI) (auto simp: s nth_list_update nth_append)
    moreover have "l[v := snd (place_of bb v)] = map (snd \<circ> place_of bb) [0..<length (ys @ [v])] @ drop (length (ys @ [v])) li"
      using inv v len by (intro nth_equalityI) (auto simp: s nth_list_update nth_append)
    ultimately show "\<exists>s'. place_vertex bb v s = Inr s' \<and> ?P (ys @ [v]) s'" by (simp add: step)
  qed
  then show ?thesis using n len by (auto simp: place_vertices_def)
qed

text \<open>Different vertices get different places, and each place is below the count of its bucket.\<close>

lemma place_of_inj:
  assumes "n < 2 ^ 32"
  shows "inj_on (place_of bb) {..<n}"
proof (rule linorder_inj_onI')
  fix i j assume ij: "i \<in> {..<n}" "j \<in> {..<n}" "i < j"
  have "earlier bb i (bucket_of bb i) < 2 ^ 32" "earlier bb j (bucket_of bb j) < 2 ^ 32"
    using earlier_le [of bb i "bucket_of bb i"] earlier_le [of bb j "bucket_of bb j"] ij assms by auto
  with earlier_strict [OF ij(3), of bb] show "place_of bb i \<noteq> place_of bb j"
    by (metis (no_types) place_of_def prod.inject unat_of_nat32 nat_neq_iff)
qed

lemma place_of_slot:
  assumes "v < n" and "n < 2 ^ 32"
  shows "unat (snd (place_of bb v)) = earlier bb v (bucket_of bb v)"
    and "unat (snd (place_of bb v)) < earlier bb n (bucket_of bb v)"
proof -
  show "unat (snd (place_of bb v)) = earlier bb v (bucket_of bb v)"
    using earlier_le [of bb v "bucket_of bb v"] assms by (simp add: place_of_def unat_of_nat32)
  with earlier_strict [OF assms(1), of bb] show "unat (snd (place_of bb v)) < earlier bb n (bucket_of bb v)"
    by simp
qed

text \<open>Every slot below the count is taken.\<close>

lemma place_of_surj:
  "l < earlier bb n b \<Longrightarrow> \<exists>v < n. bucket_of bb v = b \<and> earlier bb v b = l"
proof (induction n)
  case (Suc n)
  show ?case
  proof (cases "l < earlier bb n b")
    case True
    with Suc.IH show ?thesis by (auto intro: less_SucI)
  next
    case False
    with Suc.prems have "bucket_of bb n = b" "l = earlier bb n b" by (auto simp: earlier_Suc split: if_splits)
    then show ?thesis by auto
  qed
qed (simp add: earlier_def)

end
