(* ===== verification/GreedySpec.thy ===== *)
theory GreedySpec
  imports NeighborQueue
begin

text \<open>
  What the graph searches promise, without queues, bytes or servers: repeatedly expand the nearest
  unexpanded vertex among the \<open>L\<close> nearest vertices seen so far, until all of those are expanded.
  A vertex is keyed by its distance and, for ties, its id.
\<close>

section \<open>Abstract graphs\<close>

record 'i agraph =
  ag_nodes :: "'i set"
  ag_edges :: "'i \<Rightarrow> 'i list"
  ag_vec :: "'i \<Rightarrow> u32 list"
  ag_label :: "'i \<Rightarrow> u32"

definition ag_wf :: "'i agraph \<Rightarrow> bool" where
  "ag_wf g \<longleftrightarrow> finite (ag_nodes g) \<and> (\<forall>v \<in> ag_nodes g. set (ag_edges g v) \<subseteq> ag_nodes g)"

inductive_set ag_reach :: "'i agraph \<Rightarrow> 'i set \<Rightarrow> 'i set" for g S where
  start: "v \<in> S \<Longrightarrow> v \<in> ag_reach g S"
| edge: "v \<in> ag_reach g S \<Longrightarrow> w \<in> set (ag_edges g v) \<Longrightarrow> w \<in> ag_reach g S"

lemma ag_reach_nodes: "ag_wf g \<Longrightarrow> S \<subseteq> ag_nodes g \<Longrightarrow> ag_reach g S \<subseteq> ag_nodes g"
proof
  fix v assume wf: "ag_wf g" "S \<subseteq> ag_nodes g" and "v \<in> ag_reach g S"
  from this(3) show "v \<in> ag_nodes g" by (induction rule: ag_reach.induct) (use wf in \<open>auto simp: ag_wf_def\<close>)
qed

section \<open>The search\<close>

definition vkey :: "('i \<Rightarrow> 'd) \<Rightarrow> 'i \<Rightarrow> 'd \<times> 'i" where
  "vkey D v = (D v, v)"

lemma vkey_inj [simp]: "vkey D v = vkey D w \<longleftrightarrow> v = w"
  by (auto simp: vkey_def)

lemma snd_vkey [simp]: "snd (vkey D v) = v"
  by (simp add: vkey_def)

definition pool :: "nat \<Rightarrow> ('i::linorder \<Rightarrow> 'd::linorder) \<Rightarrow> 'i set \<Rightarrow> ('d \<times> 'i) list" where
  "pool L D V = least_keys L (vkey D ` V)"

fun greedy ::
    "nat \<Rightarrow> ('i::linorder \<Rightarrow> 'd::linorder) \<Rightarrow> ('i \<Rightarrow> 'i list) \<Rightarrow> nat \<Rightarrow> 'i set \<Rightarrow> ('d \<times> 'i) set \<Rightarrow>
     ('d \<times> 'i) list option" where
  "greedy L D E 0 V X = None"
| "greedy L D E (Suc n) V X = (case filter (\<lambda>k. k \<notin> X) (pool L D V) of
     [] \<Rightarrow> Some (pool L D V)
   | k # _ \<Rightarrow> greedy L D E n (V \<union> set (E (snd k))) (insert k X))"

lemma set_pool: "finite V \<Longrightarrow> set (pool L D V) \<subseteq> vkey D ` V"
  unfolding pool_def by (intro set_least_keys) simp

lemma pool_mem_antimono:
  assumes "finite W" and "V \<subseteq> W" and "k \<in> vkey D ` V" and "k \<in> set (pool L D W)"
  shows "k \<in> set (pool L D V)"
proof -
  have "finite (vkey D ` W)" "vkey D ` V \<subseteq> vkey D ` W" using assms by auto
  from least_keys_antimono [OF this assms(3)] assms(4) show ?thesis by (simp add: pool_def)
qed

text \<open>Each round expands a new vertex, so one round more than there are vertices is enough.\<close>

lemma greedy_terminates:
  assumes "ag_wf g" and "V \<subseteq> ag_nodes g" and "X \<subseteq> vkey D ` ag_nodes g" and "card (ag_nodes g) - card X < n"
  shows "\<exists>P. greedy L D (ag_edges g) n V X = Some P"
  using assms
proof (induction n arbitrary: V X)
  case (Suc n)
  have fin: "finite (ag_nodes g)" "finite V" "finite X"
    using Suc.prems by (auto simp: ag_wf_def intro: finite_subset finite_imageI)
  show ?case
  proof (cases "filter (\<lambda>k. k \<notin> X) (pool L D V)")
    case (Cons k ks)
    then have "k \<in> set (filter (\<lambda>k. k \<notin> X) (pool L D V))" by simp
    then have k: "k \<notin> X" "k \<in> vkey D ` V" using set_pool [OF fin(2)] by auto
    then have k': "k \<in> vkey D ` ag_nodes g" "snd k \<in> ag_nodes g" using Suc.prems(2) by auto
    have "card (insert k X) \<le> card (vkey D ` ag_nodes g)"
      using fin k' Suc.prems(3) by (intro card_mono) auto
    also have "\<dots> \<le> card (ag_nodes g)" using fin(1) by (rule card_image_le)
    finally have "card (ag_nodes g) - card (insert k X) < n"
      using Suc.prems(4) fin(3) k(1) by simp
    then have "\<exists>P. greedy L D (ag_edges g) n (V \<union> set (ag_edges g (snd k))) (insert k X) = Some P"
      using Suc.prems k' by (intro Suc.IH) (auto simp: ag_wf_def)
    with Cons show ?thesis by simp
  qed simp
qed simp

text \<open>
  What holds of the result: it is the pool of a set of seen vertices, all of them reachable, which
  contains every out-neighbour of a vertex of the pool.
\<close>

lemma greedy_result:
  assumes "greedy L D E n V X = Some P" and "\<forall>k \<in> X. set (E (snd k)) \<subseteq> V" and "V \<subseteq> R"
    and "\<And>v. v \<in> R \<Longrightarrow> set (E v) \<subseteq> R" and "finite R"
  shows "\<exists>W. P = pool L D W \<and> V \<subseteq> W \<and> W \<subseteq> R \<and> (\<forall>k \<in> set P. set (E (snd k)) \<subseteq> W)"
  using assms(1-3)
proof (induction n arbitrary: V X)
  case (Suc n)
  have fin: "finite V" using Suc.prems(3) assms(5) by (rule finite_subset)
  show ?case
  proof (cases "filter (\<lambda>k. k \<notin> X) (pool L D V)")
    case Nil
    then have "set (pool L D V) \<subseteq> X" by (auto simp: filter_empty_conv)
    with Nil Suc.prems show ?thesis by (intro exI [of _ V]) auto
  next
    case (Cons k ks)
    then have "k \<in> set (filter (\<lambda>k. k \<notin> X) (pool L D V))" by simp
    then have "k \<in> vkey D ` V" using set_pool [OF fin, of L D] by auto
    then have "snd k \<in> R" using Suc.prems(3) by auto
    with assms(4) Suc.prems(3) have "V \<union> set (E (snd k)) \<subseteq> R" by auto
    moreover have "\<forall>k' \<in> insert k X. set (E (snd k')) \<subseteq> V \<union> set (E (snd k))" using Suc.prems(2) by auto
    moreover have "greedy L D E n (V \<union> set (E (snd k))) (insert k X) = Some P"
      using Suc.prems(1) Cons by simp
    ultimately obtain W where "P = pool L D W" "V \<union> set (E (snd k)) \<subseteq> W" "W \<subseteq> R"
      "\<forall>k \<in> set P. set (E (snd k)) \<subseteq> W"
      using Suc.IH [of "V \<union> set (E (snd k))" "insert k X"] by metis
    then show ?thesis by (intro exI [of _ W] conjI) auto
  qed
qed simp

lemma pool_sorted: "sorted_wrt (<) (pool L D V)"
  by (simp add: pool_def least_keys_strict)

lemma length_pool: "finite V \<Longrightarrow> length (pool L D V) = min L (card V)"
  by (simp add: pool_def least_keys_def card_image inj_on_def)

text \<open>A seen vertex outside the pool is no nearer than any vertex of a full pool.\<close>

lemma pool_beats:
  assumes "finite V" and "v \<in> V" and "vkey D v \<notin> set (pool L D V)" and "k \<in> set (pool L D V)"
  shows "k < vkey D v \<and> length (pool L D V) = L"
proof -
  let ?xs = "sorted_list_of_set (vkey D ` V)"
  have "vkey D v \<in> set ?xs" using assms(1,2) by simp
  then have dr: "vkey D v \<in> set (drop L ?xs)"
    using assms(3) unfolding pool_def least_keys_def
    by (metis Un_iff append_take_drop_id set_append)
  have "sorted_wrt (<) (take L ?xs @ drop L ?xs)" by simp
  then have "k < vkey D v"
    using dr assms(4) unfolding sorted_wrt_append pool_def least_keys_def by blast
  moreover have "L < length ?xs" using dr by (cases "L < length ?xs") auto
  ultimately show ?thesis by (simp add: pool_def least_keys_def)
qed

text \<open>With room for every reachable vertex the search visits all of them.\<close>

lemma greedy_exhaustive:
  assumes "greedy L D (ag_edges g) n S {} = Some P" and "ag_wf g" and "S \<subseteq> ag_nodes g"
    and "card (ag_reach g S) \<le> L"
  shows "P = pool L D (ag_reach g S)"
proof -
  let ?R = "ag_reach g S"
  have fin: "finite ?R"
    using ag_reach_nodes [OF assms(2,3)] assms(2) finite_subset by (auto simp: ag_wf_def)
  have "\<exists>W. P = pool L D W \<and> S \<subseteq> W \<and> W \<subseteq> ?R \<and> (\<forall>k \<in> set P. set (ag_edges g (snd k)) \<subseteq> W)"
    by (rule greedy_result [OF assms(1) _ _ _ fin]) (auto intro: ag_reach.intros)
  then obtain W where W: "P = pool L D W" "S \<subseteq> W" "W \<subseteq> ?R" "\<forall>k \<in> set P. set (ag_edges g (snd k)) \<subseteq> W"
    by blast
  have finW: "finite W" using W(3) fin by (rule finite_subset)
  have "length (pool L D W) = card W"
    using assms(4) card_mono [OF fin W(3)] finW by (simp add: length_pool)
  then have "set (pool L D W) = vkey D ` W"
    using finW by (simp add: pool_def least_keys_def card_image inj_on_def)
  with W(1,4) have closed: "set (ag_edges g v) \<subseteq> W" if "v \<in> W" for v using that by auto
  have "v \<in> W" if "v \<in> ?R" for v
    using that by (induction rule: ag_reach.induct) (use W(2) closed in auto)
  with W(3) have "W = ?R" by blast
  with W(1) show ?thesis by simp
qed

section \<open>Renaming vertices\<close>

lemma least_keys_image:
  assumes "finite S" and "strict_mono_on S h"
  shows "least_keys n (h ` S) = map h (least_keys n S)"
proof -
  let ?xs = "sorted_list_of_set S"
  have "sorted_wrt (<) (map h ?xs)"
    unfolding sorted_wrt_map
    by (rule sorted_wrt_mono_rel [of _ "(<)"]) (use assms in \<open>auto dest: strict_mono_onD\<close>)
  then have "sorted_list_of_set (set (map h ?xs)) = map h ?xs"
    by (intro sorted_list_of_set.idem_if_sorted_distinct) (simp_all add: strict_sorted_iff)
  with assms(1) show ?thesis by (simp add: least_keys_def take_map)
qed

text \<open>
  When the distances of a graph are pairwise different, the search does not depend on the names of the
  vertices, although the names break ties.
\<close>

lemma greedy_rename:
  fixes f :: "'i::linorder \<Rightarrow> 'j::linorder" and D :: "'i \<Rightarrow> 'd::linorder"
  assumes wf: "ag_wf g" and inj: "inj_on f (ag_nodes g)" and dist: "inj_on D (ag_nodes g)"
    and D': "\<And>v. v \<in> ag_nodes g \<Longrightarrow> D' (f v) = D v"
    and E': "\<And>v. v \<in> ag_nodes g \<Longrightarrow> E' (f v) = map f (ag_edges g v)"
  defines "h \<equiv> \<lambda>(d :: 'd, v). (d, f v)"
  shows "V \<subseteq> ag_nodes g \<Longrightarrow> X \<subseteq> vkey D ` ag_nodes g \<Longrightarrow>
    greedy L D' E' n (f ` V) (h ` X) = map_option (map h) (greedy L D (ag_edges g) n V X)"
proof (induction n arbitrary: V X)
  case (Suc n)
  let ?N = "ag_nodes g" and ?P = "pool L D V"
  have fin: "finite V" using Suc.prems(1) wf by (auto simp: ag_wf_def intro: finite_subset)
  have hk: "h (vkey D v) = vkey D' (f v)" if "v \<in> ?N" for v using D' [OF that] by (simp add: h_def vkey_def)
  have mono: "strict_mono_on (vkey D ` ?N) h"
  proof (rule strict_mono_onI)
    fix r s assume "r \<in> vkey D ` ?N" "s \<in> vkey D ` ?N" "r < s"
    then obtain v w where vw: "v \<in> ?N" "w \<in> ?N" "r = vkey D v" "s = vkey D w" "v \<noteq> w" by auto
    with \<open>r < s\<close> dist have "D v < D w" by (auto simp: vkey_def less_prod_def' dest: inj_onD)
    with vw show "h r < h s" by (simp add: h_def vkey_def less_prod_def')
  qed
  then have inj_h: "inj_on h (vkey D ` ?N)" by (rule strict_mono_on_imp_inj_on)
  have "vkey D' ` f ` V = h ` vkey D ` V" using hk Suc.prems(1) by (force simp: image_iff)
  then have pool: "pool L D' (f ` V) = map h ?P"
  proof -
    have "strict_mono_on (vkey D ` V) h"
      using mono Suc.prems(1) by (auto simp: monotone_on_def)
    from least_keys_image [OF _ this, of L] fin \<open>vkey D' ` f ` V = h ` vkey D ` V\<close>
    show ?thesis by (simp add: pool_def)
  qed
  have sub: "set ?P \<subseteq> vkey D ` ?N" using set_pool [OF fin, of L D] Suc.prems(1) by blast
  have "(h k \<notin> h ` X) = (k \<notin> X)" if "k \<in> set ?P" for k
    using inj_on_image_mem_iff [OF inj_h _ Suc.prems(2), of k] sub that by auto
  then have flt: "filter (\<lambda>k. k \<notin> h ` X) (map h ?P) = map h (filter (\<lambda>k. k \<notin> X) ?P)"
    by (simp add: filter_map comp_def cong: filter_cong)
  show ?case
  proof (cases "filter (\<lambda>k. k \<notin> X) ?P")
    case Nil
    then show ?thesis by (simp add: pool flt)
  next
    case (Cons k ks)
    have "k \<in> set (filter (\<lambda>k. k \<notin> X) ?P)" by (simp add: Cons)
    then obtain v where v: "v \<in> ?N" "k = vkey D v" using sub by auto
    then have "snd (h k) = f v" by (simp add: h_def vkey_def)
    then have "f ` V \<union> set (E' (snd (h k))) = f ` (V \<union> set (ag_edges g (snd k)))"
      using E' [OF v(1)] v(2) by (simp add: image_Un)
    moreover have "V \<union> set (ag_edges g (snd k)) \<subseteq> ?N" "insert k X \<subseteq> vkey D ` ?N"
      using wf v Suc.prems by (auto simp: ag_wf_def)
    ultimately show ?thesis
      using Suc.IH [of "V \<union> set (ag_edges g (snd k))" "insert k X"] by (simp add: pool flt Cons)
  qed
qed simp

end
