(* ===== verification/BestFirst.thy ===== *)
theory BestFirst
  imports GreedySpec Scratch
begin

text \<open>
  The loop that the single-machine searches of \<open>src/index.cpp\<close> have in common, over the operations
  they define as lambdas: reading the neighbours and the vector of a vertex, testing and setting the
  visited mark. The interfaces are two locales, one for the marks and one for the vertex store; the
  searches of the later theories are instances, and each interprets the locales.
\<close>

section \<open>The loop\<close>

record ('i, 'd, 'v) bf_ops =
  op_nbrs :: "'i \<Rightarrow> 'i list result"
  op_dist :: "'i \<Rightarrow> 'd result"
  op_seen :: "'v \<Rightarrow> 'i \<Rightarrow> bool result"
  op_mark :: "'v \<Rightarrow> 'i \<Rightarrow> 'v result"

record ('i, 'd, 'v) bf_state =
  bf_pool :: "('i, 'd) npq"
  bf_vis :: 'v
  bf_hops :: nat
  bf_cmps :: nat

text \<open>\<open>for (id : ids) if (is_not_visited (id)) { insert_into_visited (id); id_scratch.push_back (id); }\<close>\<close>

definition bf_collect ::
    "('v \<Rightarrow> 'i \<Rightarrow> bool result) \<Rightarrow> ('v \<Rightarrow> 'i \<Rightarrow> 'v result) \<Rightarrow> 'i list \<Rightarrow> 'v \<times> 'i list \<Rightarrow> ('v \<times> 'i list) result" where
  "bf_collect seen mark ids =
     rfold (\<lambda>i (v, new). rbind (seen v i) (\<lambda>b.
       if b then Inr (v, new) else rbind (mark v i) (\<lambda>v'. Inr (v', new @ [i])))) ids"

definition bf_insert ::
    "('i \<Rightarrow> 'd result) \<Rightarrow> 'i list \<Rightarrow> ('i::linorder, 'd::linorder) npq \<Rightarrow> ('i, 'd) npq result" where
  "bf_insert dst new =
     rfold (\<lambda>i q. rbind (dst i) (\<lambda>d. rbind (pq_insert q (nbr_new i d)) (\<lambda>(q', succ). Inr q'))) new"

definition bf_round ::
    "('i::linorder, 'd::linorder, 'v) bf_ops \<Rightarrow> 'i list \<Rightarrow> ('i, 'd, 'v) bf_state \<Rightarrow> ('i, 'd, 'v) bf_state result" where
  "bf_round o1 ids st =
     rbind (bf_collect (op_seen o1) (op_mark o1) ids (bf_vis st, [])) (\<lambda>(v, new).
     rbind (bf_insert (op_dist o1) new (bf_pool st)) (\<lambda>q.
     Inr (st\<lparr>bf_pool := q, bf_vis := v, bf_hops := bf_hops st + 1, bf_cmps := bf_cmps st + length new\<rparr>)))"

fun bf_loop ::
    "('i::linorder, 'd::linorder, 'v) bf_ops \<Rightarrow> nat \<Rightarrow> ('i, 'd, 'v) bf_state \<Rightarrow> ('i, 'd, 'v) bf_state result" where
  "bf_loop o1 0 st = Inl Out_Of_Fuel"
| "bf_loop o1 (Suc n) st =
     (if pq_has_unexpanded (bf_pool st) then
        rbind (pq_closest_unexpanded (bf_pool st)) (\<lambda>(q, m).
        rbind (op_nbrs o1 (nb_id m)) (\<lambda>ids.
        rbind (bf_round o1 ids (st\<lparr>bf_pool := q\<rparr>)) (bf_loop o1 n)))
      else Inr st)"

definition bf_search ::
    "('i::linorder, 'd::linorder, 'v) bf_ops \<Rightarrow> nat \<Rightarrow> 'i list \<Rightarrow> ('i, 'd) npq \<Rightarrow> 'v \<Rightarrow> ('i, 'd, 'v) bf_state result" where
  "bf_search o1 fuel init q v =
     rbind (bf_round o1 init \<lparr>bf_pool = q, bf_vis = v, bf_hops = 0, bf_cmps = 0\<rparr>) (bf_loop o1 fuel)"

section \<open>The interfaces\<close>

text \<open>Marks: what is in the domain can be tested and set.\<close>

locale visited_set =
  fixes seen :: "'v \<Rightarrow> 'i \<Rightarrow> bool result" and mark :: "'v \<Rightarrow> 'i \<Rightarrow> 'v result"
    and vabs :: "'v \<Rightarrow> 'i set" and vdom :: "'v \<Rightarrow> 'i set"
  assumes seen: "i \<in> vdom v \<Longrightarrow> seen v i = Inr (i \<in> vabs v)"
    and mark: "i \<in> vdom v \<Longrightarrow> \<exists>v'. mark v i = Inr v' \<and> vabs v' = insert i (vabs v) \<and> vdom v' = vdom v"
begin

lemma collect:
  assumes "set ids \<subseteq> vdom v"
  shows "\<exists>v' new. bf_collect seen mark ids (v, []) = Inr (v', new) \<and> vabs v' = vabs v \<union> set ids \<and>
    vdom v' = vdom v \<and> set new = set ids - vabs v \<and> distinct new"
proof -
  let ?P = "\<lambda>ys (v', new). vabs v' = vabs v \<union> set ys \<and> vdom v' = vdom v \<and> set new = set ys - vabs v \<and> distinct new"
  have "\<exists>s'. bf_collect seen mark ids (v, []) = Inr s' \<and> ?P ids s'"
    unfolding bf_collect_def
  proof (rule rfold_invariant)
    fix ys i zs and s :: "'v \<times> 'i list"
    assume split: "ids = ys @ i # zs" and inv: "?P ys s"
    obtain v1 new where s: "s = (v1, new)" by fastforce
    have i: "i \<in> vdom v1" using split assms inv s by auto
    obtain v2 where v2: "mark v1 i = Inr v2" "vabs v2 = insert i (vabs v1)" "vdom v2 = vdom v1"
      using mark [OF i] by blast
    show "\<exists>s'. (case s of (v, new) \<Rightarrow> rbind (seen v i) (\<lambda>b.
        if b then Inr (v, new) else rbind (mark v i) (\<lambda>v'. Inr (v', new @ [i])))) = Inr s' \<and> ?P (ys @ [i]) s'"
      using inv v2 by (cases "i \<in> vabs v1") (auto simp: s seen [OF i])
  qed simp
  then show ?thesis by auto
qed

end

text \<open>A vertex store represents an abstract graph; reading a vertex of it returns its parts.\<close>

locale vertex_store =
  fixes repr :: "'s \<Rightarrow> 'i agraph \<Rightarrow> bool" and rd_nbrs :: "'s \<Rightarrow> 'i \<Rightarrow> 'i list result"
    and rd_vec :: "'s \<Rightarrow> 'i \<Rightarrow> u32 list result" and rd_label :: "'s \<Rightarrow> 'i \<Rightarrow> u32 result"
  assumes repr_wf: "repr s g \<Longrightarrow> ag_wf g"
    and rd_nbrs: "repr s g \<Longrightarrow> v \<in> ag_nodes g \<Longrightarrow> rd_nbrs s v = Inr (ag_edges g v)"
    and rd_vec: "repr s g \<Longrightarrow> v \<in> ag_nodes g \<Longrightarrow> rd_vec s v = Inr (ag_vec g v)"
    and rd_label: "repr s g \<Longrightarrow> v \<in> ag_nodes g \<Longrightarrow> rd_label s v = Inr (ag_label g v)"

definition bf_ops_of ::
    "('v \<Rightarrow> 'i \<Rightarrow> bool result) \<Rightarrow> ('v \<Rightarrow> 'i \<Rightarrow> 'v result) \<Rightarrow> ('s \<Rightarrow> 'i \<Rightarrow> 'i list result) \<Rightarrow>
     ('s \<Rightarrow> 'i \<Rightarrow> u32 list result) \<Rightarrow> (u32 list \<Rightarrow> 'd) \<Rightarrow> 's \<Rightarrow> ('i, 'd, 'v) bf_ops" where
  "bf_ops_of seen mark nbrs vec cmp s =
     \<lparr>op_nbrs = nbrs s, op_dist = (\<lambda>i. rbind (vec s i) (\<lambda>x. Inr (cmp x))), op_seen = seen, op_mark = mark\<rparr>"

section \<open>The loop implements the greedy search\<close>

locale best_first = visited_set seen mark vabs vdom + vertex_store repr rd_nbrs rd_vec rd_label
  for seen :: "'v \<Rightarrow> 'i::linorder \<Rightarrow> bool result" and mark :: "'v \<Rightarrow> 'i \<Rightarrow> 'v result"
    and vabs :: "'v \<Rightarrow> 'i set" and vdom :: "'v \<Rightarrow> 'i set"
    and repr :: "'s \<Rightarrow> 'i agraph \<Rightarrow> bool" and rd_nbrs :: "'s \<Rightarrow> 'i \<Rightarrow> 'i list result"
    and rd_vec :: "'s \<Rightarrow> 'i \<Rightarrow> u32 list result" and rd_label :: "'s \<Rightarrow> 'i \<Rightarrow> u32 result"
begin

definition bf_inv ::
    "'i agraph \<Rightarrow> (u32 list \<Rightarrow> 'd::linorder) \<Rightarrow> nat \<Rightarrow> 'i set \<Rightarrow> ('d \<times> 'i) set \<Rightarrow> ('i, 'd, 'v) bf_state \<Rightarrow> bool" where
  "bf_inv g cmp L V X st \<longleftrightarrow> pq_wf (bf_pool st) \<and> pq_cap (bf_pool st) = L \<and>
     pq_keys (bf_pool st) = pool L (\<lambda>v. cmp (ag_vec g v)) V \<and>
     pq_done (bf_pool st) = X \<inter> set (pq_keys (bf_pool st)) \<and>
     vabs (bf_vis st) = V \<and> ag_nodes g \<subseteq> vdom (bf_vis st) \<and>
     V \<subseteq> ag_nodes g \<and> X \<subseteq> vkey (\<lambda>v. cmp (ag_vec g v)) ` V \<and> bf_cmps st = card V"

lemma insert_all:
  assumes "repr s g" and "set new \<subseteq> ag_nodes g"
  shows "bf_insert (op_dist (bf_ops_of seen mark rd_nbrs rd_vec cmp s)) new q
    = pq_insert_all (\<lambda>v. cmp (ag_vec g v)) new q"
  unfolding bf_insert_def pq_insert_all_def
  using assms rd_vec by (intro rfold_cong) (auto simp: bf_ops_of_def)

lemma round:
  assumes "repr s g" and inv: "bf_inv g cmp L V X st" and ids: "set ids \<subseteq> ag_nodes g"
  shows "\<exists>st'. bf_round (bf_ops_of seen mark rd_nbrs rd_vec cmp s) ids st = Inr st' \<and>
    bf_inv g cmp L (V \<union> set ids) X st' \<and> bf_hops st' = bf_hops st + 1"
proof -
  let ?D = "\<lambda>v. cmp (ag_vec g v)"
  note I = inv [unfolded bf_inv_def]
  have fin: "finite V" using I repr_wf [OF assms(1)] by (auto simp: ag_wf_def intro: finite_subset)
  have vk: "vkey ?D = (\<lambda>i. (?D i, i))" by (simp add: vkey_def fun_eq_iff)
  have "set ids \<subseteq> vdom (bf_vis st)" using I ids by blast
  then obtain v' new where new: "bf_collect seen mark ids (bf_vis st, []) = Inr (v', new)"
    "vabs v' = V \<union> set ids" "vdom v' = vdom (bf_vis st)" "set new = set ids - V" "distinct new"
    using collect [of ids "bf_vis st"] I by auto
  have "pq_keys (bf_pool st) = least_keys (pq_cap (bf_pool st)) ((\<lambda>i. (?D i, i)) ` V)"
    using I by (simp add: pool_def vk)
  from pq_insert_all_refines [OF _ fin this, of new] I obtain q where q:
    "pq_insert_all ?D new (bf_pool st) = Inr q" "pq_wf q" "pq_cap q = L"
    "pq_keys q = pool L ?D (V \<union> set new)" "pq_done q = pq_done (bf_pool st) \<inter> set (pq_keys q)"
    by (auto simp: pool_def vk)
  have "V \<union> set new = V \<union> set ids" using new(4) by auto
  with q(4) have keys: "pq_keys q = pool L ?D (V \<union> set ids)" by simp
  have "c \<in> set (pq_keys (bf_pool st))" if "c \<in> X" "c \<in> set (pq_keys q)" for c
    using pool_mem_antimono [of "V \<union> set ids" V c ?D L] that I fin keys by auto
  then have dn: "pq_done q = X \<inter> set (pq_keys q)" using q(5) I by blast
  have "card (V \<union> set ids) = card V + length new"
    using new(4) fin \<open>V \<union> set new = V \<union> set ids\<close> card_Un_disjoint [of V "set new"]
      distinct_card [OF new(5)] by simp
  moreover have "bf_insert (op_dist (bf_ops_of seen mark rd_nbrs rd_vec cmp s)) new (bf_pool st) = Inr q"
  proof -
    have "set new \<subseteq> ag_nodes g" using new(4) ids by blast
    from insert_all [OF assms(1) this, of cmp "bf_pool st"] q(1) show ?thesis by (rule trans)
  qed
  moreover have "op_seen (bf_ops_of seen mark rd_nbrs rd_vec cmp s) = seen"
    "op_mark (bf_ops_of seen mark rd_nbrs rd_vec cmp s) = mark" by (simp_all add: bf_ops_of_def)
  ultimately show ?thesis
    using new(1-3) q(2,3) keys dn I ids by (auto simp: bf_round_def bf_inv_def)
qed

lemma loop:
  assumes "repr s g"
  shows "bf_inv g cmp L V X st \<Longrightarrow>
    (case greedy L (\<lambda>v. cmp (ag_vec g v)) (ag_edges g) n V X of
       None \<Rightarrow> True
     | Some P \<Rightarrow> \<exists>st' W Y. bf_loop (bf_ops_of seen mark rd_nbrs rd_vec cmp s) n st = Inr st' \<and>
         bf_inv g cmp L W Y st' \<and> pq_keys (bf_pool st') = P \<and> set P \<subseteq> Y)"
proof (induction n arbitrary: V X st)
  case (Suc n)
  let ?D = "\<lambda>v. cmp (ag_vec g v)" and ?o = "bf_ops_of seen mark rd_nbrs rd_vec cmp s"
  note I = Suc.prems [unfolded bf_inv_def]
  let ?q = "bf_pool st"
  have wf: "pq_wf ?q" using I by simp
  show ?case
  proof (cases "filter (\<lambda>k. k \<notin> X) (pool L ?D V)")
    case Nil
    then have sub: "set (pool L ?D V) \<subseteq> X" by (auto simp: filter_empty_conv)
    then have "\<not> pq_has_unexpanded ?q" using I by (auto simp: pq_has_unexpanded_iff)
    with Nil sub Suc.prems I show ?thesis by (auto intro!: exI [of _ V] exI [of _ X])
  next
    case (Cons k ks)
    have "k \<in> set (filter (\<lambda>k. k \<notin> X) (pool L ?D V))" by (simp add: Cons)
    then have k: "k \<in> set (pq_keys ?q) - pq_done ?q" using I by auto
    then have has: "pq_has_unexpanded ?q" using wf by (auto simp: pq_has_unexpanded_iff)
    from pq_closest_unexpanded_refines [OF wf has] obtain q' m where q': 
      "pq_closest_unexpanded ?q = Inr (q', m)" "pq_wf q'" "pq_cap q' = pq_cap ?q" "pq_keys q' = pq_keys ?q"
      "nb_key m \<in> set (pq_keys ?q) - pq_done ?q" "\<forall>c \<in> set (pq_keys ?q) - pq_done ?q. nb_key m \<le> c"
      "pq_done q' = insert (nb_key m) (pq_done ?q)" by blast
    have "sorted_wrt (<) (filter (\<lambda>k. k \<notin> X) (pool L ?D V))"
      by (intro sorted_wrt_filter pool_sorted)
    moreover have "nb_key m \<in> set (filter (\<lambda>k. k \<notin> X) (pool L ?D V))" using q'(5) I by auto
    ultimately have "k \<le> nb_key m" using Cons by auto
    moreover have "nb_key m \<le> k" using q'(6) k by blast
    ultimately have km: "nb_key m = k" by simp
    have fin: "finite V" using I repr_wf [OF assms] by (auto simp: ag_wf_def intro: finite_subset)
    have kV: "k \<in> vkey ?D ` V" using k I set_pool [OF fin, of L ?D] by auto
    then have v: "nb_id m \<in> V" "snd k = nb_id m" using km by (auto simp: nb_key_def vkey_def)
    then have node: "nb_id m \<in> ag_nodes g" using I by auto
    then have ids: "set (ag_edges g (nb_id m)) \<subseteq> ag_nodes g" using repr_wf [OF assms] by (auto simp: ag_wf_def)
    have "bf_inv g cmp L V (insert k X) (st\<lparr>bf_pool := q'\<rparr>)"
      using I q' kV km by (auto simp: bf_inv_def)
    from round [OF assms this ids] obtain st1 where st1: "bf_round ?o (ag_edges g (nb_id m)) (st\<lparr>bf_pool := q'\<rparr>) = Inr st1"
      "bf_inv g cmp L (V \<union> set (ag_edges g (nb_id m))) (insert k X) st1" by blast
    have "bf_loop ?o (Suc n) st = bf_loop ?o n st1"
      using has q'(1) st1(1) rd_nbrs [OF assms node] by (simp add: bf_ops_of_def)
    with Suc.IH [OF st1(2)] Cons v show ?thesis by (simp split: option.splits)
  qed
qed simp

text \<open>
  From a cleared scratch space, with one round more than vertices, the whole search returns the
  greedy result; the statistics count the rounds and the vertices whose distance was computed.
\<close>

lemma search:
  assumes "repr s g" and "set init \<subseteq> ag_nodes g" and "card (ag_nodes g) < fuel"
    and "pq_wf q" and "pq_cap q = L" and "pq_keys q = []" and "vabs v = {}" and "ag_nodes g \<subseteq> vdom v"
  shows "\<exists>st P. bf_search (bf_ops_of seen mark rd_nbrs rd_vec cmp s) fuel init q v = Inr st \<and>
    greedy L (\<lambda>v. cmp (ag_vec g v)) (ag_edges g) fuel (set init) {} = Some P \<and>
    pq_wf (bf_pool st) \<and> pq_cap (bf_pool st) = L \<and> pq_keys (bf_pool st) = P \<and>
    bf_cmps st \<le> card (ag_nodes g) \<and> set P \<subseteq> vkey (\<lambda>v. cmp (ag_vec g v)) ` ag_nodes g"
proof -
  let ?D = "\<lambda>v. cmp (ag_vec g v)"
  have wf: "ag_wf g" by (rule repr_wf [OF assms(1)])
  then have fin: "finite (ag_nodes g)" by (simp add: ag_wf_def)
  have "pq_done q = {}" using pq_done_subset [of q] assms(6) by simp
  then have "bf_inv g cmp L {} {} \<lparr>bf_pool = q, bf_vis = v, bf_hops = 0, bf_cmps = 0\<rparr>"
    using assms(4-8) by (simp add: bf_inv_def pool_def least_keys_def)
  from round [OF assms(1) this assms(2)] obtain st1 where st1:
    "bf_round (bf_ops_of seen mark rd_nbrs rd_vec cmp s) init \<lparr>bf_pool = q, bf_vis = v, bf_hops = 0, bf_cmps = 0\<rparr> = Inr st1"
    "bf_inv g cmp L (set init) {} st1" by auto
  obtain P where P: "greedy L ?D (ag_edges g) fuel (set init) {} = Some P"
    using greedy_terminates [OF wf assms(2), where X = "{}" and n = fuel and D = ?D and L = L] assms(3) by auto
  from loop [OF assms(1) st1(2), of fuel] P obtain st W Y where st:
    "bf_loop (bf_ops_of seen mark rd_nbrs rd_vec cmp s) fuel st1 = Inr st" "bf_inv g cmp L W Y st"
    "pq_keys (bf_pool st) = P" by auto
  have "W \<subseteq> ag_nodes g" "bf_cmps st = card W" "set P \<subseteq> vkey ?D ` W"
    using st(2,3) set_pool [of W L ?D] fin by (auto simp: bf_inv_def intro: finite_subset)
  moreover from this have "set P \<subseteq> vkey ?D ` ag_nodes g" by blast
  moreover have "card W \<le> card (ag_nodes g)" using fin \<open>W \<subseteq> ag_nodes g\<close> by (rule card_mono)
  ultimately show ?thesis
    using P st st1(1) by (intro exI [of _ st] exI [of _ P] conjI) (simp_all add: bf_search_def bf_inv_def)
qed

end

section \<open>Visited marks as sets\<close>

text \<open>\<open>tsl::robin_set<uint32_t>\<close> of the single-machine search, and one such set per server of the others.\<close>

definition rs_seen :: "u32 set \<Rightarrow> u32 \<Rightarrow> bool result" where
  "rs_seen v i = Inr (i \<in> v)"

definition rs_mark :: "u32 set \<Rightarrow> u32 \<Rightarrow> u32 set result" where
  "rs_mark v i = Inr (insert i v)"

definition srs_seen :: "rset list \<Rightarrow> item \<Rightarrow> bool result" where
  "srs_seen v it = rbind (rget v (unat (fst it))) (\<lambda>r. Inr (snd it \<in> rs_elems r))"

definition srs_mark :: "rset list \<Rightarrow> item \<Rightarrow> rset list result" where
  "srs_mark v it = rbind (rget v (unat (fst it)))
     (\<lambda>r. rput v (unat (fst it)) (r\<lparr>rs_elems := insert (snd it) (rs_elems r)\<rparr>))"

definition srs_abs :: "rset list \<Rightarrow> item set" where
  "srs_abs v = {it. unat (fst it) < length v \<and> snd it \<in> rs_elems (v ! unat (fst it))}"

definition srs_dom :: "rset list \<Rightarrow> item set" where
  "srs_dom v = {it. unat (fst it) < length v}"

interpretation flat_marks: visited_set rs_seen rs_mark "\<lambda>v. v" "\<lambda>v. UNIV"
  by unfold_locales (simp_all add: rs_seen_def rs_mark_def)

interpretation server_marks: visited_set srs_seen srs_mark srs_abs srs_dom
proof unfold_locales
  fix it and v :: "rset list" assume it: "it \<in> srs_dom v"
  then show "srs_seen v it = Inr (it \<in> srs_abs v)"
    by (simp add: srs_seen_def srs_dom_def srs_abs_def)
  let ?v = "v[unat (fst it) := (v ! unat (fst it))\<lparr>rs_elems := insert (snd it) (rs_elems (v ! unat (fst it)))\<rparr>]"
  have "srs_mark v it = Inr ?v" using it by (simp add: srs_mark_def srs_dom_def)
  moreover have "srs_abs ?v = insert it (srs_abs v)"
    using it by (auto simp: srs_abs_def srs_dom_def nth_list_update prod_eq_iff word_unat_eq_iff)
  ultimately show "\<exists>v'. srs_mark v it = Inr v' \<and> srs_abs v' = insert it (srs_abs v) \<and> srs_dom v' = srs_dom v"
    by (auto simp: srs_dom_def)
qed

end
