(* ===== verification/BucketLayout.thy ===== *)
theory BucketLayout
  imports Partition BestFirst
begin

text \<open>
  The record of a vertex in the partitioned index: vector, label, neighbour count, and per neighbour
  its id, server and local id (9 bytes). Records are read both from the memory of a server and from
  buffers that hold one fetched record, so reading takes a memory and the offset of the record.
\<close>

section \<open>Reading a record\<close>

text \<open>The loop over the neighbour entries: \<open>vid\<close>, then the item.\<close>

definition elem_entries :: "index \<Rightarrow> byte list \<Rightarrow> nat \<Rightarrow> (u32 \<times> item) list result" where
  "elem_entries ix m base =
     (let p = base + ix_neighbor_offset ix in
      rbind (load32 m p) (\<lambda>MaxM.
      rmap (\<lambda>i. let q = p + 4 + 9 * i in
        rbind (load32 m q) (\<lambda>vid.
        rbind (load8 m (q + 4)) (\<lambda>server.
        rbind (load32 m (q + 4 + 1)) (\<lambda>local.
        Inr (vid, server, local))))) [0..<unat MaxM]))"

definition elem_vec :: "index \<Rightarrow> byte list \<Rightarrow> nat \<Rightarrow> u32 list result" where
  "elem_vec ix m base = load32s m (base + ix_data_offset ix) (ix_dimension ix)"

definition elem_label :: "index \<Rightarrow> byte list \<Rightarrow> nat \<Rightarrow> u32 result" where
  "elem_label ix m base = load32 m (base + ix_label_offset ix)"

section \<open>The bytes\<close>

definition bkt_entry :: "item agraph \<Rightarrow> item \<Rightarrow> byte list" where
  "bkt_entry g it = le_bytes 4 (ag_label g it) @ le_bytes 1 (fst it) @ le_bytes 4 (snd it)"

definition bkt_record :: "item agraph \<Rightarrow> item \<Rightarrow> byte list" where
  "bkt_record g it = bytes32s (ag_vec g it) @ le_bytes 4 (ag_label g it) @
     le_bytes 4 (of_nat (length (ag_edges g it)) :: u32) @ concat (map (bkt_entry g) (ag_edges g it))"

definition bkt_offsets :: "index \<Rightarrow> bool" where
  "bkt_offsets ix \<longleftrightarrow> ix_data_offset ix = 0 \<and> ix_label_offset ix = 4 * ix_dimension ix \<and>
     ix_neighbor_offset ix = 4 * ix_dimension ix + 4"

definition bkt_node_ok :: "index \<Rightarrow> item agraph \<Rightarrow> item \<Rightarrow> bool" where
  "bkt_node_ok ix g it \<longleftrightarrow> length (ag_vec g it) = ix_dimension ix \<and> length (ag_edges g it) < 2 ^ 32 \<and>
     length (bkt_record g it) \<le> ix_element_size ix"

text \<open>Memory \<open>m\<close> holds, at \<open>base\<close>, a slot with the record of vertex \<open>it\<close>.\<close>

definition holds :: "index \<Rightarrow> item agraph \<Rightarrow> byte list \<Rightarrow> nat \<Rightarrow> item \<Rightarrow> bool" where
  "holds ix g m base it \<longleftrightarrow> base + ix_element_size ix \<le> length m \<and>
     slice m base (length (bkt_record g it)) = bkt_record g it"

lemma length_bkt_entry [simp]: "length (bkt_entry g it) = 9"
  by (simp add: bkt_entry_def)

lemma length_bkt_entries: "length (concat (map (bkt_entry g) xs)) = 9 * length xs"
  by (induction xs) simp_all

lemma length_bkt_record:
  "length (bkt_record g it) = 4 * length (ag_vec g it) + 8 + 9 * length (ag_edges g it)"
  by (simp add: bkt_record_def length_bkt_entries)

lemma slice_append_right: "slice (xs @ ys) (length xs + i) n = slice ys i n"
  by (simp add: slice_def)

lemma slice_append_left: "n \<le> length xs \<Longrightarrow> slice (xs @ ys) 0 n = take n xs"
  by (simp add: slice_def)

lemma slice_bkt_entries:
  "i < length xs \<Longrightarrow> slice (concat (map (bkt_entry g) xs)) (9 * i) 9 = bkt_entry g (xs ! i)"
proof (induction xs arbitrary: i)
  case (Cons x xs)
  show ?case
  proof (cases i)
    case 0
    then show ?thesis using slice_append_left [of 9 "bkt_entry g x"] by simp
  next
    case (Suc j)
    then show ?thesis
      using Cons slice_append_right [of "bkt_entry g x" "concat (map (bkt_entry g) xs)" "9 * j" 9] by simp
  qed
qed simp

lemma slice_mid: "slice (xs @ ys @ zs) (length xs) (length ys) = ys"
  by (simp add: slice_def)

text \<open>Reading any part of a slot that holds a record.\<close>

lemma holds_slice:
  assumes "holds ix g m base it" and "bkt_record g it = xs @ ys @ zs"
  shows "slice m (base + length xs) (length ys) = ys"
  using assms slice_slice [of "length xs" "length ys" "length (bkt_record g it)" m base] slice_mid [of xs ys zs]
  by (simp add: holds_def)

lemma holds_reads:
  assumes h: "holds ix g m base it" and off: "bkt_offsets ix" and ok: "bkt_node_ok ix g it"
  shows "elem_vec ix m base = Inr (ag_vec g it)" "elem_label ix m base = Inr (ag_label g it)"
    "elem_entries ix m base = Inr (map (\<lambda>j. (ag_label g j, j)) (ag_edges g it))"
proof -
  let ?d = "ix_dimension ix" and ?es = "ag_edges g it"
  let ?A = "bytes32s (ag_vec g it)" and ?B = "le_bytes 4 (ag_label g it)"
  let ?C = "le_bytes 4 (of_nat (length ?es) :: u32)" and ?E = "concat (map (bkt_entry g) ?es)"
  have rec: "bkt_record g it = ?A @ ?B @ ?C @ ?E" by (simp add: bkt_record_def)
  have A: "length ?A = 4 * ?d" using ok by (simp add: bkt_node_ok_def)
  have top: "base + (4 * ?d + 8 + 9 * length ?es) \<le> length m"
    using h ok by (simp add: holds_def bkt_node_ok_def length_bkt_record)
  have "slice m base (length ?A) = ?A" using holds_slice [OF h, of "[]" ?A] rec by simp
  then show "elem_vec ix m base = Inr (ag_vec g it)"
    using load32s_slice [of m base "ag_vec g it"] off ok top A
    by (simp add: elem_vec_def bkt_offsets_def bkt_node_ok_def)
  have "slice m (base + 4 * ?d) 4 = ?B" using holds_slice [OF h, of ?A ?B] rec A by simp
  then show "elem_label ix m base = Inr (ag_label g it)"
    using load32_slice [of m "base + 4 * ?d"] off top by (simp add: elem_label_def bkt_offsets_def)
  have "slice m (base + (4 * ?d + 4)) 4 = ?C"
    using holds_slice [OF h, of "?A @ ?B" ?C] rec A by simp
  then have count: "load32 m (base + (4 * ?d + 4)) = Inr (of_nat (length ?es))"
    using load32_slice [of m "base + (4 * ?d + 4)"] top by simp
  have entries: "slice m (base + (4 * ?d + 8)) (9 * length ?es) = ?E"
    using holds_slice [OF h, of "?A @ ?B @ ?C" ?E "[]"] rec A by (simp add: length_bkt_entries)
  define q where "q i = base + (4 * ?d + 4) + 4 + 9 * i" for i
  have entry: "slice m (q i) 9 = bkt_entry g (?es ! i)" if "i < length ?es" for i
    using slice_slice [of "9 * i" 9 "9 * length ?es" m "base + (4 * ?d + 8)"] slice_bkt_entries [OF that, of g] that
    by (simp add: entries q_def add.assoc)
  have part: "slice m (q i + length xs) (length ys) = ys"
    if "i < length ?es" "bkt_entry g (?es ! i) = xs @ ys @ zs" for i xs ys zs
    using slice_slice [of "length xs" "length ys" 9 m "q i"] entry [OF that(1)] that(2) slice_mid [of xs ys zs]
      length_bkt_entry [of g "?es ! i"] by simp
  have rd: "load32 m (q i) = Inr (ag_label g (?es ! i))" "load8 m (q i + 4) = Inr (fst (?es ! i))"
    "load32 m (q i + 4 + 1) = Inr (snd (?es ! i))" if i: "i < length ?es" for i
  proof -
    let ?j = "?es ! i"
    have e: "bkt_entry g ?j = le_bytes 4 (ag_label g ?j) @ le_bytes 1 (fst ?j) @ le_bytes 4 (snd ?j)"
      by (simp add: bkt_entry_def)
    have le: "q i + 9 \<le> length m" using i top by (simp add: q_def)
    show "load32 m (q i) = Inr (ag_label g ?j)"
      using part [OF i, of "[]" "le_bytes 4 (ag_label g ?j)"] e le by (intro load32_slice) auto
    show "load8 m (q i + 4) = Inr (fst ?j)"
      using part [OF i, of "le_bytes 4 (ag_label g ?j)" "le_bytes 1 (fst ?j)"] e le by (intro load8_slice) auto
    show "load32 m (q i + 4 + 1) = Inr (snd ?j)"
      using part [OF i, of "le_bytes 4 (ag_label g ?j) @ le_bytes 1 (fst ?j)" "le_bytes 4 (snd ?j)" "[]"] e le
      by (intro load32_slice) (auto simp: ac_simps)
  qed
  have "rmap (\<lambda>i. let q = base + (4 * ?d + 4) + 4 + 9 * i in rbind (load32 m q) (\<lambda>vid. rbind (load8 m (q + 4)) (\<lambda>server.
      rbind (load32 m (q + 4 + 1)) (\<lambda>local. Inr (vid, server, local))))) [0..<length ?es]
    = Inr (map (\<lambda>i. (ag_label g (?es ! i), ?es ! i)) [0..<length ?es])"
    by (rule rmap_pure)
      (simp only: rd Let_def q_def [symmetric] rbind_Inr set_upt atLeastLessThan_iff prod.collapse)
  moreover have "map (\<lambda>i. (ag_label g (?es ! i), ?es ! i)) [0..<length ?es] = map (\<lambda>j. (ag_label g j, j)) ?es"
    by (intro nth_equalityI) simp_all
  moreover have "unat (of_nat (length ?es) :: u32) = length ?es"
    using ok by (intro unat_of_nat32) (simp add: bkt_node_ok_def)
  ultimately show "elem_entries ix m base = Inr (map (\<lambda>j. (ag_label g j, j)) ?es)"
    using count off by (simp add: elem_entries_def bkt_offsets_def Let_def)
qed

end
