(* ===== verification/Buckets.thy ===== *)
theory Buckets
  imports BucketLayout
begin

text \<open>
  The partitioned index: \<open>Index::generate_base_index_on_buckets\<close> places every vertex in the bucket of its
  closest coarse cluster and writes its record there; \<open>Index::search_base_index_on_buckets\<close> searches the
  buckets of one machine. The placement is a bijection between vertices and (bucket, slot) pairs, and
  the buckets represent the input graph renamed along it.
\<close>

section \<open>Generating the buckets\<close>

definition vec_resize :: "'a list \<Rightarrow> nat \<Rightarrow> 'a \<Rightarrow> 'a list" where
  "vec_resize xs n x = take n xs @ replicate (n - length xs) x"

text \<open>The three copies per neighbour: id, server, local id.\<close>

definition write_entry :: "item list \<Rightarrow> u32 \<Rightarrow> byte list \<times> nat \<Rightarrow> (byte list \<times> nat) result" where
  "write_entry place nid = (\<lambda>(m, p).
     rbind (store32 m p nid) (\<lambda>m.
     rbind (rget place (unat nid)) (\<lambda>it.
     rbind (store m (p + 4) (le_bytes 1 (fst it))) (\<lambda>m.
     rbind (store32 m (p + 4 + 1) (snd it)) (\<lambda>m.
     Inr (m, p + 4 + 1 + 4))))))"

definition write_bucket_element ::
    "index \<Rightarrow> u32 list \<Rightarrow> item list \<Rightarrow> nat \<Rightarrow> byte list list \<Rightarrow> byte list list result" where
  "write_bucket_element ix data place cur bks =
     rbind (rget place cur) (\<lambda>it.
     rbind (rget bks (unat (fst it))) (\<lambda>m.
     let dst = unat (snd it) * ix_element_size ix in
     rbind (rslice data (cur * ix_dimension ix) (ix_dimension ix)) (\<lambda>vec.
     rbind (store m (dst + ix_data_offset ix) (bytes32s vec)) (\<lambda>m.
     rbind (store32 m (dst + ix_label_offset ix) (of_nat cur)) (\<lambda>m.
     rbind (rget (ix_base_graph ix) cur) (\<lambda>ns.
     rbind (store32 m (dst + ix_neighbor_offset ix) (of_nat (length ns))) (\<lambda>m.
     rbind (rfold (write_entry place) ns (m, dst + ix_neighbor_offset ix + 4)) (\<lambda>(m, p).
     rput bks (unat (fst it)) m))))))))"

definition alloc_buckets :: "(nat \<Rightarrow> byte list option) \<Rightarrow> nat \<Rightarrow> nat list \<Rightarrow> nat \<Rightarrow> byte list list result" where
  "alloc_buckets malloc sz data_num k =
     rmap (\<lambda>b. rbind (rget data_num b) (\<lambda>c.
       case malloc (sz * c) of
         None \<Rightarrow> Inl (Runtime_Error ''error@generate_base_index_with_bucket: alloc failed.'')
       | Some m \<Rightarrow> Inr m)) [0..<k]"

definition generate_base_index_on_buckets ::
    "(nat \<Rightarrow> byte list option) \<Rightarrow> (u32 list \<Rightarrow> u32 list \<Rightarrow> 'd::linorder) \<Rightarrow> nat \<Rightarrow> index \<Rightarrow> index result" where
  "generate_base_index_on_buckets malloc cmp bucket_count ix =
     rbind (require (ix_base_data ix \<noteq> None) (Runtime_Error ''error@generate_base_index: _base_data is nullptr.'')) (\<lambda>_.
     rbind (require (ix_base_graph ix \<noteq> []) (Runtime_Error ''error@generate_base_index: _base_graph is empty.'')) (\<lambda>_.
     let data_bytes_len = ix_dimension ix * 4;
         label_bytes_len = 4;
         neighbor_bytes_len = 4 + unat (ix_base_graph_R ix) * (4 + 1 + 4);
         n = ix_base_num ix;
         ix = ix\<lparr>ix_bucket_count := bucket_count, ix_data_offset := 0, ix_label_offset := data_bytes_len,
                 ix_neighbor_offset := data_bytes_len + label_bytes_len,
                 ix_element_size := data_bytes_len + label_bytes_len + neighbor_bytes_len,
                 ix_element_num := n\<rparr>
     in rbind (deref (ix_base_data ix)) (\<lambda>data.
        rbind (assign_buckets ix cmp data) (\<lambda>in_bucket.
        rbind (place_vertices in_bucket n
           (vec_resize (ix_data_num ix) bucket_count 0, replicate n (0, 0), vec_resize (ix_base_to_lid ix) n 0))
           (\<lambda>(data_num, place, lid).
        rbind (alloc_buckets malloc (ix_element_size ix) data_num bucket_count) (\<lambda>bks.
        rbind (loop32 n (write_bucket_element ix data place) bks) (\<lambda>bks.
        rbind (rget place (unat (ix_base_graph_EP ix))) (\<lambda>ep.
        Inr (ix\<lparr>ix_data_num := data_num, ix_base_in_bucket := Some in_bucket, ix_base_to_lid := lid,
                ix_buckets := bks, ix_base_index_R := ix_base_graph_R ix, ix_membkt_EP := ep\<rparr>)))))))))"

section \<open>Searching the buckets\<close>

definition bucket_entries :: "index \<Rightarrow> item \<Rightarrow> (u32 \<times> item) list result" where
  "bucket_entries ix it = rbind (rget (ix_buckets ix) (unat (fst it)))
     (\<lambda>m. elem_entries ix m (unat (snd it) * ix_element_size ix))"

definition bucket_nbrs :: "index \<Rightarrow> item \<Rightarrow> item list result" where
  "bucket_nbrs ix it = rbind (bucket_entries ix it) (\<lambda>es. Inr (map snd es))"

definition bucket_vec :: "index \<Rightarrow> item \<Rightarrow> u32 list result" where
  "bucket_vec ix it = rbind (rget (ix_buckets ix) (unat (fst it)))
     (\<lambda>m. elem_vec ix m (unat (snd it) * ix_element_size ix))"

definition bucket_label :: "index \<Rightarrow> item \<Rightarrow> u32 result" where
  "bucket_label ix it = rbind (rget (ix_buckets ix) (unat (fst it)))
     (\<lambda>m. elem_label ix m (unat (snd it) * ix_element_size ix))"

definition search_base_index_on_buckets ::
    "index \<Rightarrow> (u32 list \<Rightarrow> u32 list \<Rightarrow> 'd::linorder) \<Rightarrow> nat \<Rightarrow> 'd ds_scratch \<Rightarrow> u32 list \<Rightarrow> nat \<Rightarrow>
     (u32 list \<times> (item, 'd, rset list) bf_state) result" where
  "search_base_index_on_buckets ix cmp fuel sc query K =
     (let sc = ds_clear sc in
      rbind (bf_search (bf_ops_of srs_seen srs_mark bucket_nbrs bucket_vec (\<lambda>base. cmp base query) ix)
               fuel [ix_membkt_EP ix] (ds_best sc) (ds_inserted sc)) (\<lambda>st.
      rbind (rmap (\<lambda>i. rbind (pq_at (bf_pool st) i) (\<lambda>n. bucket_label ix (nb_id n))) [0..<K]) (\<lambda>out.
      Inr (out, st))))"

section \<open>What the buckets represent\<close>

definition bkt_repr :: "index \<Rightarrow> item agraph \<Rightarrow> bool" where
  "bkt_repr ix g \<longleftrightarrow> ag_wf g \<and> bkt_offsets ix \<and>
     (\<forall>it \<in> ag_nodes g. bkt_node_ok ix g it \<and> unat (fst it) < length (ix_buckets ix) \<and>
        holds ix g (ix_buckets ix ! unat (fst it)) (unat (snd it) * ix_element_size ix) it)"

lemma bucket_reads:
  assumes "bkt_repr ix g" and "it \<in> ag_nodes g"
  shows "bucket_entries ix it = Inr (map (\<lambda>j. (ag_label g j, j)) (ag_edges g it))"
    "bucket_nbrs ix it = Inr (ag_edges g it)" "bucket_vec ix it = Inr (ag_vec g it)"
    "bucket_label ix it = Inr (ag_label g it)"
proof -
  from assms have it: "bkt_offsets ix" "bkt_node_ok ix g it" "unat (fst it) < length (ix_buckets ix)"
    "holds ix g (ix_buckets ix ! unat (fst it)) (unat (snd it) * ix_element_size ix) it"
    by (auto simp: bkt_repr_def)
  note rd = holds_reads [OF it(4,1,2)]
  show "bucket_entries ix it = Inr (map (\<lambda>j. (ag_label g j, j)) (ag_edges g it))"
    "bucket_vec ix it = Inr (ag_vec g it)" "bucket_label ix it = Inr (ag_label g it)"
    using rd it(3) by (simp_all add: bucket_entries_def bucket_vec_def bucket_label_def)
  then show "bucket_nbrs ix it = Inr (ag_edges g it)" by (simp add: bucket_nbrs_def comp_def)
qed

interpretation bkt: best_first srs_seen srs_mark srs_abs srs_dom bkt_repr bucket_nbrs bucket_vec bucket_label
  by unfold_locales (simp_all add: bucket_reads, simp add: bkt_repr_def)

section \<open>Generation represents the renamed input\<close>

text \<open>The vertex in a slot, and the input graph with vertices named by their slots.\<close>

definition vid_of :: "u32 list \<Rightarrow> nat \<Rightarrow> item \<Rightarrow> nat" where
  "vid_of bb n it = (case find (\<lambda>v. place_of bb v = it) [0..<n] of None \<Rightarrow> 0 | Some v \<Rightarrow> v)"

definition bkt_agraph :: "index \<Rightarrow> u32 list \<Rightarrow> item agraph" where
  "bkt_agraph ix bb = \<lparr>ag_nodes = place_of bb ` {..<ix_base_num ix},
     ag_edges = (\<lambda>it. map (\<lambda>w. place_of bb (unat w)) (ix_base_graph ix ! vid_of bb (ix_base_num ix) it)),
     ag_vec = (\<lambda>it. slice (the (ix_base_data ix)) (vid_of bb (ix_base_num ix) it * ix_dimension ix) (ix_dimension ix)),
     ag_label = (\<lambda>it. of_nat (vid_of bb (ix_base_num ix) it))\<rparr>"

lemma vid_of_place:
  assumes "v < n" and "n < 2 ^ 32"
  shows "vid_of bb n (place_of bb v) = v"
proof -
  obtain w where w: "find (\<lambda>w. place_of bb w = place_of bb v) [0..<n] = Some w"
    using assms(1) by (cases "find (\<lambda>w. place_of bb w = place_of bb v) [0..<n]") (auto simp: find_None_iff)
  then have "w < n" "place_of bb w = place_of bb v" by (auto simp: find_Some_iff)
  with place_of_inj [OF assms(2), of bb] assms(1) have "w = v" by (auto dest: inj_onD)
  with w show ?thesis by (simp add: vid_of_def)
qed

lemma bkt_agraph_nodes: "ag_nodes (bkt_agraph ix bb) = place_of bb ` {..<ix_base_num ix}"
  by (simp add: bkt_agraph_def)

lemma bkt_agraph_place:
  assumes "v < ix_base_num ix" and "ix_base_num ix < 2 ^ 32"
  shows "ag_edges (bkt_agraph ix bb) (place_of bb v) = map (\<lambda>w. place_of bb (unat w)) (ix_base_graph ix ! v)"
    "ag_vec (bkt_agraph ix bb) (place_of bb v) = slice (the (ix_base_data ix)) (v * ix_dimension ix) (ix_dimension ix)"
    "ag_label (bkt_agraph ix bb) (place_of bb v) = of_nat v"
  using vid_of_place [OF assms, of bb] by (simp_all add: bkt_agraph_def)

text \<open>The input of the partitioned build: a base input, coarse clusters, no more of them than buckets.\<close>

definition part_input_ok :: "index \<Rightarrow> nat \<Rightarrow> bool" where
  "part_input_ok ix k \<longleftrightarrow> 0 < ix_base_num ix \<and> ix_base_num ix < 2 ^ 32 \<and> 0 < ix_dimension ix \<and>
     (\<exists>data. ix_base_data ix = Some data \<and> length data = ix_base_num ix * ix_dimension ix) \<and>
     length (ix_base_graph ix) = ix_base_num ix \<and> unat (ix_base_graph_EP ix) < ix_base_num ix \<and>
     (\<forall>ns \<in> set (ix_base_graph ix). length ns \<le> unat (ix_base_graph_R ix) \<and>
        (\<forall>w \<in> set ns. unat w < ix_base_num ix)) \<and>
     (\<exists>cd. ix_coarse_data ix = Some cd \<and> length cd = ix_coarse_num ix * ix_dimension ix) \<and>
     0 < ix_coarse_num ix \<and> ix_coarse_num ix \<le> k \<and> k \<le> 256 \<and> ix_data_num ix = [] \<and> ix_base_to_lid ix = []"

text \<open>The bucket of a vertex is its closest coarse cluster, the first one in a tie.\<close>

definition cluster_of :: "index \<Rightarrow> (u32 list \<Rightarrow> u32 list \<Rightarrow> 'd::linorder) \<Rightarrow> nat \<Rightarrow> nat \<Rightarrow> bool" where
  "cluster_of ix cmp v c \<longleftrightarrow> first_min (\<lambda>i. cmp (slice (the (ix_coarse_data ix)) (i * ix_dimension ix) (ix_dimension ix))
       (slice (the (ix_base_data ix)) (v * ix_dimension ix) (ix_dimension ix))) (ix_coarse_num ix) c"

lemma assign_buckets_ok:
  assumes ok: "part_input_ok ix k" and data: "ix_base_data ix = Some data"
  shows "\<exists>bb. assign_buckets ix cmp data = Inr bb \<and> length bb = ix_base_num ix \<and>
    (\<forall>v < ix_base_num ix. cluster_of ix cmp v (unat (bucket_of bb v)) \<and> unat (bucket_of bb v) < k)"
proof -
  let ?n = "ix_base_num ix" and ?d = "ix_dimension ix"
  from ok obtain cd where cd: "ix_coarse_data ix = Some cd" "length cd = ix_coarse_num ix * ?d"
    and nums: "0 < ix_coarse_num ix" "ix_coarse_num ix \<le> k" "k \<le> 256" "0 < ?d" "length data = ?n * ?d"
    using data by (auto simp: part_input_ok_def)
  define f where "f v = (\<lambda>i. cmp (slice cd (i * ?d) ?d) (slice data (v * ?d) ?d))" for v
  have "\<exists>c. compute_closest_coarse_cluster ix cmp (Some (slice data (v * ?d) ?d)) = Inr (of_nat c) \<and>
      first_min (f v) (ix_coarse_num ix) c" for v
    using closest_point_first_min [of "ix_coarse_num ix" ?d cd "slice data (v * ?d) ?d" cmp] nums cd
    by (simp add: compute_closest_coarse_cluster_def f_def)
  then obtain c where c: "\<And>v. compute_closest_coarse_cluster ix cmp (Some (slice data (v * ?d) ?d)) = Inr (of_nat (c v))"
    "\<And>v. first_min (f v) (ix_coarse_num ix) (c v)" by metis
  have small: "c v < 256" "c v < k" for v using c(2) [of v] nums by (auto simp: first_min_def)
  let ?b = "\<lambda>v. ucast (ucast (of_nat (c v) :: u32) :: byte) :: u32"
  have "assign_buckets ix cmp data = Inr (map ?b [0..<?n])"
    unfolding assign_buckets_def
  proof (rule rmap_pure)
    fix v assume "v \<in> set [0..<?n]"
    then have "v * ?d + ?d \<le> length data" using row_bound [of v ?n ?d] nums(5) by simp
    then show "rbind (rslice data (v * ?d) ?d) (\<lambda>x. rbind (compute_closest_coarse_cluster ix cmp (Some x))
        (\<lambda>c. Inr (ucast (ucast c :: byte)))) = Inr (?b v)" by (simp add: c(1))
  qed
  moreover have "unat (bucket_of (map ?b [0..<?n]) v) = c v" if "v < ?n" for v
  proof -
    have "bucket_of (map ?b [0..<?n]) v = of_nat (c v)"
      using that by (simp add: bucket_of_def byte_of_u32)
    then show ?thesis using small [of v] by (simp add: unat_of_nat)
  qed
  ultimately show ?thesis
    using c(2) small by (intro exI [of _ "map ?b [0..<?n]"]) (simp add: cluster_of_def f_def cd(1) data)
qed

lemma write_entries:
  assumes "\<And>w. w \<in> set ns \<Longrightarrow> unat w < n" and "n < 2 ^ 32" and "ix_base_num ix = n" and "place = map (place_of bb) [0..<n]"
  shows "p \<le> length m \<Longrightarrow> rfold (write_entry place) ns (m, p) =
    rbind (store m p (concat (map (\<lambda>w. bkt_entry (bkt_agraph ix bb) (place_of bb (unat w))) ns)))
      (\<lambda>m. Inr (m, p + 9 * length ns))"
  using assms(1)
proof (induction ns arbitrary: m p)
  case (Cons w ns)
  let ?it = "place_of bb (unat w)" and ?g = "bkt_agraph ix bb"
  let ?A = "le_bytes 4 w" and ?B = "le_bytes 1 (fst ?it)" and ?C = "le_bytes 4 (snd ?it)"
  let ?rest = "concat (map (\<lambda>w. bkt_entry ?g (place_of bb (unat w))) ns)"
  have w: "unat w < n" using Cons.prems(2) by simp
  have e: "bkt_entry ?g ?it = ?A @ ?B @ ?C"
    using bkt_agraph_place(3) [of "unat w" ix bb] w assms(2,3) by (simp add: bkt_entry_def)
  have step: "write_entry place w (m, p) = rbind (store m p (?A @ ?B @ ?C)) (\<lambda>m. Inr (m, p + 9))"
    using w by (simp add: write_entry_def assms(4) store_append rbind_assoc store32_def ac_simps)
  have all: "store m p (?A @ ?B @ ?C @ ?rest) = rbind (store m p (?A @ ?B @ ?C)) (\<lambda>m. store m (p + 9) ?rest)"
    using store_append [of m p "?A @ ?B @ ?C" ?rest] by simp
  show ?case
  proof (cases "store m p (?A @ ?B @ ?C)")
    case (Inr m1)
    then have "p + 9 \<le> length m1" by (auto simp: store_def split: if_splits)
    with Inr Cons.IH [of "p + 9" m1] Cons.prems(2) show ?thesis by (simp add: step all e add.assoc del: One_nat_def)
  qed (simp add: step all e del: One_nat_def)
qed simp

lemma write_bucket_element_record:
  assumes ok: "part_input_ok ix k" and cur: "cur < ix_base_num ix" and data: "ix_base_data ix = Some data"
    and off: "ix_data_offset ix = 0" "ix_label_offset ix = ix_dimension ix * 4"
      "ix_neighbor_offset ix = ix_dimension ix * 4 + 4"
    and place: "place = map (place_of bb) [0..<ix_base_num ix]"
  shows "write_bucket_element ix data place cur bks =
    (let it = place_of bb cur in rbind (rget bks (unat (fst it))) (\<lambda>m.
       rbind (store m (unat (snd it) * ix_element_size ix) (bkt_record (bkt_agraph ix bb) it)) (\<lambda>m.
       rput bks (unat (fst it)) m)))"
proof -
  let ?d = "ix_dimension ix" and ?n = "ix_base_num ix" and ?g = "bkt_agraph ix bb" and ?it = "place_of bb cur"
  let ?ns = "ix_base_graph ix ! cur"
  have n: "?n < 2 ^ 32" "length (ix_base_graph ix) = ?n" using ok by (auto simp: part_input_ok_def)
  have nbrs: "unat w < ?n" if "w \<in> set ?ns" for w using ok cur that n(2) by (auto simp: part_input_ok_def)
  have rd: "cur * ?d + ?d \<le> length data"
    using ok data row_bound [OF cur, of ?d] by (auto simp: part_input_ok_def)
  let ?A = "bytes32s (slice data (cur * ?d) ?d)" and ?B = "le_bytes 4 (of_nat cur :: u32)"
  let ?C = "le_bytes 4 (of_nat (length ?ns) :: u32)"
  let ?E = "concat (map (\<lambda>w. bkt_entry ?g (place_of bb (unat w))) ?ns)"
  have rec: "bkt_record ?g ?it = ?A @ ?B @ ?C @ ?E"
    using bkt_agraph_place [OF cur n(1), of bb] by (simp add: bkt_record_def data comp_def)
  have seq: "rbind (store m1 p ?C) (\<lambda>m. rbind (rfold (write_entry place) ?ns (m, q)) (\<lambda>(m, p). F m))
      = rbind (store m1 p ?C) (\<lambda>m. rbind (store m q ?E) F)" if q: "q = p + 4" for m1 p q F
  proof (rule rbind_cong [OF refl])
    fix m2 assume "store m1 p ?C = Inr m2"
    then have "q \<le> length m2" by (auto simp: q store_def split: if_splits)
    from write_entries [OF nbrs n(1) refl place this]
    show "rbind (rfold (write_entry place) ?ns (m2, q)) (\<lambda>(m, p). F m) = rbind (store m2 q ?E) F"
      by (simp add: rbind_assoc)
  qed
  have [simp]: "?d * 4 = 4 * ?d" by simp
  have "rget place cur = Inr ?it" using cur by (simp add: place)
  moreover have "length ?A = 4 * ?d" using rd by simp
  ultimately show ?thesis
    using rd cur n(2)
    by (simp add: write_bucket_element_def rec store_append off store32_def seq add.assoc Let_def rbind_assoc)
qed

text \<open>Writing the records into their slots, in any buckets large enough.\<close>

lemma fill_buckets:
  assumes n: "n < 2 ^ 32" and k: "length bks = k" "\<And>v. v < n \<Longrightarrow> unat (bucket_of bb v) < k"
    and len: "\<And>v. v < n \<Longrightarrow> length (rec (place_of bb v)) \<le> sz"
    and size: "\<And>v. v < n \<Longrightarrow> length (bks ! unat (bucket_of bb v)) = earlier bb n (bucket_of bb v) * sz"
  shows "\<exists>bks'. rfold (\<lambda>v bks. let it = place_of bb v in rbind (rget bks (unat (fst it))) (\<lambda>m.
        rbind (store m (unat (snd it) * sz) (rec it)) (\<lambda>m. rput bks (unat (fst it)) m))) [0..<n] bks = Inr bks' \<and>
    map length bks' = map length bks \<and>
    (\<forall>v < n. let it = place_of bb v in unat (snd it) * sz + sz \<le> length (bks' ! unat (fst it)) \<and>
       slice (bks' ! unat (fst it)) (unat (snd it) * sz) (length (rec it)) = rec it)"
proof -
  let ?f = "\<lambda>v bks. let it = place_of bb v in rbind (rget bks (unat (fst it))) (\<lambda>m.
        rbind (store m (unat (snd it) * sz) (rec it)) (\<lambda>m. rput bks (unat (fst it)) m))"
  let ?slot = "\<lambda>bks v. slice (bks ! unat (bucket_of bb v)) (unat (snd (place_of bb v)) * sz) (length (rec (place_of bb v)))"
  let ?P = "\<lambda>vs bks'. map length bks' = map length bks \<and> (\<forall>v \<in> set vs. ?slot bks' v = rec (place_of bb v))"
  have fst: "fst (place_of bb v) = bucket_of bb v" for v by (simp add: place_of_def)
  have room: "unat (snd (place_of bb v)) * sz + sz \<le> length (bks' ! unat (bucket_of bb v))"
    if "v < n" "map length bks' = map length bks" for v bks'
  proof -
    have "length bks' = length bks" using arg_cong [OF that(2), of length] by simp
    then have "map length bks' ! unat (bucket_of bb v) = length (bks' ! unat (bucket_of bb v))"
      using k that(1) by simp
    then have "length (bks' ! unat (bucket_of bb v)) = earlier bb n (bucket_of bb v) * sz"
      using size [OF that(1)] k that by simp
    with row_bound [OF place_of_slot(2) [OF that(1) n, of bb], of sz] show ?thesis by simp
  qed
  have "\<exists>bks'. rfold ?f [0..<n] bks = Inr bks' \<and> ?P [0..<n] bks'"
  proof (rule rfold_invariant)
    fix ys v zs bs assume split: "[0..<n] = ys @ v # zs" and inv: "?P ys bs"
    have v: "v = length ys" "v < n" using upt_split [OF split] by auto
    have ys: "set ys = {..<v}" by (rule upt_split_prefix [OF split])
    let ?b = "unat (bucket_of bb v)" and ?r = "rec (place_of bb v)" and ?o = "unat (snd (place_of bb v)) * sz"
    have lenb: "length bs = k" using arg_cong [OF conjunct1 [OF inv], of length] k(1) by simp
    have "?o + length ?r \<le> length (bs ! ?b)" using room [OF v(2) conjunct1 [OF inv]] len [OF v(2)] by simp
    then obtain m where m: "store (bs ! ?b) ?o ?r = Inr m" by (simp add: store_def)
    have f: "?f v bs = Inr (bs[?b := m])" using m k(2) [OF v(2)] lenb by (simp add: Let_def fst)
    have same: "map length (bs[?b := m]) = map length bks"
    proof -
      have "map length (bs[?b := m]) = (map length bs)[?b := length (bs ! ?b)]"
        using length_store [OF m] by (simp add: map_update)
      also have "\<dots> = map length bs" using k(2) [OF v(2)] lenb by (intro list_update_same_conv [THEN iffD2]) simp_all
      finally show ?thesis using inv by simp
    qed
    have slot: "?slot (bs[?b := m]) u = rec (place_of bb u)" if "u < v" for u
    proof (cases "bucket_of bb u = bucket_of bb v")
      case False
      then have "?b \<noteq> unat (bucket_of bb u)" by (simp add: word_unat_eq_iff)
      with inv that ys show ?thesis by simp
    next
      case True
      have "unat (snd (place_of bb u)) = earlier bb u (bucket_of bb u)" "unat (snd (place_of bb v)) = earlier bb v (bucket_of bb v)"
        using place_of_slot(1) [OF _ n, of _ bb] that v(2) by auto
      with earlier_strict [OF that, of bb] True have "unat (snd (place_of bb u)) < unat (snd (place_of bb v))" by simp
      from row_bound [OF this, of sz] len [of u] that v(2)
      have "unat (snd (place_of bb u)) * sz + length (rec (place_of bb u)) \<le> ?o" by simp
      from slice_store_other [OF m disjI1 [OF this]]
      have "?slot (bs[?b := m]) u = ?slot bs u" using True k(2) [OF v(2)] lenb by simp
      then show ?thesis using inv that ys by simp
    qed
    have "?slot (bs[?b := m]) v = ?r" using slice_store_same [OF m] k(2) [OF v(2)] lenb by simp
    with slot ys have "?P (ys @ [v]) (bs[?b := m])" using same by auto
    with f show "\<exists>s'. ?f v bs = Inr s' \<and> ?P (ys @ [v]) s'" by blast
  qed simp
  then show ?thesis using room by (auto simp: Let_def fst)
qed

lemma alloc_buckets_ok:
  assumes "malloc_ok malloc" and "alloc_buckets malloc sz dn k = Inr bks"
  shows "length bks = k" and "b < k \<Longrightarrow> length (bks ! b) = sz * dn ! b"
  using assms by (auto simp: alloc_buckets_def rmap_eq_Inr rbind_eq_Inr rget_eq_Inr malloc_ok_def split: option.splits)

lemma alloc_buckets_total:
  "(\<And>n. malloc n \<noteq> None) \<Longrightarrow> k \<le> length dn \<Longrightarrow> \<exists>bks. alloc_buckets malloc sz dn k = Inr bks"
  unfolding alloc_buckets_def by (intro rmap_total) (auto split: option.splits)

text \<open>The fields written by generation do not matter to its input.\<close>

lemma part_frame:
  fixes ix k a b c d
  defines "ix' \<equiv> ix\<lparr>ix_bucket_count := k, ix_data_offset := a, ix_label_offset := b, ix_neighbor_offset := c,
    ix_element_size := d, ix_element_num := ix_base_num ix\<rparr>"
  shows "assign_buckets ix' cmp data = assign_buckets ix cmp data" "part_input_ok ix' k = part_input_ok ix k"
    "bkt_agraph ix' bb = bkt_agraph ix bb"
  by (simp_all add: ix'_def assign_buckets_def compute_closest_coarse_cluster_def part_input_ok_def bkt_agraph_def cong: if_cong)

text \<open>Everything a successful generation establishes.\<close>

definition bkt_built :: "index \<Rightarrow> nat \<Rightarrow> u32 list \<Rightarrow> index \<Rightarrow> bool" where
  "bkt_built ix k bb ix' \<longleftrightarrow> length bb = ix_base_num ix \<and>
     (\<forall>v < ix_base_num ix. unat (bucket_of bb v) < k) \<and>
     bkt_repr ix' (bkt_agraph ix bb) \<and> ix_membkt_EP ix' = place_of bb (unat (ix_base_graph_EP ix)) \<and>
     ix_data_num ix' = map (\<lambda>b. earlier bb (ix_base_num ix) (of_nat b)) [0..<k] \<and>
     ix_base_in_bucket ix' = Some bb \<and> ix_base_to_lid ix' = map (snd \<circ> place_of bb) [0..<ix_base_num ix] \<and>
     ix_bucket_count ix' = k \<and> length (ix_buckets ix') = k \<and> ix_base_index_R ix' = ix_base_graph_R ix \<and>
     ix_element_size ix' = ix_dimension ix * 4 + 4 + (4 + unat (ix_base_graph_R ix) * 9) \<and>
     ix_element_num ix' = ix_base_num ix \<and> ix_dimension ix' = ix_dimension ix \<and> ix_base_num ix' = ix_base_num ix \<and>
     (\<forall>b < k. length (ix_buckets ix' ! b) = ix_element_size ix' * ix_data_num ix' ! b)"

lemma bkt_agraph_wf: "part_input_ok ix k \<Longrightarrow> ag_wf (bkt_agraph ix bb)"
proof -
  assume ok: "part_input_ok ix k"
  have "set (ag_edges (bkt_agraph ix bb) (place_of bb v)) \<subseteq> ag_nodes (bkt_agraph ix bb)" if "v < ix_base_num ix" for v
  proof -
    have "unat w < ix_base_num ix" if "w \<in> set (ix_base_graph ix ! v)" for w
      using ok that \<open>v < ix_base_num ix\<close> by (auto simp: part_input_ok_def)
    moreover have "ix_base_num ix < 2 ^ 32" using ok by (simp add: part_input_ok_def)
    ultimately show ?thesis
      unfolding bkt_agraph_place(1) [OF \<open>v < ix_base_num ix\<close> \<open>ix_base_num ix < 2 ^ 32\<close>] bkt_agraph_nodes by (auto intro!: imageI)
  qed
  then show ?thesis by (auto simp: ag_wf_def bkt_agraph_nodes)
qed

lemma bkt_node_size:
  assumes ok: "part_input_ok ix k" and v: "v < ix_base_num ix"
  shows "length (ag_vec (bkt_agraph ix bb) (place_of bb v)) = ix_dimension ix"
    "length (ag_edges (bkt_agraph ix bb) (place_of bb v)) \<le> unat (ix_base_graph_R ix)"
    "length (bkt_record (bkt_agraph ix bb) (place_of bb v)) \<le> ix_dimension ix * 4 + 4 + (4 + unat (ix_base_graph_R ix) * 9)"
proof -
  have n: "ix_base_num ix < 2 ^ 32" using ok by (simp add: part_input_ok_def)
  note g = bkt_agraph_place [OF v n, of bb]
  show 1: "length (ag_vec (bkt_agraph ix bb) (place_of bb v)) = ix_dimension ix"
    using ok row_bound [OF v, of "ix_dimension ix"] by (auto simp: part_input_ok_def g)
  show 2: "length (ag_edges (bkt_agraph ix bb) (place_of bb v)) \<le> unat (ix_base_graph_R ix)"
    using ok v by (simp add: part_input_ok_def g)
  show "length (bkt_record (bkt_agraph ix bb) (place_of bb v)) \<le> ix_dimension ix * 4 + 4 + (4 + unat (ix_base_graph_R ix) * 9)"
    using 1 2 by (simp add: length_bkt_record)
qed

lemma generate_buckets_build:
  assumes ok: "part_input_ok ix k" and malloc: "malloc_ok malloc"
    and data: "ix_base_data ix = Some data" and bb: "assign_buckets ix cmp data = Inr bb"
    and bbk: "length bb = ix_base_num ix" "\<And>v. v < ix_base_num ix \<Longrightarrow> unat (bucket_of bb v) < k"
    and alloc: "alloc_buckets malloc (ix_dimension ix * 4 + 4 + (4 + unat (ix_base_graph_R ix) * 9))
      (map (\<lambda>b. earlier bb (ix_base_num ix) (of_nat b)) [0..<k]) k = Inr bks"
  shows "\<exists>ix'. generate_base_index_on_buckets malloc cmp k ix = Inr ix' \<and> bkt_built ix k bb ix'"
proof -
  let ?n = "ix_base_num ix" and ?d = "ix_dimension ix" and ?g = "bkt_agraph ix bb"
  let ?sz = "?d * 4 + 4 + (4 + unat (ix_base_graph_R ix) * 9)"
  let ?dn = "map (\<lambda>b. earlier bb ?n (of_nat b)) [0..<k]"
  let ?place = "map (place_of bb) [0..<?n]"
  let ?ix = "ix\<lparr>ix_bucket_count := k, ix_data_offset := 0, ix_label_offset := ?d * 4,
       ix_neighbor_offset := ?d * 4 + 4, ix_element_size := ?sz, ix_element_num := ?n\<rparr>"
  have n: "?n < 2 ^ 32" "k \<le> 256" "ix_base_graph ix \<noteq> []" "ix_data_num ix = []" "ix_base_to_lid ix = []"
    "unat (ix_base_graph_EP ix) < ?n"
    using ok by (auto simp: part_input_ok_def)
  have placed: "place_vertices bb ?n (replicate k 0, replicate ?n (0, 0), replicate ?n 0)
      = Inr (?dn, ?place, map (snd \<circ> place_of bb) [0..<?n])"
    using place_vertices_ok [OF n(1) bbk(1) _ _ bbk(2) n(2)] by simp
  have dn: "?dn ! unat b = earlier bb ?n b" if "unat b < k" for b using that by simp
  note al = alloc_buckets_ok [OF malloc alloc]
  have sizes: "length (bks ! unat (bucket_of bb v)) = earlier bb ?n (bucket_of bb v) * ?sz" if "v < ?n" for v
    using al(2) [OF bbk(2) [OF that]] dn [OF bbk(2) [OF that]] by simp
  note sz = bkt_node_size [OF ok, of _ bb]
  from fill_buckets [where rec = "bkt_record ?g" and sz = ?sz, OF n(1) al(1) bbk(2) sz(3) sizes]
  obtain bks' where bks': "rfold (\<lambda>v bks. let it = place_of bb v in rbind (rget bks (unat (fst it))) (\<lambda>m.
        rbind (store m (unat (snd it) * ?sz) (bkt_record ?g it)) (\<lambda>m. rput bks (unat (fst it)) m))) [0..<?n] bks = Inr bks'"
    "map length bks' = map length bks"
    "\<And>v. v < ?n \<Longrightarrow> unat (snd (place_of bb v)) * ?sz + ?sz \<le> length (bks' ! unat (fst (place_of bb v))) \<and>
       slice (bks' ! unat (fst (place_of bb v))) (unat (snd (place_of bb v)) * ?sz) (length (bkt_record ?g (place_of bb v)))
         = bkt_record ?g (place_of bb v)"
    unfolding Let_def by blast
  have ok': "part_input_ok ?ix k" using ok by (simp add: part_frame)
  have loop: "rfold (write_bucket_element ?ix data ?place) [0..<?n] bks = Inr bks'"
  proof -
    have "rfold (write_bucket_element ?ix data ?place) [0..<?n] bks =
      rfold (\<lambda>v bks. let it = place_of bb v in rbind (rget bks (unat (fst it))) (\<lambda>m.
        rbind (store m (unat (snd it) * ?sz) (bkt_record ?g it)) (\<lambda>m. rput bks (unat (fst it)) m))) [0..<?n] bks"
    proof (rule rfold_cong)
      fix v s assume "v \<in> set [0..<?n]"
      with write_bucket_element_record [OF ok', of v data ?place bb s] data
      show "write_bucket_element ?ix data ?place v s = (let it = place_of bb v in rbind (rget s (unat (fst it))) (\<lambda>m.
        rbind (store m (unat (snd it) * ?sz) (bkt_record ?g it)) (\<lambda>m. rput s (unat (fst it)) m)))"
        by (simp add: bkt_agraph_def)
    qed
    with bks'(1) show ?thesis by simp
  qed
  let ?ix' = "?ix\<lparr>ix_data_num := ?dn, ix_base_in_bucket := Some bb, ix_base_to_lid := map (snd \<circ> place_of bb) [0..<?n],
       ix_buckets := bks', ix_base_index_R := ix_base_graph_R ix, ix_membkt_EP := place_of bb (unat (ix_base_graph_EP ix))\<rparr>"
  have "assign_buckets ?ix cmp data = Inr bb" using bb by (simp add: part_frame)
  then have gen: "generate_base_index_on_buckets malloc cmp k ix = Inr ?ix'"
    using n data placed loop alloc by (simp add: generate_base_index_on_buckets_def vec_resize_def Let_def)
  have lens: "length bks' = k" using arg_cong [OF bks'(2), of length] al(1) by simp
  have bl: "length (bks' ! b) = length (bks ! b)" if "b < k" for b
    using arg_cong [OF bks'(2), of "\<lambda>xs. xs ! b"] that al(1) lens by simp
  have "bkt_repr ?ix' ?g"
    unfolding bkt_repr_def
  proof (intro conjI ballI)
    show "ag_wf ?g" by (rule bkt_agraph_wf [OF ok])
    show "bkt_offsets ?ix'" by (simp add: bkt_offsets_def)
    fix it assume "it \<in> ag_nodes ?g"
    then obtain v where v: "v < ?n" "it = place_of bb v" by (auto simp: bkt_agraph_nodes)
    show "bkt_node_ok ?ix' ?g it"
      using sz [OF v(1)] unat32_bound [of "ix_base_graph_R ix"] by (simp add: bkt_node_ok_def v(2))
    show "unat (fst it) < length (ix_buckets ?ix')" using bbk(2) [OF v(1)] lens by (simp add: v(2) place_of_def)
    show "holds ?ix' ?g (ix_buckets ?ix' ! unat (fst it)) (unat (snd it) * ix_element_size ?ix') it"
      using bks'(3) [OF v(1)] by (simp add: holds_def v(2))
  qed
  then have "bkt_built ix k bb ?ix'"
    using bbk lens al(2) bl by (simp add: bkt_built_def)
  with gen show ?thesis by blast
qed

end
