(* ===== verification/BaseIndex.thy ===== *)
theory BaseIndex
  imports IndexState BestFirst
begin

text \<open>
  The single-machine index: \<open>Index::generate_base_index\<close> lays every vertex out as one record (vector,
  label, neighbour count, neighbour ids) of a flat allocation, and \<open>Index::search_base_index\<close> searches
  it. The layout is proved to represent the input graph, so that the search is the greedy search of
  \<open>GreedySpec\<close> on that graph.
\<close>

section \<open>Generating the index\<close>

text \<open>One iteration of the loop of \<open>generate_base_index\<close>.\<close>

definition write_element :: "index \<Rightarrow> u32 list \<Rightarrow> nat \<Rightarrow> byte list \<Rightarrow> byte list result" where
  "write_element ix data cur m =
     (let off = cur * ix_element_size ix in
      rbind (rslice data (cur * ix_dimension ix) (ix_dimension ix)) (\<lambda>vec.
      rbind (store m (off + ix_data_offset ix) (bytes32s vec)) (\<lambda>m.
      rbind (store32 m (off + ix_label_offset ix) (of_nat cur)) (\<lambda>m.
      rbind (rget (ix_base_graph ix) cur) (\<lambda>ns.
      rbind (store32 m (off + ix_neighbor_offset ix) (of_nat (length ns))) (\<lambda>m.
      rbind (rfold (\<lambda>n (m, p). rbind (store32 m p n) (\<lambda>m. Inr (m, p + 4))) ns
               (m, off + ix_neighbor_offset ix + 4)) (\<lambda>(m, p).
      Inr m)))))))"

text \<open>\<open>malloc\<close> returns either memory of the size asked for, of any content, or nothing.\<close>

definition generate_base_index :: "(nat \<Rightarrow> byte list option) \<Rightarrow> index \<Rightarrow> index result" where
  "generate_base_index malloc ix =
     rbind (require (ix_base_data ix \<noteq> None) (Runtime_Error ''error@generate_base_index: _base_data is nullptr.'')) (\<lambda>_.
     rbind (require (ix_base_graph ix \<noteq> []) (Runtime_Error ''error@generate_base_index: _base_graph is empty.'')) (\<lambda>_.
     let data_bytes_len = ix_dimension ix * 4;
         label_bytes_len = 4;
         neighbor_bytes_len = (1 + unat (ix_base_graph_R ix)) * 4;
         ix = ix\<lparr>ix_data_offset := 0, ix_label_offset := data_bytes_len,
                 ix_neighbor_offset := data_bytes_len + label_bytes_len,
                 ix_element_size := data_bytes_len + label_bytes_len + neighbor_bytes_len,
                 ix_element_num := ix_base_num ix\<rparr>
     in case malloc (ix_element_num ix * ix_element_size ix) of
          None \<Rightarrow> Inl (Runtime_Error ''error@generate_base_index: malloc failed.'')
        | Some m \<Rightarrow>
            rbind (deref (ix_base_data ix)) (\<lambda>data.
            rbind (loop32 (ix_element_num ix) (write_element ix data) m) (\<lambda>m.
            Inr (ix\<lparr>ix_base_index := Some m, ix_base_index_R := ix_base_graph_R ix,
                    ix_base_index_EP := ix_base_graph_EP ix\<rparr>)))))"

section \<open>Searching it\<close>

definition flat_nbrs :: "index \<Rightarrow> u32 \<Rightarrow> u32 list result" where
  "flat_nbrs ix v =
     rbind (deref (ix_base_index ix)) (\<lambda>m.
     let p = unat v * ix_element_size ix + ix_neighbor_offset ix in
     rbind (load32 m p) (\<lambda>MaxM. load32s m (p + 4) (unat MaxM)))"

definition flat_vec :: "index \<Rightarrow> u32 \<Rightarrow> u32 list result" where
  "flat_vec ix v =
     rbind (deref (ix_base_index ix)) (\<lambda>m.
     load32s m (unat v * ix_element_size ix + ix_data_offset ix) (ix_dimension ix))"

definition flat_label :: "index \<Rightarrow> u32 \<Rightarrow> u32 result" where
  "flat_label ix v =
     rbind (deref (ix_base_index ix)) (\<lambda>m. load32 m (unat v * ix_element_size ix + ix_label_offset ix))"

text \<open>
  The search clears its scratch space, starts from the entry point, and copies out label and distance
  of the first \<open>K\<close> entries of the pool (whatever they are: the number of entries is not consulted).
\<close>

definition search_base_index ::
    "index \<Rightarrow> (u32 list \<Rightarrow> u32 list \<Rightarrow> 'd::linorder) \<Rightarrow> nat \<Rightarrow> (u32, 'd) scratch \<Rightarrow> u32 list \<Rightarrow> nat \<Rightarrow>
     ((u32 \<times> 'd) list \<times> (u32, 'd, u32 set) bf_state) result" where
  "search_base_index ix cmp fuel sc query K =
     (let sc = sc_clear sc in
      rbind (bf_search (bf_ops_of rs_seen rs_mark flat_nbrs flat_vec (\<lambda>base. cmp base query) ix)
               fuel [ix_base_index_EP ix] (sc_best sc) (sc_inserted_rs sc)) (\<lambda>st.
      rbind (rmap (\<lambda>i. rbind (pq_at (bf_pool st) i) (\<lambda>n.
               rbind (flat_label ix (nb_id n)) (\<lambda>l. Inr (l, nb_dist n)))) [0..<K]) (\<lambda>out.
      Inr (out, st))))"

section \<open>The layout\<close>

definition flat_record :: "u32 agraph \<Rightarrow> u32 \<Rightarrow> byte list" where
  "flat_record g v = bytes32s (ag_vec g v) @ le_bytes 4 (ag_label g v) @
     le_bytes 4 (of_nat (length (ag_edges g v)) :: u32) @ bytes32s (ag_edges g v)"

text \<open>The index represents a graph when its allocation holds the record of every vertex.\<close>

definition flat_repr :: "index \<Rightarrow> u32 agraph \<Rightarrow> bool" where
  "flat_repr ix g \<longleftrightarrow> ag_wf g \<and> ag_nodes g = {v. unat v < ix_element_num ix} \<and>
     ix_data_offset ix = 0 \<and> ix_label_offset ix = 4 * ix_dimension ix \<and>
     ix_neighbor_offset ix = 4 * ix_dimension ix + 4 \<and>
     (\<exists>m. ix_base_index ix = Some m \<and> length m = ix_element_num ix * ix_element_size ix \<and>
       (\<forall>v \<in> ag_nodes g. length (ag_vec g v) = ix_dimension ix \<and> length (ag_edges g v) < 2 ^ 32 \<and>
          length (flat_record g v) \<le> ix_element_size ix \<and>
          slice m (unat v * ix_element_size ix) (length (flat_record g v)) = flat_record g v))"

text \<open>A part of a record found in memory.\<close>

lemma slice_part:
  assumes "slice m a (length (xs @ ys @ zs)) = xs @ ys @ zs"
  shows "slice m (a + length xs) (length ys) = ys"
proof -
  have "slice m (a + length xs) (length ys) = slice (xs @ ys @ zs) (length xs) (length ys)"
    using slice_slice [of "length xs" "length ys" "length (xs @ ys @ zs)" m a] assms by simp
  then show ?thesis by (simp add: slice_def)
qed

lemma flat_reads:
  assumes "flat_repr ix g" and v: "v \<in> ag_nodes g"
  shows "flat_nbrs ix v = Inr (ag_edges g v)" "flat_vec ix v = Inr (ag_vec g v)"
    "flat_label ix v = Inr (ag_label g v)"
proof -
  from assms obtain m where m: "ix_base_index ix = Some m" "length m = ix_element_num ix * ix_element_size ix"
    and len: "length (ag_vec g v) = ix_dimension ix" "length (ag_edges g v) < 2 ^ 32"
      "length (flat_record g v) \<le> ix_element_size ix"
    and s: "slice m (unat v * ix_element_size ix) (length (flat_record g v)) = flat_record g v"
    and off: "ix_data_offset ix = 0" "ix_label_offset ix = 4 * ix_dimension ix"
      "ix_neighbor_offset ix = 4 * ix_dimension ix + 4"
    and num: "unat v < ix_element_num ix"
    by (auto simp: flat_repr_def)
  let ?a = "unat v * ix_element_size ix" and ?d = "ix_dimension ix"
  have top: "?a + ix_element_size ix \<le> length m" using row_bound [OF num] m(2) by simp
  have size: "4 * ?d + 8 + 4 * length (ag_edges g v) \<le> ix_element_size ix"
    using len by (simp add: flat_record_def)
  note part = slice_part [of m ?a]
  let ?A = "bytes32s (ag_vec g v)" and ?B = "le_bytes 4 (ag_label g v)" and ?E = "bytes32s (ag_edges g v)"
  let ?C = "le_bytes 4 (of_nat (length (ag_edges g v)) :: u32)"
  have s: "slice m ?a (length (?A @ ?B @ ?C @ ?E)) = ?A @ ?B @ ?C @ ?E" using s by (simp add: flat_record_def)
  have "slice m ?a (4 * ?d) = ?A" using part [of "[]" ?A "?B @ ?C @ ?E"] s len by simp
  then show "flat_vec ix v = Inr (ag_vec g v)"
    using load32s_slice [of m ?a "ag_vec g v"] m(1) off len top size by (simp add: flat_vec_def)
  have "slice m (?a + 4 * ?d) 4 = ?B" using part [of ?A ?B "?C @ ?E"] s len by simp
  then show "flat_label ix v = Inr (ag_label g v)"
    using load32_slice [of m "?a + 4 * ?d" "ag_label g v"] m(1) off top size by (simp add: flat_label_def)
  have "slice m (?a + 4 * ?d + 4) 4 = ?C"
    using part [of "?A @ ?B" ?C ?E] s len by (simp add: add.assoc)
  then have "load32 m (?a + (4 * ?d + 4)) = Inr (of_nat (length (ag_edges g v)))"
    using load32_slice [of m "?a + (4 * ?d + 4)"] top size by (simp add: add.assoc)
  moreover have "slice m (?a + 4 * ?d + 8) (4 * length (ag_edges g v)) = ?E"
    using part [of "?A @ ?B @ ?C" ?E "[]"] s len by (simp add: add.assoc)
  then have "load32s m (?a + (4 * ?d + 4) + 4) (length (ag_edges g v)) = Inr (ag_edges g v)"
    using load32s_slice [of m "?a + 4 * ?d + 8" "ag_edges g v"] top size by (simp add: add.assoc)
  moreover have "unat (of_nat (length (ag_edges g v)) :: u32) = length (ag_edges g v)"
    using len(2) by (simp add: unat_of_nat32)
  ultimately show "flat_nbrs ix v = Inr (ag_edges g v)"
    using m(1) off by (simp add: flat_nbrs_def Let_def)
qed

interpretation flat: best_first rs_seen rs_mark "\<lambda>v. v" "\<lambda>v. UNIV" flat_repr flat_nbrs flat_vec flat_label
  by unfold_locales (simp_all add: flat_reads, simp add: flat_repr_def)

section \<open>Generation represents the input\<close>

definition base_input_ok :: "index \<Rightarrow> bool" where
  "base_input_ok ix \<longleftrightarrow> 0 < ix_base_num ix \<and> ix_base_num ix < 2 ^ 32 \<and>
     (\<exists>data. ix_base_data ix = Some data \<and> length data = ix_base_num ix * ix_dimension ix) \<and>
     length (ix_base_graph ix) = ix_base_num ix \<and> unat (ix_base_graph_EP ix) < ix_base_num ix \<and>
     (\<forall>ns \<in> set (ix_base_graph ix). length ns \<le> unat (ix_base_graph_R ix) \<and>
        (\<forall>w \<in> set ns. unat w < ix_base_num ix))"

definition base_agraph :: "index \<Rightarrow> u32 agraph" where
  "base_agraph ix = \<lparr>ag_nodes = {v. unat v < ix_base_num ix}, ag_edges = (\<lambda>v. ix_base_graph ix ! unat v),
     ag_vec = (\<lambda>v. slice (the (ix_base_data ix)) (unat v * ix_dimension ix) (ix_dimension ix)),
     ag_label = (\<lambda>v. v)\<rparr>"

lemma base_agraph_sel [simp]:
  "ag_nodes (base_agraph ix) = {v. unat v < ix_base_num ix}"
  "ag_edges (base_agraph ix) v = ix_base_graph ix ! unat v"
  "ag_vec (base_agraph ix) v = slice (the (ix_base_data ix)) (unat v * ix_dimension ix) (ix_dimension ix)"
  "ag_label (base_agraph ix) v = v"
  by (simp_all add: base_agraph_def)

lemma base_agraph_wf: "base_input_ok ix \<Longrightarrow> ag_wf (base_agraph ix)"
  by (auto simp: ag_wf_def base_input_ok_def)

lemma store_seq32:
  "p \<le> length m \<Longrightarrow>
   rfold (\<lambda>n (m, p). rbind (store32 m p n) (\<lambda>m. Inr (m, p + 4))) ns (m, p)
   = rbind (store m p (bytes32s ns)) (\<lambda>m. Inr (m, p + 4 * length ns))"
proof (induction ns arbitrary: m p)
  case Nil
  then show ?case by (simp add: bytes32s_def)
next
  case (Cons n ns)
  show ?case
  proof (cases "store32 m p n")
    case (Inr m')
    then have "p + 4 \<le> length m'" using Cons.prems by (auto simp: store32_def store_def split: if_splits)
    moreover have "store m p (bytes32s (n # ns)) = rbind (store m p (le_bytes 4 n)) (\<lambda>m. store m (p + 4) (bytes32s ns))"
      using store_append [of m p "le_bytes 4 n" "bytes32s ns"] by (simp add: bytes32s_def)
    ultimately show ?thesis
      using Inr Cons.IH [of "p + 4" m'] by (simp add: store32_def add.assoc)
  next
    case (Inl e)
    moreover have "store m p (bytes32s (n # ns)) = Inl e"
      using Inl store_append [of m p "le_bytes 4 n" "bytes32s ns"] by (simp add: bytes32s_def store32_def)
    ultimately show ?thesis by simp
  qed
qed

lemma write_element_record:
  assumes ok: "base_input_ok ix" and cur: "cur < ix_base_num ix" and data: "ix_base_data ix = Some data"
    and off: "ix_data_offset ix = 0" "ix_label_offset ix = ix_dimension ix * 4"
      "ix_neighbor_offset ix = ix_dimension ix * 4 + 4"
  shows "write_element ix data cur m = store m (cur * ix_element_size ix) (flat_record (base_agraph ix) (of_nat cur))"
proof -
  let ?d = "ix_dimension ix" and ?a = "cur * ix_element_size ix"
  have unat: "unat (of_nat cur :: u32) = cur" using ok cur by (intro unat_of_nat32) (simp add: base_input_ok_def)
  have len: "length data = ix_base_num ix * ?d" "cur < length (ix_base_graph ix)"
    using ok data cur by (auto simp: base_input_ok_def)
  then have rd: "cur * ?d + ?d \<le> length data" using row_bound [OF cur, of ?d] by simp
  let ?A = "bytes32s (slice data (cur * ?d) ?d)" and ?B = "le_bytes 4 (of_nat cur :: u32)"
  let ?ns = "ix_base_graph ix ! cur"
  let ?C = "le_bytes 4 (of_nat (length ?ns) :: u32)"
  have rec: "flat_record (base_agraph ix) (of_nat cur) = ?A @ ?B @ ?C @ bytes32s ?ns"
    by (simp add: flat_record_def unat data)
  have seq: "rbind (store m1 p ?C) (\<lambda>m. rbind (rfold (\<lambda>n (m, p). rbind (store32 m p n) (\<lambda>m. Inr (m, p + 4))) ?ns (m, q))
      (\<lambda>(m, p). Inr m)) = rbind (store m1 p ?C) (\<lambda>m. store m q (bytes32s ?ns))" if q: "q = p + 4" for m1 p q
  proof (rule rbind_cong [OF refl])
    fix m2 assume "store m1 p ?C = Inr m2"
    then have "q \<le> length m2" by (auto simp: q store_def split: if_splits)
    then show "rbind (rfold (\<lambda>n (m, p). rbind (store32 m p n) (\<lambda>m. Inr (m, p + 4))) ?ns (m2, q)) (\<lambda>(m, p). Inr m)
        = store m2 q (bytes32s ?ns)"
      by (simp add: store_seq32 rbind_assoc) (simp add: rbind_def split: sum.split)
  qed
  have [simp]: "?d * 4 = 4 * ?d" by simp
  have "length ?A = 4 * ?d" using rd by simp
  then show ?thesis
    using rd len(2) by (simp add: write_element_def rec store_append off store32_def seq [unfolded store32_def] add.assoc Let_def)
qed

text \<open>With memory available, generation succeeds and represents the input graph.\<close>

lemma generate_base_index_repr:
  assumes ok: "base_input_ok ix" and malloc: "malloc_ok malloc"
    and some: "malloc (ix_base_num ix * (ix_dimension ix * 4 + 4 + (1 + unat (ix_base_graph_R ix)) * 4)) \<noteq> None"
  shows "\<exists>ix'. generate_base_index malloc ix = Inr ix' \<and> flat_repr ix' (base_agraph ix) \<and>
    ix_base_index_EP ix' = ix_base_graph_EP ix \<and> ix_base_index_R ix' = ix_base_graph_R ix"
proof -
  let ?n = "ix_base_num ix" and ?d = "ix_dimension ix" and ?g = "base_agraph ix"
  let ?sz = "?d * 4 + 4 + (1 + unat (ix_base_graph_R ix)) * 4"
  let ?ix = "ix\<lparr>ix_data_offset := 0, ix_label_offset := ?d * 4, ix_neighbor_offset := ?d * 4 + 4,
       ix_element_size := ?sz, ix_element_num := ?n\<rparr>"
  from some obtain m where m: "malloc (?n * ?sz) = Some m" by auto
  from ok obtain data where data: "ix_base_data ix = Some data" "length data = ?n * ?d"
    by (auto simp: base_input_ok_def)
  have n: "?n < 2 ^ 32" "0 < ?n" "ix_base_graph ix \<noteq> []" using ok by (auto simp: base_input_ok_def)
  have ok': "base_input_ok ?ix" using ok by (simp add: base_input_ok_def)
  have deg: "length (ix_base_graph ix ! v) \<le> unat (ix_base_graph_R ix)" if "v < ?n" for v
    using ok that by (simp add: base_input_ok_def)
  have vec: "length (slice data (v * ?d) ?d) = ?d" if "v < ?n" for v
    using row_bound [OF that, of ?d] data(2) by simp
  have size: "length (flat_record ?g (of_nat v)) \<le> ?sz" if "v < ?n" for v
    using deg [OF that] vec [OF that] n(1) that data(1) by (simp add: flat_record_def unat_of_nat32)
  from fill_records [of ?n "\<lambda>v. flat_record ?g (of_nat v)" ?sz m, OF size malloc_ok_length [OF malloc m]]
  obtain m' where m': "rfold (\<lambda>v m. store m (v * ?sz) (flat_record ?g (of_nat v))) [0..<?n] m = Inr m'"
    "length m' = ?n * ?sz"
    "\<forall>v < ?n. slice m' (v * ?sz) (length (flat_record ?g (of_nat v))) = flat_record ?g (of_nat v)" by blast
  have "rfold (write_element ?ix data) [0..<?n] m = rfold (\<lambda>v m. store m (v * ?sz) (flat_record ?g (of_nat v))) [0..<?n] m"
  proof (rule rfold_cong)
    fix v s assume "v \<in> set [0..<?n]"
    with write_element_record [OF ok', of v data s] data(1)
    show "write_element ?ix data v s = store s (v * ?sz) (flat_record ?g (of_nat v))" by (simp add: base_agraph_def)
  qed
  then have gen: "generate_base_index malloc ix = Inr (?ix\<lparr>ix_base_index := Some m',
      ix_base_index_R := ix_base_graph_R ix, ix_base_index_EP := ix_base_graph_EP ix\<rparr>)"
    using m m'(1) data(1) n by (simp add: generate_base_index_def Let_def)
  have "\<forall>v \<in> ag_nodes ?g. length (ag_vec ?g v) = ?d \<and> length (ag_edges ?g v) < 2 ^ 32 \<and>
      length (flat_record ?g v) \<le> ?sz \<and> slice m' (unat v * ?sz) (length (flat_record ?g v)) = flat_record ?g v"
  proof (intro ballI conjI)
    fix v assume "v \<in> ag_nodes ?g"
    then have v: "unat v < ?n" by simp
    show "length (ag_vec ?g v) = ?d" using vec [OF v] data(1) by simp
    show "length (ag_edges ?g v) < 2 ^ 32"
      using deg [OF v] unat32_bound [of "ix_base_graph_R ix"] by simp
    show "length (flat_record ?g v) \<le> ?sz" using size [OF v] by simp
    show "slice m' (unat v * ?sz) (length (flat_record ?g v)) = flat_record ?g v"
      using m'(3) [rule_format, OF v] by simp
  qed
  then have "flat_repr (?ix\<lparr>ix_base_index := Some m', ix_base_index_R := ix_base_graph_R ix,
      ix_base_index_EP := ix_base_graph_EP ix\<rparr>) ?g"
    using base_agraph_wf [OF ok] m'(2) by (simp add: flat_repr_def)
  with gen show ?thesis by auto
qed

section \<open>The search is the greedy search\<close>

text \<open>Entries of the pool and their keys.\<close>

lemma search_base_index_greedy:
  fixes cmp :: "u32 list \<Rightarrow> u32 list \<Rightarrow> 'd::linorder"
  assumes repr: "flat_repr ix g" and ep: "ix_base_index_EP ix \<in> ag_nodes g" and sc: "sc_wf sc"
    and fuel: "card (ag_nodes g) < fuel"
  shows "\<exists>P. greedy (unat (sc_L sc)) (\<lambda>v. cmp (ag_vec g v) query) (ag_edges g) fuel {ix_base_index_EP ix} {} = Some P \<and>
    (\<forall>K \<le> length P. \<exists>st. search_base_index ix cmp fuel sc query K
       = Inr (map (\<lambda>(d, v). (ag_label g v, d)) (take K P), st) \<and> bf_cmps st \<le> card (ag_nodes g))"
proof -
  let ?D = "\<lambda>v. cmp (ag_vec g v) query" and ?sc = "sc_clear sc"
  have sc': "pq_wf (sc_best ?sc)" "pq_cap (sc_best ?sc) = unat (sc_L sc)" "pq_keys (sc_best ?sc) = []"
    "sc_inserted_rs ?sc = {}"
    using sc_clear_wf [OF sc] by (auto simp: sc_wf_def sc_clear_def)
  from flat.search [OF repr _ fuel sc'(1,2,3), where init = "[ix_base_index_EP ix]" and v = "{}" and
      cmp = "\<lambda>x. cmp x query"] ep
  obtain st P where st: "bf_search (bf_ops_of rs_seen rs_mark flat_nbrs flat_vec (\<lambda>base. cmp base query) ix)
      fuel [ix_base_index_EP ix] (sc_best ?sc) {} = Inr st"
    "greedy (unat (sc_L sc)) ?D (ag_edges g) fuel {ix_base_index_EP ix} {} = Some P"
    "pq_wf (bf_pool st)" "pq_keys (bf_pool st) = P" "set P \<subseteq> vkey ?D ` ag_nodes g"
    "bf_cmps st \<le> card (ag_nodes g)" by auto
  have "search_base_index ix cmp fuel sc query K = Inr (map (\<lambda>(d, v). (ag_label g v, d)) (take K P), st)"
    if K: "K \<le> length P" for K
  proof -
    have "rbind (pq_at (bf_pool st) i) (\<lambda>n. rbind (flat_label ix (nb_id n)) (\<lambda>l. Inr (l, nb_dist n)))
        = Inr (case P ! i of (d, v) \<Rightarrow> (ag_label g v, d))" if "i \<in> set [0..<K]" for i
    proof -
      from that K pq_at_key [OF st(3), of i] obtain n where n: "pq_at (bf_pool st) i = Inr n"
        "P ! i = (nb_dist n, nb_id n)" by (auto simp: st(4))
      have "P ! i \<in> set P" using that K by simp
      with st(5) n(2) have "nb_id n \<in> ag_nodes g" by (auto simp: vkey_def)
      with n show ?thesis by (simp add: flat_reads [OF repr])
    qed
    then have "rmap (\<lambda>i. rbind (pq_at (bf_pool st) i) (\<lambda>n. rbind (flat_label ix (nb_id n)) (\<lambda>l. Inr (l, nb_dist n)))) [0..<K]
        = Inr (map (\<lambda>i. case P ! i of (d, v) \<Rightarrow> (ag_label g v, d)) [0..<K])" by (rule rmap_pure)
    also have "map (\<lambda>i. case P ! i of (d, v) \<Rightarrow> (ag_label g v, d)) [0..<K] = map (\<lambda>(d, v). (ag_label g v, d)) (take K P)"
      using K by (intro nth_equalityI) auto
    finally show ?thesis by (simp add: search_base_index_def Let_def sc'(4) st(1))
  qed
  with st(2,6) show ?thesis by blast
qed

text \<open>The input, the index built from it and the scratch space of a thread.\<close>

lemma base_search_greedy:
  fixes cmp :: "u32 list \<Rightarrow> u32 list \<Rightarrow> 'd::linorder"
  assumes ok: "base_input_ok ix" and gen: "generate_base_index malloc ix = Inr ix'"
    and malloc: "malloc_ok malloc"
    and sc: "sc_wf sc" and fuel: "ix_base_num ix < fuel"
  shows "\<exists>P. greedy (unat (sc_L sc)) (\<lambda>v. cmp (ag_vec (base_agraph ix) v) query) (ag_edges (base_agraph ix)) fuel
        {ix_base_graph_EP ix} {} = Some P \<and>
    (\<forall>K \<le> length P. \<exists>st. search_base_index ix' cmp fuel sc query K = Inr (map (\<lambda>(d, v). (v, d)) (take K P), st) \<and>
       bf_cmps st \<le> ix_base_num ix)"
proof -
  have "malloc (ix_base_num ix * (ix_dimension ix * 4 + 4 + (1 + unat (ix_base_graph_R ix)) * 4)) \<noteq> None"
    using gen by (auto simp: generate_base_index_def Let_def require_def split: if_splits option.splits)
  from generate_base_index_repr [OF ok malloc this] gen
  have repr: "flat_repr ix' (base_agraph ix)" and ep: "ix_base_index_EP ix' = ix_base_graph_EP ix" by auto
  have card: "card (ag_nodes (base_agraph ix)) \<le> ix_base_num ix" by (simp add: card_unat_less)
  have "ix_base_index_EP ix' \<in> ag_nodes (base_agraph ix)" using ok ep by (simp add: base_input_ok_def)
  from search_base_index_greedy [OF repr this sc le_less_trans [OF card fuel], of cmp query] card
  show ?thesis by (fastforce simp: ep)
qed

section \<open>Properties of the single-machine index\<close>

text \<open>
  C11: the generated layout round-trips: reading any vertex of the generated index gives back its vector,
  its id and its neighbour list, whatever the allocation held before.
\<close>

theorem base_index_roundtrip:
  assumes "base_input_ok ix" and "malloc_ok malloc" and "generate_base_index malloc ix = Inr ix'"
    and "unat v < ix_base_num ix"
  shows "flat_vec ix' v = Inr (slice (the (ix_base_data ix)) (unat v * ix_dimension ix) (ix_dimension ix)) \<and>
    flat_label ix' v = Inr v \<and> flat_nbrs ix' v = Inr (ix_base_graph ix ! unat v)"
proof -
  have "malloc (ix_base_num ix * (ix_dimension ix * 4 + 4 + (1 + unat (ix_base_graph_R ix)) * 4)) \<noteq> None"
    using assms(3) by (auto simp: generate_base_index_def Let_def require_def split: if_splits option.splits)
  from generate_base_index_repr [OF assms(1,2) this] assms(3) have "flat_repr ix' (base_agraph ix)" by auto
  from flat_reads [OF this, of v] assms(4) show ?thesis by simp
qed

text \<open>A two-vertex index on which the theorems are applied.\<close>

definition tiny_index :: index where
  "tiny_index = index_new\<lparr>ix_dimension := 1, ix_base_num := 2, ix_base_data := Some [7, 3],
     ix_base_graph := [[1], [0]], ix_base_graph_R := 1, ix_base_graph_EP := 0\<rparr>"

definition zero_malloc :: "nat \<Rightarrow> byte list option" where
  "zero_malloc n = Some (replicate n 0)"

definition tiny_dist :: "u32 list \<Rightarrow> u32 list \<Rightarrow> nat" where
  "tiny_dist x y = unat (x ! 0)"

lemma tiny_ok: "base_input_ok tiny_index" "malloc_ok zero_malloc"
  by (simp_all add: tiny_index_def index_new_def base_input_ok_def malloc_ok_def zero_malloc_def)

lemma tiny_generates: "\<exists>ix'. generate_base_index zero_malloc tiny_index = Inr ix'"
  using generate_base_index_repr [OF tiny_ok] by (auto simp: zero_malloc_def)

theorem base_index_roundtrip_witness:
  "\<exists>ix'. generate_base_index zero_malloc tiny_index = Inr ix' \<and> flat_nbrs ix' 1 = Inr [0] \<and> flat_label ix' 1 = Inr 1"
proof -
  obtain ix' where "generate_base_index zero_malloc tiny_index = Inr ix'" using tiny_generates by blast
  with base_index_roundtrip [OF tiny_ok this, of 1] show ?thesis by (simp add: tiny_index_def index_new_def)
qed

lemma base_search_least:
  fixes cmp :: "u32 list \<Rightarrow> u32 list \<Rightarrow> 'd::linorder"
  defines "R ix \<equiv> ag_reach (base_agraph ix) {ix_base_graph_EP ix}"
    and "D ix query v \<equiv> cmp (ag_vec (base_agraph ix) v) query"
  assumes "base_input_ok ix" and "malloc_ok malloc" and "generate_base_index malloc ix = Inr ix'"
    and "sc_wf sc" and "ix_base_num ix < fuel" and "card (R ix) \<le> unat (sc_L sc)" and "K \<le> card (R ix)"
  shows "\<exists>st. search_base_index ix' cmp fuel sc query K =
      Inr (map (\<lambda>(d, v). (v, d)) (least_keys K (vkey (D ix query) ` R ix)), st) \<and> bf_cmps st \<le> ix_base_num ix"
proof -
  let ?g = "base_agraph ix" and ?L = "unat (sc_L sc)"
  have wf: "ag_wf ?g" and ep: "{ix_base_graph_EP ix} \<subseteq> ag_nodes ?g"
    using base_agraph_wf [OF assms(3)] assms(3) by (simp_all add: base_input_ok_def)
  have fin: "finite (R ix)"
    using ag_reach_nodes [OF wf ep] by (auto simp: R_def intro: finite_subset)
  obtain P where P: "greedy ?L (D ix query) (ag_edges ?g) fuel {ix_base_graph_EP ix} {} = Some P"
    and out: "\<And>K. K \<le> length P \<Longrightarrow> \<exists>st. search_base_index ix' cmp fuel sc query K =
        Inr (map (\<lambda>(d, v). (v, d)) (take K P), st) \<and> bf_cmps st \<le> ix_base_num ix"
    using base_search_greedy [OF assms(3,5,4,6,7), of cmp query] by (auto simp: D_def [abs_def])
  have "P = pool ?L (D ix query) (R ix)"
    using greedy_exhaustive [OF P wf ep] assms(8) by (simp add: R_def)
  moreover have "take K (pool ?L (D ix query) (R ix)) = least_keys K (vkey (D ix query) ` R ix)"
    using assms(8,9) by (simp add: pool_def least_keys_def min_def)
  moreover have "K \<le> length P" using calculation(1) assms(8,9) fin by (simp add: length_pool)
  ultimately show ?thesis using out by fastforce
qed

text \<open>
  C12: with a scratch space that has room for every vertex reachable from the entry point, the
  single-machine search returns the \<open>K\<close> nearest reachable vertices in order of distance, computing at
  most one distance per vertex.
\<close>

theorem base_search_exact:
  fixes cmp :: "u32 list \<Rightarrow> u32 list \<Rightarrow> 'd::linorder"
  defines "R ix \<equiv> ag_reach (base_agraph ix) {ix_base_graph_EP ix}"
    and "D ix query v \<equiv> cmp (ag_vec (base_agraph ix) v) query"
  assumes "base_input_ok ix" and "malloc_ok malloc" and "generate_base_index malloc ix = Inr ix'"
    and "sc_wf sc" and "ix_base_num ix < fuel" and "card (R ix) \<le> unat (sc_L sc)" and "K \<le> card (R ix)"
  shows "\<exists>st. search_base_index ix' cmp fuel sc query K =
      Inr (map (\<lambda>(d, v). (v, d)) (least_keys K (vkey (D ix query) ` R ix)), st) \<and> bf_cmps st \<le> ix_base_num ix"
  using base_search_least [OF assms(3-7), of K cmp query] assms(8,9) by (simp add: R_def D_def [abs_def])

lemma tiny_reach: "ag_reach (base_agraph tiny_index) {0} = {0, 1}"
proof
  have "v \<in> {0, 1}" if "v \<in> ag_reach (base_agraph tiny_index) {0}" for v
    using that by (induction rule: ag_reach.induct) (auto simp: tiny_index_def)
  then show "ag_reach (base_agraph tiny_index) {0} \<subseteq> {0, 1}" by blast
  have "1 \<in> ag_reach (base_agraph tiny_index) {0}"
    by (rule ag_reach.edge [of 0]) (auto simp: tiny_index_def intro: ag_reach.start)
  then show "{0, 1} \<subseteq> ag_reach (base_agraph tiny_index) {0}" by (auto intro: ag_reach.start)
qed

theorem base_search_exact_witness:
  "\<exists>ix' sc st. generate_base_index zero_malloc tiny_index = Inr ix' \<and> sc_new 2 1 = Inr sc \<and>
     search_base_index ix' tiny_dist 3 sc [0] 2 = Inr ([(1, 3), (0, 7)], st)"
proof -
  obtain ix' where gen: "generate_base_index zero_malloc tiny_index = Inr ix'" using tiny_generates by blast
  have "\<exists>sc :: (u32, nat) scratch. sc_new 2 1 = Inr sc" unfolding sc_new_ok by simp
  then obtain sc :: "(u32, nat) scratch" where sc: "sc_new 2 1 = Inr sc" by blast
  have n: "ix_base_num tiny_index = 2" "ix_base_graph_EP tiny_index = 0" by (simp_all add: tiny_index_def)
  have "vkey (\<lambda>v. tiny_dist (ag_vec (base_agraph tiny_index) v) [0]) ` {0, 1} = set [(3, 1), (7, 0)]"
    by (auto simp: vkey_def tiny_dist_def tiny_index_def slice_def)
  moreover have "sorted_list_of_set (set [(3, 1), (7, 0)]) = [(3 :: nat, 1 :: u32), (7, 0)]"
    by (rule sorted_list_of_set.idem_if_sorted_distinct) auto
  ultimately have "least_keys 2 (vkey (\<lambda>v. tiny_dist (ag_vec (base_agraph tiny_index) v) [0]) ` {0, 1}) = [(3, 1), (7, 0)]"
    by (simp only: least_keys_def) simp
  note keys = this
  have "ix_base_num tiny_index < 3" "card (ag_reach (base_agraph tiny_index) {ix_base_graph_EP tiny_index}) \<le> unat (sc_L sc)"
    "2 \<le> card (ag_reach (base_agraph tiny_index) {ix_base_graph_EP tiny_index})"
    by (simp_all add: n tiny_reach sc_new_wf(3) [OF sc])
  from base_search_exact [OF tiny_ok gen sc_new_wf(1) [OF sc] this, of tiny_dist "[0]"]
  obtain st where "search_base_index ix' tiny_dist 3 sc [0] 2 = Inr (map (\<lambda>(d, v). (v, d)) [(3, 1), (7, 0)], st)"
    unfolding n tiny_reach keys by blast
  with gen sc show ?thesis by auto
qed

text \<open>
  C13: for any capacity, the search ends with a sorted pool of distinct reachable vertices that is closed
  under the graph: an out-neighbour of a pool vertex is in the pool, or the pool is full and it is
  farther than everything in it. The search returns the first \<open>K\<close> entries of that pool.
\<close>

theorem base_search_local_optimum:
  fixes cmp :: "u32 list \<Rightarrow> u32 list \<Rightarrow> 'd::linorder"
  defines "R ix \<equiv> ag_reach (base_agraph ix) {ix_base_graph_EP ix}"
    and "D ix query v \<equiv> cmp (ag_vec (base_agraph ix) v) query"
  assumes "base_input_ok ix" and "malloc_ok malloc" and "generate_base_index malloc ix = Inr ix'"
    and "sc_wf sc" and "ix_base_num ix < fuel"
  shows "\<exists>P. sorted_wrt (<) P \<and> P \<noteq> [] \<and> length P \<le> unat (sc_L sc) \<and> set P \<subseteq> vkey (D ix query) ` R ix \<and>
    (\<forall>(d, v) \<in> set P. \<forall>w \<in> set (ix_base_graph ix ! unat v). vkey (D ix query) w \<in> set P \<or>
       (length P = unat (sc_L sc) \<and> (\<forall>k \<in> set P. k < vkey (D ix query) w))) \<and>
    (\<forall>K \<le> length P. \<exists>st. search_base_index ix' cmp fuel sc query K = Inr (map (\<lambda>(d, v). (v, d)) (take K P), st))"
proof -
  let ?g = "base_agraph ix" and ?L = "unat (sc_L sc)" and ?D = "D ix query"
  have wf: "ag_wf ?g" and ep: "{ix_base_graph_EP ix} \<subseteq> ag_nodes ?g"
    using base_agraph_wf [OF assms(3)] assms(3) by (simp_all add: base_input_ok_def)
  have fin: "finite (R ix)"
    using ag_reach_nodes [OF wf ep] by (auto simp: R_def intro: finite_subset)
  obtain P where P: "greedy ?L ?D (ag_edges ?g) fuel {ix_base_graph_EP ix} {} = Some P"
    and out: "\<And>K. K \<le> length P \<Longrightarrow> \<exists>st. search_base_index ix' cmp fuel sc query K =
        Inr (map (\<lambda>(d, v). (v, d)) (take K P), st) \<and> bf_cmps st \<le> ix_base_num ix"
    using base_search_greedy [OF assms(3,5,4,6,7), of cmp query] by (auto simp: D_def [abs_def])
  have "\<exists>W. P = pool ?L ?D W \<and> {ix_base_graph_EP ix} \<subseteq> W \<and> W \<subseteq> R ix \<and> (\<forall>k \<in> set P. set (ag_edges ?g (snd k)) \<subseteq> W)"
    by (rule greedy_result [OF P _ _ _ fin]) (auto simp: R_def intro: ag_reach.intros)
  then obtain W where W: "P = pool ?L ?D W" "ix_base_graph_EP ix \<in> W" "W \<subseteq> R ix"
    "\<forall>k \<in> set P. set (ag_edges ?g (snd k)) \<subseteq> W" by blast
  have finW: "finite W" using W(3) fin by (rule finite_subset)
  have len: "length P = min ?L (card W)" using W(1) finW by (simp add: length_pool)
  have "0 < ?L" using assms(6) unat_gt_0_word by (auto simp: sc_wf_def)
  moreover have "0 < card W" using W(2) finW by (auto simp: card_gt_0_iff)
  ultimately have "P \<noteq> []" "length P \<le> ?L" using len by (auto simp flip: length_greater_0_conv)
  moreover have "set P \<subseteq> vkey ?D ` R ix" using set_pool [OF finW, of ?L ?D] W(1,3) by auto
  moreover have "vkey ?D w \<in> set P \<or> (length P = ?L \<and> (\<forall>k \<in> set P. k < vkey ?D w))"
    if "(d, v) \<in> set P" "w \<in> set (ix_base_graph ix ! unat v)" for d v w
    using that W(1,4) pool_beats [OF finW, of w ?D ?L] by fastforce
  ultimately show ?thesis using out pool_sorted [of ?L ?D W] W(1) by (intro exI [of _ P]) blast
qed

theorem base_search_local_optimum_witness:
  "\<exists>ix' sc P. generate_base_index zero_malloc tiny_index = Inr ix' \<and> sc_new 1 1 = Inr sc \<and>
     P \<noteq> [] \<and> length P \<le> 1 \<and> (\<exists>st. search_base_index ix' tiny_dist 3 sc [0] 1 = Inr (map (\<lambda>(d, v). (v, d)) P, st))"
proof -
  obtain ix' where gen: "generate_base_index zero_malloc tiny_index = Inr ix'" using tiny_generates by blast
  have "\<exists>sc :: (u32, nat) scratch. sc_new 1 1 = Inr sc" unfolding sc_new_ok by simp
  then obtain sc :: "(u32, nat) scratch" where sc: "sc_new 1 1 = Inr sc" by blast
  have n: "ix_base_num tiny_index < 3" "unat (sc_L sc) = 1"
    using sc_new_wf(3) [OF sc] by (simp_all add: tiny_index_def)
  from base_search_local_optimum [OF tiny_ok gen sc_new_wf(1) [OF sc] n(1), of tiny_dist "[0]"]
  obtain P where P: "P \<noteq> []" "length P \<le> unat (sc_L sc)"
    "\<forall>K \<le> length P. \<exists>st. search_base_index ix' tiny_dist 3 sc [0] K = Inr (map (\<lambda>(d, v). (v, d)) (take K P), st)"
    by blast
  then have "1 \<le> length P" "take 1 P = P" using n(2) by (cases P; simp)+
  with P(3) have "\<exists>st. search_base_index ix' tiny_dist 3 sc [0] 1 = Inr (map (\<lambda>(d, v). (v, d)) P, st)" by metis
  with gen sc P(1,2) n(2) show ?thesis by auto
qed

end
