(* ===== verification/BucketSearch.thy ===== *)
theory BucketSearch
  imports Buckets BaseIndex
begin

text \<open>
  What the partitioned search of one machine returns, and that it agrees with the single-machine search
  of the same data; properties of the partition.
\<close>

section \<open>The search is the greedy search on items\<close>

lemma ds_clear_marks:
  "srs_abs (ds_inserted (ds_clear sc)) = {}" "srs_dom (ds_inserted (ds_clear sc)) = srs_dom (ds_inserted sc)"
  by (auto simp: srs_abs_def srs_dom_def ds_clear_def)

lemma search_on_buckets_greedy:
  fixes cmp :: "u32 list \<Rightarrow> u32 list \<Rightarrow> 'd::linorder"
  assumes repr: "bkt_repr ix g" and ep: "ix_membkt_EP ix \<in> ag_nodes g" and sc: "ds_wf sc"
    and dom: "ag_nodes g \<subseteq> srs_dom (ds_inserted sc)" and fuel: "card (ag_nodes g) < fuel"
  shows "\<exists>P. greedy (unat (ds_L sc)) (\<lambda>v. cmp (ag_vec g v) query) (ag_edges g) fuel {ix_membkt_EP ix} {} = Some P \<and>
    (\<forall>K \<le> length P. \<exists>st. search_base_index_on_buckets ix cmp fuel sc query K
       = Inr (map (\<lambda>(d, it). ag_label g it) (take K P), st) \<and> bf_cmps st \<le> card (ag_nodes g))"
proof -
  let ?D = "\<lambda>v. cmp (ag_vec g v) query" and ?sc = "ds_clear sc"
  have sc': "pq_wf (ds_best ?sc)" "pq_cap (ds_best ?sc) = unat (ds_L sc)" "pq_keys (ds_best ?sc) = []"
    using ds_clear_wf [OF sc] by (auto simp: ds_wf_def)
  from bkt.search [OF repr _ fuel sc', where init = "[ix_membkt_EP ix]" and v = "ds_inserted ?sc" and
      cmp = "\<lambda>x. cmp x query"] ep dom
  obtain st P where st: "bf_search (bf_ops_of srs_seen srs_mark bucket_nbrs bucket_vec (\<lambda>base. cmp base query) ix)
      fuel [ix_membkt_EP ix] (ds_best ?sc) (ds_inserted ?sc) = Inr st"
    "greedy (unat (ds_L sc)) ?D (ag_edges g) fuel {ix_membkt_EP ix} {} = Some P"
    "pq_wf (bf_pool st)" "pq_keys (bf_pool st) = P" "set P \<subseteq> vkey ?D ` ag_nodes g"
    "bf_cmps st \<le> card (ag_nodes g)" by (auto simp: ds_clear_marks)
  have "search_base_index_on_buckets ix cmp fuel sc query K = Inr (map (\<lambda>(d, it). ag_label g it) (take K P), st)"
    if K: "K \<le> length P" for K
  proof -
    have "rbind (pq_at (bf_pool st) i) (\<lambda>n. bucket_label ix (nb_id n))
        = Inr (case P ! i of (d, it) \<Rightarrow> ag_label g it)" if "i \<in> set [0..<K]" for i
    proof -
      from that K pq_at_key [OF st(3), of i] obtain n where n: "pq_at (bf_pool st) i = Inr n"
        "P ! i = (nb_dist n, nb_id n)" by (auto simp: st(4))
      have "P ! i \<in> set P" using that K by simp
      with st(5) n(2) have "nb_id n \<in> ag_nodes g" by (auto simp: vkey_def)
      with n show ?thesis by (simp add: bucket_reads [OF repr])
    qed
    then have "rmap (\<lambda>i. rbind (pq_at (bf_pool st) i) (\<lambda>n. bucket_label ix (nb_id n))) [0..<K]
        = Inr (map (\<lambda>i. case P ! i of (d, it) \<Rightarrow> ag_label g it) [0..<K])" by (rule rmap_pure)
    also have "map (\<lambda>i. case P ! i of (d, it) \<Rightarrow> ag_label g it) [0..<K] = map (\<lambda>(d, it). ag_label g it) (take K P)"
      using K by (intro nth_equalityI) auto
    finally show ?thesis by (simp add: search_base_index_on_buckets_def Let_def st(1))
  qed
  with st(2,6) show ?thesis by blast
qed

section \<open>The item graph of a build is the input graph renamed\<close>

lemma part_base_ok: "part_input_ok ix k \<Longrightarrow> base_input_ok ix"
  by (simp add: part_input_ok_def base_input_ok_def)

lemma unat_place_inj:
  assumes "n < 2 ^ 32"
  shows "inj_on (\<lambda>v. place_of bb (unat v)) {v :: u32. unat v < n}"
  using place_of_inj [OF assms, of bb] by (auto simp: inj_on_def word_unat_eq_iff)

lemma bkt_nodes_image:
  "ix_base_num ix < 2 ^ 32 \<Longrightarrow> ag_nodes (bkt_agraph ix bb) = (\<lambda>v. place_of bb (unat v)) ` ag_nodes (base_agraph ix)"
proof -
  assume n: "ix_base_num ix < 2 ^ 32"
  have "{..<ix_base_num ix} = unat ` {v :: u32. unat v < ix_base_num ix}"
  proof (intro equalityI subsetI)
    fix i assume "i \<in> {..<ix_base_num ix}"
    then have "unat (of_nat i :: u32) = i" "i < ix_base_num ix" using n by (auto simp: unat_of_nat32)
    then show "i \<in> unat ` {v :: u32. unat v < ix_base_num ix}" by (intro image_eqI [of _ _ "of_nat i"]) auto
  qed auto
  then show ?thesis by (simp add: bkt_agraph_nodes image_image)
qed

lemma card_bkt_nodes: "card (ag_nodes (bkt_agraph ix bb)) \<le> ix_base_num ix"
  unfolding bkt_agraph_nodes using card_image_le [of "{..<ix_base_num ix}" "place_of bb"] by simp

lemma bkt_agraph_rename:
  assumes ok: "part_input_ok ix k" and v: "v \<in> ag_nodes (base_agraph ix)"
  shows "ag_edges (bkt_agraph ix bb) (place_of bb (unat v)) = map (\<lambda>v. place_of bb (unat v)) (ag_edges (base_agraph ix) v)"
    "ag_vec (bkt_agraph ix bb) (place_of bb (unat v)) = ag_vec (base_agraph ix) v"
    "ag_label (bkt_agraph ix bb) (place_of bb (unat v)) = v"
  using bkt_agraph_place [of "unat v" ix bb] ok v by (simp_all add: part_input_ok_def)

lemma bkt_built_search:
  assumes ok: "part_input_ok ix k" and built: "bkt_built ix k bb ix'"
  shows "ix_membkt_EP ix' \<in> ag_nodes (bkt_agraph ix bb)"
    "k \<le> length ins \<Longrightarrow> ag_nodes (bkt_agraph ix bb) \<subseteq> srs_dom ins"
proof -
  show "ix_membkt_EP ix' \<in> ag_nodes (bkt_agraph ix bb)"
    using ok built by (auto simp: part_input_ok_def bkt_built_def bkt_agraph_nodes)
  have "unat (fst it) < k" if "it \<in> ag_nodes (bkt_agraph ix bb)" for it
    using that built by (auto simp: bkt_agraph_nodes bkt_built_def place_of_def)
  then show "ag_nodes (bkt_agraph ix bb) \<subseteq> srs_dom ins" if "k \<le> length ins"
    using that by (fastforce simp: srs_dom_def)
qed

section \<open>Generation from the code\<close>

text \<open>A generation that returns has built its index; with memory available it returns.\<close>

lemma generated_is_built:
  assumes ok: "part_input_ok ix k" and malloc: "malloc_ok malloc"
    and gen: "generate_base_index_on_buckets malloc cmp k ix = Inr ix'"
  shows "\<exists>bb. bkt_built ix k bb ix' \<and> (\<forall>v < ix_base_num ix. cluster_of ix cmp v (unat (bucket_of bb v)))"
proof -
  obtain data where data: "ix_base_data ix = Some data" using ok by (auto simp: part_input_ok_def)
  obtain bb where bb: "assign_buckets ix cmp data = Inr bb" "length bb = ix_base_num ix"
    "\<And>v. v < ix_base_num ix \<Longrightarrow> cluster_of ix cmp v (unat (bucket_of bb v))"
    "\<And>v. v < ix_base_num ix \<Longrightarrow> unat (bucket_of bb v) < k"
    using assign_buckets_ok [OF ok data, of cmp] by blast
  have n: "ix_base_num ix < 2 ^ 32" "k \<le> 256" "ix_base_graph ix \<noteq> []" "ix_data_num ix = []" "ix_base_to_lid ix = []"
    using ok by (auto simp: part_input_ok_def)
  have placed: "place_vertices bb (ix_base_num ix) (replicate k 0, replicate (ix_base_num ix) (0, 0), replicate (ix_base_num ix) 0)
      = Inr (map (\<lambda>b. earlier bb (ix_base_num ix) (of_nat b)) [0..<k], map (place_of bb) [0..<ix_base_num ix],
          map (snd \<circ> place_of bb) [0..<ix_base_num ix])"
    using place_vertices_ok [OF n(1) bb(2) _ _ bb(4) n(2)] by simp
  obtain bks where "alloc_buckets malloc (ix_dimension ix * 4 + 4 + (4 + unat (ix_base_graph_R ix) * 9))
      (map (\<lambda>b. earlier bb (ix_base_num ix) (of_nat b)) [0..<k]) k = Inr bks"
    using gen n data bb(1) placed
    by (auto simp: generate_base_index_on_buckets_def vec_resize_def Let_def part_frame rbind_eq_Inr)
  from generate_buckets_build [OF ok malloc data bb(1,2,4) this] gen bb(3) show ?thesis by auto
qed

lemma generation_returns:
  assumes ok: "part_input_ok ix k" and malloc: "malloc_ok malloc" and some: "\<And>n. malloc n \<noteq> None"
  shows "\<exists>ix'. generate_base_index_on_buckets malloc cmp k ix = Inr ix'"
proof -
  obtain data where data: "ix_base_data ix = Some data" using ok by (auto simp: part_input_ok_def)
  obtain bb where bb: "assign_buckets ix cmp data = Inr bb" "length bb = ix_base_num ix"
    "\<And>v. v < ix_base_num ix \<Longrightarrow> unat (bucket_of bb v) < k"
    using assign_buckets_ok [OF ok data, of cmp] by blast
  have "\<exists>bks. alloc_buckets malloc (ix_dimension ix * 4 + 4 + (4 + unat (ix_base_graph_R ix) * 9))
      (map (\<lambda>b. earlier bb (ix_base_num ix) (of_nat b)) [0..<k]) k = Inr bks"
    by (rule alloc_buckets_total) (simp_all add: some)
  then obtain bks where "alloc_buckets malloc (ix_dimension ix * 4 + 4 + (4 + unat (ix_base_graph_R ix) * 9))
      (map (\<lambda>b. earlier bb (ix_base_num ix) (of_nat b)) [0..<k]) k = Inr bks" by blast
  from generate_buckets_build [OF ok malloc data bb this] show ?thesis by blast
qed

section \<open>Properties of the partition\<close>

text \<open>A partition of the two-vertex index into two buckets.\<close>

definition tiny_part :: index where
  "tiny_part = tiny_index\<lparr>ix_coarse_data := Some [0, 5], ix_coarse_num := 2\<rparr>"

definition tiny_gap :: "u32 list \<Rightarrow> u32 list \<Rightarrow> nat" where
  "tiny_gap x y = nat \<bar>int (unat (x ! 0)) - int (unat (y ! 0))\<bar>"

lemma tiny_part_ok: "part_input_ok tiny_part 2"
  by (simp add: tiny_part_def tiny_index_def index_new_def part_input_ok_def)

lemma tiny_part_generates: "\<exists>ix'. generate_base_index_on_buckets zero_malloc tiny_gap 2 tiny_part = Inr ix'"
  by (rule generation_returns [OF tiny_part_ok tiny_ok(2)]) (simp add: zero_malloc_def)

text \<open>
  C14: the partition is a bijection: every vertex is assigned the first of its closest coarse clusters as
  its bucket, different vertices get different (bucket, slot) pairs, and the slots in use of a bucket are exactly those
  below its count, so that no memory is wasted or shared.
\<close>

theorem partition_bijective:
  fixes cmp :: "u32 list \<Rightarrow> u32 list \<Rightarrow> 'd::linorder"
  assumes "part_input_ok ix k" and "malloc_ok malloc"
    and "generate_base_index_on_buckets malloc cmp k ix = Inr ix'"
  shows "\<exists>bb. ix_base_in_bucket ix' = Some bb \<and> length bb = ix_base_num ix \<and> length (ix_base_to_lid ix') = ix_base_num ix \<and>
    (\<forall>v < ix_base_num ix. cluster_of ix cmp v (unat (ucast (bb ! v) :: byte))) \<and>
    bij_betw (\<lambda>v. (unat (ucast (bb ! v) :: byte), unat (ix_base_to_lid ix' ! v))) {..<ix_base_num ix}
      {(b, l). b < k \<and> l < ix_data_num ix' ! b}"
proof -
  let ?n = "ix_base_num ix"
  obtain bb where bb: "bkt_built ix k bb ix'" "\<forall>v < ?n. cluster_of ix cmp v (unat (bucket_of bb v))"
    using generated_is_built [OF assms] by blast
  have n: "?n < 2 ^ 32" "k \<le> 256" using assms(1) by (auto simp: part_input_ok_def)
  have b: "\<And>v. v < ?n \<Longrightarrow> unat (bucket_of bb v) < k" and dn: "ix_data_num ix' = map (\<lambda>b. earlier bb ?n (of_nat b)) [0..<k]"
    and lid: "ix_base_to_lid ix' = map (snd \<circ> place_of bb) [0..<?n]"
    using bb(1) by (auto simp: bkt_built_def)
  let ?f = "\<lambda>v. (unat (bucket_of bb v), earlier bb v (bucket_of bb v))"
  have f: "(unat (ucast (bb ! v) :: byte), unat (ix_base_to_lid ix' ! v)) = ?f v" if "v < ?n" for v
    using that place_of_slot(1) [OF that n(1), of bb] by (simp add: lid bucket_of_def)
  have "bij_betw ?f {..<?n} {(b, l). b < k \<and> l < ix_data_num ix' ! b}"
  proof (rule bij_betw_imageI)
    show "inj_on ?f {..<?n}"
    proof (rule linorder_inj_onI')
      fix i j assume "i \<in> {..<?n}" "j \<in> {..<?n}" "i < j"
      with earlier_strict [of i j bb] show "?f i \<noteq> ?f j" by (auto simp flip: word_unat_eq_iff)
    qed
    show "?f ` {..<?n} = {(b, l). b < k \<and> l < ix_data_num ix' ! b}"
    proof (intro equalityI subsetI)
      fix x assume "x \<in> ?f ` {..<?n}"
      then obtain v where v: "v < ?n" "x = ?f v" by auto
      with b [OF v(1)] earlier_strict [OF v(1), of bb] show "x \<in> {(b, l). b < k \<and> l < ix_data_num ix' ! b}"
        by (simp add: dn)
    next
      fix x assume "x \<in> {(b, l). b < k \<and> l < ix_data_num ix' ! b}"
      then obtain b l where x: "x = (b, l)" "b < k" "l < earlier bb ?n (of_nat b)" by (auto simp: dn)
      from place_of_surj [OF x(3)] obtain v where v: "v < ?n" "bucket_of bb v = of_nat b" "earlier bb v (of_nat b) = l" by blast
      moreover have "unat (of_nat b :: byte) = b" using x(2) n(2) by (simp add: unat_of_nat)
      ultimately show "x \<in> ?f ` {..<?n}" using x(1) by (auto intro!: image_eqI [of _ _ v])
    qed
  qed
  moreover have "bij_betw (\<lambda>v. (unat (ucast (bb ! v) :: byte), unat (ix_base_to_lid ix' ! v))) {..<?n} B = bij_betw ?f {..<?n} B" for B
    by (rule bij_betw_cong) (use f in auto)
  ultimately show ?thesis using bb lid by (auto simp: bkt_built_def bucket_of_def)
qed

theorem partition_bijective_witness:
  "\<exists>ix'. generate_base_index_on_buckets zero_malloc tiny_gap 2 tiny_part = Inr ix' \<and> length (ix_base_to_lid ix') = 2"
proof -
  obtain ix' where gen: "generate_base_index_on_buckets zero_malloc tiny_gap 2 tiny_part = Inr ix'"
    using tiny_part_generates by blast
  from partition_bijective [OF tiny_part_ok tiny_ok(2) gen] gen show ?thesis
    by (auto simp: tiny_part_def tiny_index_def)
qed

text \<open>
  C15: the bucket layout round-trips: reading the slot that the partition tables give for a vertex returns its
  vector, its id, and for each neighbour the id and the slot the tables give for that neighbour.
\<close>

theorem bucket_roundtrip:
  fixes cmp :: "u32 list \<Rightarrow> u32 list \<Rightarrow> 'd::linorder"
  assumes "part_input_ok ix k" and "malloc_ok malloc"
    and "generate_base_index_on_buckets malloc cmp k ix = Inr ix'" and "unat v < ix_base_num ix"
  shows "\<exists>bb. ix_base_in_bucket ix' = Some bb \<and> (let it = (\<lambda>w :: u32. (ucast (bb ! unat w) :: byte, ix_base_to_lid ix' ! unat w)) in
    bucket_vec ix' (it v) = Inr (slice (the (ix_base_data ix)) (unat v * ix_dimension ix) (ix_dimension ix)) \<and>
    bucket_label ix' (it v) = Inr v \<and>
    bucket_entries ix' (it v) = Inr (map (\<lambda>w. (w, it w)) (ix_base_graph ix ! unat v)))"
proof -
  let ?n = "ix_base_num ix"
  obtain bb where bb: "bkt_built ix k bb ix'" using generated_is_built [OF assms(1-3)] by blast
  then have bk: "ix_base_in_bucket ix' = Some bb" "bkt_repr ix' (bkt_agraph ix bb)"
    and lid: "ix_base_to_lid ix' = map (snd \<circ> place_of bb) [0..<?n]" by (auto simp: bkt_built_def)
  define it where "it w = (ucast (bb ! unat w) :: byte, ix_base_to_lid ix' ! unat w)" for w :: u32
  have it: "it w = place_of bb (unat w)" if "unat w < ?n" for w
    using that by (simp add: it_def lid place_of_def bucket_of_def)
  have "v \<in> ag_nodes (base_agraph ix)" using assms(4) by simp
  note rn = bkt_agraph_rename [OF assms(1) this, of bb]
  have "it v \<in> ag_nodes (bkt_agraph ix bb)" using assms(4) by (simp add: it bkt_agraph_nodes)
  note rd = bucket_reads [OF bk(2) this]
  have nb: "unat w < ?n" if "w \<in> set (ix_base_graph ix ! unat v)" for w
    using assms(1,4) that by (auto simp: part_input_ok_def)
  have lab: "ag_label (bkt_agraph ix bb) (place_of bb (unat w)) = w" if "w \<in> set (ix_base_graph ix ! unat v)" for w
    using bkt_agraph_rename(3) [OF assms(1), of w bb] nb [OF that] by simp
  have "bucket_entries ix' (it v) = Inr (map (\<lambda>w. (w, it w)) (ix_base_graph ix ! unat v))"
    using rd(1) rn(1) assms(4) lab it nb by (simp add: comp_def)
  then have "bucket_vec ix' (it v) = Inr (slice (the (ix_base_data ix)) (unat v * ix_dimension ix) (ix_dimension ix)) \<and>
    bucket_label ix' (it v) = Inr v \<and> bucket_entries ix' (it v) = Inr (map (\<lambda>w. (w, it w)) (ix_base_graph ix ! unat v))"
    using rd rn assms(4) by (simp add: it)
  with bk(1) show ?thesis by (simp add: Let_def it_def [abs_def])
qed

theorem bucket_roundtrip_witness:
  "\<exists>ix' it. generate_base_index_on_buckets zero_malloc tiny_gap 2 tiny_part = Inr ix' \<and> bucket_label ix' it = Inr 1 \<and>
     bucket_vec ix' it = Inr [3]"
proof -
  obtain ix' where gen: "generate_base_index_on_buckets zero_malloc tiny_gap 2 tiny_part = Inr ix'"
    using tiny_part_generates by blast
  have "unat (1 :: u32) < ix_base_num tiny_part" by (simp add: tiny_part_def tiny_index_def)
  from bucket_roundtrip [OF tiny_part_ok tiny_ok(2) gen this] gen show ?thesis
    by (auto simp: Let_def tiny_part_def tiny_index_def slice_def)
qed



end
