(* ===== verification/Affinity.thy ===== *)
theory Affinity
  imports Partition
begin

text \<open>
  Data affinity: which server holds most of the known nearest neighbours of a point
  (\<open>Index::generate_learn_projection\<close>, the three \<open>Index::search_affinity\<close>) and the extra entry points
  taken from them (\<open>Index::add_adaptive_ep\<close>). A ratio is kept as numerator and denominator.
\<close>

section \<open>Counting and choosing\<close>

definition count_bucket :: "u32 list \<Rightarrow> u32 \<Rightarrow> nat list \<Rightarrow> nat list result" where
  "count_bucket in_bucket project_id freq =
     rbind (rget in_bucket (unat project_id)) (\<lambda>b.
     rbind (rget freq (unat b)) (\<lambda>c. rput freq (unat b) (c + 1)))"

text \<open>\<open>if (frequency[b] > frequency[selected]) selected = b\<close>, for every bucket.\<close>

definition select_bucket :: "nat list \<Rightarrow> nat \<Rightarrow> nat result" where
  "select_bucket freq bucket_count =
     rfold (\<lambda>b sel. rbind (rget freq b) (\<lambda>x. rbind (rget freq sel) (\<lambda>y.
       Inr (if y < x then b else sel)))) [0..<bucket_count] 0"

text \<open>\<open>TopN = min (1000, size)\<close>, then the counts, the choice, and its share.\<close>

definition gt_affinity :: "nat \<Rightarrow> u32 list \<Rightarrow> u32 list \<Rightarrow> (u32 \<times> nat \<times> nat) result" where
  "gt_affinity bucket_count in_bucket gt =
     (let TopN = min 1000 (length gt) in
      rbind (rfold (count_bucket in_bucket) (take TopN gt) (replicate bucket_count 0)) (\<lambda>freq.
      rbind (select_bucket freq bucket_count) (\<lambda>sel.
      rbind (rget freq sel) (\<lambda>c. Inr (of_nat sel, c, TopN)))))"

definition search_affinity_gt :: "index \<Rightarrow> u32 list \<Rightarrow> (u32 \<times> nat \<times> nat) result" where
  "search_affinity_gt ix gt =
     rbind (deref (ix_base_in_bucket ix)) (\<lambda>bb. gt_affinity (ix_bucket_count ix) bb gt)"

definition search_affinity_learn :: "index \<Rightarrow> u32 \<Rightarrow> (u32 \<times> nat \<times> nat) result" where
  "search_affinity_learn ix learn_index_res =
     rbind (deref (ix_learn_in_bucket ix)) (\<lambda>lb.
     rbind (rget lb (unat learn_index_res)) (\<lambda>b.
     rbind (rget (ix_learn_local_ratio ix) (unat learn_index_res)) (\<lambda>r. Inr (b, r))))"

definition search_affinity_query ::
    "index \<Rightarrow> (u32 list \<Rightarrow> u32 list \<Rightarrow> 'd::{linorder,uminus}) \<Rightarrow> u32 list \<Rightarrow> (u32 \<times> 'd) result" where
  "search_affinity_query ix cmp query =
     rbind (compute_closest_coarse_cluster ix cmp (Some query)) (\<lambda>c.
     rbind (deref (ix_coarse_data ix)) (\<lambda>cd.
     rbind (rslice cd (unat c * ix_dimension ix) (ix_dimension ix)) (\<lambda>x.
     Inr (c, - cmp x query))))"

section \<open>The projection of the learn set\<close>

text \<open>\<open>learn_gt\<close> is what \<open>common::read_gt\<close> returned for the ground-truth file.\<close>

definition generate_learn_projection :: "u32 list list \<Rightarrow> index \<Rightarrow> index result" where
  "generate_learn_projection learn_gt ix =
     (case ix_base_in_bucket ix of
        None \<Rightarrow> Inl (Runtime_Error ''error@generate_learn_projection: _base_in_bucket is empty.'')
      | Some bb \<Rightarrow>
          rbind (rmap (\<lambda>i. rbind (rget learn_gt i) (\<lambda>gt. gt_affinity (ix_bucket_count ix) bb gt))
                   [0..<ix_learn_num ix]) (\<lambda>rs.
          rbind (require (ix_learn_data ix \<noteq> None)
                   (Runtime_Error ''error@generate_learn_projection: _learn_data is nullptr.'')) (\<lambda>_.
          rbind (require (ix_learn_graph ix \<noteq> [])
                   (Runtime_Error ''error@generate_learn_projection: _learn_graph is empty.'')) (\<lambda>_.
          Inr (ix\<lparr>ix_learn_projection := learn_gt, ix_learn_in_bucket := Some (map fst rs),
                  ix_learn_local_ratio := map snd rs\<rparr>)))))"

definition add_adaptive_ep :: "index \<Rightarrow> u32 \<Rightarrow> u32 \<Rightarrow> item list \<Rightarrow> item list result" where
  "add_adaptive_ep ix learn_index_res num init_ids =
     (if length (ix_learn_projection ix) \<le> unat learn_index_res
      then Inl (Runtime_Error ''error@add_adaptive_ep: learn_index_res is out of range.'')
      else let proj = ix_learn_projection ix ! unat learn_index_res in
        if length proj < unat num
        then Inl (Runtime_Error ''error@add_adaptive_ep: adaptive_ep_num is out of range.'')
        else rfold (\<lambda>base_id ids.
          rbind (deref (ix_base_in_bucket ix)) (\<lambda>bb.
          rbind (rget bb (unat base_id)) (\<lambda>b.
          rbind (rget (ix_base_to_lid ix) (unat base_id)) (\<lambda>l.
          Inr (ids @ [(ucast b, l)]))))) (take (unat num) proj) init_ids)"

section \<open>Correctness\<close>

definition hits :: "u32 list \<Rightarrow> u32 list \<Rightarrow> nat \<Rightarrow> nat" where
  "hits bb gt b = length (filter (\<lambda>v. unat (bb ! unat v) = b) gt)"

lemma count_buckets:
  assumes "\<And>v. v \<in> set gt \<Longrightarrow> unat v < length bb \<and> unat (bb ! unat v) < k"
  shows "rfold (count_bucket bb) gt (replicate k 0) = Inr (map (hits bb gt) [0..<k])"
proof -
  have "\<exists>freq. rfold (count_bucket bb) gt (replicate k 0) = Inr freq \<and> freq = map (hits bb gt) [0..<k]"
  proof (rule rfold_invariant)
    show "replicate k 0 = map (hits bb []) [0..<k]" by (simp add: hits_def [abs_def] map_replicate_const)
    fix ys v zs freq assume gt: "gt = ys @ v # zs" and freq: "freq = map (hits bb ys) [0..<k]"
    have v: "unat v < length bb" "unat (bb ! unat v) < k" using assms [of v] gt by auto
    have "(map (hits bb ys) [0..<k])[unat (bb ! unat v) := hits bb ys (unat (bb ! unat v)) + 1]
        = map (hits bb (ys @ [v])) [0..<k]"
      by (intro nth_equalityI) (auto simp: hits_def nth_list_update)
    with v show "\<exists>freq'. count_bucket bb v freq = Inr freq' \<and> freq' = map (hits bb (ys @ [v])) [0..<k]"
      by (simp add: count_bucket_def freq)
  qed
  then show ?thesis by blast
qed

lemma select_bucket_max:
  assumes "length freq = k" and "0 < k"
  shows "\<exists>s. select_bucket freq k = Inr s \<and> s < k \<and> (\<forall>b < k. freq ! b \<le> freq ! s) \<and> (\<forall>b < s. freq ! b < freq ! s)"
proof -
  let ?P = "\<lambda>ys s. s < k \<and> (\<forall>b \<in> set ys. freq ! b \<le> freq ! s) \<and> (\<forall>b < s. freq ! b < freq ! s)"
  have "\<exists>s. select_bucket freq k = Inr s \<and> ?P [0..<k] s"
    unfolding select_bucket_def
  proof (rule rfold_invariant)
    fix ys b zs s assume split: "[0..<k] = ys @ b # zs" and inv: "?P ys s"
    have b: "b < k" "set ys = {..<b}" using upt_split [OF split] upt_split_prefix [OF split] by auto
    let ?s = "if freq ! s < freq ! b then b else s"
    have "?P (ys @ [b]) ?s" using inv b by (auto intro: le_less_trans less_imp_le)
    with inv b assms show "\<exists>s'. rbind (rget freq b) (\<lambda>x. rbind (rget freq s) (\<lambda>y. Inr (if y < x then b else s)))
        = Inr s' \<and> ?P (ys @ [b]) s'" by simp
  qed (use assms in simp)
  then show ?thesis by (simp add: Ball_def)
qed

lemma gt_affinity_max:
  assumes "0 < k" and "k < 2 ^ 32"
    and "\<And>v. v \<in> set gt \<Longrightarrow> unat v < length bb \<and> unat (bb ! unat v) < k"
  defines "tops \<equiv> take (min 1000 (length gt)) gt"
  shows "\<exists>s. gt_affinity k bb gt = Inr (of_nat s, hits bb tops s, min 1000 (length gt)) \<and> s < k \<and>
    (\<forall>b < k. hits bb tops b \<le> hits bb tops s) \<and> (\<forall>b < s. hits bb tops b < hits bb tops s)"
proof -
  have "\<And>v. v \<in> set tops \<Longrightarrow> unat v < length bb \<and> unat (bb ! unat v) < k"
    using assms(3) by (auto simp: tops_def dest: in_set_takeD)
  from count_buckets [OF this]
  have cnt: "rfold (count_bucket bb) tops (replicate k 0) = Inr (map (hits bb tops) [0..<k])" by blast
  from select_bucket_max [of "map (hits bb tops) [0..<k]" k] assms(1) obtain s where
    s: "select_bucket (map (hits bb tops) [0..<k]) k = Inr s" "s < k"
    "\<forall>b < k. hits bb tops b \<le> hits bb tops s" "\<forall>b < s. hits bb tops b < hits bb tops s"
    by auto
  with cnt show ?thesis by (intro exI [of _ s]) (simp add: gt_affinity_def Let_def tops_def)
qed

lemma add_adaptive_ep_ok:
  assumes "unat r < length (ix_learn_projection ix)" and "unat num \<le> length (ix_learn_projection ix ! unat r)"
    and "ix_base_in_bucket ix = Some bb"
    and "\<And>v. v \<in> set (take (unat num) (ix_learn_projection ix ! unat r)) \<Longrightarrow>
      unat v < length bb \<and> unat v < length (ix_base_to_lid ix)"
  shows "add_adaptive_ep ix r num ids =
    Inr (ids @ map (\<lambda>v. (ucast (bb ! unat v), ix_base_to_lid ix ! unat v)) (take (unat num) (ix_learn_projection ix ! unat r)))"
proof -
  let ?item = "\<lambda>v. (ucast (bb ! unat v), ix_base_to_lid ix ! unat v)"
  let ?f = "\<lambda>base_id ids. rbind (deref (ix_base_in_bucket ix)) (\<lambda>bb.
          rbind (rget bb (unat base_id)) (\<lambda>b.
          rbind (rget (ix_base_to_lid ix) (unat base_id)) (\<lambda>l. Inr (ids @ [(ucast b, l)]))))"
  have "rfold ?f vs ids = Inr (ids @ map ?item vs)"
    if "\<And>v. v \<in> set vs \<Longrightarrow> unat v < length bb \<and> unat v < length (ix_base_to_lid ix)" for vs ids
    using that by (induction vs arbitrary: ids) (simp_all add: assms(3))
  from this [OF assms(4)] show ?thesis using assms(1,2) by (simp add: add_adaptive_ep_def Let_def)
qed

text \<open>
  C17: for ground truth inside the partition, the affinity names the bucket that holds the most of the
  first \<open>TopN\<close> neighbours, the lowest such bucket in a tie, with that number as its share.
\<close>

theorem affinity_majority:
  assumes "0 < ix_bucket_count ix" and "ix_bucket_count ix < 2 ^ 32" and "ix_base_in_bucket ix = Some bb"
    and "\<And>v. v \<in> set gt \<Longrightarrow> unat v < length bb \<and> unat (bb ! unat v) < ix_bucket_count ix"
  shows "\<exists>s. search_affinity_gt ix gt = Inr (of_nat s, hits bb (take 1000 gt) s, min 1000 (length gt)) \<and>
    s < ix_bucket_count ix \<and> (\<forall>b < ix_bucket_count ix. hits bb (take 1000 gt) b \<le> hits bb (take 1000 gt) s) \<and>
    (\<forall>b < s. hits bb (take 1000 gt) b < hits bb (take 1000 gt) s)"
proof -
  have "take (min 1000 (length gt)) gt = take 1000 gt" by (simp add: min_def)
  with gt_affinity_max [of "ix_bucket_count ix" gt bb] assms show ?thesis
    by (simp add: search_affinity_gt_def)
qed

theorem affinity_majority_witness:
  "\<exists>s. search_affinity_gt (index_new\<lparr>ix_bucket_count := 2, ix_base_in_bucket := Some [1, 0, 1]\<rparr>) [0, 1, 2]
     = Inr (of_nat s, hits [1, 0, 1] [0, 1, 2] s, 3) \<and> s = 1"
proof -
  let ?ix = "index_new\<lparr>ix_bucket_count := 2, ix_base_in_bucket := Some [1, 0, 1]\<rparr>"
  have "unat v < length [1, 0, 1 :: u32] \<and> unat ([1, 0, 1 :: u32] ! unat v) < ix_bucket_count ?ix" if "v \<in> set [0, 1, 2 :: u32]" for v
    using that by (auto simp: index_new_def)
  from affinity_majority [of ?ix "[1, 0, 1]" "[0, 1, 2]", OF _ _ _ this] obtain s where s:
    "search_affinity_gt ?ix [0, 1, 2] = Inr (of_nat s, hits [1, 0, 1] [0, 1, 2] s, 3)" "s < 2"
    "\<forall>b < s. hits [1, 0, 1] [0, 1, 2] b < hits [1, 0, 1] [0, 1, 2] s"
    "\<forall>b < 2. hits [1, 0, 1] [0, 1, 2] b \<le> hits [1, 0, 1] [0, 1, 2] s"
    by (auto simp: index_new_def)
  have "hits [1, 0, 1] [0, 1, 2] 1 = 2" "hits [1, 0, 1] [0, 1, 2] 0 = 1" by (simp_all add: hits_def)
  with s(2,4) have "s = 1" by (cases s) (auto simp: less_Suc_eq numeral_2_eq_2)
  with s(1) show ?thesis by blast
qed

end
