(* ===== verification/LearnSearch.thy ===== *)
theory LearnSearch
  imports InsertPool IndexState
begin

text \<open>
  \<open>Index::beam_search_learn_graph\<close>: the search of the graph over learn (training) vectors that picks the
  vector closest to a query. It keeps its candidates in an array ordered by \<open>InsertIntoPool\<close> and a
  cursor that jumps back to the best position changed. The search is proved to end, within an explicit
  number of rounds, at a local minimum of the graph.
\<close>

section \<open>The search\<close>

record 'd beam =
  bm_ret :: "(u32, 'd) pnbr list"
  bm_L :: nat
  bm_flags :: "bool list"
  bm_nk :: nat

text \<open>The body of the loop over the neighbours of the expanded entry.\<close>

definition beam_neighbour :: "(u32 \<Rightarrow> 'd::linorder result) \<Rightarrow> u32 \<Rightarrow> 'd beam \<Rightarrow> 'd beam result" where
  "beam_neighbour dist v st =
     rbind (rget (bm_flags st) (unat v)) (\<lambda>seen.
     if seen then Inr st
     else
       let st = st\<lparr>bm_flags := (bm_flags st)[unat v := True]\<rparr>;
           insert = (\<lambda>d. rbind (insert_into_pool (bm_ret st) (bm_L st) (pnbr_new v d True)) (\<lambda>(a, r).
             Inr (st\<lparr>bm_ret := a, bm_L := (if bm_L st + 1 < length (bm_ret st) then bm_L st + 1 else bm_L st),
                     bm_nk := min (bm_nk st) r\<rparr>)))
       in rbind (dist v) (\<lambda>d.
          if bm_L st + 1 = length (bm_ret st) then
            rbind (rget (bm_ret st) (bm_L st - 1)) (\<lambda>worst.
              if pn_dist worst \<le> d then Inr st else insert d)
          else insert d))"

fun beam_loop ::
    "u32 list list \<Rightarrow> (u32 \<Rightarrow> 'd::linorder result) \<Rightarrow> nat \<Rightarrow> nat \<Rightarrow> 'd beam \<Rightarrow> 'd beam result" where
  "beam_loop graph dist 0 k st = Inl Out_Of_Fuel"
| "beam_loop graph dist (Suc n) k st =
     (if k < bm_L st then
        rbind (rget (bm_ret st) k) (\<lambda>e.
        if pn_flag e then
          rbind (rget graph (unat (pn_id e))) (\<lambda>ns.
          rbind (rfold (beam_neighbour dist) ns
                   (st\<lparr>bm_ret := (bm_ret st)[k := e\<lparr>pn_flag := False\<rparr>], bm_nk := bm_L st\<rparr>)) (\<lambda>st.
          beam_loop graph dist n (if bm_nk st \<le> k then bm_nk st else k + 1) st))
        else beam_loop graph dist n (k + 1) st)
      else Inr st)"

text \<open>The entry point is compared as (vector, query), the others as (query, vector).\<close>

definition beam_search_learn_graph ::
    "index \<Rightarrow> (u32 list \<Rightarrow> u32 list \<Rightarrow> 'd::{linorder,zero}) \<Rightarrow> nat \<Rightarrow> u32 list \<Rightarrow> nat \<Rightarrow> u32 result" where
  "beam_search_learn_graph ix cmp fuel query L =
     rbind (deref (ix_learn_data ix)) (\<lambda>data.
     let vec = (\<lambda>v. rslice data (ix_dimension ix * unat v) (ix_dimension ix));
         ep = ix_learn_graph_EP ix
     in if L = 0 then Inl Out_Of_Bounds
     else rbind (rput (replicate (ix_learn_num ix) False) (unat ep) True) (\<lambda>flags.
     rbind (vec ep) (\<lambda>x.
     rbind (beam_loop (ix_learn_graph ix) (\<lambda>v. rbind (vec v) (\<lambda>x. Inr (cmp query x))) fuel 0
        \<lparr>bm_ret = (replicate (L + 1) (pnbr_new 0 0 False))[0 := pnbr_new ep (cmp x query) True],
         bm_L = 1, bm_flags = flags, bm_nk = 0\<rparr>) (\<lambda>st.
     rbind (rget (bm_ret st) 0) (\<lambda>e. Inr (pn_id e))))))"

section \<open>Invariants\<close>

text \<open>The graph and the distances of a query, in range.\<close>

definition beam_graph :: "u32 list list \<Rightarrow> nat \<Rightarrow> (u32 \<Rightarrow> 'd::linorder) \<Rightarrow> (u32 \<Rightarrow> 'd result) \<Rightarrow> bool" where
  "beam_graph graph N D dist \<longleftrightarrow> length graph = N \<and> (\<forall>ns \<in> set graph. \<forall>w \<in> set ns. unat w < N) \<and>
     (\<forall>v. unat v < N \<longrightarrow> dist v = Inr (D v))"

text \<open>
  Entries in use are sorted, hold visited vertices with their distances; the first is at least as
  near as every visited vertex, the entry point among them; the neighbours of expanded entries are
  visited.
\<close>

definition bm_inv :: "nat \<Rightarrow> (u32 \<Rightarrow> 'd::linorder) \<Rightarrow> nat \<Rightarrow> u32 \<Rightarrow> 'd beam \<Rightarrow> bool" where
  "bm_inv N D cap ep st \<longleftrightarrow> 0 < bm_L st \<and> bm_L st \<le> cap \<and> length (bm_ret st) = cap + 1 \<and> length (bm_flags st) = N \<and>
     unat ep < N \<and> bm_flags st ! unat ep \<and> pn_sorted (take (bm_L st) (bm_ret st)) \<and>
     (\<forall>e \<in> set (take (bm_L st) (bm_ret st)). unat (pn_id e) < N \<and> bm_flags st ! unat (pn_id e) \<and> pn_dist e = D (pn_id e)) \<and>
     (\<forall>v. unat v < N \<and> bm_flags st ! unat v \<longrightarrow> pn_dist (bm_ret st ! 0) \<le> D v)"

definition bm_done :: "u32 list list \<Rightarrow> u32 set \<Rightarrow> 'd beam \<Rightarrow> bool" where
  "bm_done graph S st \<longleftrightarrow> (\<forall>e \<in> set (take (bm_L st) (bm_ret st)). \<not> pn_flag e \<longrightarrow>
     (\<forall>w \<in> set (graph ! unat (pn_id e)). bm_flags st ! unat w \<or> w \<in> S))"

definition bm_work :: "'d beam \<Rightarrow> nat" where
  "bm_work st = length (filter Not (bm_flags st)) + length (filter pn_flag (take (bm_L st) (bm_ret st)))"

text \<open>The entries before position \<open>k\<close> that no insertion has moved are expanded.\<close>

definition bm_prefix :: "nat \<Rightarrow> nat \<Rightarrow> 'd beam \<Rightarrow> bool" where
  "bm_prefix k nk st \<longleftrightarrow> (\<forall>i \<le> k. i < nk \<longrightarrow> i < bm_L st \<longrightarrow> \<not> pn_flag (bm_ret st ! i))"

lemma filter_update_less:
  "i < length xs \<Longrightarrow> P (xs ! i) \<Longrightarrow> \<not> P y \<Longrightarrow> length (filter P xs) = Suc (length (filter P (xs[i := y])))"
proof (induction xs arbitrary: i)
  case (Cons x xs)
  then show ?case by (cases i) auto
qed simp

lemma filter_take_le: "length (filter P (take n xs)) \<le> length (filter P xs)"
  by (metis append_take_drop_id filter_append le_add1 length_append)

text \<open>One neighbour: skipped, or marked visited and inserted.\<close>

lemma neighbour_insert:
  assumes inv: "bm_inv N D cap ep st" and dn: "bm_done graph S st" and w: "unat w < N" "\<not> bm_flags st ! unat w"
    and prefix: "bm_prefix k (bm_nk st) st"
  shows "\<exists>a r. insert_into_pool (bm_ret st) (bm_L st) (pnbr_new w (D w) True) = Inr (a, r) \<and>
    (let st' = st\<lparr>bm_flags := (bm_flags st)[unat w := True], bm_ret := a,
        bm_L := (if bm_L st + 1 < length (bm_ret st) then bm_L st + 1 else bm_L st), bm_nk := min (bm_nk st) r\<rparr>
     in bm_inv N D cap ep st' \<and> bm_done graph (S - {w}) st' \<and> bm_work st' \<le> bm_work st \<and> bm_prefix k (bm_nk st') st')"
proof -
  let ?a = "bm_ret st" and ?L = "bm_L st" and ?x = "pnbr_new w (D w) True" and ?fl = "bm_flags st"
  note I = inv [unfolded bm_inv_def]
  have mem: "?a ! i \<in> set (take ?L ?a)" if "i < ?L" for i
    using that I by (auto simp: in_set_conv_nth intro!: exI [of _ i])
  have x: "pn_id ?x = w" "pn_dist ?x = D w" "pn_flag ?x" by (simp_all add: pnbr_new_def)
  have "pn_id (?a ! i) \<noteq> w" if "i < ?L" for i using mem [OF that] I w(2) by auto
  with insert_into_pool_correct [of ?L ?a ?x] I obtain a r where
    a: "insert_into_pool ?a ?L ?x = Inr (a, r)" and placed: "ip_placed ?a ?L ?x a r" by (auto simp: x)
  let ?L' = "if ?L + 1 < length ?a then ?L + 1 else ?L"
  let ?st = "st\<lparr>bm_flags := ?fl[unat w := True], bm_ret := a, bm_L := ?L', bm_nk := min (bm_nk st) r\<rparr>"
  have r: "r \<le> ?L" and len: "length a = length ?a"
    and all: "take (?L + 1) a = take r ?a @ ?x # drop r (take ?L ?a)" and srt: "pn_sorted (take (?L + 1) a)"
    using placed by (auto simp: ip_placed_def)
  have tk: "take ?L' a = take ?L' (take (?L + 1) a)" by simp
  have sub: "set (take ?L' a) \<subseteq> insert ?x (set (take ?L ?a))"
  proof -
    have "set (take ?L' a) \<subseteq> set (take (?L + 1) a)" unfolding tk by (rule set_take_subset)
    also have "\<dots> \<subseteq> insert ?x (set (take ?L ?a))"
      unfolding all using r set_take_subset_set_take [of r ?L ?a] by (auto dest: in_set_dropD)
    finally show ?thesis .
  qed
  have nth_a: "a ! i = (if i < r then ?a ! i else if i = r then ?x else ?a ! (i - 1))" if "i \<le> ?L" for i
    using arg_cong [OF all, of "\<lambda>xs. xs ! i"] that r I len by (auto simp: nth_append nth_Cons' min_def split: if_splits)
  have first: "pn_dist (a ! 0) \<le> pn_dist (a ! i)" if "i \<le> ?L" for i
    using sorted_nth_mono [OF srt, of 0 i] that I len by simp
  have inv': "bm_inv N D cap ep ?st"
    unfolding bm_inv_def
  proof (intro conjI ballI allI impI)
    show "pn_sorted (take (bm_L ?st) (bm_ret ?st))"
      using sorted_wrt_take [OF srt, of ?L'] by (simp add: take_map flip: take_map)
    fix v :: u32 assume v: "unat v < N \<and> bm_flags ?st ! unat v"
    have "pn_dist (a ! 0) \<le> D v"
    proof (cases "v = w")
      case True
      with first [OF r] nth_a [OF r] x show ?thesis by simp
    next
      case False
      then have old: "pn_dist (?a ! 0) \<le> D v" using v I by (simp add: nth_list_update word_unat_eq_iff split: if_splits)
      have "pn_dist (a ! 0) \<le> pn_dist (?a ! 0)"
        using first [of 1] nth_a [of 0] nth_a [of 1] I by (cases "r = 0") auto
      then show ?thesis using old by (rule order_trans)
    qed
    then show "pn_dist (bm_ret ?st ! 0) \<le> D v" by simp
  qed (use I len sub x w(1) in \<open>auto simp: nth_list_update dest!: subsetD [OF sub]\<close>)
  moreover have "bm_done graph (S - {w}) ?st"
    unfolding bm_done_def
  proof (intro ballI impI)
    fix e v assume e: "e \<in> set (take (bm_L ?st) (bm_ret ?st))" "\<not> pn_flag e" and v: "v \<in> set (graph ! unat (pn_id e))"
    have "e \<in> set (take ?L' a)" using e(1) by simp
    then have "e \<in> set (take ?L ?a)" using sub e(2) x(3) by blast
    then have "?fl ! unat v \<or> v \<in> S" using dn e(2) v by (simp add: bm_done_def)
    then show "bm_flags ?st ! unat v \<or> v \<in> S - {w}"
      using w(1) I by (auto simp: nth_list_update word_unat_eq_iff)
  qed
  moreover have "bm_work ?st \<le> bm_work st"
  proof -
    have "length (filter pn_flag (take ?L' a)) \<le> length (filter pn_flag (take (?L + 1) a))"
      unfolding tk by (rule filter_take_le)
    also have "\<dots> = Suc (length (filter pn_flag (take r ?a @ drop r (take ?L ?a))))"
      unfolding all by (simp add: x)
    also have "take r ?a @ drop r (take ?L ?a) = take ?L ?a"
      using r append_take_drop_id [of r "take ?L ?a"] by (simp add: min_absorb1)
    finally show ?thesis using filter_update_less [of "unat w" ?fl Not True] w I by (simp add: bm_work_def)
  qed
  moreover have "bm_prefix k (bm_nk ?st) ?st"
    using prefix nth_a r by (auto simp: bm_prefix_def split: if_splits)
  ultimately show ?thesis using a by (auto simp: Let_def)
qed

lemma neighbour_step:
  assumes g: "beam_graph graph N D dist" and inv: "bm_inv N D cap ep st" and dn: "bm_done graph S st"
    and w: "unat w < N" and prefix: "bm_prefix k (bm_nk st) st"
  shows "\<exists>st'. beam_neighbour dist w st = Inr st' \<and> bm_inv N D cap ep st' \<and> bm_done graph (S - {w}) st' \<and>
    bm_work st' \<le> bm_work st \<and> bm_prefix k (bm_nk st') st'"
proof -
  note I = inv [unfolded bm_inv_def]
  have get: "rget (bm_flags st) (unat w) = Inr (bm_flags st ! unat w)" "dist w = Inr (D w)"
    using w I g by (simp_all add: beam_graph_def)
  show ?thesis
  proof (cases "bm_flags st ! unat w")
    case True
    then have "bm_done graph (S - {w}) st" using dn by (auto simp: bm_done_def)
    with True get inv prefix show ?thesis by (simp add: beam_neighbour_def)
  next
    case False
    let ?st = "st\<lparr>bm_flags := (bm_flags st)[unat w := True]\<rparr>"
    let ?worst = "bm_ret st ! (bm_L st - 1)"
    show ?thesis
    proof (cases "bm_L st + 1 = length (bm_ret st) \<and> pn_dist ?worst \<le> D w")
      case skip: True
      have L: "0 < bm_L st" "bm_L st < length (bm_ret st)" "bm_L st - 1 < length (bm_ret st)" using I by auto
      then have eq: "beam_neighbour dist w st = Inr ?st"
        using False get skip by (simp add: beam_neighbour_def Let_def)
      have "pn_dist (bm_ret st ! 0) \<le> pn_dist ?worst"
        using sorted_nth_mono [of "map pn_dist (take (bm_L st) (bm_ret st))" 0 "bm_L st - 1"] I L by simp
      then have best: "pn_dist (bm_ret st ! 0) \<le> D w" using skip by (auto intro: order_trans)
      then have best: "pn_dist (bm_ret st ! 0) \<le> D v" if "unat w = unat v" for v
        using that by (simp flip: word_unat_eq_iff)
      have "bm_inv N D cap ep ?st"
        using I best w by (auto simp: bm_inv_def nth_list_update split: if_splits)
      moreover have "bm_done graph (S - {w}) ?st"
        using dn I w by (auto simp: bm_done_def nth_list_update word_unat_eq_iff)
      moreover have "bm_work ?st \<le> bm_work st" "bm_prefix k (bm_nk ?st) ?st"
        using filter_update_less [of "unat w" "bm_flags st" Not True] False w I prefix by (auto simp: bm_work_def bm_prefix_def)
      ultimately show ?thesis using eq by blast
    next
      case insert: False
      obtain a r where ar: "insert_into_pool (bm_ret st) (bm_L st) (pnbr_new w (D w) True) = Inr (a, r)"
        and ok: "let st' = st\<lparr>bm_flags := (bm_flags st)[unat w := True], bm_ret := a,
        bm_L := (if bm_L st + 1 < length (bm_ret st) then bm_L st + 1 else bm_L st), bm_nk := min (bm_nk st) r\<rparr>
     in bm_inv N D cap ep st' \<and> bm_done graph (S - {w}) st' \<and> bm_work st' \<le> bm_work st \<and> bm_prefix k (bm_nk st') st'"
        using neighbour_insert [OF inv dn w False prefix] by blast
      have "bm_L st - 1 < length (bm_ret st)" using I by auto
      then have "beam_neighbour dist w st = Inr (st\<lparr>bm_flags := (bm_flags st)[unat w := True], bm_ret := a,
          bm_L := (if bm_L st + 1 < length (bm_ret st) then bm_L st + 1 else bm_L st), bm_nk := min (bm_nk st) r\<rparr>)"
        using False get insert ar by (auto simp: beam_neighbour_def Let_def)
      with ok show ?thesis by (auto simp: Let_def)
    qed
  qed
qed

lemma neighbours_fold:
  assumes g: "beam_graph graph N D dist"
  shows "bm_inv N D cap ep st \<Longrightarrow> bm_done graph S st \<Longrightarrow> bm_prefix k (bm_nk st) st \<Longrightarrow> \<forall>w \<in> set ns. unat w < N \<Longrightarrow>
    \<exists>st'. rfold (beam_neighbour dist) ns st = Inr st' \<and> bm_inv N D cap ep st' \<and> bm_done graph (S - set ns) st' \<and>
      bm_work st' \<le> bm_work st \<and> bm_prefix k (bm_nk st') st'"
proof (induction ns arbitrary: st S)
  case (Cons w ns)
  have "unat w < N" using Cons.prems(4) by simp
  from neighbour_step [OF g Cons.prems(1,2) this Cons.prems(3)] obtain st1 where st1:
    "beam_neighbour dist w st = Inr st1" "bm_inv N D cap ep st1" "bm_done graph (S - {w}) st1"
    "bm_work st1 \<le> bm_work st" "bm_prefix k (bm_nk st1) st1" by blast
  from Cons.IH [OF st1(2,3,5)] Cons.prems(4) obtain st2 where st2:
    "rfold (beam_neighbour dist) ns st1 = Inr st2" "bm_inv N D cap ep st2" "bm_done graph (S - {w} - set ns) st2"
    "bm_work st2 \<le> bm_work st1" "bm_prefix k (bm_nk st2) st2" by auto
  have "S - {w} - set ns = S - set (w # ns)" by auto
  then have "bm_done graph (S - set (w # ns)) st2" using st2(3) by simp
  moreover have "rfold (beam_neighbour dist) (w # ns) st = Inr st2" using st1(1) st2(1) by simp
  moreover have "bm_work st2 \<le> bm_work st" using st1(4) st2(4) by simp
  ultimately show ?case using st2(2,5) by blast
qed simp

text \<open>Marking the entry at the cursor expanded.\<close>

lemma expand_entry:
  assumes inv: "bm_inv N D cap ep st" and dn: "bm_done graph {} st" and k: "k < bm_L st" "pn_flag (bm_ret st ! k)"
    and prefix: "\<And>i. i < k \<Longrightarrow> \<not> pn_flag (bm_ret st ! i)"
  defines "st' \<equiv> st\<lparr>bm_ret := (bm_ret st)[k := (bm_ret st ! k)\<lparr>pn_flag := False\<rparr>], bm_nk := bm_L st\<rparr>"
  shows "bm_inv N D cap ep st'" "bm_done graph (set (graph ! unat (pn_id (bm_ret st ! k)))) st'"
    "bm_prefix k (bm_nk st') st'" "bm_work st = Suc (bm_work st')"
proof -
  note I = inv [unfolded bm_inv_def]
  let ?e = "bm_ret st ! k" and ?xs = "take (bm_L st) (bm_ret st)"
  let ?e' = "?e\<lparr>pn_flag := False\<rparr>"
  have st': "bm_L st' = bm_L st" "bm_flags st' = bm_flags st" "bm_nk st' = bm_L st"
    "bm_ret st' = (bm_ret st)[k := ?e']" by (simp_all add: st'_def)
  have klen: "k < length ?xs" "?xs ! k = ?e" using k I by simp_all
  have xs': "take (bm_L st') (bm_ret st') = ?xs[k := ?e']" by (simp add: st' take_update_swap)
  have dists: "map pn_dist (?xs[k := ?e']) = map pn_dist ?xs"
    using klen by (simp add: map_update list_update_same_conv)
  have mem: "x = ?e' \<or> x \<in> set ?xs" if "x \<in> set (?xs[k := ?e'])" for x
    using that set_update_subset_insert [of ?xs k ?e'] by blast
  have e: "?e \<in> set ?xs" using nth_mem [OF klen(1)] klen(2) by simp
  have "pn_dist (bm_ret st' ! 0) = pn_dist (bm_ret st ! 0)" by (cases "k = 0") (use I k in \<open>auto simp: st'\<close>)
  moreover have "\<forall>x \<in> set (?xs[k := ?e']). unat (pn_id x) < N \<and> bm_flags st ! unat (pn_id x) \<and> pn_dist x = D (pn_id x)"
  proof
    fix x assume "x \<in> set (?xs[k := ?e'])"
    from mem [OF this] e I show "unat (pn_id x) < N \<and> bm_flags st ! unat (pn_id x) \<and> pn_dist x = D (pn_id x)" by fastforce
  qed
  ultimately show "bm_inv N D cap ep st'"
    using I by (simp add: bm_inv_def xs' dists) (simp add: st')
  show "bm_done graph (set (graph ! unat (pn_id ?e))) st'"
    unfolding bm_done_def xs'
  proof (intro ballI impI)
    fix x w assume x: "x \<in> set (?xs[k := ?e'])" "\<not> pn_flag x" and w: "w \<in> set (graph ! unat (pn_id x))"
    from mem [OF x(1)] show "bm_flags st' ! unat w \<or> w \<in> set (graph ! unat (pn_id ?e))"
      using dn x(2) w by (auto simp: bm_done_def st')
  qed
  show "bm_prefix k (bm_nk st') st'" using prefix k I by (auto simp: bm_prefix_def st' nth_list_update)
  show "bm_work st = Suc (bm_work st')"
    using filter_update_less [of k ?xs pn_flag ?e'] klen k(2) by (simp add: bm_work_def xs' st'(2))
qed

text \<open>The loop ends, with every entry in use expanded.\<close>

lemma beam_loop_ends:
  assumes g: "beam_graph graph N D dist"
  shows "bm_inv N D cap ep st \<Longrightarrow> bm_done graph {} st \<Longrightarrow> (\<And>i. i < k \<Longrightarrow> i < bm_L st \<Longrightarrow> \<not> pn_flag (bm_ret st ! i)) \<Longrightarrow>
    bm_work st * (cap + 1) + (cap - k) < n \<Longrightarrow>
    \<exists>st'. beam_loop graph dist n k st = Inr st' \<and> bm_inv N D cap ep st' \<and> bm_done graph {} st' \<and>
      (\<forall>i < bm_L st'. \<not> pn_flag (bm_ret st' ! i))"
proof (induction n arbitrary: k st)
  case (Suc n)
  note I = Suc.prems(1) [unfolded bm_inv_def]
  show ?case
  proof (cases "k < bm_L st")
    case False
    with Suc.prems show ?thesis by auto
  next
    case k: True
    let ?e = "bm_ret st ! k"
    have get: "rget (bm_ret st) k = Inr ?e" using k I by simp
    show ?thesis
    proof (cases "pn_flag ?e")
      case False
      have "\<exists>st'. beam_loop graph dist n (k + 1) st = Inr st' \<and> bm_inv N D cap ep st' \<and> bm_done graph {} st' \<and>
        (\<forall>i < bm_L st'. \<not> pn_flag (bm_ret st' ! i))"
      proof (rule Suc.IH [OF Suc.prems(1,2)])
        show "\<not> pn_flag (bm_ret st ! i)" if "i < k + 1" "i < bm_L st" for i
          using that False Suc.prems(3) [of i] by (cases "i = k") auto
        have "k < cap" using less_le_trans [OF k] I by simp
        then have "cap - k = Suc (cap - (k + 1))" by simp
        then show "bm_work st * (cap + 1) + (cap - (k + 1)) < n" using Suc.prems(4) by linarith
      qed
      with False k get show ?thesis by simp
    next
      case True
      let ?st = "st\<lparr>bm_ret := (bm_ret st)[k := ?e\<lparr>pn_flag := False\<rparr>], bm_nk := bm_L st\<rparr>"
      have prefix: "\<And>i. i < k \<Longrightarrow> \<not> pn_flag (bm_ret st ! i)" using Suc.prems(3) k by auto
      note ex = expand_entry [OF Suc.prems(1,2) k True prefix]
      have "?e \<in> set (take (bm_L st) (bm_ret st))" using k I by (auto simp: in_set_conv_nth intro!: exI [of _ k])
      then have v: "unat (pn_id ?e) < N" using I by auto
      then have ns: "rget graph (unat (pn_id ?e)) = Inr (graph ! unat (pn_id ?e))"
        "\<forall>w \<in> set (graph ! unat (pn_id ?e)). unat w < N"
        using g by (auto simp: beam_graph_def)
      from neighbours_fold [OF g ex(1,2,3) ns(2)] obtain st1 where st1:
        "rfold (beam_neighbour dist) (graph ! unat (pn_id ?e)) ?st = Inr st1" "bm_inv N D cap ep st1"
        "bm_done graph {} st1" "bm_work st1 \<le> bm_work ?st" "bm_prefix k (bm_nk st1) st1" by auto
      let ?k = "if bm_nk st1 \<le> k then bm_nk st1 else k + 1"
      have "\<exists>st'. beam_loop graph dist n ?k st1 = Inr st' \<and> bm_inv N D cap ep st' \<and> bm_done graph {} st' \<and>
        (\<forall>i < bm_L st'. \<not> pn_flag (bm_ret st' ! i))"
      proof (rule Suc.IH [OF st1(2,3)])
        show "\<not> pn_flag (bm_ret st1 ! i)" if "i < ?k" "i < bm_L st1" for i
          using that st1(5) by (auto simp: bm_prefix_def split: if_splits)
        have "bm_work st1 * (cap + 1) + (cap + 1) \<le> bm_work st * (cap + 1)"
          using st1(4) ex(4) mult_le_mono1 [of "Suc (bm_work st1)" "bm_work st" "cap + 1"] by simp
        then show "bm_work st1 * (cap + 1) + (cap - ?k) < n" using Suc.prems(4) by linarith
      qed
      with True k get ns(1) st1(1) show ?thesis by simp
    qed
  qed
qed simp

section \<open>The result\<close>

definition learn_input_ok :: "index \<Rightarrow> u32 list \<Rightarrow> bool" where
  "learn_input_ok ix data \<longleftrightarrow> ix_learn_data ix = Some data \<and> length data = ix_learn_num ix * ix_dimension ix \<and>
     length (ix_learn_graph ix) = ix_learn_num ix \<and> unat (ix_learn_graph_EP ix) < ix_learn_num ix \<and>
     (\<forall>ns \<in> set (ix_learn_graph ix). \<forall>w \<in> set ns. unat w < ix_learn_num ix)"

definition learn_vec :: "index \<Rightarrow> u32 \<Rightarrow> u32 list" where
  "learn_vec ix v = slice (the (ix_learn_data ix)) (ix_dimension ix * unat v) (ix_dimension ix)"

text \<open>
  C18: with a symmetric distance, the beam search over the learn graph ends within
  \<open>(learn_num + 1) (L + 1) + L + 1\<close> rounds and returns a vertex no out-neighbour of which is nearer to
  the query, and which is at least as near as the entry point.
\<close>

theorem beam_search_local_min:
  fixes cmp :: "u32 list \<Rightarrow> u32 list \<Rightarrow> 'd::{linorder,zero}"
  assumes ok: "learn_input_ok ix data" and sym: "\<And>x y. cmp x y = cmp y x" and L: "0 < L"
    and fuel: "(ix_learn_num ix + 1) * (L + 1) + L < fuel"
  shows "\<exists>v. beam_search_learn_graph ix cmp fuel query L = Inr v \<and> unat v < ix_learn_num ix \<and>
    (\<forall>w \<in> set (ix_learn_graph ix ! unat v). cmp query (learn_vec ix v) \<le> cmp query (learn_vec ix w)) \<and>
    cmp query (learn_vec ix v) \<le> cmp query (learn_vec ix (ix_learn_graph_EP ix))"
proof -
  let ?N = "ix_learn_num ix" and ?d = "ix_dimension ix" and ?ep = "ix_learn_graph_EP ix"
  let ?vec = "\<lambda>v. rslice data (?d * unat v) ?d" and ?D = "\<lambda>v. cmp query (learn_vec ix v)"
  let ?dist = "\<lambda>v. rbind (?vec v) (\<lambda>x. Inr (cmp query x))"
  have data: "ix_learn_data ix = Some data" "length data = ?N * ?d" and ep: "unat ?ep < ?N"
    using ok by (auto simp: learn_input_ok_def)
  have vec: "?vec v = Inr (learn_vec ix v)" if "unat v < ?N" for v
    using row_bound [OF that, of ?d] data by (simp add: learn_vec_def mult.commute)
  then have g: "beam_graph (ix_learn_graph ix) ?N ?D ?dist"
    using ok by (simp add: beam_graph_def learn_input_ok_def)
  let ?flags = "(replicate ?N False)[unat ?ep := True]"
  let ?st = "\<lparr>bm_ret = (replicate (L + 1) (pnbr_new 0 0 False))[0 := pnbr_new ?ep (cmp (learn_vec ix ?ep) query) True],
         bm_L = 1, bm_flags = ?flags, bm_nk = 0\<rparr>"
  have take1: "take 1 (bm_ret ?st) = [pnbr_new ?ep (?D ?ep) True]" using sym by simp
  have inv: "bm_inv ?N ?D L ?ep ?st"
    using L ep sym by (auto simp: bm_inv_def pnbr_new_def nth_list_update split: if_splits simp flip: word_unat_eq_iff)
  have dn: "bm_done (ix_learn_graph ix) {} ?st" using take1 by (simp add: bm_done_def pnbr_new_def)
  have "length (filter Not ?flags) \<le> ?N" using length_filter_le [of Not ?flags] by simp
  then have "bm_work ?st \<le> ?N + 1" using take1 by (simp add: bm_work_def pnbr_new_def)
  then have "bm_work ?st * (L + 1) + (L - 0) < fuel"
    using fuel mult_le_mono1 [of "bm_work ?st" "?N + 1" "L + 1"] by linarith
  from beam_loop_ends [OF g inv dn _ this] obtain st where st:
    "beam_loop (ix_learn_graph ix) ?dist fuel 0 ?st = Inr st" "bm_inv ?N ?D L ?ep st" "bm_done (ix_learn_graph ix) {} st"
    "\<forall>i < bm_L st. \<not> pn_flag (bm_ret st ! i)" by auto
  note I = st(2) [unfolded bm_inv_def]
  let ?e = "bm_ret st ! 0"
  have mem: "?e \<in> set (take (bm_L st) (bm_ret st))" using I by (auto simp: in_set_conv_nth intro!: exI [of _ 0])
  have e: "unat (pn_id ?e) < ?N" "pn_dist ?e = ?D (pn_id ?e)" using mem I by auto
  have ret: "bm_ret st \<noteq> []" using I by auto
  have res: "beam_search_learn_graph ix cmp fuel query L = Inr (pn_id ?e)"
    using data L ep vec [OF ep] st(1) ret by (simp add: beam_search_learn_graph_def Let_def)
  have "?D (pn_id ?e) \<le> ?D w" if "w \<in> set (ix_learn_graph ix ! unat (pn_id ?e))" for w
  proof -
    have "bm_flags st ! unat w" using st(3,4) mem I that by (auto simp: bm_done_def)
    moreover have "unat w < ?N" using ok e(1) that by (auto simp: learn_input_ok_def)
    ultimately show ?thesis using I e(2) by auto
  qed
  moreover have "?D (pn_id ?e) \<le> ?D ?ep" using I e(2) by auto
  ultimately show ?thesis using res e(1) by blast
qed

definition learn_example :: index where
  "learn_example = index_new\<lparr>ix_dimension := 1, ix_learn_num := 2, ix_learn_data := Some [7, 3],
     ix_learn_graph := [[1], [0]], ix_learn_graph_EP := 0\<rparr>"

definition gap :: "u32 list \<Rightarrow> u32 list \<Rightarrow> nat" where
  "gap x y = nat \<bar>int (unat (x ! 0)) - int (unat (y ! 0))\<bar>"

theorem beam_search_local_min_witness: "beam_search_learn_graph learn_example gap 8 [3] 1 = Inr 1"
proof -
  have ok: "learn_input_ok learn_example [7, 3]"
    by (simp add: learn_input_ok_def learn_example_def index_new_def)
  have sym: "gap x y = gap y x" for x y by (simp add: gap_def abs_minus_commute)
  have "(ix_learn_num learn_example + 1) * (1 + 1) + 1 < 8" by (simp add: learn_example_def)
  from beam_search_local_min [where cmp = gap and query = "[3]", OF ok sym _ this] obtain v where
    v: "beam_search_learn_graph learn_example gap 8 [3] 1 = Inr v" "unat v < 2"
    "\<forall>w \<in> set ([[1], [0]] ! unat v). gap [3] (learn_vec learn_example v) \<le> gap [3] (learn_vec learn_example w)"
    by (auto simp: learn_example_def)
  have "gap [3] (learn_vec learn_example 0) = 4" "gap [3] (learn_vec learn_example 1) = 0"
    by (simp_all add: gap_def learn_vec_def learn_example_def slice_def)
  moreover have "v = 0 \<or> v = 1" using v(2) by (auto simp: word_unat_eq_iff less_2_cases_iff)
  ultimately show ?thesis using v(1,3) by auto
qed

end
