(* ===== verification/MemLayout.thy ===== *)
theory MemLayout
  imports Prelude
begin

text \<open>
  The memory registered with the network card, \<open>Mem\<close> and \<open>Broadcast_Mem\<close> of \<open>core/mem.hpp\<close>: one allocation
  cut into the graph store, a buffer per thread, and ring buffers with their heads per thread and
  server. Sizes and offsets are \<open>uint64_t\<close> and wrap; a pointer is its offset in the allocation, so the
  pointer and the offset accessors of a region coincide. The specification is a sequence of arrays
  laid out one after the other.
\<close>

section \<open>Consecutive arrays\<close>

text \<open>A block is the size of its elements and their number.\<close>

type_synonym blocks = "(nat \<times> nat) list"

definition blocks_size :: "blocks \<Rightarrow> nat" where
  "blocks_size bs = sum_list (map (\<lambda>(sz, n). sz * n) bs)"

definition block_at :: "blocks \<Rightarrow> nat \<Rightarrow> nat \<Rightarrow> nat" where
  "block_at bs j k = blocks_size (take j bs) + fst (bs ! j) * k"

definition in_blocks :: "blocks \<Rightarrow> nat \<Rightarrow> nat \<Rightarrow> bool" where
  "in_blocks bs j k \<longleftrightarrow> j < length bs \<and> k < snd (bs ! j)"

lemma blocks_size_simps [simp]:
  "blocks_size [] = 0" "blocks_size (b # bs) = fst b * snd b + blocks_size bs"
  "blocks_size (bs @ cs) = blocks_size bs + blocks_size cs"
  by (simp_all add: blocks_size_def split_beta)

lemma element_end: "k < (n::nat) \<Longrightarrow> sz * k + sz \<le> sz * n"
  using mult_le_mono2 [of "Suc k" n sz] by simp

lemma block_at_end:
  assumes "in_blocks bs j k"
  shows "block_at bs j k + fst (bs ! j) \<le> blocks_size (take (Suc j) bs)"
  using assms element_end [of k "snd (bs ! j)" "fst (bs ! j)"]
  by (simp add: in_blocks_def block_at_def take_Suc_conv_app_nth)

lemma blocks_size_take_mono: "i \<le> j \<Longrightarrow> blocks_size (take i bs) \<le> blocks_size (take j bs)"
  using append_take_drop_id [of i "take j bs"]
  by (metis blocks_size_simps(3) le_add1 min.absorb1 take_take)

lemma block_inside:
  assumes "in_blocks bs j k"
  shows "block_at bs j k + fst (bs ! j) \<le> blocks_size bs"
  using block_at_end [OF assms] blocks_size_take_mono [of "Suc j" "length bs" bs] assms
  by (simp add: in_blocks_def)

text \<open>Different elements do not overlap.\<close>

lemma blocks_disjoint:
  assumes "in_blocks bs j k" and "in_blocks bs j' k'" and "(j, k) \<noteq> (j', k')"
  shows "block_at bs j k + fst (bs ! j) \<le> block_at bs j' k' \<or> block_at bs j' k' + fst (bs ! j') \<le> block_at bs j k"
proof -
  have *: "block_at bs i l + fst (bs ! i) \<le> block_at bs i' l'"
    if "in_blocks bs i l" "i < i' \<or> i = i' \<and> l < l'" for i l i' l'
    using that(2)
  proof
    assume "i < i'"
    then have "blocks_size (take (Suc i) bs) \<le> blocks_size (take i' bs)" by (intro blocks_size_take_mono) simp
    with block_at_end [OF that(1)] show ?thesis by (simp add: block_at_def)
  next
    assume "i = i' \<and> l < l'"
    then show ?thesis using element_end [of l l' "fst (bs ! i)"] by (simp add: block_at_def)
  qed
  consider "j < j' \<or> j = j' \<and> k < k'" | "j' < j \<or> j' = j \<and> k' < k" using assms(3) by force
  then show ?thesis using *[OF assms(1), of j' k'] * [OF assms(2), of j k] by cases auto
qed

section \<open>Broadcast memory\<close>

definition MiB2B :: "int \<Rightarrow> u64" where
  "MiB2B x = of_int x * 1024 * 1024"

definition GiB2B :: "int \<Rightarrow> u64" where
  "GiB2B x = of_int x * 1024 * 1024 * 1024"

record bmem =
  b_num_servers :: nat
  b_num_threads :: nat
  b_start_tid :: nat
  b_mem_sz :: u64
  b_buf_sz :: u64
  b_buf_off :: u64
  b_rbf_sz :: u64
  b_m_rbf_off :: u64
  b_s_rbf_off :: u64
  b_lrbf_hd_sz :: u64
  b_m_lrbf_hd_off :: u64
  b_s_lrbf_hd_off :: u64
  b_rrbf_hd_sz :: u64
  b_m_rrbf_hd_off :: u64
  b_s_rrbf_hd_off :: u64

definition bmem_new :: "bool \<Rightarrow> int \<Rightarrow> nat \<Rightarrow> nat \<Rightarrow> bmem" where
  "bmem_new has_rdma rbf_mb servers start_tid =
     (let sz = (if has_rdma then MiB2B rbf_mb else 0); hd = 8; threads = 2
      in \<lparr>b_num_servers = servers, b_num_threads = threads, b_start_tid = start_tid,
          b_mem_sz = sz * of_nat threads + sz * of_nat (servers + 1) + hd * of_nat (servers + 1) + hd * of_nat (servers + 1),
          b_buf_sz = sz, b_buf_off = 0, b_rbf_sz = sz, b_m_rbf_off = 0, b_s_rbf_off = 0,
          b_lrbf_hd_sz = hd, b_m_lrbf_hd_off = 0, b_s_lrbf_hd_off = 0,
          b_rrbf_hd_sz = hd, b_m_rrbf_hd_off = 0, b_s_rrbf_hd_off = 0\<rparr>)"

text \<open>\<open>init\<close>: the running offset \<open>off\<close>, relative to the place of this memory in the allocation.\<close>

definition bmem_init :: "bmem \<Rightarrow> u64 \<Rightarrow> bmem" where
  "bmem_init b mem_off =
     (let n = of_nat (b_num_servers b);
          off0 = 0;
          off1 = off0 + b_buf_sz b * of_nat (b_num_threads b);
          off2 = off1 + b_rbf_sz b * n;
          off3 = off2 + b_rbf_sz b;
          off4 = off3 + b_lrbf_hd_sz b * n;
          off5 = off4 + b_lrbf_hd_sz b;
          off6 = off5 + b_rrbf_hd_sz b
      in b\<lparr>b_buf_off := mem_off + off0, b_m_rbf_off := mem_off + off1, b_s_rbf_off := mem_off + off2,
           b_m_lrbf_hd_off := mem_off + off3, b_s_lrbf_hd_off := mem_off + off4,
           b_m_rrbf_hd_off := mem_off + off5, b_s_rrbf_hd_off := mem_off + off6\<rparr>)"

definition b_buffer :: "bmem \<Rightarrow> nat \<Rightarrow> u64" where
  "b_buffer b tid = b_buf_off b + b_buf_sz b * (of_nat tid - of_nat (b_start_tid b))"

definition b_master_ring :: "bmem \<Rightarrow> nat \<Rightarrow> u64" where
  "b_master_ring b sid = b_m_rbf_off b + b_rbf_sz b * of_nat sid"

definition b_slave_ring :: "bmem \<Rightarrow> u64" where
  "b_slave_ring b = b_s_rbf_off b"

definition b_local_master_ring_head :: "bmem \<Rightarrow> nat \<Rightarrow> u64" where
  "b_local_master_ring_head b sid = b_m_lrbf_hd_off b + b_lrbf_hd_sz b * of_nat sid"

definition b_local_slave_ring_head :: "bmem \<Rightarrow> u64" where
  "b_local_slave_ring_head b = b_s_lrbf_hd_off b"

definition b_remote_master_ring_head :: "bmem \<Rightarrow> u64" where
  "b_remote_master_ring_head b = b_m_rrbf_hd_off b"

definition b_remote_slave_ring_head :: "bmem \<Rightarrow> nat \<Rightarrow> u64" where
  "b_remote_slave_ring_head b sid = b_s_rrbf_hd_off b + b_rrbf_hd_sz b * of_nat sid"

section \<open>The memory of a server\<close>

record mem =
  m_num_servers :: nat
  m_num_threads :: nat
  m_mem_sz :: u64
  m_kvs_off :: u64
  m_kvs_sz :: u64
  m_buf_off :: u64
  m_buf_sz :: u64
  m_rbf_off :: u64
  m_rbf_sz :: u64
  m_lrbf_hd_off :: u64
  m_lrbf_hd_sz :: u64
  m_rrbf_hd_off :: u64
  m_rrbf_hd_sz :: u64
  m_bc_mems :: "bmem list"

text \<open>The loop that gives every broadcast memory its place.\<close>

fun bc_init :: "bmem list \<Rightarrow> u64 \<Rightarrow> bmem list" where
  "bc_init [] off = []"
| "bc_init (b # bs) off = bmem_init b off # bc_init bs (off + b_mem_sz b)"

definition mem_new :: "bool \<Rightarrow> int \<Rightarrow> int \<Rightarrow> int \<Rightarrow> nat \<Rightarrow> nat \<Rightarrow> bmem list \<Rightarrow> mem" where
  "mem_new has_rdma memstore_gb buf_mb rbf_mb servers threads bcs =
     (let kvs_sz = GiB2B memstore_gb;
          buf_sz = (if has_rdma then MiB2B buf_mb else 0);
          rbf_sz = (if has_rdma then MiB2B rbf_mb else 0);
          hd = 8; n = of_nat servers; t = of_nat threads;
          kvs_off = 0;
          buf_off = kvs_off + kvs_sz;
          rbf_off = buf_off + buf_sz * t;
          lrbf_hd_off = rbf_off + rbf_sz * n * t;
          rrbf_hd_off = lrbf_hd_off + hd * n * t
      in \<lparr>m_num_servers = servers, m_num_threads = threads,
          m_mem_sz = fold (\<lambda>b sz. sz + b_mem_sz b) bcs
             (kvs_sz + buf_sz * t + rbf_sz * n * t + hd * n * t + hd * n * t),
          m_kvs_off = kvs_off, m_kvs_sz = kvs_sz, m_buf_off = buf_off, m_buf_sz = buf_sz,
          m_rbf_off = rbf_off, m_rbf_sz = rbf_sz, m_lrbf_hd_off = lrbf_hd_off, m_lrbf_hd_sz = hd,
          m_rrbf_hd_off = rrbf_hd_off, m_rrbf_hd_sz = hd,
          m_bc_mems = bc_init bcs (rrbf_hd_off + hd * n * t)\<rparr>)"

definition m_kvstore :: "mem \<Rightarrow> u64" where
  "m_kvstore m = m_kvs_off m"

definition m_buffer :: "mem \<Rightarrow> nat \<Rightarrow> u64" where
  "m_buffer m tid = m_buf_off m + m_buf_sz m * of_nat tid"

definition m_ring :: "mem \<Rightarrow> nat \<Rightarrow> nat \<Rightarrow> u64" where
  "m_ring m tid sid = m_rbf_off m + (m_rbf_sz m * of_nat (m_num_servers m)) * of_nat tid + m_rbf_sz m * of_nat sid"

definition m_local_ring_head :: "mem \<Rightarrow> nat \<Rightarrow> nat \<Rightarrow> u64" where
  "m_local_ring_head m tid sid =
     m_lrbf_hd_off m + (m_lrbf_hd_sz m * of_nat (m_num_servers m)) * of_nat tid + m_lrbf_hd_sz m * of_nat sid"

definition m_remote_ring_head :: "mem \<Rightarrow> nat \<Rightarrow> nat \<Rightarrow> u64" where
  "m_remote_ring_head m tid sid =
     m_rrbf_hd_off m + (m_rrbf_hd_sz m * of_nat (m_num_servers m)) * of_nat tid + m_rrbf_hd_sz m * of_nat sid"

section \<open>The regions and their blocks\<close>

datatype bregion = B_Buf nat | B_MRing nat | B_SRing | B_LMHead nat | B_LSHead | B_RMHead | B_RSHead nat

datatype region = R_Kvs | R_Buf nat | R_Ring nat nat | R_LHead nat nat | R_RHead nat nat | R_Bc nat bregion

text \<open>Offset and size of a region, by the accessors.\<close>

fun bregion_at :: "bmem \<Rightarrow> bregion \<Rightarrow> u64 \<times> u64" where
  "bregion_at b (B_Buf i) = (b_buffer b (b_start_tid b + i), b_buf_sz b)"
| "bregion_at b (B_MRing s) = (b_master_ring b s, b_rbf_sz b)"
| "bregion_at b B_SRing = (b_slave_ring b, b_rbf_sz b)"
| "bregion_at b (B_LMHead s) = (b_local_master_ring_head b s, b_lrbf_hd_sz b)"
| "bregion_at b B_LSHead = (b_local_slave_ring_head b, b_lrbf_hd_sz b)"
| "bregion_at b B_RMHead = (b_remote_master_ring_head b, b_rrbf_hd_sz b)"
| "bregion_at b (B_RSHead s) = (b_remote_slave_ring_head b s, b_rrbf_hd_sz b)"

fun region_at :: "mem \<Rightarrow> region \<Rightarrow> u64 \<times> u64" where
  "region_at m R_Kvs = (m_kvstore m, m_kvs_sz m)"
| "region_at m (R_Buf tid) = (m_buffer m tid, m_buf_sz m)"
| "region_at m (R_Ring tid sid) = (m_ring m tid sid, m_rbf_sz m)"
| "region_at m (R_LHead tid sid) = (m_local_ring_head m tid sid, m_lrbf_hd_sz m)"
| "region_at m (R_RHead tid sid) = (m_remote_ring_head m tid sid, m_rrbf_hd_sz m)"
| "region_at m (R_Bc i r) = bregion_at (m_bc_mems m ! i) r"

text \<open>The servers, threads and broadcast memories a region may name.\<close>

fun bregion_valid :: "nat \<Rightarrow> bregion \<Rightarrow> bool" where
  "bregion_valid n (B_Buf i) \<longleftrightarrow> i < 2"
| "bregion_valid n (B_MRing s) \<longleftrightarrow> s < n"
| "bregion_valid n (B_LMHead s) \<longleftrightarrow> s < n"
| "bregion_valid n (B_RSHead s) \<longleftrightarrow> s < n"
| "bregion_valid n _ \<longleftrightarrow> True"

fun region_valid :: "nat \<Rightarrow> nat \<Rightarrow> nat \<Rightarrow> region \<Rightarrow> bool" where
  "region_valid n t c R_Kvs \<longleftrightarrow> True"
| "region_valid n t c (R_Buf tid) \<longleftrightarrow> tid < t"
| "region_valid n t c (R_Ring tid sid) \<longleftrightarrow> tid < t \<and> sid < n"
| "region_valid n t c (R_LHead tid sid) \<longleftrightarrow> tid < t \<and> sid < n"
| "region_valid n t c (R_RHead tid sid) \<longleftrightarrow> tid < t \<and> sid < n"
| "region_valid n t c (R_Bc i r) \<longleftrightarrow> i < c \<and> bregion_valid n r"

definition bc_blocks :: "nat \<Rightarrow> nat \<Rightarrow> blocks" where
  "bc_blocks n rbf = [(rbf, 2), (rbf, n), (rbf, 1), (8, n), (8, 1), (8, 1), (8, n)]"

definition mem_blocks :: "nat \<Rightarrow> nat \<Rightarrow> nat \<Rightarrow> nat \<Rightarrow> nat \<Rightarrow> nat \<Rightarrow> blocks" where
  "mem_blocks kvs buf rbf n t c =
     [(kvs, 1), (buf, t), (rbf, n * t), (8, n * t), (8, n * t)] @ concat (replicate c (bc_blocks n rbf))"

fun bregion_index :: "bregion \<Rightarrow> nat \<times> nat" where
  "bregion_index (B_Buf i) = (0, i)"
| "bregion_index (B_MRing s) = (1, s)"
| "bregion_index B_SRing = (2, 0)"
| "bregion_index (B_LMHead s) = (3, s)"
| "bregion_index B_LSHead = (4, 0)"
| "bregion_index B_RMHead = (5, 0)"
| "bregion_index (B_RSHead s) = (6, s)"

fun region_index :: "nat \<Rightarrow> region \<Rightarrow> nat \<times> nat" where
  "region_index n R_Kvs = (0, 0)"
| "region_index n (R_Buf tid) = (1, tid)"
| "region_index n (R_Ring tid sid) = (2, n * tid + sid)"
| "region_index n (R_LHead tid sid) = (3, n * tid + sid)"
| "region_index n (R_RHead tid sid) = (4, n * tid + sid)"
| "region_index n (R_Bc i r) = (5 + (7 * i + fst (bregion_index r)), snd (bregion_index r))"

lemma bregion_index_bound: "fst (bregion_index r) < 7"
  by (cases r) simp_all

lemma bregion_index_inj: "bregion_index r = bregion_index r' \<longleftrightarrow> r = r'"
  by (cases r; cases r') auto

lemma grid_inj:
  assumes "s < (n::nat)" and "s' < n"
  shows "n * t + s = n * t' + s' \<longleftrightarrow> t = t' \<and> s = s'"
proof -
  have "(n * t + s) div n = t" "(n * t' + s') div n = t'" using assms by simp_all
  then show ?thesis by auto
qed

lemma grid_bound: "s < (n::nat) \<Longrightarrow> tid < t \<Longrightarrow> n * tid + s < n * t"
  by (rule order_less_le_trans [OF _ element_end [of tid t n]]) simp_all

lemma region_index_inj:
  assumes "region_valid n t c r" and "region_valid n t c r'" and "region_index n r = region_index n r'"
  shows "r = r'"
proof -
  have bc: "i = i' \<and> q = q'" if "r = R_Bc i q" "r' = R_Bc i' q'" for i q i' q'
  proof -
    from that assms(3) have eq: "7 * i + fst (bregion_index q) = 7 * i' + fst (bregion_index q')"
      "snd (bregion_index q) = snd (bregion_index q')" by simp_all
    with grid_inj [of "fst (bregion_index q)" 7 "fst (bregion_index q')" i i'] bregion_index_bound show ?thesis
      by (simp add: prod_eq_iff bregion_index_inj [symmetric])
  qed
  have block: "fst (region_index n r) = fst (region_index n r')" using assms(3) by simp
  show ?thesis
  proof (cases r)
    case (R_Ring tid sid)
    with assms block grid_inj [of sid n] show ?thesis by (cases r') simp_all
  next
    case (R_LHead tid sid)
    with assms block grid_inj [of sid n] show ?thesis by (cases r') simp_all
  next
    case (R_RHead tid sid)
    with assms block grid_inj [of sid n] show ?thesis by (cases r') simp_all
  next
    case (R_Bc i q)
    with bc block show ?thesis by (cases r') simp_all
  qed (use assms block in \<open>cases r'; simp\<close>)+
qed

lemma concat_replicate_block:
  assumes "i < c" and "j < length bb"
  shows "concat (replicate c bb) ! (length bb * i + j) = bb ! j"
    "blocks_size (take (length bb * i + j) (concat (replicate c bb))) = i * blocks_size bb + blocks_size (take j bb)"
    "length bb * i + j < length (concat (replicate c bb))"
proof -
  have "replicate c bb = replicate i bb @ bb # replicate (c - Suc i) bb"
    using assms(1) by (metis Suc_diff_Suc add_diff_inverse_nat less_imp_not_less replicate_Suc replicate_add)
  then have split: "concat (replicate c bb) = concat (replicate i bb) @ bb @ concat (replicate (c - Suc i) bb)"
    by (metis concat.simps(2) concat_append)
  have len: "length (concat (replicate i bb)) = length bb * i" for i by (induction i) simp_all
  have sz: "blocks_size (concat (replicate i bb)) = i * blocks_size bb" for i by (induction i) simp_all
  show "concat (replicate c bb) ! (length bb * i + j) = bb ! j"
    unfolding split using assms(2) by (simp add: nth_append len)
  show "blocks_size (take (length bb * i + j) (concat (replicate c bb))) = i * blocks_size bb + blocks_size (take j bb)"
    unfolding split using assms(2) by (simp add: len sz)
  show "length bb * i + j < length (concat (replicate c bb))"
    unfolding split using assms(2) by (simp add: len)
qed

section \<open>The accessors address the blocks\<close>

lemma block_at_append: "block_at (xs @ ys) (length xs + j) k = blocks_size xs + block_at ys j k"
  by (simp add: block_at_def)

lemma block_at_concat:
  assumes "i < c" and "j < 7"
  shows "block_at (mem_blocks kvs buf rbf n t c) (5 + (7 * i + j)) k
      = blocks_size (mem_blocks kvs buf rbf n t 0) + i * blocks_size (bc_blocks n rbf) + block_at (bc_blocks n rbf) j k"
    "mem_blocks kvs buf rbf n t c ! (5 + (7 * i + j)) = bc_blocks n rbf ! j"
    "in_blocks (mem_blocks kvs buf rbf n t c) (5 + (7 * i + j)) k \<longleftrightarrow> k < snd (bc_blocks n rbf ! j)"
proof -
  have len: "length (bc_blocks n rbf) = 7" by (simp add: bc_blocks_def)
  note rep = concat_replicate_block [of i c j "bc_blocks n rbf", unfolded len, OF assms]
  define pre where "pre = mem_blocks kvs buf rbf n t 0"
  have pre: "length pre = 5" "mem_blocks kvs buf rbf n t c = pre @ concat (replicate c (bc_blocks n rbf))"
    by (simp_all add: pre_def mem_blocks_def)
  show nth: "mem_blocks kvs buf rbf n t c ! (5 + (7 * i + j)) = bc_blocks n rbf ! j"
    using rep(1) nth_append_length_plus [of pre "concat (replicate c (bc_blocks n rbf))"] by (simp add: pre)
  show "block_at (mem_blocks kvs buf rbf n t c) (5 + (7 * i + j)) k
      = blocks_size (mem_blocks kvs buf rbf n t 0) + i * blocks_size (bc_blocks n rbf) + block_at (bc_blocks n rbf) j k"
    using rep(1,2) block_at_append [of pre "concat (replicate c (bc_blocks n rbf))" "7 * i + j" k]
    unfolding pre pre_def [symmetric] by (simp add: block_at_def)
  show "in_blocks (mem_blocks kvs buf rbf n t c) (5 + (7 * i + j)) k \<longleftrightarrow> k < snd (bc_blocks n rbf ! j)"
    using rep(3) nth by (simp add: in_blocks_def) (simp add: pre)
qed

lemma bc_size: "b_mem_sz (bmem_new has_rdma rbf_mb n start) =
    of_nat (blocks_size (bc_blocks n (unat (if has_rdma then MiB2B rbf_mb else 0))))"
  by (simp add: bmem_new_def bc_blocks_def Let_def algebra_simps)

lemma bc_region:
  "bregion_at (bmem_init (bmem_new has_rdma rbf_mb n start) off) r =
     (let bb = bc_blocks n (unat (if has_rdma then MiB2B rbf_mb else 0)); (j, k) = bregion_index r
      in (off + of_nat (block_at bb j k), of_nat (fst (bb ! j))))"
  by (cases r)
    (simp_all add: bmem_init_def bmem_new_def Let_def bc_blocks_def block_at_def b_buffer_def b_master_ring_def
      b_slave_ring_def b_local_master_ring_head_def b_local_slave_ring_head_def b_remote_master_ring_head_def
      b_remote_slave_ring_head_def eval_nat_numeral algebra_simps)

lemma bc_init_nth:
  "i < length bs \<Longrightarrow> bc_init bs off ! i = bmem_init (bs ! i) (off + sum_list (map b_mem_sz (take i bs)))"
  by (induction bs off arbitrary: i rule: bc_init.induct) (auto simp: nth_Cons' take_Cons' algebra_simps split: nat.splits)

text \<open>Every accessor of a constructed memory addresses its block; the arithmetic is modulo the word size.\<close>

lemma mem_region:
  fixes has_rdma :: bool and memstore_gb buf_mb rbf_mb :: int
  assumes "region_valid n t (length starts) r"
  defines "m \<equiv> mem_new has_rdma memstore_gb buf_mb rbf_mb n t (map (bmem_new has_rdma rbf_mb n) starts)"
    and "bs \<equiv> mem_blocks (unat (GiB2B memstore_gb)) (unat (if has_rdma then MiB2B buf_mb else 0))
                (unat (if has_rdma then MiB2B rbf_mb else 0)) n t (length starts)"
  shows "region_at m r = (of_nat (case_prod (block_at bs) (region_index n r)), of_nat (fst (bs ! fst (region_index n r))))"
proof (cases "\<exists>i q. r = R_Bc i q")
  case False
  then show ?thesis
    by (cases r)
      (simp_all add: m_def bs_def mem_new_def Let_def mem_blocks_def block_at_def m_kvstore_def m_buffer_def
        m_ring_def m_local_ring_head_def m_remote_ring_head_def eval_nat_numeral algebra_simps)
next
  case True
  then obtain i q where r: "r = R_Bc i q" by blast
  let ?rbf = "unat (if has_rdma then MiB2B rbf_mb else 0)" and ?new = "bmem_new has_rdma rbf_mb n"
  have i: "i < length starts" using assms(1) r by simp
  define off where "off = (of_nat (blocks_size (mem_blocks (unat (GiB2B memstore_gb))
    (unat (if has_rdma then MiB2B buf_mb else 0)) ?rbf n t 0)) :: u64)"
  have bcs: "m_bc_mems m = bc_init (map ?new starts) off"
    by (simp add: m_def mem_new_def Let_def mem_blocks_def off_def algebra_simps)
  have "sum_list (map b_mem_sz (take i (map ?new starts))) = of_nat (i * blocks_size (bc_blocks n ?rbf))"
  proof -
    have "map b_mem_sz (take i (map ?new starts)) = replicate i (of_nat (blocks_size (bc_blocks n ?rbf)))"
      using i by (intro nth_equalityI) (simp_all add: bc_size)
    then show ?thesis by (simp add: sum_list_replicate)
  qed
  then have "region_at m r = bregion_at (bmem_init (?new (starts ! i))
      (off + of_nat (i * blocks_size (bc_blocks n ?rbf)))) q"
    using i by (simp add: r bcs bc_init_nth)
  moreover obtain j k where jk: "bregion_index q = (j, k)" by fastforce
  moreover have "j < 7" using bregion_index_bound [of q] jk by simp
  ultimately show ?thesis
    using block_at_concat [OF i \<open>j < 7\<close>]
    by (simp add: bc_region Let_def r bs_def off_def)
qed

lemma mem_size:
  "m_mem_sz (mem_new has_rdma memstore_gb buf_mb rbf_mb n t (map (bmem_new has_rdma rbf_mb n) starts)) =
     of_nat (blocks_size (mem_blocks (unat (GiB2B memstore_gb)) (unat (if has_rdma then MiB2B buf_mb else 0))
       (unat (if has_rdma then MiB2B rbf_mb else 0)) n t (length starts)))"
proof -
  let ?rbf = "unat (if has_rdma then MiB2B rbf_mb else 0)"
  have "fold (\<lambda>b sz. sz + b_mem_sz b) (map (bmem_new has_rdma rbf_mb n) starts) x
      = x + of_nat (length starts * blocks_size (bc_blocks n ?rbf))" for x
    by (induction starts arbitrary: x) (simp_all add: bc_size algebra_simps)
  moreover have "blocks_size (concat (replicate c bb)) = c * blocks_size bb" for c and bb :: blocks
    by (induction c) simp_all
  ultimately show ?thesis by (simp add: mem_new_def Let_def mem_blocks_def algebra_simps)
qed

lemma valid_in_blocks:
  assumes "region_valid n t c r"
  shows "case_prod (in_blocks (mem_blocks kvs buf rbf n t c)) (region_index n r)"
proof (cases "\<exists>i q. r = R_Bc i q")
  case False
  then show ?thesis
    using assms grid_bound by (cases r) (auto simp: in_blocks_def mem_blocks_def eval_nat_numeral)
next
  case True
  then obtain i q where r: "r = R_Bc i q" by blast
  obtain j k where jk: "bregion_index q = (j, k)" by fastforce
  then have "j < 7" using bregion_index_bound [of q] by simp
  moreover have "k < snd (bc_blocks n rbf ! j)"
    using assms r jk by (cases q) (auto simp: bc_blocks_def eval_nat_numeral)
  ultimately show ?thesis using block_at_concat(3) [of i c j] assms r jk by simp
qed

text \<open>
  C33: When the sizes asked for add up to less than \<open>2 ^ 64\<close> bytes, every region of the server's memory that
  the accessors name lies inside the allocation, and no two of them overlap: the graph store, the
  thread buffers, the rings and the heads, and those of the broadcast memories.
\<close>

theorem memory_regions_disjoint:
  assumes "blocks_size (mem_blocks (unat (GiB2B memstore_gb)) (unat (if has_rdma then MiB2B buf_mb else 0))
      (unat (if has_rdma then MiB2B rbf_mb else 0)) n t (length starts)) < 2 ^ 64"
    and "region_valid n t (length starts) r" and "region_valid n t (length starts) s"
    and "m = mem_new has_rdma memstore_gb buf_mb rbf_mb n t (map (bmem_new has_rdma rbf_mb n) starts)"
    and "region_at m r = (o1, z1)" and "region_at m s = (o2, z2)"
  shows "unat o1 + unat z1 \<le> unat (m_mem_sz m) \<and>
    (r \<noteq> s \<longrightarrow> unat o1 + unat z1 \<le> unat o2 \<or> unat o2 + unat z2 \<le> unat o1)"
proof -
  define bs where "bs = mem_blocks (unat (GiB2B memstore_gb)) (unat (if has_rdma then MiB2B buf_mb else 0))
      (unat (if has_rdma then MiB2B rbf_mb else 0)) n t (length starts)"
  have exact: "unat (of_nat k :: u64) = k" if "k \<le> blocks_size bs" for k
    using that assms(1) by (simp add: unat_of_nat bs_def)
  have at: "unat oo = block_at bs j k \<and> unat z = fst (bs ! j) \<and> in_blocks bs j k \<and>
      unat oo + unat z \<le> blocks_size bs"
    if "region_valid n t (length starts) q" "region_at m q = (oo, z)" "region_index n q = (j, k)" for q oo z j k
  proof -
    have inb: "in_blocks bs j k" using valid_in_blocks [OF that(1)] that(3) by (simp add: bs_def)
    have "oo = of_nat (block_at bs j k)" "z = of_nat (fst (bs ! j))"
      using mem_region [OF that(1), of has_rdma memstore_gb buf_mb rbf_mb] that(2,3) assms(4) by (simp_all add: bs_def)
    with exact block_inside [OF inb] inb show ?thesis by simp
  qed
  obtain j k j' k' where jk: "region_index n r = (j, k)" "region_index n s = (j', k')" by fastforce
  note r = at [OF assms(2,5) jk(1)] and s = at [OF assms(3,6) jk(2)]
  have "unat o1 + unat z1 \<le> unat (m_mem_sz m)"
    using r mem_size [of has_rdma memstore_gb buf_mb rbf_mb n t starts] exact [of "blocks_size bs"] assms(4)
    by (simp add: bs_def)
  moreover have "r \<noteq> s \<longrightarrow> unat o1 + unat z1 \<le> unat o2 \<or> unat o2 + unat z2 \<le> unat o1"
    using r s blocks_disjoint [of bs j k j' k'] region_index_inj [OF assms(2,3)] jk by auto
  ultimately show ?thesis by blast
qed

theorem memory_regions_disjoint_witness:
  "let m = mem_new True 1 1 1 2 2 [bmem_new True 1 2 0] in
     unat (m_ring m 1 0) + unat (m_rbf_sz m) \<le> unat (m_mem_sz m) \<and>
     (R_Ring 1 0 \<noteq> R_Bc 0 B_SRing \<longrightarrow>
        unat (m_ring m 1 0) + unat (m_rbf_sz m) \<le> unat (b_slave_ring (m_bc_mems m ! 0)) \<or>
        unat (b_slave_ring (m_bc_mems m ! 0)) + unat (b_rbf_sz (m_bc_mems m ! 0)) \<le> unat (m_ring m 1 0))"
proof -
  define m where "m = mem_new True 1 1 1 2 2 (map (bmem_new True 1 2) [0])"
  have "blocks_size (mem_blocks (unat (GiB2B 1)) (unat (if True then MiB2B 1 else 0))
      (unat (if True then MiB2B 1 else 0)) 2 2 (length [0 :: nat])) < 2 ^ 64"
    by (simp add: GiB2B_def MiB2B_def mem_blocks_def bc_blocks_def)
  from memory_regions_disjoint [OF this _ _ m_def, of "R_Ring 1 0" "R_Bc 0 B_SRing"]
  have "unat (m_ring m 1 0) + unat (m_rbf_sz m) \<le> unat (m_mem_sz m) \<and>
     (R_Ring 1 0 \<noteq> R_Bc 0 B_SRing \<longrightarrow>
        unat (m_ring m 1 0) + unat (m_rbf_sz m) \<le> unat (b_slave_ring (m_bc_mems m ! 0)) \<or>
        unat (b_slave_ring (m_bc_mems m ! 0)) + unat (b_rbf_sz (m_bc_mems m ! 0)) \<le> unat (m_ring m 1 0))"
    by simp
  then show ?thesis unfolding m_def list.map Let_def .
qed

end
