(* ===== verification/Verbs.thy ===== *)
theory Verbs
  imports ByteMemory
begin

text \<open>
  The queue pair of \<open>rdma_lib/rdmaio.hpp\<close> (class \<open>Qp\<close>): posting work requests, one at a time or as a list
  rung by one doorbell, and polling their completions. The verbs library and the card are a parameter:
  a record of two functions on the state of the card, and what their documentation promises is the
  predicate \<open>verbs_ok\<close>. Addresses are offsets in the registered memory of this server, remote
  addresses offsets in that of the other.
\<close>

section \<open>The verbs library\<close>

datatype wr_opcode = Rdma_Read | Rdma_Write | Cmp_And_Swp | Fetch_And_Add

record wr =
  wr_op :: wr_opcode
  wr_addr :: nat
  wr_len :: nat
  wr_signaled :: bool
  wr_remote :: nat
  wr_compare_add :: u64
  wr_swap :: u64

definition wr_rdma :: "wr_opcode \<Rightarrow> nat \<Rightarrow> nat \<Rightarrow> bool \<Rightarrow> nat \<Rightarrow> wr" where
  "wr_rdma op addr len sig off =
     \<lparr>wr_op = op, wr_addr = addr, wr_len = len, wr_signaled = sig, wr_remote = off, wr_compare_add = 0, wr_swap = 0\<rparr>"

text \<open>
  \<open>ibv_post_send\<close> on the queue pair of a server, with a list of requests; \<open>ibv_poll_cq\<close> for at most a
  number of completions, \<open>None\<close> for a negative result, otherwise the success of each; the registered
  memory.
\<close>

record 'n verbs =
  vb_post :: "nat \<Rightarrow> wr list \<Rightarrow> 'n \<Rightarrow> 'n \<times> int"
  vb_poll :: "nat \<Rightarrow> nat \<Rightarrow> 'n \<Rightarrow> 'n \<times> bool list option"
  vb_mem :: "'n \<Rightarrow> byte list"

section \<open>Queue pairs\<close>

definition MAX_DOORBELL_SIZE :: nat where "MAX_DOORBELL_SIZE = 128"
definition RC_MAX_SEND_SIZE :: nat where "RC_MAX_SEND_SIZE = 1024"
definition POLL_THRSHOLD :: nat where "POLL_THRSHOLD = 1024"

record rdma_req =
  rq_opcode :: wr_opcode
  rq_length :: nat
  rq_signaled :: bool
  rq_buf :: nat
  rq_remote_offset :: nat

text \<open>
  \<open>qp_pending_wrs\<close> is the used part of the array \<open>sr\<close>. Its length \<open>current_idx\<close> has no initialiser in the
  class; a new queue pair of the model starts with 0.
\<close>

record qp =
  qp_pendings :: nat
  qp_pending_wrs :: "wr list"

definition qp_new :: qp where
  "qp_new = \<lparr>qp_pendings = 0, qp_pending_wrs = []\<rparr>"

text \<open>The card and the queue pairs of one thread, one for every server.\<close>

record 'n dev =
  dv_net :: 'n
  dv_qps :: "qp list"

definition qp_at :: "'n dev \<Rightarrow> nat \<Rightarrow> qp result" where
  "qp_at d s = (if s < length (dv_qps d) then Inr (dv_qps d ! s) else Inl Assert_Failed)"

definition qp_update :: "nat \<Rightarrow> (qp \<Rightarrow> qp) \<Rightarrow> 'n dev \<Rightarrow> 'n dev" where
  "qp_update s f d = d\<lparr>dv_qps := (dv_qps d)[s := f (dv_qps d ! s)]\<rparr>"

subsection \<open>Polling\<close>

text \<open>\<open>do poll_result = ibv_poll_cq (cq, 1, &wc); while (poll_result == 0);\<close>\<close>

partial_function (option) poll_one :: "'n verbs \<Rightarrow> nat \<Rightarrow> 'n \<Rightarrow> ('n \<times> bool option) option" where
  "poll_one vb s n = (case vb_poll vb s 1 n of
     (n', None) \<Rightarrow> Some (n', None)
   | (n', Some []) \<Rightarrow> poll_one vb s n'
   | (n', Some (b # bs)) \<Rightarrow> Some (n', Some b))"

partial_function (option) poll_many :: "'n verbs \<Rightarrow> nat \<Rightarrow> nat \<Rightarrow> bool list \<Rightarrow> 'n \<Rightarrow> ('n \<times> bool list option) option" where
  "poll_many vb s k acc n = (case vb_poll vb s (k - length acc) n of
     (n', None) \<Rightarrow> Some (n', None)
   | (n', Some bs) \<Rightarrow> if length (acc @ bs) < k then poll_many vb s k (acc @ bs) n' else Some (n', Some (acc @ bs)))"

text \<open>A loop that never ends has no result; the model then stops with \<open>Out_Of_Fuel\<close>.\<close>

definition poll_completion :: "'n verbs \<Rightarrow> nat \<Rightarrow> 'n dev \<Rightarrow> 'n dev result" where
  "poll_completion vb s d =
     rbind (qp_at d s) (\<lambda>q.
     let d = qp_update s (\<lambda>q. q\<lparr>qp_pendings := 0\<rparr>) d in
     case poll_one vb s (dv_net d) of
       None \<Rightarrow> Inl Out_Of_Fuel
     | Some (n, Some True) \<Rightarrow> Inr (d\<lparr>dv_net := n\<rparr>)
     | Some (n, _) \<Rightarrow> Inl Assert_Failed)"

definition poll_completions :: "'n verbs \<Rightarrow> nat \<Rightarrow> nat \<Rightarrow> 'n dev \<Rightarrow> 'n dev result" where
  "poll_completions vb s cq_num d =
     rbind (qp_at d s) (\<lambda>q.
     rbind (require (cq_num \<le> RC_MAX_SEND_SIZE) Out_Of_Bounds) (\<lambda>_.
     let d = qp_update s (\<lambda>q. q\<lparr>qp_pendings := 0\<rparr>) d in
     case poll_many vb s cq_num [] (dv_net d) of
       None \<Rightarrow> Inl Out_Of_Fuel
     | Some (n, None) \<Rightarrow> Inl Assert_Failed
     | Some (n, Some bs) \<Rightarrow> if list_all id bs then Inr (d\<lparr>dv_net := n\<rparr>) else Inl Assert_Failed))"

text \<open>\<open>try_poll\<close>: whether a completion was there.\<close>

definition try_poll :: "'n verbs \<Rightarrow> nat \<Rightarrow> 'n dev \<Rightarrow> ('n dev \<times> bool) result" where
  "try_poll vb s d =
     rbind (qp_at d s) (\<lambda>q. case vb_poll vb s 1 (dv_net d) of
       (n, None) \<Rightarrow> Inl Assert_Failed
     | (n, Some []) \<Rightarrow> Inr (d\<lparr>dv_net := n\<rparr>, False)
     | (n, Some (b # bs)) \<Rightarrow> if b then Inr (d\<lparr>dv_net := n\<rparr>, True) else Inl Assert_Failed)"

definition first_send :: "'n dev \<Rightarrow> nat \<Rightarrow> bool result" where
  "first_send d s = rbind (qp_at d s) (\<lambda>q. Inr (qp_pendings q = 0))"

text \<open>Both branches of \<open>need_poll\<close> count the request.\<close>

definition need_poll :: "nat \<Rightarrow> 'n dev \<Rightarrow> ('n dev \<times> bool) result" where
  "need_poll s d =
     rbind (qp_at d s) (\<lambda>q.
     Inr (qp_update s (\<lambda>q. q\<lparr>qp_pendings := qp_pendings q + 1\<rparr>) d, POLL_THRSHOLD \<le> qp_pendings q))"

subsection \<open>Posting\<close>

definition post_wrs :: "'n verbs \<Rightarrow> nat \<Rightarrow> wr list \<Rightarrow> 'n dev \<Rightarrow> 'n dev \<times> int" where
  "post_wrs vb s ws d = (let (n, rc) = vb_post vb s ws (dv_net d) in (d\<lparr>dv_net := n\<rparr>, rc))"

text \<open>The result code is returned, and no caller in the program looks at it.\<close>

definition rc_post_send ::
    "'n verbs \<Rightarrow> nat \<Rightarrow> wr_opcode \<Rightarrow> nat \<Rightarrow> nat \<Rightarrow> nat \<Rightarrow> bool \<Rightarrow> 'n dev \<Rightarrow> ('n dev \<times> int) result" where
  "rc_post_send vb s op local_buf len off sig d =
     rbind (qp_at d s) (\<lambda>q. Inr (post_wrs vb s [wr_rdma op local_buf len sig off] d))"

text \<open>The requests of a doorbell: \<open>ibv_post_send\<close> gets the first, which links to the others.\<close>

definition wr_of_req :: "rdma_req \<Rightarrow> bool \<Rightarrow> wr" where
  "wr_of_req r sig = wr_rdma (rq_opcode r) (rq_buf r) (rq_length r) sig (rq_remote_offset r)"

definition ring_doorbell :: "'n verbs \<Rightarrow> nat \<Rightarrow> wr list \<Rightarrow> 'n dev \<Rightarrow> 'n dev result" where
  "ring_doorbell vb s ws d = (case post_wrs vb s ws d of (d, rc) \<Rightarrow> if rc = 0 then Inr d else Inl Assert_Failed)"

definition rc_post_doorbell :: "'n verbs \<Rightarrow> nat \<Rightarrow> rdma_req list \<Rightarrow> 'n dev \<Rightarrow> 'n dev result" where
  "rc_post_doorbell vb s reqs d =
     rbind (require (length reqs \<le> MAX_DOORBELL_SIZE) Assert_Failed) (\<lambda>_.
     rbind (rfold (\<lambda>r (d, ws).
        rbind (first_send d s) (\<lambda>first.
        let w = wr_of_req r (rq_signaled r \<or> first) in
        rbind (need_poll s d) (\<lambda>(d, need).
        rbind (if need then poll_completion vb s d else Inr d) (\<lambda>d.
        Inr (d, ws @ [w]))))) reqs (d, [])) (\<lambda>(d, ws).
     ring_doorbell vb s ws d))"

text \<open>With \<open>use_unsignal\<close> the last request of the list is the only signaled one.\<close>

definition rc_post_doorbell_unsignal :: "'n verbs \<Rightarrow> nat \<Rightarrow> rdma_req list \<Rightarrow> bool \<Rightarrow> 'n dev \<Rightarrow> 'n dev result" where
  "rc_post_doorbell_unsignal vb s reqs use_unsignal d =
     rbind (qp_at d s) (\<lambda>q.
     rbind (require (length reqs \<le> MAX_DOORBELL_SIZE) Assert_Failed) (\<lambda>_.
     ring_doorbell vb s (map (\<lambda>i. wr_of_req (reqs ! i)
        (rq_signaled (reqs ! i) \<or> use_unsignal \<and> i = length reqs - 1)) [0..<length reqs]) d))"

definition rc_post_compare_and_swap ::
    "'n verbs \<Rightarrow> nat \<Rightarrow> nat \<Rightarrow> nat \<Rightarrow> u64 \<Rightarrow> u64 \<Rightarrow> bool \<Rightarrow> 'n dev \<Rightarrow> 'n dev result" where
  "rc_post_compare_and_swap vb s local_buf off compare_value swap_value sig d =
     rbind (qp_at d s) (\<lambda>q. ring_doorbell vb s
       [\<lparr>wr_op = Cmp_And_Swp, wr_addr = local_buf, wr_len = 8, wr_signaled = sig, wr_remote = off,
         wr_compare_add = compare_value, wr_swap = swap_value\<rparr>] d)"

definition rc_post_fetch_and_add ::
    "'n verbs \<Rightarrow> nat \<Rightarrow> nat \<Rightarrow> nat \<Rightarrow> u64 \<Rightarrow> bool \<Rightarrow> 'n dev \<Rightarrow> 'n dev result" where
  "rc_post_fetch_and_add vb s local_buf off add_value sig d =
     rbind (qp_at d s) (\<lambda>q. ring_doorbell vb s
       [\<lparr>wr_op = Fetch_And_Add, wr_addr = local_buf, wr_len = 8, wr_signaled = sig, wr_remote = off,
         wr_compare_add = add_value, wr_swap = 0\<rparr>] d)"

text \<open>Requests gathered in the array of the queue pair, and rung together.\<close>

definition rc_post_pending :: "nat \<Rightarrow> wr_opcode \<Rightarrow> nat \<Rightarrow> nat \<Rightarrow> nat \<Rightarrow> bool \<Rightarrow> 'n dev \<Rightarrow> 'n dev result" where
  "rc_post_pending s op local_buf len off sig d =
     rbind (qp_at d s) (\<lambda>q.
     if length (qp_pending_wrs q) < MAX_DOORBELL_SIZE
     then Inr (qp_update s (\<lambda>q. q\<lparr>qp_pending_wrs := qp_pending_wrs q @ [wr_rdma op local_buf len sig off]\<rparr>) d)
     else Inl Out_Of_Bounds)"

definition rc_flush_pending :: "'n verbs \<Rightarrow> nat \<Rightarrow> 'n dev \<Rightarrow> ('n dev \<times> bool) result" where
  "rc_flush_pending vb s d =
     rbind (qp_at d s) (\<lambda>q. case qp_pending_wrs q of
       [] \<Rightarrow> Inr (d, False)
     | ws \<Rightarrow> let ws = butlast ws @ [(last ws)\<lparr>wr_signaled := True\<rparr>];
               d = fst (post_wrs vb s ws d)
             in Inr (qp_update s (\<lambda>q. q\<lparr>qp_pending_wrs := []\<rparr>) d, True))"

section \<open>What the library promises\<close>

text \<open>
  The requests posted and not yet known to be complete, per queue pair and in order. All of them are
  reads here, inside both memories, and no two of them write the same bytes.
\<close>

type_synonym posted = "nat \<Rightarrow> wr list"

definition wr_disjoint :: "wr \<Rightarrow> wr \<Rightarrow> bool" where
  "wr_disjoint v w \<longleftrightarrow> wr_addr v + wr_len v \<le> wr_addr w \<or> wr_addr w + wr_len w \<le> wr_addr v"

definition wr_fits :: "byte list \<Rightarrow> nat \<Rightarrow> wr \<Rightarrow> bool" where
  "wr_fits rem sz w \<longleftrightarrow> wr_op w = Rdma_Read \<and> wr_addr w + wr_len w \<le> sz \<and> wr_remote w + wr_len w \<le> length rem"

definition posted_ok :: "(nat \<Rightarrow> byte list) \<Rightarrow> nat \<Rightarrow> posted \<Rightarrow> bool" where
  "posted_ok remote sz out \<longleftrightarrow>
     (\<forall>s. (\<forall>w \<in> set (out s). wr_fits (remote s) sz w) \<and> sorted_wrt wr_disjoint (out s)) \<and>
     (\<forall>s s'. s \<noteq> s' \<longrightarrow> (\<forall>v \<in> set (out s). \<forall>w \<in> set (out s'). wr_disjoint v w))"

text \<open>The bytes that posted requests may write, and memories that agree elsewhere.\<close>

definition posted_bytes :: "posted \<Rightarrow> nat set" where
  "posted_bytes out = {i. \<exists>s. \<exists>w \<in> set (out s). wr_addr w \<le> i \<and> i < wr_addr w + wr_len w}"

definition same_outside :: "nat set \<Rightarrow> byte list \<Rightarrow> byte list \<Rightarrow> bool" where
  "same_outside A m m' \<longleftrightarrow> length m' = length m \<and> (\<forall>i < length m. i \<notin> A \<longrightarrow> m' ! i = m ! i)"

definition wr_done :: "(nat \<Rightarrow> byte list) \<Rightarrow> byte list \<Rightarrow> nat \<Rightarrow> wr \<Rightarrow> bool" where
  "wr_done remote m s w \<longleftrightarrow> slice m (wr_addr w) (wr_len w) = slice (remote s) (wr_remote w) (wr_len w)"

text \<open>
  A send queue with room accepts a list. Polling a queue pair with a signaled request outstanding
  returns completions, in order, of at most as many signaled requests as asked for, successful because
  the connection works; a completion means that its request and the earlier ones are carried out. An
  empty poll brings the next completion nearer. Until then, the card may have written any part of the
  destinations of outstanding requests, and nothing else.
\<close>

definition post_ok :: "'n verbs \<Rightarrow> ('n \<Rightarrow> posted) \<Rightarrow> bool" where
  "post_ok vb out \<longleftrightarrow> (\<forall>n s ws. length (out n s) + length ws \<le> RC_MAX_SEND_SIZE \<longrightarrow>
     (\<exists>n'. vb_post vb s ws n = (n', 0) \<and> out n' = (out n)(s := out n s @ ws) \<and>
        same_outside (posted_bytes (out n')) (vb_mem vb n) (vb_mem vb n')))"

definition poll_ok :: "'n verbs \<Rightarrow> (nat \<Rightarrow> byte list) \<Rightarrow> ('n \<Rightarrow> posted) \<Rightarrow> ('n \<Rightarrow> nat) \<Rightarrow> bool" where
  "poll_ok vb remote out delay \<longleftrightarrow> (\<forall>n s k. posted_ok remote (length (vb_mem vb n)) (out n) \<and> 0 < k \<and>
       (\<exists>w \<in> set (out n s). wr_signaled w) \<longrightarrow>
     (\<exists>n' bs ws rest. vb_poll vb s k n = (n', Some bs) \<and> length bs \<le> k \<and> list_all id bs \<and>
        out n s = ws @ rest \<and> out n' = (out n)(s := rest) \<and>
        length (filter wr_signaled ws) = length bs \<and> (ws \<noteq> [] \<longrightarrow> wr_signaled (last ws)) \<and>
        same_outside (posted_bytes (out n)) (vb_mem vb n) (vb_mem vb n') \<and>
        (\<forall>w \<in> set ws. wr_done remote (vb_mem vb n') s w) \<and> (bs = [] \<longrightarrow> delay n' < delay n)))"

definition verbs_ok :: "'n verbs \<Rightarrow> (nat \<Rightarrow> byte list) \<Rightarrow> ('n \<Rightarrow> posted) \<Rightarrow> ('n \<Rightarrow> nat) \<Rightarrow> bool" where
  "verbs_ok vb remote out delay \<longleftrightarrow> post_ok vb out \<and> poll_ok vb remote out delay"

lemma same_outside_refl [simp]: "same_outside A m m"
  by (simp add: same_outside_def)

lemma same_outside_trans: "same_outside A m m' \<Longrightarrow> same_outside B m' m'' \<Longrightarrow> B \<subseteq> A \<Longrightarrow> same_outside A m m''"
  by (auto simp: same_outside_def)

lemma same_outside_mono: "same_outside A m m' \<Longrightarrow> A \<subseteq> B \<Longrightarrow> same_outside B m m'"
  by (auto simp: same_outside_def)

lemma same_outside_slice:
  assumes "same_outside A m m'" and "\<And>i. off \<le> i \<Longrightarrow> i < off + n \<Longrightarrow> i \<notin> A"
  shows "slice m' off n = slice m off n"
proof (rule nth_equalityI)
  show "length (slice m' off n) = length (slice m off n)" using assms(1) by (simp add: slice_def same_outside_def)
  fix i assume "i < length (slice m' off n)"
  then have "off + i < length m" "i < n" "length m' = length m" using assms(1) by (auto simp: slice_def same_outside_def)
  then show "slice m' off n ! i = slice m off n ! i" using assms by (simp add: slice_def same_outside_def)
qed

lemma wr_disjoint_sym: "wr_disjoint v w \<longleftrightarrow> wr_disjoint w v"
  by (auto simp: wr_disjoint_def)

lemma posted_bytes_mono: "(\<And>s. set (out s) \<subseteq> set (out' s)) \<Longrightarrow> posted_bytes out \<subseteq> posted_bytes out'"
  by (fastforce simp: posted_bytes_def)

lemma posted_bytes_pop: "out s = ws @ rest \<Longrightarrow> posted_bytes (out(s := rest)) \<subseteq> posted_bytes out"
  by (rule posted_bytes_mono) simp

text \<open>Popping requests keeps the others in order, and off the bytes of those popped.\<close>

lemma posted_ok_pop:
  assumes "posted_ok remote sz out" and "out s = ws @ rest"
  shows "posted_ok remote sz (out(s := rest))"
    and "w \<in> set ws \<Longrightarrow> wr_addr w \<le> i \<Longrightarrow> i < wr_addr w + wr_len w \<Longrightarrow> i \<notin> posted_bytes (out(s := rest))"
proof -
  have own: "\<forall>w \<in> set ws \<union> set rest. wr_fits (remote s) sz w" "sorted_wrt wr_disjoint ws" "sorted_wrt wr_disjoint rest"
    "\<forall>v \<in> set ws. \<forall>w \<in> set rest. wr_disjoint v w"
    using assms(1) [unfolded posted_ok_def, THEN conjunct1, THEN spec, of s] assms(2)
    by (auto simp: sorted_wrt_append)
  have other: "\<forall>v \<in> set (out t). \<forall>w \<in> set ws \<union> set rest. wr_disjoint v w" if "t \<noteq> s" for t
    using assms that by (auto simp: posted_ok_def)
  show "posted_ok remote sz (out(s := rest))"
    unfolding posted_ok_def
  proof (intro conjI allI impI ballI)
    fix t v assume "v \<in> set ((out(s := rest)) t)"
    then show "wr_fits (remote t) sz v" using assms(1) own(1) by (auto simp: posted_ok_def split: if_splits)
  next
    fix t show "sorted_wrt wr_disjoint ((out(s := rest)) t)" using assms(1) own(3) by (auto simp: posted_ok_def)
  next
    fix t t' v w assume t: "t \<noteq> t'" and vw: "v \<in> set ((out(s := rest)) t)" "w \<in> set ((out(s := rest)) t')"
    consider "t = s" | "t' = s" | "t \<noteq> s" "t' \<noteq> s" by blast
    then show "wr_disjoint v w"
    proof cases
      case 1
      then show ?thesis using t vw other [of t'] wr_disjoint_sym [of v w] by auto
    next
      case 2
      then show ?thesis using t vw other [of t] by auto
    qed (use t vw assms(1) in \<open>auto simp: posted_ok_def\<close>)
  qed
  show "i \<notin> posted_bytes (out(s := rest))" if "w \<in> set ws" "wr_addr w \<le> i" "i < wr_addr w + wr_len w" for w i
  proof
    assume "i \<in> posted_bytes (out(s := rest))"
    then obtain t x where x: "x \<in> set ((out(s := rest)) t)" "wr_addr x \<le> i" "i < wr_addr x + wr_len x"
      unfolding posted_bytes_def by blast
    have "wr_disjoint w x"
    proof (cases "t = s")
      case True
      then show ?thesis using x(1) that(1) own(4) by simp
    next
      case False
      then show ?thesis using x(1) that(1) other [of t] wr_disjoint_sym [of w x] by simp
    qed
    with that x show False by (simp add: wr_disjoint_def)
  qed
qed

lemma wr_done_kept:
  assumes "wr_done remote m s w" and "same_outside A m m'"
    and "\<And>i. wr_addr w \<le> i \<Longrightarrow> i < wr_addr w + wr_len w \<Longrightarrow> i \<notin> A"
  shows "wr_done remote m' s w"
  using assms(1) same_outside_slice [OF assms(2,3)] by (simp add: wr_done_def)

section \<open>Waiting for completions\<close>

lemma poll_okD:
  assumes "poll_ok vb remote out delay" and "posted_ok remote (length (vb_mem vb n)) (out n)"
    and "0 < k" and "\<exists>w \<in> set (out n s). wr_signaled w"
  shows "\<exists>n' bs ws rest. vb_poll vb s k n = (n', Some bs) \<and> length bs \<le> k \<and> list_all id bs \<and>
        out n s = ws @ rest \<and> out n' = (out n)(s := rest) \<and>
        length (filter wr_signaled ws) = length bs \<and> (ws \<noteq> [] \<longrightarrow> wr_signaled (last ws)) \<and>
        same_outside (posted_bytes (out n)) (vb_mem vb n) (vb_mem vb n') \<and>
        (\<forall>w \<in> set ws. wr_done remote (vb_mem vb n') s w) \<and> (bs = [] \<longrightarrow> delay n' < delay n)"
  by (rule assms(1) [unfolded poll_ok_def, rule_format]) (use assms(2-4) in simp)

text \<open>Polling for one completion ends, and carries out the requests up to the first signaled one.\<close>

lemma poll_one_ends:
  assumes "poll_ok vb remote out delay"
  shows "posted_ok remote (length (vb_mem vb n)) (out n) \<Longrightarrow> out n s = ws @ w # rest \<Longrightarrow>
    \<forall>v \<in> set ws. \<not> wr_signaled v \<Longrightarrow> wr_signaled w \<Longrightarrow>
    \<exists>n'. poll_one vb s n = Some (n', Some True) \<and> out n' = (out n)(s := rest) \<and>
      same_outside (posted_bytes (out n)) (vb_mem vb n) (vb_mem vb n') \<and>
      (\<forall>v \<in> set (ws @ [w]). wr_done remote (vb_mem vb n') s v)"
proof (induction "delay n" arbitrary: n rule: less_induct)
  case less
  have "\<exists>v \<in> set (out n s). wr_signaled v" using less.prems by auto
  with assms less.prems(1) obtain n' bs us vs where p: "vb_poll vb s 1 n = (n', Some bs)" "length bs \<le> 1"
    "list_all id bs" "out n s = us @ vs" "out n' = (out n)(s := vs)"
    "length (filter wr_signaled us) = length bs" "us \<noteq> [] \<longrightarrow> wr_signaled (last us)"
    "same_outside (posted_bytes (out n)) (vb_mem vb n) (vb_mem vb n')"
    "\<forall>v \<in> set us. wr_done remote (vb_mem vb n') s v" "bs = [] \<longrightarrow> delay n' < delay n"
    using poll_okD [OF assms less.prems(1), of 1 s] by auto
  show ?case
  proof (cases bs)
    case Nil
    then have "us = []" using p(6,7) by (cases us rule: rev_cases) auto
    with p(4,5) have out: "out n' = out n" by auto
    have len: "length (vb_mem vb n') = length (vb_mem vb n)" using p(8) by (simp add: same_outside_def)
    from less.hyps [of n'] less.prems p(10) Nil obtain n'' where n'': "poll_one vb s n' = Some (n'', Some True)"
      "out n'' = (out n)(s := rest)" "same_outside (posted_bytes (out n)) (vb_mem vb n') (vb_mem vb n'')"
      "\<forall>v \<in> set (ws @ [w]). wr_done remote (vb_mem vb n'') s v" by (auto simp: out len)
    with p(1,8) Nil show ?thesis
      by (subst poll_one.simps) (auto intro: same_outside_trans)
  next
    case (Cons b bs')
    then have b: "bs = [True]" using p(2,3) by simp
    with p(6,7) obtain us' u where us: "us = us' @ [u]" "wr_signaled u" "\<forall>v \<in> set us'. \<not> wr_signaled v"
      by (cases us rule: rev_cases) (auto simp: filter_empty_conv)
    have "us = ws @ [w] \<and> vs = rest"
    proof -
      have eq: "us' @ u # vs = ws @ w # rest" using p(4) us less.prems(2) by simp
      have "takeWhile (\<lambda>v. \<not> wr_signaled v) (us' @ u # vs) = us'" "takeWhile (\<lambda>v. \<not> wr_signaled v) (ws @ w # rest) = ws"
        using us less.prems(3,4) by (auto simp: takeWhile_append2)
      with eq us show ?thesis by simp
    qed
    with p b show ?thesis by (subst poll_one.simps) simp
  qed
qed

text \<open>Polling for \<open>k\<close> completions likewise, up to the \<open>k\<close>-th signaled one.\<close>

lemma poll_many_ends:
  assumes "poll_ok vb remote out delay"
  shows "posted_ok remote (length (vb_mem vb n)) (out n) \<Longrightarrow> out n s = ws @ rest \<Longrightarrow> ws \<noteq> [] \<Longrightarrow> wr_signaled (last ws) \<Longrightarrow>
    length (filter wr_signaled ws) + length acc = k \<Longrightarrow> list_all id acc \<Longrightarrow>
    \<exists>n' bs. poll_many vb s k acc n = Some (n', Some bs) \<and> list_all id bs \<and> out n' = (out n)(s := rest) \<and>
      same_outside (posted_bytes (out n)) (vb_mem vb n) (vb_mem vb n') \<and>
      (\<forall>v \<in> set ws. wr_done remote (vb_mem vb n') s v)"
proof (induction "(length ws, delay n)" arbitrary: n ws acc rule: less_induct)
  case less
  have "\<exists>v \<in> set (out n s). wr_signaled v" using less.prems by auto
  moreover have "0 < k - length acc"
  proof -
    have "last ws \<in> set (filter wr_signaled ws)" using less.prems(3,4) by simp
    then have "0 < length (filter wr_signaled ws)" by (rule length_pos_if_in_set)
    then show ?thesis using less.prems(5) by (simp del: length_greater_0_conv)
  qed
  ultimately obtain n' bs us vs where p: "vb_poll vb s (k - length acc) n = (n', Some bs)" "length bs \<le> k - length acc"
    "list_all id bs" "out n s = us @ vs" "out n' = (out n)(s := vs)"
    "length (filter wr_signaled us) = length bs" "us \<noteq> [] \<longrightarrow> wr_signaled (last us)"
    "same_outside (posted_bytes (out n)) (vb_mem vb n) (vb_mem vb n')"
    "\<forall>v \<in> set us. wr_done remote (vb_mem vb n') s v" "bs = [] \<longrightarrow> delay n' < delay n"
    using poll_okD [OF assms less.prems(1), of "k - length acc" s] by auto
  have k: "length (filter wr_signaled us) \<le> length (filter wr_signaled ws)" using p(2,6) less.prems(5) by simp
  obtain ws' where ws': "ws = us @ ws'" "vs = ws' @ rest"
  proof -
    from p(4) less.prems(2) have "us @ vs = ws @ rest" by simp
    then consider xs where "ws = us @ xs" "vs = xs @ rest" | xs where "us = ws @ xs" "rest = xs @ vs"
      by (auto simp: append_eq_append_conv2)
    then show thesis
    proof cases
      case (2 xs)
      then have "xs = []" using k p(7) by (cases xs rule: rev_cases) auto
      with 2 that show thesis by simp
    qed (use that in blast)
  qed
  have len: "length (vb_mem vb n') = length (vb_mem vb n)" using p(8) by (simp add: same_outside_def)
  have ok': "posted_ok remote (length (vb_mem vb n')) (out n')"
    using posted_ok_pop(1) [OF less.prems(1) p(4)] by (simp add: len p(5))
  show ?case
  proof (cases "ws' = []")
    case True
    then have "length (acc @ bs) = k" using ws' p(6) less.prems(5) by simp
    with True ws' p less.prems(6) show ?thesis
      by (subst poll_many.simps) (auto intro!: exI [of _ n'] exI [of _ "acc @ bs"])
  next
    case False
    have sig: "wr_signaled (last ws')" using False less.prems(4) ws' by simp
    then have "0 < length (filter wr_signaled ws')" using False by (auto simp: filter_empty_conv intro: last_in_set)
    then have lt: "length (acc @ bs) < k" using ws' p(6) less.prems(5) by (simp del: length_greater_0_conv)
    have "((length ws', delay n'), length ws, delay n) \<in> less_than <*lex*> less_than"
      using ws' p(6,7,10) by (cases us) auto
    then have "(length ws', delay n') < (length ws, delay n)" by (auto simp: less_prod_def')
    from less.hyps [OF this ok', of "acc @ bs"] ws' p(3,5,6) False sig less.prems(5,6)
    obtain n'' bs' where n'': "poll_many vb s k (acc @ bs) n' = Some (n'', Some bs')" "list_all id bs'"
      "out n'' = (out n)(s := rest)" "same_outside (posted_bytes (out n')) (vb_mem vb n') (vb_mem vb n'')"
      "\<forall>v \<in> set ws'. wr_done remote (vb_mem vb n'') s v" by auto
    have "wr_done remote (vb_mem vb n'') s v" if "v \<in> set us" for v
    proof (rule wr_done_kept [OF _ n''(4)])
      show "wr_done remote (vb_mem vb n') s v" using p(9) that by blast
      show "i \<notin> posted_bytes (out n')" if "wr_addr v \<le> i" "i < wr_addr v + wr_len v" for i
        using posted_ok_pop(2) [OF less.prems(1) p(4) \<open>v \<in> set us\<close> that] p(5) by simp
    qed
    moreover have "same_outside (posted_bytes (out n)) (vb_mem vb n) (vb_mem vb n'')"
      using p(8) n''(4) posted_bytes_pop [of "out n" s us vs, OF p(4)] p(5) by (auto intro: same_outside_trans)
    ultimately show ?thesis
      using p(1) n'' lt ws'(1) by (subst poll_many.simps) auto
  qed
qed

section \<open>The two polls on a device\<close>

text \<open>
  A device of \<open>N\<close> connected queue pairs whose outstanding requests are in order, without selectively
  signaled writes to sweep.
\<close>

definition dev_idle :: "'n dev \<Rightarrow> bool" where
  "dev_idle d \<longleftrightarrow> (\<forall>q \<in> set (dv_qps d). qp_pendings q = 0)"

definition dev_ok :: "'n verbs \<Rightarrow> (nat \<Rightarrow> byte list) \<Rightarrow> ('n \<Rightarrow> posted) \<Rightarrow> ('n \<Rightarrow> nat) \<Rightarrow> nat \<Rightarrow> 'n dev \<Rightarrow> bool" where
  "dev_ok vb remote out delay N d \<longleftrightarrow> verbs_ok vb remote out delay \<and> length (dv_qps d) = N \<and> dev_idle d \<and>
     posted_ok remote (length (vb_mem vb (dv_net d))) (out (dv_net d))"

lemma qp_at_ok [simp]: "s < length (dv_qps d) \<Longrightarrow> qp_at d s = Inr (dv_qps d ! s)"
  by (simp add: qp_at_def)

lemma qp_update_sel [simp]:
  "dv_net (qp_update s f d) = dv_net d" "length (dv_qps (qp_update s f d)) = length (dv_qps d)"
  by (simp_all add: qp_update_def)

lemma dev_idle_swept: "dev_idle d \<Longrightarrow> dev_idle (qp_update s (\<lambda>q. q\<lparr>qp_pendings := 0\<rparr>) d \<lparr>dv_net := n\<rparr>)"
  using set_update_subset_insert [of "dv_qps d" s] by (fastforce simp: dev_idle_def qp_update_def)

text \<open>What a step that carries out the first requests \<open>ws\<close> of queue pair \<open>s\<close> leaves.\<close>

definition popped ::
    "'n verbs \<Rightarrow> (nat \<Rightarrow> byte list) \<Rightarrow> ('n \<Rightarrow> posted) \<Rightarrow> nat \<Rightarrow> wr list \<Rightarrow> 'n dev \<Rightarrow> 'n dev \<Rightarrow> bool" where
  "popped vb remote out s ws d d' \<longleftrightarrow> length (dv_qps d') = length (dv_qps d) \<and> (dev_idle d \<longrightarrow> dev_idle d') \<and>
     out (dv_net d) s = ws @ out (dv_net d') s \<and> (\<forall>t. t \<noteq> s \<longrightarrow> out (dv_net d') t = out (dv_net d) t) \<and>
     same_outside (posted_bytes (out (dv_net d))) (vb_mem vb (dv_net d)) (vb_mem vb (dv_net d')) \<and>
     (\<forall>w \<in> set ws. wr_done remote (vb_mem vb (dv_net d')) s w)"

lemma popped_ok:
  assumes "dev_ok vb remote out delay N d" and "popped vb remote out s ws d d'"
  shows "dev_ok vb remote out delay N d'"
proof -
  have "out (dv_net d') = (out (dv_net d))(s := out (dv_net d') s)" using assms(2) by (auto simp: popped_def)
  moreover have "posted_ok remote (length (vb_mem vb (dv_net d))) ((out (dv_net d))(s := out (dv_net d') s))"
    using assms by (intro posted_ok_pop(1) [of remote _ _ s ws]) (simp_all add: popped_def dev_ok_def)
  ultimately show ?thesis using assms by (simp add: popped_def dev_ok_def same_outside_def)
qed

lemma poll_completion_ok:
  assumes "dev_ok vb remote out delay N d" and "s < N"
    and "out (dv_net d) s = ws @ w # rest" and "\<forall>v \<in> set ws. \<not> wr_signaled v" and "wr_signaled w"
  shows "\<exists>d'. poll_completion vb s d = Inr d' \<and> popped vb remote out s (ws @ [w]) d d'"
proof -
  have "poll_ok vb remote out delay" "length (dv_qps d) = N"
    "posted_ok remote (length (vb_mem vb (dv_net d))) (out (dv_net d))"
    using assms(1) by (auto simp: dev_ok_def verbs_ok_def)
  from poll_one_ends [OF this(1,3) assms(3-5)] assms(2,3) this(2) show ?thesis
    by (auto simp: poll_completion_def Let_def popped_def intro: dev_idle_swept)
qed

lemma poll_completions_ok:
  assumes "dev_ok vb remote out delay N d" and "s < N" and "out (dv_net d) s = ws @ rest" and "ws \<noteq> []"
    and "wr_signaled (last ws)" and "length (filter wr_signaled ws) = k" and "k \<le> RC_MAX_SEND_SIZE"
  shows "\<exists>d'. poll_completions vb s k d = Inr d' \<and> popped vb remote out s ws d d'"
proof -
  have "poll_ok vb remote out delay" "length (dv_qps d) = N"
    "posted_ok remote (length (vb_mem vb (dv_net d))) (out (dv_net d))"
    using assms(1) by (auto simp: dev_ok_def verbs_ok_def)
  from poll_many_ends [OF this(1,3) assms(3-5), of "[]" k] assms(2,3,6,7) this(2) show ?thesis
    by (auto simp: poll_completions_def Let_def popped_def intro: dev_idle_swept)
qed

text \<open>Posting requests that fit.\<close>

definition pushed :: "'n verbs \<Rightarrow> ('n \<Rightarrow> posted) \<Rightarrow> nat \<Rightarrow> wr list \<Rightarrow> 'n dev \<Rightarrow> 'n dev \<Rightarrow> bool" where
  "pushed vb out s ws d d' \<longleftrightarrow> dv_qps d' = dv_qps d \<and>
     out (dv_net d') = (out (dv_net d))(s := out (dv_net d) s @ ws) \<and>
     same_outside (posted_bytes (out (dv_net d'))) (vb_mem vb (dv_net d)) (vb_mem vb (dv_net d'))"

lemma post_wrs_ok:
  assumes "verbs_ok vb remote out delay" and "length (out (dv_net d) s) + length ws \<le> RC_MAX_SEND_SIZE"
  shows "\<exists>d'. post_wrs vb s ws d = (d', 0) \<and> pushed vb out s ws d d'"
proof -
  from assms have "\<exists>n'. vb_post vb s ws (dv_net d) = (n', 0) \<and> out n' = (out (dv_net d))(s := out (dv_net d) s @ ws) \<and>
    same_outside (posted_bytes (out n')) (vb_mem vb (dv_net d)) (vb_mem vb n')"
    by (auto simp: verbs_ok_def post_ok_def)
  then show ?thesis by (auto simp: post_wrs_def pushed_def)
qed

end
