(* ===== verification/RdmaDevice.thy ===== *)
theory RdmaDevice
  imports Verbs
begin

text \<open>
  \<open>RDMA_Device\<close> of \<open>core/rdma.hpp\<close>: one-sided operations on the queue pairs of one thread. A batch of
  reads is a list of (server, local buffer, remote offset), the parallel arrays of the source. The
  variants differ in how they post (one call per request or one doorbell per server) and in which
  requests are signaled; the asynchronous ones leave the waiting to a second call, and hand it the
  number of requests per server.
\<close>

type_synonym read_batch = "(nat \<times> nat \<times> nat) list"

section \<open>Single operations\<close>

definition RdmaFetchAndAdd :: "'n verbs \<Rightarrow> nat \<Rightarrow> nat \<Rightarrow> nat \<Rightarrow> u64 \<Rightarrow> 'n dev \<Rightarrow> 'n dev result" where
  "RdmaFetchAndAdd vb nid local_buf off add_value d =
     rbind (rc_post_fetch_and_add vb nid local_buf off add_value True d) (poll_completion vb nid)"

definition RdmaRead :: "'n verbs \<Rightarrow> nat \<Rightarrow> nat \<Rightarrow> nat \<Rightarrow> nat \<Rightarrow> 'n dev \<Rightarrow> 'n dev result" where
  "RdmaRead vb nid local_buf sz off d =
     rbind (first_send d nid) (\<lambda>first.
     rbind (if first then Inr d else poll_completion vb nid d) (\<lambda>d.
     rbind (rc_post_send vb nid Rdma_Read local_buf sz off True d) (\<lambda>(d, rc).
     poll_completion vb nid d)))"

definition RdmaWrite :: "'n verbs \<Rightarrow> nat \<Rightarrow> nat \<Rightarrow> nat \<Rightarrow> nat \<Rightarrow> 'n dev \<Rightarrow> 'n dev result" where
  "RdmaWrite vb nid local_buf sz off d =
     rbind (rc_post_send vb nid Rdma_Write local_buf sz off True d) (\<lambda>(d, rc). poll_completion vb nid d)"

definition RdmaWriteNonSignal :: "'n verbs \<Rightarrow> nat \<Rightarrow> nat \<Rightarrow> nat \<Rightarrow> nat \<Rightarrow> 'n dev \<Rightarrow> 'n dev result" where
  "RdmaWriteNonSignal vb nid local_buf sz off d =
     rbind (rc_post_send vb nid Rdma_Write local_buf sz off False d) (\<lambda>(d, rc). Inr d)"

definition RdmaWriteSelective :: "'n verbs \<Rightarrow> nat \<Rightarrow> nat \<Rightarrow> nat \<Rightarrow> nat \<Rightarrow> 'n dev \<Rightarrow> 'n dev result" where
  "RdmaWriteSelective vb nid local_buf sz off d =
     rbind (first_send d nid) (\<lambda>first.
     rbind (rc_post_send vb nid Rdma_Write local_buf sz off first d) (\<lambda>(d, rc).
     rbind (need_poll nid d) (\<lambda>(d, need).
     if need then poll_completion vb nid d else Inr d)))"

section \<open>Batches of reads, waited for at once\<close>

text \<open>\<open>get_rc_qp_nolock\<close> for every server.\<close>

definition check_qps :: "nat \<Rightarrow> 'n dev \<Rightarrow> unit result" where
  "check_qps n d = rfold (\<lambda>s u. rbind (qp_at d s) (\<lambda>q. Inr u)) [0..<n] ()"

text \<open>One signaled post per request, and a count per server.\<close>

definition post_each :: "'n verbs \<Rightarrow> nat \<Rightarrow> read_batch \<Rightarrow> 'n dev \<times> nat list \<Rightarrow> ('n dev \<times> nat list) result" where
  "post_each vb sz batch =
     rfold (\<lambda>(nid, buf, off) (d, cnt).
       rbind (rget cnt nid) (\<lambda>c.
       rbind (rc_post_send vb nid Rdma_Read buf sz off True d) (\<lambda>(d, rc).
       Inr (d, cnt[nid := c + 1])))) batch"

definition poll_counts :: "'n verbs \<Rightarrow> nat \<Rightarrow> nat list \<Rightarrow> 'n dev \<Rightarrow> 'n dev result" where
  "poll_counts vb n cnt =
     rfold (\<lambda>s d. if 0 < cnt ! s then poll_completions vb s (cnt ! s) d else Inr d) [0..<n]"

definition RdmaReadBatch :: "'n verbs \<Rightarrow> nat \<Rightarrow> nat \<Rightarrow> read_batch \<Rightarrow> 'n dev \<Rightarrow> 'n dev result" where
  "RdmaReadBatch vb n sz batch d =
     rbind (check_qps n d) (\<lambda>_.
     rbind (post_each vb sz batch (d, replicate n 0)) (\<lambda>(d, cnt).
     poll_counts vb n cnt d))"

text \<open>The requests of one server, in an array of 128.\<close>

definition reqs_for :: "nat \<Rightarrow> nat \<Rightarrow> bool \<Rightarrow> read_batch \<Rightarrow> rdma_req list" where
  "reqs_for s sz sig batch =
     map (\<lambda>(nid, buf, off). \<lparr>rq_opcode = Rdma_Read, rq_length = sz, rq_signaled = sig, rq_buf = buf, rq_remote_offset = off\<rparr>)
       (filter (\<lambda>(nid, buf, off). nid = s) batch)"

definition doorbell_each :: "'n verbs \<Rightarrow> nat \<Rightarrow> nat \<Rightarrow> read_batch \<Rightarrow> 'n dev \<times> nat list \<Rightarrow> ('n dev \<times> nat list) result" where
  "doorbell_each vb n sz batch =
     rfold (\<lambda>s (d, cnt).
       rbind (qp_at d s) (\<lambda>q.
       let reqs = reqs_for s sz True batch in
       rbind (require (length reqs \<le> MAX_DOORBELL_SIZE) Out_Of_Bounds) (\<lambda>_.
       rbind (rput cnt s (length reqs)) (\<lambda>cnt.
       rbind (if reqs \<noteq> [] then rc_post_doorbell vb s reqs d else Inr d) (\<lambda>d. Inr (d, cnt)))))) [0..<n]"

definition RdmaReadBatchDoorbell :: "'n verbs \<Rightarrow> nat \<Rightarrow> nat \<Rightarrow> read_batch \<Rightarrow> 'n dev \<Rightarrow> 'n dev result" where
  "RdmaReadBatchDoorbell vb n sz batch d =
     rbind (doorbell_each vb n sz batch (d, replicate n 0)) (\<lambda>(d, cnt). poll_counts vb n cnt d)"

text \<open>Only the last request to a server is signaled.\<close>

definition last_sr :: "nat \<Rightarrow> read_batch \<Rightarrow> nat option" where
  "last_sr s batch = fold (\<lambda>i l. if fst (batch ! i) = s then Some i else l) [0..<length batch] None"

definition post_unsignaled :: "'n verbs \<Rightarrow> nat \<Rightarrow> nat \<Rightarrow> read_batch \<Rightarrow> 'n dev \<Rightarrow> 'n dev result" where
  "post_unsignaled vb s sz batch =
     rfold (\<lambda>i d. case batch ! i of (nid, buf, off) \<Rightarrow>
       if nid = s then rbind (rc_post_send vb s Rdma_Read buf sz off (last_sr s batch = Some i) d) (\<lambda>(d, rc). Inr d)
       else Inr d) [0..<length batch]"

definition RdmaReadBatchUnsignal :: "'n verbs \<Rightarrow> nat \<Rightarrow> nat \<Rightarrow> read_batch \<Rightarrow> 'n dev \<Rightarrow> 'n dev result" where
  "RdmaReadBatchUnsignal vb n sz batch d =
     rbind (rfold (\<lambda>s d. rbind (qp_at d s) (\<lambda>q. post_unsignaled vb s sz batch d)) [0..<n] d) (\<lambda>d.
     rfold (\<lambda>s d. if last_sr s batch \<noteq> None then poll_completion vb s d else Inr d) [0..<n] d)"

section \<open>Batches of reads, waited for later\<close>

definition RdmaReadBatch_Async_Send ::
    "'n verbs \<Rightarrow> nat \<Rightarrow> nat \<Rightarrow> read_batch \<Rightarrow> nat list \<Rightarrow> 'n dev \<Rightarrow> ('n dev \<times> nat list) result" where
  "RdmaReadBatch_Async_Send vb n sz batch polls d =
     rbind (check_qps n d) (\<lambda>_. post_each vb sz batch (d, polls))"

definition RdmaReadBatchDoorbell_Async_Send ::
    "'n verbs \<Rightarrow> nat \<Rightarrow> nat \<Rightarrow> read_batch \<Rightarrow> nat list \<Rightarrow> 'n dev \<Rightarrow> ('n dev \<times> nat list) result" where
  "RdmaReadBatchDoorbell_Async_Send vb n sz batch polls d = doorbell_each vb n sz batch (d, polls)"

definition RdmaReadBatch_Async_Wait :: "'n verbs \<Rightarrow> nat \<Rightarrow> nat list \<Rightarrow> 'n dev \<Rightarrow> ('n dev \<times> nat list) result" where
  "RdmaReadBatch_Async_Wait vb n polls d =
     rfold (\<lambda>s (d, polls).
       rbind (rget polls s) (\<lambda>c.
       if 0 < c then rbind (poll_completions vb s c d) (\<lambda>d. Inr (d, polls[s := 0])) else Inr (d, polls)))
       [0..<n] (d, polls)"

definition RdmaReadBatchUnsignal_Async_Send ::
    "'n verbs \<Rightarrow> nat \<Rightarrow> nat \<Rightarrow> read_batch \<Rightarrow> nat list \<Rightarrow> 'n dev \<Rightarrow> ('n dev \<times> nat list) result" where
  "RdmaReadBatchUnsignal_Async_Send vb n sz batch polls d =
     rfold (\<lambda>s (d, polls).
       rbind (qp_at d s) (\<lambda>q.
       rbind (post_unsignaled vb s sz batch d) (\<lambda>d.
       rbind (rget polls s) (\<lambda>c.
       Inr (d, polls[s := c + length (reqs_for s sz False batch)]))))) [0..<n] (d, polls)"

text \<open>The variant in use: one doorbell per server, the last request signaled by the queue pair.\<close>

definition RdmaReadBatchDoorbellUnsignal_Async_Send ::
    "'n verbs \<Rightarrow> nat \<Rightarrow> nat \<Rightarrow> read_batch \<Rightarrow> nat list \<Rightarrow> 'n dev \<Rightarrow> ('n dev \<times> nat list) result" where
  "RdmaReadBatchDoorbellUnsignal_Async_Send vb n sz batch polls d =
     rfold (\<lambda>s (d, polls).
       rbind (qp_at d s) (\<lambda>q.
       let reqs = reqs_for s sz False batch in
       rbind (require (length reqs \<le> MAX_DOORBELL_SIZE) Assert_Failed) (\<lambda>_.
       rbind (rput polls s (length reqs)) (\<lambda>polls.
       rbind (if reqs \<noteq> [] then rc_post_doorbell_unsignal vb s reqs True d else Inr d) (\<lambda>d.
       Inr (d, polls)))))) [0..<n] (d, polls)"

definition RdmaReadBatchUnsignal_Async_Wait :: "'n verbs \<Rightarrow> nat \<Rightarrow> nat list \<Rightarrow> 'n dev \<Rightarrow> ('n dev \<times> nat list) result" where
  "RdmaReadBatchUnsignal_Async_Wait vb n polls d =
     rfold (\<lambda>s (d, polls).
       rbind (rget polls s) (\<lambda>c.
       if 0 < c then rbind (poll_completion vb s d) (\<lambda>d. Inr (d, polls[s := 0])) else Inr (d, polls)))
       [0..<n] (d, polls)"

section \<open>What a batch posts\<close>

definition mark_last :: "wr list \<Rightarrow> wr list" where
  "mark_last ws = (if ws = [] then [] else butlast ws @ [(last ws)\<lparr>wr_signaled := True\<rparr>])"

definition read_wrs :: "nat \<Rightarrow> bool \<Rightarrow> read_batch \<Rightarrow> posted" where
  "read_wrs sz sig batch = (\<lambda>s. map (\<lambda>(nid, buf, off). wr_rdma Rdma_Read buf sz sig off)
     (filter (\<lambda>(nid, buf, off). nid = s) batch))"

text \<open>A list with its last request signaled and no other.\<close>

definition one_signal :: "wr list \<Rightarrow> bool" where
  "one_signal ws \<longleftrightarrow> ws \<noteq> [] \<and> wr_signaled (last ws) \<and> (\<forall>w \<in> set (butlast ws). \<not> wr_signaled w)"

lemma wr_rdma_sel [simp]:
  "wr_op (wr_rdma op a l sig off) = op" "wr_addr (wr_rdma op a l sig off) = a" "wr_len (wr_rdma op a l sig off) = l"
  "wr_signaled (wr_rdma op a l sig off) = sig" "wr_remote (wr_rdma op a l sig off) = off"
  by (simp_all add: wr_rdma_def)

lemma mark_last_Nil [simp]: "mark_last ws = [] \<longleftrightarrow> ws = []"
  by (simp add: mark_last_def)

lemma length_mark_last [simp]: "length (mark_last ws) = length ws"
  by (simp add: mark_last_def)

lemma one_signal_mark_last: "ws \<noteq> [] \<Longrightarrow> \<forall>w \<in> set ws. \<not> wr_signaled w \<Longrightarrow> one_signal (mark_last ws)"
  by (auto simp: one_signal_def mark_last_def dest: in_set_butlastD)

lemma doorbell_list:
  assumes "\<forall>r \<in> set reqs. \<not> rq_signaled r"
  shows "map (\<lambda>i. wr_of_req (reqs ! i) (rq_signaled (reqs ! i) \<or> True \<and> i = length reqs - 1)) [0..<length reqs]
    = mark_last (map (\<lambda>r. wr_of_req r False) reqs)"
proof (cases reqs rule: rev_cases)
  case (snoc rs r)
  have "map (\<lambda>i. wr_of_req (reqs ! i) (rq_signaled (reqs ! i) \<or> True \<and> i = length reqs - 1)) [0..<length rs]
      = map (\<lambda>i. wr_of_req (rs ! i) False) [0..<length rs]"
    using assms snoc by (auto simp: nth_append)
  also have "\<dots> = map (\<lambda>r. wr_of_req r False) rs" by (intro nth_equalityI) simp_all
  finally show ?thesis using assms snoc by (simp add: mark_last_def wr_of_req_def wr_rdma_def nth_append)
qed (simp add: mark_last_def)

lemma reqs_wrs: "map (\<lambda>r. wr_of_req r sig) (reqs_for s sz sig' batch) = read_wrs sz sig batch s"
  by (auto simp: reqs_for_def read_wrs_def wr_of_req_def)

lemma reqs_for_facts [simp]:
  "\<forall>r \<in> set (reqs_for s sz False batch). \<not> rq_signaled r"
  "length (reqs_for s sz sig batch) = length (read_wrs sz False batch s)"
  by (auto simp: reqs_for_def read_wrs_def)

lemma read_wrs_none: "\<forall>(nid, buf, off) \<in> set batch. nid < n \<Longrightarrow> n \<le> s \<Longrightarrow> read_wrs sz sig batch s = []"
  by (auto simp: read_wrs_def filter_empty_conv)

section \<open>The asynchronous pair\<close>

text \<open>A batch that may be sent: the queues have room, and its reads are in bounds and apart from the others.\<close>

definition batch_fits ::
    "'n verbs \<Rightarrow> (nat \<Rightarrow> byte list) \<Rightarrow> ('n \<Rightarrow> posted) \<Rightarrow> nat \<Rightarrow> nat \<Rightarrow> read_batch \<Rightarrow> 'n dev \<Rightarrow> bool" where
  "batch_fits vb remote out n sz batch d \<longleftrightarrow> (\<forall>(nid, buf, off) \<in> set batch. nid < n) \<and>
     (\<forall>s. length (read_wrs sz False batch s) \<le> MAX_DOORBELL_SIZE \<and>
        length (out (dv_net d) s) + length (read_wrs sz False batch s) \<le> RC_MAX_SEND_SIZE) \<and>
     posted_ok remote (length (vb_mem vb (dv_net d))) (\<lambda>s. out (dv_net d) s @ mark_last (read_wrs sz False batch s))"

lemma async_send_ok:
  fixes d :: "'n dev"
  assumes ok: "dev_ok vb remote out delay n d" and fits: "batch_fits vb remote out n sz batch d" and polls: "length polls = n"
  shows "\<exists>d'. RdmaReadBatchDoorbellUnsignal_Async_Send vb n sz batch polls d
      = Inr (d', map (\<lambda>s. length (read_wrs sz False batch s)) [0..<n]) \<and> dev_ok vb remote out delay n d' \<and>
      out (dv_net d') = (\<lambda>s. out (dv_net d) s @ mark_last (read_wrs sz False batch s)) \<and>
      same_outside (posted_bytes (out (dv_net d'))) (vb_mem vb (dv_net d)) (vb_mem vb (dv_net d'))"
proof -
  let ?ws = "\<lambda>s. mark_last (read_wrs sz False batch s)" and ?o = "out (dv_net d)"
  let ?f = "\<lambda>s (d, polls). rbind (qp_at d s) (\<lambda>q.
       let reqs = reqs_for s sz False batch in
       rbind (require (length reqs \<le> MAX_DOORBELL_SIZE) Assert_Failed) (\<lambda>_.
       rbind (rput polls s (length reqs)) (\<lambda>polls.
       rbind (if reqs \<noteq> [] then rc_post_doorbell_unsignal vb s reqs True d else Inr d) (\<lambda>d. Inr (d, polls)))))"
  let ?P = "\<lambda>ys (d' :: 'n dev, ps). dv_qps d' = dv_qps d \<and> length ps = n \<and>
      (\<forall>s \<in> set ys. ps ! s = length (read_wrs sz False batch s)) \<and>
      out (dv_net d') = (\<lambda>s. if s \<in> set ys then ?o s @ ?ws s else ?o s) \<and>
      same_outside (posted_bytes (\<lambda>s. ?o s @ ?ws s)) (vb_mem vb (dv_net d)) (vb_mem vb (dv_net d'))"
  have N: "length (dv_qps d) = n" "verbs_ok vb remote out delay" using ok by (simp_all add: dev_ok_def)
  have "\<exists>st. rfold ?f [0..<n] (d, polls) = Inr st \<and> ?P [0..<n] st"
  proof (rule rfold_invariant)
    fix ys s zs st assume split: "[0..<n] = ys @ s # zs" and inv: "?P ys st"
    obtain d1 ps where st: "st = (d1, ps)" by fastforce
    from upt_split [OF split] upt_split_prefix [OF split] have s: "s < n" "s \<notin> set ys" by auto
    have small: "length (read_wrs sz False batch s) \<le> MAX_DOORBELL_SIZE" using fits by (simp add: batch_fits_def)
    have "\<exists>d2. (if reqs_for s sz False batch \<noteq> [] then rc_post_doorbell_unsignal vb s (reqs_for s sz False batch) True d1 else Inr d1)
        = Inr d2 \<and> dv_qps d2 = dv_qps d \<and> out (dv_net d2) = (\<lambda>t. if t \<in> set (ys @ [s]) then ?o t @ ?ws t else ?o t) \<and>
          same_outside (posted_bytes (\<lambda>s. ?o s @ ?ws s)) (vb_mem vb (dv_net d)) (vb_mem vb (dv_net d2))"
    proof (cases "reqs_for s sz False batch = []")
      case True
      then have "?ws s = []" using reqs_for_facts(2) [of s sz False batch] by simp
      with True inv st show ?thesis by auto
    next
      case False
      have "length (out (dv_net d1) s) + length (?ws s) \<le> RC_MAX_SEND_SIZE"
        using inv st s fits by (simp add: batch_fits_def)
      from post_wrs_ok [OF N(2) this] obtain d2 where d2: "post_wrs vb s (?ws s) d1 = (d2, 0)"
        "pushed vb out s (?ws s) d1 d2" by blast
      have "rc_post_doorbell_unsignal vb s (reqs_for s sz False batch) True d1 = Inr d2"
        using d2(1) small s(1) N(1) inv st doorbell_list [of "reqs_for s sz False batch"]
        by (simp add: rc_post_doorbell_unsignal_def ring_doorbell_def reqs_wrs)
      moreover have "out (dv_net d2) = (\<lambda>t. if t \<in> set (ys @ [s]) then ?o t @ ?ws t else ?o t)"
        using d2(2) inv st s(2) by (auto simp: pushed_def)
      moreover from this have "posted_bytes (out (dv_net d2)) \<subseteq> posted_bytes (\<lambda>s. ?o s @ ?ws s)"
        by (intro posted_bytes_mono) auto
      ultimately show ?thesis
        using False d2(2) inv st by (auto simp: pushed_def intro: same_outside_trans)
    qed
    then obtain d2 where d2: "(if reqs_for s sz False batch \<noteq> [] then rc_post_doorbell_unsignal vb s (reqs_for s sz False batch) True d1 else Inr d1)
        = Inr d2" "dv_qps d2 = dv_qps d" "out (dv_net d2) = (\<lambda>t. if t \<in> set (ys @ [s]) then ?o t @ ?ws t else ?o t)"
          "same_outside (posted_bytes (\<lambda>s. ?o s @ ?ws s)) (vb_mem vb (dv_net d)) (vb_mem vb (dv_net d2))" by blast
    have "?f s st = Inr (d2, ps[s := length (read_wrs sz False batch s)])"
      using inv st s(1) N(1) small d2(1) by (simp add: Let_def)
    moreover have "?P (ys @ [s]) (d2, ps[s := length (read_wrs sz False batch s)])"
      using inv st s(1) d2(2-4) by (auto simp: nth_list_update)
    ultimately show "\<exists>st'. ?f s st = Inr st' \<and> ?P (ys @ [s]) st'" by blast
  qed (use polls in simp)
  then obtain d' ps where r: "rfold ?f [0..<n] (d, polls) = Inr (d', ps)" "?P [0..<n] (d', ps)" by blast
  have out: "out (dv_net d') = (\<lambda>s. ?o s @ ?ws s)"
    using r(2) fits read_wrs_none [of batch n] by (auto simp: batch_fits_def mark_last_def fun_eq_iff)
  have "ps = map (\<lambda>s. length (read_wrs sz False batch s)) [0..<n]"
    using r(2) by (intro nth_equalityI) simp_all
  moreover have "dev_ok vb remote out delay n d'"
    using ok fits r(2) out by (simp add: dev_ok_def batch_fits_def dev_idle_def same_outside_def)
  moreover have "same_outside (posted_bytes (out (dv_net d'))) (vb_mem vb (dv_net d)) (vb_mem vb (dv_net d'))"
    using r(2) by (simp only: out) simp
  ultimately show ?thesis
    using r(1) out by (intro exI [of _ d']) (simp only: RdmaReadBatchDoorbellUnsignal_Async_Send_def simp_thms)
qed

text \<open>
  The wait takes one completion from every server that was sent something, which carries out the whole
  oldest batch, because only its last request is signaled.
\<close>

lemma async_wait_ok:
  fixes d :: "'n dev"
  assumes ok: "dev_ok vb remote out delay n d" and front: "out (dv_net d) = (\<lambda>s. fr s @ rest s)"
    and fr: "\<And>s. fr s \<noteq> [] \<Longrightarrow> one_signal (fr s)" "\<And>s. n \<le> s \<Longrightarrow> fr s = []"
    and polls: "length polls = n" "\<And>s. s < n \<Longrightarrow> 0 < polls ! s \<longleftrightarrow> fr s \<noteq> []"
  shows "\<exists>d'. RdmaReadBatchUnsignal_Async_Wait vb n polls d = Inr (d', replicate n 0) \<and>
      dev_ok vb remote out delay n d' \<and> out (dv_net d') = rest \<and>
      same_outside (posted_bytes (out (dv_net d))) (vb_mem vb (dv_net d)) (vb_mem vb (dv_net d')) \<and>
      (\<forall>s. \<forall>w \<in> set (fr s). wr_done remote (vb_mem vb (dv_net d')) s w)"
proof -
  let ?f = "\<lambda>s (d, polls). rbind (rget polls s) (\<lambda>c.
       if 0 < c then rbind (poll_completion vb s d) (\<lambda>d. Inr (d, polls[s := 0])) else Inr (d, polls))"
  let ?P = "\<lambda>ys (d' :: 'n dev, ps). dev_ok vb remote out delay n d' \<and> length ps = n \<and>
      (\<forall>s < n. ps ! s = (if s \<in> set ys then 0 else polls ! s)) \<and>
      out (dv_net d') = (\<lambda>s. if s \<in> set ys then rest s else fr s @ rest s) \<and>
      same_outside (posted_bytes (out (dv_net d))) (vb_mem vb (dv_net d)) (vb_mem vb (dv_net d')) \<and>
      (\<forall>s \<in> set ys. \<forall>w \<in> set (fr s). wr_done remote (vb_mem vb (dv_net d')) s w)"
  have "\<exists>st. rfold ?f [0..<n] (d, polls) = Inr st \<and> ?P [0..<n] st"
  proof (rule rfold_invariant)
    fix ys s zs st assume split: "[0..<n] = ys @ s # zs" and inv: "?P ys st"
    obtain d1 ps where st: "st = (d1, ps)" by fastforce
    from upt_split [OF split] upt_split_prefix [OF split] have s: "s < n" "s \<notin> set ys" by auto
    have ps: "length ps = n" "ps ! s = polls ! s" and ok1: "dev_ok vb remote out delay n d1"
      and out1: "out (dv_net d1) = (\<lambda>t. if t \<in> set ys then rest t else fr t @ rest t)" using inv st s by auto
    show "\<exists>st'. ?f s st = Inr st' \<and> ?P (ys @ [s]) st'"
    proof (cases "fr s = []")
      case True
      then have "?f s st = Inr (d1, ps)" using ps s(1) polls(2) [OF s(1)] st by simp
      moreover have "?P (ys @ [s]) (d1, ps)" using inv st True polls(2) [OF s(1)] by auto
      ultimately show ?thesis by blast
    next
      case False
      with fr(1) [of s] have sig: "\<forall>v \<in> set (butlast (fr s)). \<not> wr_signaled v" "wr_signaled (last (fr s))"
        by (auto simp: one_signal_def)
      have "out (dv_net d1) s = butlast (fr s) @ last (fr s) # rest s" using out1 s(2) False by simp
      from poll_completion_ok [OF ok1 s(1) this sig] False obtain d2 where d2:
        "poll_completion vb s d1 = Inr d2" "popped vb remote out s (fr s) d1 d2" by auto
      have "?f s st = Inr (d2, ps[s := 0])" using ps s(1) polls(2) [OF s(1)] False st d2(1) by simp
      moreover have out2: "out (dv_net d2) = (\<lambda>t. if t \<in> set (ys @ [s]) then rest t else fr t @ rest t)"
        using d2(2) out1 s(2) by (auto simp: popped_def fun_eq_iff)
      moreover have "posted_bytes (out (dv_net d1)) \<subseteq> posted_bytes (out (dv_net d))"
        by (rule posted_bytes_mono) (auto simp: out1 front)
      then have "same_outside (posted_bytes (out (dv_net d))) (vb_mem vb (dv_net d)) (vb_mem vb (dv_net d2))"
        using inv st d2(2) by (auto simp: popped_def intro: same_outside_trans)
      moreover have "wr_done remote (vb_mem vb (dv_net d2)) t w" if t: "t \<in> set (ys @ [s])" "w \<in> set (fr t)" for t w
      proof (cases "t = s")
        case True
        then show ?thesis using d2(2) t(2) by (simp add: popped_def)
      next
        case False
        then have "wr_done remote (vb_mem vb (dv_net d1)) t w" using inv st t by auto
        moreover have "same_outside (posted_bytes (out (dv_net d1))) (vb_mem vb (dv_net d1)) (vb_mem vb (dv_net d2))"
          using d2(2) by (simp add: popped_def)
        moreover have "i \<notin> posted_bytes (out (dv_net d1))" if i: "wr_addr w \<le> i" "i < wr_addr w + wr_len w" for i
        proof -
          have "posted_ok remote (length (vb_mem vb (dv_net d))) (\<lambda>s. fr s @ rest s)"
            using ok front by (simp add: dev_ok_def)
          from posted_ok_pop(2) [OF this refl t(2) i]
          have "i \<notin> posted_bytes ((\<lambda>s. fr s @ rest s)(t := rest t))" .
          moreover have "posted_bytes (out (dv_net d1)) \<subseteq> posted_bytes ((\<lambda>s. fr s @ rest s)(t := rest t))"
            using False t(1) by (intro posted_bytes_mono) (auto simp: out1)
          ultimately show ?thesis by blast
        qed
        ultimately show ?thesis by (rule wr_done_kept)
      qed
      ultimately show ?thesis using popped_ok [OF ok1 d2(2)] inv st ps s(1) by (auto simp: nth_list_update)
    qed
  qed (use ok polls front in \<open>auto simp: fun_eq_iff\<close>)
  then obtain d' ps where r: "rfold ?f [0..<n] (d, polls) = Inr (d', ps)" "?P [0..<n] (d', ps)" by blast
  have "ps = replicate n 0" using r(2) by (intro nth_equalityI) simp_all
  moreover have "out (dv_net d') = rest" using r(2) fr(2) by (auto simp: fun_eq_iff)
  moreover have "wr_done remote (vb_mem vb (dv_net d')) s w" if "w \<in> set (fr s)" for s w
    using r(2) fr(2) [of s] that by (cases "s < n") auto
  ultimately show ?thesis
    using r by (intro exI [of _ d']) (simp add: RdmaReadBatchUnsignal_Async_Wait_def)
qed

section \<open>The synchronous reads\<close>

text \<open>With nothing outstanding, a single read brings its bytes and leaves nothing behind.\<close>

lemma RdmaRead_ok:
  fixes d :: "'n dev"
  assumes ok: "dev_ok vb remote out delay n d" and none: "out (dv_net d) = (\<lambda>_. [])" and s: "s < n"
    and fits: "buf + sz \<le> length (vb_mem vb (dv_net d))" "off + sz \<le> length (remote s)"
  shows "\<exists>d'. RdmaRead vb s buf sz off d = Inr d' \<and> dev_ok vb remote out delay n d' \<and> out (dv_net d') = (\<lambda>_. []) \<and>
    same_outside {buf..<buf + sz} (vb_mem vb (dv_net d)) (vb_mem vb (dv_net d')) \<and>
    slice (vb_mem vb (dv_net d')) buf sz = slice (remote s) off sz"
proof -
  let ?w = "wr_rdma Rdma_Read buf sz True off"
  have N: "verbs_ok vb remote out delay" "length (dv_qps d) = n" "dev_idle d" using ok by (simp_all add: dev_ok_def)
  have first: "first_send d s = Inr True" using N s by (simp add: first_send_def dev_idle_def)
  obtain d1 where d1: "post_wrs vb s [?w] d = (d1, 0)" "pushed vb out s [?w] d d1"
    using post_wrs_ok [OF N(1), of d s "[?w]"] by (auto simp: none RC_MAX_SEND_SIZE_def)
  have out1: "out (dv_net d1) = (\<lambda>t. if t = s then [?w] else [])" using d1(2) none by (auto simp: pushed_def fun_eq_iff)
  have len: "length (vb_mem vb (dv_net d1)) = length (vb_mem vb (dv_net d))" using d1(2) by (simp add: pushed_def same_outside_def)
  have "posted_ok remote (length (vb_mem vb (dv_net d1))) (out (dv_net d1))"
    using fits by (simp add: out1 len posted_ok_def wr_fits_def)
  then have ok1: "dev_ok vb remote out delay n d1" using N d1(2) by (simp add: dev_ok_def pushed_def dev_idle_def)
  have "out (dv_net d1) s = [] @ ?w # []" by (simp add: out1)
  from poll_completion_ok [OF ok1 s this] obtain d2 where d2: "poll_completion vb s d1 = Inr d2"
    "popped vb remote out s [?w] d1 d2" by auto
  have "posted_bytes (out (dv_net d1)) = {buf..<buf + sz}" by (auto simp: posted_bytes_def out1)
  then have "same_outside {buf..<buf + sz} (vb_mem vb (dv_net d)) (vb_mem vb (dv_net d2))"
    using d1(2) d2(2) by (auto simp: pushed_def popped_def intro: same_outside_trans)
  moreover have "out (dv_net d2) t = []" for t
    using d2(2) out1 by (cases "t = s") (auto simp: popped_def)
  then have "out (dv_net d2) = (\<lambda>_. [])" by (simp add: fun_eq_iff)
  moreover have "RdmaRead vb s buf sz off d = Inr d2"
    using first d1(1) d2(1) s N(2) by (simp add: RdmaRead_def rc_post_send_def)
  ultimately show ?thesis using popped_ok [OF ok1 d2(2)] d2(2) by (auto simp: popped_def wr_done_def)
qed

text \<open>The batch: one signaled request per read, then as many completions per server.\<close>

lemma read_wrs_simps: "read_wrs sz sig [] s = []"
  "read_wrs sz sig (batch @ [(nid, buf, off)]) s =
     read_wrs sz sig batch s @ (if nid = s then [wr_rdma Rdma_Read buf sz sig off] else [])"
  by (simp_all add: read_wrs_def)

lemma read_wrs_split: "batch = xs @ ys \<Longrightarrow> read_wrs sz sig batch s = read_wrs sz sig xs s @ read_wrs sz sig ys s"
  by (simp add: read_wrs_def)

lemma post_each_ok:
  fixes d :: "'n dev"
  assumes ok: "dev_ok vb remote out delay n d" and none: "out (dv_net d) = (\<lambda>_. [])"
    and nid: "\<forall>(nid, buf, off) \<in> set batch. nid < n" and cap: "\<And>s. length (read_wrs sz True batch s) \<le> RC_MAX_SEND_SIZE"
  shows "\<exists>d'. post_each vb sz batch (d, replicate n 0) = Inr (d', map (\<lambda>s. length (read_wrs sz True batch s)) [0..<n]) \<and>
    dv_qps d' = dv_qps d \<and> out (dv_net d') = read_wrs sz True batch \<and>
    same_outside (posted_bytes (read_wrs sz True batch)) (vb_mem vb (dv_net d)) (vb_mem vb (dv_net d'))"
proof -
  let ?f = "\<lambda>(nid, buf, off) (d, cnt). rbind (rget cnt nid) (\<lambda>c.
       rbind (rc_post_send vb nid Rdma_Read buf sz off True d) (\<lambda>(d, rc). Inr (d, cnt[nid := c + 1])))"
  define A where "A = posted_bytes (read_wrs sz True batch)"
  let ?P = "\<lambda>b (d' :: 'n dev, cnt). dv_qps d' = dv_qps d \<and> cnt = map (\<lambda>s. length (read_wrs sz True b s)) [0..<n] \<and>
    out (dv_net d') = read_wrs sz True b \<and>
    same_outside A (vb_mem vb (dv_net d)) (vb_mem vb (dv_net d'))"
  have N: "verbs_ok vb remote out delay" "length (dv_qps d) = n" using ok by (simp_all add: dev_ok_def)
  have "\<exists>st. rfold ?f batch (d, replicate n 0) = Inr st \<and> ?P batch st"
  proof (rule rfold_invariant)
    fix ys x zs st assume split: "batch = ys @ x # zs" and inv: "?P ys st"
    obtain nid buf off where x: "x = (nid, buf, off)" by (cases x) auto
    obtain d1 cnt where st: "st = (d1, cnt)" by fastforce
    have lt: "nid < n" using nid split x by auto
    let ?w = "wr_rdma Rdma_Read buf sz True off"
    have pre: "read_wrs sz True batch nid = read_wrs sz True ys nid @ ?w # read_wrs sz True zs nid"
      using split x by (simp add: read_wrs_def)
    then have "length (out (dv_net d1) nid) + length [?w] \<le> RC_MAX_SEND_SIZE"
      using cap [of nid] inv st by simp
    from post_wrs_ok [OF N(1) this] obtain d2 where d2: "post_wrs vb nid [?w] d1 = (d2, 0)" "pushed vb out nid [?w] d1 d2" by blast
    have out2: "out (dv_net d2) = read_wrs sz True (ys @ [x])"
      using d2(2) inv st x by (auto simp: pushed_def read_wrs_simps fun_eq_iff)
    moreover have "posted_bytes (out (dv_net d2)) \<subseteq> A"
      unfolding out2 A_def by (rule posted_bytes_mono) (use split in \<open>auto simp: read_wrs_def\<close>)
    then have "same_outside A (vb_mem vb (dv_net d)) (vb_mem vb (dv_net d2))"
      using inv st d2(2) by (auto simp: pushed_def intro: same_outside_trans)
    moreover have "cnt[nid := cnt ! nid + 1] = map (\<lambda>s. length (read_wrs sz True (ys @ [x]) s)) [0..<n]"
      using inv st lt x by (intro nth_equalityI) (auto simp: read_wrs_simps nth_list_update)
    moreover have "?f x st = Inr (d2, cnt[nid := cnt ! nid + 1])"
      using inv st lt x N(2) d2(1) by (simp add: rc_post_send_def)
    ultimately show "\<exists>st'. ?f x st = Inr st' \<and> ?P (ys @ [x]) st'" using inv st d2(2) by (auto simp: pushed_def)
  qed (use none in \<open>auto simp: read_wrs_def fun_eq_iff map_replicate_const\<close>)
  then show ?thesis by (auto simp: post_each_def A_def)
qed

lemma all_signaled [simp]: "filter wr_signaled (read_wrs sz True batch s) = read_wrs sz True batch s"
  "read_wrs sz True batch s \<noteq> [] \<Longrightarrow> wr_signaled (last (read_wrs sz True batch s))"
proof -
  have sig: "\<forall>w \<in> set (read_wrs sz True batch s). wr_signaled w" by (auto simp: read_wrs_def)
  then show "filter wr_signaled (read_wrs sz True batch s) = read_wrs sz True batch s" by simp
  show "read_wrs sz True batch s \<noteq> [] \<Longrightarrow> wr_signaled (last (read_wrs sz True batch s))" using sig by simp
qed

lemma poll_counts_ok:
  fixes d :: "'n dev"
  assumes ok: "dev_ok vb remote out delay n d" and posted: "out (dv_net d) = fr"
    and fr: "\<And>s. fr s \<noteq> [] \<Longrightarrow> wr_signaled (last (fr s)) \<and> filter wr_signaled (fr s) = fr s" "\<And>s. n \<le> s \<Longrightarrow> fr s = []"
    and cap: "\<And>s. length (fr s) \<le> RC_MAX_SEND_SIZE"
  shows "\<exists>d'. poll_counts vb n (map (\<lambda>s. length (fr s)) [0..<n]) d = Inr d' \<and> dev_ok vb remote out delay n d' \<and>
    out (dv_net d') = (\<lambda>_. []) \<and> same_outside (posted_bytes fr) (vb_mem vb (dv_net d)) (vb_mem vb (dv_net d')) \<and>
    (\<forall>s. \<forall>w \<in> set (fr s). wr_done remote (vb_mem vb (dv_net d')) s w)"
proof -
  let ?cnt = "map (\<lambda>s. length (fr s)) [0..<n]"
  let ?f = "\<lambda>s d. if 0 < ?cnt ! s then poll_completions vb s (?cnt ! s) d else Inr d"
  let ?P = "\<lambda>ys (d' :: 'n dev). dev_ok vb remote out delay n d' \<and>
      out (dv_net d') = (\<lambda>s. if s \<in> set ys then [] else fr s) \<and>
      same_outside (posted_bytes fr) (vb_mem vb (dv_net d)) (vb_mem vb (dv_net d')) \<and>
      (\<forall>s \<in> set ys. \<forall>w \<in> set (fr s). wr_done remote (vb_mem vb (dv_net d')) s w)"
  have "\<exists>st. rfold ?f [0..<n] d = Inr st \<and> ?P [0..<n] st"
  proof (rule rfold_invariant)
    fix ys s zs d1 assume split: "[0..<n] = ys @ s # zs" and inv: "?P ys d1"
    from upt_split [OF split] upt_split_prefix [OF split] have s: "s < n" "s \<notin> set ys" by auto
    show "\<exists>st'. ?f s d1 = Inr st' \<and> ?P (ys @ [s]) st'"
    proof (cases "fr s = []")
      case True
      with inv s show ?thesis by (auto simp: fun_eq_iff)
    next
      case False
      have ok1: "dev_ok vb remote out delay n d1" and out1: "out (dv_net d1) = (\<lambda>t. if t \<in> set ys then [] else fr t)"
        using inv by auto
      have "out (dv_net d1) s = fr s @ []" using out1 s(2) by simp
      from poll_completions_ok [OF ok1 s(1) this False, of "length (fr s)"] fr(1) [OF False] cap [of s]
      obtain d2 where d2: "poll_completions vb s (length (fr s)) d1 = Inr d2" "popped vb remote out s (fr s) d1 d2" by auto
      have "?f s d1 = Inr d2" using s(1) False d2(1) by simp
      moreover have "out (dv_net d2) = (\<lambda>t. if t \<in> set (ys @ [s]) then [] else fr t)"
        using d2(2) out1 s(2) by (auto simp: popped_def fun_eq_iff)
      moreover have "posted_bytes (out (dv_net d1)) \<subseteq> posted_bytes fr"
        by (rule posted_bytes_mono) (auto simp: out1)
      then have "same_outside (posted_bytes fr) (vb_mem vb (dv_net d)) (vb_mem vb (dv_net d2))"
        using inv d2(2) by (auto simp: popped_def intro: same_outside_trans)
      moreover have "wr_done remote (vb_mem vb (dv_net d2)) t w" if t: "t \<in> set (ys @ [s])" "w \<in> set (fr t)" for t w
      proof (cases "t = s")
        case False
        then have "wr_done remote (vb_mem vb (dv_net d1)) t w" using inv t by auto
        moreover have "i \<notin> posted_bytes (out (dv_net d1))" if i: "wr_addr w \<le> i" "i < wr_addr w + wr_len w" for i
        proof -
          have "posted_ok remote (length (vb_mem vb (dv_net d))) fr" using ok posted by (simp add: dev_ok_def)
          from posted_ok_pop(2) [OF this, of t "fr t" "[]", OF _ t(2) i] have "i \<notin> posted_bytes (fr(t := []))" by simp
          moreover have "posted_bytes (out (dv_net d1)) \<subseteq> posted_bytes (fr(t := []))"
            using False t(1) by (intro posted_bytes_mono) (auto simp: out1)
          ultimately show ?thesis by blast
        qed
        ultimately show ?thesis using d2(2) by (auto simp: popped_def intro: wr_done_kept)
      qed (use d2(2) t in \<open>simp add: popped_def\<close>)
      ultimately show ?thesis using popped_ok [OF ok1 d2(2)] by auto
    qed
  qed (use ok posted in auto)
  then obtain d' where r: "rfold ?f [0..<n] d = Inr d'" "?P [0..<n] d'" by blast
  have "out (dv_net d') = (\<lambda>_. [])" using r(2) fr(2) by (auto simp: fun_eq_iff)
  moreover have "wr_done remote (vb_mem vb (dv_net d')) s w" if "w \<in> set (fr s)" for s w
    using r(2) fr(2) [of s] that by (cases "s < n") auto
  ultimately show ?thesis using r by (auto simp: poll_counts_def)
qed

lemma check_qps_ok: "length (dv_qps d) = n \<Longrightarrow> check_qps n d = Inr ()"
proof -
  assume n: "length (dv_qps d) = n"
  have "rfold (\<lambda>s u. rbind (qp_at d s) (\<lambda>q. Inr u)) xs u = Inr u" if "\<forall>s \<in> set xs. s < n" for xs and u :: unit
    using that by (induction xs) (simp_all add: n)
  then show ?thesis by (simp add: check_qps_def)
qed

lemma RdmaReadBatch_ok:
  fixes d :: "'n dev"
  assumes ok: "dev_ok vb remote out delay n d" and none: "out (dv_net d) = (\<lambda>_. [])"
    and nid: "\<forall>(nid, buf, off) \<in> set batch. nid < n" and cap: "\<And>s. length (read_wrs sz True batch s) \<le> RC_MAX_SEND_SIZE"
    and fits: "posted_ok remote (length (vb_mem vb (dv_net d))) (read_wrs sz True batch)"
  shows "\<exists>d'. RdmaReadBatch vb n sz batch d = Inr d' \<and> dev_ok vb remote out delay n d' \<and> out (dv_net d') = (\<lambda>_. []) \<and>
    same_outside (posted_bytes (read_wrs sz True batch)) (vb_mem vb (dv_net d)) (vb_mem vb (dv_net d')) \<and>
    (\<forall>s. \<forall>w \<in> set (read_wrs sz True batch s). wr_done remote (vb_mem vb (dv_net d')) s w)"
proof -
  from post_each_ok [OF ok none nid cap] obtain d1 where d1:
    "post_each vb sz batch (d, replicate n 0) = Inr (d1, map (\<lambda>s. length (read_wrs sz True batch s)) [0..<n])"
    "dv_qps d1 = dv_qps d" "out (dv_net d1) = read_wrs sz True batch"
    "same_outside (posted_bytes (read_wrs sz True batch)) (vb_mem vb (dv_net d)) (vb_mem vb (dv_net d1))" by blast
  have ok1: "dev_ok vb remote out delay n d1"
    using ok d1(2-4) fits by (simp add: dev_ok_def dev_idle_def same_outside_def)
  from poll_counts_ok [OF ok1 d1(3) _ _ cap] read_wrs_none [OF nid] obtain d2 where d2:
    "poll_counts vb n (map (\<lambda>s. length (read_wrs sz True batch s)) [0..<n]) d1 = Inr d2"
    "dev_ok vb remote out delay n d2" "out (dv_net d2) = (\<lambda>_. [])"
    "same_outside (posted_bytes (read_wrs sz True batch)) (vb_mem vb (dv_net d1)) (vb_mem vb (dv_net d2))"
    "\<forall>s. \<forall>w \<in> set (read_wrs sz True batch s). wr_done remote (vb_mem vb (dv_net d2)) s w" by auto
  have "RdmaReadBatch vb n sz batch d = Inr d2"
    using d1(1) d2(1) ok by (simp add: RdmaReadBatch_def check_qps_ok dev_ok_def)
  with d2 d1(4) show ?thesis by (auto intro: same_outside_trans)
qed

end
