(* ===== verification/GStore.thy ===== *)
theory GStore
  imports RdmaDevice BucketLayout
begin

text \<open>
  The graph store of a server, \<open>core/store/gstore.hpp\<close>, with its cache of remote vertices,
  \<open>core/store/cache.hpp\<close>: reading the record of a vertex by its item, from the local memory, from the
  cache, or by a read into the buffer of the calling thread. A pointer to a record says in which of the
  three it points; a pointer into the cache carries the number of the allocation it was made for. The
  registered memory of a thread is its own buffer, which no other thread writes (the regions of
  \<open>core/mem.hpp\<close> are disjoint).
\<close>

section \<open>State\<close>

datatype vptr = In_Kv nat | In_Buf nat | In_Cache nat nat

record 'n thd =
  th_dev :: "'n dev"
  th_used :: nat
  th_cache :: "(u32 \<rightharpoonup> vptr) list"
  th_polls :: "nat list list"

record 'n gstore =
  gs_sid :: nat
  gs_servers :: nat
  gs_use_rdma :: bool
  gs_vertex_size :: nat
  gs_kv :: "byte list"
  gs_cache_gen :: nat
  gs_cache_data :: "byte list"
  gs_cache_table :: "(u32 \<rightharpoonup> vptr) list"
  gs_thds :: "'n thd list"

text \<open>
  The constructor, with that of \<open>RDMA_Cache\<close>: empty tables for every server and thread. The devices of the
  threads are set up before.
\<close>

definition gs_new :: "nat \<Rightarrow> nat \<Rightarrow> bool \<Rightarrow> byte list \<Rightarrow> nat \<Rightarrow> 'n dev list \<Rightarrow> 'n gstore" where
  "gs_new sid servers use_rdma kv vertex_size devs =
     \<lparr>gs_sid = sid, gs_servers = servers, gs_use_rdma = use_rdma, gs_vertex_size = vertex_size, gs_kv = kv,
      gs_cache_gen = 0, gs_cache_data = [], gs_cache_table = replicate servers Map.empty,
      gs_thds = map (\<lambda>d. \<lparr>th_dev = d, th_used = 0, th_cache = replicate servers Map.empty, th_polls = []\<rparr>) devs\<rparr>"

definition gs_thd :: "'n gstore \<Rightarrow> nat \<Rightarrow> 'n thd result" where
  "gs_thd gs tid = rbind (require (gs_use_rdma gs \<and> tid < length (gs_thds gs)) Assert_Failed) (\<lambda>_. rget (gs_thds gs) tid)"

definition gs_put :: "'n gstore \<Rightarrow> nat \<Rightarrow> 'n thd \<Rightarrow> 'n gstore" where
  "gs_put gs tid th = gs\<lparr>gs_thds := (gs_thds gs)[tid := th]\<rparr>"

text \<open>The memory a pointer points into, and where. A cache allocation that was replaced is gone.\<close>

definition vptr_mem :: "'n verbs \<Rightarrow> 'n gstore \<Rightarrow> 'n thd \<Rightarrow> vptr \<Rightarrow> (byte list \<times> nat) result" where
  "vptr_mem vb gs th p = (case p of
     In_Kv off \<Rightarrow> Inr (gs_kv gs, off)
   | In_Buf off \<Rightarrow> Inr (vb_mem vb (dv_net (th_dev th)), off)
   | In_Cache gen off \<Rightarrow> if gen = gs_cache_gen gs then Inr (gs_cache_data gs, off) else Inl Out_Of_Bounds)"

section \<open>The context of a thread\<close>

definition reset_thd_ctx :: "nat \<Rightarrow> 'n gstore \<Rightarrow> 'n gstore result" where
  "reset_thd_ctx tid gs =
     rbind (rget (gs_thds gs) tid) (\<lambda>th.
     Inr (gs_put gs tid (th\<lparr>th_used := 0, th_cache := map (\<lambda>_. Map.empty) (th_cache th)\<rparr>)))"

definition update_thd_cache :: "nat \<Rightarrow> item \<Rightarrow> vptr \<Rightarrow> 'n gstore \<Rightarrow> 'n gstore result" where
  "update_thd_cache tid it p gs =
     (if unat (fst it) = gs_sid gs then Inr gs
      else rbind (rget (gs_thds gs) tid) (\<lambda>th.
        rbind (rget (th_cache th) (unat (fst it))) (\<lambda>m.
        Inr (gs_put gs tid (th\<lparr>th_cache := (th_cache th)[unat (fst it) := m(snd it \<mapsto> p)]\<rparr>)))))"

text \<open>\<open>get_vertex\<close> reads nothing: a remote vertex must be in the context. What follows its \<open>throw\<close> is unreachable.\<close>

definition get_vertex :: "'n gstore \<Rightarrow> nat \<Rightarrow> item \<Rightarrow> vptr result" where
  "get_vertex gs tid it =
     rbind (gs_thd gs tid) (\<lambda>th.
     if unat (fst it) = gs_sid gs then Inr (In_Kv (unat (snd it) * gs_vertex_size gs))
     else rbind (rget (th_cache th) (unat (fst it))) (\<lambda>m. case m (snd it) of
       Some p \<Rightarrow> Inr p
     | None \<Rightarrow> Inl (Runtime_Error ''thd_cache miss.'')))"

section \<open>Reading a batch\<close>

definition cache_lookup :: "'n gstore \<Rightarrow> item \<Rightarrow> vptr option result" where
  "cache_lookup gs it = rbind (rget (gs_cache_table gs) (unat (fst it))) (\<lambda>m. Inr (m (snd it)))"

text \<open>Where the record of an item is or will be; remote ones get the next place of the buffer and a read.\<close>

definition batch_step ::
    "'n gstore \<Rightarrow> item \<Rightarrow> vptr list \<times> read_batch \<times> nat \<Rightarrow> (vptr list \<times> read_batch \<times> nat) result" where
  "batch_step gs it = (\<lambda>(res, reads, used).
     let dst_off = unat (snd it) * gs_vertex_size gs in
     if unat (fst it) = gs_sid gs then Inr (res @ [In_Kv dst_off], reads, used)
     else rbind (cache_lookup gs it) (\<lambda>c. case c of
       Some p \<Rightarrow> Inr (res @ [p], reads, used)
     | None \<Rightarrow> Inr (res @ [In_Buf used], reads @ [(unat (fst it), used, dst_off)], used + gs_vertex_size gs)))"

definition get_vertex_batch ::
    "'n verbs \<Rightarrow> nat \<Rightarrow> item list \<Rightarrow> bool \<Rightarrow> vptr list \<Rightarrow> 'n gstore \<Rightarrow> ('n gstore \<times> vptr list) result" where
  "get_vertex_batch vb tid keys async res gs =
     rbind (gs_thd gs tid) (\<lambda>th.
     let d = th_dev th; n = gs_servers gs; sz = gs_vertex_size gs in
     rbind (rfold (batch_step gs) keys (res, [], th_used th)) (\<lambda>(res, reads, used).
     rbind (require (used < length (vb_mem vb (dv_net d))) Assert_Failed) (\<lambda>_.
     if async then
       rbind (if reads \<noteq> [] then RdmaReadBatchDoorbellUnsignal_Async_Send vb n sz reads (replicate n 0) d
              else Inr (d, replicate n 0)) (\<lambda>(d, polls).
       Inr (gs_put gs tid (th\<lparr>th_dev := d, th_used := used, th_polls := th_polls th @ [polls]\<rparr>), res))
     else
       rbind (if reads \<noteq> [] then RdmaReadBatch vb n sz reads d else Inr d) (\<lambda>d.
       Inr (gs_put gs tid (th\<lparr>th_dev := d, th_used := used\<rparr>), res)))))"

text \<open>Waiting takes the oldest batch; with none, the code reads the front of an empty queue.\<close>

definition get_vertex_batch_wait :: "'n verbs \<Rightarrow> nat \<Rightarrow> 'n gstore \<Rightarrow> 'n gstore result" where
  "get_vertex_batch_wait vb tid gs =
     rbind (rget (gs_thds gs) tid) (\<lambda>th. case th_polls th of
       [] \<Rightarrow> Inl Out_Of_Bounds
     | polls # rest \<Rightarrow>
         rbind (RdmaReadBatchUnsignal_Async_Wait vb (gs_servers gs) polls (th_dev th)) (\<lambda>(d, _).
         Inr (gs_put gs tid (th\<lparr>th_dev := d, th_polls := rest\<rparr>))))"

section \<open>The cache of remote vertices\<close>

text \<open>
  \<open>RDMA_Cache::set_cache\<close>: each record is read into the buffer of thread 0 and copied. The tables keep what an
  earlier call put there, while the allocation it points into is released.
\<close>

definition cache_one :: "'n verbs \<Rightarrow> nat \<Rightarrow> item \<Rightarrow> 'n gstore \<Rightarrow> 'n gstore result" where
  "cache_one vb i it gs =
     (let sz = gs_vertex_size gs; s = unat (fst it) in
      rbind (rget (gs_thds gs) 0) (\<lambda>th.
      rbind (require (sz < length (vb_mem vb (dv_net (th_dev th)))) Assert_Failed) (\<lambda>_.
      rbind (RdmaRead vb s 0 sz (unat (snd it) * sz) (th_dev th)) (\<lambda>d.
      rbind (load (vb_mem vb (dv_net d)) 0 sz) (\<lambda>bs.
      rbind (store (gs_cache_data gs) (i * sz) bs) (\<lambda>data.
      rbind (rget (gs_cache_table gs) s) (\<lambda>m.
      Inr (gs_put (gs\<lparr>gs_cache_data := data,
             gs_cache_table := (gs_cache_table gs)[s := m(snd it \<mapsto> In_Cache (gs_cache_gen gs) (i * sz))]\<rparr>)
           0 (th\<lparr>th_dev := d\<rparr>)))))))))"

definition cache_set_cache :: "'n verbs \<Rightarrow> (nat \<Rightarrow> byte list) \<Rightarrow> item list \<Rightarrow> 'n gstore \<Rightarrow> 'n gstore result" where
  "cache_set_cache vb fresh keys gs =
     rfold (\<lambda>(i, it). cache_one vb i it) (enumerate 0 keys)
       (gs\<lparr>gs_cache_gen := gs_cache_gen gs + 1, gs_cache_data := fresh (length keys * gs_vertex_size gs)\<rparr>)"

text \<open>The most accessed vertices of the other servers, most accessed first; ties by item, descending.\<close>

definition remote_frequency :: "nat \<Rightarrow> nat \<Rightarrow> u32 list list \<Rightarrow> nat list \<Rightarrow> (u32 \<times> item) list result" where
  "remote_frequency sid servers access_count data_num =
     rbind (rmap (\<lambda>dsid. if dsid = sid then Inr [] else
        rbind (rget data_num dsid) (\<lambda>c.
        rbind (rget access_count dsid) (\<lambda>row.
        rmap (\<lambda>dlid. rbind (rget row dlid) (\<lambda>f. Inr (f, (of_nat dsid, of_nat dlid)))) [0..<c]))) [0..<servers])
       (\<lambda>xs. Inr (rev (sort (concat xs))))"

definition select_keys :: "nat \<Rightarrow> (u32 \<times> item) list \<Rightarrow> item list" where
  "select_keys num freq = map snd (take num (takeWhile (\<lambda>(f, it). f \<noteq> 0) freq))"

definition gs_set_cache ::
    "'n verbs \<Rightarrow> (nat \<Rightarrow> byte list) \<Rightarrow> u32 list list \<Rightarrow> nat list \<Rightarrow> nat \<Rightarrow> 'n gstore \<Rightarrow> 'n gstore result" where
  "gs_set_cache vb fresh access_count data_num num_nodes_to_cache gs =
     rbind (remote_frequency (gs_sid gs) (gs_servers gs) access_count data_num) (\<lambda>freq.
     cache_set_cache vb fresh (select_keys num_nodes_to_cache freq) gs)"

end
