(* ===== verification/RemoteReads.thy ===== *)
theory RemoteReads
  imports GStore
begin

text \<open>
  That the graph store delivers: a pointer it returns leads to the record of its vertex, at once for local
  and cached vertices and after waiting for the others, and keeps doing so until the context of the
  thread is reset.
\<close>

section \<open>Requests up to their signal\<close>

definition wr_place :: "wr \<Rightarrow> wr_opcode \<times> nat \<times> nat \<times> nat" where
  "wr_place w = (wr_op w, wr_addr w, wr_len w, wr_remote w)"

lemma wr_place_mark_last: "map wr_place (mark_last ws) = map wr_place ws"
proof (cases ws rule: rev_cases)
  case (snoc xs x)
  then show ?thesis by (simp add: mark_last_def wr_place_def)
qed (simp add: mark_last_def)

lemma wr_place_cong:
  assumes "wr_place v = wr_place v'" and "wr_place w = wr_place w'"
  shows "wr_disjoint v w \<longleftrightarrow> wr_disjoint v' w'" "wr_fits rem sz v \<longleftrightarrow> wr_fits rem sz v'"
    "wr_done remote m s v \<longleftrightarrow> wr_done remote m s v'"
  using assms by (simp_all add: wr_place_def wr_disjoint_def wr_fits_def wr_done_def)

text \<open>Replacing requests by ones at the same places changes nothing of the conditions.\<close>

lemma posted_ok_place:
  assumes "\<And>s. map wr_place (out s) = map wr_place (out' s)" and "posted_ok remote sz out"
  shows "posted_ok remote sz out'"
proof -
  have len: "length (out s) = length (out' s)" for s using arg_cong [OF assms(1), of length s] by simp
  have at: "wr_place (out' s ! i) = wr_place (out s ! i)" if "i < length (out' s)" for s i
    using that assms(1) [of s] len [of s] by (metis nth_map)
  have "wr_fits (remote s) sz w" if "w \<in> set (out' s)" for s w
  proof -
    from that obtain i where i: "i < length (out' s)" "w = out' s ! i" by (auto simp: in_set_conv_nth)
    then have "wr_fits (remote s) sz (out s ! i)" using assms(2) len [of s] by (auto simp: posted_ok_def)
    with wr_place_cong(2) [OF at [OF i(1)] refl] i(2) show ?thesis by simp
  qed
  moreover have "sorted_wrt wr_disjoint (out' s)" for s
    using assms(2) wr_place_cong(1) [OF at at] len [of s] by (auto simp: posted_ok_def sorted_wrt_iff_nth_less)
  moreover have "wr_disjoint v w" if st: "s \<noteq> t" and v: "v \<in> set (out' s)" and w: "w \<in> set (out' t)" for s t v w
  proof -
    from v w obtain i j where i: "i < length (out' s)" "v = out' s ! i" and j: "j < length (out' t)" "w = out' t ! j"
      by (auto simp: in_set_conv_nth)
    then have "wr_disjoint (out s ! i) (out t ! j)" using assms(2) len [of s] len [of t] st by (auto simp: posted_ok_def)
    with wr_place_cong(1) [OF at [OF i(1)] at [OF j(1)]] i(2) j(2) show ?thesis by simp
  qed
  ultimately show ?thesis by (simp add: posted_ok_def)
qed

section \<open>Batches\<close>

text \<open>The reads of a batch of items with their pointers.\<close>

definition batch_reads :: "nat \<Rightarrow> (item \<times> vptr) list \<Rightarrow> read_batch" where
  "batch_reads sz b = concat (map (\<lambda>(it, p). case p of
     In_Buf off \<Rightarrow> [(unat (fst it), off, unat (snd it) * sz)] | _ \<Rightarrow> []) b)"

definition batch_wrs :: "nat \<Rightarrow> (item \<times> vptr) list \<Rightarrow> posted" where
  "batch_wrs sz b s = mark_last (read_wrs sz False (batch_reads sz b) s)"

definition queue_wrs :: "nat \<Rightarrow> (item \<times> vptr) list list \<Rightarrow> posted" where
  "queue_wrs sz q s = concat (map (\<lambda>b. batch_wrs sz b s) q)"

text \<open>Reads into consecutive places of the buffer from \<open>u\<close> on.\<close>

definition read_places :: "nat \<Rightarrow> nat \<Rightarrow> read_batch \<Rightarrow> bool" where
  "read_places sz u rs \<longleftrightarrow> (\<forall>i < length rs. fst (snd (rs ! i)) = u + i * sz)"

lemma read_places_append:
  "read_places sz u rs \<Longrightarrow> read_places sz u (rs @ [(s, u + length rs * sz, off)])"
  by (auto simp: read_places_def nth_append less_Suc_eq)

lemma read_places_range:
  assumes "read_places sz u rs" and "(s, a, off) \<in> set rs"
  shows "u \<le> a" "a + sz \<le> u + length rs * sz"
proof -
  from assms obtain i where "i < length rs" "a = u + i * sz" by (fastforce simp: read_places_def in_set_conv_nth)
  then show "u \<le> a" "a + sz \<le> u + length rs * sz" using row_bound [of i "length rs" sz] by simp_all
qed

lemma read_wrs_mem: "w \<in> set (read_wrs sz sig rs s) \<longleftrightarrow>
    (\<exists>a off. (s, a, off) \<in> set rs \<and> w = wr_rdma Rdma_Read a sz sig off)"
  by (force simp: read_wrs_def)

lemma read_wrs_nth:
  assumes "w \<in> set (read_wrs sz sig rs s)"
  shows "\<exists>i < length rs. fst (rs ! i) = s \<and> wr_addr w = fst (snd (rs ! i)) \<and> wr_len w = sz"
proof -
  from assms obtain a off where m: "(s, a, off) \<in> set rs" "w = wr_rdma Rdma_Read a sz sig off"
    by (auto simp: read_wrs_mem)
  from m(1) obtain i where "i < length rs" "rs ! i = (s, a, off)" by (auto simp: in_set_conv_nth)
  with m(2) show ?thesis by (auto intro!: exI [of _ i])
qed

lemma read_wrs_disjoint:
  assumes "read_places sz u rs"
  shows "sorted_wrt wr_disjoint (read_wrs sz sig rs s)"
    and "s \<noteq> t \<Longrightarrow> v \<in> set (read_wrs sz sig rs s) \<Longrightarrow> w \<in> set (read_wrs sz sig rs t) \<Longrightarrow> wr_disjoint v w"
proof -
  have apart: "fst (snd (rs ! i)) + sz \<le> fst (snd (rs ! j))" if "i < j" "j < length rs" for i j
  proof -
    have "Suc i * sz \<le> j * sz" using that(1) by (intro mult_le_mono1) simp
    with assms that show ?thesis by (simp add: read_places_def)
  qed
  have "sorted_wrt (\<lambda>r r'. fst (snd r) + sz \<le> fst (snd r')) rs"
    using apart by (simp add: sorted_wrt_iff_nth_less)
  then have "sorted_wrt (\<lambda>r r'. fst (snd r) + sz \<le> fst (snd r')) (filter (\<lambda>(nid, buf, off). nid = s) rs)"
    by (rule sorted_wrt_filter)
  then show "sorted_wrt wr_disjoint (read_wrs sz sig rs s)"
    unfolding read_wrs_def sorted_wrt_map by (rule sorted_wrt_mono_rel [rotated]) (auto simp: wr_disjoint_def)
  assume st: "s \<noteq> t" and v: "v \<in> set (read_wrs sz sig rs s)" and w: "w \<in> set (read_wrs sz sig rs t)"
  from read_wrs_nth [OF v] obtain i where
    i: "i < length rs" "fst (rs ! i) = s" "wr_addr v = fst (snd (rs ! i))" "wr_len v = sz" by blast
  from read_wrs_nth [OF w] obtain j where
    j: "j < length rs" "fst (rs ! j) = t" "wr_addr w = fst (snd (rs ! j))" "wr_len w = sz" by blast
  from st i(2) j(2) have "i < j \<or> j < i" by (metis nat_neq_iff)
  then show "wr_disjoint v w" using apart [of i j] apart [of j i] i j by (auto simp: wr_disjoint_def)
qed

text \<open>Such a batch can be posted after requests that stay below its places.\<close>

lemma batch_posted_ok:
  assumes old: "posted_ok remote M out" and below: "\<And>s w. w \<in> set (out s) \<Longrightarrow> wr_addr w + wr_len w \<le> u"
    and places: "read_places sz u rs" and top: "u + length rs * sz \<le> M"
    and src: "\<And>s a off. (s, a, off) \<in> set rs \<Longrightarrow> off + sz \<le> length (remote s)"
  shows "posted_ok remote M (\<lambda>s. out s @ mark_last (read_wrs sz False rs s))"
proof -
  have fits: "wr_fits (remote s) M w" "u \<le> wr_addr w" if "w \<in> set (read_wrs sz False rs s)" for s w
    using that src read_places_range [OF places] top by (fastforce simp: read_wrs_mem wr_fits_def)+
  have up: "wr_disjoint v w" if "v \<in> set (out s)" "w \<in> set (read_wrs sz False rs t)" for s t v w
    using below [OF that(1)] fits(2) [OF that(2)] by (simp add: wr_disjoint_def)
  have "posted_ok remote M (\<lambda>s. out s @ read_wrs sz False rs s)"
    unfolding posted_ok_def
  proof (intro conjI allI impI ballI)
    fix s w assume "w \<in> set (out s @ read_wrs sz False rs s)"
    then show "wr_fits (remote s) M w" using old fits(1) by (auto simp: posted_ok_def)
  next
    fix s show "sorted_wrt wr_disjoint (out s @ read_wrs sz False rs s)"
      using old up read_wrs_disjoint(1) [OF places] by (auto simp: sorted_wrt_append posted_ok_def)
  next
    fix s t v w assume st: "s \<noteq> t" and v: "v \<in> set (out s @ read_wrs sz False rs s)" and w: "w \<in> set (out t @ read_wrs sz False rs t)"
    have "wr_disjoint v w" if "v \<in> set (out s)" "w \<in> set (out t)" using that st old by (auto simp: posted_ok_def)
    then show "wr_disjoint v w"
      using v w up [of v s w t] up [of w t v s] read_wrs_disjoint(2) [OF places st, of v False w] wr_disjoint_sym [of v w]
      by auto
  qed
  then show ?thesis by (rule posted_ok_place [rotated]) (simp add: wr_place_mark_last)
qed

section \<open>The invariant of the store\<close>

text \<open>
  The memory of every server holds the records of its vertices; the tables of the cache point to records in
  the allocation of the cache.
\<close>

definition cluster_ok :: "(nat \<Rightarrow> byte list) \<Rightarrow> index \<Rightarrow> item agraph \<Rightarrow> 'n gstore \<Rightarrow> bool" where
  "cluster_ok remote ix g gs \<longleftrightarrow> ag_wf g \<and> bkt_offsets ix \<and> gs_use_rdma gs \<and> gs_sid gs < gs_servers gs \<and>
     gs_vertex_size gs = ix_element_size ix \<and> gs_kv gs = remote (gs_sid gs) \<and>
     (\<forall>it \<in> ag_nodes g. unat (fst it) < gs_servers gs \<and> bkt_node_ok ix g it \<and>
        holds ix g (remote (unat (fst it))) (unat (snd it) * ix_element_size ix) it)"

definition cache_ok :: "index \<Rightarrow> item agraph \<Rightarrow> 'n gstore \<Rightarrow> bool" where
  "cache_ok ix g gs \<longleftrightarrow> length (gs_cache_table gs) = gs_servers gs \<and>
     (\<forall>it p. unat (fst it) < gs_servers gs \<longrightarrow> (gs_cache_table gs ! unat (fst it)) (snd it) = Some p \<longrightarrow>
        (\<exists>off. p = In_Cache (gs_cache_gen gs) off \<and> holds ix g (gs_cache_data gs) off it))"

definition ptr_valid ::
    "'n verbs \<Rightarrow> ('n \<Rightarrow> posted) \<Rightarrow> index \<Rightarrow> item agraph \<Rightarrow> 'n gstore \<Rightarrow> 'n thd \<Rightarrow> item \<Rightarrow> vptr \<Rightarrow> bool" where
  "ptr_valid vb out ix g gs th it p \<longleftrightarrow> it \<in> ag_nodes g \<and> (case p of
     In_Kv off \<Rightarrow> holds ix g (gs_kv gs) off it
   | In_Buf off \<Rightarrow> off + ix_element_size ix \<le> th_used th \<and> holds ix g (vb_mem vb (dv_net (th_dev th))) off it \<and>
       (\<forall>i. off \<le> i \<longrightarrow> i < off + ix_element_size ix \<longrightarrow> i \<notin> posted_bytes (out (dv_net (th_dev th))))
   | In_Cache gen off \<Rightarrow> gen = gs_cache_gen gs \<and> holds ix g (gs_cache_data gs) off it)"

text \<open>A pointer that is on its way, or valid.\<close>

definition ptr_known ::
    "'n verbs \<Rightarrow> ('n \<Rightarrow> posted) \<Rightarrow> index \<Rightarrow> item agraph \<Rightarrow> 'n gstore \<Rightarrow> 'n thd \<Rightarrow> item \<Rightarrow> vptr \<Rightarrow> bool" where
  "ptr_known vb out ix g gs th it p \<longleftrightarrow> it \<in> ag_nodes g \<and>
     ((\<exists>off. p = In_Buf off \<and> off + ix_element_size ix \<le> th_used th) \<or> ptr_valid vb out ix g gs th it p)"

text \<open>The card has exactly the reads of the batches that were not waited for, all below the used part of the buffer.\<close>

definition net_ok ::
    "'n verbs \<Rightarrow> (nat \<Rightarrow> byte list) \<Rightarrow> ('n \<Rightarrow> posted) \<Rightarrow> ('n \<Rightarrow> nat) \<Rightarrow> nat \<Rightarrow> nat \<Rightarrow> 'n thd \<Rightarrow> (item \<times> vptr) list list \<Rightarrow> bool" where
  "net_ok vb remote out delay n sz th q \<longleftrightarrow> dev_ok vb remote out delay n (th_dev th) \<and>
     out (dv_net (th_dev th)) = queue_wrs sz q \<and>
     th_polls th = map (\<lambda>b. map (\<lambda>s. length (batch_wrs sz b s)) [0..<n]) q \<and>
     (\<forall>b \<in> set q. \<forall>(it, p) \<in> set b. unat (fst it) < n) \<and>
     (\<forall>s. \<forall>w \<in> set (queue_wrs sz q s). wr_addr w + wr_len w \<le> th_used th)"

definition store_ok ::
    "'n verbs \<Rightarrow> (nat \<Rightarrow> byte list) \<Rightarrow> ('n \<Rightarrow> posted) \<Rightarrow> ('n \<Rightarrow> nat) \<Rightarrow> index \<Rightarrow> item agraph \<Rightarrow> nat \<Rightarrow>
     'n gstore \<Rightarrow> (item \<times> vptr) list list \<Rightarrow> bool" where
  "store_ok vb remote out delay ix g tid gs q \<longleftrightarrow> cluster_ok remote ix g gs \<and> cache_ok ix g gs \<and>
     tid < length (gs_thds gs) \<and> net_ok vb remote out delay (gs_servers gs) (ix_element_size ix) (gs_thds gs ! tid) q \<and>
     (\<forall>b \<in> set q. \<forall>(it, p) \<in> set b. ptr_known vb out ix g gs (gs_thds gs ! tid) it p) \<and>
     length (th_cache (gs_thds gs ! tid)) = gs_servers gs \<and>
     (\<forall>it p. unat (fst it) < gs_servers gs \<longrightarrow> (th_cache (gs_thds gs ! tid) ! unat (fst it)) (snd it) = Some p \<longrightarrow>
        ptr_valid vb out ix g gs (gs_thds gs ! tid) it p)"


lemma holds_kept:
  assumes "holds ix g m off it" and "bkt_node_ok ix g it" and "same_outside A m m'"
    and "\<And>i. off \<le> i \<Longrightarrow> i < off + ix_element_size ix \<Longrightarrow> i \<notin> A"
  shows "holds ix g m' off it"
proof -
  have "slice m' off (length (bkt_record g it)) = slice m off (length (bkt_record g it))"
    by (rule same_outside_slice [OF assms(3)]) (use assms(2,4) in \<open>simp add: bkt_node_ok_def\<close>)
  with assms(1,3) show ?thesis by (simp add: holds_def same_outside_def)
qed

lemma ptr_valid_kept:
  assumes "ptr_valid vb out ix g gs th it p" and "cluster_ok remote ix g gs"
    and "gs_kv gs' = gs_kv gs" "gs_cache_gen gs' = gs_cache_gen gs" "gs_cache_data gs' = gs_cache_data gs"
    and "th_used th \<le> th_used th'"
    and "same_outside A (vb_mem vb (dv_net (th_dev th))) (vb_mem vb (dv_net (th_dev th')))"
    and "\<And>i. i < th_used th \<Longrightarrow> i \<notin> posted_bytes (out (dv_net (th_dev th))) \<Longrightarrow>
      i \<notin> A \<and> i \<notin> posted_bytes (out (dv_net (th_dev th')))"
  shows "ptr_valid vb out ix g gs' th' it p"
proof (cases p)
  case (In_Buf off)
  have node: "bkt_node_ok ix g it" using assms(1,2) by (auto simp: ptr_valid_def cluster_ok_def)
  have "i \<notin> A \<and> i \<notin> posted_bytes (out (dv_net (th_dev th')))" if "off \<le> i" "i < off + ix_element_size ix" for i
    by (rule assms(8)) (use assms(1) that In_Buf in \<open>auto simp: ptr_valid_def\<close>)
  with assms(1,6) In_Buf holds_kept [OF _ node assms(7)] show ?thesis by (auto simp: ptr_valid_def)
qed (use assms(1,3-5) in \<open>auto simp: ptr_valid_def\<close>)

text \<open>What a valid pointer reads.\<close>

definition at_ptr ::
    "'n verbs \<Rightarrow> (byte list \<Rightarrow> nat \<Rightarrow> 'a result) \<Rightarrow> nat \<Rightarrow> 'n gstore \<Rightarrow> vptr \<Rightarrow> 'a result" where
  "at_ptr vb rd tid gs p =
     rbind (rget (gs_thds gs) tid) (\<lambda>th. rbind (vptr_mem vb gs th p) (\<lambda>(m, off). rd m off))"

lemma ptr_valid_reads:
  assumes "store_ok vb remote out delay ix g tid gs q" and "ptr_valid vb out ix g gs (gs_thds gs ! tid) it p"
  shows "at_ptr vb (elem_vec ix) tid gs p = Inr (ag_vec g it)" "at_ptr vb (elem_label ix) tid gs p = Inr (ag_label g it)"
    "at_ptr vb (elem_entries ix) tid gs p = Inr (map (\<lambda>j. (ag_label g j, j)) (ag_edges g it))"
proof -
  have ok: "bkt_offsets ix" "bkt_node_ok ix g it" "tid < length (gs_thds gs)"
    using assms by (auto simp: store_ok_def cluster_ok_def ptr_valid_def)
  obtain m off where m: "vptr_mem vb gs (gs_thds gs ! tid) p = Inr (m, off)" "holds ix g m off it"
    using assms(2) by (cases p) (auto simp: ptr_valid_def vptr_mem_def)
  note rd = holds_reads [OF m(2) ok(1,2)]
  show "at_ptr vb (elem_vec ix) tid gs p = Inr (ag_vec g it)" "at_ptr vb (elem_label ix) tid gs p = Inr (ag_label g it)"
    "at_ptr vb (elem_entries ix) tid gs p = Inr (map (\<lambda>j. (ag_label g j, j)) (ag_edges g it))"
    using m(1) ok(3) rd by (simp_all add: at_ptr_def)
qed

section \<open>Planning a batch\<close>

lemma batch_reads_append [simp]: "batch_reads sz (b @ c) = batch_reads sz b @ batch_reads sz c"
  by (simp add: batch_reads_def)

lemma batch_reads_single [simp]:
  "batch_reads sz [(it, In_Buf off)] = [(unat (fst it), off, unat (snd it) * sz)]"
  "batch_reads sz [(it, In_Kv off)] = []" "batch_reads sz [(it, In_Cache gen off)] = []" "batch_reads sz [] = []"
  by (simp_all add: batch_reads_def)

definition planned :: "'n gstore \<Rightarrow> index \<Rightarrow> item agraph \<Rightarrow> nat \<Rightarrow> nat \<Rightarrow> item \<Rightarrow> vptr \<Rightarrow> bool" where
  "planned gs ix g u u' it p \<longleftrightarrow>
     (if unat (fst it) = gs_sid gs then p = In_Kv (unat (snd it) * ix_element_size ix)
      else (\<exists>off. p = In_Cache (gs_cache_gen gs) off \<and> holds ix g (gs_cache_data gs) off it) \<or>
           (\<exists>off. p = In_Buf off \<and> u \<le> off \<and> off + ix_element_size ix \<le> u'))"

lemma batch_plan:
  assumes "cluster_ok remote ix g gs" and "cache_ok ix g gs" and "set keys \<subseteq> ag_nodes g"
  shows "\<exists>ps. let rs = batch_reads (ix_element_size ix) (zip keys ps); u' = u + length rs * ix_element_size ix in
    rfold (batch_step gs) keys ([], [], u) = Inr (ps, rs, u') \<and> length ps = length keys \<and>
    read_places (ix_element_size ix) u rs \<and> length rs \<le> length keys \<and> (\<forall>(it, p) \<in> set (zip keys ps). planned gs ix g u u' it p)"
  using assms(3)
proof (induction keys rule: rev_induct)
  case Nil
  show ?case by (simp add: read_places_def)
next
  case (snoc it keys)
  let ?sz = "ix_element_size ix"
  from snoc obtain ps where ps: "rfold (batch_step gs) keys ([], [], u)
      = Inr (ps, batch_reads ?sz (zip keys ps), u + length (batch_reads ?sz (zip keys ps)) * ?sz)"
    "length ps = length keys" "read_places ?sz u (batch_reads ?sz (zip keys ps))"
    "length (batch_reads ?sz (zip keys ps)) \<le> length keys"
    "\<forall>(it, p) \<in> set (zip keys ps). planned gs ix g u (u + length (batch_reads ?sz (zip keys ps)) * ?sz) it p"
    by (auto simp: Let_def)
  let ?rs = "batch_reads ?sz (zip keys ps)" and ?s = "unat (fst it)"
  have wider: "planned gs ix g u w it p" if "planned gs ix g u v it p" "v \<le> w" for v w it p
    using that by (fastforce simp: planned_def)
  have s: "?s < gs_servers gs" "gs_vertex_size gs = ?sz" using assms(1) snoc.prems by (auto simp: cluster_ok_def)
  have step: "\<exists>p. batch_step gs it (ps, ?rs, u + length ?rs * ?sz)
      = Inr (ps @ [p], ?rs @ batch_reads ?sz [(it, p)], u + length (?rs @ batch_reads ?sz [(it, p)]) * ?sz) \<and>
      read_places ?sz u (?rs @ batch_reads ?sz [(it, p)]) \<and> length (batch_reads ?sz [(it, p)]) \<le> 1 \<and>
      planned gs ix g u (u + length (?rs @ batch_reads ?sz [(it, p)]) * ?sz) it p"
  proof (cases "?s = gs_sid gs")
    case True
    with ps(3) s show ?thesis
      by (intro exI [of _ "In_Kv (unat (snd it) * ?sz)"]) (simp add: batch_step_def planned_def)
  next
    case False
    have look: "cache_lookup gs it = Inr ((gs_cache_table gs ! ?s) (snd it))"
      using assms(2) s by (simp add: cache_lookup_def cache_ok_def)
    show ?thesis
    proof (cases "(gs_cache_table gs ! ?s) (snd it)")
      case None
      with False look ps(3) s read_places_append [OF ps(3)] show ?thesis
        by (intro exI [of _ "In_Buf (u + length ?rs * ?sz)"]) (simp add: batch_step_def planned_def)
    next
      case (Some p)
      then obtain off where "p = In_Cache (gs_cache_gen gs) off" "holds ix g (gs_cache_data gs) off it"
        using assms(2) s(1) unfolding cache_ok_def by blast
      with False look ps(3) s Some show ?thesis
        by (intro exI [of _ p]) (simp add: batch_step_def planned_def)
    qed
  qed
  then obtain p where p: "batch_step gs it (ps, ?rs, u + length ?rs * ?sz)
      = Inr (ps @ [p], ?rs @ batch_reads ?sz [(it, p)], u + length (?rs @ batch_reads ?sz [(it, p)]) * ?sz)"
      "read_places ?sz u (?rs @ batch_reads ?sz [(it, p)])" "length (batch_reads ?sz [(it, p)]) \<le> 1"
      "planned gs ix g u (u + length (?rs @ batch_reads ?sz [(it, p)]) * ?sz) it p" by blast
  show ?case
    unfolding Let_def
  proof (intro exI [of _ "ps @ [p]"] conjI)
    show "rfold (batch_step gs) (keys @ [it]) ([], [], u) = Inr (ps @ [p], batch_reads ?sz (zip (keys @ [it]) (ps @ [p])),
        u + length (batch_reads ?sz (zip (keys @ [it]) (ps @ [p]))) * ?sz)"
      using ps(1,2) p(1) by (simp add: rfold_append)
    show "length (batch_reads ?sz (zip (keys @ [it]) (ps @ [p]))) \<le> length (keys @ [it])" using ps(2,4) p(3) by simp
    show "\<forall>(it', p') \<in> set (zip (keys @ [it]) (ps @ [p])).
        planned gs ix g u (u + length (batch_reads ?sz (zip (keys @ [it]) (ps @ [p]))) * ?sz) it' p'"
      using ps(2,5) p(4) wider by fastforce
  qed (use ps(2) p(2) in simp_all)
qed

end
