(* ===== verification/StoreOps.thy ===== *)
theory StoreOps
  imports RemoteReads
begin

text \<open>
  The operations of the graph store preserve its invariant, and a pointer that was valid stays valid until
  the context of the thread is reset.
\<close>

section \<open>Replacing a thread\<close>

lemma gs_put_sel [simp]:
  "gs_sid (gs_put gs tid th) = gs_sid gs" "gs_servers (gs_put gs tid th) = gs_servers gs"
  "gs_use_rdma (gs_put gs tid th) = gs_use_rdma gs" "gs_vertex_size (gs_put gs tid th) = gs_vertex_size gs"
  "gs_kv (gs_put gs tid th) = gs_kv gs" "gs_cache_gen (gs_put gs tid th) = gs_cache_gen gs"
  "gs_cache_data (gs_put gs tid th) = gs_cache_data gs" "gs_cache_table (gs_put gs tid th) = gs_cache_table gs"
  "gs_thds (gs_put gs tid th) = (gs_thds gs)[tid := th]"
  by (simp_all add: gs_put_def)

lemma gs_put_ok [simp]:
  "cluster_ok remote ix g (gs_put gs tid th) = cluster_ok remote ix g gs"
  "cache_ok ix g (gs_put gs tid th) = cache_ok ix g gs"
  "ptr_valid vb out ix g (gs_put gs tid th) th' it p = ptr_valid vb out ix g gs th' it p"
  "ptr_known vb out ix g (gs_put gs tid th) th' it p = ptr_known vb out ix g gs th' it p"
  by (auto simp: cluster_ok_def cache_ok_def ptr_known_def ptr_valid_def split: vptr.splits)

abbreviation gs_buf :: "'n verbs \<Rightarrow> nat \<Rightarrow> 'n gstore \<Rightarrow> byte list" where
  "gs_buf vb tid gs \<equiv> vb_mem vb (dv_net (th_dev (gs_thds gs ! tid)))"

abbreviation gs_used :: "nat \<Rightarrow> 'n gstore \<Rightarrow> nat" where
  "gs_used tid gs \<equiv> th_used (gs_thds gs ! tid)"

abbreviation gs_valid ::
    "'n verbs \<Rightarrow> ('n \<Rightarrow> posted) \<Rightarrow> index \<Rightarrow> item agraph \<Rightarrow> nat \<Rightarrow> 'n gstore \<Rightarrow> item \<Rightarrow> vptr \<Rightarrow> bool" where
  "gs_valid vb out ix g tid gs it p \<equiv> ptr_valid vb out ix g gs (gs_thds gs ! tid) it p"

text \<open>What every operation but the reset keeps.\<close>

definition gs_frame ::
    "'n verbs \<Rightarrow> ('n \<Rightarrow> posted) \<Rightarrow> index \<Rightarrow> item agraph \<Rightarrow> nat \<Rightarrow> 'n gstore \<Rightarrow> 'n gstore \<Rightarrow> bool" where
  "gs_frame vb out ix g tid gs gs' \<longleftrightarrow> gs_sid gs' = gs_sid gs \<and> gs_servers gs' = gs_servers gs \<and>
     length (gs_buf vb tid gs') = length (gs_buf vb tid gs) \<and> gs_used tid gs \<le> gs_used tid gs' \<and>
     th_cache (gs_thds gs' ! tid) = th_cache (gs_thds gs ! tid) \<and>
     (\<forall>it p. gs_valid vb out ix g tid gs it p \<longrightarrow> gs_valid vb out ix g tid gs' it p)"

section \<open>Sizes of a batch\<close>

lemma length_read_wrs: "length (read_wrs sz sig rs s) \<le> length rs"
  by (simp add: read_wrs_def)

lemma length_batch_reads: "length (batch_reads sz b) \<le> length b"
  by (induction b) (auto simp: batch_reads_def split: vptr.splits)

lemma length_batch_wrs: "length (batch_wrs sz b s) \<le> length b"
  using length_read_wrs [of sz False "batch_reads sz b" s] length_batch_reads [of sz b]
  by (simp add: batch_wrs_def)

lemma length_queue_wrs: "length (queue_wrs sz q s) \<le> sum_list (map length q)"
proof (induction q)
  case (Cons b q)
  then show ?case using length_batch_wrs [of sz b s] by (simp add: queue_wrs_def)
qed (simp add: queue_wrs_def)

lemma queue_wrs_simps [simp]:
  "queue_wrs sz [] s = []" "queue_wrs sz (b # q) s = batch_wrs sz b s @ queue_wrs sz q s"
  "queue_wrs sz (q @ [b]) s = queue_wrs sz q s @ batch_wrs sz b s"
  by (simp_all add: queue_wrs_def)

lemma batch_wrs_mem:
  assumes "w \<in> set (batch_wrs sz b s)"
  shows "\<exists>it off. (it, In_Buf off) \<in> set b \<and> unat (fst it) = s \<and> wr_addr w = off \<and> wr_len w = sz \<and>
    wr_remote w = unat (snd it) * sz"
proof -
  from assms have "wr_place w \<in> wr_place ` set (read_wrs sz False (batch_reads sz b) s)"
    using wr_place_mark_last [of "read_wrs sz False (batch_reads sz b) s"] unfolding batch_wrs_def
    by (metis image_eqI set_map)
  then obtain v where v: "v \<in> set (read_wrs sz False (batch_reads sz b) s)" "wr_place w = wr_place v" by blast
  from v(1) obtain a off where "(s, a, off) \<in> set (batch_reads sz b)" "v = wr_rdma Rdma_Read a sz False off"
    by (auto simp: read_wrs_mem)
  with v(2) show ?thesis by (force simp: batch_reads_def wr_place_def split: vptr.splits)
qed

lemma batch_wrs_covers:
  assumes "(it, In_Buf off) \<in> set b"
  shows "\<exists>w \<in> set (batch_wrs sz b (unat (fst it))). wr_addr w = off \<and> wr_len w = sz \<and> wr_remote w = unat (snd it) * sz"
proof -
  have "(unat (fst it), off, unat (snd it) * sz) \<in> set (batch_reads sz b)"
    using assms by (force simp: batch_reads_def)
  then have "wr_rdma Rdma_Read off sz False (unat (snd it) * sz) \<in> set (read_wrs sz False (batch_reads sz b) (unat (fst it)))"
    by (auto simp: read_wrs_mem)
  then have "wr_place (wr_rdma Rdma_Read off sz False (unat (snd it) * sz)) \<in> wr_place ` set (batch_wrs sz b (unat (fst it)))"
    unfolding batch_wrs_def using wr_place_mark_last by (metis image_eqI set_map)
  then show ?thesis by (auto simp: wr_place_def)
qed

section \<open>Sending\<close>

lemma planned_local:
  assumes "cluster_ok remote ix g gs" and "it \<in> ag_nodes g" and "planned gs ix g u u' it p"
  shows "(\<exists>off. p = In_Buf off \<and> u \<le> off \<and> off + ix_element_size ix \<le> u' \<and> unat (fst it) \<noteq> gs_sid gs) \<or>
    (\<forall>th. ptr_valid vb out ix g gs th it p)"
proof (cases "unat (fst it) = gs_sid gs")
  case True
  then have "holds ix g (gs_kv gs) (unat (snd it) * ix_element_size ix) it"
    using assms(1,2) by (auto simp: cluster_ok_def)
  with True assms show ?thesis by (simp add: planned_def ptr_valid_def)
next
  case False
  then show ?thesis using assms by (auto simp: planned_def ptr_valid_def)
qed

text \<open>The reads of a batch that was planned for nodes of the graph come from the memory of their servers.\<close>

lemma batch_reads_source:
  assumes "cluster_ok remote ix g gs" and "fst ` set b \<subseteq> ag_nodes g" and "(s, a, off) \<in> set (batch_reads (ix_element_size ix) b)"
  shows "off + ix_element_size ix \<le> length (remote s)" "s < gs_servers gs"
proof -
  from assms(3) obtain it where it: "(it, In_Buf a) \<in> set b" "s = unat (fst it)" "off = unat (snd it) * ix_element_size ix"
    by (auto simp: batch_reads_def split: vptr.splits)
  then have "it \<in> ag_nodes g" using assms(2) by force
  with it assms(1) show "off + ix_element_size ix \<le> length (remote s)" "s < gs_servers gs"
    by (auto simp: cluster_ok_def holds_def)
qed


lemma store_okD:
  assumes "store_ok vb remote out delay ix g tid gs q"
  shows "cluster_ok remote ix g gs" "cache_ok ix g gs" "tid < length (gs_thds gs)"
    "net_ok vb remote out delay (gs_servers gs) (ix_element_size ix) (gs_thds gs ! tid) q"
    "gs_thd gs tid = Inr (gs_thds gs ! tid)" "gs_vertex_size gs = ix_element_size ix"
    "dev_ok vb remote out delay (gs_servers gs) (th_dev (gs_thds gs ! tid))"
    "out (dv_net (th_dev (gs_thds gs ! tid))) = queue_wrs (ix_element_size ix) q"
    "length (th_cache (gs_thds gs ! tid)) = gs_servers gs"
  using assms by (auto simp: store_ok_def net_ok_def gs_thd_def cluster_ok_def)

lemma store_ok_put:
  assumes ok: "store_ok vb remote out delay ix g tid gs q" and net: "net_ok vb remote out delay (gs_servers gs) (ix_element_size ix) th' q'"
    and th': "th_cache th' = th_cache (gs_thds gs ! tid)" "gs_used tid gs \<le> th_used th'"
      "length (vb_mem vb (dv_net (th_dev th'))) = length (gs_buf vb tid gs)"
    and kept: "\<And>it p. gs_valid vb out ix g tid gs it p \<Longrightarrow> ptr_valid vb out ix g gs th' it p"
    and new: "\<And>b it p. b \<in> set q' \<Longrightarrow> (it, p) \<in> set b \<Longrightarrow> b \<in> set q \<or> ptr_known vb out ix g gs th' it p"
  shows "store_ok vb remote out delay ix g tid (gs_put gs tid th') q' \<and> gs_frame vb out ix g tid gs (gs_put gs tid th')"
proof -
  note S = store_okD [OF ok]
  have known: "ptr_known vb out ix g gs th' it p" if "b \<in> set q'" "(it, p) \<in> set b" for b it p
  proof (cases "b \<in> set q")
    case True
    then have "ptr_known vb out ix g gs (gs_thds gs ! tid) it p" using ok that(2) by (auto simp: store_ok_def)
    with kept th'(2) show ?thesis unfolding ptr_known_def by fastforce
  qed (use new [OF that] in blast)
  have cached: "ptr_valid vb out ix g gs th' it p"
    if "unat (fst it) < gs_servers gs" "(th_cache th' ! unat (fst it)) (snd it) = Some p" for it p
    using ok that kept th'(1) by (cases it) (simp add: store_ok_def)
  have "store_ok vb remote out delay ix g tid (gs_put gs tid th') q'"
    unfolding store_ok_def using S(1-3,9) net known cached th'(1) by (auto simp del: split_paired_All)
  moreover have "gs_frame vb out ix g tid gs (gs_put gs tid th')"
    using S(3) th' kept by (simp add: gs_frame_def)
  ultimately show ?thesis by simp
qed

lemma send_fits:
  assumes ok: "store_ok vb remote out delay ix g tid gs q" and b: "fst ` set b \<subseteq> ag_nodes g"
    and places: "read_places (ix_element_size ix) (gs_used tid gs) (batch_reads (ix_element_size ix) b)"
    and room: "length b \<le> MAX_DOORBELL_SIZE" "sum_list (map length q) + length b \<le> RC_MAX_SEND_SIZE"
      "gs_used tid gs + length (batch_reads (ix_element_size ix) b) * ix_element_size ix \<le> length (gs_buf vb tid gs)"
  shows "batch_fits vb remote out (gs_servers gs) (ix_element_size ix) (batch_reads (ix_element_size ix) b) (th_dev (gs_thds gs ! tid))"
    (is "batch_fits vb remote out _ ?sz ?rs ?d")
proof -
  note S = store_okD [OF ok]
  have src: "off + ?sz \<le> length (remote s)" "s < gs_servers gs" if "(s, a, off) \<in> set ?rs" for s a off
    using batch_reads_source [OF S(1) b that] by auto
  have "length (read_wrs ?sz False ?rs s) \<le> length b" for s
    using length_read_wrs [of ?sz False ?rs s] length_batch_reads [of ?sz b] by simp
  moreover have "length (out (dv_net ?d) s) \<le> sum_list (map length q)" for s
    using length_queue_wrs [of ?sz q s] S(8) by simp
  ultimately have "length (read_wrs ?sz False ?rs s) \<le> MAX_DOORBELL_SIZE \<and>
      length (out (dv_net ?d) s) + length (read_wrs ?sz False ?rs s) \<le> RC_MAX_SEND_SIZE" for s
    using room(1,2) by (meson add_mono le_trans)
  moreover have "posted_ok remote (length (vb_mem vb (dv_net ?d))) (\<lambda>s. out (dv_net ?d) s @ mark_last (read_wrs ?sz False ?rs s))"
  proof (rule batch_posted_ok [OF _ _ places room(3) src(1)])
    show "posted_ok remote (length (gs_buf vb tid gs)) (out (dv_net ?d))" using S(7) by (simp add: dev_ok_def)
    show "wr_addr w + wr_len w \<le> gs_used tid gs" if "w \<in> set (out (dv_net ?d) s)" for s w
      using that S(4) by (simp add: net_ok_def)
  qed
  ultimately show ?thesis using src(2) by (auto simp: batch_fits_def)
qed

text \<open>A batch of reads above the used part of the buffer leaves all valid pointers valid.\<close>

lemma posted_at_or_above:
  assumes "read_places sz u rs" and "i < u" and "i \<in> posted_bytes (\<lambda>s. o1 s @ mark_last (read_wrs sz False rs s))"
  shows "i \<in> posted_bytes o1"
proof -
  from assms(3) obtain s w where w: "w \<in> set (o1 s) \<union> set (mark_last (read_wrs sz False rs s))"
    "wr_addr w \<le> i" "i < wr_addr w + wr_len w" unfolding posted_bytes_def by auto
  have "w \<notin> set (mark_last (read_wrs sz False rs s))"
  proof
    assume "w \<in> set (mark_last (read_wrs sz False rs s))"
    then have "wr_place w \<in> wr_place ` set (read_wrs sz False rs s)"
      using wr_place_mark_last [of "read_wrs sz False rs s"] by (metis image_eqI set_map)
    then obtain a off where "(s, a, off) \<in> set rs" "wr_addr w = a"
      by (auto simp: read_wrs_mem wr_place_def)
    with read_places_range(1) [OF assms(1)] w(2) assms(2) show False by fastforce
  qed
  with w show ?thesis by (auto simp: posted_bytes_def)
qed

lemma send_ok:
  assumes ok: "store_ok vb remote out delay ix g tid gs q" and keys: "set keys \<subseteq> ag_nodes g"
    and room: "length keys \<le> MAX_DOORBELL_SIZE" "sum_list (map length q) + length keys \<le> RC_MAX_SEND_SIZE"
      "gs_used tid gs + length keys * ix_element_size ix < length (gs_buf vb tid gs)"
  shows "\<exists>gs' ps. get_vertex_batch vb tid keys True [] gs = Inr (gs', ps) \<and> length ps = length keys \<and>
    store_ok vb remote out delay ix g tid gs' (q @ [zip keys ps]) \<and> gs_frame vb out ix g tid gs gs' \<and>
    gs_used tid gs' \<le> gs_used tid gs + length keys * ix_element_size ix \<and>
    (\<forall>(it, p) \<in> set (zip keys ps). unat (fst it) = gs_sid gs \<longrightarrow> gs_valid vb out ix g tid gs' it p)"
proof -
  note S = store_okD [OF ok]
  let ?sz = "ix_element_size ix" and ?th = "gs_thds gs ! tid" and ?n = "gs_servers gs"
  define u where "u = gs_used tid gs"
  from batch_plan [OF S(1,2) keys, of u] obtain ps where ps:
    "rfold (batch_step gs) keys ([], [], u) = Inr (ps, batch_reads ?sz (zip keys ps), u + length (batch_reads ?sz (zip keys ps)) * ?sz)"
    "length ps = length keys" "read_places ?sz u (batch_reads ?sz (zip keys ps))"
    "length (batch_reads ?sz (zip keys ps)) \<le> length keys"
    "\<forall>(it, p) \<in> set (zip keys ps). planned gs ix g u (u + length (batch_reads ?sz (zip keys ps)) * ?sz) it p"
    by (auto simp: Let_def)
  define b where "b = zip keys ps"
  define u' where "u' = u + length (batch_reads ?sz b) * ?sz"
  have nodes: "fst ` set b \<subseteq> ag_nodes g" using keys by (auto simp: b_def dest: set_zip_leftD)
  have u': "u' \<le> u + length keys * ?sz" using ps(4) by (simp add: u'_def b_def)
  have "length b = length keys" using ps(2) by (simp add: b_def)
  moreover have "gs_used tid gs + length (batch_reads ?sz b) * ?sz \<le> length (gs_buf vb tid gs)"
    using room(3) u' unfolding u'_def u_def by linarith
  ultimately have fits: "batch_fits vb remote out ?n ?sz (batch_reads ?sz b) (th_dev ?th)"
    using room ps(3) by (intro send_fits [OF ok nodes]) (auto simp: u_def b_def)
  obtain d' where d': "(if batch_reads ?sz b \<noteq> [] then RdmaReadBatchDoorbellUnsignal_Async_Send vb ?n ?sz (batch_reads ?sz b) (replicate ?n 0) (th_dev ?th)
      else Inr (th_dev ?th, replicate ?n 0)) = Inr (d', map (\<lambda>s. length (batch_wrs ?sz b s)) [0..<?n])"
    "dev_ok vb remote out delay ?n d'" "out (dv_net d') = queue_wrs ?sz (q @ [b])"
    "same_outside (posted_bytes (out (dv_net d'))) (gs_buf vb tid gs) (vb_mem vb (dv_net d'))"
  proof (cases "batch_reads ?sz b = []")
    case True
    then have "batch_wrs ?sz b s = []" for s by (simp add: batch_wrs_def read_wrs_def mark_last_def)
    with that [of "th_dev ?th"] True S(7,8) show thesis by (simp add: map_replicate_const fun_eq_iff)
  next
    case False
    from async_send_ok [OF S(7) fits, of "replicate ?n 0"] obtain d1 where d1:
      "RdmaReadBatchDoorbellUnsignal_Async_Send vb ?n ?sz (batch_reads ?sz b) (replicate ?n 0) (th_dev ?th)
        = Inr (d1, map (\<lambda>s. length (read_wrs ?sz False (batch_reads ?sz b) s)) [0..<?n])" "dev_ok vb remote out delay ?n d1"
      "out (dv_net d1) = (\<lambda>s. out (dv_net (th_dev ?th)) s @ mark_last (read_wrs ?sz False (batch_reads ?sz b) s))"
      "same_outside (posted_bytes (out (dv_net d1))) (gs_buf vb tid gs) (vb_mem vb (dv_net d1))" by auto
    from d1(1,3) False S(8) show thesis
      by (intro that [OF _ d1(2) _ d1(4)]) (simp_all add: batch_wrs_def fun_eq_iff)
  qed
  define th' where "th' = ?th\<lparr>th_dev := d', th_used := u', th_polls := th_polls ?th @ [map (\<lambda>s. length (batch_wrs ?sz b s)) [0..<?n]]\<rparr>"
  have run: "get_vertex_batch vb tid keys True [] gs = Inr (gs_put gs tid th', ps)"
    using S(5,6) ps(1) room(3) u' d'(1)
    by (simp add: get_vertex_batch_def Let_def th'_def u_def [symmetric] b_def [symmetric] u'_def [symmetric])
  have out': "out (dv_net d') = (\<lambda>s. out (dv_net (th_dev ?th)) s @ mark_last (read_wrs ?sz False (batch_reads ?sz (zip keys ps)) s))"
    using d'(3) S(8) by (simp add: fun_eq_iff batch_wrs_def b_def)
  have below: "i \<notin> posted_bytes (out (dv_net d'))" if "i < u" "i \<notin> posted_bytes (out (dv_net (th_dev ?th)))" for i
    using posted_at_or_above [OF ps(3) that(1)] that(2) unfolding out' by blast
  have kept: "ptr_valid vb out ix g gs th' it p" if "gs_valid vb out ix g tid gs it p" for it p
    using d'(4) below
    by (intro ptr_valid_kept [OF that S(1), where A = "posted_bytes (out (dv_net d'))"]) (auto simp: th'_def u'_def u_def)
  have new: "ptr_known vb out ix g gs th' it p \<and> (unat (fst it) = gs_sid gs \<longrightarrow> ptr_valid vb out ix g gs th' it p)"
    if "(it, p) \<in> set b" for it p
  proof -
    have n: "it \<in> ag_nodes g" "planned gs ix g u u' it p" using that nodes ps(5) by (auto simp: b_def u'_def)
    from planned_local [OF S(1) n, of vb out] n(1) show ?thesis by (auto simp: ptr_known_def th'_def)
  qed
  have addr: "wr_addr w + wr_len w \<le> u'" if "w \<in> set (queue_wrs ?sz (q @ [b]) s)" for s w
  proof (cases "w \<in> set (queue_wrs ?sz q s)")
    case True
    then show ?thesis using S(4) by (force simp: net_ok_def u_def u'_def)
  next
    case False
    with that have "w \<in> set (batch_wrs ?sz b s)" by simp
    from batch_wrs_mem [OF this] obtain it where "(it, In_Buf (wr_addr w)) \<in> set b" "wr_len w = ?sz" by auto
    then show ?thesis using ps(5) by (auto simp: b_def planned_def u'_def split: if_splits)
  qed
  have range: "\<forall>(it, p) \<in> set b. unat (fst it) < ?n"
    using nodes S(1) by (force simp: cluster_ok_def)
  have net: "net_ok vb remote out delay ?n ?sz th' (q @ [b])"
    using S(4) d'(2,3) addr range by (auto simp: net_ok_def th'_def)
  have "store_ok vb remote out delay ix g tid (gs_put gs tid th') (q @ [b]) \<and> gs_frame vb out ix g tid gs (gs_put gs tid th')"
    by (rule store_ok_put [OF ok net _ _ _ kept])
      (use new d'(4) in \<open>auto simp: th'_def u'_def u_def same_outside_def\<close>)
  moreover have "gs_used tid (gs_put gs tid th') \<le> u + length keys * ?sz" using u' S(3) by (simp add: th'_def)
  moreover have "\<forall>(it, p) \<in> set b. unat (fst it) = gs_sid gs \<longrightarrow> gs_valid vb out ix g tid (gs_put gs tid th') it p"
    using new S(3) by auto
  ultimately show ?thesis using run ps(2) unfolding b_def u_def by blast
qed


section \<open>Waiting\<close>

lemma batch_wrs_one_signal: "batch_wrs sz b s \<noteq> [] \<Longrightarrow> one_signal (batch_wrs sz b s)"
  unfolding batch_wrs_def by (rule one_signal_mark_last) (auto simp: read_wrs_def)

text \<open>What a completed read brings is the record its item has on its server.\<close>

lemma holds_copy:
  assumes "holds ix g rem src it" and "bkt_node_ok ix g it"
    and "slice m off (ix_element_size ix) = slice rem src (ix_element_size ix)" and "off + ix_element_size ix \<le> length m"
  shows "holds ix g m off it"
proof -
  let ?k = "length (bkt_record g it)"
  have k: "?k \<le> ix_element_size ix" using assms(2) by (simp add: bkt_node_ok_def)
  have "take ?k (slice m off (ix_element_size ix)) = take ?k (slice rem src (ix_element_size ix))" using assms(3) by simp
  then have "slice m off ?k = slice rem src ?k" using k by (simp add: slice_def min_absorb1)
  with assms(1,4) show ?thesis by (simp add: holds_def)
qed

lemma done_holds:
  assumes "cluster_ok remote ix g gs" and "it \<in> ag_nodes g" and "wr_done remote m (unat (fst it)) w"
    and "wr_addr w = off" "wr_len w = ix_element_size ix" "wr_remote w = unat (snd it) * ix_element_size ix"
    and "off + ix_element_size ix \<le> length m"
  shows "holds ix g m off it"
  by (rule holds_copy [of ix g "remote (unat (fst it))" "unat (snd it) * ix_element_size ix"])
    (use assms in \<open>auto simp: cluster_ok_def wr_done_def\<close>)

lemma wait_ok:
  assumes ok: "store_ok vb remote out delay ix g tid gs (b # q)"
  shows "\<exists>gs'. get_vertex_batch_wait vb tid gs = Inr gs' \<and> store_ok vb remote out delay ix g tid gs' q \<and>
    gs_frame vb out ix g tid gs gs' \<and> gs_used tid gs' = gs_used tid gs \<and>
    (\<forall>(it, p) \<in> set b. gs_valid vb out ix g tid gs' it p)"
proof -
  note S = store_okD [OF ok]
  let ?sz = "ix_element_size ix" and ?th = "gs_thds gs ! tid" and ?n = "gs_servers gs"
  let ?polls = "map (\<lambda>s. length (batch_wrs ?sz b s)) [0..<?n]"
  define fr where "fr = batch_wrs ?sz b"
  define rest where "rest = queue_wrs ?sz q"
  have front: "out (dv_net (th_dev ?th)) = (\<lambda>s. fr s @ rest s)" using S(8) by (simp add: fr_def rest_def fun_eq_iff)
  have none: "fr s = []" if "?n \<le> s" for s
  proof (rule ccontr)
    assume "fr s \<noteq> []"
    then have "last (fr s) \<in> set (batch_wrs ?sz b s)" by (simp add: fr_def)
    from batch_wrs_mem [OF this] S(4) that show False by (fastforce simp: net_ok_def)
  qed
  have polls: "length ?polls = ?n" "0 < ?polls ! s \<longleftrightarrow> fr s \<noteq> []" if "s < ?n" for s
    using that by (simp_all add: fr_def)
  have "fr s \<noteq> [] \<Longrightarrow> one_signal (fr s)" for s using batch_wrs_one_signal [of ?sz b s] by (simp add: fr_def)
  from async_wait_ok [OF S(7) front this none, of ?polls] polls obtain d' where d':
    "RdmaReadBatchUnsignal_Async_Wait vb ?n ?polls (th_dev ?th) = Inr (d', replicate ?n 0)"
    "dev_ok vb remote out delay ?n d'" "out (dv_net d') = rest"
    "same_outside (posted_bytes (out (dv_net (th_dev ?th)))) (gs_buf vb tid gs) (vb_mem vb (dv_net d'))"
    "\<forall>s. \<forall>w \<in> set (fr s). wr_done remote (vb_mem vb (dv_net d')) s w" by auto
  define th' where "th' = ?th\<lparr>th_dev := d', th_polls := tl (th_polls ?th)\<rparr>"
  have p: "th_polls ?th = ?polls # tl (th_polls ?th)" using S(4) by (simp add: net_ok_def)
  have run: "get_vertex_batch_wait vb tid gs = Inr (gs_put gs tid th')"
    unfolding get_vertex_batch_wait_def rget_ok [OF S(3)] rbind_Inr th'_def by (subst p) (simp add: d'(1))
  have net: "net_ok vb remote out delay ?n ?sz th' q"
    using S(4) d'(2,3) by (auto simp: net_ok_def th'_def rest_def)
  have "posted_bytes rest \<subseteq> posted_bytes (out (dv_net (th_dev ?th)))"
    unfolding front by (rule posted_bytes_mono) auto
  then have kept: "ptr_valid vb out ix g gs th' it p" if "gs_valid vb out ix g tid gs it p" for it p
    using d'(3,4) by (intro ptr_valid_kept [OF that S(1), where A = "posted_bytes (out (dv_net (th_dev ?th)))"]) (auto simp: th'_def)
  have fin: "ptr_valid vb out ix g gs th' it p" if b: "(it, p) \<in> set b" for it p
  proof (cases "gs_valid vb out ix g tid gs it p")
    case False
    from ok b have "ptr_known vb out ix g gs ?th it p" by (auto simp: store_ok_def)
    with False obtain off where off: "p = In_Buf off" "off + ?sz \<le> gs_used tid gs" and node: "it \<in> ag_nodes g"
      by (auto simp: ptr_known_def)
    from batch_wrs_covers [of it off b ?sz] b off(1) obtain w where w: "w \<in> set (fr (unat (fst it)))"
      "wr_addr w = off" "wr_len w = ?sz" "wr_remote w = unat (snd it) * ?sz" by (auto simp: fr_def)
    have po: "posted_ok remote (length (gs_buf vb tid gs)) (\<lambda>s. fr s @ rest s)" using S(7) by (simp add: dev_ok_def front)
    then have "wr_fits (remote (unat (fst it))) (length (gs_buf vb tid gs)) w" using w(1) by (auto simp: posted_ok_def)
    then have "off + ?sz \<le> length (gs_buf vb tid gs)" using w(2,3) by (simp add: wr_fits_def)
    then have "off + ?sz \<le> length (vb_mem vb (dv_net d'))" using d'(4) by (simp add: same_outside_def)
    from done_holds [OF S(1) node _ w(2-4) this] d'(5) w(1) have "holds ix g (vb_mem vb (dv_net d')) off it" by blast
    moreover have "i \<notin> posted_bytes rest" if "off \<le> i" "i < off + ?sz" for i
    proof -
      have "i \<notin> posted_bytes ((\<lambda>s. fr s @ rest s)(unat (fst it) := rest (unat (fst it))))"
        using that w(2,3) by (intro posted_ok_pop(2) [OF po refl w(1)]) simp_all
      moreover have "posted_bytes rest \<subseteq> posted_bytes ((\<lambda>s. fr s @ rest s)(unat (fst it) := rest (unat (fst it))))"
        by (rule posted_bytes_mono) auto
      ultimately show ?thesis by blast
    qed
    ultimately show ?thesis using off node d'(3) by (simp add: ptr_valid_def th'_def)
  qed (rule kept)
  have "store_ok vb remote out delay ix g tid (gs_put gs tid th') q \<and> gs_frame vb out ix g tid gs (gs_put gs tid th')"
    by (rule store_ok_put [OF ok net _ _ _ kept]) (use d'(4) in \<open>auto simp: th'_def same_outside_def\<close>)
  moreover have "gs_used tid (gs_put gs tid th') = gs_used tid gs" using S(3) by (simp add: th'_def)
  moreover have "\<forall>(it, p) \<in> set b. gs_valid vb out ix g tid (gs_put gs tid th') it p" using fin S(3) by auto
  ultimately show ?thesis using run by blast
qed


section \<open>The synchronous batch\<close>

lemma read_wrs_place: "map wr_place (read_wrs sz sig rs s) = map wr_place (read_wrs sz sig' rs s)"
  by (auto simp: read_wrs_def wr_place_def)

lemma sync_ok:
  assumes ok: "store_ok vb remote out delay ix g tid gs []" and keys: "set keys \<subseteq> ag_nodes g"
    and room: "length keys \<le> RC_MAX_SEND_SIZE" "gs_used tid gs + length keys * ix_element_size ix < length (gs_buf vb tid gs)"
  shows "\<exists>gs' ps. get_vertex_batch vb tid keys False [] gs = Inr (gs', ps) \<and> length ps = length keys \<and>
    store_ok vb remote out delay ix g tid gs' [] \<and> gs_frame vb out ix g tid gs gs' \<and>
    gs_used tid gs' \<le> gs_used tid gs + length keys * ix_element_size ix \<and>
    (\<forall>(it, p) \<in> set (zip keys ps). gs_valid vb out ix g tid gs' it p)"
proof -
  note S = store_okD [OF ok]
  let ?sz = "ix_element_size ix" and ?th = "gs_thds gs ! tid" and ?n = "gs_servers gs"
  define u where "u = gs_used tid gs"
  from batch_plan [OF S(1,2) keys, of u] obtain ps where ps:
    "rfold (batch_step gs) keys ([], [], u) = Inr (ps, batch_reads ?sz (zip keys ps), u + length (batch_reads ?sz (zip keys ps)) * ?sz)"
    "length ps = length keys" "read_places ?sz u (batch_reads ?sz (zip keys ps))"
    "length (batch_reads ?sz (zip keys ps)) \<le> length keys"
    "\<forall>(it, p) \<in> set (zip keys ps). planned gs ix g u (u + length (batch_reads ?sz (zip keys ps)) * ?sz) it p"
    by (auto simp: Let_def)
  define b where "b = zip keys ps"
  define rs where "rs = batch_reads ?sz b"
  define u' where "u' = u + length rs * ?sz"
  have nodes: "fst ` set b \<subseteq> ag_nodes g" using keys by (auto simp: b_def dest: set_zip_leftD)
  have u': "u' \<le> u + length keys * ?sz" using ps(4) by (simp add: u'_def b_def rs_def)
  have src: "off + ?sz \<le> length (remote s)" "s < ?n" if "(s, a, off) \<in> set rs" for s a off
    using batch_reads_source [OF S(1) nodes that [unfolded rs_def]] by auto
  have none: "out (dv_net (th_dev ?th)) = (\<lambda>_. [])" using S(8) by (simp add: fun_eq_iff)
  have "posted_ok remote (length (gs_buf vb tid gs)) (\<lambda>s. [] @ mark_last (read_wrs ?sz False rs s))"
  proof (rule batch_posted_ok [OF _ _ _ _ src(1)])
    show "read_places ?sz u rs" using ps(3) by (simp add: rs_def b_def)
    show "u + length rs * ?sz \<le> length (gs_buf vb tid gs)" using room(2) u' unfolding u'_def u_def by linarith
  qed (simp_all add: posted_ok_def)
  moreover have place: "map wr_place ([] @ mark_last (read_wrs ?sz False rs s)) = map wr_place (read_wrs ?sz True rs s)" for s
    using read_wrs_place [of ?sz False rs s True] by (simp add: wr_place_mark_last)
  ultimately have po: "posted_ok remote (length (gs_buf vb tid gs)) (read_wrs ?sz True rs)"
    using posted_ok_place [OF place] by simp
  have cap: "length (read_wrs ?sz True rs s) \<le> RC_MAX_SEND_SIZE" for s
    using length_read_wrs [of ?sz True rs s] ps(4) room(1) by (simp add: rs_def b_def)
  have nid: "\<forall>(nid, buf, off) \<in> set rs. nid < ?n" using src by auto
  obtain d' where d': "(if rs \<noteq> [] then RdmaReadBatch vb ?n ?sz rs (th_dev ?th) else Inr (th_dev ?th)) = Inr d'"
    "dev_ok vb remote out delay ?n d'" "out (dv_net d') = (\<lambda>_. [])"
    "same_outside (posted_bytes (read_wrs ?sz True rs)) (gs_buf vb tid gs) (vb_mem vb (dv_net d'))"
    "\<forall>s. \<forall>w \<in> set (read_wrs ?sz True rs s). wr_done remote (vb_mem vb (dv_net d')) s w"
  proof (cases "rs = []")
    case True
    with that [of "th_dev ?th"] S(7) none show thesis by (simp add: read_wrs_def)
  next
    case False
    with RdmaReadBatch_ok [OF S(7) none nid cap po] that show thesis by auto
  qed
  define th' where "th' = ?th\<lparr>th_dev := d', th_used := u'\<rparr>"
  have run: "get_vertex_batch vb tid keys False [] gs = Inr (gs_put gs tid th', ps)"
    using S(5,6) ps(1) room(2) u' d'(1)
    by (simp add: get_vertex_batch_def Let_def th'_def u_def [symmetric] b_def [symmetric] rs_def [symmetric] u'_def [symmetric])
  have net: "net_ok vb remote out delay ?n ?sz th' []"
    using S(4) d'(2,3) by (auto simp: net_ok_def th'_def fun_eq_iff)
  have none': "posted_bytes (out (dv_net d')) = {}" by (simp add: d'(3) posted_bytes_def)
  have above: "i \<notin> posted_bytes (read_wrs ?sz True rs)" if "i < u" for i
    using that read_places_range(1) [OF ps(3)] by (fastforce simp: posted_bytes_def read_wrs_mem rs_def b_def)
  have kept: "ptr_valid vb out ix g gs th' it p" if "gs_valid vb out ix g tid gs it p" for it p
    using d'(4) above none'
    by (intro ptr_valid_kept [OF that S(1), where A = "posted_bytes (read_wrs ?sz True rs)"]) (auto simp: th'_def u'_def u_def)
  have valid: "ptr_valid vb out ix g gs th' it p" if b: "(it, p) \<in> set b" for it p
  proof -
    have n: "it \<in> ag_nodes g" "planned gs ix g u u' it p" using b nodes ps(5) by (auto simp: b_def u'_def rs_def)
    from planned_local [OF S(1) n, of vb out] consider
      off where "p = In_Buf off" "off + ?sz \<le> u'" | "ptr_valid vb out ix g gs th' it p" by blast
    then show ?thesis
    proof cases
      case (1 off)
      have "(unat (fst it), off, unat (snd it) * ?sz) \<in> set rs" using b 1(1) by (force simp: batch_reads_def rs_def)
      then have "wr_rdma Rdma_Read off ?sz True (unat (snd it) * ?sz) \<in> set (read_wrs ?sz True rs (unat (fst it)))"
        by (auto simp: read_wrs_mem)
      then have "wr_done remote (vb_mem vb (dv_net d')) (unat (fst it)) (wr_rdma Rdma_Read off ?sz True (unat (snd it) * ?sz))"
        using d'(5) by blast
      moreover have "off + ?sz \<le> length (vb_mem vb (dv_net d'))"
        using 1(2) u' room(2) d'(4) by (simp add: same_outside_def u_def)
      ultimately have "holds ix g (vb_mem vb (dv_net d')) off it"
        using done_holds [OF S(1) n(1), of _ "wr_rdma Rdma_Read off ?sz True (unat (snd it) * ?sz)" off] by simp
      with 1 n(1) none' show ?thesis by (simp add: ptr_valid_def th'_def)
    qed
  qed
  have "store_ok vb remote out delay ix g tid (gs_put gs tid th') [] \<and> gs_frame vb out ix g tid gs (gs_put gs tid th')"
    by (rule store_ok_put [OF ok net _ _ _ kept]) (use d'(4) in \<open>auto simp: th'_def same_outside_def u'_def u_def\<close>)
  moreover have "gs_used tid (gs_put gs tid th') \<le> u + length keys * ?sz" using S(3) u' by (simp add: th'_def)
  moreover have "\<forall>(it, p) \<in> set b. gs_valid vb out ix g tid (gs_put gs tid th') it p" using valid S(3) by auto
  ultimately show ?thesis using run ps(2) unfolding b_def u_def by blast
qed

section \<open>The context of a thread\<close>

lemma reset_ok:
  assumes ok: "store_ok vb remote out delay ix g tid gs []"
  shows "\<exists>gs'. reset_thd_ctx tid gs = Inr gs' \<and> store_ok vb remote out delay ix g tid gs' [] \<and> gs_used tid gs' = 0 \<and>
    gs_sid gs' = gs_sid gs \<and> length (gs_buf vb tid gs') = length (gs_buf vb tid gs)"
proof -
  note S = store_okD [OF ok]
  let ?th = "gs_thds gs ! tid"
  define th' where "th' = ?th\<lparr>th_used := 0, th_cache := map (\<lambda>_. Map.empty) (th_cache ?th)\<rparr>"
  have "reset_thd_ctx tid gs = Inr (gs_put gs tid th')" using S(3) by (simp add: reset_thd_ctx_def th'_def)
  moreover have "store_ok vb remote out delay ix g tid (gs_put gs tid th') []"
    using S by (auto simp: store_ok_def net_ok_def th'_def)
  ultimately show ?thesis using S(3) by (auto simp: th'_def)
qed

lemma get_vertex_valid:
  assumes ok: "store_ok vb remote out delay ix g tid gs q" and it: "it \<in> ag_nodes g" and get: "get_vertex gs tid it = Inr p"
  shows "gs_valid vb out ix g tid gs it p"
proof -
  note S = store_okD [OF ok]
  have n: "unat (fst it) < gs_servers gs" using S(1) it by (auto simp: cluster_ok_def)
  show ?thesis
  proof (cases "unat (fst it) = gs_sid gs")
    case True
    then have "planned gs ix g 0 0 it p" using get S(5,6) by (simp add: planned_def get_vertex_def)
    with planned_local [OF S(1) it, of 0 0 p vb out] True show ?thesis by (auto simp: planned_def)
  next
    case False
    then have "(th_cache (gs_thds gs ! tid) ! unat (fst it)) (snd it) = Some p"
      using get S(5,9) n by (simp add: get_vertex_def split: option.splits)
    then show ?thesis using ok n by (cases it) (simp add: store_ok_def)
  qed
qed

lemma get_vertex_local:
  "store_ok vb remote out delay ix g tid gs q \<Longrightarrow> unat (fst it) = gs_sid gs \<Longrightarrow> \<exists>p. get_vertex gs tid it = Inr p"
  by (simp add: get_vertex_def store_okD(5))

text \<open>After an update the item is found, and every item that was found before.\<close>

lemma update_ok:
  assumes ok: "store_ok vb remote out delay ix g tid gs q" and valid: "gs_valid vb out ix g tid gs it p"
  shows "\<exists>gs'. update_thd_cache tid it p gs = Inr gs' \<and> store_ok vb remote out delay ix g tid gs' q \<and>
    gs_sid gs' = gs_sid gs \<and> gs_used tid gs' = gs_used tid gs \<and> length (gs_buf vb tid gs') = length (gs_buf vb tid gs) \<and>
    (\<forall>it' p'. gs_valid vb out ix g tid gs it' p' \<longrightarrow> gs_valid vb out ix g tid gs' it' p') \<and>
    (\<exists>p'. get_vertex gs' tid it = Inr p') \<and>
    (\<forall>it'. (\<exists>p'. get_vertex gs tid it' = Inr p') \<longrightarrow> (\<exists>p'. get_vertex gs' tid it' = Inr p'))"
proof (cases "unat (fst it) = gs_sid gs")
  case True
  with ok get_vertex_local [OF ok True] show ?thesis by (intro exI [of _ gs]) (simp add: update_thd_cache_def)
next
  case False
  note S = store_okD [OF ok]
  let ?th = "gs_thds gs ! tid" and ?s = "unat (fst it)"
  have n: "?s < gs_servers gs" using S(1) valid by (auto simp: cluster_ok_def ptr_valid_def)
  define th' where "th' = ?th\<lparr>th_cache := (th_cache ?th)[?s := (th_cache ?th ! ?s)(snd it \<mapsto> p)]\<rparr>"
  have run: "update_thd_cache tid it p gs = Inr (gs_put gs tid th')"
    using False n S(3,9) by (simp add: update_thd_cache_def th'_def)
  have same: "ptr_valid vb out ix g gs th' it' p' = gs_valid vb out ix g tid gs it' p'"
    "ptr_known vb out ix g gs th' it' p' = ptr_known vb out ix g gs ?th it' p'" for it' p'
    by (auto simp: ptr_known_def ptr_valid_def th'_def split: vptr.splits)
  have cached: "gs_valid vb out ix g tid gs it' p'"
    if "unat (fst it') < gs_servers gs" "(th_cache th' ! unat (fst it')) (snd it') = Some p'" for it' p'
  proof (cases "it' = it")
    case True
    with that(2) n S(9) valid show ?thesis by (simp add: th'_def)
  next
    case False
    then have "(th_cache th' ! unat (fst it')) (snd it') = (th_cache ?th ! unat (fst it')) (snd it')"
      using n S(9) by (cases it, cases it') (auto simp: th'_def nth_list_update word_unat_eq_iff)
    with that ok show ?thesis by (cases it') (simp add: store_ok_def)
  qed
  have "net_ok vb remote out delay (gs_servers gs) (ix_element_size ix) th' q"
    using S(4) by (simp add: net_ok_def th'_def)
  moreover have "\<forall>b \<in> set q. \<forall>(it, p) \<in> set b. ptr_known vb out ix g gs th' it p"
    using ok same(2) by (simp add: store_ok_def)
  moreover have "length (th_cache th') = gs_servers gs" using S(9) by (simp add: th'_def)
  ultimately have "store_ok vb remote out delay ix g tid (gs_put gs tid th') q"
    using cached same(1) S(1-3) unfolding store_ok_def by (fastforce simp del: split_paired_All)
  moreover have thd: "gs_thd (gs_put gs tid th') tid = Inr th'"
    using S(1,3) by (simp add: gs_thd_def cluster_ok_def)
  have cache: "th_cache th' = (th_cache ?th)[?s := (th_cache ?th ! ?s)(snd it \<mapsto> p)]" by (simp add: th'_def)
  have "\<exists>p'. get_vertex (gs_put gs tid th') tid it' = Inr p'"
    if "it' = it \<or> (\<exists>p'. get_vertex gs tid it' = Inr p')" for it'
  proof (cases "unat (fst it') = ?s")
    case True
    with that False n S(5,9) show ?thesis
      by (cases it, cases it') (auto simp: get_vertex_def thd cache split: option.splits if_splits)
  next
    case False
    with that S(5,9) show ?thesis
      by (auto simp: get_vertex_def thd cache rbind_eq_Inr rget_eq_Inr split: option.splits if_splits)
  qed
  ultimately show ?thesis using run S(3) same by (intro exI [of _ "gs_put gs tid th'"]) (auto simp: th'_def)
qed

end
