(* ===== verification/RelaxedSpec.thy ===== *)
theory RelaxedSpec
  imports GreedySpec
begin

text \<open>
  What the distributed search promises: the greedy search, except that the scores of remote vertices
  arrive late, up to \<open>relax\<close> rounds after they were asked for, and that remote vertices may be dropped
  unscored by a pruning test. Vertices seen, vertices scored, and the batches on their way are kept
  apart; the pool consists of the nearest scored ones.
\<close>

fun relaxed ::
    "nat \<Rightarrow> ('i::linorder \<Rightarrow> 'd::linorder) \<Rightarrow> ('i \<Rightarrow> 'i list) \<Rightarrow> ('i \<Rightarrow> bool) \<Rightarrow> (('d \<times> 'i) list \<Rightarrow> 'i \<Rightarrow> bool) \<Rightarrow>
     nat \<Rightarrow> nat \<Rightarrow> 'i set \<Rightarrow> 'i set \<Rightarrow> 'i set list \<Rightarrow> ('d \<times> 'i) set \<Rightarrow> ('d \<times> 'i) list option" where
  "relaxed L D E here keep 0 r V A Q X = None"
| "relaxed L D E here keep (Suc n) r V A Q X = (case filter (\<lambda>k. k \<notin> X) (pool L D A) of
     [] \<Rightarrow> Some (pool L D (A \<union> \<Union> (set Q)))
   | k # _ \<Rightarrow>
       let nbs = set (E (snd k)); new = nbs - V;
           A' = A \<union> {j \<in> new. here j};
           Q' = Q @ [{j \<in> new. \<not> here j \<and> keep (pool L D A) j}]
       in if 0 < r then relaxed L D E here keep n (r - 1) (V \<union> nbs) A' Q' (insert k X)
          else relaxed L D E here keep n 0 (V \<union> nbs) (A' \<union> hd Q') (tl Q') (insert k X))"

text \<open>Without delay and without pruning it is the greedy search.\<close>

lemma relaxed_greedy:
  assumes "\<And>P j. keep P j"
  shows "relaxed L D E here keep n 0 V V [] X = greedy L D E n V X"
proof (induction n arbitrary: V X)
  case (Suc n)
  have "V \<union> {j \<in> set (E k) - V. here j} \<union> {j \<in> set (E k) - V. \<not> here j} = V \<union> set (E k)" for k by auto
  then show ?case
    using assms Suc.IH by (auto simp: Let_def split: list.splits)
qed simp

text \<open>Each round expands a vertex that was not expanded before.\<close>

lemma relaxed_terminates:
  assumes "finite N" and "\<And>v. v \<in> N \<Longrightarrow> set (E v) \<subseteq> N" and "A \<subseteq> N" and "\<Union> (set Q) \<subseteq> N"
    and "X \<subseteq> vkey D ` N" and "card N - card X < n"
  shows "\<exists>P. relaxed L D E here keep n r V A Q X = Some P"
  using assms(3-6)
proof (induction n arbitrary: r V A Q X)
  case (Suc n)
  have fin: "finite A" "finite X" using Suc.prems assms(1) by (auto intro: finite_subset finite_imageI)
  show ?case
  proof (cases "filter (\<lambda>k. k \<notin> X) (pool L D A)")
    case (Cons k ks)
    then have "k \<in> set (filter (\<lambda>k. k \<notin> X) (pool L D A))" by simp
    then have k: "k \<notin> X" "k \<in> vkey D ` A" using set_pool [OF fin(1)] by auto
    then have k': "k \<in> vkey D ` N" "snd k \<in> N" using Suc.prems(1) by auto
    then have nb: "set (E (snd k)) \<subseteq> N" using assms(2) by simp
    have "card (insert k X) \<le> card (vkey D ` N)"
      using assms(1) k' Suc.prems(3) by (intro card_mono) auto
    also have "\<dots> \<le> card N" using assms(1) by (rule card_image_le)
    finally have less: "card N - card (insert k X) < n" using Suc.prems(4) fin(2) k(1) by simp
    have X: "insert k X \<subseteq> vkey D ` N" using Suc.prems(3) k' by simp
    define new where "new = set (E (snd k)) - V"
    define A' where "A' = A \<union> {j \<in> new. here j}"
    define Q' where "Q' = Q @ [{j \<in> new. \<not> here j \<and> keep (pool L D A) j}]"
    have A': "A' \<subseteq> N" "\<Union> (set Q') \<subseteq> N" using Suc.prems(1,2) nb by (auto simp: A'_def Q'_def new_def)
    have "Q' \<noteq> []" by (simp add: Q'_def)
    then have "set (tl Q') \<subseteq> set Q'" "hd Q' \<in> set Q'" by (auto dest: list.set_sel)
    with A' have tl: "A' \<union> hd Q' \<subseteq> N" "\<Union> (set (tl Q')) \<subseteq> N" by blast+
    show ?thesis
      using Suc.IH [OF A' X less] Suc.IH [OF tl X less] by (simp add: Cons Let_def flip: new_def A'_def Q'_def)
  qed simp
qed simp

text \<open>
  The result is the pool of a set of vertices reachable from the start; when it is returned, all
  vertices that were scored in time and belong to the pool have been expanded.
\<close>

lemma relaxed_result:
  assumes "relaxed L D E here keep n r V A Q X = Some P" and "finite R" and "\<And>v. v \<in> R \<Longrightarrow> set (E v) \<subseteq> R"
    and "A \<union> \<Union> (set Q) \<subseteq> R"
  shows "\<exists>W. P = pool L D W \<and> A \<union> \<Union> (set Q) \<subseteq> W \<and> W \<subseteq> R"
  using assms(1,4)
proof (induction n arbitrary: r V A Q X)
  case (Suc n)
  have fin: "finite A" using Suc.prems(2) assms(2) by (auto intro: finite_subset)
  show ?case
  proof (cases "filter (\<lambda>k. k \<notin> X) (pool L D A)")
    case Nil
    with Suc.prems show ?thesis by auto
  next
    case (Cons k ks)
    then have "k \<in> set (filter (\<lambda>k. k \<notin> X) (pool L D A))" by simp
    then have "k \<in> vkey D ` A" using set_pool [OF fin] by auto
    then have "snd k \<in> R" using Suc.prems(2) by auto
    then have nb: "set (E (snd k)) \<subseteq> R" using assms(3) by simp
    define new where "new = set (E (snd k)) - V"
    define A' where "A' = A \<union> {j \<in> new. here j}"
    define Q' where "Q' = Q @ [{j \<in> new. \<not> here j \<and> keep (pool L D A) j}]"
    have run: "(if 0 < r then relaxed L D E here keep n (r - 1) (V \<union> set (E (snd k))) A' Q' (insert k X)
      else relaxed L D E here keep n 0 (V \<union> set (E (snd k))) (A' \<union> hd Q') (tl Q') (insert k X)) = Some P"
      using Suc.prems(1) unfolding relaxed.simps Cons list.case Let_def A'_def Q'_def new_def .
    have grow: "A \<union> \<Union> (set Q) \<subseteq> A' \<union> \<Union> (set Q')" "A' \<union> \<Union> (set Q') \<subseteq> R"
      using Suc.prems(2) nb by (auto simp: A'_def Q'_def new_def)
    have same: "A' \<union> hd Q' \<union> \<Union> (set (tl Q')) = A' \<union> \<Union> (set Q')"
      by (cases Q') (auto simp: Q'_def)
    have "\<exists>W. P = pool L D W \<and> A' \<union> \<Union> (set Q') \<subseteq> W \<and> W \<subseteq> R"
    proof (cases "0 < r")
      case True
      with run Suc.IH grow(2) show ?thesis by auto
    next
      case False
      with run Suc.IH [of 0 _ "A' \<union> hd Q'" "tl Q'"] grow(2) show ?thesis by (simp add: same)
    qed
    with grow(1) show ?thesis by blast
  qed
qed simp

end
