(* ===== verification/DistSearch.thy ===== *)
theory DistSearch
  imports RelaxedSpec BestFirst Affinity
begin

text \<open>
  \<open>Index::search_base_index_distributed\<close> of \<open>src/index.cpp\<close>: the search of a server over all servers'
  vertices, which reads remote records asynchronously and goes on for up to \<open>relax\<close> rounds before it
  waits. The graph store is an interface here; a locale states what the search relies on.
\<close>

section \<open>The interface of the graph store\<close>

text \<open>The calls of the search, for one thread; the reads go through a pointer the store returned.\<close>

record ('s, 'p) fetch_ops =
  fo_reset :: "'s \<Rightarrow> 's result"
  fo_fetch :: "item list \<Rightarrow> 's \<Rightarrow> ('s \<times> 'p list) result"
  fo_send :: "item list \<Rightarrow> 's \<Rightarrow> ('s \<times> 'p list) result"
  fo_wait :: "'s \<Rightarrow> 's result"
  fo_remember :: "item \<Rightarrow> 'p \<Rightarrow> 's \<Rightarrow> 's result"
  fo_find :: "'s \<Rightarrow> item \<Rightarrow> 'p result"
  fo_local :: "'s \<Rightarrow> item \<Rightarrow> bool"
  fo_entries :: "'s \<Rightarrow> 'p \<Rightarrow> (u32 \<times> item) list result"
  fo_vec :: "'s \<Rightarrow> 'p \<Rightarrow> u32 list result"
  fo_label :: "'s \<Rightarrow> 'p \<Rightarrow> u32 result"

section \<open>The search\<close>

record query_stats =
  n_hops :: nat
  n_cmps :: nat
  n_cmps_local :: nat
  n_cmps_remote :: nat

definition update_stats :: "('s, 'p) fetch_ops \<Rightarrow> 's \<Rightarrow> item list \<Rightarrow> query_stats \<Rightarrow> query_stats" where
  "update_stats o1 s items st =
     st\<lparr>n_hops := n_hops st + 1, n_cmps := n_cmps st + length items,
        n_cmps_local := n_cmps_local st + length (filter (fo_local o1 s) items),
        n_cmps_remote := n_cmps_remote st + length (filter (\<lambda>it. \<not> fo_local o1 s it) items)\<rparr>"

record ('s, 'p, 'd) dsearch =
  d_pool :: "(item, 'd) npq"
  d_vis :: "rset list"
  d_store :: 's
  d_queue :: "(item \<times> 'p) list list"
  d_relax :: int
  d_stats :: query_stats

text \<open>\<open>boost::circular_buffer\<close>: a full buffer drops its front, one of capacity 0 takes nothing.\<close>

definition cb_push :: "nat \<Rightarrow> 'a list \<Rightarrow> 'a \<Rightarrow> 'a list" where
  "cb_push cap q x = (if cap = 0 then q else if length q < cap then q @ [x] else tl q @ [x])"

text \<open>The loops that compute distances: what enters the pool is remembered in the context.\<close>

definition score_items ::
    "('s, 'p) fetch_ops \<Rightarrow> (u32 list \<Rightarrow> 'd::linorder) \<Rightarrow> (item \<times> 'p) list \<Rightarrow> (item, 'd) npq \<times> 's \<Rightarrow> ((item, 'd) npq \<times> 's) result" where
  "score_items o1 cmp b =
     rfold (\<lambda>(it, p) (q, s).
       rbind (fo_vec o1 s p) (\<lambda>base.
       rbind (pq_insert q (nbr_new it (cmp base))) (\<lambda>(q, succ).
       rbind (if succ then fo_remember o1 it p s else Inr s) (\<lambda>s. Inr (q, s))))) b"

text \<open>
  The pruning test of a remote neighbour, on its approximate distance: \<open>near x y\<close> stands for
  \<open>x < y * 1.1\<close>. In a full pool of capacity 0 the code reads before the first slot.
\<close>

definition prune_test ::
    "('d \<Rightarrow> 'd \<Rightarrow> bool) \<Rightarrow> (u32 \<Rightarrow> 'd) \<Rightarrow> (item, 'd) npq \<Rightarrow> u32 \<Rightarrow> bool result" where
  "prune_test near pq_dist q vid =
     (if pq_size q < pq_cap q then Inr True
      else if pq_size q = 0 then Inl Out_Of_Bounds
      else rbind (pq_at q (pq_size q - 1)) (\<lambda>n. Inr (near (pq_dist vid) (nb_dist n))))"

definition scan_entries ::
    "('d \<Rightarrow> 'd \<Rightarrow> bool) \<Rightarrow> (u32 \<Rightarrow> 'd) \<Rightarrow> (item \<Rightarrow> bool) \<Rightarrow> (item, 'd) npq \<Rightarrow> (u32 \<times> item) list \<Rightarrow>
     rset list \<times> item list \<Rightarrow> (rset list \<times> item list) result" where
  "scan_entries near pq_dist here q =
     rfold (\<lambda>(vid, it) (v, new).
       rbind (srs_seen v it) (\<lambda>seen.
       if seen then Inr (v, new)
       else rbind (srs_mark v it) (\<lambda>v.
         if here it then Inr (v, new @ [it])
         else rbind (prune_test near pq_dist q vid) (\<lambda>flag. Inr (v, if flag then new @ [it] else new)))))"

text \<open>The remote part of a batch, after it was waited for.\<close>

definition take_batch ::
    "('s, 'p) fetch_ops \<Rightarrow> (u32 list \<Rightarrow> 'd::linorder) \<Rightarrow> (item \<times> 'p) list \<Rightarrow> (item, 'd) npq \<times> 's \<Rightarrow> ((item, 'd) npq \<times> 's) result" where
  "take_batch o1 cmp b = (\<lambda>(q, s).
     rbind (fo_wait o1 s) (\<lambda>s. score_items o1 cmp (filter (\<lambda>(it, p). \<not> fo_local o1 s it) b) (q, s)))"

definition dist_round ::
    "('s, 'p) fetch_ops \<Rightarrow> (u32 list \<Rightarrow> 'd::linorder) \<Rightarrow> ('d \<Rightarrow> 'd \<Rightarrow> bool) \<Rightarrow> (u32 \<Rightarrow> 'd) \<Rightarrow> nat \<Rightarrow>
     ('s, 'p, 'd) dsearch \<Rightarrow> ('s, 'p, 'd) dsearch result" where
  "dist_round o1 cmp near pq_dist cap st =
     rbind (pq_closest_unexpanded (d_pool st)) (\<lambda>(q, m).
     let s = d_store st in
     rbind (fo_find o1 s (nb_id m)) (\<lambda>p.
     rbind (fo_entries o1 s p) (\<lambda>es.
     rbind (scan_entries near pq_dist (fo_local o1 s) q es (d_vis st, [])) (\<lambda>(v, new).
     let stats = update_stats o1 s new (d_stats st) in
     rbind (fo_send o1 new s) (\<lambda>(s, ps).
     let b = zip new ps; queue = cb_push cap (d_queue st) b in
     rbind (score_items o1 cmp (filter (\<lambda>(it, p). fo_local o1 s it) b) (q, s)) (\<lambda>(q, s).
     if 0 < d_relax st then
       Inr (st\<lparr>d_pool := q, d_vis := v, d_store := s, d_queue := queue, d_relax := d_relax st - 1, d_stats := stats\<rparr>)
     else case queue of
       [] \<Rightarrow> Inl Out_Of_Bounds
     | front # rest \<Rightarrow>
         rbind (take_batch o1 cmp front (q, s)) (\<lambda>(q, s).
         Inr (st\<lparr>d_pool := q, d_vis := v, d_store := s, d_queue := rest, d_stats := stats\<rparr>))))))))"

fun dist_loop ::
    "('s, 'p) fetch_ops \<Rightarrow> (u32 list \<Rightarrow> 'd::linorder) \<Rightarrow> ('d \<Rightarrow> 'd \<Rightarrow> bool) \<Rightarrow> (u32 \<Rightarrow> 'd) \<Rightarrow> nat \<Rightarrow> nat \<Rightarrow>
     ('s, 'p, 'd) dsearch \<Rightarrow> ('s, 'p, 'd) dsearch result" where
  "dist_loop o1 cmp near pq_dist cap 0 st = Inl Out_Of_Fuel"
| "dist_loop o1 cmp near pq_dist cap (Suc n) st =
     (if pq_has_unexpanded (d_pool st)
      then rbind (dist_round o1 cmp near pq_dist cap st) (dist_loop o1 cmp near pq_dist cap n)
      else Inr st)"

text \<open>The batches left over are waited for and scored, but nothing of them is expanded.\<close>

definition dist_drain ::
    "('s, 'p) fetch_ops \<Rightarrow> (u32 list \<Rightarrow> 'd::linorder) \<Rightarrow> (item \<times> 'p) list list \<Rightarrow> (item, 'd) npq \<times> 's \<Rightarrow> ((item, 'd) npq \<times> 's) result" where
  "dist_drain o1 cmp = rfold (take_batch o1 cmp)"

text \<open>The entry points: the global one and those the learning graph suggests.\<close>

definition entry_items :: "index \<Rightarrow> u32 \<Rightarrow> u32 \<Rightarrow> item list result" where
  "entry_items ix learn_index_res adaptive_ep_num =
     (if 0 < adaptive_ep_num then add_adaptive_ep ix learn_index_res adaptive_ep_num [ix_membkt_EP ix]
      else Inr [ix_membkt_EP ix])"

definition dist_start ::
    "('s, 'p) fetch_ops \<Rightarrow> (u32 list \<Rightarrow> 'd::linorder) \<Rightarrow> int \<Rightarrow> item list \<Rightarrow> 'd ds_scratch \<Rightarrow> 's \<Rightarrow>
     ('s, 'p, 'd) dsearch result" where
  "dist_start o1 cmp relax init sc s =
     rbind (fo_reset o1 s) (\<lambda>s.
     rbind (require (0 \<le> relax + 1 \<and> relax + 1 \<le> int (length init)) Assert_Failed) (\<lambda>_.
     rbind (bf_collect srs_seen srs_mark init (ds_inserted sc, [])) (\<lambda>(v, new).
     let stats = update_stats o1 s new \<lparr>n_hops = 0, n_cmps = 0, n_cmps_local = 0, n_cmps_remote = 0\<rparr> in
     rbind (fo_fetch o1 new s) (\<lambda>(s, ps).
     rbind (score_items o1 cmp (zip new ps) (ds_best sc, s)) (\<lambda>(q, s).
     Inr \<lparr>d_pool = q, d_vis = v, d_store = s, d_queue = [], d_relax = relax, d_stats = stats\<rparr>)))))"

definition search_distributed ::
    "('s, 'p) fetch_ops \<Rightarrow> index \<Rightarrow> (u32 list \<Rightarrow> u32 list \<Rightarrow> 'd::linorder) \<Rightarrow> ('d \<Rightarrow> 'd \<Rightarrow> bool) \<Rightarrow> (u32 \<Rightarrow> 'd) \<Rightarrow> nat \<Rightarrow>
     'd ds_scratch \<Rightarrow> u32 list \<Rightarrow> nat \<Rightarrow> u32 \<Rightarrow> u32 \<Rightarrow> int \<Rightarrow> 's \<Rightarrow> (u32 list \<times> query_stats \<times> 's) result" where
  "search_distributed o1 ix dcmp near pq_dist fuel sc query K learn_index_res adaptive_ep_num relax s =
     (let sc = ds_clear sc; cmp = (\<lambda>base. dcmp base query) in
      rbind (entry_items ix learn_index_res adaptive_ep_num) (\<lambda>init.
      rbind (dist_start o1 cmp relax init sc s) (\<lambda>st.
      rbind (dist_loop o1 cmp near pq_dist (nat (relax + 1)) fuel st) (\<lambda>st.
      rbind (dist_drain o1 cmp (d_queue st) (d_pool st, d_store st)) (\<lambda>(q, s).
      rbind (rmap (\<lambda>i. rbind (pq_at q i) (\<lambda>n. rbind (fo_find o1 s (nb_id n)) (fo_label o1 s))) [0..<K]) (\<lambda>out.
      Inr (out, d_stats st, s)))))))"

end
