(* ===== verification/DistCorrect.thy ===== *)
theory DistCorrect
  imports DistSearch
begin

text \<open>
  The distributed search, over any graph store that keeps its contract, implements the delayed greedy
  search: no record is read before it has arrived, and every vertex of the pool is still found.
\<close>

section \<open>The contract\<close>

definition fo_found :: "('s, 'p) fetch_ops \<Rightarrow> 's \<Rightarrow> item \<Rightarrow> bool" where
  "fo_found o1 s it \<longleftrightarrow> (\<exists>p. fo_find o1 s it = Inr p)"

text \<open>What stays when the state of the store changes from \<open>s\<close> to \<open>s'\<close>.\<close>

definition fo_kept :: "('s, 'p) fetch_ops \<Rightarrow> ('s \<Rightarrow> item \<Rightarrow> 'p \<Rightarrow> bool) \<Rightarrow> 's \<Rightarrow> 's \<Rightarrow> bool" where
  "fo_kept o1 valid s s' \<longleftrightarrow> fo_local o1 s' = fo_local o1 s \<and> (\<forall>it p. valid s it p \<longrightarrow> valid s' it p) \<and>
     (\<forall>it. fo_found o1 s it \<longrightarrow> fo_found o1 s' it)"

text \<open>
  \<open>ok s q\<close>: the store serves the graph \<open>g\<close> and has the batches \<open>q\<close> on their way. \<open>valid s it p\<close>: pointer \<open>p\<close>
  leads to the record of \<open>it\<close>. \<open>room s k\<close>: \<open>k\<close> more vertices can be fetched; \<open>big s k\<close>: \<open>k\<close> can after a reset.
\<close>

locale vertex_fetch =
  fixes o1 :: "('s, 'p) fetch_ops" and g :: "item agraph" and ok :: "'s \<Rightarrow> (item \<times> 'p) list list \<Rightarrow> bool"
    and valid :: "'s \<Rightarrow> item \<Rightarrow> 'p \<Rightarrow> bool" and room :: "'s \<Rightarrow> nat \<Rightarrow> bool" and big :: "'s \<Rightarrow> nat \<Rightarrow> bool"
    and batch_max :: nat and sent_max :: nat
  assumes graph: "ok s q \<Longrightarrow> ag_wf g"
    and room_mono: "room s k \<Longrightarrow> l \<le> k \<Longrightarrow> room s l"
    and reset: "ok s [] \<Longrightarrow> \<exists>s'. fo_reset o1 s = Inr s' \<and> ok s' [] \<and> (\<forall>k. big s k \<longrightarrow> room s' k) \<and>
      fo_local o1 s' = fo_local o1 s"
    and fetch: "ok s [] \<Longrightarrow> set keys \<subseteq> ag_nodes g \<Longrightarrow> length keys \<le> sent_max \<Longrightarrow> room s (length keys + k) \<Longrightarrow>
      \<exists>s' ps. fo_fetch o1 keys s = Inr (s', ps) \<and> length ps = length keys \<and> ok s' [] \<and> fo_kept o1 valid s s' \<and>
        room s' k \<and> (\<forall>(it, p) \<in> set (zip keys ps). valid s' it p)"
    and send: "ok s q \<Longrightarrow> set keys \<subseteq> ag_nodes g \<Longrightarrow> length keys \<le> batch_max \<Longrightarrow>
      sum_list (map length q) + length keys \<le> sent_max \<Longrightarrow> room s (length keys + k) \<Longrightarrow>
      \<exists>s' ps. fo_send o1 keys s = Inr (s', ps) \<and> length ps = length keys \<and> ok s' (q @ [zip keys ps]) \<and>
        fo_kept o1 valid s s' \<and> room s' k \<and> (\<forall>(it, p) \<in> set (zip keys ps). fo_local o1 s it \<longrightarrow> valid s' it p)"
    and wait: "ok s (b # q) \<Longrightarrow> \<exists>s'. fo_wait o1 s = Inr s' \<and> ok s' q \<and> fo_kept o1 valid s s' \<and>
      (\<forall>k. room s k \<longrightarrow> room s' k) \<and> (\<forall>(it, p) \<in> set b. valid s' it p)"
    and remember: "ok s q \<Longrightarrow> valid s it p \<Longrightarrow> \<exists>s'. fo_remember o1 it p s = Inr s' \<and> ok s' q \<and>
      fo_kept o1 valid s s' \<and> (\<forall>k. room s k \<longrightarrow> room s' k) \<and> fo_found o1 s' it"
    and find: "ok s q \<Longrightarrow> it \<in> ag_nodes g \<Longrightarrow> fo_find o1 s it = Inr p \<Longrightarrow> valid s it p"
    and rd: "ok s q \<Longrightarrow> valid s it p \<Longrightarrow> fo_entries o1 s p = Inr (map (\<lambda>j. (ag_label g j, j)) (ag_edges g it)) \<and>
      fo_vec o1 s p = Inr (ag_vec g it) \<and> fo_label o1 s p = Inr (ag_label g it)"

section \<open>Scanning the neighbours\<close>

text \<open>The decision of the pruning test on the keys of the pool.\<close>

definition keeps :: "('d \<Rightarrow> 'd \<Rightarrow> bool) \<Rightarrow> (u32 \<Rightarrow> 'd) \<Rightarrow> ('i \<Rightarrow> u32) \<Rightarrow> nat \<Rightarrow> ('d \<times> 'i) list \<Rightarrow> 'i \<Rightarrow> bool" where
  "keeps near pq_dist lab L P j \<longleftrightarrow> length P < L \<or> near (pq_dist (lab j)) (fst (last P))"

lemma prune_test_ok:
  assumes wf: "pq_wf q" and some: "pq_keys q \<noteq> []"
  shows "prune_test near pq_dist q (lab j) = Inr (keeps near pq_dist lab (pq_cap q) (pq_keys q) j)"
proof -
  have len: "length (pq_keys q) = pq_size q" using wf by simp
  with some have pos: "0 < pq_size q" by (metis length_greater_0_conv)
  with pq_at_key [OF wf, of "pq_size q - 1"] len obtain n where n: "pq_at q (pq_size q - 1) = Inr n"
    "(nb_dist n, nb_id n) = pq_keys q ! (pq_size q - 1)" by auto
  then have "fst (last (pq_keys q)) = nb_dist n" using some len by (metis fst_conv last_conv_nth)
  with n(1) len pos show ?thesis by (simp add: prune_test_def keeps_def)
qed

text \<open>The new vertices of a scan, in order; remote ones only when they pass the test.\<close>

lemma scan_ok:
  fixes near :: "'d::linorder \<Rightarrow> 'd \<Rightarrow> bool" and pq_dist :: "u32 \<Rightarrow> 'd" and lab :: "item \<Rightarrow> u32"
  assumes wf: "pq_wf q" and some: "pq_keys q \<noteq> []" and dom: "set es \<subseteq> srs_dom v"
  defines "keep \<equiv> keeps near pq_dist lab (pq_cap q) (pq_keys q)"
  shows "\<exists>v' new. scan_entries near pq_dist here q (map (\<lambda>j. (lab j, j)) es) (v, []) = Inr (v', new) \<and>
    srs_abs v' = srs_abs v \<union> set es \<and> srs_dom v' = srs_dom v \<and> distinct new \<and>
    set new = {j \<in> set es - srs_abs v. here j \<or> keep j}"
proof -
  let ?es = "map (\<lambda>j. (lab j, j)) es"
  let ?P = "\<lambda>ys (v', new). srs_abs v' = srs_abs v \<union> snd ` set ys \<and> srs_dom v' = srs_dom v \<and> distinct new \<and>
    set new = {j \<in> snd ` set ys - srs_abs v. here j \<or> keep j}"
  have "\<exists>r. scan_entries near pq_dist here q ?es (v, []) = Inr r \<and> ?P ?es r"
    unfolding scan_entries_def
  proof (rule rfold_invariant)
    fix ys x zs and r :: "rset list \<times> item list" assume split: "?es = ys @ x # zs" and inv: "?P ys r"
    have "x \<in> set ?es" by (simp add: split)
    then obtain j where j: "x = (lab j, j)" "j \<in> set es" by auto
    obtain v1 new where r: "r = (v1, new)" by fastforce
    have dom1: "j \<in> srs_dom v1" using dom j inv r by auto
    obtain v2 where v2: "srs_mark v1 j = Inr v2" "srs_abs v2 = insert j (srs_abs v1)" "srs_dom v2 = srs_dom v1"
      using server_marks.mark [OF dom1] by blast
    note test = prune_test_ok [OF wf some, of near pq_dist lab j]
    show "\<exists>r'. (case x of (vid, it) \<Rightarrow> \<lambda>(v, new). rbind (srs_seen v it) (\<lambda>seen. if seen then Inr (v, new)
       else rbind (srs_mark v it) (\<lambda>v. if here it then Inr (v, new @ [it])
         else rbind (prune_test near pq_dist q vid) (\<lambda>flag. Inr (v, if flag then new @ [it] else new))))) r = Inr r' \<and>
       ?P (ys @ [x]) r'"
    proof (cases "j \<in> srs_abs v1")
      case True
      with inv r j(1) server_marks.seen [OF dom1] show ?thesis by auto
    next
      case False
      let ?new = "if here j \<or> keep j then new @ [j] else new"
      have "?P (ys @ [x]) (v2, ?new)" using False inv r j(1) v2 by auto
      with False r j(1) v2(1) server_marks.seen [OF dom1] test show ?thesis
        by (intro exI [of _ "(v2, ?new)"]) (simp add: keep_def)
    qed
  qed simp
  then show ?thesis by (force simp: image_image)
qed


section \<open>Scoring\<close>

text \<open>An insertion whose flag is false changed nothing.\<close>

lemma pq_insert_False: "pq_insert q x = Inr (q', False) \<Longrightarrow> q' = q"
  by (auto simp: pq_insert_def rbind_eq_Inr split: if_splits option.splits)

lemma pq_insert_pool:
  assumes wf: "pq_wf q" and fin: "finite A" and keys: "pq_keys q = pool (pq_cap q) D A"
  shows "\<exists>q' succ. pq_insert q (nbr_new i (D i)) = Inr (q', succ) \<and> pq_wf q' \<and> pq_cap q' = pq_cap q \<and>
    pq_keys q' = pool (pq_cap q) D (insert i A) \<and> pq_done q' = pq_done q \<inter> set (pq_keys q') \<and>
    set (pq_keys q') \<subseteq> (if succ then insert (vkey D i) (set (pq_keys q)) else set (pq_keys q))"
proof -
  have vk: "vkey D = (\<lambda>i. (D i, i))" by (simp add: vkey_def fun_eq_iff)
  from pq_insert_all_refines [OF wf fin, of D "[i]"] keys obtain q' where q':
    "pq_insert_all D [i] q = Inr q'" "pq_wf q'" "pq_cap q' = pq_cap q" "pq_keys q' = pool (pq_cap q) D (insert i A)"
    "pq_done q' = pq_done q \<inter> set (pq_keys q')" by (auto simp: pool_def vk)
  from q'(1) obtain succ where ins: "pq_insert q (nbr_new i (D i)) = Inr (q', succ)"
    by (auto simp: pq_insert_all_def rbind_eq_Inr)
  have "c \<in> set (pq_keys q)" if "c \<in> set (pq_keys q')" "c \<noteq> vkey D i" for c
  proof -
    have "c \<in> vkey D ` A" using that q'(4) set_pool [of "insert i A" "pq_cap q" D] fin by auto
    with that(1) q'(4) keys fin show ?thesis using pool_mem_antimono [of "insert i A" A c D "pq_cap q"] by auto
  qed
  then have grow: "set (pq_keys q') \<subseteq> insert (vkey D i) (set (pq_keys q))" by blast
  have "set (pq_keys q') \<subseteq> (if succ then insert (vkey D i) (set (pq_keys q)) else set (pq_keys q))"
  proof (cases succ)
    case False
    with ins pq_insert_False [of q "nbr_new i (D i)" q'] show ?thesis by simp
  qed (use grow in simp)
  with q' ins show ?thesis by blast
qed

context vertex_fetch
begin

lemma kept_refl: "fo_kept o1 valid s s"
  by (simp add: fo_kept_def)

lemma kept_trans: "fo_kept o1 valid s s' \<Longrightarrow> fo_kept o1 valid s' s'' \<Longrightarrow> fo_kept o1 valid s s''"
  by (simp add: fo_kept_def)

lemma kept_D:
  assumes "fo_kept o1 valid s s'"
  shows "fo_local o1 s' = fo_local o1 s" "valid s it p \<Longrightarrow> valid s' it p" "fo_found o1 s it \<Longrightarrow> fo_found o1 s' it"
  using assms unfolding fo_kept_def by blast+

lemma score:
  assumes "ok s Q" and "pq_wf q" and "pq_cap q = L" and "finite A" and "pq_keys q = pool L (\<lambda>v. cmp (ag_vec g v)) A"
    and "\<forall>(it, p) \<in> set b. valid s it p" and "\<forall>k \<in> set (pq_keys q). fo_found o1 s (snd k)"
  shows "\<exists>q' s'. score_items o1 cmp b (q, s) = Inr (q', s') \<and> pq_wf q' \<and> pq_cap q' = L \<and>
    pq_keys q' = pool L (\<lambda>v. cmp (ag_vec g v)) (A \<union> fst ` set b) \<and> pq_done q' = pq_done q \<inter> set (pq_keys q') \<and>
    ok s' Q \<and> fo_kept o1 valid s s' \<and> (\<forall>k. room s k \<longrightarrow> room s' k) \<and> (\<forall>k \<in> set (pq_keys q'). fo_found o1 s' (snd k))"
  using assms
proof (induction b arbitrary: q s A)
  case Nil
  then show ?case using pq_done_subset [of q] kept_refl by (auto simp: score_items_def)
next
  case (Cons x b)
  let ?D = "\<lambda>v. cmp (ag_vec g v)"
  obtain it p where x: "x = (it, p)" by fastforce
  from Cons.prems x have v: "valid s it p" by simp
  from pq_insert_pool [OF Cons.prems(2,4), of ?D it] Cons.prems(3,5) obtain q1 succ where q1:
    "pq_insert q (nbr_new it (?D it)) = Inr (q1, succ)" "pq_wf q1" "pq_cap q1 = L" "pq_keys q1 = pool L ?D (insert it A)"
    "pq_done q1 = pq_done q \<inter> set (pq_keys q1)"
    "set (pq_keys q1) \<subseteq> (if succ then insert (vkey ?D it) (set (pq_keys q)) else set (pq_keys q))" by auto
  obtain s1 where s1: "(if succ then fo_remember o1 it p s else Inr s) = Inr s1" "ok s1 Q" "fo_kept o1 valid s s1"
    "\<forall>k. room s k \<longrightarrow> room s1 k" "succ \<longrightarrow> fo_found o1 s1 it"
    using remember [OF Cons.prems(1) v] Cons.prems(1) kept_refl by (cases succ) auto
  have "fo_found o1 s1 (snd k)" if "k \<in> set (pq_keys q1)" for k
  proof (cases "succ \<and> k = vkey ?D it")
    case False
    then have "k \<in> set (pq_keys q)" using that q1(6) by (auto split: if_splits)
    then have "fo_found o1 s (snd k)" using Cons.prems(7) by blast
    then show ?thesis using s1(3) unfolding fo_kept_def by blast
  qed (use s1(5) in simp)
  moreover have "\<forall>(it, p) \<in> set b. valid s1 it p" using Cons.prems(6) s1(3) by (auto simp: fo_kept_def)
  moreover have "finite (insert it A)" using Cons.prems(4) by simp
  ultimately obtain q2 s2 where q2: "score_items o1 cmp b (q1, s1) = Inr (q2, s2)" "pq_wf q2" "pq_cap q2 = L"
    "pq_keys q2 = pool L ?D (insert it A \<union> fst ` set b)" "pq_done q2 = pq_done q1 \<inter> set (pq_keys q2)" "ok s2 Q"
    "fo_kept o1 valid s1 s2" "\<forall>k. room s1 k \<longrightarrow> room s2 k" "\<forall>k \<in> set (pq_keys q2). fo_found o1 s2 (snd k)"
    using Cons.IH [OF s1(2) q1(2,3) _ q1(4)] by blast
  have run: "score_items o1 cmp (x # b) (q, s) = Inr (q2, s2)"
    using q1(1) s1(1) q2(1) rd [OF Cons.prems(1) v] by (simp add: score_items_def x)
  have "c \<in> set (pq_keys q1)" if "c \<in> pq_done q" "c \<in> set (pq_keys q2)" for c
  proof -
    have "c \<in> vkey ?D ` A"
      using that(1) pq_done_subset [of q] Cons.prems(5) set_pool [OF Cons.prems(4), of L ?D] by auto
    then show ?thesis
      using pool_mem_antimono [of "insert it A \<union> fst ` set b" "insert it A" c ?D L] that(2) Cons.prems(4) q2(4) q1(4) by auto
  qed
  then have "pq_done q2 = pq_done q \<inter> set (pq_keys q2)" using q1(5) q2(5) by blast
  moreover have "insert it A \<union> fst ` set b = A \<union> fst ` set (x # b)" by (simp add: x)
  ultimately show ?case
    using run q2 s1(4) kept_trans [OF s1(3) q2(7)] by auto
qed


section \<open>The loop\<close>

lemma fst_filter: "fst ` set (filter (\<lambda>(it, p). P it) b) = {it \<in> fst ` set b. P it}"
  by (induction b) auto

text \<open>The remote items of a batch.\<close>

definition far_items :: "(item \<Rightarrow> bool) \<Rightarrow> (item \<times> 'p) list \<Rightarrow> item set" where
  "far_items here b = {it \<in> fst ` set b. \<not> here it}"

definition search_limits :: "nat \<Rightarrow> nat \<Rightarrow> bool" where
  "search_limits r0 B \<longleftrightarrow> (\<forall>v \<in> ag_nodes g. length (ag_edges g v) \<le> B) \<and> B \<le> batch_max \<and> (r0 + 1) * B \<le> sent_max"

definition d_inv ::
    "(u32 list \<Rightarrow> 'd::linorder) \<Rightarrow> (item \<Rightarrow> bool) \<Rightarrow> nat \<Rightarrow> nat \<Rightarrow> nat \<Rightarrow> nat \<Rightarrow> item set \<Rightarrow> item set \<Rightarrow> item set list \<Rightarrow> ('d \<times> item) set \<Rightarrow>
     ('s, 'p, 'd) dsearch \<Rightarrow> bool" where
  "d_inv cmp here L r0 B r V A Q X st \<longleftrightarrow>
     pq_wf (d_pool st) \<and> pq_cap (d_pool st) = L \<and> pq_keys (d_pool st) = pool L (\<lambda>v. cmp (ag_vec g v)) A \<and>
     pq_done (d_pool st) = X \<inter> set (pq_keys (d_pool st)) \<and>
     srs_abs (d_vis st) = V \<and> ag_nodes g \<subseteq> srs_dom (d_vis st) \<and> V \<subseteq> ag_nodes g \<and> A \<subseteq> V \<and> \<Union> (set Q) \<subseteq> V \<and>
     X \<subseteq> vkey (\<lambda>v. cmp (ag_vec g v)) ` A \<and>
     ok (d_store st) (d_queue st) \<and> fo_local o1 (d_store st) = here \<and> Q = map (far_items here) (d_queue st) \<and>
     (\<forall>b \<in> set (d_queue st). length b \<le> B) \<and> length (d_queue st) + r = r0 \<and> d_relax st = int r \<and>
     room (d_store st) (card (ag_nodes g) - card V) \<and>
     (\<forall>k \<in> set (pq_keys (d_pool st)). fo_found o1 (d_store st) (snd k))"

text \<open>Waiting for the front batch and scoring it.\<close>

lemma take:
  assumes ok: "ok s (b # Q)" and q: "pq_wf q" "pq_cap q = L" "finite A" "pq_keys q = pool L (\<lambda>v. cmp (ag_vec g v)) A"
    and found: "\<forall>k \<in> set (pq_keys q). fo_found o1 s (snd k)"
  shows "\<exists>q' s'. take_batch o1 cmp b (q, s) = Inr (q', s') \<and> pq_wf q' \<and> pq_cap q' = L \<and>
    pq_keys q' = pool L (\<lambda>v. cmp (ag_vec g v)) (A \<union> far_items (fo_local o1 s) b) \<and> pq_done q' = pq_done q \<inter> set (pq_keys q') \<and>
    ok s' Q \<and> fo_kept o1 valid s s' \<and> (\<forall>k. room s k \<longrightarrow> room s' k) \<and> (\<forall>k \<in> set (pq_keys q'). fo_found o1 s' (snd k))"
proof -
  from wait [OF ok] obtain s1 where s1: "fo_wait o1 s = Inr s1" "ok s1 Q" "fo_kept o1 valid s s1"
    "\<forall>k. room s k \<longrightarrow> room s1 k" "\<forall>(it, p) \<in> set b. valid s1 it p" by blast
  let ?b = "filter (\<lambda>(it, p). \<not> fo_local o1 s1 it) b"
  have "\<forall>(it, p) \<in> set ?b. valid s1 it p" using s1(5) by auto
  moreover have "\<forall>k \<in> set (pq_keys q). fo_found o1 s1 (snd k)" using found kept_D(3) [OF s1(3)] by blast
  ultimately obtain q' s' where r: "score_items o1 cmp ?b (q, s1) = Inr (q', s')" "pq_wf q'" "pq_cap q' = L"
    "pq_keys q' = pool L (\<lambda>v. cmp (ag_vec g v)) (A \<union> fst ` set ?b)" "pq_done q' = pq_done q \<inter> set (pq_keys q')"
    "ok s' Q" "fo_kept o1 valid s1 s'" "\<forall>k. room s1 k \<longrightarrow> room s' k" "\<forall>k \<in> set (pq_keys q'). fo_found o1 s' (snd k)"
    using score [OF s1(2) q] by blast
  moreover have "fst ` set ?b = far_items (fo_local o1 s) b"
    unfolding far_items_def kept_D(1) [OF s1(3)] by (rule fst_filter)
  ultimately show ?thesis using s1(1,4) kept_trans [OF s1(3) r(7)] by (auto simp: take_batch_def)
qed

text \<open>A vertex that was expanded stays expanded while it is in the pool.\<close>

lemma done_grow:
  assumes "finite W" and "A \<subseteq> W" and "X \<subseteq> vkey D ` A"
    and "pq_keys q = pool L D A" and "pq_done q = X \<inter> set (pq_keys q)"
    and "pq_keys q' = pool L D W" and "pq_done q' = pq_done q \<inter> set (pq_keys q')"
  shows "pq_done q' = X \<inter> set (pq_keys q')"
proof -
  have "c \<in> set (pool L D A)" if "c \<in> X" "c \<in> set (pool L D W)" for c
    using pool_mem_antimono [OF assms(1,2)] assms(3) that by blast
  then show ?thesis unfolding assms(4-7) by (intro equalityI subsetI) simp_all
qed

text \<open>The entry the queue hands out is the first unexpanded one of the pool.\<close>

lemma closest_first:
  assumes wf: "pq_wf q" and keys: "pq_keys q = pool L D A" and dn: "pq_done q = X \<inter> set (pq_keys q)"
    and first: "filter (\<lambda>k. k \<notin> X) (pool L D A) = k # ks"
  shows "pq_has_unexpanded q \<and> (\<exists>q' m. pq_closest_unexpanded q = Inr (q', m) \<and> pq_wf q' \<and> pq_cap q' = pq_cap q \<and>
    pq_keys q' = pq_keys q \<and> nb_id m = snd k \<and> pq_done q' = insert k X \<inter> set (pq_keys q'))"
proof -
  have "k \<in> set (filter (\<lambda>k. k \<notin> X) (pool L D A))" by (simp add: first)
  then have k: "k \<in> set (pq_keys q) - pq_done q" using keys dn by auto
  then have has: "pq_has_unexpanded q" using wf by (auto simp: pq_has_unexpanded_iff)
  from pq_closest_unexpanded_refines [OF wf has] obtain q' m where q':
    "pq_closest_unexpanded q = Inr (q', m)" "pq_wf q'" "pq_cap q' = pq_cap q" "pq_keys q' = pq_keys q"
    "nb_key m \<in> set (pq_keys q) - pq_done q" "\<forall>c \<in> set (pq_keys q) - pq_done q. nb_key m \<le> c"
    "pq_done q' = insert (nb_key m) (pq_done q)" by blast
  have "sorted_wrt (<) (filter (\<lambda>k. k \<notin> X) (pool L D A))" by (intro sorted_wrt_filter pool_sorted)
  moreover have "nb_key m \<in> set (filter (\<lambda>k. k \<notin> X) (pool L D A))" using q'(5) keys dn by auto
  ultimately have "k \<le> nb_key m" using first by auto
  moreover have "nb_key m \<le> k" using q'(6) k by blast
  ultimately have km: "nb_key m = k" by simp
  then have "nb_id m = snd k" by (auto simp: nb_key_def)
  moreover have "pq_done q' = insert k X \<inter> set (pq_keys q')" using q'(4,7) dn k km by auto
  ultimately show ?thesis using has q'(1-4) by blast
qed


text \<open>The room left covers the new vertices of a scan.\<close>

lemma room_left:
  assumes "finite N" and "V \<union> set new \<subseteq> W" and "W \<subseteq> N" and "distinct new" and "set new \<inter> V = {}"
  shows "length new + (card N - card W) \<le> card N - card V"
proof -
  have fin: "finite W" "finite V" using assms(1-3) by (auto intro: finite_subset)
  have "card V + length new = card (V \<union> set new)"
    using assms(4,5) fin card_Un_disjoint [of V "set new"] distinct_card [OF assms(4)] by (simp add: Int_commute)
  also have "\<dots> \<le> card W" using assms(2) fin by (intro card_mono)
  finally show ?thesis using card_mono [OF assms(1,3)] by simp
qed

lemma batch_total: "(\<And>b. b \<in> set q \<Longrightarrow> length b \<le> B) \<Longrightarrow> sum_list (map length q) \<le> length q * B"
  by (induction q) (auto intro: add_mono)

text \<open>The first half of a round: expand, scan, send the batch, score its local part.\<close>

lemma half_round:
  fixes cmp :: "u32 list \<Rightarrow> 'd::linorder" and near :: "'d \<Rightarrow> 'd \<Rightarrow> bool" and pq_dist :: "u32 \<Rightarrow> 'd"
  assumes inv: "d_inv cmp here L r0 B r V A Q X st" and lim: "search_limits r0 B"
    and first: "filter (\<lambda>k. k \<notin> X) (pool L (\<lambda>v. cmp (ag_vec g v)) A) = k # ks"
  defines "D \<equiv> \<lambda>v. cmp (ag_vec g v)"
  defines "nbs \<equiv> set (ag_edges g (snd k))"
  defines "A' \<equiv> A \<union> {j \<in> nbs - V. here j}"
  defines "Q' \<equiv> Q @ [{j \<in> nbs - V. \<not> here j \<and> keeps near pq_dist (ag_label g) L (pool L D A) j}]"
  shows "\<exists>q1 m p v new s1 ps q2 s2. pq_closest_unexpanded (d_pool st) = Inr (q1, m) \<and>
    fo_find o1 (d_store st) (nb_id m) = Inr p \<and>
    fo_entries o1 (d_store st) p = Inr (map (\<lambda>j. (ag_label g j, j)) (ag_edges g (snd k))) \<and>
    scan_entries near pq_dist here q1 (map (\<lambda>j. (ag_label g j, j)) (ag_edges g (snd k))) (d_vis st, []) = Inr (v, new) \<and>
    fo_send o1 new (d_store st) = Inr (s1, ps) \<and> fo_local o1 s1 = here \<and>
    score_items o1 cmp (filter (\<lambda>(it, p). here it) (zip new ps)) (q1, s1) = Inr (q2, s2) \<and>
    (\<forall>st'. d_pool st' = q2 \<and> d_vis st' = v \<and> d_store st' = s2 \<and> d_queue st' = d_queue st @ [zip new ps] \<and> d_relax st' = int r' \<and>
       length (d_queue st) + 1 + r' = rt \<longrightarrow> d_inv cmp here L rt B r' (V \<union> nbs) A' Q' (insert k X) st')"
proof -
  note I = inv [unfolded d_inv_def, folded D_def]
  let ?s = "d_store st" and ?N = "ag_nodes g" and ?keep = "keeps near pq_dist (ag_label g) L (pool L D A)"
  have wf: "ag_wf g" using graph I by blast
  then have fin: "finite ?N" "finite V" "finite A" using I by (auto simp: ag_wf_def intro: finite_subset)
  note first' = first [folded D_def]
  have k: "k \<in> set (pool L D A)" "k \<notin> X" using arg_cong [OF first', of set] by auto
  then have kA: "k \<in> vkey D ` A" using set_pool [OF fin(3)] by blast
  then have node: "snd k \<in> ?N" using I by auto
  have nbs: "nbs \<subseteq> ?N" using wf node by (auto simp: ag_wf_def nbs_def)
  from closest_first [of "d_pool st" L D A X k ks] I first' obtain q1 m where q1:
    "pq_closest_unexpanded (d_pool st) = Inr (q1, m)" "pq_wf q1" "pq_cap q1 = L" "pq_keys q1 = pool L D A"
    "nb_id m = snd k" "pq_done q1 = insert k X \<inter> set (pq_keys q1)" by auto
  have "fo_found o1 ?s (snd k)" using I k(1) by simp
  then obtain p where p: "fo_find o1 ?s (snd k) = Inr p" by (auto simp: fo_found_def)
  have es: "fo_entries o1 ?s p = Inr (map (\<lambda>j. (ag_label g j, j)) (ag_edges g (snd k)))"
    using rd find [OF _ node p] I by blast
  have some: "pq_keys q1 \<noteq> []" using k(1) q1(4) by auto
  have "nbs \<subseteq> srs_dom (d_vis st)" using nbs I by blast
  from scan_ok [OF q1(2) some this [unfolded nbs_def], where near = near and pq_dist = pq_dist and lab = "ag_label g" and here = here] obtain v new where new:
    "scan_entries near pq_dist here q1 (map (\<lambda>j. (ag_label g j, j)) (ag_edges g (snd k))) (d_vis st, []) = Inr (v, new)"
    "srs_abs v = V \<union> nbs" "srs_dom v = srs_dom (d_vis st)" "distinct new" "set new = {j \<in> nbs - V. here j \<or> ?keep j}"
    using I q1(3,4) by (auto simp: nbs_def)
  have new_nodes: "set new \<subseteq> ?N" using new(5) nbs by auto
  have "length new \<le> length (ag_edges g (snd k))"
    using distinct_card [OF new(4)] card_mono [of nbs "set new"] card_length [of "ag_edges g (snd k)"] new(5)
    by (auto simp: nbs_def)
  then have len: "length new \<le> B" "B \<le> batch_max" using lim node by (auto simp: search_limits_def)
  have "sum_list (map length (d_queue st)) \<le> length (d_queue st) * B" using I by (intro batch_total) blast
  also have "\<dots> \<le> r0 * B" using I by (intro mult_le_mono1) auto
  finally have sent: "sum_list (map length (d_queue st)) + length new \<le> sent_max"
    using lim len(1) by (simp add: search_limits_def)
  have "room ?s (length new + (card ?N - card (V \<union> nbs)))"
    by (rule room_mono [OF _ room_left [OF fin(1)]]) (use I new(4,5) nbs in auto)
  from send [OF _ new_nodes le_trans [OF len] sent this] I obtain s1 ps where s1: "fo_send o1 new ?s = Inr (s1, ps)"
    "length ps = length new" "ok s1 (d_queue st @ [zip new ps])" "fo_kept o1 valid ?s s1"
    "room s1 (card ?N - card (V \<union> nbs))" "\<forall>(it, p) \<in> set (zip new ps). here it \<longrightarrow> valid s1 it p" by blast
  have here: "fo_local o1 s1 = here" using kept_D(1) [OF s1(4)] I by simp
  let ?b = "filter (\<lambda>(it, p). here it) (zip new ps)"
  have "\<forall>k \<in> set (pq_keys q1). fo_found o1 s1 (snd k)" using kept_D(3) [OF s1(4)] I q1(4) by auto
  moreover have "\<forall>(it, p) \<in> set ?b. valid s1 it p" using s1(6) by auto
  ultimately obtain q2 s2 where q2: "score_items o1 cmp ?b (q1, s1) = Inr (q2, s2)" "pq_wf q2" "pq_cap q2 = L"
    "pq_keys q2 = pool L D (A \<union> fst ` set ?b)" "pq_done q2 = pq_done q1 \<inter> set (pq_keys q2)"
    "ok s2 (d_queue st @ [zip new ps])" "fo_kept o1 valid s1 s2" "\<forall>k. room s1 k \<longrightarrow> room s2 k"
    "\<forall>k \<in> set (pq_keys q2). fo_found o1 s2 (snd k)"
    using score [OF s1(3) q1(2,3) fin(3) q1(4) [unfolded D_def]] unfolding D_def by blast
  have fz: "fst ` set (zip new ps) = set new" using s1(2) by (metis map_fst_zip set_map)
  have A': "A \<union> fst ` set ?b = A'" unfolding fst_filter fz A'_def using new(5) by auto
  have Q': "Q' = map (far_items here) (d_queue st @ [zip new ps])"
    using I new(5) by (auto simp: Q'_def far_items_def fz)
  have fin': "finite A'" using nbs fin by (auto simp: A'_def intro: finite_subset)
  have X: "insert k X \<subseteq> vkey D ` A" using I kA by simp
  have "pq_done q2 = insert k X \<inter> set (pq_keys q2)"
    using done_grow [OF fin' _ X q1(4,6)] q2(4,5) A' by (simp add: A'_def)
  moreover have "here = fo_local o1 s2" using kept_D(1) [OF q2(7)] here by simp
  moreover have "length (zip new ps) \<le> B" using len(1) by simp
  moreover have "insert k X \<subseteq> vkey D ` A'" using X by (auto simp: A'_def)
  moreover have "\<Union> (set Q) \<subseteq> V" "A \<subseteq> V" using inv unfolding d_inv_def by blast+
  then have "A' \<subseteq> V \<union> nbs" "\<Union> (set Q') \<subseteq> V \<union> nbs" by (auto simp: A'_def Q'_def)
  ultimately have "d_inv cmp here L rt B r' (V \<union> nbs) A' Q' (insert k X) st'"
    if "d_pool st' = q2" "d_vis st' = v" "d_store st' = s2" "d_queue st' = d_queue st @ [zip new ps]" "d_relax st' = int r'"
      "length (d_queue st) + 1 + r' = rt" for st'
    using that I new(2,3) nbs q2 s1(5) Q' A' unfolding d_inv_def D_def [symmetric] by auto
  with q1(1,5) p es new(1) s1(1) here q2(1) show ?thesis by (metis (no_types, lifting))
qed


lemma round:
  fixes cmp :: "u32 list \<Rightarrow> 'd::linorder" and near :: "'d \<Rightarrow> 'd \<Rightarrow> bool" and pq_dist :: "u32 \<Rightarrow> 'd"
  assumes inv: "d_inv cmp here L r0 B r V A Q X st" and lim: "search_limits r0 B"
    and first: "filter (\<lambda>k. k \<notin> X) (pool L (\<lambda>v. cmp (ag_vec g v)) A) = k # ks"
  defines "D \<equiv> \<lambda>v. cmp (ag_vec g v)"
  defines "nbs \<equiv> set (ag_edges g (snd k))"
  defines "A' \<equiv> A \<union> {j \<in> nbs - V. here j}"
  defines "Q' \<equiv> Q @ [{j \<in> nbs - V. \<not> here j \<and> keeps near pq_dist (ag_label g) L (pool L D A) j}]"
  shows "\<exists>st'. dist_round o1 cmp near pq_dist (r0 + 1) st = Inr st' \<and>
    (if 0 < r then d_inv cmp here L r0 B (r - 1) (V \<union> nbs) A' Q' (insert k X) st'
     else d_inv cmp here L r0 B 0 (V \<union> nbs) (A' \<union> hd Q') (tl Q') (insert k X) st')"
proof -
  have I: "fo_local o1 (d_store st) = here" "length (d_queue st) + r = r0" "d_relax st = int r"
    using inv by (simp_all add: d_inv_def)
  define r' where "r' = r - 1"
  define r1 where "r1 = (if 0 < r then r0 else r0 + 1)"
  have r1: "length (d_queue st) + 1 + r' = r1" using I(2) by (auto simp: r1_def r'_def)
  from half_round [OF inv lim first, where near = near and pq_dist = pq_dist and r' = r' and rt = r1] obtain q1 m p v new s1 ps q2 s2 where h:
    "pq_closest_unexpanded (d_pool st) = Inr (q1, m)" "fo_find o1 (d_store st) (nb_id m) = Inr p"
    "fo_entries o1 (d_store st) p = Inr (map (\<lambda>j. (ag_label g j, j)) (ag_edges g (snd k)))"
    "scan_entries near pq_dist here q1 (map (\<lambda>j. (ag_label g j, j)) (ag_edges g (snd k))) (d_vis st, []) = Inr (v, new)"
    "fo_send o1 new (d_store st) = Inr (s1, ps)" "fo_local o1 s1 = here"
    "score_items o1 cmp (filter (\<lambda>(it, p). here it) (zip new ps)) (q1, s1) = Inr (q2, s2)"
    and inv': "\<And>st' :: ('s, 'p, 'd) dsearch. d_pool st' = q2 \<Longrightarrow> d_vis st' = v \<Longrightarrow> d_store st' = s2 \<Longrightarrow>
      d_queue st' = d_queue st @ [zip new ps] \<Longrightarrow> d_relax st' = int r' \<Longrightarrow>
      d_inv cmp here L r1 B r' (V \<union> nbs) A' Q' (insert k X) st'"
    unfolding nbs_def A'_def Q'_def D_def using r1 by (elim exE conjE) blast
  have push: "cb_push (Suc r0) (d_queue st) (zip new ps) = d_queue st @ [zip new ps]"
    using I(2) by (simp add: cb_push_def)
  define stats where "stats = update_stats o1 (d_store st) new (d_stats st)"
  note run = dist_round_def h I(1) push Let_def stats_def [symmetric]
  show ?thesis
  proof (cases "0 < r")
    case True
    define st' where "st' = st\<lparr>d_pool := q2, d_vis := v, d_store := s2, d_queue := d_queue st @ [zip new ps], d_relax := d_relax st - 1, d_stats := stats\<rparr>"
    have "dist_round o1 cmp near pq_dist (r0 + 1) st = Inr st'" using True I(3) by (simp add: run st'_def)
    moreover have "d_inv cmp here L r1 B r' (V \<union> nbs) A' Q' (insert k X) st'"
      using True I(3) by (intro inv') (simp_all add: st'_def r'_def)
    ultimately show ?thesis using True by (auto simp: r1_def r'_def)
  next
    case False
    obtain b rest where b: "d_queue st @ [zip new ps] = b # rest" by (cases "d_queue st @ [zip new ps]") auto
    define st1 where "st1 = st\<lparr>d_pool := q2, d_vis := v, d_store := s2, d_queue := b # rest, d_stats := stats\<rparr>"
    have "d_inv cmp here L r1 B r' (V \<union> nbs) A' Q' (insert k X) st1"
      using False I(3) b by (intro inv') (simp_all add: st1_def r'_def)
    note J = this [unfolded d_inv_def, folded D_def]
    have fin: "finite (ag_nodes g)" "finite A'" using J graph by (auto simp: ag_wf_def intro: finite_subset)
    have far: "Q' = far_items here b # map (far_items here) rest" "fo_local o1 s2 = here" using J by (simp_all add: st1_def)
    have "ok s2 (b # rest)" "pq_wf q2" "pq_cap q2 = L" "pq_keys q2 = pool L D A'" "\<forall>k \<in> set (pq_keys q2). fo_found o1 s2 (snd k)"
      using J by (simp_all add: st1_def)
    from take [OF this(1-3) fin(2) this(4,5) [unfolded D_def], folded D_def] obtain q3 s3 where t: "take_batch o1 cmp b (q2, s2) = Inr (q3, s3)"
      "pq_wf q3" "pq_cap q3 = L" "pq_keys q3 = pool L D (A' \<union> far_items here b)" "pq_done q3 = pq_done q2 \<inter> set (pq_keys q3)"
      "ok s3 rest" "fo_kept o1 valid s2 s3" "\<forall>k. room s2 k \<longrightarrow> room s3 k" "\<forall>k \<in> set (pq_keys q3). fo_found o1 s3 (snd k)"
      using far(2) by auto
    define st' where "st' = st\<lparr>d_pool := q3, d_vis := v, d_store := s3, d_queue := rest, d_stats := stats\<rparr>"
    have "dist_round o1 cmp near pq_dist (r0 + 1) st = Inr st'"
      using False I(3) t(1) by (simp add: run st'_def b t(1))
    moreover have sub: "A' \<union> far_items here b \<subseteq> V \<union> nbs" "\<Union> (set (map (far_items here) rest)) \<subseteq> V \<union> nbs"
      using J far(1) by auto
    moreover have "finite (A' \<union> far_items here b)"
      using sub(1) J fin(1) by (meson finite_subset)
    then have "pq_done q3 = insert k X \<inter> set (pq_keys q3)"
      using done_grow [of "A' \<union> far_items here b" A' "insert k X" D q2 L q3] J t(4,5) by (simp add: st1_def)
    moreover have "insert k X \<subseteq> vkey D ` (A' \<union> far_items here b)" using J by blast
    moreover have "fo_local o1 s3 = here" using kept_D(1) [OF t(7)] far(2) by simp
    ultimately have "d_inv cmp here L r0 B 0 (V \<union> nbs) (A' \<union> hd Q') (tl Q') (insert k X) st'"
      using J t(2-4,6,8,9) False I far(1) unfolding d_inv_def D_def [symmetric] by (simp add: st1_def st'_def r1_def r'_def)
    with False \<open>dist_round o1 cmp near pq_dist (r0 + 1) st = Inr st'\<close> show ?thesis by auto
  qed
qed


lemma loop:
  fixes cmp :: "u32 list \<Rightarrow> 'd::linorder"
  assumes lim: "search_limits r0 B"
  shows "d_inv cmp here L r0 B r V A Q X st \<Longrightarrow>
    relaxed L (\<lambda>v. cmp (ag_vec g v)) (ag_edges g) here (keeps near pq_dist (ag_label g) L) n r V A Q X = Some P \<Longrightarrow>
    \<exists>st' r' V' A' Q' X'. dist_loop o1 cmp near pq_dist (r0 + 1) n st = Inr st' \<and>
      d_inv cmp here L r0 B r' V' A' Q' X' st' \<and> P = pool L (\<lambda>v. cmp (ag_vec g v)) (A' \<union> \<Union> (set Q'))"
proof (induction n arbitrary: r V A Q X st)
  case (Suc n)
  let ?D = "\<lambda>v. cmp (ag_vec g v)"
  have I: "pq_wf (d_pool st)" "pq_keys (d_pool st) = pool L ?D A" "pq_done (d_pool st) = X \<inter> set (pq_keys (d_pool st))"
    using Suc.prems(1) by (simp_all add: d_inv_def)
  show ?case
  proof (cases "filter (\<lambda>k. k \<notin> X) (pool L ?D A)")
    case Nil
    then have "\<not> pq_has_unexpanded (d_pool st)"
      using I by (auto simp: pq_has_unexpanded_iff filter_empty_conv)
    then have "dist_loop o1 cmp near pq_dist (r0 + 1) (Suc n) st = Inr st" by simp
    moreover have "P = pool L ?D (A \<union> \<Union> (set Q))" using Nil Suc.prems(2) by simp
    ultimately show ?thesis using Suc.prems(1) by blast
  next
    case (Cons k ks)
    have has: "pq_has_unexpanded (d_pool st)" using closest_first [OF I Cons] by simp
    let ?nbs = "set (ag_edges g (snd k))"
    let ?A = "A \<union> {j \<in> ?nbs - V. here j}"
    let ?Q = "Q @ [{j \<in> ?nbs - V. \<not> here j \<and> keeps near pq_dist (ag_label g) L (pool L ?D A) j}]"
    from round [OF Suc.prems(1) lim Cons, of near pq_dist] obtain st1 where st1:
      "dist_round o1 cmp near pq_dist (r0 + 1) st = Inr st1"
      "if 0 < r then d_inv cmp here L r0 B (r - 1) (V \<union> ?nbs) ?A ?Q (insert k X) st1
       else d_inv cmp here L r0 B 0 (V \<union> ?nbs) (?A \<union> hd ?Q) (tl ?Q) (insert k X) st1" by blast
    have step: "dist_loop o1 cmp near pq_dist (r0 + 1) (Suc n) st = dist_loop o1 cmp near pq_dist (r0 + 1) n st1"
      using has st1(1) by simp
    have rel: "(if 0 < r then relaxed L ?D (ag_edges g) here (keeps near pq_dist (ag_label g) L) n (r - 1) (V \<union> ?nbs) ?A ?Q (insert k X)
       else relaxed L ?D (ag_edges g) here (keeps near pq_dist (ag_label g) L) n 0 (V \<union> ?nbs) (?A \<union> hd ?Q) (tl ?Q) (insert k X)) = Some P"
      using Suc.prems(2) unfolding relaxed.simps Cons list.case Let_def .
    show ?thesis
    proof (cases "0 < r")
      case True
      with st1(2) rel have "d_inv cmp here L r0 B (r - 1) (V \<union> ?nbs) ?A ?Q (insert k X) st1"
        "relaxed L ?D (ag_edges g) here (keeps near pq_dist (ag_label g) L) n (r - 1) (V \<union> ?nbs) ?A ?Q (insert k X) = Some P"
        by presburger+
      from Suc.IH [OF this] show ?thesis unfolding step .
    next
      case False
      with st1(2) rel have "d_inv cmp here L r0 B 0 (V \<union> ?nbs) (?A \<union> hd ?Q) (tl ?Q) (insert k X) st1"
        "relaxed L ?D (ag_edges g) here (keeps near pq_dist (ag_label g) L) n 0 (V \<union> ?nbs) (?A \<union> hd ?Q) (tl ?Q) (insert k X) = Some P"
        by presburger+
      from Suc.IH [OF this] show ?thesis unfolding step .
    qed
  qed
qed simp

lemma drain:
  assumes "ok s Q" and "pq_wf q" and "pq_cap q = L" and "finite A" and "\<forall>b \<in> set Q. finite (far_items (fo_local o1 s) b)"
    and "pq_keys q = pool L (\<lambda>v. cmp (ag_vec g v)) A" and "\<forall>k \<in> set (pq_keys q). fo_found o1 s (snd k)"
  shows "\<exists>q' s'. dist_drain o1 cmp Q (q, s) = Inr (q', s') \<and> pq_wf q' \<and>
    pq_keys q' = pool L (\<lambda>v. cmp (ag_vec g v)) (A \<union> \<Union> (set (map (far_items (fo_local o1 s)) Q))) \<and>
    ok s' [] \<and> fo_local o1 s' = fo_local o1 s \<and> (\<forall>k \<in> set (pq_keys q'). fo_found o1 s' (snd k))"
  using assms
proof (induction Q arbitrary: q s A)
  case (Cons b Q)
  from take [OF Cons.prems(1-4,6,7)] obtain q1 s1 where t: "take_batch o1 cmp b (q, s) = Inr (q1, s1)" "pq_wf q1" "pq_cap q1 = L"
    "pq_keys q1 = pool L (\<lambda>v. cmp (ag_vec g v)) (A \<union> far_items (fo_local o1 s) b)" "ok s1 Q" "fo_kept o1 valid s s1"
    "\<forall>k \<in> set (pq_keys q1). fo_found o1 s1 (snd k)" by blast
  have l: "fo_local o1 s1 = fo_local o1 s" by (rule kept_D(1) [OF t(6)])
  have "finite (A \<union> far_items (fo_local o1 s) b)" "\<forall>b \<in> set Q. finite (far_items (fo_local o1 s1) b)"
    using Cons.prems(4,5) l by auto
  from Cons.IH [OF t(5,2,3) this t(4,7)] show ?case
    using t(1) l by (simp add: dist_drain_def Un_assoc)
qed (simp add: dist_drain_def)

section \<open>The start and the whole search\<close>

lemma collect_new:
  assumes "set ids \<subseteq> ag_nodes g" and "ag_nodes g \<subseteq> srs_dom v" and "srs_abs v = {}"
  shows "\<exists>v' new. bf_collect srs_seen srs_mark ids (v, []) = Inr (v', new) \<and> srs_abs v' = set ids \<and> srs_dom v' = srs_dom v \<and>
    set new = set ids \<and> distinct new"
  using server_marks.collect [of ids v] assms by auto

lemma start:
  assumes ok: "ok s []" and init: "set init \<subseteq> ag_nodes g" "r0 + 1 \<le> length init" and sent: "length init \<le> sent_max"
    and big: "big s (card (ag_nodes g))" and sc: "pq_wf (ds_best sc)" "pq_cap (ds_best sc) = L" "pq_keys (ds_best sc) = []"
    "srs_abs (ds_inserted sc) = {}" "ag_nodes g \<subseteq> srs_dom (ds_inserted sc)"
  shows "\<exists>st. dist_start o1 cmp (int r0) init sc s = Inr st \<and>
    d_inv cmp (fo_local o1 s) L r0 B r0 (set init) (set init) [] {} st"
proof -
  let ?D = "\<lambda>v. cmp (ag_vec g v)" and ?N = "ag_nodes g"
  have fin: "finite ?N" using graph [OF ok] by (simp add: ag_wf_def)
  obtain s1 where s1: "fo_reset o1 s = Inr s1" "ok s1 []" "room s1 (card ?N)" "fo_local o1 s1 = fo_local o1 s"
    using reset [OF ok] big by blast
  obtain v new where new: "bf_collect srs_seen srs_mark init (ds_inserted sc, []) = Inr (v, new)"
    "srs_abs v = set init" "srs_dom v = srs_dom (ds_inserted sc)" "set new = set init" "distinct new"
    using collect_new [OF init(1) sc(5,4)] by blast
  have len: "length new \<le> sent_max"
    using distinct_card [OF new(5)] card_length [of init] sent new(4) by simp
  have "length new + (card ?N - card (set init)) = card ?N"
    using distinct_card [OF new(5)] card_mono [OF fin init(1)] new(4) by simp
  then obtain s2 ps where s2: "fo_fetch o1 new s1 = Inr (s2, ps)" "length ps = length new" "ok s2 []"
    "fo_kept o1 valid s1 s2" "room s2 (card ?N - card (set init))" "\<forall>(it, p) \<in> set (zip new ps). valid s2 it p"
    using fetch [OF s1(2) _ len, of "card ?N - card (set init)"] s1(3) init(1) new(4) by auto
  have "pq_keys (ds_best sc) = pool L ?D {}" using sc(3) by (simp add: pool_def least_keys_def)
  from score [OF s2(3) sc(1,2) _ this s2(6)] sc(3) obtain q s3 where q:
    "score_items o1 cmp (zip new ps) (ds_best sc, s2) = Inr (q, s3)" "pq_wf q" "pq_cap q = L"
    "pq_keys q = pool L ?D (fst ` set (zip new ps))" "pq_done q = pq_done (ds_best sc) \<inter> set (pq_keys q)" "ok s3 []"
    "fo_kept o1 valid s2 s3" "\<forall>k. room s2 k \<longrightarrow> room s3 k" "\<forall>k \<in> set (pq_keys q). fo_found o1 s3 (snd k)" by auto
  have "fst ` set (zip new ps) = set init" using s2(2) new(4) by (metis map_fst_zip set_map)
  moreover have "pq_done (ds_best sc) = {}" using pq_done_subset [of "ds_best sc"] sc(3) by simp
  moreover have "fo_local o1 s3 = fo_local o1 s" using kept_D(1) [OF q(7)] kept_D(1) [OF s2(4)] s1(4) by simp
  ultimately show ?thesis
    using q s1 s2 new init sc(5) by (simp add: dist_start_def d_inv_def Let_def)
qed

text \<open>
  With one round more than vertices the search returns the labels of the delayed greedy search.
\<close>

theorem search:
  fixes dcmp :: "u32 list \<Rightarrow> u32 list \<Rightarrow> 'd::linorder"
  assumes ok: "ok s []" and entry: "entry_items ix lir aen = Inr init"
    and init: "set init \<subseteq> ag_nodes g" "r0 + 1 \<le> length init" "length init \<le> sent_max"
    and big: "big s (card (ag_nodes g))" and lim: "search_limits r0 B" and sc: "ds_wf sc"
    and dom: "ag_nodes g \<subseteq> srs_dom (ds_inserted sc)" and fuel: "card (ag_nodes g) < fuel"
  shows "\<exists>P. relaxed (unat (ds_L sc)) (\<lambda>v. dcmp (ag_vec g v) query) (ag_edges g) (fo_local o1 s)
      (keeps near pq_dist (ag_label g) (unat (ds_L sc))) fuel r0 (set init) (set init) [] {} = Some P \<and>
    (\<forall>K \<le> length P. \<exists>stats s'. search_distributed o1 ix dcmp near pq_dist fuel sc query K lir aen (int r0) s
      = Inr (map (\<lambda>(d, it). ag_label g it) (take K P), stats, s') \<and> ok s' [])"
proof -
  let ?sc = "ds_clear sc" and ?L = "unat (ds_L sc)" and ?cmp = "\<lambda>base. dcmp base query" and ?N = "ag_nodes g"
  let ?D = "\<lambda>v. ?cmp (ag_vec g v)" and ?here = "fo_local o1 s"
  have wf: "ag_wf g" by (rule graph [OF ok])
  then have fin: "finite ?N" by (simp add: ag_wf_def)
  have sc': "pq_wf (ds_best ?sc)" "pq_cap (ds_best ?sc) = ?L" "pq_keys (ds_best ?sc) = []"
    using ds_clear_wf [OF sc] by (auto simp: ds_wf_def)
  have marks: "srs_abs (ds_inserted ?sc) = {}" "srs_dom (ds_inserted ?sc) = srs_dom (ds_inserted sc)"
    by (auto simp: srs_abs_def srs_dom_def ds_clear_def)
  obtain st where st: "dist_start o1 ?cmp (int r0) init ?sc s = Inr st"
    "d_inv ?cmp ?here ?L r0 B r0 (set init) (set init) [] {} st"
    using start [OF ok init big sc' marks(1)] dom marks(2) by blast
  have "\<exists>P. relaxed ?L ?D (ag_edges g) ?here (keeps near pq_dist (ag_label g) ?L) fuel r0 (set init) (set init) [] {} = Some P"
    by (rule relaxed_terminates [OF fin]) (use wf init(1) fuel in \<open>simp_all add: ag_wf_def\<close>)
  then obtain P where
    P: "relaxed ?L ?D (ag_edges g) ?here (keeps near pq_dist (ag_label g) ?L) fuel r0 (set init) (set init) [] {} = Some P" ..
  from loop [OF lim st(2) P] obtain st' r' V' A' Q' X' where l:
    "dist_loop o1 ?cmp near pq_dist (r0 + 1) fuel st = Inr st'" "d_inv ?cmp ?here ?L r0 B r' V' A' Q' X' st'"
    "P = pool ?L ?D (A' \<union> \<Union> (set Q'))" by blast
  note I = l(2) [unfolded d_inv_def]
  have sub: "A' \<union> \<Union> (set Q') \<subseteq> ?N" using I by blast
  then have finA: "finite A'" "finite (A' \<union> \<Union> (set Q'))" using fin by (auto intro: finite_subset)
  have far: "\<forall>b \<in> set (d_queue st'). finite (far_items (fo_local o1 (d_store st')) b)" by (simp add: far_items_def)
  have "ok (d_store st') (d_queue st')" "pq_wf (d_pool st')" "pq_cap (d_pool st') = ?L" "pq_keys (d_pool st') = pool ?L ?D A'"
    "\<forall>k \<in> set (pq_keys (d_pool st')). fo_found o1 (d_store st') (snd k)" using I by simp_all
  from drain [OF this(1-3) finA(1) far this(4,5)] obtain q s' where q: "dist_drain o1 ?cmp (d_queue st') (d_pool st', d_store st') = Inr (q, s')" "pq_wf q"
    "pq_keys q = pool ?L ?D (A' \<union> \<Union> (set (map (far_items (fo_local o1 (d_store st'))) (d_queue st'))))" "ok s' []"
    "\<forall>k \<in> set (pq_keys q). fo_found o1 s' (snd k)" by blast
  have keys: "pq_keys q = P" using q(3) I l(3) by simp
  have sP: "set P \<subseteq> vkey ?D ` ?N" using set_pool [OF finA(2), of ?L ?D] sub l(3) by blast
  have "\<exists>stats s'. search_distributed o1 ix dcmp near pq_dist fuel sc query K lir aen (int r0) s
      = Inr (map (\<lambda>(d, it). ag_label g it) (take K P), stats, s') \<and> ok s' []" if K: "K \<le> length P" for K
  proof -
    have "rbind (pq_at q i) (\<lambda>n. rbind (fo_find o1 s' (nb_id n)) (fo_label o1 s'))
        = Inr (case P ! i of (d, it) \<Rightarrow> ag_label g it)" if i: "i \<in> set [0..<K]" for i
    proof -
      from i K pq_at_key [OF q(2), of i] obtain n where n: "pq_at q i = Inr n" "P ! i = (nb_dist n, nb_id n)"
        by (auto simp: keys)
      have "P ! i \<in> set P" using i K by simp
      then have "fo_found o1 s' (nb_id n)" "nb_id n \<in> ?N" using q(5) keys sP n(2) by (auto simp: vkey_def)
      then obtain p where "fo_find o1 s' (nb_id n) = Inr p" "valid s' (nb_id n) p"
        using find [OF q(4)] by (auto simp: fo_found_def)
      with rd [OF q(4)] n show ?thesis by simp
    qed
    then have "rmap (\<lambda>i. rbind (pq_at q i) (\<lambda>n. rbind (fo_find o1 s' (nb_id n)) (fo_label o1 s'))) [0..<K]
        = Inr (map (\<lambda>i. case P ! i of (d, it) \<Rightarrow> ag_label g it) [0..<K])" by (rule rmap_pure)
    also have "map (\<lambda>i. case P ! i of (d, it) \<Rightarrow> ag_label g it) [0..<K] = map (\<lambda>(d, it). ag_label g it) (take K P)"
      using K by (intro nth_equalityI) auto
    finally show ?thesis
      using entry st(1) l(1) q(1,4) by (simp add: search_distributed_def Let_def nat_add_distrib)
  qed
  with P show ?thesis by blast
qed

end

end
