(* ===== verification/DistStore.thy ===== *)
theory DistStore
  imports StoreOps DistCorrect BucketSearch
begin

text \<open>
  The distributed search over the graph store: \<open>core/store/gstore.hpp\<close> keeps the contract the search of
  \<open>src/index.cpp\<close> relies on, whatever the network card does within its own.
\<close>

section \<open>The store as seen by the search\<close>

definition store_ops :: "'n verbs \<Rightarrow> index \<Rightarrow> nat \<Rightarrow> ('n gstore, vptr) fetch_ops" where
  "store_ops vb ix tid =
     \<lparr>fo_reset = reset_thd_ctx tid,
      fo_fetch = (\<lambda>keys. get_vertex_batch vb tid keys False []),
      fo_send = (\<lambda>keys. get_vertex_batch vb tid keys True []),
      fo_wait = get_vertex_batch_wait vb tid,
      fo_remember = update_thd_cache tid,
      fo_find = (\<lambda>gs. get_vertex gs tid),
      fo_local = (\<lambda>gs it. unat (fst it) = gs_sid gs),
      fo_entries = at_ptr vb (elem_entries ix) tid,
      fo_vec = at_ptr vb (elem_vec ix) tid,
      fo_label = at_ptr vb (elem_label ix) tid\<rparr>"

definition search_base_index_distributed ::
    "'n verbs \<Rightarrow> index \<Rightarrow> (u32 list \<Rightarrow> u32 list \<Rightarrow> 'd::linorder) \<Rightarrow> ('d \<Rightarrow> 'd \<Rightarrow> bool) \<Rightarrow> (u32 \<Rightarrow> 'd) \<Rightarrow> nat \<Rightarrow> nat \<Rightarrow>
     'd ds_scratch \<Rightarrow> u32 list \<Rightarrow> nat \<Rightarrow> u32 \<Rightarrow> u32 \<Rightarrow> int \<Rightarrow> 'n gstore \<Rightarrow> (u32 list \<times> query_stats \<times> 'n gstore) result" where
  "search_base_index_distributed vb ix dcmp near pq_dist fuel tid sc query K lir aen relax gs =
     search_distributed (store_ops vb ix tid) ix dcmp near pq_dist fuel sc query K lir aen relax gs"

lemma store_ops_sel [simp]:
  "fo_reset (store_ops vb ix tid) = reset_thd_ctx tid"
  "fo_fetch (store_ops vb ix tid) = (\<lambda>keys. get_vertex_batch vb tid keys False [])"
  "fo_send (store_ops vb ix tid) = (\<lambda>keys. get_vertex_batch vb tid keys True [])"
  "fo_wait (store_ops vb ix tid) = get_vertex_batch_wait vb tid"
  "fo_remember (store_ops vb ix tid) = update_thd_cache tid"
  "fo_find (store_ops vb ix tid) = (\<lambda>gs. get_vertex gs tid)"
  "fo_local (store_ops vb ix tid) = (\<lambda>gs it. unat (fst it) = gs_sid gs)"
  "fo_entries (store_ops vb ix tid) = at_ptr vb (elem_entries ix) tid"
  "fo_vec (store_ops vb ix tid) = at_ptr vb (elem_vec ix) tid"
  "fo_label (store_ops vb ix tid) = at_ptr vb (elem_label ix) tid"
  by (simp_all add: store_ops_def)

definition gs_big :: "'n verbs \<Rightarrow> nat \<Rightarrow> nat \<Rightarrow> 'n gstore \<Rightarrow> nat \<Rightarrow> bool" where
  "gs_big vb sz tid gs k \<longleftrightarrow> k * sz < length (gs_buf vb tid gs)"

definition gs_room :: "'n verbs \<Rightarrow> nat \<Rightarrow> nat \<Rightarrow> 'n gstore \<Rightarrow> nat \<Rightarrow> bool" where
  "gs_room vb sz tid gs k \<longleftrightarrow> gs_used tid gs + k * sz < length (gs_buf vb tid gs)"

lemma gs_frame_found: "gs_frame vb out ix g tid gs gs' \<Longrightarrow> store_ok vb remote out delay ix g tid gs q \<Longrightarrow>
    store_ok vb remote out delay ix g tid gs' q' \<Longrightarrow> get_vertex gs' tid it = get_vertex gs tid it"
  by (simp add: get_vertex_def store_okD(5,6) gs_frame_def)

lemma gs_frame_kept:
  assumes "gs_frame vb out ix g tid gs gs'" and "store_ok vb remote out delay ix g tid gs q" and "store_ok vb remote out delay ix g tid gs' q'"
  shows "fo_kept (store_ops vb ix tid) (gs_valid vb out ix g tid) gs gs'"
  using assms gs_frame_found [OF assms] by (simp add: fo_kept_def fo_found_def gs_frame_def del: split_paired_All)

interpretation gsf: vertex_fetch "store_ops vb ix tid" g "store_ok vb remote out delay ix g tid" "gs_valid vb out ix g tid"
    "gs_room vb (ix_element_size ix) tid" "gs_big vb (ix_element_size ix) tid" MAX_DOORBELL_SIZE RC_MAX_SEND_SIZE
  for vb :: "'n verbs" and remote out delay ix g tid
proof
  let ?ok = "store_ok vb remote out delay ix g tid" and ?sz = "ix_element_size ix" and ?valid = "gs_valid vb out ix g tid"
  fix gs :: "'n gstore" and q :: "(item \<times> vptr) list list" and b :: "(item \<times> vptr) list" and keys :: "item list" and it p k l
  show "?ok gs q \<Longrightarrow> ag_wf g" by (drule store_okD(1)) (simp add: cluster_ok_def)
  show "gs_room vb ?sz tid gs k \<Longrightarrow> l \<le> k \<Longrightarrow> gs_room vb ?sz tid gs l"
    unfolding gs_room_def using mult_le_mono1 [of l k ?sz] by linarith
  show "?ok gs [] \<Longrightarrow> \<exists>s'. fo_reset (store_ops vb ix tid) gs = Inr s' \<and> ?ok s' [] \<and>
      (\<forall>k. gs_big vb ?sz tid gs k \<longrightarrow> gs_room vb ?sz tid s' k) \<and> fo_local (store_ops vb ix tid) s' = fo_local (store_ops vb ix tid) gs"
    using reset_ok by (fastforce simp: gs_big_def gs_room_def)
  show "\<exists>s' ps. fo_fetch (store_ops vb ix tid) keys gs = Inr (s', ps) \<and> length ps = length keys \<and> ?ok s' [] \<and>
      fo_kept (store_ops vb ix tid) ?valid gs s' \<and> gs_room vb ?sz tid s' k \<and> (\<forall>(it, p) \<in> set (zip keys ps). ?valid s' it p)"
    if ok: "?ok gs []" and keys: "set keys \<subseteq> ag_nodes g" "length keys \<le> RC_MAX_SEND_SIZE" and room: "gs_room vb ?sz tid gs (length keys + k)"
  proof -
    have "gs_used tid gs + length keys * ?sz < length (gs_buf vb tid gs)"
      using room by (simp add: gs_room_def add_mult_distrib)
    from sync_ok [OF ok keys this] obtain gs' ps where r: "get_vertex_batch vb tid keys False [] gs = Inr (gs', ps)"
      "length ps = length keys" "?ok gs' []" "gs_frame vb out ix g tid gs gs'" "gs_used tid gs' \<le> gs_used tid gs + length keys * ?sz"
      "\<forall>(it, p) \<in> set (zip keys ps). ?valid gs' it p" by blast
    have "gs_room vb ?sz tid gs' k" using room r(4,5) by (simp add: gs_room_def gs_frame_def add_mult_distrib)
    with r gs_frame_kept [OF r(4) ok r(3)] show ?thesis by auto
  qed
  show "\<exists>s' ps. fo_send (store_ops vb ix tid) keys gs = Inr (s', ps) \<and> length ps = length keys \<and> ?ok s' (q @ [zip keys ps]) \<and>
      fo_kept (store_ops vb ix tid) ?valid gs s' \<and> gs_room vb ?sz tid s' k \<and>
      (\<forall>(it, p) \<in> set (zip keys ps). fo_local (store_ops vb ix tid) gs it \<longrightarrow> ?valid s' it p)"
    if ok: "?ok gs q" and keys: "set keys \<subseteq> ag_nodes g" "length keys \<le> MAX_DOORBELL_SIZE" "sum_list (map length q) + length keys \<le> RC_MAX_SEND_SIZE"
      and room: "gs_room vb ?sz tid gs (length keys + k)"
  proof -
    have "gs_used tid gs + length keys * ?sz < length (gs_buf vb tid gs)"
      using room by (simp add: gs_room_def add_mult_distrib)
    from send_ok [OF ok keys this] obtain gs' ps where r: "get_vertex_batch vb tid keys True [] gs = Inr (gs', ps)"
      "length ps = length keys" "?ok gs' (q @ [zip keys ps])" "gs_frame vb out ix g tid gs gs'"
      "gs_used tid gs' \<le> gs_used tid gs + length keys * ?sz"
      "\<forall>(it, p) \<in> set (zip keys ps). unat (fst it) = gs_sid gs \<longrightarrow> ?valid gs' it p" by blast
    have "gs_room vb ?sz tid gs' k" using room r(4,5) by (simp add: gs_room_def gs_frame_def add_mult_distrib)
    with r gs_frame_kept [OF r(4) ok r(3)] show ?thesis by auto
  qed
  show "\<exists>s'. fo_wait (store_ops vb ix tid) gs = Inr s' \<and> ?ok s' q \<and> fo_kept (store_ops vb ix tid) ?valid gs s' \<and>
      (\<forall>k. gs_room vb ?sz tid gs k \<longrightarrow> gs_room vb ?sz tid s' k) \<and> (\<forall>(it, p) \<in> set b. ?valid s' it p)" if ok: "?ok gs (b # q)"
  proof -
    from wait_ok [OF ok] obtain gs' where r: "get_vertex_batch_wait vb tid gs = Inr gs'" "?ok gs' q"
      "gs_frame vb out ix g tid gs gs'" "gs_used tid gs' = gs_used tid gs" "\<forall>(it, p) \<in> set b. ?valid gs' it p" by blast
    with gs_frame_kept [OF r(3) ok r(2)] show ?thesis by (auto simp: gs_room_def gs_frame_def)
  qed
  show "\<exists>s'. fo_remember (store_ops vb ix tid) it p gs = Inr s' \<and> ?ok s' q \<and> fo_kept (store_ops vb ix tid) ?valid gs s' \<and>
      (\<forall>k. gs_room vb ?sz tid gs k \<longrightarrow> gs_room vb ?sz tid s' k) \<and> fo_found (store_ops vb ix tid) s' it"
    if ok: "?ok gs q" and v: "?valid gs it p"
  proof -
    from update_ok [OF ok v] obtain gs' where r: "update_thd_cache tid it p gs = Inr gs'" "?ok gs' q" "gs_sid gs' = gs_sid gs"
      "gs_used tid gs' = gs_used tid gs" "length (gs_buf vb tid gs') = length (gs_buf vb tid gs)"
      "\<forall>it' p'. ?valid gs it' p' \<longrightarrow> ?valid gs' it' p'" "\<exists>p'. get_vertex gs' tid it = Inr p'"
      "\<forall>it'. (\<exists>p'. get_vertex gs tid it' = Inr p') \<longrightarrow> (\<exists>p'. get_vertex gs' tid it' = Inr p')" by blast
    have "fo_kept (store_ops vb ix tid) ?valid gs gs'"
      unfolding fo_kept_def fo_found_def store_ops_sel using r(3,6,8) by presburger
    with r show ?thesis by (auto simp: gs_room_def fo_found_def)
  qed
  show "?ok gs q \<Longrightarrow> it \<in> ag_nodes g \<Longrightarrow> fo_find (store_ops vb ix tid) gs it = Inr p \<Longrightarrow> ?valid gs it p"
    using get_vertex_valid by simp
  show "?ok gs q \<Longrightarrow> ?valid gs it p \<Longrightarrow> fo_entries (store_ops vb ix tid) gs p = Inr (map (\<lambda>j. (ag_label g j, j)) (ag_edges g it)) \<and>
      fo_vec (store_ops vb ix tid) gs p = Inr (ag_vec g it) \<and> fo_label (store_ops vb ix tid) gs p = Inr (ag_label g it)"
    by (simp add: ptr_valid_reads)
qed


section \<open>A cluster that serves a partitioned index\<close>

text \<open>
  Every server's memory starts with its bucket, and the threads of this server have idle devices.
\<close>

definition cluster_serves ::
    "'n verbs \<Rightarrow> (nat \<Rightarrow> byte list) \<Rightarrow> ('n \<Rightarrow> posted) \<Rightarrow> ('n \<Rightarrow> nat) \<Rightarrow> index \<Rightarrow> nat \<Rightarrow> 'n dev list \<Rightarrow> bool" where
  "cluster_serves vb remote out delay ix sid devs \<longleftrightarrow> sid < length (ix_buckets ix) \<and>
     (\<forall>s < length (ix_buckets ix). take (length (ix_buckets ix ! s)) (remote s) = ix_buckets ix ! s) \<and>
     (\<forall>d \<in> set devs. dev_ok vb remote out delay (length (ix_buckets ix)) d \<and> out (dv_net d) = (\<lambda>_. []))"

text \<open>The graph store of a server of such a cluster.\<close>

definition server_store :: "(nat \<Rightarrow> byte list) \<Rightarrow> index \<Rightarrow> nat \<Rightarrow> 'n dev list \<Rightarrow> 'n gstore" where
  "server_store remote ix sid devs = gs_new sid (length (ix_buckets ix)) True (remote sid) (ix_element_size ix) devs"

lemma holds_take:
  assumes "holds ix g m off it" and "bkt_node_ok ix g it" and "take (length m) m' = m"
  shows "holds ix g m' off it"
proof -
  have len: "length m \<le> length m'" using assms(3) by (metis length_take min.cobounded1)
  have k: "off + length (bkt_record g it) \<le> length m" using assms(1,2) by (simp add: holds_def bkt_node_ok_def)
  have "slice m off n = slice m' off n" if "off + n \<le> length m" for n
    using that by (subst assms(3) [symmetric]) (simp add: slice_def drop_take take_take min_def)
  with assms(1) k len show ?thesis by (simp add: holds_def)
qed

lemma server_store_ok:
  assumes repr: "bkt_repr ix g" and serves: "cluster_serves vb remote out delay ix sid devs" and tid: "tid < length devs"
  shows "store_ok vb remote out delay ix g tid (server_store remote ix sid devs) []"
proof -
  let ?gs = "server_store remote ix sid devs" and ?n = "length (ix_buckets ix)"
  have sel: "gs_sid ?gs = sid" "gs_servers ?gs = ?n" "gs_use_rdma ?gs" "gs_vertex_size ?gs = ix_element_size ix"
    "gs_kv ?gs = remote sid" "gs_cache_table ?gs = replicate ?n Map.empty" "length (gs_thds ?gs) = length devs"
    "gs_thds ?gs ! tid = \<lparr>th_dev = devs ! tid, th_used = 0, th_cache = replicate ?n Map.empty, th_polls = []\<rparr>"
    using tid by (simp_all add: server_store_def gs_new_def)
  have dev: "dev_ok vb remote out delay ?n (devs ! tid)" "out (dv_net (devs ! tid)) = (\<lambda>_. [])"
    using serves tid by (auto simp: cluster_serves_def)
  have "unat (fst it) < ?n \<and> bkt_node_ok ix g it \<and> holds ix g (remote (unat (fst it))) (unat (snd it) * ix_element_size ix) it"
    if "it \<in> ag_nodes g" for it
  proof -
    have b: "bkt_node_ok ix g it" "unat (fst it) < ?n"
      "holds ix g (ix_buckets ix ! unat (fst it)) (unat (snd it) * ix_element_size ix) it"
      using repr that by (auto simp: bkt_repr_def)
    with holds_take [OF b(3,1), of "remote (unat (fst it))"] serves show ?thesis by (simp add: cluster_serves_def)
  qed
  then have "cluster_ok remote ix g ?gs"
    using repr serves sel by (auto simp: cluster_ok_def bkt_repr_def cluster_serves_def)
  then show ?thesis
    using sel dev tid by (simp add: store_ok_def cache_ok_def net_ok_def fun_eq_iff)
qed

text \<open>What one search needs of its thread: a buffer for every vertex and lists within the limits of the queues.\<close>

definition search_fits :: "'n verbs \<Rightarrow> index \<Rightarrow> item agraph \<Rightarrow> nat \<Rightarrow> nat \<Rightarrow> 'n gstore \<Rightarrow> bool" where
  "search_fits vb ix g relax tid gs \<longleftrightarrow> card (ag_nodes g) * ix_element_size ix < length (gs_buf vb tid gs) \<and>
     (\<exists>B \<le> MAX_DOORBELL_SIZE. (relax + 1) * B \<le> RC_MAX_SEND_SIZE \<and> (\<forall>v \<in> ag_nodes g. length (ag_edges g v) \<le> B))"

lemma distributed_search:
  fixes dcmp :: "u32 list \<Rightarrow> u32 list \<Rightarrow> 'd::linorder"
  assumes ok: "store_ok vb remote out delay ix g tid gs []" and entry: "entry_items ix lir aen = Inr init"
    and init: "set init \<subseteq> ag_nodes g" "relax < length init" "length init \<le> RC_MAX_SEND_SIZE"
    and fits: "search_fits vb ix g relax tid gs" and sc: "ds_wf sc" "ag_nodes g \<subseteq> srs_dom (ds_inserted sc)"
    and fuel: "card (ag_nodes g) < fuel"
  shows "\<exists>P. relaxed (unat (ds_L sc)) (\<lambda>v. dcmp (ag_vec g v) query) (ag_edges g) (\<lambda>it. unat (fst it) = gs_sid gs)
      (keeps near pq_dist (ag_label g) (unat (ds_L sc))) fuel relax (set init) (set init) [] {} = Some P \<and>
    (\<forall>K \<le> length P. \<exists>stats gs'. search_base_index_distributed vb ix dcmp near pq_dist fuel tid sc query K lir aen (int relax) gs
      = Inr (map (\<lambda>(d, it). ag_label g it) (take K P), stats, gs') \<and> store_ok vb remote out delay ix g tid gs' [])"
proof -
  obtain B where B: "B \<le> MAX_DOORBELL_SIZE" "(relax + 1) * B \<le> RC_MAX_SEND_SIZE" "\<forall>v \<in> ag_nodes g. length (ag_edges g v) \<le> B"
    using fits by (auto simp: search_fits_def)
  have lim: "gsf.search_limits g relax B" using B by (simp add: gsf.search_limits_def)
  have big: "gs_big vb (ix_element_size ix) tid gs (card (ag_nodes g))" using fits by (simp add: search_fits_def gs_big_def)
  have "relax + 1 \<le> length init" using init(2) by simp
  from gsf.search [OF ok entry init(1) this init(3) big lim sc fuel, of dcmp query near pq_dist]
  show ?thesis by (simp add: search_base_index_distributed_def)
qed

end
