(* ===== verification/SimNic.thy ===== *)
theory SimNic
  imports RdmaDevice
begin

text \<open>
  A network card that keeps the contract of the verbs library: posted reads wait in a queue per
  connection, and a poll carries out the requests of one connection up to the first signaled one. It
  shows that the contract can hold, and runs the code on concrete inputs.
\<close>

type_synonym sim_net = "byte list \<times> (nat \<Rightarrow> wr list)"

definition sim_read :: "byte list \<Rightarrow> wr \<Rightarrow> byte list \<Rightarrow> byte list" where
  "sim_read rem w m = take (wr_addr w) m @ slice rem (wr_remote w) (wr_len w) @ drop (wr_addr w + wr_len w) m"

text \<open>The requests up to the first signaled one, and the rest.\<close>

fun sim_split :: "wr list \<Rightarrow> (wr list \<times> wr list) option" where
  "sim_split [] = None"
| "sim_split (w # ws) = (if wr_signaled w then Some ([w], ws) else map_option (\<lambda>(xs, ys). (w # xs, ys)) (sim_split ws))"

definition sim_verbs :: "(nat \<Rightarrow> byte list) \<Rightarrow> sim_net verbs" where
  "sim_verbs remote =
     \<lparr>vb_post = (\<lambda>s ws (m, out). ((m, out(s := out s @ ws)), 0)),
      vb_poll = (\<lambda>s k (m, out). if k = 0 then ((m, out), Some []) else case sim_split (out s) of
        None \<Rightarrow> ((m, out), Some [])
      | Some (ws, rest) \<Rightarrow> ((fold (sim_read (remote s)) ws m, out(s := rest)), Some [True])),
      vb_mem = fst\<rparr>"

lemma sim_split_Some:
  "sim_split ws = Some (xs, ys) \<Longrightarrow> ws = xs @ ys \<and> xs \<noteq> [] \<and> wr_signaled (last xs) \<and> length (filter wr_signaled xs) = 1"
  by (induction ws arbitrary: xs ys) (auto split: if_splits)

lemma sim_split_exists: "\<exists>w \<in> set ws. wr_signaled w \<Longrightarrow> \<exists>xs ys. sim_split ws = Some (xs, ys)"
  by (induction ws) (fastforce split: if_splits)+

lemma length_fetched: "wr_fits rem n w \<Longrightarrow> length (slice rem (wr_remote w) (wr_len w)) = wr_len w"
  by (auto simp: wr_fits_def slice_def min_def)

lemma length_sim_read: "wr_fits rem (length m) w \<Longrightarrow> length (sim_read rem w m) = length m"
  using length_fetched [of rem "length m" w] by (simp add: sim_read_def wr_fits_def)

lemma nth_sim_read:
  assumes "wr_fits rem (length m) w" and "i < length m"
  shows "sim_read rem w m ! i = (if wr_addr w \<le> i \<and> i < wr_addr w + wr_len w then rem ! (wr_remote w + (i - wr_addr w)) else m ! i)"
proof -
  note len = length_fetched [OF assms(1)]
  have fits: "wr_addr w + wr_len w \<le> length m" "wr_remote w + wr_len w \<le> length rem" using assms(1) by (auto simp: wr_fits_def)
  consider "i < wr_addr w" | "wr_addr w \<le> i" "i < wr_addr w + wr_len w" | "wr_addr w + wr_len w \<le> i" by linarith
  then show ?thesis
  proof cases
    case 2
    then have "slice rem (wr_remote w) (wr_len w) ! (i - wr_addr w) = rem ! (wr_remote w + (i - wr_addr w))"
      using fits by (simp add: slice_def)
    moreover have "i - wr_addr w < wr_len w" using 2 by linarith
    ultimately show ?thesis using 2 fits len by (simp add: sim_read_def nth_append)
  next
    case 3
    then have "\<not> i - wr_addr w < wr_len w" by linarith
    with 3 fits len assms(2) show ?thesis by (simp add: sim_read_def nth_append)
  qed (use fits len assms(2) in \<open>simp add: sim_read_def nth_append\<close>)
qed

text \<open>Carrying out disjoint reads brings all of them, and writes nothing else.\<close>

lemma sim_reads:
  assumes "\<forall>w \<in> set ws. wr_fits rem (length m) w" and "sorted_wrt wr_disjoint ws"
  shows "length (fold (sim_read rem) ws m) = length m \<and>
    (\<forall>i < length m. (\<forall>w \<in> set ws. \<not> (wr_addr w \<le> i \<and> i < wr_addr w + wr_len w)) \<longrightarrow> fold (sim_read rem) ws m ! i = m ! i) \<and>
    (\<forall>w \<in> set ws. \<forall>j < wr_len w. fold (sim_read rem) ws m ! (wr_addr w + j) = rem ! (wr_remote w + j))"
  using assms
proof (induction ws arbitrary: m)
  case (Cons w ws)
  let ?m = "sim_read rem w m"
  have fits: "wr_fits rem (length m) w" and len: "length ?m = length m" using Cons.prems length_sim_read by auto
  have "\<forall>w \<in> set ws. wr_fits rem (length ?m) w" using Cons.prems len by simp
  note IH = Cons.IH [OF this] Cons.prems(2)
  have first: "fold (sim_read rem) ws ?m ! (wr_addr w + j) = rem ! (wr_remote w + j)" if "j < wr_len w" for j
  proof -
    have "wr_addr w + j < length m" using that fits by (auto simp: wr_fits_def)
    moreover have "\<forall>v \<in> set ws. \<not> (wr_addr v \<le> wr_addr w + j \<and> wr_addr w + j < wr_addr v + wr_len v)"
      using Cons.prems(2) that by (auto simp: wr_disjoint_def)
    ultimately show ?thesis using IH that nth_sim_read [OF fits] len by simp
  qed
  have "fold (sim_read rem) ws ?m ! i = m ! i"
    if "i < length m" "\<forall>v \<in> set (w # ws). \<not> (wr_addr v \<le> i \<and> i < wr_addr v + wr_len v)" for i
    using that IH nth_sim_read [OF fits that(1)] len by auto
  with first IH len show ?case by auto
qed simp

lemma sim_verbs_ok: "verbs_ok (sim_verbs remote) remote snd (\<lambda>_. 0)"
  unfolding verbs_ok_def
proof
  show "post_ok (sim_verbs remote) snd" by (auto simp: post_ok_def sim_verbs_def split: prod.splits)
  show "poll_ok (sim_verbs remote) remote snd (\<lambda>_. 0)"
    unfolding poll_ok_def
  proof (intro allI impI, elim conjE)
    fix n :: sim_net and s k :: nat
    obtain m out where n: "n = (m, out)" by fastforce
    assume "posted_ok remote (length (vb_mem (sim_verbs remote) n)) (snd n)" "0 < k" "\<exists>w \<in> set (snd n s). wr_signaled w"
    then have po: "posted_ok remote (length m) out" and k: "0 < k" and sig: "\<exists>w \<in> set (out s). wr_signaled w"
      by (simp_all add: n sim_verbs_def)
    from sim_split_exists [OF sig] obtain ws rest where sp: "sim_split (out s) = Some (ws, rest)" by blast
    note S = sim_split_Some [OF sp]
    have ws: "\<forall>w \<in> set ws. wr_fits (remote s) (length m) w" "sorted_wrt wr_disjoint ws"
      using po [unfolded posted_ok_def, THEN conjunct1, THEN spec, of s] S by (auto simp: sorted_wrt_append)
    let ?m = "fold (sim_read (remote s)) ws m"
    note R = sim_reads [OF ws]
    have "?m ! i = m ! i" if "i < length m" "i \<notin> posted_bytes out" for i
    proof -
      have "\<forall>w \<in> set ws. \<not> (wr_addr w \<le> i \<and> i < wr_addr w + wr_len w)"
      proof
        fix w assume "w \<in> set ws"
        then have "w \<in> set (out s)" using S by simp
        then show "\<not> (wr_addr w \<le> i \<and> i < wr_addr w + wr_len w)" using that(2) unfolding posted_bytes_def by blast
      qed
      with R that(1) show ?thesis by blast
    qed
    then have "same_outside (posted_bytes out) m ?m" using R by (simp add: same_outside_def)
    moreover have "wr_done remote ?m s w" if "w \<in> set ws" for w
      unfolding wr_done_def
    proof (rule nth_equalityI)
      have f: "wr_addr w + wr_len w \<le> length m" "wr_remote w + wr_len w \<le> length (remote s)"
        using ws(1) that by (auto simp: wr_fits_def)
      then show "length (slice ?m (wr_addr w) (wr_len w)) = length (slice (remote s) (wr_remote w) (wr_len w))"
        using R by (simp add: slice_def)
      fix i assume "i < length (slice ?m (wr_addr w) (wr_len w))"
      then have "i < wr_len w" by (simp add: slice_def)
      with f R that show "slice ?m (wr_addr w) (wr_len w) ! i = slice (remote s) (wr_remote w) (wr_len w) ! i"
        by (simp add: slice_def)
    qed
    ultimately show "\<exists>n' bs ws rest. vb_poll (sim_verbs remote) s k n = (n', Some bs) \<and> length bs \<le> k \<and> list_all id bs \<and>
        snd n s = ws @ rest \<and> snd n' = (snd n)(s := rest) \<and> length (filter wr_signaled ws) = length bs \<and>
        (ws \<noteq> [] \<longrightarrow> wr_signaled (last ws)) \<and>
        same_outside (posted_bytes (snd n)) (vb_mem (sim_verbs remote) n) (vb_mem (sim_verbs remote) n') \<and>
        (\<forall>w \<in> set ws. wr_done remote (vb_mem (sim_verbs remote) n') s w) \<and> (bs = [] \<longrightarrow> (0::nat) < 0)"
      using k sp S by (intro exI [of _ "(?m, out(s := rest))"] exI [of _ "[True]"] exI [of _ ws] exI [of _ rest]) (simp add: n sim_verbs_def)
  qed
qed

end
