(* ===== verification/DistProps.thy ===== *)
theory DistProps
  imports DistStore SimNic
begin

text \<open>
  The properties of the distributed search, applied on a cluster of two servers with a card that keeps
  the contract of the verbs library.
\<close>

section \<open>A cluster of two servers\<close>

definition duo_graph :: "item agraph" where
  "duo_graph = \<lparr>ag_nodes = {(0, 0), (1, 0)}, ag_edges = (\<lambda>it. if it = (0, 0) then [(1, 0)] else [(0, 0)]),
     ag_vec = (\<lambda>it. if it = (0, 0) then [7] else [3]), ag_label = (\<lambda>it. if it = (0, 0) then 0 else 2)\<rparr>"

definition duo_index :: index where
  "duo_index = index_new\<lparr>ix_dimension := 1, ix_element_size := 21, ix_label_offset := 4, ix_neighbor_offset := 8,
     ix_membkt_EP := (0, 0), ix_buckets := [bkt_record duo_graph (0, 0), bkt_record duo_graph (1, 0)]\<rparr>"

definition duo_remote :: "nat \<Rightarrow> byte list" where
  "duo_remote s = (if s < 2 then ix_buckets duo_index ! s else [])"

definition duo_devs :: "sim_net dev list" where
  "duo_devs = [\<lparr>dv_net = (replicate 100 0, \<lambda>_. []), dv_qps = [qp_new, qp_new]\<rparr>]"

lemma duo_repr: "bkt_repr duo_index duo_graph"
proof -
  have len: "length (bkt_record duo_graph it) = 21" if "it \<in> {(0, 0), (1, 0)}" for it
    using that by (auto simp: length_bkt_record duo_graph_def)
  show ?thesis
    using len by (auto simp: bkt_repr_def ag_wf_def bkt_offsets_def bkt_node_ok_def holds_def slice_def duo_index_def index_new_def)
      (auto simp: duo_graph_def)
qed

lemma duo_serves: "cluster_serves (sim_verbs duo_remote) duo_remote snd (\<lambda>_. 0) duo_index 0 duo_devs"
proof -
  have "posted_ok duo_remote n (\<lambda>_. [])" for n by (simp add: posted_ok_def)
  then show ?thesis
    using sim_verbs_ok [of duo_remote]
    by (auto simp: cluster_serves_def duo_index_def duo_remote_def duo_devs_def dev_ok_def dev_idle_def qp_new_def less_2_cases_iff)
qed

lemma duo_scratch: "\<exists>sc :: nat ds_scratch. ds_new 2 1 2 = Inr sc \<and> ds_wf sc \<and> ag_nodes duo_graph \<subseteq> srs_dom (ds_inserted sc) \<and> ds_L sc = 2"
proof -
  have "\<exists>sc :: nat ds_scratch. ds_new 2 1 2 = Inr sc" by (simp add: ds_new_ok)
  then obtain sc :: "nat ds_scratch" where sc: "ds_new 2 1 2 = Inr sc" by blast
  from ds_new_wf [OF sc] sc show ?thesis by (auto simp: srs_dom_def duo_graph_def)
qed


lemma duo_ready:
  "store_ok (sim_verbs duo_remote) duo_remote snd (\<lambda>_. 0) duo_index duo_graph 0 (server_store duo_remote duo_index 0 duo_devs) []"
  "entry_items duo_index 0 0 = Inr [(0, 0)]"
  "search_fits (sim_verbs duo_remote) duo_index duo_graph 0 0 (server_store duo_remote duo_index 0 duo_devs)"
proof -
  show "store_ok (sim_verbs duo_remote) duo_remote snd (\<lambda>_. 0) duo_index duo_graph 0 (server_store duo_remote duo_index 0 duo_devs) []"
    by (rule server_store_ok [OF duo_repr duo_serves]) (simp add: duo_devs_def)
  show "entry_items duo_index 0 0 = Inr [(0, 0)]" by (simp add: entry_items_def duo_index_def)
  show "search_fits (sim_verbs duo_remote) duo_index duo_graph 0 0 (server_store duo_remote duo_index 0 duo_devs)"
    unfolding search_fits_def
    by (auto simp: server_store_def gs_new_def duo_devs_def sim_verbs_def duo_index_def duo_graph_def MAX_DOORBELL_SIZE_def
        RC_MAX_SEND_SIZE_def intro!: exI [of _ 1])
qed

section \<open>Properties\<close>

lemma distributed_agrees:
  fixes cmp :: "u32 list \<Rightarrow> u32 list \<Rightarrow> 'd::linorder" and cmpc :: "u32 list \<Rightarrow> u32 list \<Rightarrow> 'c::linorder"
  assumes ok: "part_input_ok ix k" and malloc: "malloc_ok malloc"
    and bkts: "generate_base_index_on_buckets malloc cmpc k ix = Inr ix2"
    and serves: "cluster_serves vb remote out delay ix2 sid devs" and tid: "tid < length devs"
    and buffer: "ix_base_num ix * ix_element_size ix2 < length (vb_mem vb (dv_net (th_dev (gs_thds (server_store remote ix2 sid devs) ! tid))))"
    and degree: "unat (ix_base_graph_R ix) \<le> MAX_DOORBELL_SIZE"
    and sc: "ds_wf sc" "k \<le> length (ds_inserted sc)" and fuel: "ix_base_num ix < fuel"
  shows "\<exists>P. P \<noteq> [] \<and> (\<forall>K \<le> length P. \<exists>st stats gs'.
    search_base_index_on_buckets ix2 cmp fuel sc query K = Inr (take K P, st) \<and>
    search_base_index_distributed vb ix2 cmp (\<lambda>_ _. True) pq_dist fuel tid sc query K lir 0 0 (server_store remote ix2 sid devs)
      = Inr (take K P, stats, gs'))"
proof -
  obtain bb where bb: "bkt_built ix k bb ix2" using generated_is_built [OF ok malloc bkts] by blast
  let ?h = "bkt_agraph ix bb" and ?L = "unat (ds_L sc)" and ?gs = "server_store remote ix2 sid devs"
  let ?D = "\<lambda>it. cmp (ag_vec (bkt_agraph ix bb) it) query" and ?EP = "ix_membkt_EP ix2"
  have repr: "bkt_repr ix2 ?h" using bb by (simp add: bkt_built_def)
  have wf: "ag_wf ?h" using repr by (simp add: bkt_repr_def)
  then have fin: "finite (ag_nodes ?h)" by (simp add: ag_wf_def)
  note built = bkt_built_search(1) [OF ok bb] bkt_built_search(2) [OF ok bb sc(2)]
  have small: "card (ag_nodes ?h) < fuel" using card_bkt_nodes [of ix bb] fuel by simp
  from search_on_buckets_greedy [OF repr built(1) sc(1) built(2) small, of cmp query] obtain P where
    P: "greedy ?L ?D (ag_edges ?h) fuel {?EP} {} = Some P"
    "\<And>K. K \<le> length P \<Longrightarrow> \<exists>st. search_base_index_on_buckets ix2 cmp fuel sc query K = Inr (map (\<lambda>(d, it). ag_label ?h it) (take K P), st)" by blast
  have "length (ag_edges ?h (place_of bb v)) \<le> MAX_DOORBELL_SIZE" if "v < ix_base_num ix" for v
  proof -
    have "ix_base_graph ix ! v \<in> set (ix_base_graph ix)" "ix_base_num ix < 2 ^ 32" using ok that by (auto simp: part_input_ok_def)
    then have "length (ix_base_graph ix ! v) \<le> unat (ix_base_graph_R ix)" using ok by (auto simp: part_input_ok_def)
    then show ?thesis using bkt_agraph_place(1) [OF that \<open>ix_base_num ix < 2 ^ 32\<close>, of bb] degree by simp
  qed
  then have "\<forall>v \<in> ag_nodes ?h. length (ag_edges ?h v) \<le> MAX_DOORBELL_SIZE" by (auto simp: bkt_agraph_nodes)
  moreover have "card (ag_nodes ?h) * ix_element_size ix2 < length (gs_buf vb tid ?gs)"
    using buffer mult_le_mono1 [OF card_bkt_nodes [of ix bb], of "ix_element_size ix2"] by linarith
  ultimately have fits: "search_fits vb ix2 ?h 0 tid ?gs"
    unfolding search_fits_def by (auto simp: MAX_DOORBELL_SIZE_def RC_MAX_SEND_SIZE_def intro!: exI [of _ MAX_DOORBELL_SIZE])
  have entry: "entry_items ix2 lir 0 = Inr [?EP]" by (simp add: entry_items_def)
  from distributed_search [OF server_store_ok [OF repr serves tid] entry _ _ _ fits sc(1) built(2) small, of cmp query "\<lambda>_ _. True" pq_dist]
  obtain P' where P': "relaxed ?L ?D (ag_edges ?h) (\<lambda>it. unat (fst it) = gs_sid ?gs) (keeps (\<lambda>_ _. True) pq_dist (ag_label ?h) ?L)
      fuel 0 {?EP} {?EP} [] {} = Some P'"
    "\<And>K. K \<le> length P' \<Longrightarrow> \<exists>stats gs'. search_base_index_distributed vb ix2 cmp (\<lambda>_ _. True) pq_dist fuel tid sc query K lir 0 0 ?gs
      = Inr (map (\<lambda>(d, it). ag_label ?h it) (take K P'), stats, gs')"
    using built(1) by (fastforce simp: RC_MAX_SEND_SIZE_def)
  have "P' = P" using P'(1) P(1) relaxed_greedy [of "keeps (\<lambda>_ _. True) pq_dist (ag_label ?h) ?L" ?L ?D "ag_edges ?h"]
    by (simp add: keeps_def)
  moreover have "P \<noteq> []"
  proof -
    have "\<exists>W. P = pool ?L ?D W \<and> {?EP} \<subseteq> W \<and> W \<subseteq> ag_nodes ?h \<and> (\<forall>k \<in> set P. set (ag_edges ?h (snd k)) \<subseteq> W)"
      using wf built(1) by (intro greedy_result [OF P(1) _ _ _ fin]) (auto simp: ag_wf_def)
    then obtain W where W: "P = pool ?L ?D W" "?EP \<in> W" "finite W" using fin finite_subset by blast
    have "0 < ?L" using sc(1) unat_gt_0_word by (auto simp: ds_wf_def)
    moreover have "0 < card W" using W(2,3) by (auto simp: card_gt_0_iff)
    ultimately show ?thesis using W(1) length_pool [OF W(3), of ?L ?D] by (auto simp flip: length_greater_0_conv)
  qed
  ultimately show ?thesis
    using P(2) P'(2) by (intro exI [of _ "map (\<lambda>(d, it). ag_label ?h it) P"]) (simp add: take_map)
qed



text \<open>
  C3: for any \<open>relax\<close>, entry points and pruning test, the search ends, reads no record before it has
  arrived, misses no vertex in the context of its thread, returns the ids of the delayed greedy
  search, and leaves the store ready for the next query.
\<close>

theorem distributed_search_refines:
  fixes dcmp :: "u32 list \<Rightarrow> u32 list \<Rightarrow> 'd::linorder"
  assumes "store_ok vb remote out delay ix g tid gs []" and "entry_items ix lir aen = Inr init"
    and "set init \<subseteq> ag_nodes g" "relax < length init" "length init \<le> RC_MAX_SEND_SIZE"
    and "search_fits vb ix g relax tid gs" and "ds_wf sc" "ag_nodes g \<subseteq> srs_dom (ds_inserted sc)"
    and "card (ag_nodes g) < fuel"
  shows "\<exists>P. relaxed (unat (ds_L sc)) (\<lambda>v. dcmp (ag_vec g v) query) (ag_edges g) (\<lambda>it. unat (fst it) = gs_sid gs)
      (keeps near pq_dist (ag_label g) (unat (ds_L sc))) fuel relax (set init) (set init) [] {} = Some P \<and>
    (\<forall>K \<le> length P. \<exists>stats gs'. search_base_index_distributed vb ix dcmp near pq_dist fuel tid sc query K lir aen (int relax) gs
      = Inr (map (\<lambda>(d, it). ag_label g it) (take K P), stats, gs') \<and> store_ok vb remote out delay ix g tid gs' [])"
  by (rule distributed_search [OF assms])

theorem distributed_search_refines_witness:
  "\<exists>(sc :: nat ds_scratch) gs ids stats gs'. store_ok (sim_verbs duo_remote) duo_remote snd (\<lambda>_. 0) duo_index duo_graph 0 gs [] \<and>
     search_base_index_distributed (sim_verbs duo_remote) duo_index tiny_dist (<) (\<lambda>_. 0) 3 0 sc [0] 1 0 0 0 gs = Inr (ids, stats, gs') \<and>
     store_ok (sim_verbs duo_remote) duo_remote snd (\<lambda>_. 0) duo_index duo_graph 0 gs' []"
proof -
  obtain sc :: "nat ds_scratch" where sc: "ds_wf sc" "ag_nodes duo_graph \<subseteq> srs_dom (ds_inserted sc)" "ds_L sc = 2"
    using duo_scratch by blast
  let ?gs = "server_store duo_remote duo_index 0 duo_devs"
  note ok = duo_ready(1) and entry = duo_ready(2) and fits = duo_ready(3)
  from distributed_search_refines [OF ok entry _ _ _ fits sc(1,2), of 3 tiny_dist "[0]" "(<)" "\<lambda>_. 0"]
  obtain P where P: "relaxed (unat (ds_L sc)) (\<lambda>v. tiny_dist (ag_vec duo_graph v) [0]) (ag_edges duo_graph) (\<lambda>it. unat (fst it) = gs_sid ?gs)
      (keeps (<) (\<lambda>_. 0) (ag_label duo_graph) (unat (ds_L sc))) 3 0 {(0, 0)} {(0, 0)} [] {} = Some P"
    "\<And>K. K \<le> length P \<Longrightarrow> \<exists>stats gs'. search_base_index_distributed (sim_verbs duo_remote) duo_index tiny_dist (<) (\<lambda>_. 0) 3 0 sc [0] K 0 0 0 ?gs
      = Inr (map (\<lambda>(d, it). ag_label duo_graph it) (take K P), stats, gs') \<and>
      store_ok (sim_verbs duo_remote) duo_remote snd (\<lambda>_. 0) duo_index duo_graph 0 gs' []"
    by (auto simp: duo_graph_def RC_MAX_SEND_SIZE_def)
  have "\<exists>W. P = pool (unat (ds_L sc)) (\<lambda>v. tiny_dist (ag_vec duo_graph v) [0]) W \<and> {(0, 0)} \<union> \<Union> (set []) \<subseteq> W \<and> W \<subseteq> ag_nodes duo_graph"
    by (rule relaxed_result [OF P(1)]) (auto simp: duo_graph_def)
  then obtain W where W: "P = pool 2 (\<lambda>v. tiny_dist (ag_vec duo_graph v) [0]) W" "(0, 0) \<in> W" "W \<subseteq> ag_nodes duo_graph"
    using sc(3) by auto
  then have "finite W" by (auto simp: duo_graph_def intro: finite_subset)
  with W(1,2) have "1 \<le> length P" by (auto simp: length_pool card_gt_0_iff Suc_le_eq)
  with P(2) [of 1] ok show ?thesis by blast
qed


text \<open>
  C4: whatever is delayed or pruned, the ids returned are those of the nearest vertices of a set that
  contains the entry points and only vertices reachable from them, in order and without repetition.
\<close>

theorem distributed_search_sound:
  fixes dcmp :: "u32 list \<Rightarrow> u32 list \<Rightarrow> 'd::linorder"
  assumes ok: "store_ok vb remote out delay ix g tid gs []" and entry: "entry_items ix lir aen = Inr init"
    and init: "set init \<subseteq> ag_nodes g" "relax < length init" "length init \<le> RC_MAX_SEND_SIZE"
    and fits: "search_fits vb ix g relax tid gs" and sc: "ds_wf sc" "ag_nodes g \<subseteq> srs_dom (ds_inserted sc)"
    and fuel: "card (ag_nodes g) < fuel"
  shows "\<exists>W. set init \<subseteq> W \<and> W \<subseteq> ag_reach g (set init) \<and> (\<forall>K \<le> min (unat (ds_L sc)) (card W). \<exists>stats gs'.
    search_base_index_distributed vb ix dcmp near pq_dist fuel tid sc query K lir aen (int relax) gs
      = Inr (map (\<lambda>(d, it). ag_label g it) (take K (least_keys (unat (ds_L sc)) ((\<lambda>v. (dcmp (ag_vec g v) query, v)) ` W))), stats, gs'))"
proof -
  let ?L = "unat (ds_L sc)" and ?D = "\<lambda>v. dcmp (ag_vec g v) query" and ?R = "ag_reach g (set init)"
  from distributed_search [OF ok entry init fits sc fuel, of dcmp query near pq_dist] obtain P where P:
    "relaxed ?L ?D (ag_edges g) (\<lambda>it. unat (fst it) = gs_sid gs) (keeps near pq_dist (ag_label g) ?L) fuel relax (set init) (set init) [] {} = Some P"
    "\<And>K. K \<le> length P \<Longrightarrow> \<exists>stats gs'. search_base_index_distributed vb ix dcmp near pq_dist fuel tid sc query K lir aen (int relax) gs
      = Inr (map (\<lambda>(d, it). ag_label g it) (take K P), stats, gs')" by blast
  have wf: "ag_wf g" using store_okD(1) [OF ok] by (simp add: cluster_ok_def)
  have R: "?R \<subseteq> ag_nodes g" by (rule ag_reach_nodes [OF wf init(1)])
  then have fin: "finite ?R" using wf by (auto simp: ag_wf_def intro: finite_subset)
  have "\<exists>W. P = pool ?L ?D W \<and> set init \<union> \<Union> (set []) \<subseteq> W \<and> W \<subseteq> ?R"
    by (rule relaxed_result [OF P(1) fin]) (auto intro: ag_reach.intros)
  then obtain W where W: "P = pool ?L ?D W" "set init \<subseteq> W" "W \<subseteq> ?R" by auto
  have "finite W" using W(3) fin by (rule finite_subset)
  then have len: "length P = min ?L (card W)" using W(1) by (simp add: length_pool)
  have "P = least_keys ?L ((\<lambda>v. (?D v, v)) ` W)" using W(1) by (simp add: pool_def vkey_def [abs_def])
  with P(2) len W(2,3) show ?thesis by auto
qed

theorem distributed_search_sound_witness:
  "\<exists>(sc :: nat ds_scratch) W. (0, 0) \<in> W \<and> (\<exists>stats gs'. search_base_index_distributed (sim_verbs duo_remote) duo_index tiny_dist
       (<) (\<lambda>_. 0) 3 0 sc [0] 1 0 0 0 (server_store duo_remote duo_index 0 duo_devs)
     = Inr (map (\<lambda>(d, it). ag_label duo_graph it) (take 1 (least_keys 2 ((\<lambda>v. (tiny_dist (ag_vec duo_graph v) [0], v)) ` W))), stats, gs'))"
proof -
  obtain sc :: "nat ds_scratch" where sc: "ds_wf sc" "ag_nodes duo_graph \<subseteq> srs_dom (ds_inserted sc)" "ds_L sc = 2"
    using duo_scratch by blast
  let ?gs = "server_store duo_remote duo_index 0 duo_devs"
  note ok = duo_ready(1) and entry = duo_ready(2) and fits = duo_ready(3)
  from distributed_search_sound [OF ok entry _ _ _ fits sc(1,2), where fuel = 3 and dcmp = tiny_dist and query = "[0]"
      and near = "(<)" and pq_dist = "\<lambda>_. 0"] sc(3)
  obtain W where W: "(0, 0) \<in> W" "W \<subseteq> ag_reach duo_graph {(0, 0)}" "\<And>K. K \<le> min 2 (card W) \<Longrightarrow> \<exists>stats gs'.
      search_base_index_distributed (sim_verbs duo_remote) duo_index tiny_dist (<) (\<lambda>_. 0) 3 0 sc [0] K 0 0 0 ?gs
     = Inr (map (\<lambda>(d, it). ag_label duo_graph it) (take K (least_keys 2 ((\<lambda>v. (tiny_dist (ag_vec duo_graph v) [0], v)) ` W))), stats, gs')"
    by (auto simp: duo_graph_def RC_MAX_SEND_SIZE_def)
  have "ag_wf duo_graph" using duo_repr by (simp add: bkt_repr_def)
  from ag_reach_nodes [OF this, of "{(0, 0)}"] W(2) have "finite W" by (auto simp: duo_graph_def intro: finite_subset)
  with W(1) have "1 \<le> card W" by (auto simp: Suc_le_eq card_gt_0_iff)
  with W(3) [of 1] W(1) show ?thesis by auto
qed

end
