(* ===== verification/CacheChoice.thy ===== *)
theory CacheChoice
  imports GStore
begin

text \<open>
  Which vertices \<open>GStore::set_cache\<close> keeps: the remote ones with the largest counters.
\<close>

definition access_of :: "u32 list list \<Rightarrow> item \<Rightarrow> u32" where
  "access_of access_count it = access_count ! unat (fst it) ! unat (snd it)"

definition remote_items :: "nat \<Rightarrow> nat \<Rightarrow> nat list \<Rightarrow> item list" where
  "remote_items sid n data_num =
     concat (map (\<lambda>s. if s = sid then [] else map (\<lambda>l. (of_nat s, of_nat l)) [0..<data_num ! s]) [0..<n])"

text \<open>The counters cover the vertices, whose numbers fit their types.\<close>

definition counters_ok :: "nat \<Rightarrow> u32 list list \<Rightarrow> nat list \<Rightarrow> bool" where
  "counters_ok n access_count data_num \<longleftrightarrow> n \<le> 256 \<and> length access_count = n \<and> length data_num = n \<and>
     (\<forall>s < n. data_num ! s \<le> length (access_count ! s) \<and> data_num ! s \<le> 2 ^ 32)"

lemma unat_of_nat8: "n < 256 \<Longrightarrow> unat (of_nat n :: byte) = n"
  by (simp add: unat_of_nat)

lemma remote_frequency_ok:
  assumes "counters_ok n access_count data_num"
  shows "remote_frequency sid n access_count data_num
    = Inr (rev (sort (map (\<lambda>it. (access_of access_count it, it)) (remote_items sid n data_num))))"
proof -
  let ?row = "\<lambda>s. map (\<lambda>l. (access_count ! s ! l, (of_nat s :: byte, of_nat l :: u32))) [0..<data_num ! s]"
  have small: "s < 256" "l < 2 ^ 32" "l < length (access_count ! s)" if "s < n" "l < data_num ! s" for s l
    using assms that by (auto simp: counters_ok_def intro: less_le_trans)
  have "rmap (\<lambda>dlid. rbind (rget (access_count ! s) dlid) (\<lambda>f. Inr (f, (of_nat s :: byte, of_nat dlid :: u32)))) [0..<data_num ! s]
      = Inr (?row s)" if "s < n" for s
    using small(3) [OF that] by (intro rmap_pure) simp
  then have "rmap (\<lambda>dsid. if dsid = sid then Inr [] else
        rbind (rget data_num dsid) (\<lambda>c. rbind (rget access_count dsid) (\<lambda>row.
        rmap (\<lambda>dlid. rbind (rget row dlid) (\<lambda>f. Inr (f, (of_nat dsid, of_nat dlid)))) [0..<c]))) [0..<n]
      = Inr (map (\<lambda>s. if s = sid then [] else ?row s) [0..<n])"
    using assms by (intro rmap_pure) (auto simp: counters_ok_def)
  moreover have "concat (map (\<lambda>s. if s = sid then [] else ?row s) [0..<n])
      = map (\<lambda>it. (access_of access_count it, it)) (remote_items sid n data_num)"
    unfolding remote_items_def map_concat
  proof (intro arg_cong [of _ _ concat], unfold map_map, intro map_cong refl)
    fix s assume s: "s \<in> set [0..<n]"
    have "unat (of_nat s :: byte) = s" "\<forall>l < data_num ! s. unat (of_nat l :: u32) = l"
      using s small assms by (auto simp: unat_of_nat8 unat_of_nat32 counters_ok_def)
    then show "(if s = sid then [] else ?row s) = (map (\<lambda>it. (access_of access_count it, it)) \<circ>
        (\<lambda>s. if s = sid then [] else map (\<lambda>l. (of_nat s, of_nat l)) [0..<data_num ! s])) s"
      by (simp add: access_of_def)
  qed
  ultimately show ?thesis by (simp add: remote_frequency_def)
qed

lemma of_nat32_inj: "(of_nat s :: u32) = of_nat t \<Longrightarrow> s < 2 ^ 32 \<Longrightarrow> t < 2 ^ 32 \<Longrightarrow> s = t"
  by (metis unat_of_nat32)

lemma of_nat8_inj: "(of_nat s :: byte) = of_nat t \<Longrightarrow> s < 256 \<Longrightarrow> t < 256 \<Longrightarrow> s = t"
  by (metis unat_of_nat8)

lemma remote_items_mem:
  "it \<in> set (remote_items sid n data_num) \<longleftrightarrow> (\<exists>s < n. \<exists>l < data_num ! s. s \<noteq> sid \<and> it = (of_nat s, of_nat l))"
  by (cases it) (force simp: remote_items_def split: if_splits)

lemma remote_items_distinct:
  assumes "counters_ok n access_count data_num"
  shows "distinct (remote_items sid n data_num)"
proof -
  let ?blk = "\<lambda>s. if s = sid then [] else map (\<lambda>l. (of_nat s :: byte, of_nat l :: u32)) [0..<data_num ! s]"
  have small: "m \<le> n \<Longrightarrow> distinct (concat (map ?blk [0..<m]))" for m
  proof (induction m)
    case (Suc m)
    have "distinct (?blk m)"
      using assms Suc.prems by (auto simp: distinct_map inj_on_def counters_ok_def dest!: of_nat32_inj intro: less_le_trans)
    moreover have "set (concat (map ?blk [0..<m])) \<inter> set (?blk m) = {}"
      using assms Suc.prems by (auto simp: counters_ok_def split: if_splits dest!: of_nat8_inj)
    ultimately show ?case using Suc by simp
  qed simp
  from small [of n] show ?thesis unfolding remote_items_def by blast
qed

text \<open>A prefix of the sorted counters: nothing left out is larger.\<close>

lemma select_keys_prefix: "\<exists>m. select_keys num freq = map snd (take m freq) \<and> m \<le> num \<and>
    (\<forall>x \<in> set (take m freq). fst x \<noteq> 0) \<and> (m < num \<longrightarrow> m < length freq \<longrightarrow> fst (freq ! m) = 0)"
proof -
  let ?t = "takeWhile (\<lambda>(f, it). f \<noteq> 0) freq"
  let ?m = "min num (length ?t)"
  have "take num ?t = take num (take (length ?t) freq)" by (simp only: takeWhile_eq_take [symmetric])
  then have "take num ?t = take ?m freq" by (simp only: take_take)
  moreover have "\<forall>x \<in> set (take num ?t). fst x \<noteq> 0" by (auto dest!: in_set_takeD set_takeWhileD)
  moreover have "fst (freq ! ?m) = 0" if "?m < num" "?m < length freq"
  proof -
    have "?m = length ?t" using that(1) by simp
    with that(2) nth_length_takeWhile [of "\<lambda>(f, it). f \<noteq> 0" freq] show ?thesis by (auto simp: case_prod_beta)
  qed
  ultimately show ?thesis by (intro exI [of _ ?m]) (simp add: select_keys_def)
qed

text \<open>At most \<open>num\<close> items of \<open>R\<close> with nonzero counters; what is left out has no larger counter, and none when there is room.\<close>

definition most_accessed :: "(item \<Rightarrow> u32) \<Rightarrow> item set \<Rightarrow> nat \<Rightarrow> item list \<Rightarrow> bool" where
  "most_accessed a R num keys \<longleftrightarrow> distinct keys \<and> set keys \<subseteq> R \<and> length keys \<le> num \<and>
     (\<forall>it \<in> set keys. a it \<noteq> 0 \<and> (\<forall>it' \<in> R - set keys. a it' \<le> a it)) \<and>
     (length keys < num \<longrightarrow> (\<forall>it \<in> R - set keys. a it = 0))"

lemma select_keys_most_accessed:
  assumes ok: "counters_ok n access_count data_num"
  shows "\<exists>keys. most_accessed (access_of access_count) (set (remote_items sid n data_num)) num keys \<and>
    (\<forall>freq. remote_frequency sid n access_count data_num = Inr freq \<longrightarrow> select_keys num freq = keys)"
proof -
  let ?R = "remote_items sid n data_num" and ?a = "access_of access_count"
  define freq where "freq = rev (sort (map (\<lambda>it. (?a it, it)) ?R))"
  have mem: "x \<in> set freq \<longleftrightarrow> snd x \<in> set ?R \<and> fst x = ?a (snd x)" for x by (cases x) (auto simp: freq_def)
  have dist: "distinct freq" "distinct (map snd freq)"
  proof -
    show d: "distinct freq"
      using remote_items_distinct [OF ok, of sid] by (simp add: freq_def distinct_map inj_on_def)
    show "distinct (map snd freq)"
      using d mem by (auto simp: distinct_map inj_on_def prod_eq_iff)
  qed
  have "sorted_wrt (\<lambda>x y. y < x) freq"
  proof -
    have "sorted_wrt (\<le>) (rev freq)" by (simp add: freq_def)
    then have "sorted_wrt (\<lambda>x y. y \<le> x) freq" by (simp add: sorted_wrt_rev)
    then show ?thesis using dist(1) by (auto simp: sorted_wrt_iff_nth_less nth_eq_iff_index_eq order.strict_iff_order)
  qed
  note desc = this
  obtain m where m: "select_keys num freq = map snd (take m freq)" "m \<le> num" "\<forall>x \<in> set (take m freq). fst x \<noteq> 0"
    "m < num \<longrightarrow> m < length freq \<longrightarrow> fst (freq ! m) = 0" using select_keys_prefix by blast
  let ?keys = "map snd (take m freq)"
  have "distinct ?keys" using dist(2) by (simp add: take_map [symmetric])
  have inkeys: "it \<in> set ?keys \<longleftrightarrow> it \<in> set ?R \<and> (?a it, it) \<in> set (take m freq)" for it
  proof -
    have "fst x = ?a (snd x)" "snd x \<in> set ?R" if "x \<in> set (take m freq)" for x
      using that in_set_takeD mem by metis+
    then have "x = (?a (snd x), snd x)" "snd x \<in> set ?R" if "x \<in> set (take m freq)" for x
      using that by (metis prod.collapse)+
    then show ?thesis by (metis (no_types, lifting) image_iff list.set_map snd_conv)
  qed
  have out: "(?a it, it) \<in> set (drop m freq)" if "it \<in> set ?R - set ?keys" for it
  proof -
    have "(?a it, it) \<in> set freq" using that mem by simp
    then have "(?a it, it) \<in> set (take m freq) \<union> set (drop m freq)" by (metis set_append append_take_drop_id)
    with that inkeys show ?thesis by blast
  qed
  have less: "y < x" if "x \<in> set (take m freq)" "y \<in> set (drop m freq)" for x y
  proof -
    have "sorted_wrt (\<lambda>x y. y < x) (take m freq @ drop m freq)" using desc by (simp only: append_take_drop_id)
    then have "\<forall>x \<in> set (take m freq). \<forall>y \<in> set (drop m freq). y < x" unfolding sorted_wrt_append by (elim conjE)
    with that show ?thesis by (elim ballE) auto
  qed
  have zero: "?a it = 0" if short: "length ?keys < num" and it: "it \<in> set ?R - set ?keys" for it
  proof -
    from out [OF it] obtain j where j: "m + j < length freq" "freq ! (m + j) = (?a it, it)"
      by (auto simp: in_set_conv_nth less_diff_conv add.commute)
    then have z: "fst (freq ! m) = 0" using m(2,4) short by simp
    show ?thesis
    proof (cases "j = 0")
      case False
      then have "freq ! (m + j) < freq ! m" using desc j(1) by (simp add: sorted_wrt_iff_nth_less)
      then have "?a it \<le> fst (freq ! m)" unfolding j(2) less_prod_def by auto
      with z show ?thesis by simp
    qed (use j z in simp)
  qed
  have le: "?a it' \<le> ?a it" if "it \<in> set ?keys" "it' \<in> set ?R - set ?keys" for it it'
  proof -
    have "(?a it', it') < (?a it, it)" using less inkeys out that by blast
    then show ?thesis unfolding less_prod_def by auto
  qed
  have "\<forall>it \<in> set ?keys. ?a it \<noteq> 0 \<and> (\<forall>it' \<in> set ?R - set ?keys. ?a it' \<le> ?a it)"
    using inkeys m(3) le by fastforce
  moreover have "set ?keys \<subseteq> set ?R" using inkeys by blast
  moreover have "length ?keys \<le> num" using m(2) by simp
  ultimately have "most_accessed ?a (set ?R) num ?keys"
    using \<open>distinct ?keys\<close> zero unfolding most_accessed_def by blast
  moreover have "select_keys num f = ?keys" if "remote_frequency sid n access_count data_num = Inr f" for f
    using that m(1) remote_frequency_ok [OF ok, of sid] by (simp add: freq_def)
  ultimately show ?thesis by blast
qed

end
