(* ===== verification/VertexCache.thy ===== *)
theory VertexCache
  imports DistProps CacheChoice
begin

text \<open>
  Filling the cache of remote vertices, \<open>RDMA_Cache::set_cache\<close> and \<open>GStore::set_cache\<close>: which vertices
  are cached, and that the cache serves their records. The cache is filled before the queries; a search
  afterwards runs under the same contract.
\<close>

section \<open>Filling\<close>

definition cached :: "'n gstore \<Rightarrow> item \<Rightarrow> vptr option" where
  "cached gs it = (gs_cache_table gs ! unat (fst it)) (snd it)"

text \<open>The parts that filling leaves alone; \<open>n\<close> and the memory sizes are those of the devices.\<close>

definition fill_frame :: "'n verbs \<Rightarrow> 'n gstore \<Rightarrow> 'n gstore \<Rightarrow> bool" where
  "fill_frame vb gs gs' \<longleftrightarrow> gs_sid gs' = gs_sid gs \<and> gs_servers gs' = gs_servers gs \<and> gs_use_rdma gs' = gs_use_rdma gs \<and>
     gs_vertex_size gs' = gs_vertex_size gs \<and> gs_kv gs' = gs_kv gs \<and> length (gs_thds gs') = length (gs_thds gs) \<and>
     (\<forall>j. j \<noteq> 0 \<longrightarrow> gs_thds gs' ! j = gs_thds gs ! j) \<and>
     (\<exists>d. gs_thds gs' ! 0 = (gs_thds gs ! 0)\<lparr>th_dev := d\<rparr> \<and> length (vb_mem vb (dv_net d)) = length (gs_buf vb 0 gs))"

definition idle_thread ::
    "'n verbs \<Rightarrow> (nat \<Rightarrow> byte list) \<Rightarrow> ('n \<Rightarrow> posted) \<Rightarrow> ('n \<Rightarrow> nat) \<Rightarrow> nat \<Rightarrow> 'n gstore \<Rightarrow> bool" where
  "idle_thread vb remote out delay j gs \<longleftrightarrow> j < length (gs_thds gs) \<and>
     dev_ok vb remote out delay (gs_servers gs) (th_dev (gs_thds gs ! j)) \<and> out (dv_net (th_dev (gs_thds gs ! j))) = (\<lambda>_. [])"

lemma cache_one_ok:
  assumes cl: "cluster_ok remote ix g gs" and idle: "idle_thread vb remote out delay 0 gs" and it: "it \<in> ag_nodes g"
    and buf: "ix_element_size ix < length (gs_buf vb 0 gs)" and tab: "length (gs_cache_table gs) = gs_servers gs"
    and data: "(i + 1) * ix_element_size ix \<le> length (gs_cache_data gs)"
  shows "\<exists>gs'. cache_one vb i it gs = Inr gs' \<and> fill_frame vb gs gs' \<and> idle_thread vb remote out delay 0 gs' \<and>
    gs_cache_gen gs' = gs_cache_gen gs \<and> length (gs_cache_data gs') = length (gs_cache_data gs) \<and>
    length (gs_cache_table gs') = length (gs_cache_table gs) \<and>
    cached gs' it = Some (In_Cache (gs_cache_gen gs) (i * ix_element_size ix)) \<and> (\<forall>it'. it' \<noteq> it \<longrightarrow> cached gs' it' = cached gs it') \<and>
    holds ix g (gs_cache_data gs') (i * ix_element_size ix) it \<and>
    (\<forall>it' off. it' \<in> ag_nodes g \<longrightarrow> off + ix_element_size ix \<le> i * ix_element_size ix \<longrightarrow> holds ix g (gs_cache_data gs) off it' \<longrightarrow>
       holds ix g (gs_cache_data gs') off it')"
proof -
  let ?sz = "ix_element_size ix" and ?s = "unat (fst it)" and ?th = "gs_thds gs ! 0"
  have C: "gs_vertex_size gs = ?sz" "?s < gs_servers gs" "bkt_node_ok ix g it" "holds ix g (remote ?s) (unat (snd it) * ?sz) it"
    using cl it by (auto simp: cluster_ok_def)
  have I: "0 < length (gs_thds gs)" "dev_ok vb remote out delay (gs_servers gs) (th_dev ?th)" "out (dv_net (th_dev ?th)) = (\<lambda>_. [])"
    using idle by (auto simp: idle_thread_def)
  have src: "unat (snd it) * ?sz + ?sz \<le> length (remote ?s)" using C(4) by (simp add: holds_def)
  from RdmaRead_ok [OF I(2,3) C(2), of 0 ?sz "unat (snd it) * ?sz"] buf src obtain d where d:
    "RdmaRead vb ?s 0 ?sz (unat (snd it) * ?sz) (th_dev ?th) = Inr d" "dev_ok vb remote out delay (gs_servers gs) d"
    "out (dv_net d) = (\<lambda>_. [])" "same_outside {0..<0 + ?sz} (gs_buf vb 0 gs) (vb_mem vb (dv_net d))"
    "slice (vb_mem vb (dv_net d)) 0 ?sz = slice (remote ?s) (unat (snd it) * ?sz) ?sz" by auto
  have len: "length (vb_mem vb (dv_net d)) = length (gs_buf vb 0 gs)" using d(4) by (simp add: same_outside_def)
  define bs where "bs = slice (remote ?s) (unat (snd it) * ?sz) ?sz"
  have bs: "load (vb_mem vb (dv_net d)) 0 ?sz = Inr bs" "length bs = ?sz" using d(5) len buf src by (simp_all add: load_def bs_def)
  obtain data' where data': "store (gs_cache_data gs) (i * ?sz) bs = Inr data'"
    using data bs(2) by (simp add: store_def)
  define gs' where "gs' = gs_put (gs\<lparr>gs_cache_data := data',
      gs_cache_table := (gs_cache_table gs)[?s := (gs_cache_table gs ! ?s)(snd it \<mapsto> In_Cache (gs_cache_gen gs) (i * ?sz))]\<rparr>)
      0 (?th\<lparr>th_dev := d\<rparr>)"
  have run: "cache_one vb i it gs = Inr gs'"
    using I(1) C(1,2) buf tab d(1) bs(1) data' by (simp add: cache_one_def Let_def gs'_def)
  have sel: "gs_cache_data gs' = data'" "gs_cache_gen gs' = gs_cache_gen gs" "gs_servers gs' = gs_servers gs"
    "gs_cache_table gs' = (gs_cache_table gs)[?s := (gs_cache_table gs ! ?s)(snd it \<mapsto> In_Cache (gs_cache_gen gs) (i * ?sz))]"
    "gs_thds gs' = (gs_thds gs)[0 := ?th\<lparr>th_dev := d\<rparr>]" by (simp_all add: gs'_def)
  have len': "length data' = length (gs_cache_data gs)" by (rule length_store [OF data'])
  have "slice data' (i * ?sz) ?sz = bs" using slice_store_same [OF data'] bs(2) by simp
  then have "holds ix g data' (i * ?sz) it"
    using data len' by (intro holds_copy [OF C(4,3)]) (simp_all add: bs_def)
  moreover have "holds ix g data' off it'" if "it' \<in> ag_nodes g" "off + ?sz \<le> i * ?sz" "holds ix g (gs_cache_data gs) off it'" for it' off
  proof -
    have "bkt_node_ok ix g it'" using cl that(1) by (simp add: cluster_ok_def)
    moreover have "slice data' off ?sz = slice (gs_cache_data gs) off ?sz"
      using slice_store_other [OF data', of off ?sz] that(2) by simp
    ultimately show ?thesis using that(3) len' by (intro holds_copy [OF that(3)]) (simp_all add: holds_def)
  qed
  moreover have "cached gs' it' = cached gs it'" if "it' \<noteq> it" for it'
    using that C(2) tab by (cases it, cases it') (auto simp: cached_def sel nth_list_update word_unat_eq_iff)
  moreover have "cached gs' it = Some (In_Cache (gs_cache_gen gs) (i * ?sz))" using C(2) tab by (simp add: cached_def sel)
  moreover have "fill_frame vb gs gs'" using I(1) len by (auto simp: fill_frame_def gs'_def)
  moreover have "idle_thread vb remote out delay 0 gs'" using I(1) d(2,3) sel by (simp add: idle_thread_def)
  ultimately show ?thesis using run len' by (simp add: sel)
qed

lemma fill_frame_trans: "fill_frame vb gs gs' \<Longrightarrow> fill_frame vb gs' gs'' \<Longrightarrow> fill_frame vb gs gs''"
  by (fastforce simp: fill_frame_def)

lemma fill_frame_cluster: "fill_frame vb gs gs' \<Longrightarrow> cluster_ok remote ix g gs \<Longrightarrow> cluster_ok remote ix g gs'"
  by (simp add: fill_frame_def cluster_ok_def)

lemma enumerate_prefix: "enumerate 0 xs = ys @ (i, x) # zs \<Longrightarrow> i = length ys \<and> x \<in> set xs \<and> length ys < length xs"
proof -
  assume e: "enumerate 0 xs = ys @ (i, x) # zs"
  have "length ys < length (enumerate 0 xs)" by (simp add: e)
  then have l: "length ys < length xs" by simp
  have "enumerate 0 xs ! length ys = (i, x)" by (simp add: e)
  then show ?thesis using l by (auto simp: nth_enumerate_eq)
qed

text \<open>The whole fill: exactly the keys are new in the tables, and their records are in the new allocation.\<close>

lemma fill_ok:
  assumes cl: "cluster_ok remote ix g gs" and idle: "idle_thread vb remote out delay 0 gs" and keys: "set keys \<subseteq> ag_nodes g"
    and buf: "ix_element_size ix < length (gs_buf vb 0 gs)" and tab: "length (gs_cache_table gs) = gs_servers gs"
    and fresh: "\<And>n. length (fresh n) = n"
  shows "\<exists>gs'. cache_set_cache vb fresh keys gs = Inr gs' \<and> fill_frame vb gs gs' \<and> idle_thread vb remote out delay 0 gs' \<and>
    gs_cache_gen gs' = gs_cache_gen gs + 1 \<and> length (gs_cache_table gs') = gs_servers gs' \<and>
    (\<forall>it. if it \<in> set keys then \<exists>off. cached gs' it = Some (In_Cache (gs_cache_gen gs') off) \<and> holds ix g (gs_cache_data gs') off it
          else cached gs' it = cached gs it)"
proof -
  let ?sz = "ix_element_size ix"
  define gs0 where "gs0 = gs\<lparr>gs_cache_gen := gs_cache_gen gs + 1, gs_cache_data := fresh (length keys * gs_vertex_size gs)\<rparr>"
  have C: "gs_vertex_size gs = ?sz" using cl by (simp add: cluster_ok_def)
  have sel: "gs_thds gs0 = gs_thds gs" "gs_cache_table gs0 = gs_cache_table gs" "gs_servers gs0 = gs_servers gs"
    "length (gs_cache_data gs0) = length keys * ?sz" "gs_cache_gen gs0 = gs_cache_gen gs + 1"
    by (simp_all add: gs0_def fresh C)
  have fr0: "fill_frame vb gs gs0" by (auto simp: fill_frame_def gs0_def intro: exI [of _ "th_dev (gs_thds gs ! 0)"])
  let ?P = "\<lambda>ys gs'. fill_frame vb gs gs' \<and> idle_thread vb remote out delay 0 gs' \<and> gs_cache_gen gs' = gs_cache_gen gs + 1 \<and>
      length (gs_cache_data gs') = length keys * ?sz \<and> length (gs_cache_table gs') = gs_servers gs \<and>
      (\<forall>it. if it \<in> snd ` set ys then \<exists>off. cached gs' it = Some (In_Cache (gs_cache_gen gs + 1) off) \<and>
              off + ?sz \<le> length ys * ?sz \<and> holds ix g (gs_cache_data gs') off it
            else cached gs' it = cached gs it)"
  have "\<exists>gs'. rfold (\<lambda>(i, it). cache_one vb i it) (enumerate 0 keys) gs0 = Inr gs' \<and> ?P (enumerate 0 keys) gs'"
  proof (rule rfold_invariant)
    show "?P [] gs0" using idle fr0 tab by (simp add: sel idle_thread_def cached_def)
  next
    fix ys x zs gs1 assume split: "enumerate 0 keys = ys @ x # zs" and inv: "?P ys gs1"
    obtain i it where x: "x = (i, it)" by (metis surj_pair)
    from enumerate_prefix [OF split [unfolded x]] have i: "i = length ys" "it \<in> set keys" "length ys < length keys" by auto
    have "set (map snd (enumerate 0 keys)) = set keys" by simp
    then have ys: "snd ` set ys \<subseteq> ag_nodes g" using keys unfolding split by auto
    have cl1: "cluster_ok remote ix g gs1" using inv fill_frame_cluster cl by blast
    have buf1: "?sz < length (gs_buf vb 0 gs1)" using inv buf by (auto simp: fill_frame_def)
    have tab1: "length (gs_cache_table gs1) = gs_servers gs1" using inv by (simp add: fill_frame_def)
    have "(i + 1) * ?sz \<le> length (gs_cache_data gs1)" using inv i mult_le_mono1 [of "i + 1" "length keys" ?sz] by simp
    note this_one = cache_one_ok [OF cl1 _ _ buf1 tab1 this]
    have idle1: "idle_thread vb remote out delay 0 gs1" "it \<in> ag_nodes g" using inv keys i(2) by auto
    have "gs_cache_gen gs1 = gs_cache_gen gs + 1" "length (gs_cache_data gs1) = length keys * ?sz" using inv by auto
    with this_one [OF idle1] tab1 inv obtain gs2 where gs2:
      "cache_one vb i it gs1 = Inr gs2" "fill_frame vb gs1 gs2" "idle_thread vb remote out delay 0 gs2"
      "gs_cache_gen gs2 = gs_cache_gen gs + 1" "length (gs_cache_data gs2) = length keys * ?sz" "length (gs_cache_table gs2) = gs_servers gs"
      "cached gs2 it = Some (In_Cache (gs_cache_gen gs + 1) (i * ?sz))" "\<And>it'. it' \<noteq> it \<Longrightarrow> cached gs2 it' = cached gs1 it'"
      "holds ix g (gs_cache_data gs2) (i * ?sz) it"
      "\<And>it' off. it' \<in> ag_nodes g \<Longrightarrow> off + ?sz \<le> i * ?sz \<Longrightarrow> holds ix g (gs_cache_data gs1) off it' \<Longrightarrow> holds ix g (gs_cache_data gs2) off it'"
      by auto
    have new: "if it' \<in> snd ` set (ys @ [x]) then \<exists>off. cached gs2 it' = Some (In_Cache (gs_cache_gen gs + 1) off) \<and>
              off + ?sz \<le> length (ys @ [x]) * ?sz \<and> holds ix g (gs_cache_data gs2) off it'
            else cached gs2 it' = cached gs it'" for it'
    proof (cases "it' = it")
      case True
      then show ?thesis using gs2(7,9) i(1) x by auto
    next
      case False
      note old = inv [THEN conjunct2, THEN conjunct2, THEN conjunct2, THEN conjunct2, THEN conjunct2, THEN spec, of it']
      show ?thesis
      proof (cases "it' \<in> snd ` set ys")
        case True
        with old obtain off where "cached gs1 it' = Some (In_Cache (gs_cache_gen gs + 1) off)" "off + ?sz \<le> length ys * ?sz"
          "holds ix g (gs_cache_data gs1) off it'" by auto
        with True False gs2(8,10) ys i(1) show ?thesis by (auto intro!: exI [of _ off])
      next
        case False': False
        with old gs2(8) [OF False] False x show ?thesis by auto
      qed
    qed
    have "fill_frame vb gs gs2" using fill_frame_trans [OF _ gs2(2)] inv by blast
    then have "?P (ys @ [x]) gs2" using gs2(3-6) new by blast
    moreover have "(case x of (i, it) \<Rightarrow> cache_one vb i it) gs1 = Inr gs2" using gs2(1) x by simp
    ultimately show "\<exists>gs2. (case x of (i, it) \<Rightarrow> cache_one vb i it) gs1 = Inr gs2 \<and> ?P (ys @ [x]) gs2" by blast
  qed
  then obtain gs' where gs': "rfold (\<lambda>(i, it). cache_one vb i it) (enumerate 0 keys) gs0 = Inr gs'" "?P (enumerate 0 keys) gs'" by blast
  have keys': "snd ` set (enumerate 0 keys) = set keys" by (metis map_snd_enumerate set_map)
  have gen: "gs_cache_gen gs' = gs_cache_gen gs + 1" using gs'(2) by blast
  have "if it \<in> set keys then \<exists>off. cached gs' it = Some (In_Cache (gs_cache_gen gs') off) \<and> holds ix g (gs_cache_data gs') off it
          else cached gs' it = cached gs it" for it
    using gs'(2) [THEN conjunct2, THEN conjunct2, THEN conjunct2, THEN conjunct2, THEN conjunct2, THEN spec, of it] gen
    unfolding keys' by (cases "it \<in> set keys") auto
  moreover have "cache_set_cache vb fresh keys gs = Inr gs'" using gs'(1) by (simp add: cache_set_cache_def gs0_def)
  moreover have "gs_servers gs' = gs_servers gs" using gs'(2) by (simp add: fill_frame_def)
  moreover have "length (gs_cache_table gs') = gs_servers gs'" using gs'(2) calculation by presburger
  ultimately show ?thesis using gs'(2) gen by blast
qed

section \<open>Properties\<close>

text \<open>What filling needs of a store: its devices idle, and room in the buffer of thread 0.\<close>

definition fill_ready ::
    "'n verbs \<Rightarrow> (nat \<Rightarrow> byte list) \<Rightarrow> ('n \<Rightarrow> posted) \<Rightarrow> ('n \<Rightarrow> nat) \<Rightarrow> index \<Rightarrow> item agraph \<Rightarrow> u32 list list \<Rightarrow> nat list \<Rightarrow>
     'n gstore \<Rightarrow> bool" where
  "fill_ready vb remote out delay ix g access_count data_num gs \<longleftrightarrow> 0 < length (gs_thds gs) \<and>
     (\<forall>tid < length (gs_thds gs). store_ok vb remote out delay ix g tid gs []) \<and>
     ix_element_size ix < length (gs_buf vb 0 gs) \<and> counters_ok (gs_servers gs) access_count data_num \<and>
     set (remote_items (gs_sid gs) (gs_servers gs) data_num) \<subseteq> ag_nodes g"

lemma fill_ready_facts:
  assumes "fill_ready vb remote out delay ix g access_count data_num gs"
  shows "cluster_ok remote ix g gs" "cache_ok ix g gs" "length (gs_cache_table gs) = gs_servers gs"
    "idle_thread vb remote out delay 0 gs" "ix_element_size ix < length (gs_buf vb 0 gs)"
    "counters_ok (gs_servers gs) access_count data_num" "set (remote_items (gs_sid gs) (gs_servers gs) data_num) \<subseteq> ag_nodes g"
proof -
  have "store_ok vb remote out delay ix g 0 gs []" using assms by (simp add: fill_ready_def)
  then show "cluster_ok remote ix g gs" "cache_ok ix g gs" "length (gs_cache_table gs) = gs_servers gs"
    "idle_thread vb remote out delay 0 gs"
    by (auto simp: store_ok_def cache_ok_def idle_thread_def net_ok_def fun_eq_iff)
qed (use assms in \<open>simp_all add: fill_ready_def\<close>)

text \<open>The pointers a thread remembers are not disturbed when they do not point into the old allocation.\<close>

definition thd_fresh :: "'n thd \<Rightarrow> bool" where
  "thd_fresh th \<longleftrightarrow> (\<forall>m \<in> set (th_cache th). m = Map.empty)"

lemma filled_store_ok:
  assumes ok: "store_ok vb remote out delay ix g tid gs []" and frame: "fill_frame vb gs gs'" and "idle_thread vb remote out delay 0 gs'"
    and "cache_ok ix g gs'" and fresh: "thd_fresh (gs_thds gs ! tid)"
  shows "store_ok vb remote out delay ix g tid gs' []"
proof -
  have th: "tid < length (gs_thds gs)" "length (th_cache (gs_thds gs ! tid)) = gs_servers gs" using ok by (auto simp: store_ok_def)
  have th': "th_cache (gs_thds gs' ! tid) = th_cache (gs_thds gs ! tid)" "th_polls (gs_thds gs' ! tid) = th_polls (gs_thds gs ! tid)"
    using frame unfolding fill_frame_def by (cases "tid = 0", auto)+
  have "dev_ok vb remote out delay (gs_servers gs) (th_dev (gs_thds gs' ! tid)) \<and> out (dv_net (th_dev (gs_thds gs' ! tid))) = (\<lambda>_. [])"
  proof (cases "tid = 0")
    case True
    then show ?thesis using assms(3) frame by (simp add: idle_thread_def fill_frame_def)
  next
    case False
    then show ?thesis using ok frame by (auto simp: store_ok_def net_ok_def fill_frame_def fun_eq_iff)
  qed
  moreover have "(th_cache (gs_thds gs ! tid) ! s) l = None" if "s < gs_servers gs" for s l
  proof -
    have "th_cache (gs_thds gs ! tid) ! s \<in> set (th_cache (gs_thds gs ! tid))" using th(2) that by simp
    with fresh have "th_cache (gs_thds gs ! tid) ! s = Map.empty" unfolding thd_fresh_def by blast
    then show ?thesis by simp
  qed
  ultimately show ?thesis
    using ok frame fill_frame_cluster [OF frame] assms(4) th th'
    by (auto simp: store_ok_def net_ok_def fill_frame_def fun_eq_iff)
qed

lemma set_cache_fills:
  assumes ready: "fill_ready vb remote out delay ix g access_count data_num gs" and fresh: "\<And>n. length (fresh n) = n"
    and empty: "\<forall>m \<in> set (gs_cache_table gs). m = Map.empty" and threads: "\<forall>th \<in> set (gs_thds gs). thd_fresh th"
  shows "\<exists>gs' keys. gs_set_cache vb fresh access_count data_num num gs = Inr gs' \<and> fill_frame vb gs gs' \<and>
    (\<forall>tid < length (gs_thds gs). store_ok vb remote out delay ix g tid gs' []) \<and>
    (\<forall>it. unat (fst it) < gs_servers gs \<longrightarrow> (cached gs' it \<noteq> None \<longleftrightarrow> it \<in> set keys)) \<and>
    most_accessed (access_of access_count) (set (remote_items (gs_sid gs) (gs_servers gs) data_num)) num keys"
proof -
  note R = fill_ready_facts [OF ready]
  from select_keys_most_accessed [OF R(6), of "gs_sid gs" num] obtain keys where keys:
    "most_accessed (access_of access_count) (set (remote_items (gs_sid gs) (gs_servers gs) data_num)) num keys"
    "\<And>freq. remote_frequency (gs_sid gs) (gs_servers gs) access_count data_num = Inr freq \<Longrightarrow> select_keys num freq = keys" by blast
  have "set keys \<subseteq> ag_nodes g" using keys(1) R(7) by (auto simp: most_accessed_def)
  from fill_ok [OF R(1,4) this R(5,3) fresh] obtain gs' where gs': "cache_set_cache vb fresh keys gs = Inr gs'" "fill_frame vb gs gs'"
    "idle_thread vb remote out delay 0 gs'" "length (gs_cache_table gs') = gs_servers gs'"
    "\<And>it. if it \<in> set keys then \<exists>off. cached gs' it = Some (In_Cache (gs_cache_gen gs') off) \<and> holds ix g (gs_cache_data gs') off it
          else cached gs' it = cached gs it" by blast
  have run: "gs_set_cache vb fresh access_count data_num num gs = Inr gs'"
    using gs'(1) keys(2) [OF remote_frequency_ok [OF R(6)]] remote_frequency_ok [OF R(6), of "gs_sid gs"]
    by (simp add: gs_set_cache_def)
  have none: "cached gs it = None" if "unat (fst it) < gs_servers gs" for it :: item
  proof -
    have "gs_cache_table gs ! unat (fst it) \<in> set (gs_cache_table gs)" using R(3) that by simp
    with empty have "gs_cache_table gs ! unat (fst it) = Map.empty" by blast
    then show ?thesis by (simp add: cached_def)
  qed
  have iff: "cached gs' it \<noteq> None \<longleftrightarrow> it \<in> set keys" if "unat (fst it) < gs_servers gs" for it :: item
    using gs'(5) [of it] none [OF that] by (auto split: if_splits)
  have "cache_ok ix g gs'"
    unfolding cache_ok_def
  proof (intro conjI allI impI)
    fix it :: item and p assume it: "unat (fst it) < gs_servers gs'" "(gs_cache_table gs' ! unat (fst it)) (snd it) = Some p"
    have "unat (fst it) < gs_servers gs" using it(1) gs'(2) by (simp add: fill_frame_def)
    from iff [OF this] it(2) have "it \<in> set keys" by (simp add: cached_def)
    then show "\<exists>off. p = In_Cache (gs_cache_gen gs') off \<and> holds ix g (gs_cache_data gs') off it"
      using gs'(5) [of it] it(2) by (auto simp: cached_def)
  qed (rule gs'(4))
  then have "store_ok vb remote out delay ix g tid gs' []" if "tid < length (gs_thds gs)" for tid
    using ready that threads by (intro filled_store_ok [OF _ gs'(2,3)]) (auto simp: fill_ready_def)
  with run iff keys(1) gs'(2) show ?thesis by blast
qed

text \<open>
  C7: \<open>GStore::set_cache\<close> on a store whose cache was not filled yet keeps at most \<open>num_nodes_to_cache\<close>
  remote vertices, all with a nonzero counter and none with a smaller one than a vertex left out, which is
  left out for want of room or because its counter is zero; and every thread can search afterwards.
\<close>

theorem set_cache_most_accessed:
  assumes ready: "fill_ready vb remote out delay ix g access_count data_num gs" and fresh: "\<And>n. length (fresh n) = n"
    and empty: "\<forall>m \<in> set (gs_cache_table gs). m = Map.empty" and threads: "\<forall>th \<in> set (gs_thds gs). thd_fresh th"
  shows "\<exists>gs' keys. gs_set_cache vb fresh access_count data_num num gs = Inr gs' \<and>
    (\<forall>tid < length (gs_thds gs). store_ok vb remote out delay ix g tid gs' []) \<and>
    (\<forall>it. unat (fst it) < gs_servers gs \<longrightarrow> (cached gs' it \<noteq> None \<longleftrightarrow> it \<in> set keys)) \<and>
    most_accessed (access_of access_count) (set (remote_items (gs_sid gs) (gs_servers gs) data_num)) num keys"
  using set_cache_fills [OF assms, of num] by blast

text \<open>The cluster of two servers, with a counter of 5 for the vertex of the other server.\<close>

lemma duo_fill_ready:
  "fill_ready (sim_verbs duo_remote) duo_remote snd (\<lambda>_. 0) duo_index duo_graph [[0], [5]] [1, 1] (server_store duo_remote duo_index 0 duo_devs)"
proof -
  have "length (gs_thds (server_store duo_remote duo_index 0 duo_devs)) = 1"
    "gs_servers (server_store duo_remote duo_index 0 duo_devs) = 2" "gs_sid (server_store duo_remote duo_index 0 duo_devs) = 0"
    "length (gs_buf (sim_verbs duo_remote) 0 (server_store duo_remote duo_index 0 duo_devs)) = 100"
    by (simp_all add: server_store_def gs_new_def duo_devs_def duo_index_def sim_verbs_def)
  moreover have "counters_ok 2 [[0], [5]] [1, 1]" by (auto simp: counters_ok_def less_2_cases_iff)
  moreover have "set (remote_items 0 2 [1, 1]) \<subseteq> ag_nodes duo_graph"
    by (auto simp: remote_items_def duo_graph_def upt_rec)
  moreover have "ix_element_size duo_index = 21" by (simp add: duo_index_def)
  ultimately show ?thesis using duo_ready(1) by (simp add: fill_ready_def)
qed

lemma duo_most_accessed:
  assumes "most_accessed (access_of [[0], [5]]) (set (remote_items 0 2 [1, 1])) 1 keys"
  shows "(1, 0) \<in> set keys"
proof (rule ccontr)
  let ?R = "set (remote_items 0 2 [1, 1])"
  assume out: "(1, 0) \<notin> set keys"
  have R: "?R = {(1, 0)}" by (auto simp: remote_items_def upt_rec)
  have "set keys \<subseteq> ?R" using assms by (simp add: most_accessed_def)
  then have "\<forall>it \<in> set keys. it = (1, 0)" unfolding R by blast
  with out have "set keys \<subseteq> {}" by fast
  then have "keys = []" by simp
  moreover have "access_of [[0], [5]] (1, 0) = 5" by (simp add: access_of_def)
  ultimately show False using assms unfolding R by (simp add: most_accessed_def)
qed

lemma duo_empty:
  "gs_servers (server_store duo_remote duo_index 0 duo_devs) = 2" "gs_sid (server_store duo_remote duo_index 0 duo_devs) = 0"
  "\<forall>m \<in> set (gs_cache_table (server_store duo_remote duo_index 0 duo_devs)). m = Map.empty"
  "\<forall>th \<in> set (gs_thds (server_store duo_remote duo_index 0 duo_devs)). thd_fresh th"
  by (auto simp: server_store_def gs_new_def duo_index_def duo_devs_def thd_fresh_def)

theorem set_cache_most_accessed_witness:
  "\<exists>gs'. gs_set_cache (sim_verbs duo_remote) (\<lambda>n. replicate n 0) [[0], [5]] [1, 1] 1 (server_store duo_remote duo_index 0 duo_devs) = Inr gs' \<and>
     store_ok (sim_verbs duo_remote) duo_remote snd (\<lambda>_. 0) duo_index duo_graph 0 gs' [] \<and> cached gs' (1, 0) \<noteq> None"
proof -
  let ?vb = "sim_verbs duo_remote" and ?gs = "server_store duo_remote duo_index 0 duo_devs"
  from set_cache_most_accessed [OF duo_fill_ready _ duo_empty(3,4), of "\<lambda>n. replicate n 0" 1] obtain gs' keys where
    g: "gs_set_cache ?vb (\<lambda>n. replicate n 0) [[0], [5]] [1, 1] 1 ?gs = Inr gs'"
    "\<forall>tid < length (gs_thds ?gs). store_ok ?vb duo_remote snd (\<lambda>_. 0) duo_index duo_graph tid gs' []"
    "\<forall>it. unat (fst it) < gs_servers ?gs \<longrightarrow> (cached gs' it \<noteq> None \<longleftrightarrow> it \<in> set keys)"
    "most_accessed (access_of [[0], [5]]) (set (remote_items (gs_sid ?gs) (gs_servers ?gs) [1, 1])) 1 keys" by auto
  have "0 < length (gs_thds ?gs)" using duo_fill_ready by (simp add: fill_ready_def)
  moreover have "cached gs' (1, 0) \<noteq> None" using g(3) [THEN spec, of "(1, 0)"] duo_most_accessed g(4) by (simp add: duo_empty)
  ultimately show ?thesis using g(1,2) by blast
qed

lemma duo_filled:
  "\<exists>gs. fill_ready (sim_verbs duo_remote) duo_remote snd (\<lambda>_. 0) duo_index duo_graph [[0], [5]] [1, 1] gs \<and>
     cached gs (1, 0) \<noteq> None \<and> gs_servers gs = 2"
proof -
  let ?vb = "sim_verbs duo_remote" and ?gs = "server_store duo_remote duo_index 0 duo_devs"
  from set_cache_fills [OF duo_fill_ready _ duo_empty(3,4), of "\<lambda>n. replicate n 0" 1] obtain gs' keys where
    g: "fill_frame ?vb ?gs gs'" "\<forall>tid < length (gs_thds ?gs). store_ok ?vb duo_remote snd (\<lambda>_. 0) duo_index duo_graph tid gs' []"
    "\<forall>it. unat (fst it) < gs_servers ?gs \<longrightarrow> (cached gs' it \<noteq> None \<longleftrightarrow> it \<in> set keys)"
    "most_accessed (access_of [[0], [5]]) (set (remote_items (gs_sid ?gs) (gs_servers ?gs) [1, 1])) 1 keys" by auto
  have "fill_ready ?vb duo_remote snd (\<lambda>_. 0) duo_index duo_graph [[0], [5]] [1, 1] gs'"
    using g(1,2) duo_fill_ready by (auto simp: fill_ready_def fill_frame_def)
  moreover have "cached gs' (1, 0) \<noteq> None" using g(3) [THEN spec, of "(1, 0)"] duo_most_accessed g(4) by (simp add: duo_empty)
  moreover have "gs_servers gs' = 2" using g(1) by (simp add: fill_frame_def duo_empty)
  ultimately show ?thesis by blast
qed

text \<open>
  C8: a second call leaves the entries of vertices that it does not choose, while the allocation they point
  into is gone: reading such a vertex is outside every allocation.
\<close>

theorem second_set_cache_dangles:
  assumes ready: "fill_ready vb remote out delay ix g access_count data_num gs" and fresh: "\<And>n. length (fresh n) = n"
    and old: "cached gs it = Some (In_Cache (gs_cache_gen gs) off)"
    and dropped: "\<forall>freq. remote_frequency (gs_sid gs) (gs_servers gs) access_count data_num = Inr freq \<longrightarrow> it \<notin> set (select_keys num freq)"
  shows "\<exists>gs'. gs_set_cache vb fresh access_count data_num num gs = Inr gs' \<and>
    cached gs' it = Some (In_Cache (gs_cache_gen gs) off) \<and>
    (\<forall>tid < length (gs_thds gs). at_ptr vb rd tid gs' (In_Cache (gs_cache_gen gs) off) = Inl Out_Of_Bounds)"
proof -
  note R = fill_ready_facts [OF ready]
  from select_keys_most_accessed [OF R(6), of "gs_sid gs" num] obtain keys where keys:
    "most_accessed (access_of access_count) (set (remote_items (gs_sid gs) (gs_servers gs) data_num)) num keys"
    "\<And>freq. remote_frequency (gs_sid gs) (gs_servers gs) access_count data_num = Inr freq \<Longrightarrow> select_keys num freq = keys" by blast
  have "set keys \<subseteq> ag_nodes g" using keys(1) R(7) by (auto simp: most_accessed_def)
  from fill_ok [OF R(1,4) this R(5,3) fresh] obtain gs' where gs': "cache_set_cache vb fresh keys gs = Inr gs'"
    "gs_cache_gen gs' = gs_cache_gen gs + 1" "fill_frame vb gs gs'"
    "\<And>it. if it \<in> set keys then \<exists>off. cached gs' it = Some (In_Cache (gs_cache_gen gs') off) \<and> holds ix g (gs_cache_data gs') off it
          else cached gs' it = cached gs it" by blast
  note freq = remote_frequency_ok [OF R(6), of "gs_sid gs"]
  have "gs_set_cache vb fresh access_count data_num num gs = Inr gs'"
    using gs'(1) keys(2) [OF freq] freq by (simp add: gs_set_cache_def)
  moreover have "it \<notin> set keys" using dropped keys(2) freq by auto
  ultimately show ?thesis using gs'(2,3) gs'(4) [of it] old by (auto simp: at_ptr_def vptr_mem_def fill_frame_def)
qed

theorem second_set_cache_dangles_witness:
  "\<exists>gs gs' p. cached gs (1, 0) = Some p \<and>
     gs_set_cache (sim_verbs duo_remote) (\<lambda>n. replicate n 0) [[0], [5]] [1, 1] 0 gs = Inr gs' \<and> cached gs' (1, 0) = Some p \<and>
     at_ptr (sim_verbs duo_remote) (elem_vec duo_index) 0 gs' p = Inl Out_Of_Bounds"
proof -
  let ?vb = "sim_verbs duo_remote" and ?gs = "server_store duo_remote duo_index 0 duo_devs"
  obtain gs where gs: "fill_ready ?vb duo_remote snd (\<lambda>_. 0) duo_index duo_graph [[0], [5]] [1, 1] gs" "cached gs (1, 0) \<noteq> None"
    "gs_servers gs = 2"
    using duo_filled by blast
  have "store_ok ?vb duo_remote snd (\<lambda>_. 0) duo_index duo_graph 0 gs []" using gs(1) by (simp add: fill_ready_def)
  then have "cache_ok duo_index duo_graph gs" by (simp add: store_ok_def)
  moreover obtain p where p: "cached gs (1, 0) = Some p" using gs(2) by blast
  ultimately have "\<exists>off. p = In_Cache (gs_cache_gen gs) off \<and> holds duo_index duo_graph (gs_cache_data gs) off (1, 0)"
    unfolding cache_ok_def using gs(3) by (simp add: cached_def)
  then obtain off where "p = In_Cache (gs_cache_gen gs) off" by blast
  with p have old: "cached gs (1, 0) = Some (In_Cache (gs_cache_gen gs) off)" by simp
  have "\<forall>freq. remote_frequency (gs_sid gs) (gs_servers gs) [[0], [5]] [1, 1] = Inr freq \<longrightarrow> (1, 0) \<notin> set (select_keys 0 freq)"
    by (simp add: select_keys_def)
  from second_set_cache_dangles [OF gs(1) _ old this, of "\<lambda>n. replicate n 0"] obtain gs' where
    "gs_set_cache ?vb (\<lambda>n. replicate n 0) [[0], [5]] [1, 1] 0 gs = Inr gs'" "cached gs' (1, 0) = Some (In_Cache (gs_cache_gen gs) off)"
    "\<forall>tid < length (gs_thds gs). at_ptr ?vb (elem_vec duo_index) tid gs' (In_Cache (gs_cache_gen gs) off) = Inl Out_Of_Bounds" by auto
  moreover have "0 < length (gs_thds gs)" using gs(1) by (simp add: fill_ready_def)
  ultimately show ?thesis using old by blast
qed

end
