(* ===== verification/ProfileSearch.thy ===== *)
theory ProfileSearch
  imports VertexCache
begin

text \<open>
  Counting accesses before the cache is filled: the second overload of
  \<open>Index::search_base_index_distributed\<close> in \<open>src/index.cpp\<close>, and \<open>Index::set_cache\<close>. The search reads the neighbour
  entries of a record as server and local id only, without the vertex id that precedes them in the
  records.
\<close>

section \<open>The search\<close>

definition profile_entries :: "index \<Rightarrow> byte list \<Rightarrow> nat \<Rightarrow> item list result" where
  "profile_entries ix m base =
     (let p = base + ix_neighbor_offset ix in
      rbind (load32 m p) (\<lambda>MaxM.
      rmap (\<lambda>i. let q = p + 4 + 5 * i in
        rbind (load8 m q) (\<lambda>server.
        rbind (load32 m (q + 1)) (\<lambda>local.
        Inr (server, local)))) [0..<unat MaxM]))"

definition update_access_count :: "item \<Rightarrow> u32 list list \<Rightarrow> u32 list list result" where
  "update_access_count it acc =
     rbind (rget acc (unat (fst it))) (\<lambda>row.
     rbind (rget row (unat (snd it))) (\<lambda>c.
     rbind (rput row (unat (snd it)) (c + 1)) (\<lambda>row.
     rput acc (unat (fst it)) row)))"

definition profile_score ::
    "('s, 'p) fetch_ops \<Rightarrow> (u32 list \<Rightarrow> 'd::linorder) \<Rightarrow> (item \<times> 'p) list \<Rightarrow> u32 list list \<times> (item, 'd) npq \<times> 's \<Rightarrow>
     (u32 list list \<times> (item, 'd) npq \<times> 's) result" where
  "profile_score o1 cmp =
     rfold (\<lambda>(it, p) (acc, q, s).
       rbind (update_access_count it acc) (\<lambda>acc.
       rbind (score_items o1 cmp [(it, p)] (q, s)) (\<lambda>(q, s). Inr (acc, q, s))))"

definition profile_round ::
    "('s, 'p) fetch_ops \<Rightarrow> ('s \<Rightarrow> 'p \<Rightarrow> item list result) \<Rightarrow> (u32 list \<Rightarrow> 'd::linorder) \<Rightarrow>
     rset list \<times> u32 list list \<times> (item, 'd) npq \<times> 's \<Rightarrow> (rset list \<times> u32 list list \<times> (item, 'd) npq \<times> 's) result" where
  "profile_round o1 entries cmp = (\<lambda>(v, acc, q, s).
     rbind (pq_closest_unexpanded q) (\<lambda>(q, m).
     rbind (fo_find o1 s (nb_id m)) (\<lambda>p.
     rbind (entries s p) (\<lambda>es.
     rbind (bf_collect srs_seen srs_mark es (v, [])) (\<lambda>(v, new).
     rbind (fo_send o1 new s) (\<lambda>(s, ps).
     rbind (fo_wait o1 s) (\<lambda>s.
     rbind (profile_score o1 cmp (zip new ps) (acc, q, s)) (\<lambda>(acc, q, s).
     Inr (v, acc, q, s)))))))))"

fun profile_loop ::
    "('s, 'p) fetch_ops \<Rightarrow> ('s \<Rightarrow> 'p \<Rightarrow> item list result) \<Rightarrow> (u32 list \<Rightarrow> 'd::linorder) \<Rightarrow> nat \<Rightarrow>
     rset list \<times> u32 list list \<times> (item, 'd) npq \<times> 's \<Rightarrow> (rset list \<times> u32 list list \<times> (item, 'd) npq \<times> 's) result" where
  "profile_loop o1 entries cmp 0 st = Inl Out_Of_Fuel"
| "profile_loop o1 entries cmp (Suc n) st =
     (case st of (v, acc, q, s) \<Rightarrow>
      if pq_has_unexpanded q then rbind (profile_round o1 entries cmp st) (profile_loop o1 entries cmp n) else Inr st)"

definition profile_start ::
    "('s, 'p) fetch_ops \<Rightarrow> (u32 list \<Rightarrow> 'd::linorder) \<Rightarrow> item list \<Rightarrow> 'd ds_scratch \<Rightarrow> u32 list list \<Rightarrow> 's \<Rightarrow>
     (rset list \<times> u32 list list \<times> (item, 'd) npq \<times> 's) result" where
  "profile_start o1 cmp init sc acc s =
     rbind (fo_reset o1 s) (\<lambda>s.
     rbind (bf_collect srs_seen srs_mark init (ds_inserted sc, [])) (\<lambda>(v, new).
     rbind (fo_fetch o1 new s) (\<lambda>(s, ps).
     rbind (profile_score o1 cmp (zip new ps) (acc, ds_best sc, s)) (\<lambda>(acc, q, s).
     Inr (v, acc, q, s)))))"

definition profile_search ::
    "'n verbs \<Rightarrow> index \<Rightarrow> (u32 list \<Rightarrow> u32 list \<Rightarrow> 'd::linorder) \<Rightarrow> nat \<Rightarrow> nat \<Rightarrow> 'd ds_scratch \<Rightarrow> u32 list \<Rightarrow>
     u32 list list \<Rightarrow> 'n gstore \<Rightarrow> (u32 list list \<times> 'n gstore) result" where
  "profile_search vb ix dcmp fuel tid sc query acc gs =
     (let o1 = store_ops vb ix tid; cmp = (\<lambda>base. dcmp base query) in
      rbind (profile_start o1 cmp [ix_membkt_EP ix] (ds_clear sc) acc gs) (\<lambda>st.
      rbind (profile_loop o1 (at_ptr vb (profile_entries ix) tid) cmp fuel st) (\<lambda>(v, acc, q, s).
      Inr (acc, s))))"

text \<open>
  The queries are profiled in some order by some threads (\<open>sched\<close> gives the thread of an iteration), then
  the cache is filled. The threads have contexts of their own and count atomically; the model runs one
  query after the other.
\<close>

definition index_set_cache ::
    "'n verbs \<Rightarrow> (nat \<Rightarrow> byte list) \<Rightarrow> index \<Rightarrow> (u32 list \<Rightarrow> u32 list \<Rightarrow> 'd::linorder) \<Rightarrow> nat \<Rightarrow> (nat \<Rightarrow> nat) \<Rightarrow> 'd ds_scratch list \<Rightarrow>
     nat \<Rightarrow> u32 list \<Rightarrow> u32 list \<Rightarrow> nat \<Rightarrow> 'n gstore \<Rightarrow> 'n gstore result" where
  "index_set_cache vb fresh ix dcmp fuel sched scs num_servers query_data query_bucket num_nodes_to_cache gs =
     rbind (rmap (\<lambda>ssid. rbind (rget (ix_data_num ix) ssid) (\<lambda>n. Inr (replicate n 0))) [0..<num_servers]) (\<lambda>acc.
     rbind (rfold (\<lambda>tmp (acc, gs).
        rbind (rget query_bucket tmp) (\<lambda>i.
        rbind (rget scs (sched tmp)) (\<lambda>sc.
        rbind (rslice query_data (unat i * ix_dimension ix) (ix_dimension ix)) (\<lambda>query.
        profile_search vb ix dcmp fuel (sched tmp) sc query acc gs))))
       [0..<length query_bucket] (acc, gs)) (\<lambda>(acc, gs).
     gs_set_cache vb fresh acc (ix_data_num ix) num_nodes_to_cache gs))"

section \<open>What the entries are read as\<close>

lemma profile_entries_head:
  assumes h: "holds ix g m base it" and off: "bkt_offsets ix" and ok: "bkt_node_ok ix g it" and edges: "ag_edges g it = e # es"
  shows "\<exists>l more. profile_entries ix m base = Inr ((ucast (ag_label g e), l) # more)"
proof -
  let ?d = "ix_dimension ix" and ?n = "length (ag_edges g it)"
  let ?A = "bytes32s (ag_vec g it)" and ?B = "le_bytes 4 (ag_label g it)"
  let ?C = "le_bytes 4 (of_nat ?n :: u32)" and ?E = "concat (map (bkt_entry g) es)"
  let ?e = "le_bytes 3 (drop_bit 8 (ag_label g e)) @ le_bytes 1 (fst e) @ le_bytes 4 (snd e)"
  have "le_bytes 4 w = ucast w # le_bytes 3 (drop_bit 8 w)" for w :: u32
    by (simp add: le_bytes_def upt_rec numeral_eq_Suc)
  then have rec: "bkt_record g it = ?A @ ?B @ ?C @ [ucast (ag_label g e)] @ ?e @ ?E"
    by (simp add: bkt_record_def edges bkt_entry_def)
  have A: "length ?A = 4 * ?d" using ok by (simp add: bkt_node_ok_def)
  have top: "base + (4 * ?d + 8 + 9 * ?n) \<le> length m" using h ok by (simp add: holds_def bkt_node_ok_def length_bkt_record)
  have n: "?n < 2 ^ 32" "0 < ?n" using ok edges by (simp_all add: bkt_node_ok_def)
  have "slice m (base + (4 * ?d + 4)) 4 = ?C" using holds_slice [OF h, of "?A @ ?B" ?C] rec A by simp
  then have count: "load32 m (base + (4 * ?d + 4)) = Inr (of_nat ?n)" using load32_slice [of m "base + (4 * ?d + 4)"] top by simp
  have "slice m (base + (4 * ?d + 8)) 1 = [ucast (ag_label g e)]"
    using holds_slice [OF h, of "?A @ ?B @ ?C" "[ucast (ag_label g e)]"] rec A by simp
  then have first: "load8 m (base + (4 * ?d + 8)) = Inr (ucast (ag_label g e))"
    using load_slice [of m "base + (4 * ?d + 8)" 1] top n(2) by (simp add: load8_def)
  let ?f = "\<lambda>i. let q = base + (4 * ?d + 4) + 4 + 5 * i in
        rbind (load8 m q) (\<lambda>server. rbind (load32 m (q + 1)) (\<lambda>local. Inr (server, local)))"
  have "\<exists>y. ?f i = Inr y" if "i < ?n" for i
  proof -
    have "base + (4 * ?d + 4) + 4 + 5 * i + 5 \<le> length m" using top that by simp
    then show ?thesis by (simp add: load8_def load32_def load_def Let_def)
  qed
  then obtain ys where ys: "rmap ?f [0..<?n] = Inr ys" using rmap_total [of "[0..<?n]" ?f] by auto
  then have "length ys = ?n" "?f 0 = Inr (ys ! 0)" using n(2) unfolding rmap_eq_Inr by auto
  then obtain l where "(ucast (ag_label g e), l) = ys ! 0" "0 < length ys"
    using first n(2) by (auto simp: Let_def rbind_eq_Inr add.assoc)
  then have "ys = (ucast (ag_label g e), l) # tl ys" by (cases ys) auto
  moreover have "profile_entries ix m base = rmap ?f [0..<?n]"
    using count off n(1) by (simp add: profile_entries_def bkt_offsets_def unat_of_nat32 Let_def)
  ultimately show ?thesis using ys by metis
qed

lemma profile_entries_at:
  assumes "store_ok vb remote out delay ix g tid gs q" and "ptr_valid vb out ix g gs (gs_thds gs ! tid) it p"
    and "ag_edges g it = e # es"
  shows "\<exists>l more. at_ptr vb (profile_entries ix) tid gs p = Inr ((ucast (ag_label g e), l) # more)"
proof -
  have ok: "bkt_offsets ix" "bkt_node_ok ix g it" "tid < length (gs_thds gs)"
    using assms(1,2) by (auto simp: store_ok_def cluster_ok_def ptr_valid_def)
  obtain m off where "vptr_mem vb gs (gs_thds gs ! tid) p = Inr (m, off)" "holds ix g m off it"
    using assms(2) by (cases p) (auto simp: ptr_valid_def vptr_mem_def)
  with profile_entries_head [OF this(2) ok(1,2) assms(3)] ok(3) show ?thesis by (auto simp: at_ptr_def)
qed

section \<open>Properties\<close>

lemma profile_score_one:
  assumes "update_access_count it acc = Inr acc'" and "score_items o1 cmp [(it, p)] (q, s) = Inr (q', s')"
  shows "profile_score o1 cmp [(it, p)] (acc, q, s) = Inr (acc', q', s')"
  using assms by (simp add: profile_score_def)

text \<open>
  C28: the profiling search takes the lowest byte of a neighbour's id for its server: when the entry
  vertex has a first neighbour for which that byte is not the number of a server, the search reads outside the
  visited sets.
\<close>

theorem profile_search_faults:
  fixes dcmp :: "u32 list \<Rightarrow> u32 list \<Rightarrow> 'd::linorder"
  assumes ok: "store_ok vb remote out delay ix g tid gs []" and ep: "ix_membkt_EP ix \<in> ag_nodes g"
    and edges: "ag_edges g (ix_membkt_EP ix) = e # es"
    and bad: "length (ds_inserted sc) \<le> unat (ucast (ag_label g e) :: byte)"
    and sc: "ds_wf sc" "ag_nodes g \<subseteq> srs_dom (ds_inserted sc)"
    and buf: "ix_element_size ix < length (gs_buf vb tid gs)"
    and acc: "update_access_count (ix_membkt_EP ix) acc = Inr acc'"
  shows "profile_search vb ix dcmp (Suc fuel) tid sc query acc gs = Inl Out_Of_Bounds"
proof -
  let ?sc = "ds_clear sc" and ?L = "unat (ds_L sc)" and ?cmp = "\<lambda>base. dcmp base query" and ?o = "store_ops vb ix tid"
  let ?ep = "ix_membkt_EP ix" and ?D = "\<lambda>v. dcmp (ag_vec g v) query" and ?valid = "gs_valid vb out ix g tid"
  have sc': "pq_wf (ds_best ?sc)" "pq_cap (ds_best ?sc) = ?L" "pq_keys (ds_best ?sc) = []" "0 < ?L"
    using ds_clear_wf [OF sc(1)] sc(1) unat_gt_0_word by (auto simp: ds_wf_def)
  have marks: "srs_abs (ds_inserted ?sc) = {}" "srs_dom (ds_inserted ?sc) = srs_dom (ds_inserted sc)"
    "length (ds_inserted ?sc) = length (ds_inserted sc)"
    by (auto simp: srs_abs_def srs_dom_def ds_clear_def)
  have big: "gs_big vb (ix_element_size ix) tid gs 1" using buf by (simp add: gs_big_def)
  obtain s1 where s1: "fo_reset ?o gs = Inr s1" "store_ok vb remote out delay ix g tid s1 []" "gs_room vb (ix_element_size ix) tid s1 1"
    using gsf.reset [OF ok] big by blast
  have "set [?ep] \<subseteq> ag_nodes g" "ag_nodes g \<subseteq> srs_dom (ds_inserted ?sc)" using ep sc(2) marks(2) by auto
  from gsf.collect_new [OF this marks(1)] obtain v new where new: "bf_collect srs_seen srs_mark [?ep] (ds_inserted ?sc, []) = Inr (v, new)"
    "srs_dom v = srs_dom (ds_inserted ?sc)" "set new = {?ep}" "distinct new" by auto
  have newep: "new = [?ep]"
  proof -
    have "length new = 1" using distinct_card [OF new(4)] new(3) by simp
    then obtain x where "new = [x]" by (cases new) simp_all
    with new(3) show ?thesis by (simp del: split_paired_All split_paired_Ex)
  qed
  obtain s2 ps where s2: "fo_fetch ?o [?ep] s1 = Inr (s2, ps)" "length ps = 1" "store_ok vb remote out delay ix g tid s2 []"
    "\<forall>(it, p) \<in> set (zip [?ep] ps). ?valid s2 it p"
    using gsf.fetch [OF s1(2), of "[?ep]" 0] ep s1(3) by (auto simp: RC_MAX_SEND_SIZE_def)
  obtain p where p: "ps = [p]" using s2(2) by (cases ps) simp_all
  have "pq_keys (ds_best ?sc) = pool ?L ?D {}" using sc'(3) by (simp add: pool_def least_keys_def)
  moreover have "\<forall>(it, p) \<in> set [(?ep, p)]. ?valid s2 it p" using s2(4) p by simp
  moreover have "\<forall>k \<in> set (pq_keys (ds_best ?sc)). fo_found ?o s2 (snd k)" using sc'(3) by simp
  ultimately have scored: "\<exists>q s3. score_items ?o ?cmp [(?ep, p)] (ds_best ?sc, s2) = Inr (q, s3) \<and> pq_wf q \<and> pq_cap q = ?L \<and>
    pq_keys q = pool ?L ?D ({} \<union> fst ` set [(?ep, p)]) \<and> pq_done q = pq_done (ds_best ?sc) \<inter> set (pq_keys q) \<and>
    store_ok vb remote out delay ix g tid s3 [] \<and> fo_kept ?o ?valid s2 s3 \<and>
    (\<forall>k. gs_room vb (ix_element_size ix) tid s2 k \<longrightarrow> gs_room vb (ix_element_size ix) tid s3 k) \<and>
    (\<forall>k \<in> set (pq_keys q). fo_found ?o s3 (snd k))"
    by (rule gsf.score [OF s2(3) sc'(1,2) finite.emptyI])
  have one: "{} \<union> fst ` set [(?ep, p)] = {?ep}" by simp
  from scored [unfolded one] obtain q s3 where q:
    "score_items ?o ?cmp [(?ep, p)] (ds_best ?sc, s2) = Inr (q, s3)" "pq_wf q" "pq_cap q = ?L" "pq_keys q = pool ?L ?D {?ep}"
    "pq_done q = pq_done (ds_best ?sc) \<inter> set (pq_keys q)" "store_ok vb remote out delay ix g tid s3 []"
    "\<forall>k \<in> set (pq_keys q). fo_found ?o s3 (snd k)" by blast
  have start: "profile_start ?o ?cmp [?ep] ?sc acc gs = Inr (v, acc', q, s3)"
    using s1(1) new(1) newep s2(1) p profile_score_one [OF acc q(1)] by (simp add: profile_start_def)
  have pool: "pool ?L ?D {?ep} = [vkey ?D ?ep]" using sc'(4) by (simp add: pool_def least_keys_def)
  have "pq_done (ds_best ?sc) = {}" using pq_done_subset [of "ds_best ?sc"] sc'(3) by simp
  then have "pq_done q = {} \<inter> set (pq_keys q)" using q(5) by simp
  from gsf.closest_first [OF q(2,4) this] pool obtain q1 m where m: "pq_has_unexpanded q" "pq_closest_unexpanded q = Inr (q1, m)" "nb_id m = ?ep"
    by (auto simp: vkey_def)
  obtain p' where p': "fo_find ?o s3 ?ep = Inr p'" using q(7) q(4) pool by (auto simp: fo_found_def vkey_def)
  have "?valid s3 ?ep p'" by (rule gsf.find [OF q(6) ep p'])
  from profile_entries_at [OF q(6) this edges] obtain l more where
    es: "at_ptr vb (profile_entries ix) tid s3 p' = Inr ((ucast (ag_label g e), l) # more)" by blast
  have "length v \<le> unat (ucast (ag_label g e) :: byte)"
  proof -
    have "(ucast (ag_label g e) :: byte, l) \<notin> srs_dom v" using bad new(2) marks(3) by (simp add: srs_dom_def)
    then show ?thesis by (simp add: srs_dom_def)
  qed
  then have "bf_collect srs_seen srs_mark ((ucast (ag_label g e), l) # more) (v, []) = Inl Out_Of_Bounds"
    by (simp add: bf_collect_def srs_seen_def)
  with m p' es have "profile_round ?o (at_ptr vb (profile_entries ix) tid) ?cmp (v, acc', q, s3) = Inl Out_Of_Bounds"
    by (simp add: profile_round_def)
  with m(1) start show ?thesis by (simp add: profile_search_def Let_def)
qed

theorem profile_search_faults_witness:
  "\<exists>sc :: nat ds_scratch. profile_search (sim_verbs duo_remote) duo_index tiny_dist 3 0 sc [0] [[0], [0]]
     (server_store duo_remote duo_index 0 duo_devs) = Inl Out_Of_Bounds"
proof -
  obtain sc :: "nat ds_scratch" where sc: "ds_new 2 1 2 = Inr sc" using duo_scratch by blast
  note sc' = ds_new_wf [OF sc]
  have ep: "ix_membkt_EP duo_index = (0, 0)" by (simp add: duo_index_def)
  have "ag_edges duo_graph (ix_membkt_EP duo_index) = [(1, 0)]" "ix_membkt_EP duo_index \<in> ag_nodes duo_graph"
    "length (ds_inserted sc) \<le> unat (ucast (ag_label duo_graph (1, 0)) :: byte)"
    using sc'(4) by (simp_all add: ep duo_graph_def)
  moreover have "ag_nodes duo_graph \<subseteq> srs_dom (ds_inserted sc)" using sc'(4) by (auto simp: srs_dom_def duo_graph_def)
  moreover have "update_access_count (ix_membkt_EP duo_index) [[0], [0]] = Inr [[1], [0]]" by (simp add: update_access_count_def ep)
  moreover have "ix_element_size duo_index < length (gs_buf (sim_verbs duo_remote) 0 (server_store duo_remote duo_index 0 duo_devs))"
    using duo_fill_ready by (simp add: fill_ready_def)
  ultimately have "profile_search (sim_verbs duo_remote) duo_index tiny_dist (Suc 2) 0 sc [0] [[0], [0]]
      (server_store duo_remote duo_index 0 duo_devs) = Inl Out_Of_Bounds"
    using profile_search_faults [OF duo_ready(1) _ _ _ sc'(1), of "(1, 0)" "[]" "[[0], [0]]" "[[1], [0]]" tiny_dist 2 "[0]"] by blast
  then show ?thesis by (simp add: numeral_3_eq_3) blast
qed

end
