(* ===== verification/FileFormats.thy ===== *)
theory FileFormats
  imports IndexState
begin

text \<open>
  The binary files of \<open>include/common.h\<close>: vectors and ground truth in \<open>.bin\<close> and \<open>.vecs\<close> form, the two graph formats,
  raw files. A file is its list of bytes, read at a position. \<open>fread\<close> past the end leaves the
  destination as it was, which the code does not check; the model stops there with \<open>Out_Of_Bounds\<close>,
  because the value used next would be indeterminate. Elements are 4 bytes (\<open>float\<close>, \<open>unsigned\<close>).
\<close>

type_synonym fbytes = "byte list"
type_synonym files = "string \<Rightarrow> fbytes option"

definition open_read :: "string \<Rightarrow> files \<Rightarrow> string \<Rightarrow> fbytes result" where
  "open_read err fs path = (case fs path of None \<Rightarrow> Inl (Runtime_Error err) | Some f \<Rightarrow> Inr f)"

text \<open>\<open>fsize\<close>: the position of the end.\<close>

definition fsize :: "fbytes \<Rightarrow> nat" where
  "fsize f = length f"

section \<open>Vectors\<close>

definition read_data_bin :: "files \<Rightarrow> string \<Rightarrow> (u32 \<times> u32 \<times> u32 list) result" where
  "read_data_bin fs path =
     rbind (open_read ''error@read_data_bin: Dataset not found'' fs path) (\<lambda>f.
     rbind (load32 f 0) (\<lambda>N.
     rbind (load32 f 4) (\<lambda>Dim.
     rbind (load32s f 8 (unat N * unat Dim)) (\<lambda>data. Inr (N, Dim, data)))))"

definition write_data_bin :: "u32 list \<Rightarrow> u32 \<Rightarrow> u32 \<Rightarrow> fbytes result" where
  "write_data_bin data N Dim =
     rbind (rmap (\<lambda>i. if i * unat Dim + unat Dim \<le> length data then Inr (slice data (i * unat Dim) (unat Dim))
                      else Inl Out_Of_Bounds) [0..<unat N]) (\<lambda>rows.
     Inr (le_bytes 4 N @ le_bytes 4 Dim @ concat (map bytes32s rows)))"

text \<open>
  Every row of a \<open>.vecs\<close> file repeats the dimension, and the reader takes the one it read last. \<open>fresh n\<close>
  is the content of \<open>new T[n]\<close>.
\<close>

definition read_data_vecs :: "(nat \<Rightarrow> u32 list) \<Rightarrow> files \<Rightarrow> string \<Rightarrow> (u32 \<times> u32 \<times> u32 list) result" where
  "read_data_vecs fresh fs path =
     rbind (open_read ''error@read_data_vecs: Dataset not found'' fs path) (\<lambda>f.
     rbind (load32 f 0) (\<lambda>Dim.
     let N = of_nat (fsize f div (4 + 4 * unat Dim)) :: u32 in
     rbind (rfold (\<lambda>i (pos, Dim, data).
        rbind (load32 f pos) (\<lambda>Dim.
        rbind (load32s f (pos + 4) (unat Dim)) (\<lambda>row.
        if i * unat Dim + unat Dim \<le> length data
        then Inr (pos + 4 + 4 * unat Dim, Dim,
               take (i * unat Dim) data @ row @ drop (i * unat Dim + unat Dim) data)
        else Inl Out_Of_Bounds)))
        [0..<unat N] (0, Dim, fresh (unat N * unat Dim))) (\<lambda>(pos, Dim, data).
     Inr (N, Dim, data))))"

definition write_data_vecs :: "u32 list \<Rightarrow> u32 \<Rightarrow> u32 \<Rightarrow> fbytes result" where
  "write_data_vecs data N Dim =
     rbind (rmap (\<lambda>i. if i * unat Dim + unat Dim \<le> length data then Inr (slice data (i * unat Dim) (unat Dim))
                      else Inl Out_Of_Bounds) [0..<unat N]) (\<lambda>rows.
     Inr (concat (map (\<lambda>r. le_bytes 4 Dim @ bytes32s r) rows)))"

definition read_data :: "(nat \<Rightarrow> u32 list) \<Rightarrow> files \<Rightarrow> string \<Rightarrow> string \<Rightarrow> (u32 \<times> u32 \<times> u32 list) result" where
  "read_data fresh fs path format =
     (if format = ''bin'' then read_data_bin fs path
      else if format = ''vecs'' then read_data_vecs fresh fs path
      else Inl (Runtime_Error ''error@read_data: unsurported file format.''))"

definition write_data :: "string \<Rightarrow> u32 list \<Rightarrow> u32 \<Rightarrow> u32 \<Rightarrow> fbytes result" where
  "write_data format data N Dim =
     (if format = ''bin'' then write_data_bin data N Dim
      else if format = ''vecs'' then write_data_vecs data N Dim
      else Inl (Runtime_Error ''error@read_data: unsurported file format.''))"

section \<open>Ground truth\<close>

definition read_gt_ibin :: "files \<Rightarrow> string \<Rightarrow> (u32 \<times> u32 \<times> u32 list list) result" where
  "read_gt_ibin fs path =
     rbind (open_read ''error@read_gt_ibin: Dataset not found'' fs path) (\<lambda>f.
     rbind (load32 f 0) (\<lambda>N.
     rbind (load32 f 4) (\<lambda>Dim.
     rbind (rmap (\<lambda>i. load32s f (8 + i * (4 * unat Dim)) (unat Dim)) [0..<unat N]) (\<lambda>gt.
     Inr (N, Dim, gt)))))"

definition read_gt_ivecs :: "files \<Rightarrow> string \<Rightarrow> (u32 \<times> u32 \<times> u32 list list) result" where
  "read_gt_ivecs fs path =
     rbind (open_read ''error@read_gt_ivecs: Dataset not found'' fs path) (\<lambda>f.
     rbind (load32 f 0) (\<lambda>Dim.
     let N = of_nat (fsize f div (4 + 4 * unat Dim)) :: u32 in
     rbind (rfold (\<lambda>i (pos, Dim, gt).
        rbind (load32 f pos) (\<lambda>Dim.
        rbind (load32s f (pos + 4) (unat Dim)) (\<lambda>row.
        Inr (pos + 4 + 4 * unat Dim, Dim, gt @ [row]))))
        [0..<unat N] (0, Dim, [])) (\<lambda>(pos, Dim, gt).
     Inr (N, Dim, gt))))"

definition write_gt_ivecs :: "u32 list list \<Rightarrow> fbytes" where
  "write_gt_ivecs GT = concat (map (\<lambda>row. le_bytes 4 (of_nat (length row) :: u32) @ bytes32s row) GT)"

definition read_gt :: "files \<Rightarrow> string \<Rightarrow> string \<Rightarrow> (u32 \<times> u32 \<times> u32 list list) result" where
  "read_gt fs path format =
     (if format = ''bin'' then read_gt_ibin fs path
      else if format = ''vecs'' then read_gt_ivecs fs path
      else Inl (Runtime_Error ''error@read_gt: unsurported file format.''))"

section \<open>Raw files\<close>

definition read_file :: "files \<Rightarrow> string \<Rightarrow> fbytes result" where
  "read_file fs path = open_read ''error:@read_file: open file failed.'' fs path"

text \<open>The second overload fills a buffer of the caller from its start, if the file fits.\<close>

definition read_file_into :: "files \<Rightarrow> string \<Rightarrow> byte list \<Rightarrow> nat \<Rightarrow> (nat \<times> byte list) result" where
  "read_file_into fs path buf max_size =
     rbind (open_read ''error:@read_file: open file failed.'' fs path) (\<lambda>f.
     if max_size < length f
     then Inl (Runtime_Error ''error:@read_file: read file failed. size > max_size.'')
     else rbind (store buf 0 f) (\<lambda>buf. Inr (length f, buf)))"

definition save_file :: "files \<Rightarrow> string \<Rightarrow> byte list \<Rightarrow> nat \<Rightarrow> files result" where
  "save_file fs path data sz =
     (if sz \<le> length data then Inr (fs(path \<mapsto> take sz data)) else Inl Out_Of_Bounds)"

section \<open>Graphs\<close>

text \<open>
  \<open>check_degree\<close> sets the maximum degree to the observed one; the average divides by the number of
  vertices.
\<close>

definition check_degree :: "u32 list list \<Rightarrow> u32 \<Rightarrow> u32 result" where
  "check_degree graph R =
     (if graph = [] then Inl (Runtime_Error ''division by zero'')
      else let mx = fold max (map length graph) 0 in
        Inr (if unat R \<noteq> mx then of_nat mx else R))"

text \<open>
  \<open>load_nsg\<close> reads until the end of file; the neighbours are sorted and made unique. The vector of
  a list is zero-initialised, so a list cut short at the end of the file keeps zeros in its tail; the
  end-of-file state then ends the loop. The two header fields must be there.
\<close>

definition read_words_padded :: "fbytes \<Rightarrow> nat \<Rightarrow> nat \<Rightarrow> u32 list" where
  "read_words_padded f pos k =
     map (\<lambda>i. le_word (take 4 (drop (4 * i) (drop pos f)))) [0..<k]"

function nsg_loop :: "fbytes \<Rightarrow> nat \<Rightarrow> u32 list list \<Rightarrow> u32 list list" where
  "nsg_loop f pos graph =
     (if pos + 4 \<le> length f then
        let k = unat (le_word (slice f pos 4) :: u32) in
        nsg_loop f (pos + 4 + 4 * k) (graph @ [remdups_adj (sort (read_words_padded f (pos + 4) k))])
      else graph)"
  by pat_completeness auto
termination by (relation "measure (\<lambda>(f, pos, graph). length f - pos)") (auto simp: Let_def)

declare nsg_loop.simps [simp del]

definition load_nsg :: "files \<Rightarrow> string \<Rightarrow> u32 list list \<Rightarrow> (u32 list list \<times> u32 \<times> u32) result" where
  "load_nsg fs path graph =
     rbind (open_read ''error@load_nsg: graph_file open failed.'' fs path) (\<lambda>f.
     rbind (load32 f 0) (\<lambda>R.
     rbind (load32 f 4) (\<lambda>start.
     Inr (nsg_loop f 8 graph, R, start))))"

text \<open>
  \<open>load_vamana\<close> has stream exceptions on: a short read throws. It stops when exactly the size stated in
  the header has been read, and writes the lists to consecutive places of a graph of the expected size.
\<close>

definition read_throw :: "fbytes \<Rightarrow> nat \<Rightarrow> nat \<Rightarrow> byte list result" where
  "read_throw f pos n = (if pos + n \<le> length f then Inr (slice f pos n) else Inl (Runtime_Error ''basic_ios::clear''))"

function vamana_loop :: "fbytes \<Rightarrow> nat \<Rightarrow> nat \<Rightarrow> nat \<Rightarrow> u32 list list \<Rightarrow> u32 list list result" where
  "vamana_loop f expected pos nodes_read graph =
     (if pos = expected then Inr graph
      else if length f < pos + 4 then Inl (Runtime_Error ''basic_ios::clear'')
      else let k = le_word (slice f pos 4) :: u32 in
        rbind (read_throw f (pos + 4) (4 * unat k)) (\<lambda>bs.
        rbind (load32s bs 0 (unat k)) (\<lambda>tmp.
        rbind (rput graph nodes_read tmp) (\<lambda>graph.
        vamana_loop f expected (pos + 4 * (unat k + 1)) (nodes_read + 1) graph))))"
  by pat_completeness auto
termination by (relation "measure (\<lambda>(f, expected, pos, nodes_read, graph). length f - pos)") auto

declare vamana_loop.simps [simp del]

definition load_vamana :: "files \<Rightarrow> string \<Rightarrow> nat \<Rightarrow> u32 list list \<Rightarrow> (u32 list list \<times> u32 \<times> u32) result" where
  "load_vamana fs path expected_num_points graph =
     rbind (open_read ''basic_ios::clear'' fs path) (\<lambda>f.
     rbind (read_throw f 0 8) (\<lambda>b1. rbind (read_throw f 8 4) (\<lambda>b2.
     rbind (read_throw f 12 4) (\<lambda>b3. rbind (read_throw f 16 8) (\<lambda>b4.
     rbind (vamana_loop f (unat (le_word b1 :: u64)) 24 0
              (take expected_num_points graph @ replicate (expected_num_points - length graph) [])) (\<lambda>graph.
     Inr (graph, le_word b2, le_word b3)))))))"

section \<open>Reading back what was written\<close>

lemma load32_at: "f = xs @ le_bytes 4 w @ ys \<Longrightarrow> pos = length xs \<Longrightarrow> load32 f pos = Inr w"
  by (rule load32_slice) (simp_all add: slice_def)

lemma load32s_at:
  "f = xs @ bytes32s ws @ ys \<Longrightarrow> pos = length xs \<Longrightarrow> k = length ws \<Longrightarrow> load32s f pos k = Inr ws"
  by (simp only:) (rule load32s_slice, simp_all add: slice_def)

lemma bytes32s_concat: "concat (map bytes32s rows) = bytes32s (concat rows)"
  by (induction rows) (simp_all add: bytes32s_def)

lemma take_add_slice: "take (i + d) xs = take i xs @ slice xs i d"
  by (simp add: slice_def take_add)

lemma concat_rows: "concat (map (\<lambda>i. slice xs (i * d) d) [0..<n]) = take (n * d) xs"
proof (induction n)
  case (Suc n)
  then show ?case using take_add_slice [of "n * d" d xs] by (simp add: add.commute)
qed simp

lemma rows_ok:
  assumes "length data = n * d"
  shows "rmap (\<lambda>i. if i * d + d \<le> length data then Inr (slice data (i * d) d) else Inl Out_Of_Bounds) [0..<n]
    = Inr (map (\<lambda>i. slice data (i * d) d) [0..<n])"
  using assms row_bound by (intro rmap_pure) simp

lemma bin_roundtrip:
  assumes "length data = unat N * unat Dim"
  shows "\<exists>b. write_data_bin data N Dim = Inr b \<and> read_data_bin (fs(path \<mapsto> b)) path = Inr (N, Dim, data)"
proof -
  define b where "b = le_bytes 4 N @ le_bytes 4 Dim @ bytes32s data"
  have "write_data_bin data N Dim = Inr b"
    by (simp only: write_data_bin_def rows_ok [OF assms] rbind_Inr bytes32s_concat concat_rows b_def)
      (simp add: assms [symmetric])
  moreover have "load32 b 0 = Inr N" by (rule load32_at [of b "[]"]) (simp_all add: b_def)
  moreover have "load32 b 4 = Inr Dim" by (rule load32_at [of b "le_bytes 4 N"]) (simp_all add: b_def)
  moreover have "load32s b 8 (unat N * unat Dim) = Inr data"
    by (rule load32s_at [of b "le_bytes 4 N @ le_bytes 4 Dim" data "[]"]) (simp_all add: b_def assms)
  ultimately show ?thesis by (simp add: read_data_bin_def open_read_def)
qed

text \<open>The rows of a \<open>.vecs\<close> file, each with its length.\<close>

definition vec_rows :: "u32 \<Rightarrow> u32 list list \<Rightarrow> byte list" where
  "vec_rows Dim rows = concat (map (\<lambda>r. le_bytes 4 Dim @ bytes32s r) rows)"

lemma length_vec_rows: "(\<forall>r \<in> set rows. length r = d) \<Longrightarrow> length (vec_rows Dim rows) = length rows * (4 + 4 * d)"
  by (induction rows) (simp_all add: vec_rows_def)

text \<open>The reads of row \<open>i\<close>.\<close>

lemma vec_row_reads:
  assumes len: "\<forall>r \<in> set rows. length r = d" and "i < length rows"
  shows "load32 (vec_rows Dim rows) (i * (4 + 4 * d)) = Inr Dim"
    "load32s (vec_rows Dim rows) (i * (4 + 4 * d) + 4) d = Inr (rows ! i)"
proof -
  let ?pre = "vec_rows Dim (take i rows)" and ?post = "vec_rows Dim (drop (Suc i) rows)"
  have "vec_rows Dim rows = vec_rows Dim (take i rows @ rows ! i # drop (Suc i) rows)"
    using assms(2) by (simp only: id_take_nth_drop [symmetric])
  then have split: "vec_rows Dim rows = ?pre @ le_bytes 4 Dim @ bytes32s (rows ! i) @ ?post"
    by (simp only: vec_rows_def map_append list.map concat_append concat.simps append_assoc)
  have pre: "length ?pre = i * (4 + 4 * d)"
    using length_vec_rows [of "take i rows" d Dim] assms by (auto dest: in_set_takeD)
  show "load32 (vec_rows Dim rows) (i * (4 + 4 * d)) = Inr Dim"
    by (rule load32_at [OF split]) (simp add: pre)
  show "load32s (vec_rows Dim rows) (i * (4 + 4 * d) + 4) d = Inr (rows ! i)"
    using assms pre
    by (intro load32s_at [of _ "?pre @ le_bytes 4 Dim" "rows ! i" ?post]) (simp_all add: split)
qed

text \<open>The counts computed from the size of such a file.\<close>

lemma vec_rows_count:
  fixes n :: nat
  assumes "n < 2 ^ 32"
  shows "unat (of_nat (n * (4 + 4 * d) div (4 + 4 * d)) :: u32) = n"
  using assms by (simp add: unat_of_nat32)

lemma vecs_roundtrip:
  assumes len: "length data = unat N * unat Dim" and pos: "0 < unat N" and new: "\<And>n. length (fresh n) = n"
  shows "\<exists>b. write_data_vecs data N Dim = Inr b \<and> read_data_vecs fresh (fs(path \<mapsto> b)) path = Inr (N, Dim, data)"
proof -
  let ?d = "unat Dim" and ?n = "unat N"
  define rows where "rows = map (\<lambda>i. slice data (i * ?d) ?d) [0..<?n]"
  have rl: "\<forall>r \<in> set rows. length r = ?d" "length rows = ?n"
    using len row_bound by (auto simp: rows_def)
  define b where "b = vec_rows Dim rows"
  note reads = vec_row_reads [OF rl(1), of _ Dim, folded b_def]
  have "write_data_vecs data N Dim = Inr b"
    by (simp only: write_data_vecs_def rows_ok [OF len] rbind_Inr b_def vec_rows_def rows_def)
  moreover have first: "load32 b 0 = Inr Dim" using reads(1) [of 0] pos rl by simp
  moreover have count: "of_nat (fsize b div (4 + 4 * ?d)) = N"
    using length_vec_rows [OF rl(1), of Dim] rl(2) unat32_bound [of N]
    by (simp add: fsize_def b_def)
  moreover define st where "st i = (i * (4 + 4 * ?d), Dim, take (i * ?d) data @ drop (i * ?d) (fresh (?n * ?d)))" for i
  have "\<exists>s'. rfold (\<lambda>i (pos, Dim, data).
        rbind (load32 b pos) (\<lambda>Dim.
        rbind (load32s b (pos + 4) (unat Dim)) (\<lambda>row.
        if i * unat Dim + unat Dim \<le> length data
        then Inr (pos + 4 + 4 * unat Dim, Dim,
               take (i * unat Dim) data @ row @ drop (i * unat Dim + unat Dim) data)
        else Inl Out_Of_Bounds))) [0..<?n] (0, Dim, fresh (?n * ?d)) = Inr s' \<and> s' = st (length [0..<?n])"
  proof (rule rfold_invariant)
    fix ys i zs s
    assume split: "[0..<?n] = ys @ i # zs" and s: "s = st (length ys)"
    from upt_split [OF split] have i: "length ys = i" "i < ?n" by auto
    have "i * ?d + ?d \<le> ?n * ?d" using row_bound [OF i(2)] .
    moreover have "rows ! i = slice data (i * ?d) ?d" using i by (simp add: rows_def)
    moreover have "take (i * ?d + ?d) data = take (i * ?d) data @ slice data (i * ?d) ?d"
      by (rule take_add_slice)
    ultimately show "\<exists>s'. (\<lambda>i (pos, Dim, data).
        rbind (load32 b pos) (\<lambda>Dim.
        rbind (load32s b (pos + 4) (unat Dim)) (\<lambda>row.
        if i * unat Dim + unat Dim \<le> length data
        then Inr (pos + 4 + 4 * unat Dim, Dim,
               take (i * unat Dim) data @ row @ drop (i * unat Dim + unat Dim) data)
        else Inl Out_Of_Bounds))) i s = Inr s' \<and> s' = st (length (ys @ [i]))"
      using reads [of i] i rl(2) len new s by (auto simp: st_def add.commute)
  qed (use new in \<open>simp add: st_def\<close>)
  ultimately show ?thesis
    using len new by (simp add: read_data_vecs_def open_read_def Let_def st_def)
qed

text \<open>
  C25: A float array written in either format is read back unchanged, with its shape. \<open>fresh\<close> stands for
  the content of newly allocated storage, of the size asked for; a \<open>.vecs\<close> file must have a row,
  because its reader takes the dimension from the first one.
\<close>

theorem data_roundtrip:
  assumes "format = ''bin'' \<or> format = ''vecs'' \<and> 0 < unat N" and "length data = unat N * unat Dim"
    and "\<And>n. length (fresh n) = n"
  shows "\<exists>b. write_data format data N Dim = Inr b \<and>
    read_data fresh (fs(path \<mapsto> b)) path format = Inr (N, Dim, data)"
  using assms(1)
proof
  assume "format = ''bin''"
  then show ?thesis using bin_roundtrip [OF assms(2)] by (simp add: read_data_def write_data_def)
next
  assume "format = ''vecs'' \<and> 0 < unat N"
  then show ?thesis using vecs_roundtrip [OF assms(2) _ assms(3)] by (simp add: read_data_def write_data_def)
qed

theorem data_roundtrip_witness:
  "\<exists>b. write_data ''vecs'' [1, 2, 3, 4, 5, 6] 2 3 = Inr b \<and>
    read_data (\<lambda>n. replicate n 7) (Map.empty(''f'' \<mapsto> b)) ''f'' ''vecs'' = Inr (2, 3, [1, 2, 3, 4, 5, 6])"
  by (rule data_roundtrip) simp_all

section \<open>Reading back ground truth\<close>

lemma gt_ivecs_rows: "\<forall>r \<in> set GT. length r = unat K \<Longrightarrow> write_gt_ivecs GT = vec_rows K GT"
  unfolding write_gt_ivecs_def vec_rows_def by (intro arg_cong [where f = concat] map_cong) simp_all

text \<open>
  Ground truth written by \<open>write_gt_ivecs\<close>, with rows of one length, is read back row for row. Like
  vectors, it must have a row.
\<close>

theorem gt_roundtrip:
  assumes "GT \<noteq> []" and "length GT < 2 ^ 32" and "\<forall>row \<in> set GT. length row = unat K"
  shows "read_gt (fs(path \<mapsto> write_gt_ivecs GT)) path ''vecs'' = Inr (of_nat (length GT), K, GT)"
proof -
  let ?k = "unat K" and ?n = "length GT" and ?f = "write_gt_ivecs GT"
  note reads = vec_row_reads [OF assms(3), of _ K, folded gt_ivecs_rows [OF assms(3)]]
  have first: "load32 ?f 0 = Inr K" using reads(1) [of 0] assms(1) by simp
  have count: "of_nat (fsize ?f div (4 + 4 * ?k)) = (of_nat ?n :: u32)"
    using length_vec_rows [OF assms(3), of K] by (simp add: fsize_def gt_ivecs_rows [OF assms(3)])
  define st where "st i = (i * (4 + 4 * ?k), K, take i GT)" for i
  have "\<exists>s'. rfold (\<lambda>i (pos, Dim, gt). rbind (load32 ?f pos) (\<lambda>Dim.
        rbind (load32s ?f (pos + 4) (unat Dim)) (\<lambda>row. Inr (pos + 4 + 4 * unat Dim, Dim, gt @ [row]))))
      [0..<?n] (0, K, []) = Inr s' \<and> s' = st (length [0..<?n])"
  proof (rule rfold_invariant)
    fix ys i zs s
    assume split: "[0..<?n] = ys @ i # zs" and s: "s = st (length ys)"
    from upt_split [OF split] have "length ys = i" "i < ?n" by auto
    with reads [of i] s
    show "\<exists>s'. (\<lambda>i (pos, Dim, gt). rbind (load32 ?f pos) (\<lambda>Dim.
        rbind (load32s ?f (pos + 4) (unat Dim)) (\<lambda>row. Inr (pos + 4 + 4 * unat Dim, Dim, gt @ [row])))) i s
      = Inr s' \<and> s' = st (length (ys @ [i]))"
      by (simp add: st_def take_Suc_conv_app_nth)
  qed (simp add: st_def)
  then show ?thesis
    using first unat_of_nat32 [OF assms(2)] count
    by (simp add: read_gt_def read_gt_ivecs_def open_read_def Let_def st_def)
qed

theorem gt_roundtrip_witness:
  "read_gt (Map.empty(''gt'' \<mapsto> write_gt_ivecs [[3, 1], [0, 2], [4, 4]])) ''gt'' ''vecs''
     = Inr (of_nat (length [[3, 1], [0, 2], [4, 4 :: u32]]), 2, [[3, 1], [0, 2], [4, 4]])"
  by (rule gt_roundtrip) simp_all

section \<open>Reading graphs\<close>

text \<open>
  An adjacency list is its length and its elements, as in a ground truth file; lists may differ in length
  here, so the files below use \<open>write_gt_ivecs\<close> for them.
\<close>

lemma words_padded_at:
  assumes "f = xs @ bytes32s ws @ ys" and "pos = length xs" and "k = length ws"
  shows "read_words_padded f pos k = ws"
proof (rule nth_equalityI)
  fix i assume "i < length (read_words_padded f pos k)"
  then have i: "i < length ws" using assms(3) by (simp add: read_words_padded_def)
  have "take 4 (drop (4 * i) (bytes32s ws @ ys)) = slice (bytes32s ws) (4 * i) 4"
    using i by (simp add: slice_def)
  then show "read_words_padded f pos k ! i = ws ! i"
    using i assms by (simp add: read_words_padded_def slice_bytes32s le_word_bytes)
qed (simp add: assms read_words_padded_def)

lemma vamana_steps:
  assumes "\<forall>r \<in> set g. length r < 2 ^ 32" and "length done + length g \<le> length graph"
    and "f = pre @ write_gt_ivecs g" and "take (length done) graph = done"
  shows "vamana_loop f (length f) (length pre) (length done) graph
    = Inr (done @ g @ drop (length done + length g) graph)"
  using assms
proof (induction g arbitrary: pre "done" graph)
  case Nil
  then show ?case
    by (subst vamana_loop.simps) (use append_take_drop_id [of "length done" graph] in \<open>simp add: write_gt_ivecs_def\<close>)
next
  case (Cons r g)
  let ?k = "of_nat (length r) :: u32"
  have k: "unat ?k = length r" using Cons.prems(1) by (intro unat_of_nat32) simp
  have f: "f = pre @ le_bytes 4 ?k @ bytes32s r @ write_gt_ivecs g"
    using Cons.prems(3) by (simp add: write_gt_ivecs_def)
  have rd: "slice f (length pre) 4 = le_bytes 4 ?k" "slice f (length pre + 4) (4 * length r) = bytes32s r"
    using f by (simp_all add: slice_def)
  have "load32s (bytes32s r) 0 (length r) = Inr r"
    by (rule load32s_at [of _ "[]" r "[]"]) simp_all
  moreover have "vamana_loop f (length f) (length (pre @ le_bytes 4 ?k @ bytes32s r)) (length (done @ [r]))
      (graph[length done := r]) = Inr ((done @ [r]) @ g @ drop (length (done @ [r]) + length g) (graph[length done := r]))"
    using Cons.prems f by (intro Cons.IH) (simp_all add: take_Suc_conv_app_nth)
  ultimately show ?case
    using f rd k Cons.prems(2)
    by (subst vamana_loop.simps) (simp add: Let_def read_throw_def le_word_bytes ac_simps)
qed

text \<open>The graph file of the external builder: total size, maximum degree, start vertex, frozen points, lists.\<close>

definition vamana_bytes :: "u32 \<Rightarrow> u32 \<Rightarrow> u64 \<Rightarrow> u32 list list \<Rightarrow> byte list" where
  "vamana_bytes R start frozen g =
     le_bytes 8 (of_nat (24 + length (write_gt_ivecs g)) :: u64) @ le_bytes 4 R @ le_bytes 4 start @
     le_bytes 8 frozen @ write_gt_ivecs g"

lemma vamana_head:
  fixes R start :: u32 and frozen :: u64
  assumes "24 + length (write_gt_ivecs g) < 2 ^ 64"
  defines "f \<equiv> vamana_bytes R start frozen g"
  shows "read_throw f 0 8 = Inr (slice f 0 8)" "unat (le_word (slice f 0 8) :: u64) = length f"
    "read_throw f 8 4 = Inr (le_bytes 4 R)" "read_throw f 12 4 = Inr (le_bytes 4 start)"
    "read_throw f 16 8 = Inr (le_bytes 8 frozen)"
proof -
  let ?T = "le_bytes 8 (of_nat (24 + length (write_gt_ivecs g)) :: u64)"
  have "slice f 0 8 = ?T" by (simp add: f_def vamana_bytes_def slice_def)
  moreover have "unat (of_nat (24 + length (write_gt_ivecs g)) :: u64) = 24 + length (write_gt_ivecs g)"
    using assms(1) by (simp add: unat_of_nat del: of_nat_add)
  ultimately show "unat (le_word (slice f 0 8) :: u64) = length f"
    by (simp add: le_word_bytes f_def vamana_bytes_def del: of_nat_add)
qed (simp_all add: f_def vamana_bytes_def read_throw_def slice_def)

text \<open>
  C26: A well-formed graph file loads into exactly its lists: vertex \<open>v\<close> gets list \<open>v\<close>, in the order of the
  file, with its degree bound and entry point, and vertices beyond the file have no neighbours.
\<close>

theorem vamana_loads:
  assumes "24 + length (write_gt_ivecs g) < 2 ^ 64" and "\<forall>r \<in> set g. length r < 2 ^ 32"
    and "length g \<le> expected" and "fs path = Some (vamana_bytes R start frozen g)"
  shows "load_vamana fs path expected [] = Inr (g @ replicate (expected - length g) [], R, start)"
proof -
  let ?f = "vamana_bytes R start frozen g"
  let ?pre = "le_bytes 8 (of_nat (24 + length (write_gt_ivecs g)) :: u64) @ le_bytes 4 R @ le_bytes 4 start @ le_bytes 8 frozen"
  have "vamana_loop ?f (length ?f) (length ?pre) (length ([] :: u32 list list)) (replicate expected [])
    = Inr ([] @ g @ drop (length ([] :: u32 list list) + length g) (replicate expected []))"
    using assms by (intro vamana_steps) (simp_all add: vamana_bytes_def)
  then show ?thesis
    using vamana_head [OF assms(1), of R start frozen] assms(4)
    by (simp add: load_vamana_def open_read_def le_word_bytes)
qed

theorem vamana_loads_witness:
  "load_vamana (Map.empty(''g'' \<mapsto> vamana_bytes 2 1 0 [[1, 2], [], [0]])) ''g'' 4 []
     = Inr ([[1, 2], [], [0]] @ replicate (4 - length [[1, 2], [], [0 :: u32]]) [], 2, 1)"
  by (rule vamana_loads) (simp_all add: write_gt_ivecs_def)

text \<open>The other graph file: maximum degree, start vertex, lists up to the end of the file.\<close>

lemma nsg_steps:
  assumes "\<forall>r \<in> set g. length r < 2 ^ 32" and "f = pre @ write_gt_ivecs g"
  shows "nsg_loop f (length pre) graph = graph @ map (\<lambda>r. remdups_adj (sort r)) g"
  using assms
proof (induction g arbitrary: pre graph)
  case Nil
  then show ?case by (subst nsg_loop.simps) (simp add: write_gt_ivecs_def)
next
  case (Cons r g)
  let ?k = "of_nat (length r) :: u32"
  have k: "unat ?k = length r" using Cons.prems(1) by (intro unat_of_nat32) simp
  have f: "f = pre @ le_bytes 4 ?k @ bytes32s r @ write_gt_ivecs g"
    using Cons.prems(2) by (simp add: write_gt_ivecs_def)
  have "read_words_padded f (length pre + 4) (length r) = r"
    by (rule words_padded_at [of _ "pre @ le_bytes 4 ?k" r "write_gt_ivecs g"]) (simp_all add: f)
  moreover have "slice f (length pre) 4 = le_bytes 4 ?k" using f by (simp add: slice_def)
  moreover have "nsg_loop f (length (pre @ le_bytes 4 ?k @ bytes32s r)) (graph @ [remdups_adj (sort r)])
      = (graph @ [remdups_adj (sort r)]) @ map (\<lambda>r. remdups_adj (sort r)) g"
    using Cons.prems f by (intro Cons.IH) simp_all
  ultimately show ?case
    using f k by (subst nsg_loop.simps) (simp add: le_word_bytes Let_def ac_simps)
qed

lemma sort_unique: "remdups_adj (sort r) = sorted_list_of_set (set (r :: 'a::linorder list))"
proof -
  have "distinct (remdups_adj xs)" if "sorted xs" for xs :: "'a list"
    using that
  proof (induction xs rule: remdups_adj.induct)
    case (3 x y xs)
    then have "x \<noteq> y \<Longrightarrow> x \<notin> set (y # xs)" by auto
    with 3 show ?case by simp
  qed simp_all
  then have "sorted (remdups_adj (sort r))" "distinct (remdups_adj (sort r))"
    by (simp_all add: sorted_remdups_adj)
  then show ?thesis
    using sorted_list_of_set.idem_if_sorted_distinct [of "remdups_adj (sort r)"] by simp
qed

text \<open>
  C27: Loading a graph in the second format appends each vertex's neighbours as a strictly increasing list
  of the same set.
\<close>

theorem nsg_loads:
  assumes "\<forall>r \<in> set g. length r < 2 ^ 32"
    and "fs path = Some (le_bytes 4 R @ le_bytes 4 start @ write_gt_ivecs g)"
  shows "load_nsg fs path graph = Inr (graph @ map (\<lambda>r. sorted_list_of_set (set r)) g, R, start)"
proof -
  let ?f = "le_bytes 4 R @ le_bytes 4 start @ write_gt_ivecs g"
  have "nsg_loop ?f (length (le_bytes 4 R @ le_bytes 4 start)) graph = graph @ map (\<lambda>r. remdups_adj (sort r)) g"
    by (rule nsg_steps [OF assms(1)]) simp
  moreover have "load32 ?f 0 = Inr R" by (rule load32_at [of _ "[]"]) simp_all
  moreover have "load32 ?f 4 = Inr start" by (rule load32_at [of _ "le_bytes 4 R"]) simp_all
  ultimately show ?thesis using assms(2) by (simp add: load_nsg_def open_read_def sort_unique)
qed

theorem nsg_loads_witness:
  "load_nsg (Map.empty(''g'' \<mapsto> le_bytes 4 (3 :: u32) @ le_bytes 4 (0 :: u32) @ write_gt_ivecs [[2, 1, 2], [0]])) ''g'' []
     = Inr ([] @ map (\<lambda>r. sorted_list_of_set (set r)) [[2, 1, 2], [0]], 3, 0)"
  by (rule nsg_loads) simp_all

end
