(* ===== verification/TextNumbers.thy ===== *)
theory TextNumbers
  imports FileFormats
begin

text \<open>
  Numbers in text files: what \<open>operator<<\<close> prints and \<open>operator>>\<close> reads for unsigned integers, and the
  two functions of \<open>include/common.h\<close> that store a vector one number per line.
\<close>

section \<open>Printing\<close>

fun dec_bytes :: "nat \<Rightarrow> byte list" where
  "dec_bytes n = (if n < 10 then [of_nat (48 + n)] else dec_bytes (n div 10) @ [of_nat (48 + n mod 10)])"

declare dec_bytes.simps [simp del]

definition num_line :: "nat \<Rightarrow> byte list" where
  "num_line n = dec_bytes n @ [10]"

section \<open>Reading\<close>

definition is_space :: "byte \<Rightarrow> bool" where
  "is_space b \<longleftrightarrow> b = 32 \<or> 9 \<le> unat b \<and> unat b \<le> 13"

definition is_digit :: "byte \<Rightarrow> bool" where
  "is_digit b \<longleftrightarrow> 48 \<le> unat b \<and> unat b \<le> 57"

definition dec_val :: "byte list \<Rightarrow> nat" where
  "dec_val bs = foldl (\<lambda>a b. 10 * a + (unat b - 48)) 0 bs"

text \<open>
  An extraction skips white space, takes an optional sign and the digits that follow. It fails without
  digits (the target becomes 0) and on a value that does not fit (the target becomes the largest
  value); a minus sign negates modulo the range. The result is the value, whether the extraction
  succeeded, and the rest of the input.
\<close>

definition scan_number :: "nat \<Rightarrow> byte list \<Rightarrow> nat \<times> bool \<times> byte list" where
  "scan_number bits bs =
     (let s = dropWhile is_space bs;
          neg = (s \<noteq> [] \<and> hd s = 45);
          s = (if s \<noteq> [] \<and> (hd s = 45 \<or> hd s = 43) then tl s else s);
          ds = takeWhile is_digit s; rest = dropWhile is_digit s; v = dec_val ds
      in if ds = [] then (0, False, rest)
         else if 2 ^ bits \<le> v then (2 ^ bits - 1, False, rest)
         else (if neg then (2 ^ bits - v) mod 2 ^ bits else v, True, rest))"

lemma scan_number_shorter: "scan_number bits bs = (v, True, rest) \<Longrightarrow> length rest < length bs"
proof -
  assume a: "scan_number bits bs = (v, True, rest)"
  define s where "s = dropWhile is_space bs"
  define s' where "s' = (if s \<noteq> [] \<and> (hd s = 45 \<or> hd s = 43) then tl s else s)"
  have "takeWhile is_digit s' \<noteq> []" "rest = dropWhile is_digit s'"
    using a by (auto simp: scan_number_def Let_def s_def s'_def split: if_splits)
  then have "length rest < length s'"
    by (metis length_append length_greater_0_conv less_add_same_cancel2 takeWhile_dropWhile_id)
  moreover have "length s' \<le> length s" by (auto simp: s'_def)
  moreover have "length s \<le> length bs" by (simp add: s_def length_dropWhile_le)
  ultimately show ?thesis by simp
qed

section \<open>Vectors\<close>

definition save_vector :: "nat list \<Rightarrow> byte list" where
  "save_vector P = concat (map num_line P)"

text \<open>\<open>while (in >> temp) P.push_back (temp)\<close>.\<close>

function load_numbers :: "nat \<Rightarrow> byte list \<Rightarrow> nat list \<Rightarrow> nat list" where
  "load_numbers bits bs P =
     (case scan_number bits bs of (v, ok, rest) \<Rightarrow> if ok then load_numbers bits rest (P @ [v]) else P)"
  by pat_completeness auto
termination by (relation "measure (\<lambda>(bits, bs, P). length bs)") (auto dest: scan_number_shorter [OF sym])

declare load_numbers.simps [simp del]

definition load_vector :: "nat \<Rightarrow> files \<Rightarrow> string \<Rightarrow> nat list \<Rightarrow> nat list result" where
  "load_vector bits fs path P =
     rbind (open_read ''error:@load_vector: open file failed.'' fs path) (\<lambda>f. Inr (load_numbers bits f P))"

section \<open>Reading back\<close>

lemma unat_digit: "d < 10 \<Longrightarrow> unat (of_nat (48 + d) :: byte) = 48 + d"
  by (simp add: unat_of_nat del: of_nat_add)

lemma dec_bytes_digits: "b \<in> set (dec_bytes n) \<Longrightarrow> is_digit b"
proof (induction n rule: dec_bytes.induct)
  case (1 n)
  have "is_digit (of_nat (48 + d))" if "d < 10" for d
    using unat_digit [OF that] that by (simp add: is_digit_def)
  with 1 show ?case by (subst (asm) (2) dec_bytes.simps) (auto split: if_splits)
qed

lemma dec_bytes_val: "dec_val (dec_bytes n) = n"
proof (induction n rule: dec_bytes.induct)
  case (1 n)
  have "unat (of_nat (48 + n mod 10) :: byte) - 48 = n mod 10" using unat_digit [of "n mod 10"] by simp
  with 1 unat_digit [of n] show ?case by (subst dec_bytes.simps) (auto simp: dec_val_def)
qed

lemma dec_bytes_not_Nil: "dec_bytes n \<noteq> []"
  by (subst dec_bytes.simps) simp

lemma digit_not_space: "is_digit b \<Longrightarrow> \<not> is_space b \<and> b \<noteq> 45 \<and> b \<noteq> 43"
  by (auto simp: is_digit_def is_space_def)

text \<open>A printed number, followed by its line end, is extracted as itself, and leaves the line end.\<close>

lemma scan_number_line:
  assumes "\<forall>b \<in> set sp. is_space b" and "n < 2 ^ bits"
  shows "scan_number bits (sp @ num_line n @ rest) = (n, True, 10 # rest)"
proof -
  obtain c cs where c: "dec_bytes n = c # cs" using dec_bytes_not_Nil by (metis neq_Nil_conv)
  have dig: "\<forall>b \<in> set (c # cs). is_digit b" using dec_bytes_digits [of _ n] c by auto
  have "dropWhile is_space (sp @ num_line n @ rest) = c # cs @ 10 # rest"
    using assms(1) dig digit_not_space by (simp add: num_line_def c dropWhile_append2)
  moreover have "takeWhile is_digit (c # cs @ 10 # rest) = c # cs" "dropWhile is_digit (c # cs @ 10 # rest) = 10 # rest"
    using dig takeWhile_append2 [of "c # cs" is_digit "10 # rest"] dropWhile_append2 [of "c # cs" is_digit "10 # rest"]
    by (auto simp: is_digit_def)
  moreover have "dec_val (c # cs) = n" using dec_bytes_val [of n] c by simp
  ultimately show ?thesis
    using dig digit_not_space [of c] assms(2) by (simp add: scan_number_def)
qed

lemma scan_number_end: "\<forall>b \<in> set sp. is_space b \<Longrightarrow> scan_number bits sp = (0, False, [])"
proof -
  assume "\<forall>b \<in> set sp. is_space b"
  then have Nil: "dropWhile is_space sp = []" by simp
  show ?thesis unfolding scan_number_def Let_def Nil by simp
qed

lemma load_lines:
  assumes "\<forall>n \<in> set ns. n < 2 ^ bits" and "\<forall>b \<in> set sp. is_space b"
  shows "load_numbers bits (sp @ save_vector ns) P = P @ ns"
  using assms
proof (induction ns arbitrary: sp P)
  case Nil
  then show ?case by (subst load_numbers.simps) (simp add: save_vector_def scan_number_end)
next
  case (Cons n ns)
  have "load_numbers bits ([10] @ save_vector ns) (P @ [n]) = (P @ [n]) @ ns"
    using Cons.prems by (intro Cons.IH) (auto simp: is_space_def)
  moreover have "scan_number bits (sp @ save_vector (n # ns)) = (n, True, 10 # save_vector ns)"
    using scan_number_line [of sp n bits "save_vector ns"] Cons.prems by (simp add: save_vector_def)
  ultimately show ?case by (subst load_numbers.simps) simp
qed

text \<open>
  A vector of unsigned numbers saved as text is loaded back: the elements are appended in order to
  the vector given.
\<close>

theorem vector_roundtrip:
  assumes "\<forall>n \<in> set ns. n < 2 ^ bits"
  shows "load_vector bits (fs(path \<mapsto> save_vector ns)) path P = Inr (P @ ns)"
  using load_lines [OF assms, of "[]" P] by (simp add: load_vector_def open_read_def)

theorem vector_roundtrip_witness:
  "load_vector 32 (Map.empty(''v'' \<mapsto> save_vector [0, 1234, 7])) ''v'' [9] = Inr ([9] @ [0, 1234, 7])"
  by (rule vector_roundtrip) simp

end
