(* ===== verification/Params.thy ===== *)
theory Params
  imports TextNumbers
begin

text \<open>
  The parameters of an index, \<open>efanna2e::Parameters\<close> of \<open>include/efanna2e/parameters.h\<close>: values are kept as
  text, written by \<open>operator<<\<close> and converted by \<open>operator>>\<close> when they are read. A conversion has to use up
  the whole text.
\<close>

type_synonym params = "string \<rightharpoonup> byte list"

definition str_bytes :: "string \<Rightarrow> byte list" where
  "str_bytes s = map (\<lambda>c. of_nat (of_char c)) s"

definition bytes_str :: "byte list \<Rightarrow> string" where
  "bytes_str bs = map (\<lambda>b. char_of (unat b)) bs"

definition para_set_str :: "string \<Rightarrow> string \<Rightarrow> params \<Rightarrow> params" where
  "para_set_str name s p = p(name \<mapsto> str_bytes s)"

definition para_set_num :: "string \<Rightarrow> nat \<Rightarrow> params \<Rightarrow> params" where
  "para_set_num name n p = p(name \<mapsto> dec_bytes n)"

text \<open>\<open>sstream >> value\<close> for a string: the next word; the rest is empty when the end was reached.\<close>

definition scan_word :: "byte list \<Rightarrow> byte list \<times> bool \<times> byte list" where
  "scan_word bs = (let s = dropWhile is_space bs; w = takeWhile (\<lambda>b. \<not> is_space b) s
     in (w, w \<noteq> [], dropWhile (\<lambda>b. \<not> is_space b) s))"

definition convert_failed :: "byte list \<Rightarrow> fault" where
  "convert_failed bs = Runtime_Error (''Failed to convert value '' @ bytes_str bs)"

definition convert_str :: "byte list \<Rightarrow> string result" where
  "convert_str bs = (case scan_word bs of (w, ok, rest) \<Rightarrow>
     if \<not> ok \<or> rest \<noteq> [] then Inl (convert_failed bs) else Inr (bytes_str w))"

definition convert_num :: "nat \<Rightarrow> byte list \<Rightarrow> nat result" where
  "convert_num bits bs = (case scan_number bits bs of (v, ok, rest) \<Rightarrow>
     if \<not> ok \<or> rest \<noteq> [] then Inl (convert_failed bs) else Inr v)"

definition para_find :: "params \<Rightarrow> string \<Rightarrow> byte list result" where
  "para_find p name = (case p name of None \<Rightarrow> Inl (Runtime_Error ''Invalid parameter name.'') | Some bs \<Rightarrow> Inr bs)"

definition para_str :: "params \<Rightarrow> string \<Rightarrow> string result" where
  "para_str p name = rbind (para_find p name) convert_str"

definition para_num :: "nat \<Rightarrow> params \<Rightarrow> string \<Rightarrow> nat result" where
  "para_num bits p name = rbind (para_find p name) (convert_num bits)"

text \<open>With a default, only the missing name is caught; a failed conversion still throws.\<close>

definition para_num_default :: "nat \<Rightarrow> params \<Rightarrow> string \<Rightarrow> nat \<Rightarrow> nat result" where
  "para_num_default bits p name d = (case p name of None \<Rightarrow> Inr d | Some bs \<Rightarrow> convert_num bits bs)"

section \<open>Reading back\<close>

definition plain_text :: "string \<Rightarrow> bool" where
  "plain_text s \<longleftrightarrow> s \<noteq> [] \<and> (\<forall>b \<in> set (str_bytes s). \<not> is_space b)"

lemma bytes_str_bytes [simp]: "bytes_str (str_bytes s) = s"
proof -
  have "char_of (unat (of_nat (of_char c :: nat) :: byte)) = c" for c
  proof -
    have "(of_char c :: nat) < 256" by simp
    then show ?thesis by (simp add: unat_of_nat)
  qed
  then show ?thesis by (simp add: bytes_str_def str_bytes_def comp_def)
qed

lemma convert_plain: "plain_text s \<Longrightarrow> convert_str (str_bytes s) = Inr s"
proof -
  assume s: "plain_text s"
  then have d: "dropWhile is_space (str_bytes s) = str_bytes s"
    by (cases "str_bytes s") (auto simp: plain_text_def)
  have t: "takeWhile (\<lambda>b. \<not> is_space b) (str_bytes s) = str_bytes s" "dropWhile (\<lambda>b. \<not> is_space b) (str_bytes s) = []"
    using s by (auto simp: plain_text_def)
  have "str_bytes s \<noteq> []" using s by (simp add: plain_text_def str_bytes_def)
  then show ?thesis unfolding convert_str_def scan_word_def Let_def d t by simp
qed

lemma convert_number: "n < 2 ^ bits \<Longrightarrow> convert_num bits (dec_bytes n) = Inr n"
proof -
  assume n: "n < 2 ^ bits"
  have dig: "\<forall>b \<in> set (dec_bytes n). is_digit b" using dec_bytes_digits by blast
  obtain c cs where c: "dec_bytes n = c # cs" using dec_bytes_not_Nil by (metis neq_Nil_conv)
  have "\<not> is_space c" "c \<noteq> 45" "c \<noteq> 43" using digit_not_space [of c] dig c by auto
  then have d: "dropWhile is_space (dec_bytes n) = dec_bytes n" "hd (dec_bytes n) \<noteq> 45" "hd (dec_bytes n) \<noteq> 43"
    "\<not> (dec_bytes n \<noteq> [] \<and> (hd (dec_bytes n) = 45 \<or> hd (dec_bytes n) = 43))" using c by auto
  have t: "takeWhile is_digit (dec_bytes n) = dec_bytes n" "dropWhile is_digit (dec_bytes n) = []"
    using dig by auto
  show ?thesis
    unfolding convert_num_def scan_number_def Let_def d(1) if_not_P [OF d(4)] t using d(2,3) n dec_bytes_not_Nil [of n]
    by (simp add: dec_bytes_val)
qed

text \<open>
  A parameter is read back as it was set: every number of its type, and every text that is not empty
  and has no white space.
\<close>

theorem parameters_roundtrip:
  assumes "n < 2 ^ bits" and "plain_text s" and "a \<noteq> b"
  shows "para_num bits (para_set_str b s (para_set_num a n p)) a = Inr n \<and>
    para_str (para_set_str b s (para_set_num a n p)) b = Inr s"
  using assms convert_number [OF assms(1)] convert_plain [OF assms(2)]
  by (simp_all add: para_num_def para_str_def para_find_def para_set_str_def para_set_num_def)

theorem parameters_roundtrip_witness:
  "para_num 32 (para_set_str ''metric'' ''L2'' (para_set_num ''bucket_count'' 4 Map.empty)) ''bucket_count'' = Inr 4 \<and>
   para_str (para_set_str ''metric'' ''L2'' (para_set_num ''bucket_count'' 4 Map.empty)) ''metric'' = Inr ''L2''"
  by (rule parameters_roundtrip) (simp_all add: plain_text_def str_bytes_def is_space_def)

text \<open>
  C29: a text with white space after its first word (a path with a space in it) is not read back:
  reading the parameter throws.
\<close>

theorem spaced_parameter_fails:
  assumes "plain_text w" and "is_space (of_nat (of_char c))"
  shows "para_str (para_set_str a (w @ c # s) p) a = Inl (convert_failed (str_bytes (w @ c # s)))"
proof -
  let ?b = "of_nat (of_char c) :: byte"
  have b: "str_bytes (w @ c # s) = str_bytes w @ ?b # str_bytes s" by (simp add: str_bytes_def)
  have w: "\<forall>x \<in> set (str_bytes w). \<not> is_space x" "str_bytes w \<noteq> []"
    using assms(1) by (auto simp: plain_text_def str_bytes_def)
  then have d: "dropWhile is_space (str_bytes w @ ?b # str_bytes s) = str_bytes w @ ?b # str_bytes s"
    by (cases "str_bytes w") auto
  have "dropWhile (\<lambda>b. \<not> is_space b) (str_bytes w @ ?b # str_bytes s) = ?b # str_bytes s"
    using w(1) assms(2) by (simp add: dropWhile_append2)
  then have "convert_str (str_bytes (w @ c # s)) = Inl (convert_failed (str_bytes (w @ c # s)))"
    unfolding convert_str_def scan_word_def Let_def b d by simp
  then show ?thesis by (simp add: para_str_def para_find_def para_set_str_def)
qed

theorem spaced_parameter_fails_witness:
  "para_str (para_set_str ''graph_file'' ''my graph'' Map.empty) ''graph_file'' = Inl (convert_failed (str_bytes ''my graph''))"
  using spaced_parameter_fails [of "''my''" "CHR '' ''" "''graph_file''" "''graph''" Map.empty]
  by (simp add: plain_text_def str_bytes_def is_space_def)

end
