(* ===== verification/Deploy.thy ===== *)
theory Deploy
  imports Params Buckets Affinity GStore
begin

text \<open>
  How an index reaches the servers, \<open>src/index.cpp\<close>: reading the data, the graph and the learning set,
  saving the generated index with one file per bucket, and loading it on a server into its registered
  memory. The parameters of the index are those of its constructor.
\<close>

section \<open>Construction\<close>

datatype metric = L2 | IP | COS

definition index_metric :: "params \<Rightarrow> metric result" where
  "index_metric para =
     rbind (para_str para ''metric'') (\<lambda>m.
     if m = ''L2'' then Inr L2 else if m = ''IP'' then Inr IP else if m = ''COS'' then Inr COS
     else Inl (Runtime_Error ''error@Index: metric undefined.''))"

text \<open>Scratch space, one per thread.\<close>

definition initialize_query_scratch ::
    "index \<Rightarrow> nat \<Rightarrow> u32 \<Rightarrow> ('i::zero, 'd::zero) scratch list \<Rightarrow> ('i, 'd) scratch list result" where
  "initialize_query_scratch ix num_threads search_l scs =
     (if ix_base_index_R ix = 0
      then Inl (Runtime_Error ''error@initialize_query_scratch: _base_index_R is 0.'')
      else rfold (\<lambda>i scs. rbind (sc_new search_l (ix_base_index_R ix)) (\<lambda>sc. Inr (scs @ [sc]))) [0..<num_threads] scs)"

definition initialize_query_scratch_distributed ::
    "index \<Rightarrow> u32 \<Rightarrow> nat \<Rightarrow> u32 \<Rightarrow> ('d::zero) ds_scratch list \<Rightarrow> 'd ds_scratch list result" where
  "initialize_query_scratch_distributed ix num_servers num_threads search_l scs =
     (if ix_base_index_R ix = 0
      then Inl (Runtime_Error ''error@initialize_query_scratch: _base_index_R is 0.'')
      else rfold (\<lambda>i scs. rbind (ds_new search_l (ix_base_index_R ix) num_servers) (\<lambda>sc. Inr (scs @ [sc]))) [0..<num_threads] scs)"

section \<open>Reading the input\<close>

text \<open>
  \<open>scan_float\<close> stands for \<open>fscanf (F, "%f", ..)\<close>: a value and the rest of the input, or no value. The
  allocation is four times as long as the array of centroids; \<open>fresh\<close> is its content.
\<close>

definition load_coarse_clusters ::
    "(byte list \<Rightarrow> (u32 \<times> byte list) option) \<Rightarrow> (nat \<Rightarrow> u32 list) \<Rightarrow> params \<Rightarrow> files \<Rightarrow> index \<Rightarrow> index result" where
  "load_coarse_clusters scan_float fresh para fs ix =
     rbind (para_num 64 para ''bkmeans_K'') (\<lambda>K.
     rbind (para_str para ''bkmeans_centroids_output_file'') (\<lambda>path.
     rbind (require (ix_dimension ix \<noteq> 0) (Runtime_Error ''error@load_coarse_clusters: _dimension UNDEFINED.'')) (\<lambda>_.
     rbind (require (ix_coarse_data ix = None) (Runtime_Error ''error@load_coarse_clusters: _coarse_clusters already loaded.'')) (\<lambda>_.
     rbind (open_read ''error@load_coarse_clusters: _coarse_clusters file not found.'' fs path) (\<lambda>f.
     rbind (rfold (\<lambda>i (bs, data).
        case scan_float bs of
          None \<Rightarrow> Inl (Runtime_Error ''error@load_coarse_clusters: load_coarse_clusters failed.'')
        | Some (x, rest) \<Rightarrow> rbind (rput data i x) (\<lambda>data. Inr (rest, data)))
        [0..<K * ix_dimension ix] (f, fresh (K * ix_dimension ix * 4))) (\<lambda>(bs, data).
     Inr (ix\<lparr>ix_coarse_num := K, ix_coarse_data := Some data\<rparr>)))))))"

definition load_learn_data :: "(nat \<Rightarrow> u32 list) \<Rightarrow> params \<Rightarrow> files \<Rightarrow> index \<Rightarrow> index result" where
  "load_learn_data fresh para fs ix =
     rbind (para_str para ''file_format'') (\<lambda>format.
     rbind (para_str para ''learn_data_file'') (\<lambda>path.
     rbind (read_data fresh fs path format) (\<lambda>(n, dim, data).
     if ix_learn_graph ix \<noteq> [] \<and> length (ix_learn_graph ix) \<noteq> unat n
     then Inl (Runtime_Error ''error@load_learn_data: uncorrect learn_num.'')
     else Inr (ix\<lparr>ix_learn_num := unat n, ix_learn_data := Some data\<rparr>))))"

definition load_learn_graph :: "params \<Rightarrow> files \<Rightarrow> index \<Rightarrow> index result" where
  "load_learn_graph para fs ix =
     rbind (para_str para ''learn_graph_file'') (\<lambda>path.
     rbind (load_vamana fs path (ix_learn_num ix) (ix_learn_graph ix)) (\<lambda>(graph, R, EP).
     rbind (check_degree graph R) (\<lambda>R.
     if ix_learn_num ix \<noteq> length graph
     then Inl (Runtime_Error ''error@load_learn_graph: uncorrect graph size.'')
     else Inr (ix\<lparr>ix_learn_graph := graph, ix_learn_graph_R := R, ix_learn_graph_EP := EP\<rparr>))))"

definition load_base_data :: "(nat \<Rightarrow> u32 list) \<Rightarrow> params \<Rightarrow> files \<Rightarrow> index \<Rightarrow> index result" where
  "load_base_data fresh para fs ix =
     rbind (para_str para ''file_format'') (\<lambda>format.
     rbind (para_str para ''base_file'') (\<lambda>path.
     rbind (read_data fresh fs path format) (\<lambda>(n, dim, data).
     if ix_base_graph ix \<noteq> [] \<and> length (ix_base_graph ix) \<noteq> unat n
     then Inl (Runtime_Error ''error@load_base_data: uncorrect base_num.'')
     else Inr (ix\<lparr>ix_base_num := unat n, ix_dimension := unat dim, ix_base_data := Some data\<rparr>))))"

definition load_base_graph :: "params \<Rightarrow> files \<Rightarrow> index \<Rightarrow> index result" where
  "load_base_graph para fs ix =
     rbind (para_str para ''graph_file'') (\<lambda>path.
     rbind (load_vamana fs path (ix_base_num ix) (ix_base_graph ix)) (\<lambda>(graph, R, EP).
     rbind (check_degree graph R) (\<lambda>R.
     if ix_base_num ix \<noteq> length graph
     then Inl (Runtime_Error ''error@load_graph: uncorrect graph size.'')
     else Inr (ix\<lparr>ix_base_graph := graph, ix_base_graph_R := R, ix_base_graph_EP := EP\<rparr>))))"

section \<open>Saving\<close>

definition meta_fields :: "index \<Rightarrow> nat list" where
  "meta_fields ix =
     [ix_base_num ix, ix_dimension ix, ix_element_num ix, ix_element_size ix, ix_data_offset ix,
      ix_label_offset ix, ix_neighbor_offset ix, unat (ix_base_index_R ix),
      unat (fst (ix_membkt_EP ix)), unat (snd (ix_membkt_EP ix))]"

definition bucket_file :: "string \<Rightarrow> nat \<Rightarrow> string" where
  "bucket_file prefix b = prefix @ ''.bucket_'' @ bytes_str (dec_bytes b)"

definition save_base_index_on_buckets :: "params \<Rightarrow> files \<Rightarrow> index \<Rightarrow> files result" where
  "save_base_index_on_buckets para fs ix =
     rbind (para_str para ''filename_prefix'') (\<lambda>prefix.
     let fs = fs(prefix @ ''.meta'' \<mapsto> save_vector (meta_fields ix)) in
     rbind (rfold (\<lambda>b fs.
        rbind (rget (ix_buckets ix) b) (\<lambda>m.
        rbind (rget (ix_data_num ix) b) (\<lambda>n.
        save_file fs (bucket_file prefix b) m (n * ix_element_size ix)))) [0..<ix_bucket_count ix] fs) (\<lambda>fs.
     rbind (deref (ix_base_in_bucket ix)) (\<lambda>bb.
     rbind (save_file fs (prefix @ ''.partition'') (bytes32s bb) (ix_base_num ix * 4)) (\<lambda>fs.
     Inr (fs(prefix @ ''.lid'' \<mapsto> save_vector (map unat (ix_base_to_lid ix)),
             prefix @ ''.data_num'' \<mapsto> save_vector (ix_data_num ix)))))))"

section \<open>Loading on a server\<close>

text \<open>
  \<open>infile >> x\<close>: after a failure the stream leaves its targets alone. The local \<open>tmp\<close> of the code is not
  initialised; it starts as 0 here.
\<close>

definition next_number :: "nat \<Rightarrow> bool \<times> byte list \<Rightarrow> nat \<Rightarrow> nat \<times> bool \<times> byte list" where
  "next_number bits s old = (case s of (ok, bs) \<Rightarrow> if ok then scan_number bits bs else (old, False, bs))"

definition read_meta :: "byte list \<Rightarrow> index \<Rightarrow> index" where
  "read_meta f ix =
     (let s = (True, f);
          (base_num, s) = next_number 64 s (ix_base_num ix);
          (dimension, s) = next_number 64 s (ix_dimension ix);
          (element_num, s) = next_number 64 s (ix_element_num ix);
          (element_size, s) = next_number 64 s (ix_element_size ix);
          (data_offset, s) = next_number 64 s (ix_data_offset ix);
          (label_offset, s) = next_number 64 s (ix_label_offset ix);
          (neighbor_offset, s) = next_number 64 s (ix_neighbor_offset ix);
          (R, s) = next_number 32 s (unat (ix_base_index_R ix));
          (tmp, s) = next_number 32 s 0;
          (tmp', s) = next_number 32 s tmp
      in ix\<lparr>ix_base_num := base_num, ix_dimension := dimension, ix_element_num := element_num, ix_element_size := element_size,
            ix_data_offset := data_offset, ix_label_offset := label_offset, ix_neighbor_offset := neighbor_offset,
            ix_base_index_R := of_nat R, ix_membkt_EP := (of_nat tmp, of_nat tmp')\<rparr>)"

text \<open>
  \<open>kv\<close> is the memory of the graph store and \<open>num_servers\<close> the number of servers of the cluster. The bucket of the
  server goes to the start of that memory; the partition is copied over an array of zeros, whose
  length the code does not check.
\<close>

definition load_base_index_distributed ::
    "params \<Rightarrow> nat \<Rightarrow> bool \<Rightarrow> 'n dev list \<Rightarrow> files \<Rightarrow> nat \<Rightarrow> byte list \<Rightarrow> index \<Rightarrow> (index \<times> 'n gstore) result" where
  "load_base_index_distributed para num_servers use_rdma devs fs sid kv ix =
     rbind (para_num 64 para ''bucket_count'') (\<lambda>bucket_count.
     rbind (require (bucket_count = num_servers) Assert_Failed) (\<lambda>_.
     rbind (para_str para ''filename_prefix'') (\<lambda>prefix.
     rbind (open_read ''error:@meta_filepath: open file failed.'' fs (prefix @ ''.meta'')) (\<lambda>meta.
     let ix = read_meta meta (ix\<lparr>ix_bucket_count := bucket_count\<rparr>) in
     rbind (read_file_into fs (bucket_file prefix sid) kv (length kv)) (\<lambda>(data_size, kv).
     rbind (require (ix_element_size ix \<noteq> 0) (Runtime_Error ''division by zero'')) (\<lambda>_.
     let gs = gs_new sid num_servers use_rdma kv (ix_element_size ix) devs in
     rbind (read_file fs (prefix @ ''.partition'')) (\<lambda>part.
     rbind (store (replicate (4 * ix_base_num ix) 0) 0 part) (\<lambda>part.
     rbind (load32s part 0 (ix_base_num ix)) (\<lambda>bb.
     rbind (load_vector 32 fs (prefix @ ''.lid'') (map unat (ix_base_to_lid ix))) (\<lambda>lids.
     rbind (load_vector 64 fs (prefix @ ''.data_num'') (ix_data_num ix)) (\<lambda>data_num.
     Inr (ix\<lparr>ix_base_in_bucket := Some bb, ix_base_to_lid := map of_nat lids, ix_data_num := data_num\<rparr>, gs))))))))))))"

section \<open>What was saved is loaded\<close>

definition savable :: "index \<Rightarrow> bool" where
  "savable ix \<longleftrightarrow> length (ix_buckets ix) = ix_bucket_count ix \<and> length (ix_data_num ix) = ix_bucket_count ix \<and>
     (\<forall>b < ix_bucket_count ix. length (ix_buckets ix ! b) = ix_data_num ix ! b * ix_element_size ix) \<and>
     (\<exists>bb. ix_base_in_bucket ix = Some bb \<and> length bb = ix_base_num ix) \<and> 0 < ix_element_size ix \<and>
     (\<forall>n \<in> set (take 7 (meta_fields ix)) \<union> set (ix_data_num ix). n < 2 ^ 64)"

text \<open>The index a server has after loading: what \<open>ix0\<close> has besides is left alone.\<close>

definition served :: "index \<Rightarrow> index \<Rightarrow> index" where
  "served ix ix0 = ix0\<lparr>ix_base_num := ix_base_num ix, ix_dimension := ix_dimension ix, ix_element_num := ix_element_num ix,
     ix_element_size := ix_element_size ix, ix_data_offset := ix_data_offset ix, ix_label_offset := ix_label_offset ix,
     ix_neighbor_offset := ix_neighbor_offset ix, ix_base_index_R := ix_base_index_R ix, ix_membkt_EP := ix_membkt_EP ix,
     ix_bucket_count := ix_bucket_count ix, ix_base_in_bucket := ix_base_in_bucket ix, ix_base_to_lid := ix_base_to_lid ix,
     ix_data_num := ix_data_num ix\<rparr>"

lemma save_vector_Cons: "save_vector (n # ns) = num_line n @ save_vector ns"
  by (simp add: save_vector_def)

lemma next_saved:
  assumes "n < 2 ^ bits"
  shows "next_number bits (True, save_vector (n # ns)) old = (n, True, 10 # save_vector ns)"
    "next_number bits (True, 10 # save_vector (n # ns)) old = (n, True, 10 # save_vector ns)"
  using scan_number_line [of "[]" n bits "save_vector ns"] scan_number_line [of "[10]" n bits "save_vector ns"] assms
  by (simp_all add: next_number_def save_vector_Cons is_space_def)

lemma unat_bounds: "unat (w :: u32) < 2 ^ 32" "unat (b :: byte) < 2 ^ 32"
  using unat32_bound [of w] unsigned_less [of b, where 'a = nat] by simp_all

lemma read_meta_saved:
  assumes "savable ix"
  shows "read_meta (save_vector (meta_fields ix)) ix0 = ix0\<lparr>ix_base_num := ix_base_num ix, ix_dimension := ix_dimension ix,
     ix_element_num := ix_element_num ix, ix_element_size := ix_element_size ix, ix_data_offset := ix_data_offset ix,
     ix_label_offset := ix_label_offset ix, ix_neighbor_offset := ix_neighbor_offset ix, ix_base_index_R := ix_base_index_R ix,
     ix_membkt_EP := ix_membkt_EP ix\<rparr>"
proof -
  have b: "ix_base_num ix < 2 ^ 64" "ix_dimension ix < 2 ^ 64" "ix_element_num ix < 2 ^ 64" "ix_element_size ix < 2 ^ 64"
    "ix_data_offset ix < 2 ^ 64" "ix_label_offset ix < 2 ^ 64" "ix_neighbor_offset ix < 2 ^ 64"
    using assms by (simp_all add: savable_def meta_fields_def)
  show ?thesis
    unfolding read_meta_def meta_fields_def Let_def
    by (simp only: next_saved [OF b(1)] next_saved [OF b(2)] next_saved [OF b(3)] next_saved [OF b(4)] next_saved [OF b(5)]
        next_saved [OF b(6)] next_saved [OF b(7)] next_saved [OF unat_bounds(1)] next_saved [OF unat_bounds(2)] prod.case)
      simp
qed

lemma str_bytes_str [simp]: "str_bytes (bytes_str bs) = bs"
proof -
  have "of_nat (of_char (char_of (unat b) :: char)) = b" for b :: byte
    using unsigned_less [of b, where 'a = nat] by (simp add: of_char_of)
  then show ?thesis by (simp add: bytes_str_def str_bytes_def comp_def)
qed

lemma bucket_file_inj: "bucket_file prefix a = bucket_file prefix b \<longleftrightarrow> a = b"
proof
  assume "bucket_file prefix a = bucket_file prefix b"
  then have "str_bytes (bytes_str (dec_bytes a)) = str_bytes (bytes_str (dec_bytes b))" by (simp add: bucket_file_def)
  then show "a = b" by (metis str_bytes_str dec_bytes_val)
qed simp

lemma save_buckets:
  assumes "savable ix"
  shows "\<exists>fs'. rfold (\<lambda>b fs. rbind (rget (ix_buckets ix) b) (\<lambda>m. rbind (rget (ix_data_num ix) b) (\<lambda>n.
      save_file fs (bucket_file prefix b) m (n * ix_element_size ix)))) [0..<ix_bucket_count ix] fs = Inr fs' \<and>
    (\<forall>b < ix_bucket_count ix. fs' (bucket_file prefix b) = Some (ix_buckets ix ! b)) \<and>
    (\<forall>path. path \<notin> range (bucket_file prefix) \<longrightarrow> fs' path = fs path)"
proof -
  let ?f = "\<lambda>b fs. rbind (rget (ix_buckets ix) b) (\<lambda>m. rbind (rget (ix_data_num ix) b) (\<lambda>n.
      save_file fs (bucket_file prefix b) m (n * ix_element_size ix)))"
  have "\<exists>fs'. rfold ?f [0..<m] fs = Inr fs' \<and> (\<forall>b < m. fs' (bucket_file prefix b) = Some (ix_buckets ix ! b)) \<and>
    (\<forall>path. path \<notin> range (bucket_file prefix) \<longrightarrow> fs' path = fs path)" if "m \<le> ix_bucket_count ix" for m
    using that
  proof (induction m)
    case (Suc m)
    then obtain fs' where fs': "rfold ?f [0..<m] fs = Inr fs'" "\<forall>b < m. fs' (bucket_file prefix b) = Some (ix_buckets ix ! b)"
      "\<forall>path. path \<notin> range (bucket_file prefix) \<longrightarrow> fs' path = fs path" by auto
    have "?f m fs' = Inr (fs'(bucket_file prefix m \<mapsto> ix_buckets ix ! m))"
      using assms Suc.prems by (simp add: savable_def save_file_def)
    then have "rfold ?f [0..<Suc m] fs = Inr (fs'(bucket_file prefix m \<mapsto> ix_buckets ix ! m))"
      using fs'(1) by (simp add: rfold_append)
    with fs'(2,3) show ?case by (auto simp: less_Suc_eq bucket_file_inj)
  qed simp
  then show ?thesis by blast
qed

lemma other_files: "prefix @ ''.meta'' \<notin> range (bucket_file prefix)" "prefix @ ''.partition'' \<notin> range (bucket_file prefix)"
    "prefix @ ''.lid'' \<notin> range (bucket_file prefix)" "prefix @ ''.data_num'' \<notin> range (bucket_file prefix)"
  by (auto simp: bucket_file_def)

lemma saved_files:
  assumes ok: "savable ix" and prefix: "para_str para ''filename_prefix'' = Inr prefix" and bb: "ix_base_in_bucket ix = Some bb"
  shows "\<exists>fs'. save_base_index_on_buckets para fs ix = Inr fs' \<and> fs' (prefix @ ''.meta'') = Some (save_vector (meta_fields ix)) \<and>
    (\<forall>b < ix_bucket_count ix. fs' (bucket_file prefix b) = Some (ix_buckets ix ! b)) \<and>
    fs' (prefix @ ''.partition'') = Some (bytes32s bb) \<and> fs' (prefix @ ''.lid'') = Some (save_vector (map unat (ix_base_to_lid ix))) \<and>
    fs' (prefix @ ''.data_num'') = Some (save_vector (ix_data_num ix))"
proof -
  from save_buckets [OF ok, of prefix "fs(prefix @ ''.meta'' \<mapsto> save_vector (meta_fields ix))"] obtain fs1 where fs1:
    "rfold (\<lambda>b fs. rbind (rget (ix_buckets ix) b) (\<lambda>m. rbind (rget (ix_data_num ix) b) (\<lambda>n.
      save_file fs (bucket_file prefix b) m (n * ix_element_size ix)))) [0..<ix_bucket_count ix]
      (fs(prefix @ ''.meta'' \<mapsto> save_vector (meta_fields ix))) = Inr fs1"
    "\<forall>b < ix_bucket_count ix. fs1 (bucket_file prefix b) = Some (ix_buckets ix ! b)"
    "\<forall>path. path \<notin> range (bucket_file prefix) \<longrightarrow> fs1 path = (fs(prefix @ ''.meta'' \<mapsto> save_vector (meta_fields ix))) path" by blast
  have "length bb = ix_base_num ix" using ok bb by (simp add: savable_def)
  then have run: "save_base_index_on_buckets para fs ix = Inr (fs1(prefix @ ''.partition'' \<mapsto> bytes32s bb,
      prefix @ ''.lid'' \<mapsto> save_vector (map unat (ix_base_to_lid ix)), prefix @ ''.data_num'' \<mapsto> save_vector (ix_data_num ix)))"
    using fs1(1) prefix bb by (simp add: save_base_index_on_buckets_def save_file_def)
  have b: "bucket_file prefix b \<noteq> prefix @ ''.partition''" "bucket_file prefix b \<noteq> prefix @ ''.lid''" "bucket_file prefix b \<noteq> prefix @ ''.data_num''" for b
    by (auto simp: bucket_file_def)
  show ?thesis
    unfolding run using fs1(2,3) other_files(1) [of prefix] b by simp
qed

lemma load_saved_vector:
  assumes "fs path = Some (save_vector ns)" and "\<forall>n \<in> set ns. n < 2 ^ bits"
  shows "load_vector bits fs path P = Inr (P @ ns)"
  using load_lines [OF assms(2), of "[]" P] assms(1) by (simp add: load_vector_def open_read_def)

lemma loads_saved:
  assumes ok: "savable ix" and prefix: "para_str para ''filename_prefix'' = Inr prefix"
    and count: "para_num 64 para ''bucket_count'' = Inr (ix_bucket_count ix)" and sid: "sid < ix_bucket_count ix"
    and room: "length (ix_buckets ix ! sid) \<le> length kv" and ix0: "ix_base_to_lid ix0 = []" "ix_data_num ix0 = []"
  shows "\<exists>fs'. save_base_index_on_buckets para fs ix = Inr fs' \<and>
    load_base_index_distributed para (ix_bucket_count ix) use_rdma devs fs' sid kv ix0 = Inr (served ix ix0,
      gs_new sid (ix_bucket_count ix) use_rdma (ix_buckets ix ! sid @ drop (length (ix_buckets ix ! sid)) kv) (ix_element_size ix) devs)"
proof -
  obtain bb where bb: "ix_base_in_bucket ix = Some bb" "length bb = ix_base_num ix" using ok by (auto simp: savable_def)
  from saved_files [OF ok prefix bb(1), of fs] obtain fs' where fs': "save_base_index_on_buckets para fs ix = Inr fs'"
    "fs' (prefix @ ''.meta'') = Some (save_vector (meta_fields ix))" "fs' (bucket_file prefix sid) = Some (ix_buckets ix ! sid)"
    "fs' (prefix @ ''.partition'') = Some (bytes32s bb)" "fs' (prefix @ ''.lid'') = Some (save_vector (map unat (ix_base_to_lid ix)))"
    "fs' (prefix @ ''.data_num'') = Some (save_vector (ix_data_num ix))" using sid by blast
  note meta = read_meta_saved [OF ok]
  have part: "store (replicate (4 * ix_base_num ix) 0) 0 (bytes32s bb) = Inr (bytes32s bb)" "load32s (bytes32s bb) 0 (ix_base_num ix) = Inr bb"
    using bb(2) load32s_slice [of "bytes32s bb" 0 bb] by (simp_all add: store_def slice_def)
  have into: "read_file_into fs' (bucket_file prefix sid) kv (length kv) = Inr (length (ix_buckets ix ! sid),
      ix_buckets ix ! sid @ drop (length (ix_buckets ix ! sid)) kv)"
    using fs'(3) room by (simp add: read_file_into_def open_read_def store_def)
  have lid: "load_vector 32 fs' (prefix @ ''.lid'') [] = Inr (map unat (ix_base_to_lid ix))"
    using load_saved_vector [where fs = fs' and path = "prefix @ ''.lid''" and bits = 32 and P = "[]", OF fs'(5)] unat32_bound by simp
  have num: "load_vector 64 fs' (prefix @ ''.data_num'') [] = Inr (ix_data_num ix)"
    using load_saved_vector [where fs = fs' and path = "prefix @ ''.data_num''" and bits = 64 and P = "[]", OF fs'(6)] ok by (simp add: savable_def)
  have "0 < ix_element_size ix" using ok by (simp add: savable_def)
  then have "load_base_index_distributed para (ix_bucket_count ix) use_rdma devs fs' sid kv ix0 = Inr (served ix ix0,
      gs_new sid (ix_bucket_count ix) use_rdma (ix_buckets ix ! sid @ drop (length (ix_buckets ix ! sid)) kv) (ix_element_size ix) devs)"
    unfolding load_base_index_distributed_def
    using count prefix fs'(2,4) ix0
    by (simp add: open_read_def meta into read_file_def part lid num served_def bb(1) comp_def)
  with fs'(1) show ?thesis by blast
qed

text \<open>
  C5: a saved index is loaded by every server: all fields the search uses are those of the saved index,
  and the memory of the server starts with the records of its bucket.
\<close>

theorem saved_index_loads:
  assumes "savable ix" and "para_str para ''filename_prefix'' = Inr prefix"
    and "para_num 64 para ''bucket_count'' = Inr (ix_bucket_count ix)" and "sid < ix_bucket_count ix"
    and "length (ix_buckets ix ! sid) \<le> length kv"
  shows "\<exists>fs' gs. save_base_index_on_buckets para fs ix = Inr fs' \<and>
    load_base_index_distributed para (ix_bucket_count ix) True devs fs' sid kv index_new = Inr (served ix index_new, gs) \<and>
    length (gs_kv gs) = length kv \<and> take (length (ix_buckets ix ! sid)) (gs_kv gs) = ix_buckets ix ! sid \<and>
    gs_vertex_size gs = ix_element_size ix"
proof -
  have "ix_base_to_lid index_new = []" "ix_data_num index_new = []" by (simp_all add: index_new_def)
  from loads_saved [OF assms this] show ?thesis using assms(5) by (fastforce simp: gs_new_def)
qed

text \<open>An index of one vertex in one bucket.\<close>

definition one_saved :: index where
  "one_saved = index_new\<lparr>ix_base_num := 1, ix_dimension := 1, ix_element_num := 1, ix_element_size := 12,
     ix_label_offset := 4, ix_neighbor_offset := 8, ix_bucket_count := 1, ix_data_num := [1], ix_base_in_bucket := Some [0],
     ix_base_to_lid := [0], ix_buckets := [replicate 12 7]\<rparr>"

definition one_para :: params where
  "one_para = para_set_str ''filename_prefix'' ''part'' (para_set_num ''bucket_count'' 1 Map.empty)"

lemma one_para: "para_str one_para ''filename_prefix'' = Inr ''part''" "para_num 64 one_para ''bucket_count'' = Inr 1"
  using convert_plain [of "''part''"] convert_number [of 1 64]
  by (simp_all add: one_para_def para_str_def para_num_def para_find_def para_set_str_def para_set_num_def plain_text_def
      str_bytes_def is_space_def)

theorem saved_index_loads_witness:
  "\<exists>fs' gs. save_base_index_on_buckets one_para Map.empty one_saved = Inr fs' \<and>
    load_base_index_distributed one_para 1 True [] fs' 0 (replicate 20 0) index_new = Inr (served one_saved index_new, gs :: nat gstore) \<and>
    length (gs_kv gs) = 20 \<and> take 12 (gs_kv gs) = replicate 12 7"
proof -
  have s: "savable one_saved" by (simp add: savable_def one_saved_def meta_fields_def index_new_def)
  have sel: "ix_bucket_count one_saved = 1" "ix_buckets one_saved ! 0 = replicate 12 7" by (simp_all add: one_saved_def)
  have "para_num 64 one_para ''bucket_count'' = Inr (ix_bucket_count one_saved)" using one_para(2) sel by simp
  from saved_index_loads [OF s one_para(1) this, of 0 "replicate 20 0" Map.empty "[] :: nat dev list"] show ?thesis
    unfolding sel by auto
qed

section \<open>The shape of what is loaded\<close>

text \<open>A graph that was loaded has a list per vertex, none longer than its degree bound.\<close>

definition graph_shape :: "nat \<Rightarrow> u32 list list \<Rightarrow> u32 \<Rightarrow> bool" where
  "graph_shape n graph R \<longleftrightarrow> graph = [] \<or> length graph = n \<and> (\<forall>r \<in> set graph. length r \<le> unat R)"

definition index_shapes :: "index \<Rightarrow> bool" where
  "index_shapes ix \<longleftrightarrow> graph_shape (ix_base_num ix) (ix_base_graph ix) (ix_base_graph_R ix) \<and>
     graph_shape (ix_learn_num ix) (ix_learn_graph ix) (ix_learn_graph_R ix)"

lemma graph_shape_rows: "graph_shape n graph R \<Longrightarrow> \<forall>r \<in> set graph. length r < 2 ^ 32"
  unfolding graph_shape_def using unat32_bound [of R] by (metis empty_iff list.set(1) order_le_less_trans)

lemma check_degree_bound:
  assumes "check_degree graph R = Inr R'" and "\<forall>r \<in> set graph. length r < 2 ^ 32"
  shows "\<forall>r \<in> set graph. length r \<le> unat R'"
proof -
  let ?mx = "fold max (map length graph) 0"
  have "?mx < 2 ^ 32 \<and> (\<forall>r \<in> set graph. length r \<le> ?mx)"
  proof
    have "fold max ls m < 2 ^ 32" if "\<forall>l \<in> set ls. l < 2 ^ 32" "m < 2 ^ 32" for ls and m :: nat
      using that by (induction ls arbitrary: m) auto
    from this [of "map length graph" 0] show "?mx < 2 ^ 32" using assms(2) by simp
    show "\<forall>r \<in> set graph. length r \<le> ?mx" using fold_max_ge_elem by (metis image_eqI list.set_map)
  qed
  moreover have "R' = (if unat R \<noteq> ?mx then of_nat ?mx else R)"
    using assms(1) by (simp add: check_degree_def Let_def split: if_splits)
  ultimately show ?thesis by (auto simp: unat_of_nat32)
qed

lemma load32s_length: "load32s m off n = Inr ws \<Longrightarrow> length ws = n"
  by (simp add: load32s_def rmap_eq_Inr)

lemma vamana_loop_shape:
  assumes "vamana_loop f expected pos nodes graph = Inr graph'" and "\<forall>r \<in> set graph. length r < 2 ^ 32"
  shows "length graph' = length graph \<and> (\<forall>r \<in> set graph'. length r < 2 ^ 32)"
  using assms
proof (induction f expected pos nodes graph rule: vamana_loop.induct)
  case (1 f expected pos nodes graph)
  show ?case
  proof (cases "pos = expected")
    case True
    with 1(2,3) show ?thesis by (subst (asm) vamana_loop.simps) simp
  next
    case False
    let ?k = "le_word (slice f pos 4) :: u32"
    from 1(2) False obtain bs tmp where s: "\<not> length f < pos + 4" "read_throw f (pos + 4) (4 * unat ?k) = Inr bs"
      "load32s bs 0 (unat ?k) = Inr tmp" "nodes < length graph"
      "vamana_loop f expected (pos + 4 * (unat ?k + 1)) (nodes + 1) (graph[nodes := tmp]) = Inr graph'"
      by (subst (asm) vamana_loop.simps) (auto simp: Let_def rbind_eq_Inr rput_eq_Inr split: if_splits)
    have "\<forall>r \<in> set (graph[nodes := tmp]). length r < 2 ^ 32"
      using 1(3) load32s_length [OF s(3)] unat32_bound [of ?k] set_update_subset_insert [of graph nodes tmp] by auto
    from 1(1) [OF False s(1) refl s(2,3) _ s(5) this] s(4) show ?thesis by (simp add: rput_eq_Inr)
  qed
qed

lemma load_graph_shape:
  assumes "load_vamana fs path n graph = Inr (graph', R, EP)" and "check_degree graph' R = Inr R'"
    and "\<forall>r \<in> set graph. length r < 2 ^ 32"
  shows "graph_shape n graph' R'"
proof -
  let ?g = "take n graph @ replicate (n - length graph) []"
  obtain f expected where "vamana_loop f expected 24 0 ?g = Inr graph'"
    using assms(1) by (auto simp: load_vamana_def rbind_eq_Inr)
  moreover have "\<forall>r \<in> set ?g. length r < 2 ^ 32" using assms(3) by (auto dest: in_set_takeD)
  ultimately have "length graph' = length ?g \<and> (\<forall>r \<in> set graph'. length r < 2 ^ 32)" by (rule vamana_loop_shape)
  then show ?thesis using check_degree_bound [OF assms(2)] by (auto simp: graph_shape_def)
qed

text \<open>
  C6: every load keeps the shape of the index: a graph that is there has as many lists as there are
  vectors, whichever was loaded first, and no list exceeds the degree bound that sizes the records.
\<close>

theorem loads_keep_shapes:
  assumes "index_shapes ix"
    and "load_base_data fresh para fs ix = Inr ix' \<or> load_base_graph para fs ix = Inr ix' \<or>
      load_learn_data fresh para fs ix = Inr ix' \<or> load_learn_graph para fs ix = Inr ix'"
  shows "index_shapes ix'"
proof -
  have base: "graph_shape (ix_base_num ix) (ix_base_graph ix) (ix_base_graph_R ix)"
    and learn: "graph_shape (ix_learn_num ix) (ix_learn_graph ix) (ix_learn_graph_R ix)"
    using assms(1) by (auto simp: index_shapes_def)
  from assms(2) consider "load_base_data fresh para fs ix = Inr ix'" | "load_base_graph para fs ix = Inr ix'" |
    "load_learn_data fresh para fs ix = Inr ix'" | "load_learn_graph para fs ix = Inr ix'" by blast
  then show ?thesis
  proof cases
    case 2
    then obtain path graph R EP R' where "load_vamana fs path (ix_base_num ix) (ix_base_graph ix) = Inr (graph, R, EP)"
      "check_degree graph R = Inr R'" "ix' = ix\<lparr>ix_base_graph := graph, ix_base_graph_R := R', ix_base_graph_EP := EP\<rparr>"
      by (auto simp: load_base_graph_def rbind_eq_Inr split: if_splits)
    with load_graph_shape graph_shape_rows [OF base] learn show ?thesis by (fastforce simp: index_shapes_def)
  next
    case 4
    then obtain path graph R EP R' where "load_vamana fs path (ix_learn_num ix) (ix_learn_graph ix) = Inr (graph, R, EP)"
      "check_degree graph R = Inr R'" "ix' = ix\<lparr>ix_learn_graph := graph, ix_learn_graph_R := R', ix_learn_graph_EP := EP\<rparr>"
      by (auto simp: load_learn_graph_def rbind_eq_Inr split: if_splits)
    with load_graph_shape graph_shape_rows [OF learn] base show ?thesis by (fastforce simp: index_shapes_def)
  qed (use base learn in \<open>auto simp: index_shapes_def graph_shape_def load_base_data_def load_learn_data_def rbind_eq_Inr split: if_splits\<close>)
qed

text \<open>A file of one vector of dimension 1.\<close>

theorem loads_keep_shapes_witness:
  "\<exists>ix'. load_base_data (\<lambda>n. []) (para_set_str ''file_format'' ''bin'' (para_set_str ''base_file'' ''base'' Map.empty))
     (Map.empty(''base'' \<mapsto> le_bytes 4 (1 :: u32) @ le_bytes 4 (1 :: u32) @ bytes32s [5])) index_new = Inr ix' \<and> index_shapes ix'"
proof -
  let ?p = "para_set_str ''file_format'' ''bin'' (para_set_str ''base_file'' ''base'' Map.empty)"
  let ?fs = "Map.empty(''base'' \<mapsto> le_bytes 4 (1 :: u32) @ le_bytes 4 (1 :: u32) @ bytes32s [5]) :: files"
  have "para_str ?p ''file_format'' = Inr ''bin''" "para_str ?p ''base_file'' = Inr ''base''"
    using convert_plain [of "''bin''"] convert_plain [of "''base''"]
    by (simp_all add: para_str_def para_find_def para_set_str_def plain_text_def str_bytes_def is_space_def)
  moreover have "read_data (\<lambda>n. []) ?fs ''base'' ''bin'' = Inr (1, 1, [5])"
    by (simp add: read_data_def read_data_bin_def open_read_def load32_def load32s_def load_def slice_def le_word_bytes bytes32s_def)
  ultimately obtain ix' where r: "load_base_data (\<lambda>n. []) ?p ?fs index_new = Inr ix'" by (auto simp: load_base_data_def index_new_def)
  have "index_shapes index_new" by (simp add: index_shapes_def graph_shape_def index_new_def)
  from loads_keep_shapes [OF this disjI1 [OF r]] r show ?thesis by blast
qed

end
