(* ===== verification/DeployProps.thy ===== *)
theory DeployProps
  imports Deploy DistProps
begin

text \<open>
  From the generated index to the answer of a server: the partitioned index is saved, every server loads
  its part, and a search on any of them gives what the search on the single machine gives.
\<close>

section \<open>A loaded index\<close>

text \<open>The search reads only fields that are saved.\<close>

lemma search_served:
  "search_base_index_distributed vb (served ix ix0) dcmp near pq_dist fuel tid sc query K lir 0 relax gs
   = search_base_index_distributed vb ix dcmp near pq_dist fuel tid sc query K lir 0 relax gs"
proof -
  have "elem_entries (served ix ix0) = elem_entries ix" "elem_vec (served ix ix0) = elem_vec ix" "elem_label (served ix ix0) = elem_label ix"
    by (simp_all add: fun_eq_iff elem_entries_def elem_vec_def elem_label_def served_def)
  then have "store_ops vb (served ix ix0) tid = store_ops vb ix tid" by (simp add: store_ops_def)
  moreover have "entry_items (served ix ix0) lir 0 = entry_items ix lir 0" by (simp add: entry_items_def served_def)
  ultimately show ?thesis by (simp add: search_base_index_distributed_def search_distributed_def)
qed

lemma generated_savable:
  assumes ok: "part_input_ok ix k" and bb: "bkt_built ix k bb ix2" and size: "ix_element_size ix2 < 2 ^ 64"
  shows "savable ix2"
proof -
  have off: "ix_data_offset ix2 = 0" "ix_label_offset ix2 = 4 * ix_dimension ix2" "ix_neighbor_offset ix2 = 4 * ix_dimension ix2 + 4"
    using bb by (simp_all add: bkt_built_def bkt_repr_def bkt_offsets_def)
  have es: "ix_element_size ix2 = ix_dimension ix2 * 4 + 4 + (4 + unat (ix_base_graph_R ix) * 9)" using bb by (simp add: bkt_built_def)
  have num: "ix_base_num ix2 < 2 ^ 32" using ok bb by (simp add: bkt_built_def part_input_ok_def)
  have "earlier bb (ix_base_num ix) c < 2 ^ 64" for c
    using earlier_le [of bb "ix_base_num ix" c] num bb by (simp add: bkt_built_def)
  then have "\<forall>n \<in> set (ix_data_num ix2). n < 2 ^ 64" using bb by (auto simp: bkt_built_def)
  moreover have "\<forall>n \<in> set (take 7 (meta_fields ix2)). n < 2 ^ 64"
    using num size off es bb by (auto simp: meta_fields_def bkt_built_def)
  ultimately show ?thesis using bb es by (auto simp: savable_def bkt_built_def)
qed

section \<open>Properties\<close>

text \<open>
  The servers of a cluster after loading: server \<open>s\<close> started from memory \<open>mem s\<close>, large enough for its bucket,
  and has index \<open>ixs s\<close> and store \<open>gss s\<close>.
\<close>

definition cluster_loaded ::
    "params \<Rightarrow> files \<Rightarrow> index \<Rightarrow> (nat \<Rightarrow> byte list) \<Rightarrow> (nat \<Rightarrow> 'n dev list) \<Rightarrow> (nat \<Rightarrow> index) \<Rightarrow> (nat \<Rightarrow> 'n gstore) \<Rightarrow> bool" where
  "cluster_loaded para fs ix mem devs ixs gss \<longleftrightarrow> (\<forall>s < ix_bucket_count ix. length (ix_buckets ix ! s) \<le> length (mem s) \<and>
     load_base_index_distributed para (ix_bucket_count ix) True (devs s) fs s (mem s) index_new = Inr (ixs s, gss s))"

lemma cluster_loads:
  assumes ok: "savable ix" and prefix: "para_str para ''filename_prefix'' = Inr prefix"
    and count: "para_num 64 para ''bucket_count'' = Inr (ix_bucket_count ix)"
    and save: "save_base_index_on_buckets para fs ix = Inr fs'" and load: "cluster_loaded para fs' ix mem devs ixs gss"
    and s: "s < ix_bucket_count ix"
  shows "ixs s = served ix index_new" "gss s = server_store (\<lambda>s. gs_kv (gss s)) ix s (devs s)"
    "take (length (ix_buckets ix ! s)) (gs_kv (gss s)) = ix_buckets ix ! s"
proof -
  have new: "ix_base_to_lid index_new = []" "ix_data_num index_new = []" by (simp_all add: index_new_def)
  have room: "length (ix_buckets ix ! s) \<le> length (mem s)"
    and run: "load_base_index_distributed para (ix_bucket_count ix) True (devs s) fs' s (mem s) index_new = Inr (ixs s, gss s)"
    using load s by (auto simp: cluster_loaded_def)
  from loads_saved [OF ok prefix count s room new, of fs True "devs s"] save run
  have r: "ixs s = served ix index_new" "gss s = gs_new s (ix_bucket_count ix) True
      (ix_buckets ix ! s @ drop (length (ix_buckets ix ! s)) (mem s)) (ix_element_size ix) (devs s)" by auto
  have n: "length (ix_buckets ix) = ix_bucket_count ix" using ok by (simp add: savable_def)
  have kv: "gs_kv (gss s) = ix_buckets ix ! s @ drop (length (ix_buckets ix ! s)) (mem s)" unfolding r(2) by (simp add: gs_new_def)
  show "ixs s = served ix index_new" by (rule r(1))
  show "gss s = server_store (\<lambda>s. gs_kv (gss s)) ix s (devs s)" unfolding server_store_def kv n by (rule r(2))
  show "take (length (ix_buckets ix ! s)) (gs_kv (gss s)) = ix_buckets ix ! s" unfolding kv by simp
qed


text \<open>Two vertices on two servers.\<close>

definition two_para :: params where
  "two_para = para_set_str ''filename_prefix'' ''part'' (para_set_num ''bucket_count'' 2 Map.empty)"

lemma two_para: "para_str two_para ''filename_prefix'' = Inr ''part''" "para_num 64 two_para ''bucket_count'' = Inr 2"
  using convert_plain [of "''part''"] convert_number [of 2 64]
  by (simp_all add: two_para_def para_str_def para_num_def para_find_def para_set_str_def para_set_num_def plain_text_def
      str_bytes_def is_space_def)

lemma two_loaded:
  assumes bb: "bkt_built tiny_part 2 bb ix2"
  shows "\<exists>fs' ixs gss. save_base_index_on_buckets two_para Map.empty ix2 = Inr fs' \<and>
    cluster_loaded two_para fs' ix2 (\<lambda>s. replicate 100 0) (\<lambda>s. duo_devs) ixs gss"
proof -
  have b: "ix_bucket_count ix2 = 2" "ix_element_size ix2 = 21" "ix_data_num ix2 = map (\<lambda>b. earlier bb 2 (of_nat b)) [0..<2]"
    "\<forall>b < 2. length (ix_buckets ix2 ! b) = ix_element_size ix2 * ix_data_num ix2 ! b"
    using bb by (simp_all add: bkt_built_def tiny_part_def tiny_index_def)
  have sv: "savable ix2" using generated_savable [OF tiny_part_ok bb] b(2) by simp
  have new: "ix_base_to_lid index_new = []" "ix_data_num index_new = []" by (simp_all add: index_new_def)
  have count: "para_num 64 two_para ''bucket_count'' = Inr (ix_bucket_count ix2)" using two_para(2) b(1) by simp
  have room: "length (ix_buckets ix2 ! s) \<le> length (replicate 100 (0 :: byte))" if "s < 2" for s
  proof -
    have "ix_data_num ix2 ! s \<le> 2" using that b(3) earlier_le [of bb 2 "of_nat s"] by simp
    then show ?thesis using b(2,4) that by simp
  qed
  have "\<forall>s < 2. \<exists>r. \<exists>fs'. save_base_index_on_buckets two_para Map.empty ix2 = Inr fs' \<and>
      load_base_index_distributed two_para (ix_bucket_count ix2) True duo_devs fs' s (replicate 100 0) index_new = Inr r"
  proof (intro allI impI)
    fix s :: nat assume s: "s < 2"
    then have "s < ix_bucket_count ix2" using b(1) by simp
    from loads_saved [OF sv two_para(1) count this room [OF s] new, of Map.empty True duo_devs] show "\<exists>r. \<exists>fs'. save_base_index_on_buckets two_para Map.empty ix2 = Inr fs' \<and>
      load_base_index_distributed two_para (ix_bucket_count ix2) True duo_devs fs' s (replicate 100 0) index_new = Inr r"
      by blast
  qed
  then obtain r where r: "\<And>s. s < 2 \<Longrightarrow> \<exists>fs'. save_base_index_on_buckets two_para Map.empty ix2 = Inr fs' \<and>
      load_base_index_distributed two_para (ix_bucket_count ix2) True duo_devs fs' s (replicate 100 0) index_new = Inr (r s)"
    by metis
  from r [of 0] obtain fs' where fs': "save_base_index_on_buckets two_para Map.empty ix2 = Inr fs'" by auto
  then have "cluster_loaded two_para fs' ix2 (\<lambda>s. replicate 100 0) (\<lambda>s. duo_devs) (fst \<circ> r) (snd \<circ> r)"
    unfolding cluster_loaded_def using r room b(1) by fastforce
  with fs' show ?thesis by blast
qed


end
