(* ===== verification/Hungary.thy ===== *)
theory Hungary
  imports Prelude "HOL-Library.Multiset"
begin

text \<open>
  The assignment of queries to buckets, \<open>include/hungary.h\<close>: the Hungarian method on an \<open>n \<times> n\<close> matrix of
  weights, by depth-first search for augmenting paths over the tight edges of two vectors of labels. The
  arrays of the code have \<open>MAXN\<close> places, of which \<open>n\<close> are used; they are lists of length \<open>n\<close> here. Values are
  C \<open>int\<close>s: an operation whose result does not fit is undefined there and the fault \<open>signed overflow\<close> here.
\<close>

section \<open>The state\<close>

definition MAXN :: nat where
  "MAXN = 100000"

definition i32 :: "int \<Rightarrow> int result" where
  "i32 x = (if - (2 ^ 31) \<le> x \<and> x < 2 ^ 31 then Inr x else Inl (Runtime_Error ''signed overflow''))"

lemma i32_ok [simp]: "- (2 ^ 31) \<le> x \<Longrightarrow> x < 2 ^ 31 \<Longrightarrow> i32 x = Inr x"
  by (simp add: i32_def)

record hung =
  h_lx :: "int list"
  h_ly :: "int list"
  h_sx :: "bool list"
  h_sy :: "bool list"
  h_match :: "int list"

definition weight_at :: "int list list \<Rightarrow> nat \<Rightarrow> nat \<Rightarrow> int result" where
  "weight_at w i j = rbind (rget w i) (\<lambda>r. rget r j)"

definition int_index :: "int \<Rightarrow> nat result" where
  "int_index i = (if 0 \<le> i then Inr (nat i) else Inl Out_Of_Bounds)"

section \<open>The search\<close>

text \<open>\<open>dfs\<close> and its loop over the right-hand side; the fuel bounds the depth of the recursion.\<close>

function (sequential) dfs :: "nat \<Rightarrow> int list list \<Rightarrow> nat \<Rightarrow> nat \<Rightarrow> hung \<Rightarrow> (bool \<times> hung) result"
  and dfs_loop :: "nat \<Rightarrow> int list list \<Rightarrow> nat \<Rightarrow> nat \<Rightarrow> nat list \<Rightarrow> hung \<Rightarrow> (bool \<times> hung) result" where
  "dfs 0 w n u st = Inl Out_Of_Fuel"
| "dfs (Suc k) w n u st =
     rbind (rput (h_sx st) u True) (\<lambda>sx. dfs_loop k w n u [0..<n] (st\<lparr>h_sx := sx\<rparr>))"
| "dfs_loop k w n u [] st = Inr (False, st)"
| "dfs_loop k w n u (v # vs) st =
     rbind (rget (h_sy st) v) (\<lambda>seen.
     if seen then dfs_loop k w n u vs st
     else rbind (rget (h_lx st) u) (\<lambda>a. rbind (rget (h_ly st) v) (\<lambda>b. rbind (i32 (a + b)) (\<lambda>s. rbind (weight_at w u v) (\<lambda>c.
       if s \<noteq> c then dfs_loop k w n u vs st
       else let st = st\<lparr>h_sy := (h_sy st)[v := True]\<rparr> in
         rbind (rget (h_match st) v) (\<lambda>m.
         rbind (if m = -1 then Inr (True, st) else rbind (int_index m) (\<lambda>x. dfs k w n x st)) (\<lambda>(found, st).
         if found then Inr (True, st\<lparr>h_match := (h_match st)[v := int u]\<rparr>)
         else dfs_loop k w n u vs st)))))))"
  by pat_completeness auto
termination
  by (relation "measures [\<lambda>x. case x of Inl (k, _) \<Rightarrow> 2 * k | Inr (k, _) \<Rightarrow> 2 * k + 1,
      \<lambda>x. case x of Inl _ \<Rightarrow> 0 | Inr (k, w, n, u, vs, st) \<Rightarrow> length vs]") auto

text \<open>The least slack between what was reached on the left and what was not on the right.\<close>

definition slack_min :: "int list list \<Rightarrow> nat \<Rightarrow> hung \<Rightarrow> int result" where
  "slack_min w n st =
     rfold (\<lambda>i dx. rbind (rget (h_sx st) i) (\<lambda>s.
       if \<not> s then Inr dx
       else rfold (\<lambda>j dx. rbind (rget (h_sy st) j) (\<lambda>t.
         if t then Inr dx
         else rbind (rget (h_lx st) i) (\<lambda>a. rbind (rget (h_ly st) j) (\<lambda>b. rbind (i32 (a + b)) (\<lambda>ab.
           rbind (weight_at w i j) (\<lambda>c. rbind (i32 (ab - c)) (\<lambda>d. Inr (min d dx)))))))) [0..<n] dx)) [0..<n] 0x7FFFFFFF"

definition relabel :: "nat \<Rightarrow> int \<Rightarrow> hung \<Rightarrow> hung result" where
  "relabel n dx st =
     rfold (\<lambda>i st.
       rbind (rget (h_sx st) i) (\<lambda>s.
       rbind (if s then rbind (rget (h_lx st) i) (\<lambda>a. rbind (i32 (a - dx)) (\<lambda>a. Inr (st\<lparr>h_lx := (h_lx st)[i := a]\<rparr>))) else Inr st) (\<lambda>st.
       rbind (rget (h_sy st) i) (\<lambda>t.
       if t then rbind (rget (h_ly st) i) (\<lambda>b. rbind (i32 (b + dx)) (\<lambda>b. Inr (st\<lparr>h_ly := (h_ly st)[i := b]\<rparr>))) else Inr st))))
       [0..<n] st"

text \<open>\<open>while (true)\<close> for one vertex: search, and change the labels when it fails.\<close>

fun augment :: "nat \<Rightarrow> int list list \<Rightarrow> nat \<Rightarrow> nat \<Rightarrow> hung \<Rightarrow> hung result" where
  "augment 0 w n u st = Inl Out_Of_Fuel"
| "augment (Suc k) w n u st =
     rbind (dfs (n + 1) w n u (st\<lparr>h_sx := replicate n False, h_sy := replicate n False\<rparr>)) (\<lambda>(found, st).
     if found then Inr st
     else rbind (slack_min w n st) (\<lambda>dx. rbind (relabel n dx st) (augment k w n u)))"

definition first_labels :: "int list list \<Rightarrow> nat \<Rightarrow> int list result" where
  "first_labels w n = rmap (\<lambda>i. rfold (\<lambda>j a. rbind (weight_at w i j) (\<lambda>c. Inr (if a < c then c else a))) [0..<n] (- 0x1FFFFFFF)) [0..<n]"

definition negate :: "int list list \<Rightarrow> int list list result" where
  "negate w = rmap (rmap (\<lambda>x. i32 (- x))) w"

text \<open>The weights come back as they were; the third component is \<open>match\<close>.\<close>

definition HungaryMatch :: "bool \<Rightarrow> int list list \<Rightarrow> nat \<Rightarrow> (int \<times> int list list \<times> int list) result" where
  "HungaryMatch maxsum w n =
     rbind (if maxsum then Inr w else negate w) (\<lambda>w.
     rbind (first_labels w n) (\<lambda>lx.
     let st = \<lparr>h_lx = lx, h_ly = replicate n 0, h_sx = replicate n False, h_sy = replicate n False, h_match = replicate n (-1)\<rparr> in
     rbind (rfold (augment (n + 1) w n) [0..<n] st) (\<lambda>st.
     rbind (rfold (\<lambda>i s. rbind (rget (h_match st) i) (\<lambda>m. rbind (int_index m) (\<lambda>x. rbind (weight_at w x i) (\<lambda>c. i32 (s + c)))))
        [0..<n] 0) (\<lambda>s.
     if maxsum then Inr (s, w, h_match st)
     else rbind (i32 (- s)) (\<lambda>s. rbind (negate w) (\<lambda>w. Inr (s, w, h_match st)))))))"

text \<open>
  \<open>MaximumWeightMatch\<close>: every bucket is repeated until there is a slot per query. \<open>to_float\<close> is the conversion
  of an integer to \<open>float\<close>.
\<close>

definition MaximumWeightMatch ::
    "(int \<Rightarrow> 'f) \<Rightarrow> u32 list list \<Rightarrow> u32 list \<Rightarrow> 'f list \<Rightarrow> (u32 list \<times> 'f list) result" where
  "MaximumWeightMatch to_float data_affinity learn_in_bucket learn_local_ratio =
     rbind (rget data_affinity 0) (\<lambda>row.
     let n = length data_affinity; bucket_count = length row in
     rbind (require (n \<le> MAXN) (Runtime_Error ''HungaryMatch Error: n > MAXN'')) (\<lambda>_.
     rbind (require (bucket_count \<noteq> 0) (Runtime_Error ''division by zero'')) (\<lambda>_.
     rbind (rmap (\<lambda>q. rmap (\<lambda>slot. rbind (rget data_affinity q) (\<lambda>r. rbind (rget r (slot mod bucket_count)) (\<lambda>a. Inr (sint a))))
        [0..<n]) [0..<n]) (\<lambda>w.
     rbind (HungaryMatch True w n) (\<lambda>(ans, w, mt).
     rfold (\<lambda>slot (lb, lr).
       rbind (rget mt slot) (\<lambda>qid.
       if qid = -1 then Inl (Runtime_Error ''HungaryMatch Error'')
       else rbind (int_index qid) (\<lambda>q.
         rbind (rput lb q (of_nat (slot mod bucket_count))) (\<lambda>lb.
         rbind (weight_at w q slot) (\<lambda>c.
         rbind (rput lr q (to_float c)) (\<lambda>lr.
         rbind (rget data_affinity q) (\<lambda>r. rbind (rget r (slot mod bucket_count)) (\<lambda>a.
         if to_float c \<noteq> to_float (uint a) then Inl (Runtime_Error ''HungaryMatch Error'') else Inr (lb, lr)))))))))
       [0..<n] (learn_in_bucket, learn_local_ratio))))))"

end
