(* ===== verification/HungaryDfs.thy ===== *)
theory HungaryDfs
  imports Hungary
begin

text \<open>
  What the depth-first search of \<open>include/hungary.h\<close> does: it ends, and either adds its root to the
  matching, along tight edges, or has marked exactly what alternating paths of tight edges reach.
\<close>

section \<open>Vocabulary\<close>

definition w_ok :: "int list list \<Rightarrow> nat \<Rightarrow> bool" where
  "w_ok w n \<longleftrightarrow> length w = n \<and> (\<forall>r \<in> set w. length r = n)"

lemma weight_at_ok [simp]: "w_ok w n \<Longrightarrow> i < n \<Longrightarrow> j < n \<Longrightarrow> weight_at w i j = Inr (w ! i ! j)"
  by (simp add: w_ok_def weight_at_def)

definition marks :: "bool list \<Rightarrow> nat set" where
  "marks bs = {i. i < length bs \<and> bs ! i}"

lemma marks_update: "i < length bs \<Longrightarrow> marks (bs[i := True]) = insert i (marks bs)"
  by (auto simp: marks_def nth_list_update)

lemma marks_bound: "marks bs \<subseteq> {..<length bs}"
  by (auto simp: marks_def)

lemma marks_none [simp]: "marks (replicate n False) = {}"
  by (auto simp: marks_def)

definition h_ok :: "nat \<Rightarrow> hung \<Rightarrow> bool" where
  "h_ok n st \<longleftrightarrow> length (h_lx st) = n \<and> length (h_ly st) = n \<and> length (h_sx st) = n \<and> length (h_sy st) = n \<and>
     length (h_match st) = n \<and> (\<forall>v < n. h_match st ! v = -1 \<or> 0 \<le> h_match st ! v \<and> h_match st ! v < int n) \<and>
     (\<forall>u < n. \<forall>v < n. - (2 ^ 31) \<le> h_lx st ! u + h_ly st ! v \<and> h_lx st ! u + h_ly st ! v < 2 ^ 31)"

definition tight :: "int list list \<Rightarrow> hung \<Rightarrow> nat \<Rightarrow> nat \<Rightarrow> bool" where
  "tight w st u v \<longleftrightarrow> h_lx st ! u + h_ly st ! v = w ! u ! v"

text \<open>From left to left: over a tight edge and back along the matching.\<close>

definition hop :: "int list list \<Rightarrow> nat \<Rightarrow> hung \<Rightarrow> nat \<Rightarrow> nat \<Rightarrow> bool" where
  "hop w n st u x \<longleftrightarrow> (\<exists>v < n. tight w st u v \<and> h_match st ! v = int x)"

definition reaches :: "int list list \<Rightarrow> nat \<Rightarrow> hung \<Rightarrow> nat \<Rightarrow> nat \<Rightarrow> bool" where
  "reaches w n st = (hop w n st)\<^sup>*\<^sup>*"

definition in_play :: "int list \<Rightarrow> int list" where
  "in_play m = filter (\<lambda>x. x \<noteq> -1) m"

text \<open>States that differ in the marks only.\<close>

definition same_but_marks :: "hung \<Rightarrow> hung \<Rightarrow> bool" where
  "same_but_marks st st' \<longleftrightarrow> h_lx st' = h_lx st \<and> h_ly st' = h_ly st \<and> h_match st' = h_match st \<and>
     length (h_sx st') = length (h_sx st) \<and> length (h_sy st') = length (h_sy st) \<and>
     marks (h_sx st) \<subseteq> marks (h_sx st') \<and> marks (h_sy st) \<subseteq> marks (h_sy st')"

lemma same_but_marks_facts:
  assumes "same_but_marks st st'"
  shows "h_ok n st' = h_ok n st" "tight w st' = tight w st" "hop w n st' = hop w n st" "reaches w n st' = reaches w n st"
proof -
  show "h_ok n st' = h_ok n st" "tight w st' = tight w st" and h: "hop w n st' = hop w n st"
    using assms by (auto simp: same_but_marks_def h_ok_def tight_def hop_def fun_eq_iff)
  show "reaches w n st' = reaches w n st" by (simp add: reaches_def h)
qed

lemma same_but_marks_trans: "same_but_marks st st' \<Longrightarrow> same_but_marks st' st'' \<Longrightarrow> same_but_marks st st''"
  by (auto simp: same_but_marks_def)

text \<open>A failed search from \<open>u\<close> over the right vertices \<open>vs\<close>.\<close>

definition failed :: "int list list \<Rightarrow> nat \<Rightarrow> nat \<Rightarrow> nat list \<Rightarrow> hung \<Rightarrow> hung \<Rightarrow> bool" where
  "failed w n u vs st st' \<longleftrightarrow> same_but_marks st st' \<and>
     (\<forall>x \<in> marks (h_sx st') - marks (h_sx st). reaches w n st u x \<and> (\<forall>v < n. tight w st x v \<longrightarrow> v \<in> marks (h_sy st'))) \<and>
     (\<forall>v \<in> marks (h_sy st') - marks (h_sy st). (\<exists>x. reaches w n st u x \<and> tight w st x v) \<and>
        h_match st ! v \<noteq> -1 \<and> nat (h_match st ! v) \<in> marks (h_sx st')) \<and>
     (\<forall>v \<in> set vs. tight w st u v \<longrightarrow> v \<in> marks (h_sy st'))"

text \<open>A successful one: \<open>u\<close> joins the matching; only right vertices marked on the way change their partner.\<close>

definition grown :: "int list list \<Rightarrow> nat \<Rightarrow> nat \<Rightarrow> hung \<Rightarrow> hung \<Rightarrow> bool" where
  "grown w n u st st' \<longleftrightarrow> h_ok n st' \<and> h_lx st' = h_lx st \<and> h_ly st' = h_ly st \<and> marks (h_sy st) \<subseteq> marks (h_sy st') \<and>
     (\<forall>v \<in> marks (h_sy st). h_match st' ! v = h_match st ! v) \<and>
     mset (in_play (h_match st')) = add_mset (int u) (mset (in_play (h_match st))) \<and>
     (\<forall>v < n. h_match st' ! v \<noteq> h_match st ! v \<longrightarrow> 0 \<le> h_match st' ! v \<and> tight w st (nat (h_match st' ! v)) v)"

definition outcome :: "int list list \<Rightarrow> nat \<Rightarrow> nat \<Rightarrow> nat list \<Rightarrow> hung \<Rightarrow> (bool \<times> hung) result \<Rightarrow> bool" where
  "outcome w n u vs st r \<longleftrightarrow> (\<exists>found st'. r = Inr (found, st') \<and> (if found then grown w n u st st' else failed w n u vs st st'))"

definition unseen :: "nat \<Rightarrow> hung \<Rightarrow> nat" where
  "unseen n st = card ({..<n} - marks (h_sy st))"

section \<open>Updating the matching\<close>

lemma mset_in_play_update:
  assumes "v < length m"
  shows "add_mset (m ! v) (mset (m[v := x])) = add_mset x (mset m)"
  using assms by (simp add: mset_update)

lemma in_play_mset: "mset (in_play m) = filter_mset (\<lambda>x. x \<noteq> -1) (mset m)"
  by (simp add: in_play_def)

lemma in_play_new:
  assumes "v < length m" and "m ! v = -1" and "x \<noteq> -1"
  shows "mset (in_play (m[v := x])) = add_mset x (mset (in_play m))"
proof -
  have "filter_mset (\<lambda>x. x \<noteq> -1) (add_mset (m ! v) (mset (m[v := x]))) = filter_mset (\<lambda>x. x \<noteq> -1) (add_mset x (mset m))"
    by (simp only: mset_in_play_update [OF assms(1)])
  then show ?thesis using assms by (simp add: in_play_mset)
qed

lemma in_play_swap:
  assumes "v < length m" and "m ! v = y" and "y \<noteq> -1" and "x \<noteq> -1"
    and "mset (in_play m) = add_mset y M"
  shows "mset (in_play (m[v := x])) = add_mset x M"
proof -
  have "filter_mset (\<lambda>x. x \<noteq> -1) (add_mset (m ! v) (mset (m[v := x]))) = filter_mset (\<lambda>x. x \<noteq> -1) (add_mset x (mset m))"
    by (simp only: mset_in_play_update [OF assms(1)])
  then show ?thesis using assms by (simp add: in_play_mset add_mset_commute)
qed

section \<open>The loop\<close>

lemma failed_skip: "(tight w st u v \<Longrightarrow> v \<in> marks (h_sy st')) \<Longrightarrow> failed w n u vs st st' \<Longrightarrow> failed w n u (v # vs) st st'"
  by (simp add: failed_def)

text \<open>Two failed searches, one after the other: \<open>v\<close> and what its partner \<open>x\<close> reaches, then the rest of the loop.\<close>

lemma failed_seq:
  assumes u: "tight w st u v" "v < n" "h_match st ! v = int x" and sy: "length (h_sy st) = n"
    and a: "failed w n x [0..<n] (st\<lparr>h_sy := (h_sy st)[v := True]\<rparr>) st1" and x: "x \<in> marks (h_sx st1)"
    and b: "failed w n u vs st1 st2"
  shows "failed w n u (v # vs) st st2"
proof -
  let ?st = "st\<lparr>h_sy := (h_sy st)[v := True]\<rparr>"
  have sy': "marks (h_sy ?st) = insert v (marks (h_sy st))" using u(2) sy by (simp add: marks_update)
  have s0: "same_but_marks st ?st" using sy' by (auto simp: same_but_marks_def)
  have s1: "same_but_marks ?st st1" and s2: "same_but_marks st1 st2" using a b by (simp_all add: failed_def)
  note s01 = same_but_marks_trans [OF s0 s1]
  note s02 = same_but_marks_trans [OF s01 s2]
  note eq0 = same_but_marks_facts(2,4) [OF s0] and eq1 = same_but_marks_facts(2,4) [OF s01]
  have m: "h_match st1 = h_match st" "h_match ?st = h_match st" using s01 by (simp_all add: same_but_marks_def)
  have "hop w n st u x" using u by (auto simp: hop_def)
  then have via: "reaches w n st u y" if "reaches w n st x y" for y
    using that unfolding reaches_def by (rule converse_rtranclp_into_rtranclp)
  have refl: "reaches w n st u u" by (simp add: reaches_def)
  have mono: "marks (h_sx st1) \<subseteq> marks (h_sx st2)" "marks (h_sy st1) \<subseteq> marks (h_sy st2)" "v \<in> marks (h_sy st2)"
    using s1 s2 sy' by (auto simp: same_but_marks_def)
  have A: "reaches w n st x y \<and> (\<forall>v < n. tight w st y v \<longrightarrow> v \<in> marks (h_sy st1))" if "y \<in> marks (h_sx st1) - marks (h_sx st)" for y
    using a that unfolding failed_def eq0 by simp
  have A': "(\<exists>y. reaches w n st x y \<and> tight w st y z) \<and> h_match st ! z \<noteq> -1 \<and> nat (h_match st ! z) \<in> marks (h_sx st1)"
    if "z \<in> marks (h_sy st1) - marks (h_sy ?st)" for z
    using a that unfolding failed_def eq0 m(2) by blast
  have B: "reaches w n st u y \<and> (\<forall>v < n. tight w st y v \<longrightarrow> v \<in> marks (h_sy st2))" if "y \<in> marks (h_sx st2) - marks (h_sx st1)" for y
    using b that unfolding failed_def eq1 by simp
  have B': "(\<exists>y. reaches w n st u y \<and> tight w st y z) \<and> h_match st ! z \<noteq> -1 \<and> nat (h_match st ! z) \<in> marks (h_sx st2)"
    if "z \<in> marks (h_sy st2) - marks (h_sy st1)" for z
    using b that unfolding failed_def eq1 m(1) by blast
  have B'': "\<forall>z \<in> set vs. tight w st u z \<longrightarrow> z \<in> marks (h_sy st2)" using b unfolding failed_def eq1 by simp
  show ?thesis
    unfolding failed_def
  proof (intro conjI ballI allI impI)
    show "same_but_marks st st2" by (rule s02)
  next
    fix y assume "y \<in> marks (h_sx st2) - marks (h_sx st)"
    then consider "y \<in> marks (h_sx st1) - marks (h_sx st)" | "y \<in> marks (h_sx st2) - marks (h_sx st1)" by blast
    then show "reaches w n st u y" using A B via by cases blast+
  next
    fix y z assume "y \<in> marks (h_sx st2) - marks (h_sx st)" "z < n" "tight w st y z"
    then consider "y \<in> marks (h_sx st1) - marks (h_sx st)" | "y \<in> marks (h_sx st2) - marks (h_sx st1)" by blast
    then show "z \<in> marks (h_sy st2)" using A B mono(2) \<open>z < n\<close> \<open>tight w st y z\<close> by cases blast+
  next
    fix z assume z: "z \<in> marks (h_sy st2) - marks (h_sy st)"
    have *: "(\<exists>x. reaches w n st u x \<and> tight w st x z) \<and> h_match st ! z \<noteq> -1 \<and> nat (h_match st ! z) \<in> marks (h_sx st2)"
    proof (cases "z = v")
      case True
      with refl u x mono(1) show ?thesis by auto
    next
      case False
      then consider "z \<in> marks (h_sy st1) - marks (h_sy ?st)" | "z \<in> marks (h_sy st2) - marks (h_sy st1)" using z sy' by blast
      then show ?thesis using A' B' via mono(1) by cases blast+
    qed
    then show "\<exists>x. reaches w n st u x \<and> tight w st x z" "h_match st ! z \<noteq> -1" "nat (h_match st ! z) \<in> marks (h_sx st2)" by auto
  next
    fix z assume "z \<in> set (v # vs)" "tight w st u z"
    then show "z \<in> marks (h_sy st2)" using B'' mono(3) by auto
  qed
qed

text \<open>A new place for \<open>u\<close>: \<open>v\<close> was free, or its partner found another.\<close>

lemma grown_free:
  assumes ok: "h_ok n st" and u: "u < n" and v: "v < n" "v \<notin> marks (h_sy st)" "h_match st ! v = -1" "tight w st u v"
  shows "grown w n u st (st\<lparr>h_sy := (h_sy st)[v := True], h_match := (h_match st)[v := int u]\<rparr>)"
proof -
  have len: "length (h_match st) = n" "length (h_sy st) = n" using ok by (simp_all add: h_ok_def)
  have "mset (in_play ((h_match st)[v := int u])) = add_mset (int u) (mset (in_play (h_match st)))"
    using v len by (intro in_play_new) simp_all
  then show ?thesis
    using assms len by (auto simp: grown_def h_ok_def marks_update nth_list_update)
qed

lemma grown_swap:
  assumes ok: "h_ok n st" and u: "u < n" and v: "v < n" "v \<notin> marks (h_sy st)" "h_match st ! v = int x" "tight w st u v"
    and g: "grown w n x (st\<lparr>h_sy := (h_sy st)[v := True]\<rparr>) st1"
  shows "grown w n u st (st1\<lparr>h_match := (h_match st1)[v := int u]\<rparr>)"
proof -
  let ?st = "st\<lparr>h_sy := (h_sy st)[v := True]\<rparr>"
  have len: "length (h_match st) = n" "length (h_sy st) = n" using ok by (simp_all add: h_ok_def)
  have sy: "marks (h_sy ?st) = insert v (marks (h_sy st))" using v len by (simp add: marks_update)
  have eq: "tight w ?st = tight w st" by (simp add: tight_def fun_eq_iff)
  have ok1: "h_ok n st1" "h_lx st1 = h_lx st" "h_ly st1 = h_ly st" using g by (simp_all add: grown_def)
  have sub: "insert v (marks (h_sy st)) \<subseteq> marks (h_sy st1)" using g unfolding grown_def sy by blast
  have keep: "\<forall>z \<in> insert v (marks (h_sy st)). h_match st1 ! z = h_match st ! z"
    using g unfolding grown_def sy by simp
  have ms: "mset (in_play (h_match st1)) = add_mset (int x) (mset (in_play (h_match st)))" using g by (simp add: grown_def)
  have new: "\<forall>z < n. h_match st1 ! z \<noteq> h_match st ! z \<longrightarrow> 0 \<le> h_match st1 ! z \<and> tight w st (nat (h_match st1 ! z)) z"
    using g unfolding grown_def eq by simp
  have len1: "length (h_match st1) = n" using ok1(1) by (simp add: h_ok_def)
  have "mset (in_play ((h_match st1)[v := int u])) = add_mset (int u) (mset (in_play (h_match st)))"
    by (rule in_play_swap [OF _ _ _ _ ms]) (use v len1 keep in simp_all)
  moreover have "h_ok n (st1\<lparr>h_match := (h_match st1)[v := int u]\<rparr>)"
    using ok1(1) u v(1) by (auto simp: h_ok_def nth_list_update)
  moreover have "\<forall>z \<in> marks (h_sy st). (h_match st1)[v := int u] ! z = h_match st ! z" using keep v(2) by (metis insertCI nth_list_update_neq)
  moreover have "\<forall>z < n. (h_match st1)[v := int u] ! z \<noteq> h_match st ! z \<longrightarrow>
      0 \<le> (h_match st1)[v := int u] ! z \<and> tight w st (nat ((h_match st1)[v := int u] ! z)) z"
    using new len1 v(1,4) by (auto simp: nth_list_update)
  ultimately show ?thesis using ok1 sub by (simp add: grown_def)
qed

text \<open>Success after a failed part.\<close>

lemma grown_after:
  assumes s: "same_but_marks st st1" and g: "grown w n u st1 st2"
  shows "grown w n u st st2"
proof -
  note eq = same_but_marks_facts(2) [OF s]
  have m: "h_lx st1 = h_lx st" "h_ly st1 = h_ly st" "h_match st1 = h_match st" "marks (h_sy st) \<subseteq> marks (h_sy st1)"
    using s by (simp_all add: same_but_marks_def)
  show ?thesis using g m unfolding grown_def eq by (simp add: subset_iff)
qed

lemma failed_Nil: "failed w n u [] st st"
  by (simp add: failed_def same_but_marks_def)

definition search_spec :: "nat \<Rightarrow> int list list \<Rightarrow> nat \<Rightarrow> bool" where
  "search_spec k w n \<longleftrightarrow> (\<forall>st u. h_ok n st \<longrightarrow> u < n \<longrightarrow> unseen n st < k \<longrightarrow>
     (\<exists>found st'. dfs k w n u st = Inr (found, st') \<and>
       (if found then grown w n u st st' else failed w n u [0..<n] st st' \<and> u \<in> marks (h_sx st'))))"

lemma unseen_mark:
  assumes "v < n" and "v \<notin> marks (h_sy st)" and "length (h_sy st) = n"
  shows "unseen n (st\<lparr>h_sy := (h_sy st)[v := True]\<rparr>) < unseen n st"
proof -
  have "{..<n} - marks ((h_sy st)[v := True]) \<subset> {..<n} - marks (h_sy st)" using assms by (auto simp: marks_update)
  then show ?thesis by (simp add: unseen_def psubset_card_mono)
qed

lemma unseen_mono: "same_but_marks st st' \<Longrightarrow> unseen n st' \<le> unseen n st"
  by (auto simp: unseen_def same_but_marks_def intro!: card_mono)

lemma loop_spec:
  assumes w: "w_ok w n" and IH: "search_spec k w n" and u: "u < n"
    and "h_ok n st" and "set vs \<subseteq> {..<n}" and "unseen n st \<le> k"
  shows "outcome w n u vs st (dfs_loop k w n u vs st)"
  using assms(4-)
proof (induction vs arbitrary: st)
  case Nil
  show ?case using failed_Nil by (auto simp: outcome_def)
next
  case (Cons v vs)
  note ok = Cons.prems(1)
  have v: "v < n" and len: "length (h_sy st) = n" "length (h_match st) = n" "u < length (h_lx st)" "v < length (h_ly st)"
    using Cons.prems ok u by (auto simp: h_ok_def)
  have i32: "i32 (h_lx st ! u + h_ly st ! v) = Inr (h_lx st ! u + h_ly st ! v)"
    using ok u v by (intro i32_ok) (simp_all add: h_ok_def)
  have rest: "outcome w n u vs st (dfs_loop k w n u vs st)" using Cons.IH [OF ok] Cons.prems by simp
  consider (skip) "v \<in> marks (h_sy st) \<or> \<not> tight w st u v" | (take) "v \<notin> marks (h_sy st)" "tight w st u v" by blast
  then show ?case
  proof cases
    case skip
    then have "dfs_loop k w n u (v # vs) st = dfs_loop k w n u vs st"
      using len v u i32 w by (auto simp: marks_def tight_def)
    moreover have "tight w st u v \<Longrightarrow> v \<in> marks (h_sy st')" if "failed w n u vs st st'" for st'
      using skip that by (auto simp: failed_def same_but_marks_def)
    ultimately show ?thesis using rest failed_skip unfolding outcome_def by (metis (full_types))
  next
    case take
    let ?st = "st\<lparr>h_sy := (h_sy st)[v := True]\<rparr>"
    have run: "dfs_loop k w n u (v # vs) st =
        rbind (if h_match st ! v = -1 then Inr (True, ?st) else rbind (int_index (h_match st ! v)) (\<lambda>x. dfs k w n x ?st)) (\<lambda>(found, st').
         if found then Inr (True, st'\<lparr>h_match := (h_match st')[v := int u]\<rparr>) else dfs_loop k w n u vs st')"
      using take len v u i32 w by (simp add: marks_def tight_def Let_def)
    show ?thesis
    proof (cases "h_match st ! v = -1")
      case True
      with grown_free [OF ok u v take(1) True take(2)] show ?thesis unfolding run outcome_def by auto
    next
      case False
      then have "0 \<le> h_match st ! v" "h_match st ! v < int n" using ok v by (auto simp: h_ok_def)
      then obtain x where x: "h_match st ! v = int x" "x < n" by (metis nat_0_le of_nat_less_iff)
      have ok': "h_ok n ?st" using ok by (simp add: h_ok_def)
      have "unseen n ?st < k" using unseen_mark [OF v take(1) len(1)] Cons.prems(3) by simp
      with IH ok' x(2) obtain found st1 where d: "dfs k w n x ?st = Inr (found, st1)"
        "if found then grown w n x ?st st1 else failed w n x [0..<n] ?st st1 \<and> x \<in> marks (h_sx st1)"
        unfolding search_spec_def by blast
      show ?thesis
      proof (cases found)
        case True
        with d have g: "grown w n x ?st st1" by simp
        from grown_swap [OF ok u v take(1) x(1) take(2) g] show ?thesis
          unfolding run outcome_def using d(1) x True by (auto simp: int_index_def)
      next
        case False
        with d have f: "failed w n x [0..<n] ?st st1" "x \<in> marks (h_sx st1)" by simp_all
        have s1: "same_but_marks ?st st1" using f(1) by (simp add: failed_def)
        have s0: "same_but_marks st ?st" using v len(1) by (auto simp: same_but_marks_def marks_update)
        note s01 = same_but_marks_trans [OF s0 s1]
        have ok1: "h_ok n st1" using same_but_marks_facts(1) [OF s01] ok by blast
        have "unseen n st1 \<le> k" using unseen_mono [OF s01, of n] Cons.prems(3) by simp
        then have "outcome w n u vs st1 (dfs_loop k w n u vs st1)" using Cons.IH [OF ok1] Cons.prems(2) by simp
        then obtain found' st2 where r: "dfs_loop k w n u vs st1 = Inr (found', st2)"
          "if found' then grown w n u st1 st2 else failed w n u vs st1 st2" by (auto simp: outcome_def)
        have "dfs_loop k w n u (v # vs) st = Inr (found', st2)"
          unfolding run using d(1) x False r(1) by (simp add: int_index_def)
        moreover have "if found' then grown w n u st st2 else failed w n u (v # vs) st st2"
          using r(2) grown_after [OF s01] failed_seq [OF take(2) v x(1) len(1) f] by simp
        ultimately show ?thesis by (auto simp: outcome_def)
      qed
    qed
  qed
qed

lemma dfs_spec:
  assumes w: "w_ok w n"
  shows "search_spec k w n"
proof (induction k)
  case 0
  show ?case by (simp add: search_spec_def)
next
  case (Suc k)
  show ?case
    unfolding search_spec_def
  proof (intro allI impI)
    fix st u assume ok: "h_ok n st" and u: "u < n" and seen: "unseen n st < Suc k"
    let ?st = "st\<lparr>h_sx := (h_sx st)[u := True]\<rparr>"
    have len: "length (h_sx st) = n" using ok by (simp add: h_ok_def)
    have s0: "same_but_marks st ?st" using u len by (auto simp: same_but_marks_def marks_update)
    have sx: "marks (h_sx ?st) = insert u (marks (h_sx st))" using u len by (simp add: marks_update)
    have "h_ok n ?st" "unseen n ?st \<le> k" using ok seen by (simp_all add: h_ok_def unseen_def)
    with loop_spec [OF w Suc.IH u, of ?st "[0..<n]"] obtain found st' where
      r: "dfs_loop k w n u [0..<n] ?st = Inr (found, st')" "if found then grown w n u ?st st' else failed w n u [0..<n] ?st st'"
      by (auto simp: outcome_def lessThan_atLeast0)
    have "failed w n u [0..<n] st st' \<and> u \<in> marks (h_sx st')" if f: "failed w n u [0..<n] ?st st'"
    proof -
      note eq = same_but_marks_facts(2,4) [OF s0]
      have s: "same_but_marks ?st st'" using f by (simp add: failed_def)
      have m: "u \<in> marks (h_sx st')" using s sx by (auto simp: same_but_marks_def)
      have "reaches w n st u u" by (simp add: reaches_def)
      then show ?thesis
        using f same_but_marks_trans [OF s0 s] m unfolding failed_def eq sx by auto
    qed
    then show "\<exists>found st'. dfs (Suc k) w n u st = Inr (found, st') \<and>
       (if found then grown w n u st st' else failed w n u [0..<n] st st' \<and> u \<in> marks (h_sx st'))"
      using r u len grown_after [OF s0] by auto
  qed
qed

end
