(* ===== verification/HungaryOpt.thy ===== *)
theory HungaryOpt
  imports HungaryDfs
begin

text \<open>
  The labels of the Hungarian method: they stay feasible and within range, every failed search makes one
  more vertex reachable, so a vertex is matched after at most \<open>n\<close> changes of the labels, and a full matching of
  tight edges is optimal.
\<close>

section \<open>The invariant\<close>

text \<open>The bound that the first labels start from.\<close>

abbreviation w_max :: int where "w_max \<equiv> 0x1FFFFFFF"

definition h_inv :: "int list list \<Rightarrow> nat \<Rightarrow> nat \<Rightarrow> hung \<Rightarrow> bool" where
  "h_inv w n u st \<longleftrightarrow> h_ok n st \<and>
     (\<forall>i < n. \<forall>j < n. w ! i ! j \<le> h_lx st ! i + h_ly st ! j) \<and>
     (\<forall>v < n. h_match st ! v \<noteq> -1 \<longrightarrow> tight w st (nat (h_match st ! v)) v) \<and>
     mset (in_play (h_match st)) = mset (map int [0..<u]) \<and>
     (\<forall>i < n. - w_max \<le> h_lx st ! i \<and> h_lx st ! i \<le> w_max) \<and>
     (\<forall>v < n. 0 \<le> h_ly st ! v \<and> h_ly st ! v \<le> 2 * w_max \<and> (h_match st ! v = -1 \<longrightarrow> h_ly st ! v = 0))"

definition w_small :: "int list list \<Rightarrow> nat \<Rightarrow> bool" where
  "w_small w n \<longleftrightarrow> (\<forall>i < n. \<forall>j < n. \<bar>w ! i ! j\<bar> \<le> w_max)"

text \<open>Before the last vertex is matched some right vertex is free.\<close>

lemma free_vertex:
  assumes inv: "h_inv w n u st" and u: "u < n"
  shows "\<exists>v < n. h_match st ! v = -1"
proof (rule ccontr)
  assume "\<not> (\<exists>v < n. h_match st ! v = -1)"
  then have "in_play (h_match st) = h_match st"
    using inv by (auto simp: in_play_def h_inv_def h_ok_def filter_id_conv in_set_conv_nth)
  moreover have "mset (in_play (h_match st)) = mset (map int [0..<u])" "length (h_match st) = n"
    using inv by (simp_all only: h_inv_def h_ok_def)
  ultimately have "n = u" by (metis length_map length_upt diff_zero size_mset)
  then show False using u by simp
qed

section \<open>Changing the labels\<close>

lemma slack_min_spec:
  assumes w: "w_ok w n" and small: "w_small w n" and inv: "h_inv w n u st"
  shows "\<exists>dx. slack_min w n st = Inr dx \<and>
    (\<forall>i \<in> marks (h_sx st). \<forall>j < n. j \<notin> marks (h_sy st) \<longrightarrow> dx \<le> h_lx st ! i + h_ly st ! j - w ! i ! j) \<and>
    (dx = 0x7FFFFFFF \<or> (\<exists>i \<in> marks (h_sx st). \<exists>j < n. j \<notin> marks (h_sy st) \<and> dx = h_lx st ! i + h_ly st ! j - w ! i ! j))"
proof -
  let ?d = "\<lambda>i j. h_lx st ! i + h_ly st ! j - w ! i ! j"
  have len: "length (h_lx st) = n" "length (h_ly st) = n" "length (h_sx st) = n" "length (h_sy st) = n"
    using inv by (simp_all add: h_inv_def h_ok_def)
  let ?g = "\<lambda>i j dx. rbind (rget (h_sy st) j) (\<lambda>t.
         if t then Inr dx
         else rbind (rget (h_lx st) i) (\<lambda>a. rbind (rget (h_ly st) j) (\<lambda>b. rbind (i32 (a + b)) (\<lambda>ab.
           rbind (weight_at w i j) (\<lambda>c. rbind (i32 (ab - c)) (\<lambda>d. Inr (min d dx)))))))"
  have step: "?g i j dx = Inr (if j \<in> marks (h_sy st) then dx else min (?d i j) dx)" if i: "i < n" and j: "j < n" for i j dx
  proof -
    have "- w_max \<le> h_lx st ! i" "h_lx st ! i \<le> w_max" "0 \<le> h_ly st ! j" "h_ly st ! j \<le> 2 * w_max" "\<bar>w ! i ! j\<bar> \<le> w_max"
      using inv small i j by (auto simp: h_inv_def w_small_def)
    then have "i32 (h_lx st ! i + h_ly st ! j) = Inr (h_lx st ! i + h_ly st ! j)" "i32 (?d i j) = Inr (?d i j)"
      by (intro i32_ok; simp)+
    then show ?thesis using i j len w by (simp add: marks_def)
  qed
  have row: "\<exists>dx'. rfold (?g i) [0..<n] dx = Inr dx' \<and> dx' \<le> dx \<and> (\<forall>j \<in> set [0..<n]. j \<notin> marks (h_sy st) \<longrightarrow> dx' \<le> ?d i j) \<and>
      (dx' = dx \<or> (\<exists>j < n. j \<notin> marks (h_sy st) \<and> dx' = ?d i j))" if i: "i < n" for i dx
  proof (rule rfold_invariant)
    fix ys j zs dx1
    assume s: "[0..<n] = ys @ j # zs" and P: "dx1 \<le> dx \<and> (\<forall>j \<in> set ys. j \<notin> marks (h_sy st) \<longrightarrow> dx1 \<le> ?d i j) \<and>
      (dx1 = dx \<or> (\<exists>j < n. j \<notin> marks (h_sy st) \<and> dx1 = ?d i j))"
    have j: "j < n" using upt_split [OF s] by simp
    show "\<exists>dx'. ?g i j dx1 = Inr dx' \<and> dx' \<le> dx \<and> (\<forall>j \<in> set (ys @ [j]). j \<notin> marks (h_sy st) \<longrightarrow> dx' \<le> ?d i j) \<and>
      (dx' = dx \<or> (\<exists>j < n. j \<notin> marks (h_sy st) \<and> dx' = ?d i j))"
      unfolding step [OF i j] using P j by (auto simp: min_def)
  qed simp
  let ?f = "\<lambda>i dx. rbind (rget (h_sx st) i) (\<lambda>s. if \<not> s then Inr dx else rfold (?g i) [0..<n] dx)"
  have "\<exists>dx. rfold ?f [0..<n] 0x7FFFFFFF = Inr dx \<and> (\<forall>i \<in> set [0..<n]. i \<in> marks (h_sx st) \<longrightarrow> (\<forall>j < n. j \<notin> marks (h_sy st) \<longrightarrow> dx \<le> ?d i j)) \<and>
      (dx = 0x7FFFFFFF \<or> (\<exists>i \<in> marks (h_sx st). \<exists>j < n. j \<notin> marks (h_sy st) \<and> dx = ?d i j))"
  proof (rule rfold_invariant)
    fix ys i zs dx1
    assume s: "[0..<n] = ys @ i # zs" and P: "(\<forall>i \<in> set ys. i \<in> marks (h_sx st) \<longrightarrow> (\<forall>j < n. j \<notin> marks (h_sy st) \<longrightarrow> dx1 \<le> ?d i j)) \<and>
      (dx1 = 0x7FFFFFFF \<or> (\<exists>i \<in> marks (h_sx st). \<exists>j < n. j \<notin> marks (h_sy st) \<and> dx1 = ?d i j))"
    have i: "i < n" using upt_split [OF s] by simp
    show "\<exists>dx. ?f i dx1 = Inr dx \<and> (\<forall>i \<in> set (ys @ [i]). i \<in> marks (h_sx st) \<longrightarrow> (\<forall>j < n. j \<notin> marks (h_sy st) \<longrightarrow> dx \<le> ?d i j)) \<and>
      (dx = 0x7FFFFFFF \<or> (\<exists>i \<in> marks (h_sx st). \<exists>j < n. j \<notin> marks (h_sy st) \<and> dx = ?d i j))"
    proof (cases "i \<in> marks (h_sx st)")
      case False
      then have "?f i dx1 = Inr dx1" using i len by (simp add: marks_def)
      with P False show ?thesis by auto
    next
      case True
      from row [OF i, of dx1] obtain dx2 where dx2: "rfold (?g i) [0..<n] dx1 = Inr dx2" "dx2 \<le> dx1"
        "\<forall>j \<in> set [0..<n]. j \<notin> marks (h_sy st) \<longrightarrow> dx2 \<le> ?d i j" "dx2 = dx1 \<or> (\<exists>j < n. j \<notin> marks (h_sy st) \<and> dx2 = ?d i j)" by blast
      have "?f i dx1 = Inr dx2" using i len True dx2(1) by (simp add: marks_def)
      moreover have "\<forall>i' \<in> set (ys @ [i]). i' \<in> marks (h_sx st) \<longrightarrow> (\<forall>j < n. j \<notin> marks (h_sy st) \<longrightarrow> dx2 \<le> ?d i' j)"
        using P dx2(2,3) by fastforce
      moreover have "dx2 = 0x7FFFFFFF \<or> (\<exists>i \<in> marks (h_sx st). \<exists>j < n. j \<notin> marks (h_sy st) \<and> dx2 = ?d i j)"
        using P dx2(4) True by blast
      ultimately show ?thesis by blast
    qed
  qed simp
  then obtain dx where dx: "rfold ?f [0..<n] 0x7FFFFFFF = Inr dx"
    "\<forall>i \<in> set [0..<n]. i \<in> marks (h_sx st) \<longrightarrow> (\<forall>j < n. j \<notin> marks (h_sy st) \<longrightarrow> dx \<le> ?d i j)"
    "dx = 0x7FFFFFFF \<or> (\<exists>i \<in> marks (h_sx st). \<exists>j < n. j \<notin> marks (h_sy st) \<and> dx = ?d i j)" by blast
  have "i \<in> set [0..<n]" if "i \<in> marks (h_sx st)" for i using that len marks_bound [of "h_sx st"] by auto
  with dx show ?thesis unfolding slack_min_def by (intro exI [of _ dx]) auto
qed

text \<open>The new labels.\<close>

definition shifted :: "nat \<Rightarrow> int \<Rightarrow> hung \<Rightarrow> hung" where
  "shifted k dx st = st\<lparr>h_lx := map (\<lambda>i. if i < k \<and> i \<in> marks (h_sx st) then h_lx st ! i - dx else h_lx st ! i) [0..<length (h_lx st)],
     h_ly := map (\<lambda>j. if j < k \<and> j \<in> marks (h_sy st) then h_ly st ! j + dx else h_ly st ! j) [0..<length (h_ly st)]\<rparr>"

lemma shifted_0: "shifted 0 dx st = st"
  by (simp add: shifted_def map_nth)

lemma relabel_spec:
  assumes len: "length (h_lx st) = n" "length (h_ly st) = n" "length (h_sx st) = n" "length (h_sy st) = n"
    and lx: "\<And>i. i \<in> marks (h_sx st) \<Longrightarrow> - (2 ^ 31) \<le> h_lx st ! i - dx \<and> h_lx st ! i - dx < 2 ^ 31"
    and ly: "\<And>j. j \<in> marks (h_sy st) \<Longrightarrow> - (2 ^ 31) \<le> h_ly st ! j + dx \<and> h_ly st ! j + dx < 2 ^ 31"
  shows "relabel n dx st = Inr (shifted n dx st)"
proof -
  let ?f = "\<lambda>i st. rbind (rget (h_sx st) i) (\<lambda>s.
       rbind (if s then rbind (rget (h_lx st) i) (\<lambda>a. rbind (i32 (a - dx)) (\<lambda>a. Inr (st\<lparr>h_lx := (h_lx st)[i := a]\<rparr>))) else Inr st) (\<lambda>st.
       rbind (rget (h_sy st) i) (\<lambda>t.
       if t then rbind (rget (h_ly st) i) (\<lambda>b. rbind (i32 (b + dx)) (\<lambda>b. Inr (st\<lparr>h_ly := (h_ly st)[i := b]\<rparr>))) else Inr st)))"
  have "rfold ?f [0..<k] st = Inr (shifted k dx st)" if "k \<le> n" for k
    using that
  proof (induction k)
    case 0
    show ?case by (simp add: shifted_0)
  next
    case (Suc k)
    let ?s = "shifted k dx st"
    have k: "k < n" using Suc.prems by simp
    have sel: "h_sx ?s = h_sx st" "h_sy ?s = h_sy st" "h_lx ?s ! k = h_lx st ! k" "h_ly ?s ! k = h_ly st ! k"
      "length (h_lx ?s) = n" "length (h_ly ?s) = n" using k len by (simp_all add: shifted_def)
    have lx': "h_lx (shifted (Suc k) dx st) = (if k \<in> marks (h_sx st) then (h_lx ?s)[k := h_lx st ! k - dx] else h_lx ?s)"
      using k len by (auto intro!: nth_equalityI simp: shifted_def nth_list_update less_Suc_eq)
    have ly': "h_ly (shifted (Suc k) dx st) = (if k \<in> marks (h_sy st) then (h_ly ?s)[k := h_ly st ! k + dx] else h_ly ?s)"
      using k len by (auto intro!: nth_equalityI simp: shifted_def nth_list_update less_Suc_eq)
    have "?f k ?s = Inr (?s\<lparr>h_lx := h_lx (shifted (Suc k) dx st), h_ly := h_ly (shifted (Suc k) dx st)\<rparr>)"
      using k len sel lx ly unfolding lx' ly' by (simp add: marks_def)
    moreover have "?s\<lparr>h_lx := h_lx (shifted (Suc k) dx st), h_ly := h_ly (shifted (Suc k) dx st)\<rparr> = shifted (Suc k) dx st"
      by (simp add: shifted_def)
    ultimately show ?case using Suc by (simp add: rfold_append)
  qed
  from this [of n] show ?thesis by (simp add: relabel_def)
qed

lemma shifted_at:
  assumes "length (h_lx st) = n" "length (h_ly st) = n"
  shows "i < n \<Longrightarrow> h_lx (shifted n dx st) ! i = (if i \<in> marks (h_sx st) then h_lx st ! i - dx else h_lx st ! i)"
    "j < n \<Longrightarrow> h_ly (shifted n dx st) ! j = (if j \<in> marks (h_sy st) then h_ly st ! j + dx else h_ly st ! j)"
    "h_match (shifted n dx st) = h_match st" "h_sx (shifted n dx st) = h_sx st" "h_sy (shifted n dx st) = h_sy st"
    "length (h_lx (shifted n dx st)) = n" "length (h_ly (shifted n dx st)) = n"
  using assms by (simp_all add: shifted_def)

section \<open>A failed search\<close>

definition reach_right :: "int list list \<Rightarrow> nat \<Rightarrow> hung \<Rightarrow> nat \<Rightarrow> nat set" where
  "reach_right w n st u = {v. v < n \<and> (\<exists>x. reaches w n st u x \<and> tight w st x v)}"

text \<open>From clear marks: the marks are what is reached.\<close>

lemma failed_marks:
  assumes f: "failed w n u [0..<n] st st'" and u: "u \<in> marks (h_sx st')" and clear: "marks (h_sx st) = {}" "marks (h_sy st) = {}"
    and ok: "h_ok n st"
  shows "marks (h_sy st') = reach_right w n st u" "reaches w n st u x \<Longrightarrow> x \<in> marks (h_sx st')"
    "x \<in> marks (h_sx st') \<Longrightarrow> v < n \<Longrightarrow> tight w st x v \<Longrightarrow> v \<in> marks (h_sy st')"
    "v \<in> marks (h_sy st') \<Longrightarrow> h_match st ! v \<noteq> -1 \<and> nat (h_match st ! v) \<in> marks (h_sx st')"
    "x \<in> marks (h_sx st') \<Longrightarrow> reaches w n st u x"
proof -
  have X: "reaches w n st u x \<and> (\<forall>v < n. tight w st x v \<longrightarrow> v \<in> marks (h_sy st'))" if "x \<in> marks (h_sx st')" for x
    using f that clear(1) unfolding failed_def by blast
  have Y: "(\<exists>x. reaches w n st u x \<and> tight w st x v) \<and> h_match st ! v \<noteq> -1 \<and> nat (h_match st ! v) \<in> marks (h_sx st')"
    if "v \<in> marks (h_sy st')" for v
    using f that clear(2) unfolding failed_def by blast
  have len: "length (h_sy st') = n" using f ok by (simp add: failed_def same_but_marks_def h_ok_def)
  have in_sx: "y \<in> marks (h_sx st')" if "reaches w n st u y" for y
    using that unfolding reaches_def
  proof (induction rule: rtranclp_induct)
    case base
    show ?case by (rule u)
  next
    case (step y z)
    then obtain v where "v < n" "tight w st y v" "h_match st ! v = int z" by (auto simp: hop_def)
    with X [OF step.IH] Y [of v] show ?case by simp
  qed
  show "marks (h_sy st') = reach_right w n st u"
    using X Y in_sx len marks_bound [of "h_sy st'"] unfolding reach_right_def by blast
  show "reaches w n st u x \<Longrightarrow> x \<in> marks (h_sx st')" by (rule in_sx)
  show "x \<in> marks (h_sx st') \<Longrightarrow> v < n \<Longrightarrow> tight w st x v \<Longrightarrow> v \<in> marks (h_sy st')" using X by blast
  show "v \<in> marks (h_sy st') \<Longrightarrow> h_match st ! v \<noteq> -1 \<and> nat (h_match st ! v) \<in> marks (h_sx st')" using Y by blast
  show "x \<in> marks (h_sx st') \<Longrightarrow> reaches w n st u x" using X by blast
qed

text \<open>After a failed search the labels change: the invariant stays, and more is reached.\<close>

lemma relabelled:
  assumes w: "w_ok w n" and small: "w_small w n" and inv: "h_inv w n u st" and u: "u < n"
    and f: "failed w n u [0..<n] st st'" and su: "u \<in> marks (h_sx st')" and clear: "marks (h_sx st) = {}" "marks (h_sy st) = {}"
  shows "\<exists>dx st2. slack_min w n st' = Inr dx \<and> relabel n dx st' = Inr st2 \<and> h_inv w n u st2 \<and>
    reach_right w n st u \<subset> reach_right w n st2 u"
proof -
  have ok: "h_ok n st" using inv by (simp add: h_inv_def)
  note F = failed_marks [OF f su clear ok]
  have s: "same_but_marks st st'" using f by (simp add: failed_def)
  note E = same_but_marks_facts [OF s]
  have eq: "h_lx st' = h_lx st" "h_ly st' = h_ly st" "h_match st' = h_match st" using s by (simp_all add: same_but_marks_def)
  let ?S = "marks (h_sx st')" and ?T = "marks (h_sy st')"
  have inv': "h_inv w n u st'" using inv eq E(1,2) by (simp add: h_inv_def)
  have len: "length (h_lx st') = n" "length (h_ly st') = n" "length (h_sx st') = n" "length (h_sy st') = n"
    using inv' by (simp_all add: h_inv_def h_ok_def)
  have S: "x < n" if "x \<in> ?S" for x using that marks_bound [of "h_sx st'"] len by auto
  have T: "x < n" if "x \<in> ?T" for x using that marks_bound [of "h_sy st'"] len by auto
  obtain v0 where v0: "v0 < n" "h_match st ! v0 = -1" using free_vertex [OF inv u] by blast
  then have v0T: "v0 \<notin> ?T" using F(4) by blast
  let ?d = "\<lambda>i j. h_lx st ! i + h_ly st ! j - w ! i ! j"
  have lab: "- w_max \<le> h_lx st ! i" "h_lx st ! i \<le> w_max" "\<bar>w ! i ! j\<bar> \<le> w_max" "0 \<le> ?d i j" "0 \<le> h_ly st ! j" "h_ly st ! j \<le> 2 * w_max"
    if "i < n" "j < n" for i j
    using inv small that by (auto simp: h_inv_def w_small_def)
  obtain dx where dx: "slack_min w n st' = Inr dx" "\<And>i j. i \<in> ?S \<Longrightarrow> j < n \<Longrightarrow> j \<notin> ?T \<Longrightarrow> dx \<le> ?d i j"
    "dx = 0x7FFFFFFF \<or> (\<exists>i \<in> ?S. \<exists>j < n. j \<notin> ?T \<and> dx = ?d i j)"
    using slack_min_spec [OF w small inv'] unfolding eq by blast
  have top: "dx \<le> ?d u v0" by (rule dx(2) [OF su v0(1) v0T])
  have "?d u v0 < 0x7FFFFFFF" using lab [OF u v0(1)] by linarith
  then obtain i0 j0 where ij: "i0 \<in> ?S" "j0 < n" "j0 \<notin> ?T" "dx = ?d i0 j0" using dx(3) top by auto
  have pos: "0 \<le> dx" using lab(4) [OF S [OF ij(1)] ij(2)] ij(4) by simp
  have ly0: "h_ly st ! v0 = 0" using inv v0 by (simp add: h_inv_def)
  have lx': "- w_max \<le> h_lx st ! i - dx" if "i \<in> ?S" for i
  proof -
    have "dx \<le> h_lx st ! i - w ! i ! v0" using dx(2) [OF that v0(1) v0T] ly0 by simp
    then show ?thesis using lab(3) [OF S [OF that] v0(1)] by linarith
  qed
  have mt: "tight w st (nat (h_match st ! v)) v" if "v \<in> ?T" for v using inv F(4) [OF that] T [OF that] by (auto simp: h_inv_def)
  have ly': "h_ly st ! v + dx \<le> 2 * w_max" if "v \<in> ?T" for v
  proof -
    let ?x = "nat (h_match st ! v)"
    have x: "?x \<in> ?S" using F(4) [OF that] by simp
    have "h_ly st ! v + dx = w ! ?x ! v - (h_lx st ! ?x - dx)" using mt [OF that] by (simp add: tight_def)
    then show ?thesis using lx' [OF x] lab(3) [OF S [OF x] T [OF that]] by linarith
  qed
  let ?st2 = "shifted n dx st'"
  have "relabel n dx st' = Inr ?st2"
  proof (rule relabel_spec [OF len])
    fix i assume "i \<in> ?S"
    then show "- (2 ^ 31) \<le> h_lx st' ! i - dx \<and> h_lx st' ! i - dx < 2 ^ 31"
      using lx' [of i] lab(2) [OF S v0(1), of i] pos unfolding eq by simp
  next
    fix j assume "j \<in> ?T"
    then show "- (2 ^ 31) \<le> h_ly st' ! j + dx \<and> h_ly st' ! j + dx < 2 ^ 31"
      using ly' [of j] lab(5) [OF u T, of j] pos unfolding eq by simp
  qed
  note at = shifted_at [where dx = dx, OF len(1,2), unfolded eq]
  have lxb: "- w_max \<le> h_lx ?st2 ! i \<and> h_lx ?st2 ! i \<le> w_max" if "i < n" for i
    using at(1) [OF that] lx' [of i] lab(1,2) [OF that v0(1)] pos by auto
  have lyb: "0 \<le> h_ly ?st2 ! v \<and> h_ly ?st2 ! v \<le> 2 * w_max \<and> (h_match st ! v = -1 \<longrightarrow> h_ly ?st2 ! v = 0)" if "v < n" for v
    using at(2) [OF that] ly' [of v] lab(5,6) [OF u that] pos F(4) [of v] inv that by (auto simp: h_inv_def)
  have kept: "tight w ?st2 x v \<longleftrightarrow> tight w st x v" if "x \<in> ?S \<longleftrightarrow> v \<in> ?T" "x < n" "v < n" for x v
    using at(1) [OF that(2)] at(2) [OF that(3)] that(1) by (auto simp: tight_def)
  have "h_inv w n u ?st2"
    unfolding h_inv_def at(3)
  proof (intro conjI allI impI)
    have "- (2 ^ 31) \<le> h_lx ?st2 ! i + h_ly ?st2 ! v \<and> h_lx ?st2 ! i + h_ly ?st2 ! v < 2 ^ 31" if "i < n" "v < n" for i v
      using lxb [OF that(1)] lyb [OF that(2)] by simp
    then show "h_ok n ?st2" using inv' at eq by (simp add: h_inv_def h_ok_def)
  next
    fix i j assume i: "i < n" and j: "j < n"
    show "w ! i ! j \<le> h_lx ?st2 ! i + h_ly ?st2 ! j"
      using at(1) [OF i] at(2) [OF j] lab(4) [OF i j] dx(2) [OF _ j, of i] pos by auto
  next
    fix v assume v: "v < n" "h_match st ! v \<noteq> -1"
    let ?x = "nat (h_match st ! v)"
    have t: "tight w st ?x v" and x: "?x < n" using inv v by (auto simp: h_inv_def h_ok_def)
    have "?x \<in> ?S \<longleftrightarrow> v \<in> ?T" using F(3) [OF _ v(1) t] F(4) [of v] by blast
    with kept x v(1) t show "tight w ?st2 ?x v" by blast
  next
    show "mset (in_play (h_match st)) = mset (map int [0..<u])" using inv by (simp only: h_inv_def)
  qed (use lxb lyb in blast)+
  moreover have "reach_right w n st u \<subset> reach_right w n ?st2 u"
  proof -
    have hop: "hop w n ?st2 y z" if "hop w n st y z" "y \<in> ?S" for y z
    proof -
      from that(1) obtain v where v: "v < n" "tight w st y v" "h_match st ! v = int z" by (auto simp: hop_def)
      then have "v \<in> ?T" using F(3) [OF that(2)] by blast
      then show ?thesis using v kept [of y v] that(2) S [OF that(2)] unfolding hop_def at(3) by blast
    qed
    have r: "reaches w n ?st2 u y" if "reaches w n st u y" for y
      using that unfolding reaches_def
    proof (induction rule: rtranclp_induct)
      case (step y z)
      have "y \<in> ?S" using step.hyps(1) F(2) by (simp add: reaches_def)
      from hop [OF step.hyps(2) this] step.IH show ?case by simp
    qed simp
    have sub: "reach_right w n st u \<subseteq> reach_right w n ?st2 u"
    proof
      fix v assume "v \<in> reach_right w n st u"
      then obtain x where x: "v < n" "reaches w n st u x" "tight w st x v" by (auto simp: reach_right_def)
      have xS: "x \<in> ?S" by (rule F(2) [OF x(2)])
      have "v \<in> ?T" by (rule F(3) [OF xS x(1,3)])
      with x xS kept [of x v] S [OF xS] r show "v \<in> reach_right w n ?st2 u" unfolding reach_right_def by blast
    qed
    have "tight w ?st2 i0 j0" using at(1) [OF S [OF ij(1)]] at(2) [OF ij(2)] ij by (simp add: tight_def)
    then have "j0 \<in> reach_right w n ?st2 u" using r [OF F(5) [OF ij(1)]] ij(2) by (auto simp: reach_right_def)
    moreover have "j0 \<notin> reach_right w n st u" using ij(3) F(1) by simp
    ultimately show ?thesis using sub by blast
  qed
  ultimately show ?thesis using dx(1) \<open>relabel n dx st' = Inr ?st2\<close> by blast
qed

section \<open>One vertex\<close>

lemma grown_inv:
  assumes inv: "h_inv w n u st" and g: "grown w n u st st'"
  shows "h_inv w n (Suc u) st'"
proof -
  have eq: "h_lx st' = h_lx st" "h_ly st' = h_ly st" "h_ok n st'" using g by (simp_all add: grown_def)
  have t: "tight w st' = tight w st" using eq by (simp add: tight_def fun_eq_iff)
  have new: "0 \<le> h_match st' ! v \<and> tight w st (nat (h_match st' ! v)) v" if "v < n" "h_match st' ! v \<noteq> h_match st ! v" for v
    using g that by (simp add: grown_def)
  have "mset (in_play (h_match st')) = mset (map int [0..<Suc u])"
  proof -
    have "mset (in_play (h_match st')) = add_mset (int u) (mset (in_play (h_match st)))" using g by (simp add: grown_def)
    moreover have "mset (in_play (h_match st)) = mset (map int [0..<u])" using inv by (simp only: h_inv_def)
    ultimately show ?thesis by simp
  qed
  moreover have "\<forall>v < n. h_match st' ! v \<noteq> -1 \<longrightarrow> tight w st' (nat (h_match st' ! v)) v"
    unfolding t using new inv unfolding h_inv_def by metis
  moreover have "h_match st ! v = -1" if "v < n" "h_match st' ! v = -1" for v using new [OF that(1)] that(2) by force
  ultimately show ?thesis using inv eq unfolding h_inv_def by metis
qed

lemma h_inv_marks: "h_inv w n u st \<Longrightarrow> h_inv w n u (st\<lparr>h_sx := replicate n False, h_sy := replicate n False\<rparr>)"
  by (simp add: h_inv_def h_ok_def tight_def)

lemma reach_right_marks: "reach_right w n (st\<lparr>h_sx := a, h_sy := b\<rparr>) u = reach_right w n st u"
proof -
  have "hop w n (st\<lparr>h_sx := a, h_sy := b\<rparr>) = hop w n st" by (simp add: hop_def tight_def fun_eq_iff)
  then show ?thesis by (simp add: reach_right_def reaches_def tight_def)
qed

text \<open>At most \<open>n\<close> failures: each makes another right vertex reachable.\<close>

lemma augment_spec:
  assumes w: "w_ok w n" and small: "w_small w n" and u: "u < n"
  shows "h_inv w n u st \<Longrightarrow> n - card (reach_right w n st u) < k \<Longrightarrow> \<exists>st'. augment k w n u st = Inr st' \<and> h_inv w n (Suc u) st'"
proof (induction k arbitrary: st)
  case (Suc k)
  let ?st = "st\<lparr>h_sx := replicate n False, h_sy := replicate n False\<rparr>"
  have inv: "h_inv w n u ?st" by (rule h_inv_marks [OF Suc.prems(1)])
  have clear: "marks (h_sx ?st) = {}" "marks (h_sy ?st) = {}" by simp_all
  have "h_ok n ?st" "unseen n ?st < n + 1" using inv by (simp_all add: h_inv_def unseen_def)
  with dfs_spec [OF w, of "n + 1"] u obtain found st1 where d: "dfs (n + 1) w n u ?st = Inr (found, st1)"
    "if found then grown w n u ?st st1 else failed w n u [0..<n] ?st st1 \<and> u \<in> marks (h_sx st1)"
    unfolding search_spec_def by blast
  show ?case
  proof (cases found)
    case True
    with d(2) have "h_inv w n (Suc u) st1" using grown_inv [OF inv] by simp
    with d(1) True show ?thesis by simp
  next
    case False
    with d(2) have f: "failed w n u [0..<n] ?st st1" "u \<in> marks (h_sx st1)" by simp_all
    from relabelled [OF w small inv u f clear] obtain dx st2 where r: "slack_min w n st1 = Inr dx" "relabel n dx st1 = Inr st2"
      "h_inv w n u st2" "reach_right w n ?st u \<subset> reach_right w n st2 u" by blast
    have sub: "reach_right w n st2 u \<subseteq> {..<n}" by (auto simp: reach_right_def)
    then have "card (reach_right w n st u) < card (reach_right w n st2 u)" "card (reach_right w n st2 u) \<le> n"
      using psubset_card_mono [OF finite_subset [OF sub] r(4)] card_mono [OF _ sub] by (simp_all add: reach_right_marks)
    then have "n - card (reach_right w n st2 u) < k" using Suc.prems(2) by linarith
    from Suc.IH [OF r(3) this] d(1) r(1,2) False show ?thesis by simp
  qed
qed simp

section \<open>The whole matching\<close>

lemma first_labels_spec:
  assumes w: "w_ok w n" and small: "w_small w n"
  shows "\<exists>lx. first_labels w n = Inr lx \<and> length lx = n \<and>
    (\<forall>i < n. - w_max \<le> lx ! i \<and> lx ! i \<le> w_max \<and> (\<forall>j < n. w ! i ! j \<le> lx ! i))"
proof -
  let ?f = "\<lambda>i. rfold (\<lambda>j a. rbind (weight_at w i j) (\<lambda>c. Inr (if a < c then c else a))) [0..<n] (- 0x1FFFFFFF)"
  have row: "\<exists>a. ?f i = Inr a \<and> (- w_max \<le> a \<and> a \<le> w_max \<and> (\<forall>j \<in> set [0..<n]. w ! i ! j \<le> a))" if i: "i < n" for i
  proof (rule rfold_invariant)
    fix ys j zs a
    assume s: "[0..<n] = ys @ j # zs" and P: "- w_max \<le> a \<and> a \<le> w_max \<and> (\<forall>j \<in> set ys. w ! i ! j \<le> a)"
    have j: "j < n" using upt_split [OF s] by simp
    have "\<bar>w ! i ! j\<bar> \<le> w_max" using small i j by (simp add: w_small_def)
    then show "\<exists>a'. rbind (weight_at w i j) (\<lambda>c. Inr (if a < c then c else a)) = Inr a' \<and>
        (- w_max \<le> a' \<and> a' \<le> w_max \<and> (\<forall>j \<in> set (ys @ [j]). w ! i ! j \<le> a'))"
      using P i j w by auto
  qed simp
  then have "\<exists>ys. rmap ?f [0..<n] = Inr ys" by (intro rmap_total) auto
  then obtain lx where lx: "rmap ?f [0..<n] = Inr lx" by blast
  then have "length lx = n" "?f i = Inr (lx ! i)" if "i < n" for i using that by (auto simp: rmap_eq_Inr)
  moreover have "length lx = n" using lx by (simp add: rmap_eq_Inr)
  ultimately show ?thesis using row lx unfolding first_labels_def by fastforce
qed

lemma augment_all:
  assumes w: "w_ok w n" and small: "w_small w n" and lx: "first_labels w n = Inr lx"
  shows "\<exists>st. rfold (augment (n + 1) w n) [0..<n] \<lparr>h_lx = lx, h_ly = replicate n 0, h_sx = replicate n False,
      h_sy = replicate n False, h_match = replicate n (-1)\<rparr> = Inr st \<and> h_inv w n n st"
proof -
  let ?st = "\<lparr>h_lx = lx, h_ly = replicate n 0, h_sx = replicate n False, h_sy = replicate n False, h_match = replicate n (-1)\<rparr>"
  have l: "length lx = n" "\<forall>i < n. - w_max \<le> lx ! i \<and> lx ! i \<le> w_max \<and> (\<forall>j < n. w ! i ! j \<le> lx ! i)"
    using first_labels_spec [OF w small] lx by auto
  have start: "h_inv w n 0 ?st"
  proof -
    have "- (2 ^ 31) \<le> lx ! i \<and> lx ! i < 2 ^ 31" if "i < n" for i using l(2) that by force
    then show ?thesis using l by (auto simp: h_inv_def h_ok_def in_play_def)
  qed
  have "\<exists>st. rfold (augment (n + 1) w n) [0..<m] ?st = Inr st \<and> h_inv w n m st" if "m \<le> n" for m
    using that
  proof (induction m)
    case (Suc m)
    then obtain st where st: "rfold (augment (n + 1) w n) [0..<m] ?st = Inr st" "h_inv w n m st" using Suc_leD by blast
    have "m < n" "n - card (reach_right w n st m) < n + 1" using Suc.prems by simp_all
    from augment_spec [OF w small this(1) st(2) this(2)] obtain st' where "augment (n + 1) w n m st = Inr st'" "h_inv w n (Suc m) st'" by blast
    with st(1) show ?case by (simp add: rfold_append del: augment.simps)
  qed (use start in simp)
  then show ?thesis by blast
qed

text \<open>A full matching of tight edges has the largest weight.\<close>

lemma full_matching:
  assumes inv: "h_inv w n n st"
  shows "bij_betw (\<lambda>v. nat (h_match st ! v)) {..<n} {..<n}" "v < n \<Longrightarrow> 0 \<le> h_match st ! v"
    "bij_betw p {..<n} {..<n} \<Longrightarrow> (\<Sum>v < n. w ! p v ! v) \<le> (\<Sum>v < n. w ! nat (h_match st ! v) ! v)"
proof -
  let ?m = "h_match st"
  have len: "length ?m = n" and ms: "mset (in_play ?m) = mset (map int [0..<n])" using inv by (simp_all only: h_inv_def h_ok_def)
  have "length (in_play ?m) = length ?m" using len ms by (metis length_map length_upt diff_zero size_mset)
  then have all: "in_play ?m = ?m" unfolding in_play_def by (metis filter_id_conv length_filter_less less_irrefl)
  with ms have m: "mset ?m = mset (map int [0..<n])" by simp
  then have set: "set ?m = int ` {..<n}" and dist: "distinct ?m"
    by (metis mset_eq_setD set_map set_upt atLeast0LessThan) (metis m distinct_map distinct_upt inj_on_of_nat mset_eq_imp_distinct_iff)
  show nonneg: "0 \<le> ?m ! v" if "v < n" for v using set that len nth_mem [of v ?m] by auto
  have inj: "inj_on (\<lambda>v. nat (?m ! v)) {..<n}"
    using dist len nonneg by (auto simp: inj_on_def nth_eq_iff_index_eq eq_nat_nat_iff)
  have "(\<lambda>v. nat (?m ! v)) ` {..<n} = nat ` set ?m" using len by (auto simp: set_conv_nth image_iff)
  also have "\<dots> = {..<n}" unfolding set by (auto simp: image_image)
  finally show bij: "bij_betw (\<lambda>v. nat (?m ! v)) {..<n} {..<n}" using inj by (simp add: bij_betw_def)
  have total: "(\<Sum>v < n. h_lx st ! q v + h_ly st ! v) = (\<Sum>v < n. h_lx st ! v) + (\<Sum>v < n. h_ly st ! v)" if "bij_betw q {..<n} {..<n}" for q
    using sum.reindex_bij_betw [OF that, of "\<lambda>v. h_lx st ! v"] by (simp add: sum.distrib)
  show "(\<Sum>v < n. w ! p v ! v) \<le> (\<Sum>v < n. w ! nat (?m ! v) ! v)" if p: "bij_betw p {..<n} {..<n}"
  proof -
    have "(\<Sum>v < n. w ! p v ! v) \<le> (\<Sum>v < n. h_lx st ! p v + h_ly st ! v)"
      using inv bij_betwE [OF p] by (intro sum_mono) (auto simp: h_inv_def)
    also have "\<dots> = (\<Sum>v < n. h_lx st ! nat (?m ! v) + h_ly st ! v)" using total [OF p] total [OF bij] by simp
    also have "\<dots> = (\<Sum>v < n. w ! nat (?m ! v) ! v)"
    proof (intro sum.cong refl)
      fix v assume "v \<in> {..<n}"
      then have "tight w st (nat (?m ! v)) v" using inv nonneg [of v] by (auto simp: h_inv_def)
      then show "h_lx st ! nat (?m ! v) + h_ly st ! v = w ! nat (?m ! v) ! v" by (simp add: tight_def)
    qed
    finally show ?thesis .
  qed
qed

lemma weight_sum:
  assumes w: "w_ok w n" and bound: "\<forall>i < n. \<forall>j < n. \<bar>w ! i ! j\<bar> \<le> C" and fit: "int n * C < 2 ^ 31"
    and len: "length m = n" and m: "\<And>v. v < n \<Longrightarrow> 0 \<le> m ! v \<and> nat (m ! v) < n"
  shows "rfold (\<lambda>i s. rbind (rget m i) (\<lambda>y. rbind (int_index y) (\<lambda>x. rbind (weight_at w x i) (\<lambda>c. i32 (s + c))))) [0..<n] 0
    = Inr (\<Sum>v < n. w ! nat (m ! v) ! v)"
proof -
  let ?f = "\<lambda>i s. rbind (rget m i) (\<lambda>y. rbind (int_index y) (\<lambda>x. rbind (weight_at w x i) (\<lambda>c. i32 (s + c))))"
  have "rfold ?f [0..<k] 0 = Inr (\<Sum>v < k. w ! nat (m ! v) ! v) \<and> \<bar>\<Sum>v < k. w ! nat (m ! v) ! v\<bar> \<le> int k * C" if "k \<le> n" for k
    using that
  proof (induction k)
    case (Suc k)
    let ?s = "\<Sum>v < k. w ! nat (m ! v) ! v" and ?c = "w ! nat (m ! k) ! k"
    have k: "k < n" using Suc.prems by simp
    have c: "\<bar>?c\<bar> \<le> C" using bound m [OF k] k by simp
    have "\<bar>?s\<bar> \<le> int k * C" "int (Suc k) * C = int k * C + C" using Suc by (simp_all add: algebra_simps)
    then have b: "\<bar>?s + ?c\<bar> \<le> int (Suc k) * C" using c by linarith
    have C: "0 \<le> C" using c by linarith
    then have "int (Suc k) * C \<le> int n * C" using Suc.prems by (intro mult_right_mono) simp_all
    then have "i32 (?s + ?c) = Inr (?s + ?c)" using b fit by (intro i32_ok) linarith+
    then have "?f k ?s = Inr (?s + ?c)" using k m [OF k] len w by (simp add: int_index_def)
    with Suc b show ?case by (simp add: rfold_append)
  qed simp
  from this [of n] show ?thesis by simp
qed

lemma HungaryMatch_max:
  assumes w: "w_ok w n" and bound: "\<forall>i < n. \<forall>j < n. \<bar>w ! i ! j\<bar> \<le> C" and C: "C \<le> w_max" and fit: "int n * C < 2 ^ 31"
  shows "\<exists>m. HungaryMatch True w n = Inr (\<Sum>v < n. w ! nat (m ! v) ! v, w, m) \<and> length m = n \<and>
    bij_betw (\<lambda>v. nat (m ! v)) {..<n} {..<n} \<and> (\<forall>v < n. 0 \<le> m ! v) \<and>
    (\<forall>p. bij_betw p {..<n} {..<n} \<longrightarrow> (\<Sum>v < n. w ! p v ! v) \<le> (\<Sum>v < n. w ! nat (m ! v) ! v))"
proof -
  have small: "w_small w n" using bound C unfolding w_small_def by fastforce
  obtain lx where lx: "first_labels w n = Inr lx" using first_labels_spec [OF w small] by blast
  obtain st where st: "rfold (augment (n + 1) w n) [0..<n] \<lparr>h_lx = lx, h_ly = replicate n 0, h_sx = replicate n False,
      h_sy = replicate n False, h_match = replicate n (-1)\<rparr> = Inr st" "h_inv w n n st"
    using augment_all [OF w small lx] by blast
  let ?m = "h_match st"
  note full = full_matching [OF st(2)]
  have len: "length ?m = n" using st(2) by (simp add: h_inv_def h_ok_def)
  have "0 \<le> ?m ! v \<and> nat (?m ! v) < n" if "v < n" for v
    using full(2) [OF that] bij_betwE [OF full(1)] that by auto
  from weight_sum [OF w bound fit len this] have "HungaryMatch True w n = Inr (\<Sum>v < n. w ! nat (?m ! v) ! v, w, ?m)"
    using lx st(1) by (simp add: HungaryMatch_def Let_def del: augment.simps)
  with full len show ?thesis by blast
qed

lemma negate_spec:
  assumes w: "w_ok w n" and small: "w_small w n"
  shows "negate w = Inr (map (map uminus) w)" "w_ok (map (map uminus) w) n" "w_small (map (map uminus) w) n"
    "i < n \<Longrightarrow> j < n \<Longrightarrow> map (map uminus) w ! i ! j = - (w ! i ! j)"
proof -
  have len: "length w = n" "i < n \<Longrightarrow> length (w ! i) = n" for i using w by (auto simp: w_ok_def)
  show at: "map (map uminus) w ! i ! j = - (w ! i ! j)" if "i < n" "j < n" for i j using that len by simp
  show "w_ok (map (map uminus) w) n" using w by (auto simp: w_ok_def)
  show "w_small (map (map uminus) w) n" using small at by (simp add: w_small_def)
  show "negate w = Inr (map (map uminus) w)"
    unfolding negate_def
  proof (rule rmap_pure)
    fix r assume r: "r \<in> set w"
    show "rmap (\<lambda>x. i32 (- x)) r = Inr (map uminus r)"
    proof (rule rmap_pure)
      fix x assume x: "x \<in> set r"
      obtain i where i: "i < n" "r = w ! i" using r len(1) by (auto simp: in_set_conv_nth)
      obtain j where j: "j < n" "x = r ! j" using x i len(2) [OF i(1)] by (auto simp: in_set_conv_nth)
      have "\<bar>x\<bar> \<le> w_max" using small i j by (simp add: w_small_def)
      then show "i32 (- x) = Inr (- x)" by (intro i32_ok) simp_all
    qed
  qed
qed



end
