(* ===== verification/HungaryBuckets.thy ===== *)
theory HungaryBuckets
  imports HungaryOpt
begin

text \<open>
  The balanced assignment of queries to buckets that \<open>MaximumWeightMatch\<close> computes: every bucket gets as many
  queries as it has slots, and no other such assignment has a larger total affinity.
\<close>

definition slots_of :: "nat \<Rightarrow> nat \<Rightarrow> nat \<Rightarrow> nat set" where
  "slots_of n k b = {s. s < n \<and> s mod k = b}"

text \<open>An assignment that uses every bucket as often as it has slots.\<close>

definition balanced :: "nat \<Rightarrow> nat \<Rightarrow> (nat \<Rightarrow> nat) \<Rightarrow> bool" where
  "balanced n k f \<longleftrightarrow> (\<forall>q < n. f q < k) \<and> (\<forall>b < k. card {q. q < n \<and> f q = b} = card (slots_of n k b))"

text \<open>Such an assignment comes from a bijection of slots and queries.\<close>

lemma balanced_bijection:
  assumes f: "balanced n k f" and k: "0 < k"
  shows "\<exists>p. bij_betw p {..<n} {..<n} \<and> (\<forall>s < n. f (p s) = s mod k)"
proof -
  have "\<exists>g. bij_betw g (slots_of n k b) {q. q < n \<and> f q = b}" if "b < k" for b
  proof (rule finite_same_card_bij)
    show "finite (slots_of n k b)" by (simp add: slots_of_def)
    show "card (slots_of n k b) = card {q. q < n \<and> f q = b}" using f that by (simp add: balanced_def)
  qed simp
  then have "\<forall>b. \<exists>g. b < k \<longrightarrow> bij_betw g (slots_of n k b) {q. q < n \<and> f q = b}" by blast
  then obtain g where g: "\<And>b. b < k \<Longrightarrow> bij_betw (g b) (slots_of n k b) {q. q < n \<and> f q = b}" by metis
  let ?p = "\<lambda>s. g (s mod k) s"
  have at: "?p s < n \<and> f (?p s) = s mod k" if "s < n" for s
    using bij_betwE [OF g [of "s mod k"]] that k by (auto simp: slots_of_def)
  have "inj_on ?p {..<n}"
  proof (rule inj_onI)
    fix s t assume s: "s \<in> {..<n}" and t: "t \<in> {..<n}" and eq: "?p s = ?p t"
    then have m: "s mod k = t mod k" using at [of s] at [of t] by simp
    then have "inj_on (g (s mod k)) (slots_of n k (s mod k))" using g [of "s mod k"] k by (simp add: bij_betw_def)
    then show "s = t" using s t eq m by (auto simp: inj_on_def slots_of_def)
  qed
  moreover have "?p ` {..<n} \<subseteq> {..<n}" using at by auto
  ultimately have "bij_betw ?p {..<n} {..<n}" using endo_inj_surj [of "{..<n}" ?p] by (simp add: bij_betw_def)
  then show ?thesis using at by blast
qed

text \<open>What the affinities have to satisfy.\<close>

definition affinities_ok :: "u32 list list \<Rightarrow> nat \<Rightarrow> int \<Rightarrow> bool" where
  "affinities_ok aff k C \<longleftrightarrow> aff \<noteq> [] \<and> length aff \<le> MAXN \<and> 0 < k \<and> (\<forall>r \<in> set aff. length r = k \<and> (\<forall>a \<in> set r. uint a \<le> C)) \<and>
     C \<le> w_max \<and> int (length aff) * C < 2 ^ 31"

text \<open>The matrix of the code.\<close>

definition slot_weights :: "u32 list list \<Rightarrow> nat \<Rightarrow> int list list" where
  "slot_weights aff k = map (\<lambda>q. map (\<lambda>slot. uint (aff ! q ! (slot mod k))) [0..<length aff]) [0..<length aff]"

lemma slot_weights_ok:
  assumes "affinities_ok aff k C"
  shows "w_ok (slot_weights aff k) (length aff)"
    "q < length aff \<Longrightarrow> s < length aff \<Longrightarrow> slot_weights aff k ! q ! s = uint (aff ! q ! (s mod k))"
    "q < length aff \<Longrightarrow> s < length aff \<Longrightarrow> uint (aff ! q ! (s mod k)) \<le> C \<and> s mod k < length (aff ! q)"
proof -
  show "w_ok (slot_weights aff k) (length aff)" by (auto simp: w_ok_def slot_weights_def)
  show "q < length aff \<Longrightarrow> s < length aff \<Longrightarrow> slot_weights aff k ! q ! s = uint (aff ! q ! (s mod k))" by (simp add: slot_weights_def)
  assume q: "q < length aff" "s < length aff"
  have "aff ! q \<in> set aff" using q by simp
  moreover have "0 < k" using assms by (simp add: affinities_ok_def)
  then have "s mod k < k" by simp
  ultimately show "uint (aff ! q ! (s mod k)) \<le> C \<and> s mod k < length (aff ! q)"
    using assms by (auto simp: affinities_ok_def)
qed

text \<open>Writing the results, slot by slot.\<close>

lemma write_slots:
  fixes to_float :: "int \<Rightarrow> 'f"
  assumes aff: "affinities_ok aff k C" and n: "n = length aff" and bij: "bij_betw (\<lambda>v. nat (m ! v)) {..<n} {..<n}"
    and m: "length m = n" "\<forall>v < n. 0 \<le> m ! v" and lens: "n \<le> length lb" "n \<le> length lr"
  shows "\<exists>lb' lr'. rfold (\<lambda>slot (lb, lr).
       rbind (rget m slot) (\<lambda>qid.
       if qid = -1 then Inl (Runtime_Error ''HungaryMatch Error'')
       else rbind (int_index qid) (\<lambda>q.
         rbind (rput lb q (of_nat (slot mod k) :: u32)) (\<lambda>lb.
         rbind (weight_at (slot_weights aff k) q slot) (\<lambda>c.
         rbind (rput lr q (to_float c)) (\<lambda>lr.
         rbind (rget aff q) (\<lambda>r. rbind (rget r (slot mod k)) (\<lambda>a.
         if to_float c \<noteq> to_float (uint a) then Inl (Runtime_Error ''HungaryMatch Error'') else Inr (lb, lr)))))))))
       [0..<n] (lb, lr) = Inr (lb', lr') \<and>
    (\<forall>s < n. lb' ! nat (m ! s) = of_nat (s mod k) \<and> lr' ! nat (m ! s) = to_float (uint (aff ! nat (m ! s) ! (s mod k))))"
    (is "\<exists>lb' lr'. rfold ?f _ _ = _ \<and> _")
proof -
  let ?q = "\<lambda>s. nat (m ! s)"
  have "\<exists>r. rfold ?f [0..<j] (lb, lr) = Inr r \<and> n \<le> length (fst r) \<and> n \<le> length (snd r) \<and>
    (\<forall>s < j. fst r ! ?q s = of_nat (s mod k) \<and> snd r ! ?q s = to_float (uint (aff ! ?q s ! (s mod k))))" if "j \<le> n" for j
    using that
  proof (induction j)
    case 0
    show ?case using lens by simp
  next
    case (Suc j)
    then obtain lb1 lr1 where r: "rfold ?f [0..<j] (lb, lr) = Inr (lb1, lr1)" "n \<le> length lb1" "n \<le> length lr1"
      "\<forall>s < j. lb1 ! ?q s = of_nat (s mod k) \<and> lr1 ! ?q s = to_float (uint (aff ! ?q s ! (s mod k)))" by auto
    have j: "j < n" using Suc.prems by simp
    have q: "?q j < n" using bij_betwE [OF bij] j by auto
    have ne: "?q s \<noteq> ?q j" if "s < j" for s using bij that j unfolding bij_betw_def inj_on_def by (metis lessThan_iff less_irrefl less_trans)
    have unset: "m ! j \<noteq> -1" using m(2) j by force
    note W = slot_weights_ok [OF aff]
    have "?f j (lb1, lr1) = Inr (lb1[?q j := of_nat (j mod k)], lr1[?q j := to_float (uint (aff ! ?q j ! (j mod k)))])"
      using j m q r(2,3) W(1) W(2,3) [of "?q j" j] n unset by (simp add: int_index_def)
    moreover have "\<forall>s < Suc j. lb1[?q j := of_nat (j mod k)] ! ?q s = of_nat (s mod k) \<and>
        lr1[?q j := to_float (uint (aff ! ?q j ! (j mod k)))] ! ?q s = to_float (uint (aff ! ?q s ! (s mod k)))"
    proof (intro allI impI)
      fix s assume "s < Suc j"
      then consider "s < j" | "s = j" by linarith
      then show "lb1[?q j := of_nat (j mod k)] ! ?q s = of_nat (s mod k) \<and>
        lr1[?q j := to_float (uint (aff ! ?q j ! (j mod k)))] ! ?q s = to_float (uint (aff ! ?q s ! (s mod k)))"
      proof cases
        case 1
        with r(4) ne [of s] show ?thesis by (metis nth_list_update_neq)
      next
        case 2
        with r(2,3) q show ?thesis by simp
      qed
    qed
    ultimately show ?case using r(1-3) by (simp add: rfold_append)
  qed
  from this [of n] show ?thesis by auto
qed

text \<open>The matrix the code fills in is that one.\<close>

lemma build_weights:
  assumes "affinities_ok aff k C"
  shows "rmap (\<lambda>q. rmap (\<lambda>slot. rbind (rget aff q) (\<lambda>r. rbind (rget r (slot mod k)) (\<lambda>a. Inr (sint a)))) [0..<length aff]) [0..<length aff] =
    Inr (slot_weights aff k)"
  unfolding slot_weights_def
proof (intro rmap_pure)
  fix q s assume q: "q \<in> set [0..<length aff]" and s: "s \<in> set [0..<length aff]"
  have "uint (aff ! q ! (s mod k)) \<le> C \<and> s mod k < length (aff ! q)" using slot_weights_ok(3) [OF assms, of q s] q s by simp
  moreover have "sint a = uint a" if "uint a \<le> C" for a :: u32
  proof -
    have "uint a < 2 ^ 31" using that assms by (simp add: affinities_ok_def)
    then show ?thesis by (simp add: sint_uint signed_take_bit_eq_if_positive take_bit_int_eq_self bit_iff_odd)
  qed
  ultimately show "rbind (rget aff q) (\<lambda>r. rbind (rget r (s mod k)) (\<lambda>a. Inr (sint a))) = Inr (uint (aff ! q ! (s mod k)))"
    using q by simp
qed

text \<open>The affinity of an assignment is the weight of the matching it comes from.\<close>

lemma affinity_of_matching:
  assumes aff: "affinities_ok aff k C" and t: "bij_betw t {..<length aff} {..<length aff}" and h: "\<forall>s < length aff. h (t s) = s mod k"
  shows "(\<Sum>q < length aff. uint (aff ! q ! h q)) = (\<Sum>s < length aff. slot_weights aff k ! t s ! s)"
proof -
  have "(\<Sum>q < length aff. uint (aff ! q ! h q)) = (\<Sum>s < length aff. uint (aff ! t s ! h (t s)))"
    using sum.reindex_bij_betw [OF t, of "\<lambda>q. uint (aff ! q ! h q)"] by simp
  also have "\<dots> = (\<Sum>s < length aff. slot_weights aff k ! t s ! s)"
    using h slot_weights_ok(2) [OF aff] bij_betwE [OF t] by (intro sum.cong) auto
  finally show ?thesis .
qed

text \<open>An assignment that follows a matching uses every bucket as often as it has slots.\<close>

lemma balanced_of_matching:
  assumes k: "0 < k" and q: "bij_betw q {..<n} {..<n}" and g: "\<And>s. s < n \<Longrightarrow> g (q s) = s mod k"
  shows "balanced n k g"
  unfolding balanced_def
proof (intro conjI allI impI)
  have onto: "\<exists>s < n. v = q s" if "v < n" for v using q that unfolding bij_betw_def by (metis imageE lessThan_iff)
  show "g v < k" if "v < n" for v using onto [OF that] g k by auto
  fix b assume "b < k"
  have "q ` slots_of n k b = {v. v < n \<and> g v = b}"
  proof (intro set_eqI iffI)
    fix v assume "v \<in> {v. v < n \<and> g v = b}"
    moreover from this obtain s where "s < n" "v = q s" using onto by blast
    ultimately show "v \<in> q ` slots_of n k b" using g by (auto simp: slots_of_def)
  qed (use g bij_betwE [OF q] in \<open>auto simp: slots_of_def\<close>)
  moreover have "inj_on q (slots_of n k b)" using q by (auto simp: bij_betw_def slots_of_def inj_on_def)
  ultimately show "card {v. v < n \<and> g v = b} = card (slots_of n k b)" by (metis card_image)
qed

text \<open>
  C24: \<open>MaximumWeightMatch\<close> sends every query to a bucket, each bucket getting as many queries as it has
  slots (numbers differing by at most one), with the largest total affinity of all assignments
  that do so, and reports the affinity of every query.
\<close>

theorem MaximumWeightMatch_balanced:
  fixes to_float :: "int \<Rightarrow> 'f"
  assumes aff: "affinities_ok aff k C" and lens: "length aff \<le> length lb" "length aff \<le> length lr"
  shows "\<exists>lb' lr'. MaximumWeightMatch to_float aff lb lr = Inr (lb', lr') \<and>
    balanced (length aff) k (\<lambda>q. unat (lb' ! q)) \<and>
    (\<forall>q < length aff. lr' ! q = to_float (uint (aff ! q ! unat (lb' ! q)))) \<and>
    (\<forall>f. balanced (length aff) k f \<longrightarrow> (\<Sum>q < length aff. uint (aff ! q ! f q)) \<le> (\<Sum>q < length aff. uint (aff ! q ! unat (lb' ! q))))"
proof -
  let ?n = "length aff" and ?w = "slot_weights aff k"
  have k: "0 < k" "length (aff ! 0) = k" "?n \<le> MAXN" "aff \<noteq> []" and C: "C \<le> w_max" "int ?n * C < 2 ^ 31"
    using aff by (auto simp: affinities_ok_def)
  have small: "unat (of_nat (s mod k) :: u32) = s mod k" if "s < ?n" for s
  proof (rule unat_of_nat32)
    show "s mod k < 2 ^ 32" using that k(3) order_le_less_trans [OF mod_less_eq_dividend [of s k], of "100000"] by (simp add: MAXN_def)
  qed
  have bound: "\<forall>i < ?n. \<forall>j < ?n. \<bar>?w ! i ! j\<bar> \<le> C" using slot_weights_ok(2,3) [OF aff] by simp
  from HungaryMatch_max [OF slot_weights_ok(1) [OF aff] bound C] obtain m where
    m: "HungaryMatch True ?w ?n = Inr (\<Sum>v < ?n. ?w ! nat (m ! v) ! v, ?w, m)"
    "length m = ?n" "bij_betw (\<lambda>v. nat (m ! v)) {..<?n} {..<?n}" "\<forall>v < ?n. 0 \<le> m ! v"
    "\<And>p. bij_betw p {..<?n} {..<?n} \<Longrightarrow> (\<Sum>v < ?n. ?w ! p v ! v) \<le> (\<Sum>v < ?n. ?w ! nat (m ! v) ! v)" by blast
  let ?q = "\<lambda>s. nat (m ! s)"
  from write_slots [OF aff refl m(3,2,4) lens, of to_float] obtain lb' lr' where
    r: "MaximumWeightMatch to_float aff lb lr = Inr (lb', lr')"
    "\<And>s. s < ?n \<Longrightarrow> lb' ! ?q s = of_nat (s mod k) \<and> lr' ! ?q s = to_float (uint (aff ! ?q s ! (s mod k)))"
    using k build_weights [OF aff] m(1) by (auto simp: MaximumWeightMatch_def Let_def)
  let ?g = "\<lambda>q. unat (lb' ! q)"
  have g: "?g (?q s) = s mod k" if "s < ?n" for s using r(2) [OF that] small [OF that] by simp
  have onto: "\<exists>s < ?n. q = ?q s" if "q < ?n" for q using m(3) that unfolding bij_betw_def by (metis imageE lessThan_iff)
  have "\<forall>q < ?n. lr' ! q = to_float (uint (aff ! q ! ?g q))" using onto r(2) g by metis
  moreover have "(\<Sum>q < ?n. uint (aff ! q ! f q)) \<le> (\<Sum>q < ?n. uint (aff ! q ! ?g q))" if f: "balanced ?n k f" for f
  proof -
    obtain p where p: "bij_betw p {..<?n} {..<?n}" "\<forall>s < ?n. f (p s) = s mod k" using balanced_bijection [OF f k(1)] by blast
    show ?thesis using affinity_of_matching [OF aff p] affinity_of_matching [OF aff m(3), of ?g] g m(5) [OF p(1)] by simp
  qed
  ultimately show ?thesis using r(1) balanced_of_matching [OF k(1) m(3) g] by blast
qed

theorem MaximumWeightMatch_balanced_witness:
  "\<exists>lb lr. MaximumWeightMatch id [[3, 5], [2, 7]] [0, 0] [0, 0] = Inr (lb, lr) \<and> balanced 2 2 (\<lambda>q. unat (lb ! q))"
proof -
  have "affinities_ok [[3, 5], [2, 7]] 2 7" by (simp add: affinities_ok_def MAXN_def)
  from MaximumWeightMatch_balanced [OF this, of "[0, 0]" "[0, 0]" id] show ?thesis by (auto simp: numeral_2_eq_2)
qed

end
