(* ===== verification/Checksum.thy ===== *)
theory Checksum
  imports ByteMemory
begin

unbundle bit_operations_syntax

text \<open>
  \<open>ip_checksum\<close> of \<open>rdma_lib/utils.hpp\<close>, which protects the messages that connect two queue pairs. The data is a
  list of bytes and the address it starts at; words are read on a little-endian machine, as \<open>memcpy\<close>
  into a \<open>uint32_t\<close> followed by \<open>ntohl\<close> does.
\<close>

section \<open>The code\<close>

definition ntohl :: "u32 \<Rightarrow> u32" where
  "ntohl w = le_word (rev (le_bytes 4 w))"

text \<open>A partial block at the start fills the bytes of its word that precede the next 4-byte boundary.\<close>

definition ip_start :: "nat \<Rightarrow> byte list \<Rightarrow> u64 \<Rightarrow> u64 \<times> byte list" where
  "ip_start addr bs acc =
     (let offset = addr mod 4 in
      if offset = 0 then (acc, bs)
      else let n = min (4 - offset) (length bs) in
        (acc + ucast (ntohl (le_word (replicate offset 0 @ take n bs @ replicate (4 - offset - n) 0))), drop n bs))"

text \<open>The complete blocks, then the rest of fewer than four bytes.\<close>

fun ip_blocks :: "byte list \<Rightarrow> u64 \<Rightarrow> u64" where
  "ip_blocks (a # b # c # d # bs) acc = ip_blocks bs (acc + ucast (ntohl (le_word [a, b, c, d])))"
| "ip_blocks [] acc = acc"
| "ip_blocks bs acc = acc + ucast (ntohl (le_word (bs @ replicate (4 - length bs) 0)))"

text \<open>\<open>while (acc >> 16) acc = (acc & 0xffff) + (acc >> 16)\<close>.\<close>

lemma carry_less:
  fixes x :: nat
  shows "x mod 65536 + x div 65536 \<le> x" "x div 65536 \<noteq> 0 \<Longrightarrow> x mod 65536 + x div 65536 < x"
  using div_mult_mod_eq [of x 65536] by linarith+

lemma unat_carry: "unat (take_bit 16 acc + drop_bit 16 (acc :: u64)) = unat acc mod 65536 + unat acc div 65536"
proof -
  have "unat acc mod 65536 + unat acc div 65536 < 2 ^ 64"
    using carry_less(1) [of "unat acc"] unsigned_less [of acc, where 'a = nat] by simp
  then show ?thesis
    by (simp add: unat_word_ariths unsigned_take_bit_eq unat_drop_bit_eq take_bit_eq_mod drop_bit_eq_div)
qed

lemma carry_decreases:
  assumes "drop_bit 16 acc \<noteq> (0 :: u64)"
  shows "unat (take_bit 16 acc + drop_bit 16 acc) < unat acc"
proof -
  have "unat (drop_bit 16 acc) \<noteq> 0" using assms unat_eq_zero by blast
  then have "unat acc div 65536 \<noteq> 0" unfolding unat_drop_bit_eq by (simp add: drop_bit_eq_div)
  then show ?thesis unfolding unat_carry by (rule carry_less(2))
qed

function carry :: "u64 \<Rightarrow> u64" where
  "carry acc = (if drop_bit 16 acc = 0 then acc else carry (take_bit 16 acc + drop_bit 16 acc))"
  by pat_completeness auto
termination
  by (relation "measure unat") (simp_all add: carry_decreases)

declare carry.simps [simp del]

definition reverse_low :: "u64 \<Rightarrow> u64" where
  "reverse_low acc = drop_bit 8 (acc AND 0xff00) OR push_bit 8 (acc AND 0x00ff)"

definition htons :: "u16 \<Rightarrow> u16" where
  "htons r = drop_bit 8 r OR push_bit 8 r"

definition ip_checksum :: "nat \<Rightarrow> byte list \<Rightarrow> u64" where
  "ip_checksum addr bs =
     (let (acc, rest) = ip_start addr bs 0xffff;
          acc = ip_blocks rest acc;
          acc = carry ((acc AND 0xffffffff) + drop_bit 32 acc);
          acc = (if odd addr then reverse_low acc else acc)
      in ucast (htons (ucast (NOT acc))))"

section \<open>What is added up\<close>

text \<open>Every byte counts with the weight of its place in its block.\<close>

primrec wsum :: "nat \<Rightarrow> byte list \<Rightarrow> nat" where
  "wsum k [] = 0"
| "wsum k (b # bs) = unat b * 256 ^ (3 - k mod 4) + wsum (Suc k) bs"

lemma wsum_append: "wsum k (xs @ ys) = wsum k xs + wsum (k + length xs) ys"
  by (induction xs arbitrary: k) simp_all

lemma wsum_zeros [simp]: "wsum k (replicate n 0) = 0"
  by (induction n arbitrary: k) simp_all

lemma wsum_mod: "wsum (k mod 4) bs = wsum k bs"
proof (induction bs arbitrary: k)
  case (Cons b bs)
  from Cons [of "Suc (k mod 4)"] Cons [of "Suc k"] show ?case by (simp add: mod_Suc_eq)
qed simp

lemma wsum_update:
  assumes "i < length bs"
  shows "wsum k (bs[i := b]) + unat (bs ! i) * 256 ^ (3 - (k + i) mod 4) = wsum k bs + unat b * 256 ^ (3 - (k + i) mod 4)"
  using assms
proof (induction bs arbitrary: k i)
  case (Cons x bs)
  show ?case
  proof (cases i)
    case (Suc j)
    with Cons.IH [of j "Suc k"] Cons.prems show ?thesis by simp
  qed simp
qed simp

lemma wsum_bound: "wsum k bs \<le> length bs * 2 ^ 32"
proof (induction bs arbitrary: k)
  case (Cons b bs)
  have "unat b * 256 ^ (3 - k mod 4) \<le> 2 ^ 8 * 256 ^ 3"
    using unsigned_less [of b, where 'a = nat] by (intro mult_le_mono power_increasing) simp_all
  with Cons [of "Suc k"] show ?case by simp
qed simp

lemma unat_le_word_Cons:
  assumes "8 * length (b # bs) \<le> LENGTH('a)"
  shows "unat (le_word (b # bs) :: 'a::len word) = unat b + 256 * unat (le_word bs :: 'a word)"
proof -
  have small: "unat (le_word bs :: 'a word) < 2 ^ (8 * length bs)"
  proof -
    have "take_bit (8 * length bs) (le_word bs :: 'a word) = le_word bs"
      by (rule bit_word_eqI) (auto simp: bit_take_bit_iff bit_le_word)
    then have "unat (le_word bs :: 'a word) = take_bit (8 * length bs) (unat (le_word bs :: 'a word))"
      by (metis unsigned_take_bit_eq)
    then show ?thesis by (metis take_bit_nat_less_exp)
  qed
  have fit: "256 * unat (le_word bs :: 'a word) + 255 < 2 ^ LENGTH('a)"
  proof -
    have "256 * unat (le_word bs :: 'a word) + 255 < 2 ^ 8 * 2 ^ (8 * length bs)" using small by simp
    also have "\<dots> = 2 ^ (8 * length (b # bs))" by (simp add: power_add)
    also have "\<dots> \<le> 2 ^ LENGTH('a)" using assms by (intro power_increasing) simp_all
    finally show ?thesis .
  qed
  have b: "unat b < 256" using unsigned_less [of b, where 'a = nat] by simp
  have len: "8 \<le> LENGTH('a)" using assms by simp
  have "(ucast b :: 'a word) AND push_bit 8 (le_word bs) = 0"
    by (rule bit_word_eqI) (auto simp: bit_simps dest: bit_imp_le_length)
  then have "(le_word (b # bs) :: 'a word) = ucast b + push_bit 8 (le_word bs)"
    by (simp add: disjunctive_add_eq_or)
  moreover have "unat (ucast b :: 'a word) = unat b"
    using len b fit by (simp add: unsigned_ucast_eq take_bit_nat_eq_self)
  moreover have "unat (push_bit 8 (le_word bs) :: 'a word) = 256 * unat (le_word bs :: 'a word)"
    unfolding unsigned_push_bit_eq using fit by (simp add: push_bit_eq_mult take_bit_nat_eq_self mult.commute)
  ultimately show ?thesis using fit b by (simp add: unat_word_ariths)
qed

lemma bytes_le_word: "length bs = n \<Longrightarrow> 8 * n \<le> LENGTH('a) \<Longrightarrow> le_bytes n (le_word bs :: 'a::len word) = bs"
  by (rule nth_equalityI) (auto simp: bit_le_bytes bit_le_word intro!: bit_word_eqI dest: bit_imp_le_length)

lemma unat_ntohl: "unat (ntohl (le_word [a, b, c, d])) = unat a * 256 ^ 3 + unat b * 256 ^ 2 + unat c * 256 + unat d"
  by (simp add: ntohl_def bytes_le_word unat_le_word_Cons del: le_word.simps(2))

section \<open>The checksum as a function of the sum\<close>

lemma wsum_block: "length ws = 4 \<Longrightarrow> unat (ntohl (le_word ws)) = wsum 0 ws"
proof -
  assume "length ws = 4"
  then obtain a b c d where ws: "ws = [a, b, c, d]" by (auto simp: numeral_eq_Suc length_Suc_conv)
  show ?thesis unfolding ws unat_ntohl by simp
qed

lemma wsum_block_at: "k + length ws \<le> 4 \<Longrightarrow> unat (ntohl (le_word (replicate k 0 @ ws @ replicate (4 - k - length ws) 0))) = wsum k ws"
  by (simp add: wsum_block wsum_append)

text \<open>A sum that fits is exact.\<close>

lemma unat_acc: "unat acc + 2 ^ 32 < 2 ^ 64 \<Longrightarrow> unat ((acc :: u64) + ucast (w :: u32)) = unat acc + unat w"
  using unat32_bound [of w] by (simp add: unat_word_ariths unsigned_ucast_eq take_bit_nat_eq_self)

lemma ip_blocks_sum:
  assumes "unat acc + (length bs + 4) * 2 ^ 32 < 2 ^ 64"
  shows "unat (ip_blocks bs acc) = unat acc + wsum 0 bs"
proof -
  have part: "unat (acc + ucast (ntohl (le_word (bs @ replicate (4 - length bs) 0)))) = unat acc + wsum 0 bs"
    if "length bs \<le> 4" "unat acc + 2 ^ 32 < 2 ^ 64" for bs and acc :: u64
    using that wsum_block_at [of 0 bs] by (simp add: unat_acc)
  from assms show ?thesis
  proof (induction bs acc rule: ip_blocks.induct)
    case (1 a b c d bs acc)
    let ?w = "ntohl (le_word [a, b, c, d])"
    have w: "unat ?w = wsum 0 [a, b, c, d]" by (rule wsum_block) simp
    have s: "unat (acc + ucast ?w) = unat acc + unat ?w" using 1(2) by (intro unat_acc) simp
    have "unat (acc + ucast ?w) + (length bs + 4) * 2 ^ 32 < 2 ^ 64"
      unfolding s using unat32_bound [of ?w] 1(2) by simp
    from 1(1) [OF this] have "unat (ip_blocks (a # b # c # d # bs) acc) = unat acc + unat ?w + wsum 0 bs"
      unfolding ip_blocks.simps s .
    moreover have "wsum 0 (a # b # c # d # bs) = unat ?w + wsum 0 bs"
    proof -
      have "wsum (Suc (Suc (Suc (Suc 0)))) bs = wsum 0 bs" using wsum_mod [of "Suc (Suc (Suc (Suc 0)))" bs] by simp
      with wsum_append [of 0 "[a, b, c, d]" bs] show ?thesis unfolding w by (simp del: wsum.simps)
    qed
    ultimately show ?case by simp
  next
    case (2 acc)
    show ?case by simp
  qed (unfold ip_blocks.simps, (rule part; simp)+)
qed

lemma ip_sum:
  assumes "ip_start addr bs 0xffff = (acc, rest)" and "length bs < 2 ^ 31"
  shows "unat (ip_blocks rest acc) = 65535 + wsum addr bs"
proof (cases "addr mod 4 = 0")
  case True
  with assms(1) have "acc = 0xffff" "rest = bs" by (simp_all add: ip_start_def)
  then show ?thesis using ip_blocks_sum [of acc bs] assms(2) wsum_mod [of addr bs] True by simp
next
  case False
  let ?k = "addr mod 4" and ?n = "min (4 - addr mod 4) (length bs)"
  let ?w = "ntohl (le_word (replicate ?k 0 @ take ?n bs @ replicate (4 - ?k - ?n) 0))"
  from False assms(1) have acc: "acc = 0xffff + ucast ?w" and rest: "rest = drop ?n bs"
    by (simp_all add: ip_start_def Let_def)
  have k: "?k < 4" by simp
  have w: "unat ?w = wsum ?k (take ?n bs)" using wsum_block_at [of ?k "take ?n bs"] k by simp
  then have a: "unat acc = 65535 + wsum ?k (take ?n bs)" unfolding acc w [symmetric] by (subst unat_acc) simp_all
  have "unat acc + (length rest + 4) * 2 ^ 32 < 2 ^ 64"
  proof -
    have "wsum ?k (take ?n bs) < 2 ^ 32" using w unat32_bound [of ?w] by metis
    moreover have "length rest \<le> length bs" using rest by simp
    ultimately show ?thesis using a assms(2) by simp
  qed
  then have "unat (ip_blocks rest acc) = unat acc + wsum 0 rest" by (rule ip_blocks_sum)
  moreover have "wsum addr bs = wsum ?k (take ?n bs) + wsum 0 rest"
  proof -
    have "wsum addr bs = wsum ?k (take ?n bs @ rest)" using wsum_mod [of addr bs] rest by simp
    also have "\<dots> = wsum ?k (take ?n bs) + wsum (?k + ?n) rest" unfolding wsum_append by simp
    also have "wsum (?k + ?n) rest = wsum 0 rest"
    proof (cases "length bs \<le> 4 - ?k")
      case True
      then show ?thesis using rest by simp
    next
      case False
      then have "?k + ?n = 4" using k by simp
      then show ?thesis using wsum_mod [of 4 rest] by simp
    qed
    finally show ?thesis .
  qed
  ultimately show ?thesis using a by simp
qed

text \<open>Folding the carries keeps the value modulo 65535 and ends with 16 bits; a positive sum stays positive.\<close>

lemma fold_mod: "((x :: nat) mod k + x div k) mod (k - 1) = x mod (k - 1)" if "0 < k"
proof -
  have "x = (x mod k + x div k) + x div k * (k - 1)"
    using that div_mult_mod_eq [of x k] by (simp add: algebra_simps diff_mult_distrib2)
  then show ?thesis by (metis mod_mult_self1)
qed

lemma carry_spec:
  "unat (carry acc) < 65536 \<and> unat (carry acc) mod 65535 = unat acc mod 65535 \<and> (acc \<noteq> 0 \<longrightarrow> carry acc \<noteq> 0)"
proof (induction acc rule: carry.induct)
  case (1 acc)
  show ?case
  proof (cases "drop_bit 16 acc = 0")
    case True
    then have "unat acc div 65536 = 0" using unat_drop_bit_eq [of 16 acc] by (simp add: drop_bit_eq_div)
    with True show ?thesis by (simp add: carry.simps [of acc])
  next
    case False
    let ?y = "take_bit 16 acc + drop_bit 16 acc"
    have y: "unat ?y = unat acc mod 65536 + unat acc div 65536" by (rule unat_carry)
    have "unat (drop_bit 16 acc) \<noteq> 0" using False unat_eq_zero by blast
    then have "unat acc div 65536 \<noteq> 0" unfolding unat_drop_bit_eq by (simp add: drop_bit_eq_div)
    then have "unat ?y \<noteq> 0" unfolding y by simp
    then have "?y \<noteq> 0" by (metis unsigned_0)
    with 1 [OF False] show ?thesis using y fold_mod [of 65536 "unat acc"] by (simp add: carry.simps [of acc] False)
  qed
qed

text \<open>What the checksum is before its bytes are put in order.\<close>

definition folded :: "nat \<Rightarrow> byte list \<Rightarrow> u64" where
  "folded addr bs =
     (let (acc, rest) = ip_start addr bs 0xffff; acc = ip_blocks rest acc
      in carry ((acc AND 0xffffffff) + drop_bit 32 acc))"

lemma mod_eq_dvd: "(k :: nat) dvd m \<Longrightarrow> a mod m = b mod m \<Longrightarrow> a mod k = b mod k"
  by (metis mod_mod_cancel)

lemma folded_spec:
  assumes "length bs < 2 ^ 31"
  shows "unat (folded addr bs) < 65536 \<and> unat (folded addr bs) mod 65535 = wsum addr bs mod 65535 \<and> folded addr bs \<noteq> 0"
proof -
  obtain acc rest where start: "ip_start addr bs 0xffff = (acc, rest)" by force
  let ?x = "ip_blocks rest acc"
  have x: "unat ?x = 65535 + wsum addr bs" by (rule ip_sum [OF start assms])
  have mask: "?x AND 0xffffffff = take_bit 32 ?x"
    by (simp add: take_bit_eq_mask mask_eq_exp_minus_1)
  have "unat ?x < 2 ^ 64" using unsigned_less [of ?x, where 'a = nat] by simp
  then have "unat ?x mod 2 ^ 32 + unat ?x div 2 ^ 32 < 2 ^ 32 + 2 ^ 32"
    by (intro add_strict_mono) (auto simp: less_mult_imp_div_less)
  then have y: "unat ((?x AND 0xffffffff) + drop_bit 32 ?x) = unat ?x mod 2 ^ 32 + unat ?x div 2 ^ 32"
    unfolding mask by (simp add: unat_word_ariths unsigned_take_bit_eq unat_drop_bit_eq take_bit_eq_mod drop_bit_eq_div)
  have "(2 :: nat) ^ 32 - 1 = 65535 * 65537" by simp
  then have d: "65535 dvd (2 :: nat) ^ 32 - 1" by (metis dvd_triv_left)
  have "(unat ?x mod 2 ^ 32 + unat ?x div 2 ^ 32) mod (2 ^ 32 - 1) = unat ?x mod (2 ^ 32 - 1)" by (rule fold_mod) simp
  then have m: "unat ((?x AND 0xffffffff) + drop_bit 32 ?x) mod 65535 = unat ?x mod 65535"
    unfolding y by (rule mod_eq_dvd [OF d])
  have nz: "n mod k + n div k \<noteq> 0" if "n \<noteq> 0" for n k :: nat
    using that by (metis add_is_0 div_mult_mod_eq mult_0)
  have "unat ?x \<noteq> 0" unfolding x by simp
  then have "unat ((?x AND 0xffffffff) + drop_bit 32 ?x) \<noteq> 0" unfolding y by (rule nz)
  then have "(?x AND 0xffffffff) + drop_bit 32 ?x \<noteq> 0" by (rule contrapos_nn) simp
  with carry_spec [of "(?x AND 0xffffffff) + drop_bit 32 ?x"] show ?thesis
    using m x by (simp add: folded_def start Let_def)
qed

text \<open>The bytes are put in order without loss.\<close>

lemma swap_bits:
  assumes "n < 64"
  shows "bit (reverse_low x) n \<longleftrightarrow>
      (if n < 8 then bit x (n + 8) else if n < 16 then bit x (n - 8) else False)"
proof -
  have masks: "(0xff00 :: u64) = push_bit 8 (mask 8)" "(0x00ff :: u64) = mask 8"
    by (simp_all add: mask_eq_exp_minus_1 push_bit_eq_mult)
  show ?thesis unfolding masks reverse_low_def using assms by (auto simp: bit_simps add.commute)
qed

lemma swap_bytes_inj:
  fixes x y :: u64
  assumes "unat x < 65536" "unat y < 65536"
    and "reverse_low x = reverse_low y"
  shows "x = y"
proof -
  have high: "\<not> bit x n" if "unat x < 65536" "16 \<le> n" for x :: u64 and n
  proof -
    have "take_bit 16 (unat x) = unat x" using that(1) by (simp add: take_bit_nat_eq_self)
    then have "bit (unat x) n \<longleftrightarrow> bit (take_bit 16 (unat x)) n" by simp
    then show ?thesis using that(2) by (auto simp: bit_take_bit_iff bit_unsigned_iff)
  qed
  show ?thesis
  proof (rule bit_word_eqI)
    fix n assume "n < LENGTH(64)"
    then have n: "n < 64" by simp
    consider "n < 8" | "8 \<le> n" "n < 16" | "16 \<le> n" by linarith
    then show "bit x n \<longleftrightarrow> bit y n"
    proof cases
      case 1
      with swap_bits [of "n + 8" x] swap_bits [of "n + 8" y] assms(3) show ?thesis by simp
    next
      case 2
      then have "n - 8 < 8" "n - 8 + 8 = n" by simp_all
      with swap_bits [of "n - 8" x] swap_bits [of "n - 8" y] assms(3) show ?thesis by simp
    next
      case 3
      with high assms(1,2) show ?thesis by blast
    qed
  qed
qed

lemma htons_inj:
  assumes "htons r = htons s"
  shows "r = s"
proof (rule bit_word_eqI)
  have bits: "bit (htons r) n \<longleftrightarrow> (if n < 8 then bit r (n + 8) else bit r (n - 8))" if "n < 16" for r :: u16 and n
    using that by (auto simp: htons_def bit_simps add.commute dest: bit_imp_le_length)
  fix n assume "n < LENGTH(16)"
  then consider "n < 8" | "8 \<le> n" "n - 8 < 8" "n - 8 + 8 = n" by fastforce
  then show "bit r n \<longleftrightarrow> bit s n"
  proof cases
    case 1
    with bits [of "n + 8" r] bits [of "n + 8" s] assms show ?thesis by simp
  next
    case 2
    with bits [of "n - 8" r] bits [of "n - 8" s] assms show ?thesis by simp
  qed
qed

lemma low_bits_inj:
  fixes x y :: u64
  assumes "unat x < 65536" "unat y < 65536" and "(ucast (NOT x) :: u16) = ucast (NOT y)"
  shows "x = y"
proof -
  have "(ucast (NOT z) :: u16) = NOT (ucast z)" for z :: u64 by (rule bit_word_eqI) (simp add: bit_simps)
  then have "(ucast x :: u16) = ucast y" using assms(3) by (metis bit.double_compl)
  then have "unat (ucast x :: u16) = unat (ucast y :: u16)" by simp
  then show ?thesis using assms(1,2) by (simp add: unsigned_ucast_eq take_bit_nat_eq_self word_unat_eq_iff)
qed

lemma ip_checksum_folded:
  "ip_checksum addr bs =
     (let acc = folded addr bs;
          acc = (if odd addr then reverse_low acc else acc)
      in ucast (htons (ucast (NOT acc))))"
  by (simp add: ip_checksum_def folded_def Let_def split_beta)

lemma reverse_low_less: "unat (reverse_low x) < 65536"
proof -
  have "take_bit 16 (reverse_low x) = reverse_low x" by (rule bit_word_eqI) (auto simp: bit_take_bit_iff swap_bits)
  then have "unat (reverse_low x) = take_bit 16 (unat (reverse_low x))" by (metis unsigned_take_bit_eq)
  also have "\<dots> < 2 ^ 16" by (rule take_bit_nat_less_exp)
  finally show ?thesis by simp
qed

lemma ucast16_inj: "(ucast r :: u64) = ucast s \<Longrightarrow> (r :: u16) = s"
proof (rule bit_word_eqI)
  fix n assume eq: "(ucast r :: u64) = ucast s" and n: "n < LENGTH(16)"
  have "bit (ucast t :: u64) n \<longleftrightarrow> bit t n" for t :: u16 using n by (simp add: bit_ucast_iff)
  then show "bit r n \<longleftrightarrow> bit s n" using eq by metis
qed

lemma ip_checksum_eq:
  assumes "length bs < 2 ^ 31" "length cs < 2 ^ 31"
  shows "ip_checksum addr bs = ip_checksum addr cs \<longleftrightarrow> folded addr bs = folded addr cs"
proof
  let ?sw = "\<lambda>x. if odd addr then reverse_low x else x"
  assume "ip_checksum addr bs = ip_checksum addr cs"
  then have "(ucast (NOT (?sw (folded addr bs))) :: u16) = ucast (NOT (?sw (folded addr cs)))"
    unfolding ip_checksum_folded Let_def using htons_inj ucast16_inj by blast
  moreover have f: "unat (folded addr bs) < 65536" "unat (folded addr cs) < 65536" using folded_spec assms by blast+
  ultimately have "?sw (folded addr bs) = ?sw (folded addr cs)" by (intro low_bits_inj) (auto simp: reverse_low_less)
  then show "folded addr bs = folded addr cs" using swap_bytes_inj [OF f] by (auto split: if_splits)
qed (simp add: ip_checksum_folded)

text \<open>
  C22: two messages of the same length that differ in one byte have different checksums, wherever the message
  starts: an error in a single byte of a message between two servers is always noticed.
\<close>

theorem single_byte_error_noticed:
  assumes "i < length bs" and "length bs < 2 ^ 31" and "b \<noteq> bs ! i"
  shows "ip_checksum addr (bs[i := b]) \<noteq> ip_checksum addr bs"
proof
  assume "ip_checksum addr (bs[i := b]) = ip_checksum addr bs"
  then have "folded addr (bs[i := b]) = folded addr bs" using ip_checksum_eq assms(2) by simp
  then have eq: "wsum addr (bs[i := b]) mod 65535 = wsum addr bs mod 65535"
    using folded_spec [of "bs[i := b]" addr] folded_spec [of bs addr] assms(2) by simp
  define w :: nat where "w = 256 ^ (3 - (addr + i) mod 4)"
  have sum: "wsum addr (bs[i := b]) + unat (bs ! i) * w = wsum addr bs + unat b * w"
    unfolding w_def by (rule wsum_update [OF assms(1)])
  let ?d = "int (unat b) - int (unat (bs ! i))"
  have "int (wsum addr (bs[i := b])) mod 65535 = int (wsum addr bs) mod 65535"
    using eq by (metis of_nat_mod of_nat_numeral)
  then have "65535 dvd int (wsum addr (bs[i := b])) - int (wsum addr bs)" by (simp add: mod_eq_dvd_iff)
  moreover have "int (wsum addr (bs[i := b])) - int (wsum addr bs) = ?d * int w"
    using arg_cong [OF sum, of int] by (simp add: algebra_simps)
  ultimately have "65535 dvd ?d * int w" by simp
  moreover have "coprime 65535 (int w)"
  proof -
    have "coprime (65535 :: int) 256"
    proof (rule coprimeI)
      fix c :: int assume "c dvd 65535" "c dvd 256"
      then have "c dvd 256 * 256 - 65535" by (metis dvd_diff dvd_mult)
      then show "is_unit c" by simp
    qed
    then show ?thesis by (simp add: w_def coprime_power_right_iff)
  qed
  ultimately have "65535 dvd ?d" by (simp add: coprime_dvd_mult_left_iff)
  moreover have "\<bar>?d\<bar> < 65535"
  proof -
    have "\<bar>int x - int y\<bar> < 65535" if "x < 2 ^ 8" "y < 2 ^ 8" for x y :: nat using that by simp
    moreover have "unat b < 2 ^ 8" "unat (bs ! i) < 2 ^ 8"
      using unsigned_less [of b, where 'a = nat] unsigned_less [of "bs ! i", where 'a = nat] by simp_all
    ultimately show ?thesis by blast
  qed
  ultimately have "?d = 0" using zdvd_not_zless [of "\<bar>?d\<bar>" 65535] by auto
  then have "unat b = unat (bs ! i)" by linarith
  then show False using assms(3) by (simp add: word_unat_eq_iff)
qed

theorem single_byte_error_noticed_witness: "ip_checksum 2 [5, 6, 8] \<noteq> ip_checksum 2 [5, 6, 7]"
  using single_byte_error_noticed [of 2 "[5, 6, 7]" 8 2] by simp

end
