(* ===== verification/Connect.thy ===== *)
theory Connect
  imports Checksum
begin

text \<open>
  Connecting the servers (\<open>rdma_lib/rdmaio.hpp\<close>, \<open>core/rdma.hpp\<close>): every server creates a reliable queue pair per
  thread and server, and asks the other servers over TCP for the attributes of the matching queue pairs until
  all of its own are connected, while a background thread answers the requests of the others. The verbs
  library is a parameter \<open>'h qp_verbs\<close>, and TCP delivers the messages of an attempt or fails.
\<close>

section \<open>Queue pair ids\<close>

definition RC_ID_BASE :: nat where "RC_ID_BASE = 0"
definition UC_ID_BASE :: nat where "UC_ID_BASE = 10000"
definition UD_ID_BASE :: nat where "UD_ID_BASE = 20000"

text \<open>\<open>((mac) << 16 | (index))\<close> on \<open>int\<close>s, stored in a \<open>uint64_t\<close>.\<close>

definition QP_ENCODE_ID :: "nat \<Rightarrow> nat \<Rightarrow> u64" where
  "QP_ENCODE_ID mac index = scast (push_bit 16 (of_nat mac :: u32) OR of_nat index)"

definition QP_DECODE_MAC :: "u64 \<Rightarrow> u64" where
  "QP_DECODE_MAC qid = drop_bit 16 (qid AND NOT 0xffff)"

definition QP_DECODE_INDEX :: "u64 \<Rightarrow> u64" where
  "QP_DECODE_INDEX qid = qid AND 0xffff"

definition IS_RC :: "u64 \<Rightarrow> bool" where
  "IS_RC qid \<longleftrightarrow> RC_ID_BASE \<le> unat (QP_DECODE_INDEX qid) \<and> unat (QP_DECODE_INDEX qid) < UC_ID_BASE"

definition IS_UC :: "u64 \<Rightarrow> bool" where
  "IS_UC qid \<longleftrightarrow> UC_ID_BASE \<le> unat (QP_DECODE_INDEX qid) \<and> unat (QP_DECODE_INDEX qid) < UD_ID_BASE"

definition IS_CONN :: "u64 \<Rightarrow> bool" where
  "IS_CONN qid \<longleftrightarrow> RC_ID_BASE \<le> unat (QP_DECODE_INDEX qid) \<and> unat (QP_DECODE_INDEX qid) < UD_ID_BASE"

definition IS_UD :: "u64 \<Rightarrow> bool" where
  "IS_UD qid \<longleftrightarrow> UD_ID_BASE \<le> unat (QP_DECODE_INDEX qid)"

section \<open>Messages\<close>

text \<open>
  \<open>QPConnArg\<close> and \<open>RdmaQpAttr\<close> are 64 bytes each, the first 8 of which are the checksum of the others; a
  message starts at an address divisible by 64, so what is summed starts 8 bytes after it.
  \<open>fresh n\<close> is the content of padding that was never written.
\<close>

definition MAGIC_NUM :: u64 where "MAGIC_NUM = 73"
definition TCPSUCC :: byte where "TCPSUCC = 27"
definition TCPFAIL :: byte where "TCPFAIL = 28"

definition seal :: "byte list \<Rightarrow> byte list" where
  "seal body = le_bytes 8 (ip_checksum 8 body) @ body"

definition sealed :: "byte list \<Rightarrow> bool" where
  "sealed msg \<longleftrightarrow> le_word (take 8 msg) = ip_checksum 8 (drop 8 msg)"

record conn_arg =
  ca_qid :: u64
  ca_tid :: byte
  ca_nid :: byte
  ca_sign :: u64

definition conn_arg_body :: "conn_arg \<Rightarrow> byte list" where
  "conn_arg_body a = le_bytes 8 (ca_qid a) @ [ca_tid a, ca_nid a] @ replicate 6 0 @ le_bytes 8 (ca_sign a) @ replicate 32 0"

type_synonym gid = "byte list"

record qp_attr =
  qa_buf :: u64
  qa_buf_size :: u32
  qa_rkey :: u32
  qa_lid :: u16
  qa_qpn :: u64
  qa_gid :: gid

definition qp_attr_body :: "(nat \<Rightarrow> byte list) \<Rightarrow> qp_attr \<Rightarrow> byte list" where
  "qp_attr_body fresh a =
     le_bytes 8 (qa_buf a) @ le_bytes 4 (qa_buf_size a) @ le_bytes 4 (qa_rkey a) @ le_bytes 2 (qa_lid a) @ fresh 6 @
     le_bytes 8 (qa_qpn a) @ qa_gid a @ fresh 8"

definition parse_attr :: "byte list \<Rightarrow> qp_attr" where
  "parse_attr msg = \<lparr>qa_buf = le_word (slice msg 8 8), qa_buf_size = le_word (slice msg 16 4), qa_rkey = le_word (slice msg 20 4),
     qa_lid = le_word (slice msg 24 2), qa_qpn = le_word (slice msg 32 8), qa_gid = slice msg 40 16\<rparr>"

text \<open>\<open>QPReplyHeader\<close>: the status, padded to 8 bytes, and the id; the buffer was zeroed.\<close>

definition reply_header :: "byte \<Rightarrow> u64 \<Rightarrow> byte list" where
  "reply_header status qid = status # replicate 7 0 @ le_bytes 8 qid"

section \<open>The verbs library\<close>

text \<open>What \<open>ibv_modify_qp\<close> is asked for, and the states it leads to.\<close>

datatype qp_change = To_Init nat | To_RTR nat u64 u16 "gid option" | To_RTS

datatype qp_state = Reset | Init nat | RTR nat u64 u16 "gid option" | RTS nat u64 u16 "gid option"

text \<open>
  Creating a queue pair (with its completion queue) gives its number, or fails; \<open>ibv_modify_qp\<close> gives 0 or an
  error; \<open>ibv_query_gid\<close> on a port. \<open>qv_state\<close> is the state of a queue pair the card holds.
\<close>

record 'h qp_verbs =
  qv_create :: "'h \<Rightarrow> 'h \<times> u64 option"
  qv_modify :: "u64 \<Rightarrow> qp_change \<Rightarrow> 'h \<Rightarrow> 'h \<times> int"
  qv_gid :: "'h \<Rightarrow> nat \<Rightarrow> gid option"
  qv_state :: "'h \<Rightarrow> u64 \<Rightarrow> qp_state option"

section \<open>Queue pairs and their manager\<close>

record rc_qp =
  rc_tid :: nat
  rc_idx :: nat
  rc_nid :: nat
  rc_port_idx :: nat
  rc_port_id :: nat
  rc_qpn :: u64
  rc_inited :: bool
  rc_remote :: "qp_attr option"

text \<open>\<open>RdmaCtrl\<close>, with the device it opened: \<open>ct_conn_mr\<close> is the key of the registered buffer.\<close>

record 'h ctrl =
  ct_node :: nat
  ct_nodes :: nat
  ct_single_mr :: bool
  ct_conn_buf :: u64
  ct_conn_buf_size :: u64
  ct_conn_mr :: "u32 option"
  ct_lids :: "u16 list"
  ct_card :: 'h
  ct_qps :: "u64 \<rightharpoonup> rc_qp"

definition num_rc_qps :: nat where "num_rc_qps = 100"

definition rc_qid :: "nat \<Rightarrow> nat \<Rightarrow> nat \<Rightarrow> u64" where
  "rc_qid tid remote_id idx = QP_ENCODE_ID remote_id (RC_ID_BASE + tid * num_rc_qps + idx)"

text \<open>\<open>CE_1 (rc, ..)\<close> ends the program.\<close>

definition modify_qp :: "'h qp_verbs \<Rightarrow> u64 \<Rightarrow> qp_change \<Rightarrow> 'h ctrl \<Rightarrow> 'h ctrl result" where
  "modify_qp qv qpn ch c =
     (let (h, rc) = qv_modify qv qpn ch (ct_card c) in
      if rc \<noteq> 0 then Inl (Runtime_Error ''Failed to modify the state of a qp'') else Inr (c\<lparr>ct_card := h\<rparr>))"

definition rc_ready2init :: "'h qp_verbs \<Rightarrow> u64 \<Rightarrow> nat \<Rightarrow> 'h ctrl \<Rightarrow> 'h ctrl result" where
  "rc_ready2init qv qpn port_id = modify_qp qv qpn (To_Init port_id)"

text \<open>The global route is used when the interface id of the other port (the last 8 bytes of its GID) is not zero.\<close>

definition rc_init2rtr :: "'h qp_verbs \<Rightarrow> u64 \<Rightarrow> nat \<Rightarrow> u64 \<Rightarrow> u16 \<Rightarrow> gid \<Rightarrow> 'h ctrl \<Rightarrow> 'h ctrl result" where
  "rc_init2rtr qv qpn port_id dest dlid dgid =
     modify_qp qv qpn (To_RTR port_id dest dlid (if drop 8 dgid \<noteq> replicate 8 0 then Some dgid else None))"

definition rc_rtr2rts :: "'h qp_verbs \<Rightarrow> u64 \<Rightarrow> 'h ctrl \<Rightarrow> 'h ctrl result" where
  "rc_rtr2rts qv qpn = modify_qp qv qpn To_RTS"

definition init_rc :: "'h qp_verbs \<Rightarrow> nat \<Rightarrow> rc_qp \<Rightarrow> 'h ctrl \<Rightarrow> ('h ctrl \<times> rc_qp) result" where
  "init_rc qv port_id q c =
     (case qv_create qv (ct_card c) of
        (h, None) \<Rightarrow> Inl Assert_Failed
      | (h, Some qpn) \<Rightarrow>
          rbind (rc_ready2init qv qpn port_id (c\<lparr>ct_card := h\<rparr>)) (\<lambda>c. Inr (c, q\<lparr>rc_port_id := port_id, rc_qpn := qpn\<rparr>)))"

text \<open>\<open>create_rc_qp\<close>; a pointer to a queue pair is its id.\<close>

definition create_rc_qp :: "'h qp_verbs \<Rightarrow> nat \<Rightarrow> nat \<Rightarrow> nat \<Rightarrow> nat \<Rightarrow> 'h ctrl \<Rightarrow> ('h ctrl \<times> u64) result" where
  "create_rc_qp qv tid remote_id port_idx idx c =
     rbind (require (idx < num_rc_qps) Assert_Failed) (\<lambda>_.
     let qid = rc_qid tid remote_id idx in
     if ct_qps c qid \<noteq> None then Inr (c, qid)
     else rbind (init_rc qv port_idx \<lparr>rc_tid = tid, rc_idx = idx, rc_nid = remote_id,
             rc_port_idx = (if ct_single_mr c then 1 else port_idx), rc_port_id = 0, rc_qpn = 0, rc_inited = False, rc_remote = None\<rparr> c)
          (\<lambda>(c, q). Inr (c\<lparr>ct_qps := (ct_qps c)(qid \<mapsto> q)\<rparr>, qid)))"

definition get_rc_qp :: "nat \<Rightarrow> nat \<Rightarrow> nat \<Rightarrow> 'h ctrl \<Rightarrow> (u64 \<times> rc_qp) result" where
  "get_rc_qp tid remote_id idx c =
     (case ct_qps c (rc_qid tid remote_id idx) of None \<Rightarrow> Inl Assert_Failed | Some q \<Rightarrow> Inr (rc_qid tid remote_id idx, q))"

section \<open>Answering\<close>

text \<open>The attributes of a queue pair of this server; what an id of no connection leaves unset is \<open>fresh\<close>.\<close>

definition get_local_qp_attr :: "'h qp_verbs \<Rightarrow> (nat \<Rightarrow> byte list) \<Rightarrow> u64 \<Rightarrow> 'h ctrl \<Rightarrow> byte list result" where
  "get_local_qp_attr qv fresh qid c =
     (case ct_qps c qid of
        None \<Rightarrow> Inl Assert_Failed
      | Some q \<Rightarrow>
          rbind (if IS_CONN qid
                 then (case ct_conn_mr c of None \<Rightarrow> Inl Assert_Failed
                       | Some rkey \<Rightarrow> Inr (ct_conn_buf c, ucast (ct_conn_buf_size c), rkey))
                 else Inr (le_word (fresh 8), le_word (fresh 4), le_word (fresh 4))) (\<lambda>(buf, buf_size, rkey).
          rbind (rget (ct_lids c) (rc_port_id q)) (\<lambda>lid.
          case qv_gid qv (ct_card c) (rc_port_idx q) of
            None \<Rightarrow> Inl Assert_Failed
          | Some g \<Rightarrow> Inr (seal (qp_attr_body fresh \<lparr>qa_buf = buf, qa_buf_size = buf_size, qa_rkey = rkey, qa_lid = lid,
               qa_qpn = rc_qpn q, qa_gid = g\<rparr>)))))"

text \<open>
  \<open>recv_thread\<close>: the answer to one request, \<open>None\<close> when the connection is closed without one. The first
  assertion of the code assigns the magic number to the field it should compare.
\<close>

definition set_sign :: "byte list \<Rightarrow> byte list" where
  "set_sign msg = take 24 msg @ le_bytes 8 MAGIC_NUM @ drop 32 msg"

definition recv_thread :: "'h qp_verbs \<Rightarrow> (nat \<Rightarrow> byte list) \<Rightarrow> byte list \<Rightarrow> 'h ctrl \<Rightarrow> byte list option result" where
  "recv_thread qv fresh msg c =
     (if length msg \<noteq> 64 then Inr None
      else
        let msg = set_sign msg; qid = le_word (slice msg 8 8) in
        rbind (require (sealed msg) Assert_Failed) (\<lambda>_.
        case ct_qps c qid of
          None \<Rightarrow> Inr (Some (reply_header TCPFAIL 0 @ replicate 64 0))
        | Some q \<Rightarrow>
            if IS_UD qid then
              (if \<not> rc_inited q then Inr (Some (reply_header TCPFAIL qid @ replicate 64 0))
               else rbind (get_local_qp_attr qv fresh qid c) (\<lambda>a. Inr (Some (reply_header TCPSUCC qid @ a))))
            else rbind (get_local_qp_attr qv fresh qid c) (\<lambda>a. Inr (Some (reply_header TCPSUCC 0 @ a)))))"

section \<open>Asking\<close>

text \<open>The state changes of \<open>change_qp_states\<close> for a reliable queue pair.\<close>

definition change_qp_states :: "'h qp_verbs \<Rightarrow> u64 \<Rightarrow> qp_attr \<Rightarrow> nat \<Rightarrow> 'h ctrl \<Rightarrow> 'h ctrl result" where
  "change_qp_states qv qid a dev_port_id c =
     rbind (require (1 \<le> dev_port_id) Assert_Failed) (\<lambda>_.
     case ct_qps c qid of
       None \<Rightarrow> Inl Assert_Failed
     | Some q \<Rightarrow>
         rbind (rc_init2rtr qv (rc_qpn q) dev_port_id (qa_qpn a) (qa_lid a) (qa_gid a) c) (\<lambda>c.
         rbind (rc_rtr2rts qv (rc_qpn q) c) (\<lambda>c.
         Inr (c\<lparr>ct_qps := (ct_qps c)(qid \<mapsto> q\<lparr>rc_remote := Some a\<rparr>)\<rparr>))))"

text \<open>
  \<open>connect_rc\<close>: \<open>request\<close> is the message sent, \<open>connect_reply\<close> what is done with the answer; \<open>None\<close> stands for an
  attempt that TCP did not carry through.
\<close>

definition connect_request :: "rc_qp \<Rightarrow> 'h ctrl \<Rightarrow> byte list" where
  "connect_request q c =
     seal (conn_arg_body \<lparr>ca_qid = rc_qid (rc_tid q) (ct_node c) (rc_idx q), ca_tid = of_nat (rc_tid q), ca_nid = of_nat (rc_nid q),
       ca_sign = MAGIC_NUM\<rparr>)"

definition connect_reply :: "'h qp_verbs \<Rightarrow> u64 \<Rightarrow> byte list option \<Rightarrow> 'h ctrl \<Rightarrow> ('h ctrl \<times> bool) result" where
  "connect_reply qv qid reply c =
     (case reply of
        None \<Rightarrow> Inr (c, False)
      | Some bs \<Rightarrow>
          if length bs \<noteq> 80 then Inr (c, False)
          else if bs ! 0 = TCPSUCC then
            (let msg = drop 16 bs in
             rbind (require (sealed msg) Assert_Failed) (\<lambda>_.
             case ct_qps c qid of
               None \<Rightarrow> Inl Assert_Failed
             | Some q \<Rightarrow>
                 rbind (change_qp_states qv qid (parse_attr msg) (rc_port_idx q) c) (\<lambda>c.
                 case ct_qps c qid of
                   None \<Rightarrow> Inl Assert_Failed
                 | Some q \<Rightarrow> Inr (c\<lparr>ct_qps := (ct_qps c)(qid \<mapsto> q\<lparr>rc_inited := True\<rparr>)\<rparr>, True))))
          else if bs ! 0 = TCPFAIL then Inr (c, False)
          else Inl Assert_Failed)"

section \<open>The servers of a cluster\<close>

text \<open>
  Where a server is in the constructor of \<open>RDMA_Device\<close>: creating its \<open>k\<close>-th queue pair, at the \<open>j\<close>-th queue pair of a
  pass over all of them in which \<open>connected\<close> were found or made connected, or done.
\<close>

datatype conn_pc = Creating nat | Connecting nat nat | Connected

record 'h server =
  sv_ctrl :: "'h ctrl"
  sv_pc :: conn_pc

text \<open>One step of a server: \<open>up\<close> tells whether TCP carries an attempt made in it. The port is the active one.\<close>

definition start_pass :: conn_pc where
  "start_pass = Connecting 0 0"

definition server_step ::
    "'h qp_verbs \<Rightarrow> (nat \<Rightarrow> byte list) \<Rightarrow> nat \<Rightarrow> nat \<Rightarrow> nat \<Rightarrow> bool \<Rightarrow> 'h server list \<Rightarrow> 'h server list result" where
  "server_step qv fresh port nthds i up svs =
     rbind (rget svs i) (\<lambda>sv.
     let c = sv_ctrl sv; nnodes = ct_nodes c; total = nthds * nnodes in
     case sv_pc sv of
       Creating k \<Rightarrow>
         if k < total then
           rbind (create_rc_qp qv (k div nnodes) (k mod nnodes) port 0 c) (\<lambda>(c, qid).
           Inr (svs[i := \<lparr>sv_ctrl = c, sv_pc = Creating (k + 1)\<rparr>]))
         else Inr (svs[i := sv\<lparr>sv_pc := start_pass\<rparr>])
     | Connecting j connected \<Rightarrow>
         if j < total then
           rbind (get_rc_qp (j div nnodes) (j mod nnodes) 0 c) (\<lambda>(qid, q).
           if rc_inited q then Inr (svs[i := sv\<lparr>sv_pc := Connecting (j + 1) (connected + 1)\<rparr>])
           else
             rbind (if up then rbind (rget svs (rc_nid q)) (\<lambda>other. recv_thread qv fresh (connect_request q c) (sv_ctrl other))
                    else Inr None) (\<lambda>reply.
             rbind (connect_reply qv qid reply c) (\<lambda>(c, ok).
             Inr (svs[i := \<lparr>sv_ctrl = c, sv_pc = Connecting (j + 1) (if ok then connected + 1 else connected)\<rparr>]))))
         else Inr (svs[i := sv\<lparr>sv_pc := (if connected = total then Connected else start_pass)\<rparr>])
     | Connected \<Rightarrow> Inr svs)"

text \<open>The steps of a schedule: which server moves, and whether TCP is up.\<close>

definition run_servers ::
    "'h qp_verbs \<Rightarrow> (nat \<Rightarrow> byte list) \<Rightarrow> nat \<Rightarrow> nat \<Rightarrow> (nat \<times> bool) list \<Rightarrow> 'h server list \<Rightarrow> 'h server list result" where
  "run_servers qv fresh port nthds = rfold (\<lambda>(i, up). server_step qv fresh port nthds i up)"

end
