(* ===== verification/ConnectInv.thy ===== *)
theory ConnectInv
  imports Connect
begin

text \<open>
  What holds while the servers connect: ids of queue pairs are distinct, messages are read as they were
  written, and a queue pair that counts as connected holds the attributes of the queue pair of the other server
  that belongs to the same thread.
\<close>

section \<open>What the verbs library promises\<close>

text \<open>
  \<open>ibv_create_qp\<close> gives a new number in the state \<open>Reset\<close> as long as the card holds fewer than \<open>cap\<close> queue pairs, \<open>ibv_modify_qp\<close>
  follows the state diagram of the documentation, and the GID table does not change; a GID has 16 bytes.
\<close>

definition qv_ok :: "nat \<Rightarrow> 'h qp_verbs \<Rightarrow> bool" where
  "qv_ok cap qv \<longleftrightarrow>
     (\<forall>h. card (dom (qv_state qv h)) < cap \<longrightarrow> (\<exists>h' n. qv_create qv h = (h', Some n) \<and> qv_state qv h n = None \<and>
        qv_state qv h' = (qv_state qv h)(n \<mapsto> Reset) \<and> qv_gid qv h' = qv_gid qv h)) \<and>
     (\<forall>h n p. qv_state qv h n = Some Reset \<longrightarrow>
        (\<exists>h'. qv_modify qv n (To_Init p) h = (h', 0) \<and> qv_state qv h' = (qv_state qv h)(n \<mapsto> Init p) \<and> qv_gid qv h' = qv_gid qv h)) \<and>
     (\<forall>h n p p' d l g. qv_state qv h n = Some (Init p) \<longrightarrow>
        (\<exists>h'. qv_modify qv n (To_RTR p' d l g) h = (h', 0) \<and> qv_state qv h' = (qv_state qv h)(n \<mapsto> RTR p' d l g) \<and>
           qv_gid qv h' = qv_gid qv h)) \<and>
     (\<forall>h n p d l g. qv_state qv h n = Some (RTR p d l g) \<longrightarrow>
        (\<exists>h'. qv_modify qv n To_RTS h = (h', 0) \<and> qv_state qv h' = (qv_state qv h)(n \<mapsto> RTS p d l g) \<and> qv_gid qv h' = qv_gid qv h)) \<and>
     (\<forall>h p g. qv_gid qv h p = Some g \<longrightarrow> length g = 16)"

definition fresh_ok :: "(nat \<Rightarrow> byte list) \<Rightarrow> bool" where
  "fresh_ok fresh \<longleftrightarrow> (\<forall>n. length (fresh n) = n)"

section \<open>Ids\<close>

lemma unat_QP_ENCODE_ID:
  assumes "mac < 2 ^ 15" and "index < 2 ^ 16"
  shows "unat (QP_ENCODE_ID mac index) = mac * 65536 + index"
proof -
  let ?m = "push_bit 16 (of_nat mac) :: u32" and ?i = "of_nat index :: u32"
  have "?m AND ?i = 0"
  proof (rule bit_word_eqI)
    fix n
    have "index = take_bit 16 index" using assms(2) by (simp add: take_bit_nat_eq_self)
    then have "bit index n \<Longrightarrow> n < 16" by (metis bit_take_bit_iff)
    then show "bit (?m AND ?i) n \<longleftrightarrow> bit (0 :: u32) n" by (auto simp: bit_simps)
  qed
  then have sum: "?m OR ?i = ?m + ?i" by (simp add: disjunctive_add_eq_or)
  have m: "unat ?m = mac * 65536"
    unfolding unsigned_push_bit_eq using assms(1) by (simp add: push_bit_eq_mult take_bit_nat_eq_self unat_of_nat)
  have i: "unat ?i = index" using assms(2) by (simp add: unat_of_nat)
  have v: "unat (?m OR ?i) = mac * 65536 + index" unfolding sum using m i assms by (simp add: unat_word_ariths)
  then have u: "uint (?m OR ?i) = int (mac * 65536 + index)" by (metis of_nat_unat)
  have "int (mac * 65536 + index) < 2 ^ 31" using assms by simp
  then have "sint (?m OR ?i) = int (mac * 65536 + index)"
    using u by (simp add: sint_uint signed_take_bit_eq_if_positive take_bit_int_eq_self bit_iff_odd)
  then have enc: "QP_ENCODE_ID mac index = of_nat (mac * 65536 + index)"
    by (simp add: QP_ENCODE_ID_def scast_eq)
  show ?thesis unfolding enc unat_of_nat using assms by simp
qed

lemma unat_QP_DECODE_INDEX: "unat (QP_DECODE_INDEX qid) = unat qid mod 65536"
proof -
  have "QP_DECODE_INDEX qid = take_bit 16 qid" by (simp add: QP_DECODE_INDEX_def take_bit_eq_mask mask_eq_exp_minus_1)
  then have "unat (QP_DECODE_INDEX qid) = take_bit 16 (unat qid)" by (simp only: unsigned_take_bit_eq)
  then show ?thesis by (simp add: take_bit_eq_mod)
qed

lemma unat_rc_qid: "b < 2 ^ 15 \<Longrightarrow> t \<le> 655 \<Longrightarrow> unat (rc_qid t b 0) = b * 65536 + t * 100"
  by (simp add: rc_qid_def unat_QP_ENCODE_ID RC_ID_BASE_def num_rc_qps_def)

lemma rc_qid_inj: "b < 2 ^ 15 \<Longrightarrow> b' < 2 ^ 15 \<Longrightarrow> t \<le> 655 \<Longrightarrow> t' \<le> 655 \<Longrightarrow> rc_qid t b 0 = rc_qid t' b' 0 \<Longrightarrow> t = t' \<and> b = b'"
proof -
  assume "b < 2 ^ 15" "b' < 2 ^ 15" and t: "t \<le> 655" "t' \<le> 655" and "rc_qid t b 0 = rc_qid t' b' 0"
  then have eq: "b * 65536 + t * 100 = b' * 65536 + t' * 100" by (metis unat_rc_qid)
  then have "(b * 65536 + t * 100) mod 65536 = (b' * 65536 + t' * 100) mod 65536" by simp
  then have "t * 100 = t' * 100" using t by simp
  with eq show ?thesis by simp
qed

lemma rc_qid_kind:
  assumes "b < 2 ^ 15" and "t \<le> 655"
  shows "IS_UD (rc_qid t b 0) \<longleftrightarrow> 200 \<le> t" "IS_CONN (rc_qid t b 0) \<longleftrightarrow> t < 200"
proof -
  have "unat (QP_DECODE_INDEX (rc_qid t b 0)) = t * 100" unfolding unat_QP_DECODE_INDEX unat_rc_qid [OF assms] using assms(2) by simp
  then show "IS_UD (rc_qid t b 0) \<longleftrightarrow> 200 \<le> t" "IS_CONN (rc_qid t b 0) \<longleftrightarrow> t < 200"
    by (auto simp: IS_UD_def IS_CONN_def UD_ID_BASE_def RC_ID_BASE_def)
qed

section \<open>Messages\<close>

lemma sealed_seal [simp]: "sealed (seal body)"
  by (simp add: sealed_def seal_def le_word_bytes)

lemma length_seal [simp]: "length (seal body) = 8 + length body"
  by (simp add: seal_def)

lemma connect_request_ok:
  "length (connect_request q c) = 64" "set_sign (connect_request q c) = connect_request q c" "sealed (connect_request q c)"
  "le_word (slice (connect_request q c) 8 8) = rc_qid (rc_tid q) (ct_node c) (rc_idx q)"
  by (simp_all add: connect_request_def conn_arg_body_def seal_def set_sign_def slice_def le_word_bytes sealed_def)

lemma parse_sealed_attr:
  assumes "fresh_ok fresh" and "length (qa_gid a) = 16"
  shows "parse_attr (seal (qp_attr_body fresh a)) = a" "length (seal (qp_attr_body fresh a)) = 64"
  using assms by (simp_all add: parse_attr_def seal_def qp_attr_body_def slice_def le_word_bytes fresh_ok_def)

lemma length_reply_header [simp]: "length (reply_header st qid) = 16"
  by (simp add: reply_header_def)

lemma reply_status [simp]: "(reply_header st qid @ bs) ! 0 = st"
  by (simp add: reply_header_def)

lemma TCP_status [simp]: "TCPFAIL \<noteq> TCPSUCC"
  by (simp add: TCPFAIL_def TCPSUCC_def)

section \<open>Attributes of a server\<close>

definition local_attr :: "'h qp_verbs \<Rightarrow> 'h ctrl \<Rightarrow> rc_qp \<Rightarrow> qp_attr" where
  "local_attr qv c q = \<lparr>qa_buf = ct_conn_buf c, qa_buf_size = ucast (ct_conn_buf_size c), qa_rkey = the (ct_conn_mr c),
     qa_lid = ct_lids c ! rc_port_id q, qa_qpn = rc_qpn q, qa_gid = the (qv_gid qv (ct_card c) (rc_port_idx q))\<rparr>"

lemma get_local_attr:
  assumes "ct_qps c qid = Some q" "IS_CONN qid" "ct_conn_mr c \<noteq> None" "rc_port_id q < length (ct_lids c)"
    "qv_gid qv (ct_card c) (rc_port_idx q) \<noteq> None"
  shows "get_local_qp_attr qv fresh qid c = Inr (seal (qp_attr_body fresh (local_attr qv c q)))"
  using assms by (auto simp: get_local_qp_attr_def local_attr_def)

text \<open>The attributes of a queue pair, seen from all servers.\<close>

definition attrs :: "'h qp_verbs \<Rightarrow> 'h server list \<Rightarrow> nat \<Rightarrow> u64 \<Rightarrow> qp_attr option" where
  "attrs qv svs b qid = map_option (local_attr qv (sv_ctrl (svs ! b))) (ct_qps (sv_ctrl (svs ! b)) qid)"

definition route :: "gid \<Rightarrow> gid option" where
  "route g = (if drop 8 g \<noteq> replicate 8 0 then Some g else None)"

section \<open>The invariant\<close>

definition key :: "nat \<Rightarrow> nat \<Rightarrow> u64" where
  "key N k = rc_qid (k div N) (k mod N) 0"

text \<open>A queue pair of server \<open>a\<close>, where \<open>A\<close> gives the attributes of all queue pairs.\<close>

definition qp_ok :: "'h qp_verbs \<Rightarrow> nat \<Rightarrow> nat \<Rightarrow> (nat \<Rightarrow> u64 \<Rightarrow> qp_attr option) \<Rightarrow> nat \<Rightarrow> 'h \<Rightarrow> nat \<Rightarrow> rc_qp \<Rightarrow> bool" where
  "qp_ok qv port N A a h k q \<longleftrightarrow>
     rc_tid q = k div N \<and> rc_nid q = k mod N \<and> rc_idx q = 0 \<and> rc_port_idx q = 1 \<and> rc_port_id q = port \<and>
     (if rc_inited q
      then k div N < 200 \<and> (\<exists>at. A (k mod N) (rc_qid (k div N) a 0) = Some at \<and> rc_remote q = Some at \<and>
        qv_state qv h (rc_qpn q) = Some (RTS 1 (qa_qpn at) (qa_lid at) (route (qa_gid at))))
      else qv_state qv h (rc_qpn q) = Some (Init port))"

fun created :: "nat \<Rightarrow> conn_pc \<Rightarrow> nat" where
  "created m (Creating k) = k"
| "created m pc = m"

definition inited :: "'h ctrl \<Rightarrow> nat \<Rightarrow> nat \<Rightarrow> bool" where
  "inited c N k \<longleftrightarrow> (\<exists>q. ct_qps c (key N k) = Some q \<and> rc_inited q)"

fun pc_ok :: "nat \<Rightarrow> (nat \<Rightarrow> bool) \<Rightarrow> conn_pc \<Rightarrow> bool" where
  "pc_ok m P (Creating k) \<longleftrightarrow> k \<le> m"
| "pc_ok m P (Connecting j n) \<longleftrightarrow> j \<le> m \<and> n \<le> card {k. k < j \<and> P k}"
| "pc_ok m P Connected \<longleftrightarrow> (\<forall>k < m. P k)"

text \<open>The fields that never change.\<close>

definition static_ok :: "'h qp_verbs \<Rightarrow> nat \<Rightarrow> nat \<Rightarrow> nat \<Rightarrow> 'h ctrl \<Rightarrow> bool" where
  "static_ok qv port N a c \<longleftrightarrow> ct_node c = a \<and> ct_nodes c = N \<and> ct_single_mr c \<and> ct_conn_mr c \<noteq> None \<and> port < length (ct_lids c) \<and>
     qv_gid qv (ct_card c) 1 \<noteq> None"

definition server_ok :: "'h qp_verbs \<Rightarrow> nat \<Rightarrow> nat \<Rightarrow> nat \<Rightarrow> (nat \<Rightarrow> u64 \<Rightarrow> qp_attr option) \<Rightarrow> nat \<Rightarrow> 'h server \<Rightarrow> bool" where
  "server_ok qv port T N A a sv \<longleftrightarrow>
     static_ok qv port N a (sv_ctrl sv) \<and> dom (ct_qps (sv_ctrl sv)) = key N ` {..<created (T * N) (sv_pc sv)} \<and>
     (\<forall>k < created (T * N) (sv_pc sv). \<exists>q. ct_qps (sv_ctrl sv) (key N k) = Some q \<and> qp_ok qv port N A a (ct_card (sv_ctrl sv)) k q) \<and>
     (\<forall>x q y q'. ct_qps (sv_ctrl sv) x = Some q \<longrightarrow> ct_qps (sv_ctrl sv) y = Some q' \<longrightarrow> rc_qpn q = rc_qpn q' \<longrightarrow> x = y) \<and>
     card (dom (qv_state qv (ct_card (sv_ctrl sv)))) \<le> created (T * N) (sv_pc sv) \<and>
     pc_ok (T * N) (inited (sv_ctrl sv) N) (sv_pc sv)"

definition servers_ok :: "'h qp_verbs \<Rightarrow> nat \<Rightarrow> nat \<Rightarrow> nat \<Rightarrow> 'h server list \<Rightarrow> bool" where
  "servers_ok qv port T N svs \<longleftrightarrow> length svs = N \<and> (\<forall>a < N. server_ok qv port T N (attrs qv svs) a (svs ! a))"

text \<open>Where every server starts.\<close>

definition server_new :: "'h qp_verbs \<Rightarrow> nat \<Rightarrow> nat \<Rightarrow> nat \<Rightarrow> 'h server \<Rightarrow> bool" where
  "server_new qv port N a sv \<longleftrightarrow> static_ok qv port N a (sv_ctrl sv) \<and> ct_qps (sv_ctrl sv) = Map.empty \<and>
     qv_state qv (ct_card (sv_ctrl sv)) = Map.empty \<and> sv_pc sv = Creating 0"

lemma servers_new_ok: "length svs = N \<Longrightarrow> \<forall>a < N. server_new qv port N a (svs ! a) \<Longrightarrow> servers_ok qv port T N svs"
  by (auto simp: servers_ok_def server_ok_def server_new_def)

section \<open>Every step keeps it\<close>

text \<open>What another server may rely on: attributes once there do not change.\<close>

lemma server_ok_mono:
  assumes "server_ok qv port T N A a sv" and "\<And>b x at. A b x = Some at \<Longrightarrow> B b x = Some at"
  shows "server_ok qv port T N B a sv"
proof -
  have "qp_ok qv port N A a h k q \<Longrightarrow> qp_ok qv port N B a h k q" for h k q
    using assms(2) by (auto simp: qp_ok_def)
  with assms(1) show ?thesis unfolding server_ok_def by meson
qed

lemma key_inj: "N \<le> 2 ^ 15 \<Longrightarrow> T \<le> 656 \<Longrightarrow> inj_on (key N) {..<T * N}"
proof (rule inj_onI)
  fix k k' assume N: "N \<le> 2 ^ 15" and T: "T \<le> 656" and k: "k \<in> {..<T * N}" "k' \<in> {..<T * N}" and eq: "key N k = key N k'"
  have "0 < N" using k by (cases N) auto
  then have "k mod N < N" "k' mod N < N" by simp_all
  then have m: "k mod N < 2 ^ 15" "k' mod N < 2 ^ 15" using N by linarith+
  have d: "k div N < T" "k' div N < T" using k by (simp_all add: less_mult_imp_div_less)
  have "k div N = k' div N \<and> k mod N = k' mod N"
    using eq m d N T by (intro rc_qid_inj) (auto simp: key_def)
  then show "k = k'" by (metis div_mult_mod_eq)
qed

text \<open>A server that moves: its own new state, and what the others see of it.\<close>

lemma servers_ok_update:
  assumes ok: "servers_ok qv port T N svs" and i: "i < N"
    and new: "server_ok qv port T N (attrs qv (svs[i := sv])) i sv"
    and keep: "\<And>x q. ct_qps (sv_ctrl (svs ! i)) x = Some q \<Longrightarrow>
      \<exists>q'. ct_qps (sv_ctrl sv) x = Some q' \<and> local_attr qv (sv_ctrl sv) q' = local_attr qv (sv_ctrl (svs ! i)) q"
  shows "servers_ok qv port T N (svs[i := sv])"
proof -
  have len: "length svs = N" using ok by (simp add: servers_ok_def)
  have mono: "attrs qv svs b x = Some at \<Longrightarrow> attrs qv (svs[i := sv]) b x = Some at" for b x at
    using keep [of x] i len by (cases "b = i") (auto simp: attrs_def)
  show ?thesis
    unfolding servers_ok_def
  proof (intro conjI allI impI)
    fix a assume a: "a < N"
    show "server_ok qv port T N (attrs qv (svs[i := sv])) a (svs[i := sv] ! a)"
    proof (cases "a = i")
      case True
      then show ?thesis using new i len by simp
    next
      case False
      have "server_ok qv port T N (attrs qv svs) a (svs ! a)" using ok a by (simp add: servers_ok_def)
      then show ?thesis using server_ok_mono [OF _ mono] False by simp
    qed
  qed (use len in simp)
qed

text \<open>Only the place in the program changes.\<close>

lemma servers_ok_pc:
  assumes ok: "servers_ok qv port T N svs" and i: "i < N"
    and pc: "created (T * N) pc = created (T * N) (sv_pc (svs ! i))" "pc_ok (T * N) (inited (sv_ctrl (svs ! i)) N) pc"
  shows "servers_ok qv port T N (svs[i := (svs ! i)\<lparr>sv_pc := pc\<rparr>])"
proof (rule servers_ok_update [OF ok i])
  have len: "length svs = N" and s: "server_ok qv port T N (attrs qv svs) i (svs ! i)" using ok i by (auto simp: servers_ok_def)
  have A: "attrs qv (svs[i := (svs ! i)\<lparr>sv_pc := pc\<rparr>]) = attrs qv svs"
    using i len by (auto simp: attrs_def fun_eq_iff nth_list_update)
  show "server_ok qv port T N (attrs qv (svs[i := (svs ! i)\<lparr>sv_pc := pc\<rparr>])) i ((svs ! i)\<lparr>sv_pc := pc\<rparr>)"
    using s pc unfolding A by (simp add: server_ok_def)
qed auto

subsection \<open>Creating\<close>

lemma qv_laws:
  assumes "qv_ok cap qv"
  shows "card (dom (qv_state qv h)) < cap \<Longrightarrow> \<exists>h' n. qv_create qv h = (h', Some n) \<and> qv_state qv h n = None \<and>
      qv_state qv h' = (qv_state qv h)(n \<mapsto> Reset) \<and> qv_gid qv h' = qv_gid qv h"
    "qv_state qv h n = Some Reset \<Longrightarrow>
      \<exists>h'. qv_modify qv n (To_Init p) h = (h', 0) \<and> qv_state qv h' = (qv_state qv h)(n \<mapsto> Init p) \<and> qv_gid qv h' = qv_gid qv h"
    "qv_state qv h n = Some (Init p) \<Longrightarrow>
      \<exists>h'. qv_modify qv n (To_RTR p' d l g) h = (h', 0) \<and> qv_state qv h' = (qv_state qv h)(n \<mapsto> RTR p' d l g) \<and>
        qv_gid qv h' = qv_gid qv h"
    "qv_state qv h n = Some (RTR p d l g) \<Longrightarrow>
      \<exists>h'. qv_modify qv n To_RTS h = (h', 0) \<and> qv_state qv h' = (qv_state qv h)(n \<mapsto> RTS p d l g) \<and> qv_gid qv h' = qv_gid qv h"
    "qv_gid qv h p = Some x \<Longrightarrow> length x = 16"
  using assms by (simp_all add: qv_ok_def)

lemma qv_create_init:
  assumes "qv_ok cap qv" and "card (dom (qv_state qv h0)) < cap"
  shows "\<exists>h n h'. qv_create qv h0 = (h, Some n) \<and> qv_modify qv n (To_Init p) h = (h', 0) \<and> qv_state qv h0 n = None \<and>
    qv_state qv h' = (qv_state qv h0)(n \<mapsto> Init p) \<and> qv_gid qv h' = qv_gid qv h0"
proof -
  from assms obtain h n where h: "qv_create qv h0 = (h, Some n)" "qv_state qv h0 n = None"
    "qv_state qv h = (qv_state qv h0)(n \<mapsto> Reset)" "qv_gid qv h = qv_gid qv h0"
    using qv_laws(1) [OF assms] by blast
  moreover have "qv_state qv h n = Some Reset" using h(3) by simp
  then obtain h' where "qv_modify qv n (To_Init p) h = (h', 0)" "qv_state qv h' = (qv_state qv h)(n \<mapsto> Init p)" "qv_gid qv h' = qv_gid qv h"
    using qv_laws(2) [OF assms(1)] by blast
  ultimately show ?thesis by (metis fun_upd_upd)
qed

lemma create_step:
  assumes qv: "qv_ok cap qv" and cap: "T * N \<le> cap" and N: "N \<le> 2 ^ 15" and T: "T \<le> 656" and ok: "servers_ok qv port T N svs" and i: "i < N"
    and pc: "sv_pc (svs ! i) = Creating k" and k: "k < T * N"
  shows "\<exists>c. create_rc_qp qv (k div N) (k mod N) port 0 (sv_ctrl (svs ! i)) = Inr (c, key N k) \<and>
    servers_ok qv port T N (svs[i := \<lparr>sv_ctrl = c, sv_pc = Creating (k + 1)\<rparr>])"
proof -
  let ?c = "sv_ctrl (svs ! i)"
  have len: "length svs = N" and s: "server_ok qv port T N (attrs qv svs) i (svs ! i)" using ok i by (auto simp: servers_ok_def)
  have st: "static_ok qv port N i ?c" and dom: "dom (ct_qps ?c) = key N ` {..<k}"
    and qps: "\<And>l. l < k \<Longrightarrow> \<exists>q. ct_qps ?c (key N l) = Some q \<and> qp_ok qv port N (attrs qv svs) i (ct_card ?c) l q"
    and dist: "\<And>x q y q'. ct_qps ?c x = Some q \<Longrightarrow> ct_qps ?c y = Some q' \<Longrightarrow> rc_qpn q = rc_qpn q' \<Longrightarrow> x = y"
    using s pc unfolding server_ok_def by (auto simp del: fun_upd_apply)
  have room: "card (dom (qv_state qv (ct_card ?c))) \<le> k" using s pc unfolding server_ok_def by simp
  then have "card (dom (qv_state qv (ct_card ?c))) < cap" using k cap by linarith
  from qv_create_init [OF qv this] obtain h n h' where h: "qv_create qv (ct_card ?c) = (h, Some n)" "qv_modify qv n (To_Init port) h = (h', 0)"
    "qv_state qv (ct_card ?c) n = None" "qv_state qv h' = (qv_state qv (ct_card ?c))(n \<mapsto> Init port)" "qv_gid qv h' = qv_gid qv (ct_card ?c)"
    by blast
  let ?q = "\<lparr>rc_tid = k div N, rc_idx = 0, rc_nid = k mod N, rc_port_idx = 1, rc_port_id = port, rc_qpn = n, rc_inited = False, rc_remote = None\<rparr>"
  let ?c' = "?c\<lparr>ct_card := h', ct_qps := (ct_qps ?c)(key N k \<mapsto> ?q)\<rparr>"
  let ?sv = "\<lparr>sv_ctrl = ?c', sv_pc = Creating (k + 1)\<rparr>"
  have inj: "inj_on (key N) {..<T * N}" by (rule key_inj [OF N T])
  have new: "ct_qps ?c (key N k) = None"
  proof -
    have "k = l" if "l < k" "key N k = key N l" for l using inj_onD [OF inj that(2)] that(1) k by simp
    then have "key N k \<notin> key N ` {..<k}" by auto
    then show ?thesis using dom by blast
  qed
  have run: "create_rc_qp qv (k div N) (k mod N) port 0 ?c = Inr (?c', key N k)"
    using new h st by (simp add: create_rc_qp_def init_rc_def rc_ready2init_def modify_qp_def num_rc_qps_def static_ok_def Let_def flip: key_def)
  have fresh: "rc_qpn q \<noteq> n" if q: "ct_qps ?c x = Some q" for x q
  proof -
    from q dom obtain l where "l < k" "x = key N l" by (metis domI imageE lessThan_iff)
    with qps q have "qp_ok qv port N (attrs qv svs) i (ct_card ?c) l q" by fastforce
    then show ?thesis using h(3) by (auto simp: qp_ok_def split: if_splits)
  qed
  have attr: "local_attr qv ?c' q = local_attr qv ?c q" for q using h(5) by (simp add: local_attr_def)
  have keep: "\<exists>q'. ct_qps ?c' x = Some q' \<and> local_attr qv ?c' q' = local_attr qv ?c q" if "ct_qps ?c x = Some q" for x q
    using that new attr by auto
  let ?A = "attrs qv (svs[i := ?sv])"
  have A: "attrs qv svs b x = Some at \<Longrightarrow> ?A b x = Some at" for b x at
    using keep [of x] i len by (cases "b = i") (auto simp: attrs_def)
  have "server_ok qv port T N ?A i ?sv"
    unfolding server_ok_def
  proof (intro conjI allI impI)
    show "static_ok qv port N i (sv_ctrl ?sv)" using st h(5) by (simp add: static_ok_def)
    show "dom (ct_qps (sv_ctrl ?sv)) = key N ` {..<created (T * N) (sv_pc ?sv)}" using dom by (auto simp: lessThan_Suc)
    fix l assume "l < created (T * N) (sv_pc ?sv)"
    then consider "l < k" | "l = k" by fastforce
    then show "\<exists>q. ct_qps (sv_ctrl ?sv) (key N l) = Some q \<and> qp_ok qv port N ?A i (ct_card (sv_ctrl ?sv)) l q"
    proof cases
      case 1
      with qps obtain q where q: "ct_qps ?c (key N l) = Some q" "qp_ok qv port N (attrs qv svs) i (ct_card ?c) l q" by blast
      then have "qp_ok qv port N ?A i h' l q" using fresh [OF q(1)] A h(4) by (auto simp: qp_ok_def)
      then show ?thesis using q(1) new by auto
    next
      case 2
      then show ?thesis using h(4) by (simp add: qp_ok_def)
    qed
  next
    fix x q y q' assume "ct_qps (sv_ctrl ?sv) x = Some q" "ct_qps (sv_ctrl ?sv) y = Some q'" "rc_qpn q = rc_qpn q'"
    then show "x = y" by (cases "x = key N k"; cases "y = key N k") (auto dest: fresh dist)
  next
    have "card (dom (qv_state qv h')) \<le> Suc k" unfolding h(4) dom_fun_upd using room card_insert_le_m1 [of "Suc k" "dom (qv_state qv (ct_card ?c))" n] by simp
    then show "card (dom (qv_state qv (ct_card (sv_ctrl ?sv)))) \<le> created (T * N) (sv_pc ?sv)" by simp
    show "pc_ok (T * N) (inited (sv_ctrl ?sv) N) (sv_pc ?sv)" using k by simp
  qed
  from servers_ok_update [OF ok i this] keep have "servers_ok qv port T N (svs[i := ?sv])" by simp
  with run show ?thesis by blast
qed

subsection \<open>Answering\<close>

lemma pair_index: "t < T \<Longrightarrow> b < N \<Longrightarrow> t * N + b < T * (N :: nat)"
proof -
  assume "t < T" "b < N"
  then have "t * N + b < (t + 1) * N" "(t + 1) * N \<le> T * N" by (simp_all del: mult_Suc_right) (metis Suc_leI mult_Suc mult_le_mono1)
  then show ?thesis by simp
qed

lemma key_at: "b < N \<Longrightarrow> key N (t * N + b) = rc_qid t b 0"
  by (simp add: key_def)

lemma stored_qp:
  assumes "server_ok qv port T N A a sv" and "ct_qps (sv_ctrl sv) x = Some q"
  shows "\<exists>k < created (T * N) (sv_pc sv). x = key N k \<and> qp_ok qv port N A a (ct_card (sv_ctrl sv)) k q"
proof -
  have "x \<in> key N ` {..<created (T * N) (sv_pc sv)}" using assms unfolding server_ok_def by (metis domI)
  then obtain k where k: "k < created (T * N) (sv_pc sv)" "x = key N k" by blast
  have "\<exists>q. ct_qps (sv_ctrl sv) (key N k) = Some q \<and> qp_ok qv port N A a (ct_card (sv_ctrl sv)) k q"
    using assms(1) k(1) unfolding server_ok_def by blast
  with assms(2) k(2) have "qp_ok qv port N A a (ct_card (sv_ctrl sv)) k q" by (metis option.inject)
  with k show ?thesis by blast
qed

lemma created_le: "pc_ok m P pc \<Longrightarrow> created m pc \<le> m"
  by (cases pc) simp_all

lemma stored_at:
  assumes N: "N \<le> 2 ^ 15" and T: "T \<le> 656" and ok: "server_ok qv port T N A a sv" and t: "t < T" and b: "b < N"
    and q: "ct_qps (sv_ctrl sv) (rc_qid t b 0) = Some q"
  shows "qp_ok qv port N A a (ct_card (sv_ctrl sv)) (t * N + b) q"
proof -
  from stored_qp [OF ok q] obtain k where k: "k < created (T * N) (sv_pc sv)" "rc_qid t b 0 = key N k"
    "qp_ok qv port N A a (ct_card (sv_ctrl sv)) k q" by blast
  have "created (T * N) (sv_pc sv) \<le> T * N" using ok unfolding server_ok_def by (blast intro: created_le)
  then have "k \<in> {..<T * N}" using k(1) by simp
  moreover have "t * N + b \<in> {..<T * N}" using pair_index [OF t b] by simp
  moreover have "key N k = key N (t * N + b)" using k(2) key_at [OF b] by simp
  ultimately have "k = t * N + b" using inj_onD [OF key_inj [OF N T]] by blast
  with k(3) show ?thesis by simp
qed

lemma attrs_gid:
  assumes "qv_ok cap qv" and "server_ok qv port T N A b (svs ! b)" and "attrs qv svs b x = Some at"
  shows "length (qa_gid at) = 16"
proof -
  from assms(3) obtain q where q: "ct_qps (sv_ctrl (svs ! b)) x = Some q" "at = local_attr qv (sv_ctrl (svs ! b)) q"
    by (auto simp: attrs_def)
  from stored_qp [OF assms(2) q(1)] have "rc_port_idx q = 1" by (auto simp: qp_ok_def)
  moreover have "qv_gid qv (ct_card (sv_ctrl (svs ! b))) 1 \<noteq> None" using assms(2) by (simp add: server_ok_def static_ok_def)
  ultimately show ?thesis using q(2) qv_laws(5) [OF assms(1)] by (auto simp: local_attr_def)
qed

definition answer :: "(nat \<Rightarrow> byte list) \<Rightarrow> nat \<Rightarrow> u64 \<Rightarrow> qp_attr option \<Rightarrow> byte list" where
  "answer fresh t qid at = (case at of
     None \<Rightarrow> reply_header TCPFAIL 0 @ replicate 64 0
   | Some a \<Rightarrow> if 200 \<le> t then reply_header TCPFAIL qid @ replicate 64 0 else reply_header TCPSUCC 0 @ seal (qp_attr_body fresh a))"

lemma recv_thread_answers:
  assumes N: "N \<le> 2 ^ 15" and T: "T \<le> 656" and ok: "servers_ok qv port T N svs" and i: "i < N" and t: "t < T" and b: "b < N"
    and c: "ct_node c = i" and q: "rc_tid q = t" "rc_idx q = 0"
  shows "recv_thread qv fresh (connect_request q c) (sv_ctrl (svs ! b)) = Inr (Some (answer fresh t (rc_qid t i 0) (attrs qv svs b (rc_qid t i 0))))"
proof -
  let ?o = "sv_ctrl (svs ! b)" and ?x = "rc_qid t i 0"
  have s: "server_ok qv port T N (attrs qv svs) b (svs ! b)" using ok b by (simp add: servers_ok_def)
  then have st: "static_ok qv port N b ?o" by (simp add: server_ok_def)
  have qid: "le_word (slice (connect_request q c) 8 8) = ?x" using connect_request_ok(4) [of q c] c q by simp
  have kind: "IS_UD ?x \<longleftrightarrow> 200 \<le> t" "IS_CONN ?x \<longleftrightarrow> t < 200" using rc_qid_kind [of i t] i N t T by simp_all
  show ?thesis
  proof (cases "ct_qps ?o ?x")
    case None
    then show ?thesis using qid by (simp add: recv_thread_def connect_request_ok answer_def attrs_def)
  next
    case (Some q')
    from stored_at [OF N T s t i Some] have q': "qp_ok qv port N (attrs qv svs) b (ct_card ?o) (t * N + i) q'" .
    have ud: "\<not> rc_inited q'" if "200 \<le> t" using q' that i by (auto simp: qp_ok_def)
    have conn: "get_local_qp_attr qv fresh ?x ?o = Inr (seal (qp_attr_body fresh (local_attr qv ?o q')))" if "t < 200"
      using q' st that kind by (intro get_local_attr) (auto simp: Some qp_ok_def static_ok_def)
    have at: "attrs qv svs b ?x = Some (local_attr qv ?o q')" using Some by (simp add: attrs_def)
    show ?thesis using qid ud conn kind at Some by (cases "t < 200") (simp_all add: recv_thread_def connect_request_ok answer_def)
  qed
qed

subsection \<open>Asking\<close>

lemma connect_reply_refused:
  "connect_reply qv x (Some (reply_header TCPFAIL y @ replicate 64 0)) c = Inr (c, False)" "connect_reply qv x None c = Inr (c, False)"
  by (simp_all add: connect_reply_def TCP_status [symmetric])

lemma connect_reply_accepted:
  assumes qv: "qv_ok cap qv" and fresh: "fresh_ok fresh" and gid: "length (qa_gid at) = 16" and q: "ct_qps c x = Some q" "rc_port_idx q = 1"
    and st: "qv_state qv (ct_card c) (rc_qpn q) = Some (Init port)"
  shows "\<exists>h. connect_reply qv x (Some (reply_header TCPSUCC 0 @ seal (qp_attr_body fresh at))) c =
      Inr (c\<lparr>ct_card := h, ct_qps := (ct_qps c)(x \<mapsto> q\<lparr>rc_remote := Some at, rc_inited := True\<rparr>)\<rparr>, True) \<and>
    qv_state qv h = (qv_state qv (ct_card c))(rc_qpn q \<mapsto> RTS 1 (qa_qpn at) (qa_lid at) (route (qa_gid at))) \<and> qv_gid qv h = qv_gid qv (ct_card c)"
proof -
  from qv_laws(3) [OF qv st] obtain h where h: "qv_modify qv (rc_qpn q) (To_RTR 1 (qa_qpn at) (qa_lid at) (route (qa_gid at))) (ct_card c) = (h, 0)"
    "qv_state qv h = (qv_state qv (ct_card c))(rc_qpn q \<mapsto> RTR 1 (qa_qpn at) (qa_lid at) (route (qa_gid at)))"
    "qv_gid qv h = qv_gid qv (ct_card c)" by blast
  have "qv_state qv h (rc_qpn q) = Some (RTR 1 (qa_qpn at) (qa_lid at) (route (qa_gid at)))" using h(2) by simp
  from qv_laws(4) [OF qv this] obtain h' where h': "qv_modify qv (rc_qpn q) To_RTS h = (h', 0)"
    "qv_state qv h' = (qv_state qv h)(rc_qpn q \<mapsto> RTS 1 (qa_qpn at) (qa_lid at) (route (qa_gid at)))"
    "qv_gid qv h' = qv_gid qv h" by blast
  have "change_qp_states qv x at 1 c = Inr (c\<lparr>ct_card := h', ct_qps := (ct_qps c)(x \<mapsto> q\<lparr>rc_remote := Some at\<rparr>)\<rparr>)"
    using q(1) h(1) h'(1) by (simp add: change_qp_states_def rc_init2rtr_def rc_rtr2rts_def modify_qp_def route_def)
  then have "connect_reply qv x (Some (reply_header TCPSUCC 0 @ seal (qp_attr_body fresh at))) c =
      Inr (c\<lparr>ct_card := h', ct_qps := (ct_qps c)(x \<mapsto> q\<lparr>rc_remote := Some at, rc_inited := True\<rparr>)\<rparr>, True)"
    using q parse_sealed_attr [OF fresh gid] by (simp add: connect_reply_def Let_def)
  with h(2,3) h'(2,3) show ?thesis by (intro exI [of _ h']) simp
qed

text \<open>A pass asks for one more queue pair.\<close>

lemma inited_next: "card {k. k < j \<and> P k} + (if P j then 1 else 0) = card {k. k < Suc j \<and> P k}"
proof -
  have "{k. k < Suc j \<and> P k} = {k. k < j \<and> P k} \<union> (if P j then {j} else {})" by (auto simp: less_Suc_eq)
  then show ?thesis by simp
qed

lemma card_inited_mono: "(\<And>k. P k \<Longrightarrow> Q k) \<Longrightarrow> card {k. k < j \<and> P k} \<le> card {k. k < (j :: nat) \<and> Q k}"
  by (rule card_mono) auto

lemma connect_accepted_ok:
  assumes N: "N \<le> 2 ^ 15" and T: "T \<le> 656" and ok: "servers_ok qv port T N svs" and i: "i < N"
    and pc: "sv_pc (svs ! i) = Connecting j n" and j: "j < T * N" and q: "ct_qps (sv_ctrl (svs ! i)) (key N j) = Some q"
    and at: "attrs qv svs (j mod N) (rc_qid (j div N) i 0) = Some at" and t: "j div N < 200"
    and h: "qv_state qv h = (qv_state qv (ct_card (sv_ctrl (svs ! i))))(rc_qpn q \<mapsto> RTS 1 (qa_qpn at) (qa_lid at) (route (qa_gid at)))"
      "qv_gid qv h = qv_gid qv (ct_card (sv_ctrl (svs ! i)))"
  shows "servers_ok qv port T N (svs[i := \<lparr>sv_ctrl = (sv_ctrl (svs ! i))\<lparr>ct_card := h,
     ct_qps := (ct_qps (sv_ctrl (svs ! i)))(key N j \<mapsto> q\<lparr>rc_remote := Some at, rc_inited := True\<rparr>)\<rparr>, sv_pc = Connecting (Suc j) (Suc n)\<rparr>])"
    (is "servers_ok _ _ _ _ (svs[i := ?sv])")
proof (rule servers_ok_update [OF ok i])
  let ?c = "sv_ctrl (svs ! i)" and ?q = "q\<lparr>rc_remote := Some at, rc_inited := True\<rparr>"
  have len: "length svs = N" and s: "server_ok qv port T N (attrs qv svs) i (svs ! i)" using ok i by (auto simp: servers_ok_def)
  have st: "static_ok qv port N i ?c" and dom: "dom (ct_qps ?c) = key N ` {..<T * N}"
    and qps: "\<And>l. l < T * N \<Longrightarrow> \<exists>q. ct_qps ?c (key N l) = Some q \<and> qp_ok qv port N (attrs qv svs) i (ct_card ?c) l q"
    and dist: "\<And>x q y q'. ct_qps ?c x = Some q \<Longrightarrow> ct_qps ?c y = Some q' \<Longrightarrow> rc_qpn q = rc_qpn q' \<Longrightarrow> x = y"
    and count: "n \<le> card {k. k < j \<and> inited ?c N k}"
    using s pc unfolding server_ok_def by (auto simp del: fun_upd_apply)
  have inj: "key N l = key N j \<longleftrightarrow> l = j" if "l < T * N" for l using inj_on_eq_iff [OF key_inj [OF N T]] that j by simp
  have attr: "local_attr qv (sv_ctrl ?sv) q' = local_attr qv ?c q'" "local_attr qv ?c ?q = local_attr qv ?c q" for q'
    using h(2) by (simp_all add: local_attr_def)
  show keep: "\<exists>q'. ct_qps (sv_ctrl ?sv) x = Some q' \<and> local_attr qv (sv_ctrl ?sv) q' = local_attr qv ?c q0"
    if "ct_qps ?c x = Some q0" for x q0 using that q attr by (cases "x = key N j") auto
  let ?A = "attrs qv (svs[i := ?sv])"
  have A: "attrs qv svs b x = Some a \<Longrightarrow> ?A b x = Some a" for b x a
    using keep [of x] i len by (cases "b = i") (auto simp: attrs_def)
  show "server_ok qv port T N ?A i ?sv"
    unfolding server_ok_def
  proof (intro conjI allI impI)
    show "static_ok qv port N i (sv_ctrl ?sv)" using st h(2) by (simp add: static_ok_def)
    show "dom (ct_qps (sv_ctrl ?sv)) = key N ` {..<created (T * N) (sv_pc ?sv)}" using dom j by auto
    fix l assume "l < created (T * N) (sv_pc ?sv)"
    then have l: "l < T * N" by simp
    with qps obtain q0 where q0: "ct_qps ?c (key N l) = Some q0" "qp_ok qv port N (attrs qv svs) i (ct_card ?c) l q0" by blast
    show "\<exists>q. ct_qps (sv_ctrl ?sv) (key N l) = Some q \<and> qp_ok qv port N ?A i (ct_card (sv_ctrl ?sv)) l q"
    proof (cases "l = j")
      case True
      with q q0 have "q0 = q" by simp
      then show ?thesis using q0(2) A [OF at] t h(1) True by (auto simp: qp_ok_def)
    next
      case False
      have "rc_qpn q0 \<noteq> rc_qpn q" using dist [OF q0(1) q] inj [OF l] False by blast
      then have "qp_ok qv port N ?A i h l q0" using q0(2) A h(1) by (auto simp: qp_ok_def)
      then show ?thesis using q0(1) inj [OF l] False by simp
    qed
  next
    fix x q1 y q2 assume "ct_qps (sv_ctrl ?sv) x = Some q1" "ct_qps (sv_ctrl ?sv) y = Some q2" "rc_qpn q1 = rc_qpn q2"
    then show "x = y" using q by (cases "x = key N j"; cases "y = key N j") (auto dest: dist)
  next
    obtain st where "qv_state qv (ct_card ?c) (rc_qpn q) = Some st" using qps [OF j] q by (auto simp: qp_ok_def split: if_splits)
    then have "dom (qv_state qv h) = dom (qv_state qv (ct_card ?c))" unfolding h(1) by auto
    then show "card (dom (qv_state qv (ct_card (sv_ctrl ?sv)))) \<le> created (T * N) (sv_pc ?sv)" using s pc unfolding server_ok_def by simp
    have "inited ?c N k \<Longrightarrow> inited (sv_ctrl ?sv) N k" for k using q by (auto simp: inited_def)
    then have "n \<le> card {k. k < j \<and> inited (sv_ctrl ?sv) N k}" using count card_inited_mono order_trans by meson
    moreover have "inited (sv_ctrl ?sv) N j" by (simp add: inited_def)
    ultimately show "pc_ok (T * N) (inited (sv_ctrl ?sv) N) (sv_pc ?sv)"
      using j inited_next [of j "inited (sv_ctrl ?sv) N"] by simp
  qed
qed

section \<open>One step of a server\<close>

fun pc_next :: "nat \<Rightarrow> bool \<Rightarrow> conn_pc \<Rightarrow> conn_pc" where
  "pc_next m ok (Creating k) = (if k < m then Creating (Suc k) else start_pass)"
| "pc_next m ok (Connecting j n) = (if j < m then Connecting (Suc j) (if ok then Suc n else n) else if n = m then Connected else start_pass)"
| "pc_next m ok Connected = Connected"

definition all_created :: "nat \<Rightarrow> 'h server list \<Rightarrow> bool" where
  "all_created m svs \<longleftrightarrow> (\<forall>sv \<in> set svs. created m (sv_pc sv) = m)"

lemma connecting_step:
  assumes qv: "qv_ok cap qv" and fresh: "fresh_ok fresh" and N: "N \<le> 2 ^ 15" and T: "T \<le> 656" and ok: "servers_ok qv port T N svs" and i: "i < N"
    and pc: "sv_pc (svs ! i) = Connecting j n" and j: "j < T * N"
  shows "\<exists>sv good. server_step qv fresh port T i up svs = Inr (svs[i := sv]) \<and> servers_ok qv port T N (svs[i := sv]) \<and>
    sv_pc sv = Connecting (Suc j) (if good then Suc n else n) \<and> (up \<and> T \<le> 200 \<and> all_created (T * N) svs \<longrightarrow> good)"
proof -
  let ?c = "sv_ctrl (svs ! i)" and ?t = "j div N" and ?b = "j mod N"
  have len: "length svs = N" and s: "server_ok qv port T N (attrs qv svs) i (svs ! i)" using ok i by (auto simp: servers_ok_def)
  have "0 < N" using i by simp
  then have b: "?b < N" by simp
  have t: "?t < T" using j by (simp add: less_mult_imp_div_less)
  have st: "ct_node ?c = i" "ct_nodes ?c = N" using s by (simp_all add: server_ok_def static_ok_def)
  have "\<exists>q. ct_qps ?c (key N j) = Some q \<and> qp_ok qv port N (attrs qv svs) i (ct_card ?c) j q" and count: "n \<le> card {k. k < j \<and> inited ?c N k}"
    using s pc j unfolding server_ok_def by auto
  then obtain q where q: "ct_qps ?c (key N j) = Some q" "qp_ok qv port N (attrs qv svs) i (ct_card ?c) j q" by blast
  have get: "get_rc_qp ?t ?b 0 ?c = Inr (key N j, q)" using q(1) by (simp add: get_rc_qp_def key_def)
  have len_next: "n \<le> card {k. k < Suc j \<and> inited ?c N k}" using count inited_next [of j "inited ?c N"] by simp
  have stay: "servers_ok qv port T N (svs[i := (svs ! i)\<lparr>sv_pc := Connecting (Suc j) m\<rparr>])" if "m \<le> card {k. k < Suc j \<and> inited ?c N k}" for m
    using that j by (intro servers_ok_pc [OF ok i]) (simp_all add: pc)
  show ?thesis
  proof (cases "rc_inited q")
    case True
    then have "inited ?c N j" using q(1) by (auto simp: inited_def)
    then have "Suc n \<le> card {k. k < Suc j \<and> inited ?c N k}" using count inited_next [of j "inited ?c N"] by simp
    from stay [OF this] show ?thesis
      using True get pc j len i st by (intro exI [of _ "(svs ! i)\<lparr>sv_pc := Connecting (Suc j) (Suc n)\<rparr>"] exI [of _ True]) (simp add: server_step_def Let_def)
  next
    case False
    then have ini: "qv_state qv (ct_card ?c) (rc_qpn q) = Some (Init port)" and port: "rc_port_idx q = 1" "rc_nid q = ?b" and ids: "rc_tid q = ?t" "rc_idx q = 0"
      using q(2) by (auto simp: qp_ok_def)
    let ?at = "attrs qv svs ?b (rc_qid ?t i 0)"
    have ans: "recv_thread qv fresh (connect_request q ?c) (sv_ctrl (svs ! ?b)) = Inr (Some (answer fresh ?t (rc_qid ?t i 0) ?at))"
      by (rule recv_thread_answers [OF N T ok i t b st(1) ids])
    have sb: "server_ok qv port T N (attrs qv svs) ?b (svs ! ?b)" using ok b by (simp add: servers_ok_def)
    show ?thesis
    proof (cases "up \<and> ?t < 200 \<and> ?at \<noteq> None")
      case True
      then obtain a where a: "?at = Some a" by blast
      from connect_reply_accepted [OF qv fresh attrs_gid [OF qv sb a] q(1) port(1) ini] obtain h where
        h: "connect_reply qv (key N j) (Some (reply_header TCPSUCC 0 @ seal (qp_attr_body fresh a))) ?c =
            Inr (?c\<lparr>ct_card := h, ct_qps := (ct_qps ?c)(key N j \<mapsto> q\<lparr>rc_remote := Some a, rc_inited := True\<rparr>)\<rparr>, True)"
          "qv_state qv h = (qv_state qv (ct_card ?c))(rc_qpn q \<mapsto> RTS 1 (qa_qpn a) (qa_lid a) (route (qa_gid a)))"
          "qv_gid qv h = qv_gid qv (ct_card ?c)" by blast
      have "?t < 200" using True by simp
      from connect_accepted_ok [OF N T ok i pc j q(1) a this h(2,3)] show ?thesis
        using False True get pc j len i st port b ans a h(1)
        by (intro exI [of _ "\<lparr>sv_ctrl = ?c\<lparr>ct_card := h, ct_qps := (ct_qps ?c)(key N j \<mapsto> q\<lparr>rc_remote := Some a, rc_inited := True\<rparr>)\<rparr>,
              sv_pc = Connecting (Suc j) (Suc n)\<rparr>"] exI [of _ True])
          (simp add: server_step_def Let_def answer_def)
    next
      case False
      have refuse: "connect_reply qv (key N j) (if up then Some (answer fresh ?t (rc_qid ?t i 0) ?at) else None) ?c = Inr (?c, False)"
        using False by (auto simp: answer_def connect_reply_refused split: option.split)
      have there: "?at \<noteq> None" if "all_created (T * N) svs"
      proof -
        have "created (T * N) (sv_pc (svs ! ?b)) = T * N" using that b len by (simp add: all_created_def)
        then have "\<exists>q. ct_qps (sv_ctrl (svs ! ?b)) (key N (?t * N + i)) = Some q"
          using sb pair_index [OF t i] unfolding server_ok_def by auto
        then show ?thesis using key_at [OF i] by (auto simp: attrs_def)
      qed
      have eta: "\<lparr>sv_ctrl = sv_ctrl (svs ! i), sv_pc = p\<rparr> = (svs ! i)\<lparr>sv_pc := p\<rparr>" for p by (cases "svs ! i") simp
      have "\<not> (up \<and> T \<le> 200 \<and> all_created (T * N) svs)" using False t there by auto
      then show ?thesis
        using \<open>\<not> rc_inited q\<close> stay [OF len_next] get pc j len i st port b ans refuse
        by (intro exI [of _ "(svs ! i)\<lparr>sv_pc := Connecting (Suc j) n\<rparr>"] exI [of _ False]) (cases up; simp add: server_step_def Let_def eta)
    qed
  qed
qed

text \<open>Every step succeeds, moves only its server, and keeps the invariant.\<close>

lemma server_step_ok:
  assumes qv: "qv_ok cap qv" and cap: "T * N \<le> cap" and fresh: "fresh_ok fresh" and N: "N \<le> 2 ^ 15" and T: "T \<le> 656"
    and ok: "servers_ok qv port T N svs" and i: "i < N"
  shows "\<exists>sv good. server_step qv fresh port T i up svs = Inr (svs[i := sv]) \<and> servers_ok qv port T N (svs[i := sv]) \<and>
    sv_pc sv = pc_next (T * N) good (sv_pc (svs ! i)) \<and> (up \<and> T \<le> 200 \<and> all_created (T * N) svs \<longrightarrow> good)"
proof -
  let ?c = "sv_ctrl (svs ! i)"
  have len: "length svs = N" and s: "server_ok qv port T N (attrs qv svs) i (svs ! i)" using ok i by (auto simp: servers_ok_def)
  have nodes: "ct_nodes ?c = N" and pcok: "pc_ok (T * N) (inited ?c N) (sv_pc (svs ! i))" using s by (simp_all add: server_ok_def static_ok_def)
  show ?thesis
  proof (cases "sv_pc (svs ! i)")
    case (Creating k)
    show ?thesis
    proof (cases "k < T * N")
      case True
      from create_step [OF qv cap N T ok i Creating True] obtain c where
        "create_rc_qp qv (k div N) (k mod N) port 0 ?c = Inr (c, key N k)" "servers_ok qv port T N (svs[i := \<lparr>sv_ctrl = c, sv_pc = Creating (k + 1)\<rparr>])" by blast
      then show ?thesis using Creating True nodes len i
        by (intro exI [of _ "\<lparr>sv_ctrl = c, sv_pc = Creating (k + 1)\<rparr>"] exI [of _ True]) (simp add: server_step_def Let_def)
    next
      case False
      then have "servers_ok qv port T N (svs[i := (svs ! i)\<lparr>sv_pc := start_pass\<rparr>])"
        using pcok Creating by (intro servers_ok_pc [OF ok i]) (simp_all add: start_pass_def)
      then show ?thesis using Creating False nodes len i
        by (intro exI [of _ "(svs ! i)\<lparr>sv_pc := start_pass\<rparr>"] exI [of _ True]) (simp add: server_step_def Let_def)
    qed
  next
    case (Connecting j n)
    show ?thesis
    proof (cases "j < T * N")
      case True
      from connecting_step [OF qv fresh N T ok i Connecting True, of up] show ?thesis using Connecting True by auto
    next
      case False
      let ?pc = "if n = T * N then Connected else start_pass"
      have j: "j = T * N" and n: "n \<le> card {k. k < T * N \<and> inited ?c N k}" using False pcok Connecting by auto
      have "pc_ok (T * N) (inited ?c N) ?pc"
      proof (cases "n = T * N")
        case True
        then have "{k. k < T * N \<and> inited ?c N k} = {..<T * N}" using n by (intro card_seteq) auto
        then show ?thesis using True by auto
      qed (simp add: start_pass_def)
      then have "servers_ok qv port T N (svs[i := (svs ! i)\<lparr>sv_pc := ?pc\<rparr>])"
        using Connecting by (intro servers_ok_pc [OF ok i]) (auto simp: start_pass_def)
      then show ?thesis using Connecting False nodes len i
        by (intro exI [of _ "(svs ! i)\<lparr>sv_pc := ?pc\<rparr>"] exI [of _ True]) (simp add: server_step_def Let_def)
    qed
  next
    case Connected
    then show ?thesis using ok len i by (intro exI [of _ "svs ! i"] exI [of _ True]) (simp add: server_step_def)
  qed
qed

lemma run_servers_ok:
  assumes qv: "qv_ok cap qv" and cap: "T * N \<le> cap" and fresh: "fresh_ok fresh" and N: "N \<le> 2 ^ 15" and T: "T \<le> 656"
    and ok: "servers_ok qv port T N svs" and sched: "\<forall>(i, up) \<in> set sched. i < N"
  shows "\<exists>svs'. run_servers qv fresh port T sched svs = Inr svs' \<and> servers_ok qv port T N svs'"
  unfolding run_servers_def
proof (rule rfold_invariant [where P = "\<lambda>_. servers_ok qv port T N"])
  fix ys x zs s assume x: "sched = ys @ x # zs" and s: "servers_ok qv port T N s"
  obtain i up where "x = (i, up)" by force
  moreover have "i < N" using sched x calculation by auto
  moreover from server_step_ok [OF qv cap fresh N T s this, of up] obtain sv where
    "server_step qv fresh port T i up s = Inr (s[i := sv])" "servers_ok qv port T N (s[i := sv])" by blast
  ultimately show "\<exists>s'. (case x of (i, up) \<Rightarrow> server_step qv fresh port T i up) s = Inr s' \<and> servers_ok qv port T N s'" by simp
qed (rule ok)

end
