(* ===== verification/ConnectLive.thy ===== *)
theory ConnectLive
  imports ConnectInv
begin

text \<open>
  The servers end up connected, whatever the order of their steps, as soon as TCP stays up; and with more than
  200 threads they never do.
\<close>

section \<open>Progress under a fair schedule\<close>

lemma fair_progress:
  fixes m :: "nat \<Rightarrow> nat"
  assumes mono: "\<And>t. t0 \<le> t \<Longrightarrow> m (Suc t) \<le> m t" and step: "\<And>t. t0 \<le> t \<Longrightarrow> hit t \<Longrightarrow> m t \<noteq> 0 \<Longrightarrow> m (Suc t) < m t"
    and fair: "\<And>t. \<exists>t' \<ge> t. hit t'"
  shows "\<exists>t1 \<ge> t0. \<forall>t \<ge> t1. m t = 0"
proof -
  have down: "m t' \<le> m t" if "t0 \<le> t" "t \<le> t'" for t t'
    using that(2) by (induction t' rule: dec_induct) (use that(1) mono in \<open>auto intro: order_trans\<close>)
  have "\<exists>t1 \<ge> t0. m t1 = 0" if "t0 \<le> t" for t
    using that
  proof (induction "m t" arbitrary: t rule: less_induct)
    case less
    show ?case
    proof -
      from fair obtain t' where t': "t \<le> t'" "hit t'" by blast
      show ?thesis
      proof (cases "m t' = 0")
        case False
        then have "m (Suc t') < m t" using step [of t'] down [OF less.prems t'(1)] less.prems t' by fastforce
        with less.hyps [of "Suc t'"] less.prems t'(1) show ?thesis by simp
      next
        case True
        then show ?thesis using less.prems t'(1) le_trans by blast
      qed
    qed
  qed
  then obtain t1 where t1: "t0 \<le> t1" "m t1 = 0" by blast
  have "m t = 0" if "t1 \<le> t" for t using down [OF t1(1) that] t1(2) by simp
  with t1(1) show ?thesis by blast
qed

lemma all_from:
  fixes P :: "nat \<Rightarrow> nat \<Rightarrow> bool"
  assumes "\<And>i. i < n \<Longrightarrow> \<exists>t1. \<forall>t \<ge> t1. P i t"
  shows "\<exists>t1. \<forall>t \<ge> t1. \<forall>i < n. P i t"
  using assms
proof (induction n)
  case (Suc n)
  then obtain t1 t2 where "\<forall>t \<ge> t1. \<forall>i < n. P i t" "\<forall>t \<ge> t2. P n t" by (metis less_Suc_eq)
  then have "\<forall>t \<ge> max t1 t2. \<forall>i < Suc n. P i t" by (simp add: less_Suc_eq)
  then show ?case by blast
qed simp

text \<open>What is left to create, and to do before a server is connected.\<close>

fun to_create :: "nat \<Rightarrow> conn_pc \<Rightarrow> nat" where
  "to_create m (Creating k) = m - k"
| "to_create m pc = 0"

fun to_connect :: "nat \<Rightarrow> conn_pc \<Rightarrow> nat" where
  "to_connect m (Creating k) = m + 2"
| "to_connect m (Connecting j n) = (if n = j then m - j + 1 else m - j + 1 + (m + 1))"
| "to_connect m Connected = 0"

lemma to_create_next: "to_create m (pc_next m ok pc) \<le> to_create m pc" "to_create m pc \<noteq> 0 \<Longrightarrow> to_create m (pc_next m ok pc) < to_create m pc"
  by (cases pc; auto simp: start_pass_def)+

lemma to_create_created: "to_create m pc = 0 \<Longrightarrow> pc_ok m P pc \<Longrightarrow> created m pc = m"
  by (cases pc) auto

lemma to_connect_done: "to_connect m pc = 0 \<Longrightarrow> pc = Connected"
  by (cases pc) (auto split: if_splits)

lemma to_connect_less:
  assumes "created m pc = m" and "pc_ok m P pc" and "to_connect m pc \<noteq> 0"
  shows "to_connect m (pc_next m True pc) < to_connect m pc"
proof (cases pc)
  case (Creating k)
  then show ?thesis using assms by (simp add: start_pass_def)
next
  case (Connecting j n)
  then show ?thesis using assms(2) by (cases "j < m"; cases "n = j"; cases "n = m") (auto simp: start_pass_def)
qed (use assms in simp)

lemma to_connect_le: "created m pc = m \<Longrightarrow> pc_ok m P pc \<Longrightarrow> to_connect m (pc_next m True pc) \<le> to_connect m pc"
  using to_connect_less [of m pc P] to_connect_done [of m pc] by (cases "to_connect m pc = 0") auto

definition fair_schedule :: "nat \<Rightarrow> (nat \<Rightarrow> nat \<times> bool) \<Rightarrow> bool" where
  "fair_schedule N sched \<longleftrightarrow> (\<forall>t. fst (sched t) < N) \<and> (\<forall>i < N. \<forall>t. \<exists>t' \<ge> t. fst (sched t') = i) \<and> (\<exists>t0. \<forall>t \<ge> t0. snd (sched t))"

lemma eventually_connected:
  assumes qv: "qv_ok cap qv" and cap: "T * N \<le> cap" and fresh: "fresh_ok fresh" and N: "N \<le> 2 ^ 15" and T: "T \<le> 200"
    and ok: "servers_ok qv port T N svs" and fair: "fair_schedule N sched"
  shows "\<exists>t1. \<forall>t \<ge> t1. \<exists>svs'. run_servers qv fresh port T (map sched [0..<t]) svs = Inr svs' \<and> (\<forall>sv \<in> set svs'. sv_pc sv = Connected)"
proof -
  let ?m = "T * N"
  have T': "T \<le> 656" using T by simp
  have valid: "fst (sched t) < N" for t using fair by (simp add: fair_schedule_def)
  have "\<exists>svs'. run_servers qv fresh port T (map sched [0..<t]) svs = Inr svs' \<and> servers_ok qv port T N svs'" for t
    using valid by (intro run_servers_ok [OF qv cap fresh N T' ok]) (auto simp: case_prod_beta)
  then obtain S where S: "\<And>t. run_servers qv fresh port T (map sched [0..<t]) svs = Inr (S t)" "\<And>t. servers_ok qv port T N (S t)" by metis
  have len: "length (S t) = N" for t using S(2) by (simp add: servers_ok_def)
  have move: "\<exists>sv good. S (Suc t) = (S t)[fst (sched t) := sv] \<and> sv_pc sv = pc_next ?m good (sv_pc (S t ! fst (sched t))) \<and>
      (snd (sched t) \<and> all_created ?m (S t) \<longrightarrow> good)" for t
  proof -
    from server_step_ok [OF qv cap fresh N T' S(2) [of t] valid [of t], of "snd (sched t)"] obtain sv good where
      sv: "server_step qv fresh port T (fst (sched t)) (snd (sched t)) (S t) = Inr ((S t)[fst (sched t) := sv])"
        "sv_pc sv = pc_next ?m good (sv_pc (S t ! fst (sched t)))" "snd (sched t) \<and> all_created ?m (S t) \<longrightarrow> good" using T by auto
    have "run_servers qv fresh port T (map sched [0..<Suc t]) svs = Inr ((S t)[fst (sched t) := sv])"
      using S(1) [of t] sv(1) by (simp add: run_servers_def rfold_append case_prod_beta)
    then have "S (Suc t) = (S t)[fst (sched t) := sv]" using S(1) [of "Suc t"] by simp
    with sv(2,3) show ?thesis by blast
  qed
  have pc: "\<exists>good. sv_pc (S (Suc t) ! i) = (if i = fst (sched t) then pc_next ?m good (sv_pc (S t ! i)) else sv_pc (S t ! i)) \<and>
      (snd (sched t) \<and> all_created ?m (S t) \<longrightarrow> good)" if "i < N" for i t
    using move [of t] len that by (auto simp: nth_list_update)
  have pick: "\<exists>t' \<ge> t. fst (sched t') = i" if "i < N" for i t using fair that by (simp add: fair_schedule_def)
  have "\<exists>t1. \<forall>t \<ge> t1. to_create ?m (sv_pc (S t ! i)) = 0" if i: "i < N" for i
  proof -
    let ?f = "\<lambda>t. to_create ?m (sv_pc (S t ! i))"
    have step: "?f (Suc t) \<le> ?f t" "fst (sched t) = i \<Longrightarrow> ?f t \<noteq> 0 \<Longrightarrow> ?f (Suc t) < ?f t" for t
      using pc [OF i, of t] to_create_next [of ?m] by (auto split: if_splits)
    from fair_progress [of 0 ?f, OF step pick [OF i]] show ?thesis by blast
  qed
  from all_from [of N "\<lambda>i t. to_create ?m (sv_pc (S t ! i)) = 0", OF this] obtain t1 where t1: "\<And>t i. t1 \<le> t \<Longrightarrow> i < N \<Longrightarrow> to_create ?m (sv_pc (S t ! i)) = 0" by blast
  from fair obtain t0 where t0: "\<And>t. t0 \<le> t \<Longrightarrow> snd (sched t)" by (auto simp: fair_schedule_def)
  let ?t = "max t0 t1"
  have pcok: "pc_ok ?m (inited (sv_ctrl (S t ! i)) N) (sv_pc (S t ! i))" if "i < N" for t i
    using that S(2) [of t] unfolding servers_ok_def server_ok_def by blast
  have created: "created ?m (sv_pc (S t ! i)) = ?m" if "?t \<le> t" "i < N" for t i
    using to_create_created [OF _ pcok [OF that(2)]] t1 [of t i] that by simp
  then have "all_created ?m (S t)" if "?t \<le> t" for t using that len [of t] by (auto simp: all_created_def in_set_conv_nth)
  then have good: "sv_pc (S (Suc t) ! i) = (if i = fst (sched t) then pc_next ?m True (sv_pc (S t ! i)) else sv_pc (S t ! i))"
    if "?t \<le> t" "i < N" for t i using pc [OF that(2), of t] t0 [of t] that(1) by auto
  have "\<exists>t2. \<forall>t \<ge> t2. to_connect ?m (sv_pc (S t ! i)) = 0" if i: "i < N" for i
  proof -
    let ?f = "\<lambda>t. to_connect ?m (sv_pc (S t ! i))"
    have step: "?t \<le> t \<Longrightarrow> ?f (Suc t) \<le> ?f t" "?t \<le> t \<Longrightarrow> fst (sched t) = i \<Longrightarrow> ?f t \<noteq> 0 \<Longrightarrow> ?f (Suc t) < ?f t" for t
      using good [OF _ i, of t] to_connect_less [OF created [OF _ i] pcok [OF i], of t] to_connect_le [OF created [OF _ i] pcok [OF i], of t] by (auto split: if_splits)
    from fair_progress [of ?t ?f, OF step pick [OF i]] show ?thesis by blast
  qed
  from all_from [of N "\<lambda>i t. to_connect ?m (sv_pc (S t ! i)) = 0", OF this] obtain t2 where t2: "\<And>t i. t2 \<le> t \<Longrightarrow> i < N \<Longrightarrow> to_connect ?m (sv_pc (S t ! i)) = 0" by blast
  have "\<forall>sv \<in> set (S t). sv_pc sv = Connected" if "t2 \<le> t" for t
  proof
    fix sv assume "sv \<in> set (S t)"
    then obtain i where "i < N" "sv = S t ! i" using len [of t] by (metis in_set_conv_nth)
    with t2 [OF that] show "sv_pc sv = Connected" using to_connect_done by blast
  qed
  with S(1) show ?thesis by blast
qed

section \<open>A card\<close>

text \<open>A card that keeps the states of its queue pairs in a list and numbers them in order, with room for 1000.\<close>

definition cells :: "qp_state list \<Rightarrow> qp_state list" where
  "cells h = (if length h \<le> 1000 then h else [])"

definition list_verbs :: "qp_state list qp_verbs" where
  "list_verbs = \<lparr>
     qv_create = (\<lambda>h. if length (cells h) < 1000 then (cells h @ [Reset], Some (of_nat (length (cells h)))) else (h, None)),
     qv_modify = (\<lambda>n ch h. if unat n < length (cells h) then
        (case (cells h ! unat n, ch) of
           (Reset, To_Init p) \<Rightarrow> ((cells h)[unat n := Init p], 0)
         | (Init _, To_RTR p d l g) \<Rightarrow> ((cells h)[unat n := RTR p d l g], 0)
         | (RTR p d l g, To_RTS) \<Rightarrow> ((cells h)[unat n := RTS p d l g], 0)
         | _ \<Rightarrow> (h, 22)) else (h, 22)),
     qv_gid = (\<lambda>h p. Some (replicate 16 7)),
     qv_state = (\<lambda>h n. if unat n < length (cells h) then Some (cells h ! unat n) else None)\<rparr>"

lemma cells_length: "length (cells h) \<le> 1000"
  by (simp add: cells_def)

lemma cells_id [simp]: "length h \<le> 1000 \<Longrightarrow> cells h = h"
  by (simp add: cells_def)

lemma unat_cell: "k \<le> 1000 \<Longrightarrow> unat (of_nat k :: u64) = k"
  by (simp add: unat_of_nat)

lemma list_verbs_card: "card (dom (qv_state list_verbs h)) = length (cells h)"
proof -
  have "dom (qv_state list_verbs h) = of_nat ` {..<length (cells h)}"
  proof (intro set_eqI iffI)
    fix n :: u64 assume "n \<in> dom (qv_state list_verbs h)"
    then have "unat n < length (cells h)" by (auto simp: list_verbs_def dom_def split: if_splits)
    then show "n \<in> of_nat ` {..<length (cells h)}" by (intro image_eqI [of _ _ "unat n"]) simp_all
  next
    fix n :: u64 assume "n \<in> of_nat ` {..<length (cells h)}"
    then obtain k where "n = of_nat k" "k < length (cells h)" by auto
    then show "n \<in> dom (qv_state list_verbs h)" using cells_length [of h] unat_cell [of k] by (simp add: list_verbs_def dom_def)
  qed
  moreover have "inj_on (of_nat :: nat \<Rightarrow> u64) {..<length (cells h)}"
  proof (rule inj_onI)
    fix a b assume "a \<in> {..<length (cells h)}" "b \<in> {..<length (cells h)}" and eq: "(of_nat a :: u64) = of_nat b"
    then have "a \<le> 1000" "b \<le> 1000" using cells_length [of h] by simp_all
    then show "a = b" using arg_cong [OF eq, of unat] by (simp add: unat_cell)
  qed
  ultimately show ?thesis by (simp add: card_image)
qed

lemma list_verbs_create:
  assumes "length (cells h) < 1000"
  shows "qv_create list_verbs h = (cells h @ [Reset], Some (of_nat (length (cells h)))) \<and> qv_state list_verbs h (of_nat (length (cells h))) = None \<and>
    qv_state list_verbs (cells h @ [Reset]) = (qv_state list_verbs h)(of_nat (length (cells h)) \<mapsto> Reset)"
proof -
  let ?n = "of_nat (length (cells h)) :: u64"
  have n: "unat ?n = length (cells h)" using assms by (intro unat_cell) simp
  have eq: "m = ?n \<longleftrightarrow> unat m = length (cells h)" for m :: u64 using n by (metis word_unat_eq_iff)
  have "cells (cells h @ [Reset]) = cells h @ [Reset]" using assms by simp
  then show ?thesis using assms n eq by (auto simp: list_verbs_def fun_eq_iff nth_append less_Suc_eq)
qed

lemma list_verbs_update:
  assumes "qv_state list_verbs h n = Some s"
  shows "qv_state list_verbs ((cells h)[unat n := s']) = (qv_state list_verbs h)(n \<mapsto> s')"
  using assms cells_length [of h] by (auto simp: list_verbs_def fun_eq_iff nth_list_update word_unat_eq_iff split: if_splits)

lemma list_verbs_ok:
  assumes "cap \<le> 1000"
  shows "qv_ok cap list_verbs"
  unfolding qv_ok_def
proof (intro conjI allI impI)
  fix h assume "card (dom (qv_state list_verbs h)) < cap"
  then have "length (cells h) < 1000" using assms by (simp add: list_verbs_card)
  from list_verbs_create [OF this] show "\<exists>h' n. qv_create list_verbs h = (h', Some n) \<and> qv_state list_verbs h n = None \<and>
      qv_state list_verbs h' = (qv_state list_verbs h)(n \<mapsto> Reset) \<and> qv_gid list_verbs h' = qv_gid list_verbs h"
    by (intro exI [of _ "cells h @ [Reset]"] exI [of _ "of_nat (length (cells h))"]) (simp add: list_verbs_def)
next
  fix h n p assume s: "qv_state list_verbs h n = Some Reset"
  have "qv_modify list_verbs n (To_Init p) h = ((cells h)[unat n := Init p], 0)" using s by (auto simp: list_verbs_def split: if_splits)
  with list_verbs_update [OF s] show "\<exists>h'. qv_modify list_verbs n (To_Init p) h = (h', 0) \<and>
      qv_state list_verbs h' = (qv_state list_verbs h)(n \<mapsto> Init p) \<and> qv_gid list_verbs h' = qv_gid list_verbs h"
    by (intro exI [of _ "(cells h)[unat n := Init p]"]) (simp add: list_verbs_def)
next
  fix h n p p' d l g assume s: "qv_state list_verbs h n = Some (Init p)"
  have "qv_modify list_verbs n (To_RTR p' d l g) h = ((cells h)[unat n := RTR p' d l g], 0)" using s by (auto simp: list_verbs_def split: if_splits)
  with list_verbs_update [OF s] show "\<exists>h'. qv_modify list_verbs n (To_RTR p' d l g) h = (h', 0) \<and>
      qv_state list_verbs h' = (qv_state list_verbs h)(n \<mapsto> RTR p' d l g) \<and> qv_gid list_verbs h' = qv_gid list_verbs h"
    by (intro exI [of _ "(cells h)[unat n := RTR p' d l g]"]) (simp add: list_verbs_def)
next
  fix h n p d l g assume s: "qv_state list_verbs h n = Some (RTR p d l g)"
  have "qv_modify list_verbs n To_RTS h = ((cells h)[unat n := RTS p d l g], 0)" using s by (auto simp: list_verbs_def split: if_splits)
  with list_verbs_update [OF s] show "\<exists>h'. qv_modify list_verbs n To_RTS h = (h', 0) \<and>
      qv_state list_verbs h' = (qv_state list_verbs h)(n \<mapsto> RTS p d l g) \<and> qv_gid list_verbs h' = qv_gid list_verbs h"
    by (intro exI [of _ "(cells h)[unat n := RTS p d l g]"]) (simp add: list_verbs_def)
next
  fix h p g assume "qv_gid list_verbs h p = Some g"
  then show "length g = 16" by (auto simp: list_verbs_def)
qed

definition new_server :: "nat \<Rightarrow> nat \<Rightarrow> qp_state list server" where
  "new_server N a = \<lparr>sv_ctrl = \<lparr>ct_node = a, ct_nodes = N, ct_single_mr = True, ct_conn_buf = 4096, ct_conn_buf_size = 65536, ct_conn_mr = Some 5,
     ct_lids = [0, 9], ct_card = [], ct_qps = Map.empty\<rparr>, sv_pc = Creating 0\<rparr>"

lemma new_server_ok: "server_new list_verbs 1 N a (new_server N a)"
  by (simp add: server_new_def static_ok_def new_server_def list_verbs_def fun_eq_iff)

lemma replicate_fresh: "fresh_ok (\<lambda>n. replicate n 0)"
  by (simp add: fresh_ok_def)

section \<open>The properties\<close>

text \<open>
  C19: whatever the order in which the servers move and whenever TCP fails, no step fails, a queue pair that counts as
  connected talks to the queue pair that the other server has for the same thread and this server, with the attributes
  that one has, and a server is done only when all its queue pairs are connected.
\<close>

theorem connected_to_counterpart:
  assumes qv: "qv_ok cap qv" and cap: "T * N \<le> cap" and fresh: "fresh_ok fresh" and N: "N \<le> 2 ^ 15" and T: "T \<le> 656"
    and new: "length svs = N" "\<forall>a < N. server_new qv port N a (svs ! a)" and sched: "\<forall>(i, up) \<in> set sched. i < N"
  shows "\<exists>svs'. run_servers qv fresh port T sched svs = Inr svs' \<and>
    (\<forall>a < N. \<forall>t < T. \<forall>b < N. \<forall>q. ct_qps (sv_ctrl (svs' ! a)) (rc_qid t b 0) = Some q \<and> rc_inited q \<longrightarrow>
       (\<exists>q' at. ct_qps (sv_ctrl (svs' ! b)) (rc_qid t a 0) = Some q' \<and> at = local_attr qv (sv_ctrl (svs' ! b)) q' \<and> rc_remote q = Some at \<and>
          qv_state qv (ct_card (sv_ctrl (svs' ! a))) (rc_qpn q) = Some (RTS 1 (rc_qpn q') (qa_lid at) (route (qa_gid at))))) \<and>
    (\<forall>a < N. sv_pc (svs' ! a) = Connected \<longrightarrow>
       (\<forall>t < T. \<forall>b < N. \<exists>q. ct_qps (sv_ctrl (svs' ! a)) (rc_qid t b 0) = Some q \<and> rc_inited q))"
proof -
  from run_servers_ok [OF qv cap fresh N T servers_new_ok [OF new] sched] obtain svs' where
    run: "run_servers qv fresh port T sched svs = Inr svs'" and ok: "servers_ok qv port T N svs'" by blast
  have s: "server_ok qv port T N (attrs qv svs') a (svs' ! a)" if "a < N" for a using ok that by (simp add: servers_ok_def)
  have linked: "\<exists>q' at. ct_qps (sv_ctrl (svs' ! b)) (rc_qid t a 0) = Some q' \<and> at = local_attr qv (sv_ctrl (svs' ! b)) q' \<and> rc_remote q = Some at \<and>
      qv_state qv (ct_card (sv_ctrl (svs' ! a))) (rc_qpn q) = Some (RTS 1 (rc_qpn q') (qa_lid at) (route (qa_gid at)))"
    if a: "a < N" and t: "t < T" and b: "b < N" and q: "ct_qps (sv_ctrl (svs' ! a)) (rc_qid t b 0) = Some q" "rc_inited q" for a t b q
  proof -
    have "0 < N" "(t * N + b) div N = t" "(t * N + b) mod N = b" using b by simp_all
    with stored_at [OF N T s [OF a] t b q(1)] q(2) obtain at where at: "attrs qv svs' b (rc_qid t a 0) = Some at" "rc_remote q = Some at"
      "qv_state qv (ct_card (sv_ctrl (svs' ! a))) (rc_qpn q) = Some (RTS 1 (qa_qpn at) (qa_lid at) (route (qa_gid at)))"
      by (auto simp: qp_ok_def)
    from at(1) obtain q' where "ct_qps (sv_ctrl (svs' ! b)) (rc_qid t a 0) = Some q'" "at = local_attr qv (sv_ctrl (svs' ! b)) q'"
      by (auto simp: attrs_def)
    moreover from this have "qa_qpn at = rc_qpn q'" by (simp add: local_attr_def)
    ultimately show ?thesis using at(2,3) by auto
  qed
  have all: "\<exists>q. ct_qps (sv_ctrl (svs' ! a)) (rc_qid t b 0) = Some q \<and> rc_inited q" if "a < N" "sv_pc (svs' ! a) = Connected" "t < T" "b < N" for a t b
  proof -
    have "inited (sv_ctrl (svs' ! a)) N (t * N + b)" using s [OF that(1)] that(2) pair_index [OF that(3,4)] by (simp add: server_ok_def)
    then show ?thesis using key_at [OF that(4)] by (simp add: inited_def)
  qed
  show ?thesis using run linked all by blast
qed

theorem connected_to_counterpart_witness:
  "\<exists>svs. run_servers list_verbs (\<lambda>n. replicate n 0) 1 1 [(1, True), (0, False)] [new_server 2 0, new_server 2 1] = Inr svs"
proof -
  have "\<forall>a < 2. server_new list_verbs 1 2 a ([new_server 2 0, new_server 2 1] ! a)" using new_server_ok by (auto simp: less_2_cases_iff)
  from connected_to_counterpart [OF list_verbs_ok [of 2] _ replicate_fresh _ _ _ this, of 1 "[(1, True), (0, False)]"] show ?thesis by auto
qed

text \<open>
  C20: with at most 200 threads, when every server keeps moving and TCP fails only for a while, all servers end up
  connected and stay so.
\<close>

theorem all_servers_connect:
  assumes qv: "qv_ok cap qv" and cap: "T * N \<le> cap" and fresh: "fresh_ok fresh" and N: "N \<le> 2 ^ 15" and T: "T \<le> 200"
    and new: "length svs = N" "\<forall>a < N. server_new qv port N a (svs ! a)" and fair: "fair_schedule N sched"
  shows "\<exists>t1. \<forall>t \<ge> t1. \<exists>svs'. run_servers qv fresh port T (map sched [0..<t]) svs = Inr svs' \<and> (\<forall>sv \<in> set svs'. sv_pc sv = Connected)"
  by (rule eventually_connected [OF qv cap fresh N T servers_new_ok [OF new] fair])

theorem all_servers_connect_witness:
  "\<exists>t svs. run_servers list_verbs (\<lambda>n. replicate n 0) 1 3 (map (\<lambda>t. (t mod 2, True)) [0..<t]) [new_server 2 0, new_server 2 1] = Inr svs \<and>
     (\<forall>sv \<in> set svs. sv_pc sv = Connected)"
proof -
  have new: "\<forall>a < 2. server_new list_verbs 1 2 a ([new_server 2 0, new_server 2 1] ! a)" using new_server_ok by (auto simp: less_2_cases_iff)
  have fair: "fair_schedule 2 (\<lambda>t. (t mod 2, True))"
    unfolding fair_schedule_def
  proof (intro conjI allI impI)
    fix i t :: nat assume "i < 2"
    then have "(2 * t + i) mod 2 = i" "t \<le> 2 * t + i" by simp_all
    then show "\<exists>t' \<ge> t. fst (t' mod 2, True) = i" by (metis fst_conv)
  qed auto
  have "\<exists>t1. \<forall>t \<ge> t1. \<exists>svs'. run_servers list_verbs (\<lambda>n. replicate n 0) 1 3 (map (\<lambda>t. (t mod 2, True)) [0..<t])
      [new_server 2 0, new_server 2 1] = Inr svs' \<and> (\<forall>sv \<in> set svs'. sv_pc sv = Connected)"
    by (rule all_servers_connect [OF list_verbs_ok [of 6] _ replicate_fresh _ _ _ new fair]) simp_all
  then show ?thesis by blast
qed

text \<open>
  C21: with more than 200 threads no server is ever done: the ids of the queue pairs of thread 200 count as ids of
  datagram queue pairs, and the requests for those are refused until they are connected themselves.
\<close>

theorem too_many_threads_never_connect:
  assumes qv: "qv_ok cap qv" and cap: "T * N \<le> cap" and fresh: "fresh_ok fresh" and N: "0 < N" "N \<le> 2 ^ 15" and T: "200 < T" "T \<le> 656"
    and new: "length svs = N" "\<forall>a < N. server_new qv port N a (svs ! a)" and sched: "\<forall>(i, up) \<in> set sched. i < N"
  shows "\<exists>svs'. run_servers qv fresh port T sched svs = Inr svs' \<and> (\<forall>sv \<in> set svs'. sv_pc sv \<noteq> Connected)"
proof -
  from run_servers_ok [OF qv cap fresh N(2) T(2) servers_new_ok [OF new] sched] obtain svs' where
    run: "run_servers qv fresh port T sched svs = Inr svs'" and ok: "servers_ok qv port T N svs'" by blast
  have "sv_pc (svs' ! a) \<noteq> Connected" if a: "a < N" for a
  proof
    assume fin: "sv_pc (svs' ! a) = Connected"
    have s: "server_ok qv port T N (attrs qv svs') a (svs' ! a)" using ok a by (simp add: servers_ok_def)
    have k: "200 * N + 0 < T * N" using pair_index [OF T(1) N(1)] .
    then have "inited (sv_ctrl (svs' ! a)) N (200 * N + 0)" using s fin unfolding server_ok_def by auto
    then obtain q where q: "ct_qps (sv_ctrl (svs' ! a)) (rc_qid 200 0 0) = Some q" "rc_inited q"
      using key_at [OF N(1), of 200] by (auto simp: inited_def)
    from stored_at [OF N(2) T(2) s T(1) N(1) q(1)] q(2) N(1) show False by (auto simp: qp_ok_def)
  qed
  with run ok show ?thesis by (auto simp: servers_ok_def in_set_conv_nth)
qed

theorem too_many_threads_never_connect_witness:
  "\<exists>svs. run_servers list_verbs (\<lambda>n. replicate n 0) 1 201 (replicate 5 (0, True)) [new_server 1 0] = Inr svs \<and> (\<forall>sv \<in> set svs. sv_pc sv \<noteq> Connected)"
  using too_many_threads_never_connect [OF list_verbs_ok [of 201] _ replicate_fresh, of 201 1 "[new_server 1 0]" 1 "replicate 5 (0, True)"] new_server_ok
  by auto

end
