(* ===== verification/CachedIO.thy ===== *)
theory CachedIO
  imports ByteMemory
begin

text \<open>
  The cached file streams of \<open>include/efanna2e/cached_io.h\<close>. A reader keeps the position of the underlying file,
  the cache and how much of it was read; a writer the bytes not yet written. A read past the end of the file
  throws, because the constructor switches the exceptions of the stream on.
\<close>

section \<open>Reading\<close>

record cached_in =
  ci_file :: "byte list"
  ci_pos :: nat
  ci_size :: nat
  ci_buf :: "byte list"
  ci_off :: nat

definition cached_open :: "byte list \<Rightarrow> nat \<Rightarrow> cached_in result" where
  "cached_open f cacheSize =
     rbind (require (0 < cacheSize) Assert_Failed) (\<lambda>_.
     let n = min cacheSize (length f) in
     Inr \<lparr>ci_file = f, ci_pos = n, ci_size = n, ci_buf = take n f, ci_off = 0\<rparr>)"

definition file_read :: "nat \<Rightarrow> cached_in \<Rightarrow> (byte list \<times> cached_in) result" where
  "file_read n c =
     (if ci_pos c + n \<le> length (ci_file c) then Inr (slice (ci_file c) (ci_pos c) n, c\<lparr>ci_pos := ci_pos c + n\<rparr>)
      else Inl (Runtime_Error ''basic_ios::clear''))"

definition cached_read :: "nat \<Rightarrow> cached_in \<Rightarrow> (byte list \<times> cached_in) result" where
  "cached_read n c =
     (if n \<le> ci_size c - ci_off c then
        rbind (load (ci_buf c) (ci_off c) n) (\<lambda>bs. Inr (bs, c\<lparr>ci_off := ci_off c + n\<rparr>))
      else
        let cached_bytes = ci_size c - ci_off c in
        rbind (load (ci_buf c) (ci_off c) cached_bytes) (\<lambda>bs.
        rbind (file_read (n - cached_bytes) c) (\<lambda>(cs, c).
        let c = c\<lparr>ci_off := ci_size c\<rparr>; size_left = length (ci_file c) - ci_pos c in
        if ci_size c \<le> size_left then
          rbind (file_read (ci_size c) c) (\<lambda>(buf, c). Inr (bs @ cs, c\<lparr>ci_buf := buf, ci_off := 0\<rparr>))
        else Inr (bs @ cs, c))))"

text \<open>A sequence of reads.\<close>

fun cached_reads :: "nat list \<Rightarrow> cached_in \<Rightarrow> (byte list list \<times> cached_in) result" where
  "cached_reads [] c = Inr ([], c)"
| "cached_reads (n # ns) c =
     rbind (cached_read n c) (\<lambda>(bs, c). rbind (cached_reads ns c) (\<lambda>(bss, c). Inr (bs # bss, c)))"

section \<open>Writing\<close>

record cached_out =
  co_size :: nat
  co_buf :: "byte list"
  co_off :: nat
  co_file :: "byte list"
  co_pos :: nat
  co_fsize :: nat

text \<open>\<open>fresh\<close> is the content of the new buffer.\<close>

definition cached_create :: "(nat \<Rightarrow> byte list) \<Rightarrow> nat \<Rightarrow> cached_out result" where
  "cached_create fresh cache_size =
     rbind (require (0 < cache_size) Assert_Failed) (\<lambda>_.
     Inr \<lparr>co_size = cache_size, co_buf = fresh cache_size, co_off = 0, co_file = [], co_pos = 0, co_fsize = 0\<rparr>)"

text \<open>The stream writes at its position, over what is there; \<open>fsize\<close> counts what was written.\<close>

definition file_write :: "byte list \<Rightarrow> cached_out \<Rightarrow> cached_out" where
  "file_write bs c =
     c\<lparr>co_file := take (co_pos c) (co_file c) @ bs @ drop (co_pos c + length bs) (co_file c),
       co_pos := co_pos c + length bs, co_fsize := co_fsize c + length bs\<rparr>"

definition clear_cache :: "cached_out \<Rightarrow> cached_out" where
  "clear_cache c = c\<lparr>co_buf := replicate (co_size c) 0, co_off := 0\<rparr>"

definition flush_cache :: "cached_out \<Rightarrow> cached_out result" where
  "flush_cache c =
     rbind (load (co_buf c) 0 (co_off c)) (\<lambda>bs.
     Inr (clear_cache (file_write bs c)))"

definition cached_write :: "byte list \<Rightarrow> cached_out \<Rightarrow> cached_out result" where
  "cached_write bs c =
     (if length bs \<le> co_size c - co_off c then
        rbind (store (co_buf c) (co_off c) bs) (\<lambda>buf. Inr (c\<lparr>co_buf := buf, co_off := co_off c + length bs\<rparr>))
      else
        rbind (load (co_buf c) 0 (co_off c)) (\<lambda>cached.
        Inr (clear_cache (file_write bs (file_write cached c)))))"

definition cached_close :: "cached_out \<Rightarrow> cached_out result" where
  "cached_close c = (if 0 < co_off c then flush_cache c else Inr c)"

definition cached_reset :: "cached_out \<Rightarrow> cached_out result" where
  "cached_reset c = rbind (flush_cache c) (\<lambda>c. Inr (c\<lparr>co_pos := 0\<rparr>))"

section \<open>What was read and written\<close>

text \<open>The next byte to be delivered, and the cache as a part of the file.\<close>

definition ci_next :: "cached_in \<Rightarrow> nat" where
  "ci_next c = ci_pos c - (ci_size c - ci_off c)"

definition ci_ok :: "cached_in \<Rightarrow> bool" where
  "ci_ok c \<longleftrightarrow> ci_off c \<le> ci_size c \<and> length (ci_buf c) = ci_size c \<and> ci_size c - ci_off c \<le> ci_pos c \<and> ci_pos c \<le> length (ci_file c) \<and>
     drop (ci_off c) (ci_buf c) = slice (ci_file c) (ci_next c) (ci_size c - ci_off c)"

lemma cached_open_ok: "0 < n \<Longrightarrow> \<exists>c. cached_open f n = Inr c \<and> ci_ok c \<and> ci_next c = 0 \<and> ci_file c = f"
  by (simp add: cached_open_def ci_ok_def ci_next_def slice_def Let_def)

lemma slice_join: "slice f p m @ slice f (p + m) n = slice f p (m + n)"
  by (simp add: slice_def take_add add.commute)

lemma ci_okI:
  "o1 \<le> s \<Longrightarrow> length b = s \<Longrightarrow> k + (s - o1) \<le> length f \<Longrightarrow> drop o1 b = slice f k (s - o1) \<Longrightarrow>
   ci_ok \<lparr>ci_file = f, ci_pos = k + (s - o1), ci_size = s, ci_buf = b, ci_off = o1\<rparr> \<and>
   ci_next \<lparr>ci_file = f, ci_pos = k + (s - o1), ci_size = s, ci_buf = b, ci_off = o1\<rparr> = k"
  by (simp add: ci_ok_def ci_next_def)

lemma cached_read_ok:
  assumes ok: "ci_ok c" and fits: "ci_next c + n \<le> length (ci_file c)"
  shows "\<exists>c'. cached_read n c = Inr (slice (ci_file c) (ci_next c) n, c') \<and> ci_ok c' \<and> ci_next c' = ci_next c + n \<and> ci_file c' = ci_file c"
proof -
  obtain f p s b o1 where c: "c = \<lparr>ci_file = f, ci_pos = p, ci_size = s, ci_buf = b, ci_off = o1\<rparr>" by (cases c)
  define k r where "k = p - (s - o1)" and "r = s - o1"
  have k: "ci_next c = k" by (simp add: ci_next_def c k_def)
  have off: "o1 \<le> s" and len: "length b = s" and pos: "p = k + r" "k + r \<le> length f" and buf: "drop o1 b = slice f k r"
    using ok by (auto simp: ci_ok_def c ci_next_def k_def r_def)
  have part: "slice b o1 m = slice f k m" if "m \<le> r" for m
  proof -
    have "slice b o1 m = take m (slice f k r)" by (simp only: slice_def [of b] buf)
    then show ?thesis using that by (simp add: slice_def min_absorb1)
  qed
  have k_fits: "k + n \<le> length f" using fits k c by simp
  show ?thesis
  proof (cases "n \<le> r")
    case True
    let ?c = "\<lparr>ci_file = f, ci_pos = k + n + (s - (o1 + n)), ci_size = s, ci_buf = b, ci_off = o1 + n\<rparr>"
    have on: "o1 + n \<le> s" and pn: "p = k + n + (s - (o1 + n))" using True off pos(1) by (simp_all add: r_def)
    have "drop (o1 + n) b = drop n (slice f k r)" by (metis buf drop_drop add.commute)
    also have "\<dots> = slice f (k + n) (s - (o1 + n))" by (simp add: slice_def drop_take r_def add.commute diff_diff_left)
    finally have inv: "ci_ok ?c \<and> ci_next ?c = k + n" using True len pos(2) on by (intro ci_okI) (simp_all add: r_def)
    have "cached_read n c = rbind (load b o1 n) (\<lambda>bs. Inr (bs, c\<lparr>ci_off := o1 + n\<rparr>))" using True by (simp add: cached_read_def c r_def)
    then have "cached_read n c = Inr (slice f k n, ?c)" using part [OF True] len on pn by (simp add: c load_def)
    with inv show ?thesis using k c by simp
  next
    case False
    then have n: "r + (n - r) = n" by simp
    have first: "load b o1 r = Inr (slice f k r)" using part [of r] len off by (simp add: load_def r_def)
    have bytes: "slice f k r @ slice f (k + r) (n - r) = slice f k n" using slice_join [of f k r "n - r"] n by simp
    have fit: "k + r + (n - r) \<le> length f" using k_fits n by linarith
    show ?thesis
    proof (cases "s \<le> length f - (k + n)")
      case True
      let ?c = "\<lparr>ci_file = f, ci_pos = k + n + (s - 0), ci_size = s, ci_buf = slice f (k + n) s, ci_off = 0\<rparr>"
      have "ci_ok ?c \<and> ci_next ?c = k + n" using True k_fits by (intro ci_okI) simp_all
      moreover have "cached_read n c = Inr (slice f k n, ?c)"
        using True False first fit bytes n k_fits by (simp add: cached_read_def c Let_def file_read_def pos(1) flip: r_def)
      ultimately show ?thesis using k c by simp
    next
      case False': False
      let ?c = "\<lparr>ci_file = f, ci_pos = k + n + (s - s), ci_size = s, ci_buf = b, ci_off = s\<rparr>"
      have "ci_ok ?c \<and> ci_next ?c = k + n" using k_fits len by (intro ci_okI) (simp_all add: slice_def)
      moreover have "cached_read n c = Inr (slice f k n, ?c)"
        using False False' first fit bytes n by (simp add: cached_read_def c Let_def file_read_def pos(1) flip: r_def)
      ultimately show ?thesis using k c by simp
    qed
  qed
qed

lemma cached_reads_ok:
  assumes "ci_ok c" and "ci_next c + sum_list ns \<le> length (ci_file c)"
  shows "\<exists>bss c'. cached_reads ns c = Inr (bss, c') \<and> map length bss = ns \<and> concat bss = slice (ci_file c) (ci_next c) (sum_list ns)"
  using assms
proof (induction ns arbitrary: c)
  case Nil
  then show ?case by (simp add: slice_def)
next
  case (Cons n ns)
  then have fits: "ci_next c + n \<le> length (ci_file c)" by simp
  from cached_read_ok [OF Cons.prems(1) fits] obtain c' where
    c': "cached_read n c = Inr (slice (ci_file c) (ci_next c) n, c')" "ci_ok c'" "ci_next c' = ci_next c + n" "ci_file c' = ci_file c" by blast
  from Cons.IH [OF c'(2)] Cons.prems(2) c'(3,4) obtain bss c'' where
    "cached_reads ns c' = Inr (bss, c'')" "map length bss = ns" "concat bss = slice (ci_file c) (ci_next c + n) (sum_list ns)" by auto
  then show ?case using c'(1) fits slice_join [of "ci_file c" "ci_next c" n "sum_list ns"] by simp
qed

definition co_ok :: "cached_out \<Rightarrow> bool" where
  "co_ok c \<longleftrightarrow> length (co_buf c) = co_size c \<and> co_off c \<le> co_size c \<and> co_pos c = length (co_file c) \<and> co_fsize c = length (co_file c)"

definition co_written :: "cached_out \<Rightarrow> byte list" where
  "co_written c = co_file c @ take (co_off c) (co_buf c)"

lemma cached_write_ok:
  assumes "co_ok c"
  shows "\<exists>c'. cached_write bs c = Inr c' \<and> co_ok c' \<and> co_written c' = co_written c @ bs"
  using assms by (auto simp: cached_write_def file_write_def clear_cache_def store_def load_def slice_def co_ok_def co_written_def)

lemma cached_writes_ok:
  assumes "co_ok c"
  shows "\<exists>c'. rfold cached_write bss c = Inr c' \<and> co_ok c' \<and> co_written c' = co_written c @ concat bss"
  using assms
proof (induction bss arbitrary: c)
  case (Cons bs bss)
  from cached_write_ok [OF Cons.prems, of bs] obtain c' where "cached_write bs c = Inr c'" "co_ok c'" "co_written c' = co_written c @ bs" by blast
  with Cons.IH [of c'] show ?case by auto
qed simp

lemma cached_close_ok: "co_ok c \<Longrightarrow> \<exists>c'. cached_close c = Inr c' \<and> co_file c' = co_written c \<and> co_fsize c' = length (co_written c)"
  by (auto simp: cached_close_def flush_cache_def file_write_def clear_cache_def load_def slice_def co_ok_def co_written_def)

text \<open>
  C34: bytes written in any pieces through a cache of any size are the file, and reading the file in any pieces
  through a cache of any size gives them back in order.
\<close>

theorem cached_roundtrip:
  assumes "0 < m" and "0 < n" and "\<And>k. length (fresh k) = k" and "sum_list ns \<le> length (concat bss)"
  shows "\<exists>o1 o2 o3 i css i'. cached_create fresh m = Inr o1 \<and> rfold cached_write bss o1 = Inr o2 \<and> cached_close o2 = Inr o3 \<and>
    co_file o3 = concat bss \<and> co_fsize o3 = length (co_file o3) \<and>
    cached_open (co_file o3) n = Inr i \<and> cached_reads ns i = Inr (css, i') \<and> map length css = ns \<and> concat css = take (sum_list ns) (concat bss)"
proof -
  obtain o1 where o1: "cached_create fresh m = Inr o1" "co_ok o1" "co_written o1 = []"
    using assms(1,3) by (simp add: cached_create_def co_ok_def co_written_def)
  from cached_writes_ok [OF o1(2), of bss] obtain o2 where o2: "rfold cached_write bss o1 = Inr o2" "co_ok o2" "co_written o2 = concat bss"
    using o1(3) by auto
  from cached_close_ok [OF o2(2)] obtain o3 where o3: "cached_close o2 = Inr o3" "co_file o3 = concat bss" "co_fsize o3 = length (concat bss)"
    using o2(3) by auto
  from cached_open_ok [OF assms(2), of "concat bss"] obtain i where i: "cached_open (concat bss) n = Inr i" "ci_ok i" "ci_next i = 0" "ci_file i = concat bss" by blast
  from cached_reads_ok [OF i(2), of ns] obtain css i' where
    "cached_reads ns i = Inr (css, i')" "map length css = ns" "concat css = slice (concat bss) 0 (sum_list ns)" using i(3,4) assms(4) by auto
  then show ?thesis using o1(1) o2(1) o3 i(1) by (simp add: slice_def)
qed

theorem cached_roundtrip_witness:
  "\<exists>o1 o2 o3 i css i'. cached_create (\<lambda>k. replicate k 0) 2 = Inr o1 \<and> rfold cached_write [[1], [2, 3, 4], [5]] o1 = Inr o2 \<and> cached_close o2 = Inr o3 \<and>
    cached_open (co_file o3) 3 = Inr i \<and> cached_reads [4, 1] i = Inr (css, i') \<and> concat css = [1, 2, 3, 4, 5]"
  using cached_roundtrip [of 2 3 "\<lambda>k. replicate k 0" "[4, 1]" "[[1], [2, 3, 4], [5]]"] by auto

end
