(* ===== verification/Floats.thy ===== *)
theory Floats
  imports Prelude
begin

text \<open>
  Floating point numbers as the program computes with them: IEEE 754 \<open>float\<close> and \<open>double\<close>, rounding to nearest, ties to
  even. A finite number is a sign and a multiple of the smallest positive number of its format, so that every
  operation is exact integer arithmetic followed by one rounding. There is one NaN. The compiler may fuse a
  multiplication and the addition that follows it; the model rounds both.
\<close>

section \<open>Formats and values\<close>

record fmt =
  prec :: nat
  ebits :: nat

definition f32 :: fmt where
  "f32 = \<lparr>prec = 24, ebits = 8\<rparr>"

definition f64 :: fmt where
  "f64 = \<lparr>prec = 53, ebits = 11\<rparr>"

datatype fl = NaN | Inf bool | Fin bool nat

text \<open>The smallest positive number is \<open>2 ^ - f_unit\<close>.\<close>

definition f_unit :: "fmt \<Rightarrow> nat" where
  "f_unit f = 2 ^ (ebits f - 1) - 2 + (prec f - 1)"

definition max_shift :: "fmt \<Rightarrow> nat" where
  "max_shift f = 2 ^ ebits f - 3"

fun signed_int :: "bool \<Rightarrow> nat \<Rightarrow> int" where
  "signed_int s k = (if s then - int k else int k)"

text \<open>How many low bits a number of more than \<open>p\<close> bits has to drop.\<close>

function norm_shift :: "nat \<Rightarrow> nat \<Rightarrow> nat" where
  "norm_shift p k = (if k < 2 ^ p then 0 else Suc (norm_shift p (k div 2)))"
  by auto
termination
  by (relation "measure snd") (auto intro!: div_less_dividend simp: not_less, metis gr0I less_one less_le_trans one_le_numeral one_le_power not_less_zero)

declare norm_shift.simps [simp del]

definition round_div :: "nat \<Rightarrow> nat \<Rightarrow> nat" where
  "round_div n d =
     (let q = n div d; r = n mod d in
      if 2 * r < d then q else if d < 2 * r then q + 1 else if even q then q else q + 1)"

text \<open>The number of the format nearest to \<open>n / d\<close> units.\<close>

definition fl_round :: "fmt \<Rightarrow> bool \<Rightarrow> nat \<Rightarrow> nat \<Rightarrow> fl" where
  "fl_round f sg n d =
     (let s = norm_shift (prec f) (n div d); k = round_div n (d * 2 ^ s) * 2 ^ s in
      if max_shift f < norm_shift (prec f) k then Inf sg else Fin sg k)"

section \<open>Bit patterns\<close>

definition fl_decode :: "fmt \<Rightarrow> nat \<Rightarrow> fl" where
  "fl_decode f n =
     (let m = n mod 2 ^ (prec f - 1); e = n div 2 ^ (prec f - 1) mod 2 ^ ebits f;
          sg = odd (n div 2 ^ (prec f - 1) div 2 ^ ebits f) in
      if e = 2 ^ ebits f - 1 then (if m = 0 then Inf sg else NaN)
      else Fin sg (if e = 0 then m else (2 ^ (prec f - 1) + m) * 2 ^ (e - 1)))"

definition sign_code :: "fmt \<Rightarrow> bool \<Rightarrow> nat" where
  "sign_code f sg = (if sg then 2 ^ ebits f * 2 ^ (prec f - 1) else 0)"

fun fl_code :: "fmt \<Rightarrow> fl \<Rightarrow> nat" where
  "fl_code f NaN = (2 ^ ebits f - 1) * 2 ^ (prec f - 1) + 2 ^ (prec f - 2)"
| "fl_code f (Inf sg) = sign_code f sg + (2 ^ ebits f - 1) * 2 ^ (prec f - 1)"
| "fl_code f (Fin sg k) =
     sign_code f sg + (let s = norm_shift (prec f) k in s * 2 ^ (prec f - 1) + k div 2 ^ s)"

section \<open>Operations\<close>

fun fl_neg :: "fl \<Rightarrow> fl" where
  "fl_neg NaN = NaN"
| "fl_neg (Inf s) = Inf (\<not> s)"
| "fl_neg (Fin s k) = Fin (\<not> s) k"

fun fl_add :: "fmt \<Rightarrow> fl \<Rightarrow> fl \<Rightarrow> fl" where
  "fl_add f (Fin s k) (Fin t l) =
     (let z = signed_int s k + signed_int t l in
      if z = 0 then Fin (s \<and> t) 0 else fl_round f (z < 0) (nat \<bar>z\<bar>) 1)"
| "fl_add f (Inf s) (Inf t) = (if s = t then Inf s else NaN)"
| "fl_add f (Inf s) (Fin t l) = Inf s"
| "fl_add f (Fin s k) (Inf t) = Inf t"
| "fl_add f a b = NaN"

fun fl_mul :: "fmt \<Rightarrow> fl \<Rightarrow> fl \<Rightarrow> fl" where
  "fl_mul f (Fin s k) (Fin t l) = fl_round f (s \<noteq> t) (k * l) (2 ^ f_unit f)"
| "fl_mul f (Inf s) (Inf t) = Inf (s \<noteq> t)"
| "fl_mul f (Inf s) (Fin t l) = (if l = 0 then NaN else Inf (s \<noteq> t))"
| "fl_mul f (Fin s k) (Inf t) = (if k = 0 then NaN else Inf (s \<noteq> t))"
| "fl_mul f a b = NaN"

fun fl_div :: "fmt \<Rightarrow> fl \<Rightarrow> fl \<Rightarrow> fl" where
  "fl_div f (Fin s k) (Fin t l) =
     (if l = 0 then (if k = 0 then NaN else Inf (s \<noteq> t)) else fl_round f (s \<noteq> t) (k * 2 ^ f_unit f) l)"
| "fl_div f (Inf s) (Fin t l) = Inf (s \<noteq> t)"
| "fl_div f (Fin s k) (Inf t) = Fin (s \<noteq> t) 0"
| "fl_div f a b = NaN"

text \<open>The place of a number in the order; the infinities lie beyond every finite number.\<close>

fun fl_place :: "fmt \<Rightarrow> fl \<Rightarrow> int" where
  "fl_place f NaN = 0"
| "fl_place f (Inf s) = (if s then -1 else 1) * 2 ^ (prec f + max_shift f)"
| "fl_place f (Fin s k) = signed_int s k"

definition fl_less :: "fmt \<Rightarrow> fl \<Rightarrow> fl \<Rightarrow> bool" where
  "fl_less f a b \<longleftrightarrow> a \<noteq> NaN \<and> b \<noteq> NaN \<and> fl_place f a < fl_place f b"

definition fl_le :: "fmt \<Rightarrow> fl \<Rightarrow> fl \<Rightarrow> bool" where
  "fl_le f a b \<longleftrightarrow> a \<noteq> NaN \<and> b \<noteq> NaN \<and> fl_place f a \<le> fl_place f b"

text \<open>A number of one format in another: \<open>float\<close> to \<open>double\<close> is exact.\<close>

fun fl_convert :: "fmt \<Rightarrow> fmt \<Rightarrow> fl \<Rightarrow> fl" where
  "fl_convert f g (Fin s k) = fl_round g s (k * 2 ^ f_unit g) (2 ^ f_unit f)"
| "fl_convert f g a = a"

definition fl_of_int :: "fmt \<Rightarrow> int \<Rightarrow> fl" where
  "fl_of_int f x = fl_round f (x < 0) (nat \<bar>x\<bar> * 2 ^ f_unit f) 1"

section \<open>The machine's types\<close>

definition dec32 :: "u32 \<Rightarrow> fl" where
  "dec32 w = fl_decode f32 (unat w)"

definition enc32 :: "fl \<Rightarrow> u32" where
  "enc32 a = of_nat (fl_code f32 a)"

definition dec64 :: "u64 \<Rightarrow> fl" where
  "dec64 w = fl_decode f64 (unat w)"

definition enc64 :: "fl \<Rightarrow> u64" where
  "enc64 a = of_nat (fl_code f64 a)"

definition fadd :: "u32 \<Rightarrow> u32 \<Rightarrow> u32" where
  "fadd a b = enc32 (fl_add f32 (dec32 a) (dec32 b))"

definition fsub :: "u32 \<Rightarrow> u32 \<Rightarrow> u32" where
  "fsub a b = enc32 (fl_add f32 (dec32 a) (fl_neg (dec32 b)))"

definition fmul :: "u32 \<Rightarrow> u32 \<Rightarrow> u32" where
  "fmul a b = enc32 (fl_mul f32 (dec32 a) (dec32 b))"

definition fdiv :: "u32 \<Rightarrow> u32 \<Rightarrow> u32" where
  "fdiv a b = enc32 (fl_div f32 (dec32 a) (dec32 b))"

definition fneg :: "u32 \<Rightarrow> u32" where
  "fneg a = enc32 (fl_neg (dec32 a))"

definition flt :: "u32 \<Rightarrow> u32 \<Rightarrow> bool" where
  "flt a b = fl_less f32 (dec32 a) (dec32 b)"

definition f_place :: "u32 \<Rightarrow> int" where
  "f_place a = fl_place f32 (dec32 a)"

definition f_of_int :: "int \<Rightarrow> u32" where
  "f_of_int x = enc32 (fl_of_int f32 x)"

definition dadd :: "u64 \<Rightarrow> u64 \<Rightarrow> u64" where
  "dadd a b = enc64 (fl_add f64 (dec64 a) (dec64 b))"

definition dmul :: "u64 \<Rightarrow> u64 \<Rightarrow> u64" where
  "dmul a b = enc64 (fl_mul f64 (dec64 a) (dec64 b))"

definition ddiv :: "u64 \<Rightarrow> u64 \<Rightarrow> u64" where
  "ddiv a b = enc64 (fl_div f64 (dec64 a) (dec64 b))"

definition dlt :: "u64 \<Rightarrow> u64 \<Rightarrow> bool" where
  "dlt a b = fl_less f64 (dec64 a) (dec64 b)"

definition dle :: "u64 \<Rightarrow> u64 \<Rightarrow> bool" where
  "dle a b = fl_le f64 (dec64 a) (dec64 b)"

definition d_of_int :: "int \<Rightarrow> u64" where
  "d_of_int x = enc64 (fl_of_int f64 x)"

definition f2d :: "u32 \<Rightarrow> u64" where
  "f2d a = enc64 (fl_convert f32 f64 (dec32 a))"

definition d2f :: "u64 \<Rightarrow> u32" where
  "d2f a = enc32 (fl_convert f64 f32 (dec64 a))"

end
