(* ===== verification/FloatExact.thy ===== *)
theory FloatExact
  imports Floats
begin

text \<open>
  Floating point arithmetic is exact on integers of at most as many bits as the format has: sums, differences and
  products of such numbers that stay in that range are computed without rounding. Vectors of bytes, and their
  distances, are of this kind.
\<close>

named_theorems fint_intros

section \<open>Rounding what needs no rounding\<close>

lemma norm_shift_small [simp]: "k < 2 ^ p \<Longrightarrow> norm_shift p k = 0"
  by (simp add: norm_shift.simps)

lemma norm_shift_less: "k div 2 ^ norm_shift p k < 2 ^ p"
proof (induction p k rule: norm_shift.induct)
  case (1 p k)
  then show ?case by (subst norm_shift.simps) (simp_all add: div_mult2_eq norm_shift.simps [of p k])
qed

lemma norm_shift_ge: "norm_shift p k \<noteq> 0 \<Longrightarrow> 0 < p \<Longrightarrow> 2 ^ (p - 1) \<le> k div 2 ^ norm_shift p k"
proof (induction p k rule: norm_shift.induct)
  case (1 p k)
  show ?case
  proof (cases "norm_shift p (k div 2) = 0")
    case True
    with 1 show ?thesis by (cases p) (auto simp: norm_shift.simps [of _ k] split: if_splits)
  next
    case False
    with 1 show ?thesis by (auto simp: norm_shift.simps [of _ k] div_mult2_eq split: if_splits)
  qed
qed

lemma norm_shift_le: "k < 2 ^ (p + s) \<Longrightarrow> norm_shift p k \<le> s"
proof (induction s arbitrary: k)
  case (Suc s)
  then have "norm_shift p (k div 2) \<le> s" by simp
  then show ?case by (simp add: norm_shift.simps [of p k])
qed simp

lemma round_div_exact [simp]: "0 < d \<Longrightarrow> round_div (k * d) d = k"
  by (simp add: round_div_def)

definition fmt_ok :: "fmt \<Rightarrow> bool" where
  "fmt_ok f \<longleftrightarrow> 2 \<le> prec f \<and> 2 \<le> ebits f \<and> f_unit f < max_shift f"

lemma fmt_ok_f32: "fmt_ok f32" and fmt_ok_f64: "fmt_ok f64"
  by (simp_all add: fmt_ok_def f32_def f64_def f_unit_def max_shift_def)

definition fl_repr :: "fmt \<Rightarrow> nat \<Rightarrow> bool" where
  "fl_repr f k \<longleftrightarrow> 2 ^ norm_shift (prec f) k dvd k \<and> norm_shift (prec f) k \<le> max_shift f"

lemma fl_round_exact: "fl_repr f k \<Longrightarrow> 0 < d \<Longrightarrow> fl_round f sg (k * d) d = Fin sg k"
proof -
  assume k: "fl_repr f k" and d: "0 < d"
  let ?s = "norm_shift (prec f) k"
  obtain q where q: "k = q * 2 ^ ?s" using k by (metis fl_repr_def dvd_div_mult_self)
  have "round_div (k * d) (d * 2 ^ ?s) = q"
    using round_div_exact [of "d * 2 ^ ?s" q] d by (subst q) (simp add: ac_simps)
  then have "round_div (k * d) (d * 2 ^ ?s) * 2 ^ ?s = k" using q by simp
  then show "fl_round f sg (k * d) d = Fin sg k" using k d by (simp add: fl_round_def fl_repr_def Let_def)
qed

lemma fl_decode_code:
  assumes "fmt_ok f" and "fl_repr f k"
  shows "fl_decode f (fl_code f (Fin sg k)) = Fin sg k" and "fl_code f (Fin sg k) < 2 * (2 ^ ebits f * 2 ^ (prec f - 1))"
proof -
  define s q P E where "s = norm_shift (prec f) k" and "q = k div 2 ^ s" and "P = (2 :: nat) ^ (prec f - 1)" and "E = (2 :: nat) ^ ebits f"
  have k: "k = q * 2 ^ s" using assms(2) by (simp add: fl_repr_def q_def s_def)
  have pe: "0 < prec f" "2 \<le> ebits f" using assms(1) by (simp_all add: fmt_ok_def)
  have P: "0 < P" by (simp add: P_def)
  have E: "4 \<le> E" unfolding E_def using power_increasing [OF pe(2), of "2 :: nat"] by simp
  have PP: "2 ^ prec f = 2 * P" unfolding P_def using pe(1) by (simp flip: power_Suc)
  have s: "s \<le> E - 3" using assms(2) by (simp add: fl_repr_def max_shift_def s_def E_def)
  have q: "q < 2 * P" using norm_shift_less [of k "prec f"] PP by (simp add: q_def s_def)
  have big: "P \<le> q" if "0 < s" using norm_shift_ge [of "prec f" k] that assms(1) by (simp add: q_def s_def P_def fmt_ok_def)
  define e m where "e = (s * P + q) div P" and "m = (s * P + q) mod P"
  have e: "e = s + q div P" and m: "m = q mod P" using P by (simp_all add: e_def m_def)
  have eE: "e < E - 1" using e s q E P div_less_iff_less_mult [of P q 2] by simp
  define g where "g = (if sg then 1 else 0 :: nat)"
  have code: "fl_code f (Fin sg k) = (g * E + e) * P + m"
    unfolding fl_code.simps Let_def s_def [symmetric] sign_code_def q_def [symmetric] P_def [symmetric] E_def [symmetric]
    using div_mult_mod_eq [of "s * P + q" P] by (simp add: e_def m_def g_def algebra_simps)
  have parts: "fl_code f (Fin sg k) mod P = m" "fl_code f (Fin sg k) div P mod E = e" "odd (fl_code f (Fin sg k) div P div E) = sg"
    unfolding code using P m eE by (simp_all add: g_def)
  have "(if e = 0 then m else (P + m) * 2 ^ (e - 1)) = k"
  proof (cases "q < P")
    case True
    then have "s = 0" using big by (cases s) auto
    then show ?thesis using True e m k by simp
  next
    case False
    then have "q div P = 1" using q P by (auto intro!: div_nat_eqI)
    then show ?thesis using e m k div_mult_mod_eq [of q P] by simp
  qed
  then show "fl_decode f (fl_code f (Fin sg k)) = Fin sg k"
    unfolding fl_decode_def Let_def E_def [symmetric] P_def [symmetric] parts using eE by simp
  have "m < P" using m P by simp
  have "(g * E + e) * P + m < (g * E + e) * P + P" using \<open>m < P\<close> by simp
  also have "\<dots> = (g * E + e + 1) * P" by simp
  also have "\<dots> \<le> 2 * E * P" using eE E by (intro mult_le_mono1) (auto simp: g_def)
  finally show "fl_code f (Fin sg k) < 2 * (2 ^ ebits f * 2 ^ (prec f - 1))" unfolding code by (simp only: P_def E_def mult.assoc)
qed

section \<open>Integers\<close>

definition fl_is :: "fmt \<Rightarrow> fl \<Rightarrow> int \<Rightarrow> bool" where
  "fl_is f a x \<longleftrightarrow> (\<exists>s k. a = Fin s k \<and> signed_int s k = x * 2 ^ f_unit f)"

lemma fl_repr_int:
  assumes "fmt_ok f" and "n \<le> 2 ^ prec f"
  shows "fl_repr f (n * 2 ^ f_unit f)"
proof (cases "n = 2 ^ prec f")
  case True
  then have n: "n * 2 ^ f_unit f = 2 ^ (prec f + f_unit f)" by (simp add: power_add)
  have "norm_shift (prec f) (2 ^ (prec f + f_unit f)) \<le> Suc (f_unit f)" by (intro norm_shift_le) simp
  then show ?thesis using assms(1) unfolding fl_repr_def n by (auto simp: fmt_ok_def intro!: le_imp_power_dvd)
next
  case False
  then have "n * 2 ^ f_unit f < 2 ^ (prec f + f_unit f)" using assms(2) by (simp add: power_add)
  then have "norm_shift (prec f) (n * 2 ^ f_unit f) \<le> f_unit f" by (rule norm_shift_le)
  then show ?thesis using assms(1) by (auto simp: fl_repr_def fmt_ok_def intro!: dvd_mult le_imp_power_dvd)
qed

text \<open>The magnitude and the sign of the integer \<open>x\<close> as a floating point number.\<close>

definition mag :: "fmt \<Rightarrow> int \<Rightarrow> nat" where
  "mag f x = nat \<bar>x\<bar> * 2 ^ f_unit f"

definition sign_ok :: "bool \<Rightarrow> int \<Rightarrow> bool" where
  "sign_ok s x \<longleftrightarrow> s \<and> x \<le> 0 \<or> \<not> s \<and> 0 \<le> x"

lemma sign_ok_less [simp]: "sign_ok (x < 0) x"
  by (auto simp: sign_ok_def)

lemma sign_ok_neg: "sign_ok s x \<Longrightarrow> sign_ok (\<not> s) (- x)"
  by (auto simp: sign_ok_def)

lemma sign_ok_mult: "sign_ok s x \<Longrightarrow> sign_ok t y \<Longrightarrow> sign_ok (s \<noteq> t) (x * y)"
  by (auto simp: sign_ok_def mult_le_0_iff zero_le_mult_iff)

lemma mag_neg [simp]: "mag f (- x) = mag f x"
  by (simp add: mag_def)

lemma mag_mult: "mag f x * mag f y = mag f (x * y) * 2 ^ f_unit f"
  by (simp add: mag_def abs_mult nat_mult_distrib ac_simps)

lemma int_mag: "int (mag f x) = \<bar>x\<bar> * 2 ^ f_unit f"
  by (simp add: mag_def)

lemma signed_mag: "sign_ok s x \<Longrightarrow> signed_int s (mag f x) = x * 2 ^ f_unit f"
  by (cases s) (simp_all add: sign_ok_def int_mag)

lemma nat_abs_scaled: "nat \<bar>x * 2 ^ f_unit f\<bar> = mag f x"
proof -
  have "nat \<bar>(2 :: int) ^ f_unit f\<bar> = 2 ^ f_unit f" by (metis abs_of_nat nat_int of_nat_numeral of_nat_power)
  then show ?thesis by (simp only: mag_def nat_abs_mult_distrib)
qed

lemma fl_isI [intro]: "sign_ok s x \<Longrightarrow> fl_is f (Fin s (mag f x)) x"
  unfolding fl_is_def using signed_mag [of s x f] by blast

lemma fl_isE:
  assumes "fl_is f a x"
  obtains s where "a = Fin s (mag f x)" and "sign_ok s x"
proof -
  obtain s k where a: "a = Fin s k" and z: "signed_int s k = x * 2 ^ f_unit f" using assms unfolding fl_is_def by blast
  have "k = nat \<bar>signed_int s k\<bar>" by (cases s) simp_all
  then have k: "k = mag f x" unfolding z nat_abs_scaled .
  have "s \<longrightarrow> x * 2 ^ f_unit f \<le> 0" "\<not> s \<longrightarrow> 0 \<le> x * 2 ^ f_unit f" unfolding z [symmetric] by simp_all
  then have "sign_ok s x" by (auto simp: sign_ok_def mult_le_0_iff zero_le_mult_iff)
  then show ?thesis using that a k by blast
qed

lemma fl_round_mag:
  assumes "fmt_ok f" and "\<bar>x\<bar> \<le> 2 ^ prec f" and "0 < d"
  shows "fl_round f s (mag f x * d) d = Fin s (mag f x)"
proof -
  have "nat \<bar>x\<bar> \<le> 2 ^ prec f" using assms(2) by (simp add: nat_le_iff)
  then show ?thesis unfolding mag_def by (intro fl_round_exact fl_repr_int assms(1,3))
qed

lemma fl_is_neg:
  assumes "fl_is f a x"
  shows "fl_is f (fl_neg a) (- x)"
proof -
  from fl_isE [OF assms] obtain s where "a = Fin s (mag f x)" "sign_ok s x" .
  then show ?thesis using fl_isI [OF sign_ok_neg, of s x f] by simp
qed

lemma fl_is_add:
  assumes "fmt_ok f" and "fl_is f a x" and "fl_is f b y" and "\<bar>x + y\<bar> \<le> 2 ^ prec f"
  shows "fl_is f (fl_add f a b) (x + y)"
proof -
  obtain s k t l where ab: "a = Fin s k" "b = Fin t l" and z: "signed_int s k + signed_int t l = (x + y) * 2 ^ f_unit f"
    using assms(2,3) by (auto simp: fl_is_def distrib_right simp del: signed_int.simps)
  show ?thesis
  proof (cases "x + y = 0")
    case True
    then show ?thesis unfolding ab fl_add.simps z by (simp add: fl_is_def)
  next
    case False
    then have "fl_add f a b = fl_round f (x + y < 0) (mag f (x + y) * 1) 1"
      unfolding ab fl_add.simps z Let_def nat_abs_scaled by (simp add: mult_less_0_iff)
    also have "\<dots> = Fin (x + y < 0) (mag f (x + y))" using assms(1,4) by (intro fl_round_mag) simp_all
    finally show ?thesis by (simp only:) (rule fl_isI, rule sign_ok_less)
  qed
qed

lemma fl_is_mul:
  assumes "fmt_ok f" and "fl_is f a x" and "fl_is f b y" and "\<bar>x * y\<bar> \<le> 2 ^ prec f"
  shows "fl_is f (fl_mul f a b) (x * y)"
proof -
  from fl_isE [OF assms(2)] obtain s where a: "a = Fin s (mag f x)" "sign_ok s x" .
  from fl_isE [OF assms(3)] obtain t where b: "b = Fin t (mag f y)" "sign_ok t y" .
  have "fl_mul f a b = fl_round f (s \<noteq> t) (mag f (x * y) * 2 ^ f_unit f) (2 ^ f_unit f)"
    by (simp only: a(1) b(1) fl_mul.simps mag_mult)
  also have "\<dots> = Fin (s \<noteq> t) (mag f (x * y))" using assms(1,4) by (intro fl_round_mag) simp_all
  finally show ?thesis using fl_isI [OF sign_ok_mult [OF a(2) b(2)]] by simp
qed

lemma fl_is_convert:
  assumes "fmt_ok g" and "fl_is f a x" and "\<bar>x\<bar> \<le> 2 ^ prec g"
  shows "fl_is g (fl_convert f g a) x"
proof -
  from fl_isE [OF assms(2)] obtain s where a: "a = Fin s (mag f x)" "sign_ok s x" .
  have "fl_convert f g a = fl_round g s (mag g x * 2 ^ f_unit f) (2 ^ f_unit f)" by (simp add: a(1) mag_def ac_simps)
  also have "\<dots> = Fin s (mag g x)" using assms(1,3) by (intro fl_round_mag) simp_all
  finally show ?thesis using fl_isI [OF a(2)] by simp
qed

lemma fl_is_of_int:
  assumes "fmt_ok f" and "\<bar>x\<bar> \<le> 2 ^ prec f"
  shows "fl_is f (fl_of_int f x) x"
proof -
  have "fl_of_int f x = fl_round f (x < 0) (mag f x * 1) 1" by (simp add: fl_of_int_def mag_def)
  also have "\<dots> = Fin (x < 0) (mag f x)" using assms by (intro fl_round_mag) simp_all
  finally show ?thesis using fl_isI [OF sign_ok_less] by simp
qed

lemma fl_is_less: "fl_is f a x \<Longrightarrow> fl_is f b y \<Longrightarrow> fl_less f a b \<longleftrightarrow> x < y"
  by (auto simp: fl_is_def fl_less_def simp del: signed_int.simps)

lemma fl_repr_mag: "fmt_ok f \<Longrightarrow> \<bar>x\<bar> \<le> 2 ^ prec f \<Longrightarrow> fl_repr f (mag f x)"
  unfolding mag_def by (rule fl_repr_int) (simp_all add: nat_le_iff)

section \<open>Words\<close>

definition fint :: "u32 \<Rightarrow> int \<Rightarrow> bool" where
  "fint w x \<longleftrightarrow> fl_is f32 (dec32 w) x"

definition dint :: "u64 \<Rightarrow> int \<Rightarrow> bool" where
  "dint w x \<longleftrightarrow> fl_is f64 (dec64 w) x"

lemma dec32_enc32:
  assumes "fl_repr f32 k"
  shows "dec32 (enc32 (Fin s k)) = Fin s k"
proof -
  have "fl_code f32 (Fin s k) < 2 ^ LENGTH(32)" using fl_decode_code(2) [OF fmt_ok_f32 assms, of s] by (simp add: f32_def)
  then have "unat (enc32 (Fin s k)) = fl_code f32 (Fin s k)" unfolding enc32_def by (simp only: unat_of_nat mod_less)
  then show ?thesis by (simp only: dec32_def fl_decode_code(1) [OF fmt_ok_f32 assms])
qed

lemma dec64_enc64:
  assumes "fl_repr f64 k"
  shows "dec64 (enc64 (Fin s k)) = Fin s k"
proof -
  have "fl_code f64 (Fin s k) < 2 ^ LENGTH(64)" using fl_decode_code(2) [OF fmt_ok_f64 assms, of s] by (simp add: f64_def)
  then have "unat (enc64 (Fin s k)) = fl_code f64 (Fin s k)" unfolding enc64_def by (simp only: unat_of_nat mod_less)
  then show ?thesis by (simp only: dec64_def fl_decode_code(1) [OF fmt_ok_f64 assms])
qed

lemma fint_enc32:
  assumes "fl_is f32 a x" and "\<bar>x\<bar> \<le> 2 ^ 24"
  shows "fint (enc32 a) x"
proof -
  from fl_isE [OF assms(1)] obtain s where a: "a = Fin s (mag f32 x)" "sign_ok s x" .
  have "dec32 (enc32 a) = a" unfolding a(1) using assms(2) by (intro dec32_enc32 fl_repr_mag fmt_ok_f32) (simp add: f32_def)
  then show ?thesis using assms(1) by (simp only: fint_def)
qed

lemma dint_enc64:
  assumes "fl_is f64 a x" and "\<bar>x\<bar> \<le> 2 ^ 53"
  shows "dint (enc64 a) x"
proof -
  from fl_isE [OF assms(1)] obtain s where a: "a = Fin s (mag f64 x)" "sign_ok s x" .
  have "dec64 (enc64 a) = a" unfolding a(1) using assms(2) by (intro dec64_enc64 fl_repr_mag fmt_ok_f64) (simp add: f64_def)
  then show ?thesis using assms(1) by (simp only: dint_def)
qed

lemma prec_f32 [simp]: "prec f32 = 24" and prec_f64 [simp]: "prec f64 = 53"
  by (simp_all add: f32_def f64_def)

lemma fint_add [fint_intros]: "fint a x \<Longrightarrow> fint b y \<Longrightarrow> \<bar>x + y\<bar> \<le> 2 ^ 24 \<Longrightarrow> fint (fadd a b) (x + y)"
  unfolding fadd_def by (rule fint_enc32 [OF fl_is_add [OF fmt_ok_f32]]) (simp_all add: fint_def)

lemma fint_sub [fint_intros]: "fint a x \<Longrightarrow> fint b y \<Longrightarrow> \<bar>x - y\<bar> \<le> 2 ^ 24 \<Longrightarrow> fint (fsub a b) (x - y)"
  using fl_is_add [OF fmt_ok_f32, of "dec32 a" x "fl_neg (dec32 b)" "- y"] fint_enc32
  by (simp add: fsub_def fl_is_neg fint_def)

lemma fint_mul [fint_intros]: "fint a x \<Longrightarrow> fint b y \<Longrightarrow> \<bar>x * y\<bar> \<le> 2 ^ 24 \<Longrightarrow> fint (fmul a b) (x * y)"
  unfolding fmul_def by (rule fint_enc32 [OF fl_is_mul [OF fmt_ok_f32]]) (simp_all add: fint_def)

lemma fint_neg [fint_intros]: "fint a x \<Longrightarrow> \<bar>x\<bar> \<le> 2 ^ 24 \<Longrightarrow> fint (fneg a) (- x)"
  unfolding fneg_def by (rule fint_enc32 [OF fl_is_neg]) (simp_all add: fint_def)

lemma fint_of_int [fint_intros]: "\<bar>x\<bar> \<le> 2 ^ 24 \<Longrightarrow> fint (f_of_int x) x"
  unfolding f_of_int_def by (rule fint_enc32 [OF fl_is_of_int [OF fmt_ok_f32]]) simp_all

lemma dint_mul [fint_intros]: "dint a x \<Longrightarrow> dint b y \<Longrightarrow> \<bar>x * y\<bar> \<le> 2 ^ 53 \<Longrightarrow> dint (dmul a b) (x * y)"
  unfolding dmul_def by (rule dint_enc64 [OF fl_is_mul [OF fmt_ok_f64]]) (simp_all add: dint_def)

lemma dint_add [fint_intros]: "dint a x \<Longrightarrow> dint b y \<Longrightarrow> \<bar>x + y\<bar> \<le> 2 ^ 53 \<Longrightarrow> dint (dadd a b) (x + y)"
  unfolding dadd_def by (rule dint_enc64 [OF fl_is_add [OF fmt_ok_f64]]) (simp_all add: dint_def)

lemma dint_f2d [fint_intros]: "fint a x \<Longrightarrow> \<bar>x\<bar> \<le> 2 ^ 53 \<Longrightarrow> dint (f2d a) x"
  unfolding f2d_def by (rule dint_enc64 [OF fl_is_convert [OF fmt_ok_f64]]) (simp_all add: fint_def)

lemma fint_d2f [fint_intros]: "dint a x \<Longrightarrow> \<bar>x\<bar> \<le> 2 ^ 24 \<Longrightarrow> fint (d2f a) x"
  unfolding d2f_def by (rule fint_enc32 [OF fl_is_convert [OF fmt_ok_f32]]) (simp_all add: dint_def)

lemma flt_fint: "fint a x \<Longrightarrow> fint b y \<Longrightarrow> flt a b \<longleftrightarrow> x < y"
  by (simp add: fint_def flt_def fl_is_less)

lemma f_place_fint: "fint a x \<Longrightarrow> f_place a = x * 2 ^ 149"
  by (auto simp: fint_def fl_is_def f_place_def f_unit_def f32_def simp del: signed_int.simps)

lemma fint_unique: "fint a x \<Longrightarrow> fint a y \<Longrightarrow> x = y"
  by (auto simp: fint_def fl_is_def simp del: signed_int.simps)

lemma fint_zero [simp, fint_intros]: "fint 0 0"
  by (auto simp: fint_def fl_is_def dec32_def fl_decode_def f32_def)

lemma square_ge_abs: "\<bar>z :: int\<bar> \<le> z\<^sup>2"
  using mult_left_mono [of 1 "\<bar>z\<bar>" "\<bar>z\<bar>"] by (cases "z = 0") (auto simp: power2_eq_square abs_mult_self_eq)

end
