(* ===== verification/Distances.thy ===== *)
theory Distances
  imports FloatExact ByteMemory
begin

text \<open>
  The distance kernels of \<open>include/distance.h\<close> (and of \<open>include/efanna2e/distance.h\<close>, which repeats them): vectors are read
  in pieces of 16, 8 and 4 lanes, the rest through a buffer of zeros. A register is the list of its lanes. On
  vectors of integers whose distance fits 24 bits the kernels compute it exactly.
\<close>

section \<open>Registers\<close>

text \<open>An unaligned load of \<open>n\<close> lanes.\<close>

definition lanes :: "u32 list \<Rightarrow> nat \<Rightarrow> nat \<Rightarrow> u32 list result" where
  "lanes x off n = (if off + n \<le> length x then Inr (slice x off n) else Inl Out_Of_Bounds)"

definition masked_read :: "nat \<Rightarrow> u32 list \<Rightarrow> nat \<Rightarrow> u32 list result" where
  "masked_read d x off = rbind (lanes x off d) (\<lambda>xs. Inr (xs @ replicate (4 - d) 0))"

text \<open>The upper half of a register added to the lower half, and the addition of neighbouring lanes.\<close>

definition fold_half :: "nat \<Rightarrow> u32 list \<Rightarrow> u32 list" where
  "fold_half n m = map2 fadd (drop n m) (take n m)"

fun hadd :: "u32 list \<Rightarrow> u32 list \<Rightarrow> u32 list" where
  "hadd [a0, a1, a2, a3] [b0, b1, b2, b3] = [fadd a0 a1, fadd a2 a3, fadd b0 b1, fadd b2 b3]"
| "hadd _ _ = []"

section \<open>The kernels\<close>

text \<open>The two kernels differ in what they add up, \<open>tm\<close>.\<close>

definition simd_step :: "(u32 \<Rightarrow> u32 \<Rightarrow> u32) \<Rightarrow> u32 list \<Rightarrow> u32 list \<Rightarrow> u32 list \<Rightarrow> u32 list" where
  "simd_step tm m mx my = map2 fadd m (map2 tm mx my)"

fun simd_loop :: "(u32 \<Rightarrow> u32 \<Rightarrow> u32) \<Rightarrow> u32 list \<Rightarrow> u32 list \<Rightarrow> nat \<Rightarrow> nat \<Rightarrow> u32 list \<Rightarrow> (nat \<times> nat \<times> u32 list) result" where
  "simd_loop tm x y off d m =
     (if 16 \<le> d then
        rbind (lanes x off 16) (\<lambda>mx. rbind (lanes y off 16) (\<lambda>my.
        simd_loop tm x y (off + 16) (d - 16) (simd_step tm m mx my)))
      else Inr (off, d, m))"

declare simd_loop.simps [simp del]

definition simd_part :: "nat \<Rightarrow> (u32 \<Rightarrow> u32 \<Rightarrow> u32) \<Rightarrow> u32 list \<Rightarrow> u32 list \<Rightarrow> nat \<Rightarrow> nat \<Rightarrow> u32 list \<Rightarrow> (nat \<times> nat \<times> u32 list) result" where
  "simd_part n tm x y off d m =
     (if n \<le> d then
        rbind (lanes x off n) (\<lambda>mx. rbind (lanes y off n) (\<lambda>my. Inr (off + n, d - n, simd_step tm m mx my)))
      else Inr (off, d, m))"

definition simd_tail :: "(u32 \<Rightarrow> u32 \<Rightarrow> u32) \<Rightarrow> u32 list \<Rightarrow> u32 list \<Rightarrow> nat \<Rightarrow> nat \<Rightarrow> u32 list \<Rightarrow> u32 list result" where
  "simd_tail tm x y off d m =
     (if 0 < d then
        rbind (masked_read d x off) (\<lambda>mx. rbind (masked_read d y off) (\<lambda>my. Inr (simd_step tm m mx my)))
      else Inr m)"

definition simd_sum :: "(u32 \<Rightarrow> u32 \<Rightarrow> u32) \<Rightarrow> u32 list \<Rightarrow> u32 list \<Rightarrow> nat \<Rightarrow> u32 result" where
  "simd_sum tm x y d =
     rbind (simd_loop tm x y 0 d (replicate 16 0)) (\<lambda>(off, d, msum0).
     rbind (simd_part 8 tm x y off d (fold_half 8 msum0)) (\<lambda>(off, d, msum1).
     rbind (simd_part 4 tm x y off d (fold_half 4 msum1)) (\<lambda>(off, d, msum2).
     rbind (simd_tail tm x y off d msum2) (\<lambda>msum2.
     let msum2 = hadd msum2 msum2; msum2 = hadd msum2 msum2 in rget msum2 0))))"

definition l2_term :: "u32 \<Rightarrow> u32 \<Rightarrow> u32" where
  "l2_term a b = (let a_m_b1 = fsub a b in fmul a_m_b1 a_m_b1)"

definition l2_compare :: "u32 list \<Rightarrow> u32 list \<Rightarrow> nat \<Rightarrow> u32 result" where
  "l2_compare x y d = simd_sum l2_term x y d"

text \<open>\<open>-1.0 * s\<close> is a product of doubles.\<close>

definition minus_one :: u64 where
  "minus_one = 0xBFF0000000000000"

definition ip_compare :: "u32 list \<Rightarrow> u32 list \<Rightarrow> nat \<Rightarrow> u32 result" where
  "ip_compare a b n = rbind (simd_sum fmul a b n) (\<lambda>s. Inr (d2f (dmul minus_one (f2d s))))"

section \<open>Sums of lanes\<close>

text \<open>The lanes hold integers whose sum is \<open>z\<close> and whose magnitudes add up to at most \<open>b\<close>.\<close>

definition lanes_sum :: "u32 list \<Rightarrow> int \<Rightarrow> int \<Rightarrow> bool" where
  "lanes_sum m z b \<longleftrightarrow> (\<exists>as. list_all2 fint m as \<and> sum_list as = z \<and> sum_list (map abs as) \<le> b)"

lemma lanes_sum_zero: "lanes_sum (replicate n 0) 0 0"
  unfolding lanes_sum_def
  by (intro exI [of _ "replicate n 0"]) (simp add: list_all2_conv_all_nth sum_list_replicate)

lemma map2_fadd_sum:
  assumes "length m = length ts" and "list_all2 fint m as" and "list_all2 fint ts bs" and "sum_list (map abs as) + sum_list (map abs bs) \<le> 2 ^ 24"
  shows "lanes_sum (map2 fadd m ts) (sum_list as + sum_list bs) (sum_list (map abs as) + sum_list (map abs bs))"
proof -
  have len: "length as = length m" "length bs = length m" using assms(1-3) by (auto dest: list_all2_lengthD)
  have abs_bound: "\<bar>cs ! i\<bar> \<le> sum_list (map abs cs)" if "i < length cs" for cs :: "int list" and i
    using that by (intro member_le_sum_list) auto
  have one: "\<bar>as ! i + bs ! i\<bar> \<le> 2 ^ 24" if "i < length m" for i
    using abs_bound [of i as] abs_bound [of i bs] that len assms(4) by linarith
  have "list_all2 fint (map2 fadd m ts) (map2 (+) as bs)"
    using assms(1-3) len one by (auto simp: list_all2_conv_all_nth intro!: fint_add)
  moreover have "sum_list (map2 (+) as bs) = sum_list as + sum_list bs"
    using trans [OF len(1) len(2) [symmetric]] by (induction as bs rule: list_induct2) simp_all
  moreover have "sum_list (map abs (map2 (+) as bs)) \<le> sum_list (map abs as) + sum_list (map abs bs)"
    using trans [OF len(1) len(2) [symmetric]] by (induction as bs rule: list_induct2) (auto intro: order_trans [OF abs_triangle_ineq])
  ultimately show ?thesis unfolding lanes_sum_def by blast
qed

lemma lanes_sum_fold:
  assumes "lanes_sum m z b" and "length m = 2 * n" and "b \<le> 2 ^ 24"
  shows "lanes_sum (fold_half n m) z b" and "length (fold_half n m) = n"
proof -
  obtain as where as: "list_all2 fint m as" "sum_list as = z" "sum_list (map abs as) \<le> b"
    using assms(1) unfolding lanes_sum_def by blast
  have sums: "sum_list (drop n as) + sum_list (take n as) = z"
    "sum_list (map abs (drop n as)) + sum_list (map abs (take n as)) = sum_list (map abs as)"
    by (metis as(2) add.commute append_take_drop_id sum_list_append) (metis add.commute append_take_drop_id map_append sum_list_append)
  have "lanes_sum (map2 fadd (drop n m) (take n m)) (sum_list (drop n as) + sum_list (take n as))
      (sum_list (map abs (drop n as)) + sum_list (map abs (take n as)))"
    using assms(2,3) as sums(2) by (intro map2_fadd_sum list_all2_dropI list_all2_takeI) simp_all
  then show "lanes_sum (fold_half n m) z b" unfolding fold_half_def sums lanes_sum_def using as(3) by fastforce
  show "length (fold_half n m) = n" using assms(2) by (simp add: fold_half_def)
qed

lemma lanes_sum_hadd:
  assumes "lanes_sum m z b" and "length m = 4" and "b \<le> 2 ^ 24"
  shows "\<exists>w. rget (let m = hadd m m in hadd m m) 0 = Inr w \<and> fint w z"
proof -
  obtain m0 m1 m2 m3 where m: "m = [m0, m1, m2, m3]" using assms(2) by (auto simp: numeral_eq_Suc length_Suc_conv)
  then obtain a0 a1 a2 a3 where a: "fint m0 a0" "fint m1 a1" "fint m2 a2" "fint m3 a3"
      and z: "z = a0 + a1 + (a2 + a3)" and b: "\<bar>a0\<bar> + (\<bar>a1\<bar> + (\<bar>a2\<bar> + \<bar>a3\<bar>)) \<le> b"
    using assms(1) by (auto simp: lanes_sum_def list_all2_Cons1 ac_simps)
  have "fint (fadd (fadd m0 m1) (fadd m2 m3)) z" unfolding z using b assms(3) by (intro fint_add a) linarith+
  then show ?thesis by (simp add: m Let_def)
qed

section \<open>What the kernels compute\<close>

text \<open>\<open>T i\<close> is the integer that the lanes add up for place \<open>i\<close>.\<close>

definition term_ints :: "(u32 \<Rightarrow> u32 \<Rightarrow> u32) \<Rightarrow> u32 list \<Rightarrow> u32 list \<Rightarrow> nat \<Rightarrow> (nat \<Rightarrow> int) \<Rightarrow> bool" where
  "term_ints tm x y d T \<longleftrightarrow> d \<le> length x \<and> d \<le> length y \<and> (\<forall>i < d. fint (tm (x ! i) (y ! i)) (T i)) \<and>
     (\<Sum>i < d. \<bar>T i\<bar>) \<le> 2 ^ 24"

definition partial :: "(nat \<Rightarrow> int) \<Rightarrow> nat \<Rightarrow> u32 list \<Rightarrow> bool" where
  "partial T off m \<longleftrightarrow> lanes_sum m (\<Sum>i < off. T i) (\<Sum>i < off. \<bar>T i\<bar>)"

lemma sum_split_upt: "(\<Sum>i < off. f i) + sum_list (map f [off..<off + n]) = (\<Sum>i < off + n. f i :: int)"
  by (induction n) simp_all

lemma partial_bound: "term_ints tm x y d T \<Longrightarrow> off \<le> d \<Longrightarrow> (\<Sum>i < off. \<bar>T i\<bar>) \<le> 2 ^ 24"
  unfolding term_ints_def by (elim conjE) (rule order_trans [OF sum_mono2], auto)

lemma partial_step:
  assumes "term_ints tm x y d T" and "partial T off m" and "off + n \<le> d" and "length m = n + k"
    and "k = 0 \<or> fint (tm 0 0) 0"
  shows "partial T (off + n) (simd_step tm m (slice x off n @ replicate k 0) (slice y off n @ replicate k 0))"
proof -
  let ?ts = "map2 tm (slice x off n @ replicate k 0) (slice y off n @ replicate k 0)"
  let ?bs = "map T [off..<off + n] @ replicate k 0"
  obtain as where as: "list_all2 fint m as" "sum_list as = (\<Sum>i < off. T i)" "sum_list (map abs as) \<le> (\<Sum>i < off. \<bar>T i\<bar>)"
    using assms(2) unfolding partial_def lanes_sum_def by blast
  have lens: "off + n \<le> length x" "off + n \<le> length y" using assms(1,3) by (auto simp: term_ints_def)
  have ts: "?ts = map2 tm (slice x off n) (slice y off n) @ map2 tm (replicate k 0) (replicate k 0)"
    using lens by (simp add: zip_append)
  have "list_all2 fint (map2 tm (slice x off n) (slice y off n)) (map T [off..<off + n])"
    using assms(1,3) lens by (auto simp: list_all2_conv_all_nth term_ints_def slice_def)
  moreover have "list_all2 fint (map2 tm (replicate k 0) (replicate k 0)) (replicate k 0)"
    using assms(5) by (auto simp: list_all2_conv_all_nth)
  ultimately have bs: "list_all2 fint ?ts ?bs" unfolding ts by (rule list_all2_appendI)
  have abs_bs: "sum_list (map abs ?bs) = sum_list (map (\<lambda>i. \<bar>T i\<bar>) [off..<off + n])" by (simp add: comp_def sum_list_replicate)
  have le: "sum_list (map abs as) + sum_list (map abs ?bs) \<le> (\<Sum>i < off + n. \<bar>T i\<bar>)"
    unfolding abs_bs using as(3) sum_split_upt [of "\<lambda>i. \<bar>T i\<bar>" off n] by linarith
  have "lanes_sum (map2 fadd m ?ts) (sum_list as + sum_list ?bs) (sum_list (map abs as) + sum_list (map abs ?bs))"
    using as bs le partial_bound [OF assms(1,3)] assms(4) lens by (intro map2_fadd_sum) auto
  moreover have "sum_list as + sum_list ?bs = (\<Sum>i < off + n. T i)" using as(2) sum_split_upt [of T off n] by (simp add: sum_list_replicate)
  ultimately show ?thesis using le unfolding partial_def simd_step_def lanes_sum_def by fastforce
qed

lemma lanes_ok: "off + n \<le> length x \<Longrightarrow> lanes x off n = Inr (slice x off n)"
  by (simp add: lanes_def)

lemma simd_loop_ok:
  assumes "term_ints tm x y (off + d) T" and "partial T off m" and "length m = 16"
  shows "\<exists>k m'. simd_loop tm x y off d m = Inr (off + k, d - k, m') \<and> k \<le> d \<and> d - k < 16 \<and> partial T (off + k) m' \<and> length m' = 16"
  using assms
proof (induction tm x y off d m rule: simd_loop.induct)
  case (1 tm x y off d m)
  show ?case
  proof (cases "16 \<le> d")
    case True
    let ?m = "simd_step tm m (slice x off 16) (slice y off 16)"
    have lens: "off + 16 \<le> length x" "off + 16 \<le> length y" using 1(2) True by (auto simp: term_ints_def)
    have step: "partial T (off + 16) ?m" using partial_step [OF 1(2,3), of 16 0] True 1(4) by simp
    have "term_ints tm x y (off + 16 + (d - 16)) T" using 1(2) True by simp
    moreover have "length ?m = 16" using 1(4) lens by (simp add: simd_step_def)
    ultimately obtain k m' where IH: "simd_loop tm x y (off + 16) (d - 16) ?m = Inr (off + 16 + k, d - 16 - k, m')" "k \<le> d - 16"
        "d - 16 - k < 16" "partial T (off + 16 + k) m'" "length m' = 16"
      using 1(1) [OF True lanes_ok lanes_ok _ step] lens by blast
    have "simd_loop tm x y off d m = Inr (off + (16 + k), d - (16 + k), m')"
      using True lens IH(1) by (subst simd_loop.simps) (simp add: lanes_ok ac_simps)
    then show ?thesis using IH(2-5) True by (intro exI [of _ "16 + k"] exI [of _ m']) (simp add: ac_simps)
  next
    case False
    then show ?thesis using 1(3,4) by (subst simd_loop.simps) (auto intro!: exI [of _ 0] simp: not_le)
  qed
qed

lemma simd_part_ok:
  assumes "term_ints tm x y (off + d) T" and "partial T off m" and "length m = n" and "d < 2 * n"
  shows "\<exists>k m'. simd_part n tm x y off d m = Inr (off + k, d - k, m') \<and> k \<le> d \<and> d - k < n \<and> partial T (off + k) m' \<and> length m' = n"
proof (cases "n \<le> d")
  case True
  have lens: "off + n \<le> length x" "off + n \<le> length y" using assms(1) True by (auto simp: term_ints_def)
  have "partial T (off + n) (simd_step tm m (slice x off n) (slice y off n))" using partial_step [OF assms(1,2), of n 0] True assms(3) by simp
  then show ?thesis using True assms(3,4) lens
    by (intro exI [of _ n] exI [of _ "simd_step tm m (slice x off n) (slice y off n)"]) (auto simp: simd_part_def lanes_ok simd_step_def)
next
  case False
  then show ?thesis using assms by (intro exI [of _ 0] exI [of _ m]) (simp add: simd_part_def)
qed

lemma simd_tail_ok:
  assumes "term_ints tm x y (off + d) T" and "partial T off m" and "length m = 4" and "d < 4" and "fint (tm 0 0) 0"
  shows "\<exists>m'. simd_tail tm x y off d m = Inr m' \<and> partial T (off + d) m' \<and> length m' = 4"
proof (cases "d = 0")
  case False
  have lens: "off + d \<le> length x" "off + d \<le> length y" using assms(1) by (auto simp: term_ints_def)
  have "partial T (off + d) (simd_step tm m (slice x off d @ replicate (4 - d) 0) (slice y off d @ replicate (4 - d) 0))"
    using assms by (intro partial_step [OF assms(1,2)]) simp_all
  then show ?thesis using False assms(3,4) lens by (simp add: simd_tail_def masked_read_def lanes_ok simd_step_def)
qed (use assms in \<open>simp add: simd_tail_def\<close>)

lemma simd_sum_exact:
  assumes T: "term_ints tm x y d T" and "fint (tm 0 0) 0"
  shows "\<exists>w. simd_sum tm x y d = Inr w \<and> fint w (\<Sum>i < d. T i)"
proof -
  have fold: "partial T off (fold_half n m) \<and> length (fold_half n m) = n" if "partial T off m" "length m = 2 * n" "off \<le> d" for off n m
    using lanes_sum_fold [of m _ _ n] that partial_bound [OF T] unfolding partial_def by blast
  have start: "partial T 0 (replicate 16 0)" using lanes_sum_zero [of 16] by (simp add: partial_def)
  from simd_loop_ok [of tm x y 0 d T, OF _ start] T obtain k1 m1 where
    1: "simd_loop tm x y 0 d (replicate 16 0) = Inr (k1, d - k1, m1)" "k1 \<le> d" "d - k1 < 16" "partial T k1 m1" "length m1 = 16" by auto
  from fold [OF 1(4)] 1(2,5) have f1: "partial T k1 (fold_half 8 m1)" "length (fold_half 8 m1) = 8" by simp_all
  from simd_part_ok [of tm x y k1 "d - k1" T, OF _ f1] T 1(2,3) obtain k2 m2 where
    2: "simd_part 8 tm x y k1 (d - k1) (fold_half 8 m1) = Inr (k1 + k2, d - k1 - k2, m2)" "k1 + k2 \<le> d" "d - (k1 + k2) < 8" "partial T (k1 + k2) m2" "length m2 = 8"
    by fastforce
  from fold [OF 2(4)] 2(2,5) have f2: "partial T (k1 + k2) (fold_half 4 m2)" "length (fold_half 4 m2) = 4" by simp_all
  from simd_part_ok [of tm x y "k1 + k2" "d - (k1 + k2)" T, OF _ f2] T 2(2,3) obtain k3 m3 where
    3: "simd_part 4 tm x y (k1 + k2) (d - (k1 + k2)) (fold_half 4 m2) = Inr (k1 + k2 + k3, d - (k1 + k2) - k3, m3)"
      "k1 + k2 + k3 \<le> d" "d - (k1 + k2 + k3) < 4" "partial T (k1 + k2 + k3) m3" "length m3 = 4"
    by fastforce
  define k where "k = k1 + k2 + k3"
  from simd_tail_ok [of tm x y k "d - k" T m3] T 3(2-5) assms(2) obtain m4 where
    4: "simd_tail tm x y k (d - k) m3 = Inr m4" "partial T d m4" "length m4 = 4" by (auto simp: k_def)
  from lanes_sum_hadd [OF _ 4(3), of "\<Sum>i < d. T i" "\<Sum>i < d. \<bar>T i\<bar>"] 4(2) partial_bound [OF T, of d] obtain w where
    "rget (let m = hadd m4 m4 in hadd m m) 0 = Inr w" "fint w (\<Sum>i < d. T i)" by (auto simp: partial_def)
  then show ?thesis using 1(1) 2(1) 3(1) 4(1) by (simp add: simd_sum_def k_def Let_def)
qed

text \<open>Squares of differences and products of integers that fit.\<close>

lemma fint_l2_term: "fint a x \<Longrightarrow> fint b y \<Longrightarrow> (x - y)\<^sup>2 \<le> 2 ^ 24 \<Longrightarrow> fint (l2_term a b) ((x - y)\<^sup>2)"
  using square_ge_abs [of "x - y"] unfolding l2_term_def Let_def power2_eq_square
  by (intro fint_mul fint_sub) (auto simp: abs_mult)

lemma le_sum_abs: "i < d \<Longrightarrow> \<bar>T i :: int\<bar> \<le> (\<Sum>i < d. \<bar>T i\<bar>)" for d :: nat
  by (rule member_le_sum) auto

lemma l2_compare_ok:
  assumes "list_all2 fint x X" and "list_all2 fint y Y" and "d \<le> length x" and "d \<le> length y"
    and "(\<Sum>i < d. (X ! i - Y ! i)\<^sup>2) \<le> 2 ^ 24"
  shows "\<exists>w. l2_compare x y d = Inr w \<and> fint w (\<Sum>i < d. (X ! i - Y ! i)\<^sup>2)"
proof -
  have "(X ! i - Y ! i)\<^sup>2 \<le> 2 ^ 24" if "i < d" for i
    using le_sum_abs [of i d "\<lambda>i. (X ! i - Y ! i)\<^sup>2"] that assms(5) by simp
  then have "term_ints l2_term x y d (\<lambda>i. (X ! i - Y ! i)\<^sup>2)"
    using assms by (auto simp: term_ints_def list_all2_conv_all_nth intro!: fint_l2_term)
  then show ?thesis unfolding l2_compare_def using fint_l2_term [of 0 0 0 0] by (intro simd_sum_exact) simp_all
qed

lemma dint_minus_one: "dint minus_one (- 1)"
  by (auto simp: dint_def fl_is_def dec64_def fl_decode_def f64_def minus_one_def Let_def f_unit_def)

lemma ip_compare_ok:
  assumes "list_all2 fint x X" and "list_all2 fint y Y" and "d \<le> length x" and "d \<le> length y"
    and "(\<Sum>i < d. \<bar>X ! i * Y ! i\<bar>) \<le> 2 ^ 24"
  shows "\<exists>w. ip_compare x y d = Inr w \<and> fint w (- (\<Sum>i < d. X ! i * Y ! i))"
proof -
  let ?s = "\<Sum>i < d. X ! i * Y ! i"
  have "\<bar>X ! i * Y ! i\<bar> \<le> 2 ^ 24" if "i < d" for i
    using le_sum_abs [of i d "\<lambda>i. X ! i * Y ! i"] that assms(5) by simp
  then have "term_ints fmul x y d (\<lambda>i. X ! i * Y ! i)"
    using assms by (auto simp: term_ints_def list_all2_conv_all_nth intro!: fint_mul)
  then obtain w where w: "simd_sum fmul x y d = Inr w" "fint w ?s"
    using simd_sum_exact [of fmul x y d] fint_mul [of 0 0 0 0] by auto
  have "\<bar>?s\<bar> \<le> 2 ^ 24" using sum_abs [of "\<lambda>i. X ! i * Y ! i" "{..<d}"] assms(5) by linarith
  then have "fint (d2f (dmul minus_one (f2d w))) (- 1 * ?s)"
    by (intro fint_d2f dint_mul dint_minus_one dint_f2d w(2)) (simp_all add: abs_mult)
  then show ?thesis by (simp add: ip_compare_def w(1))
qed

text \<open>
  C37: on vectors of integers whose squared distance (or whose products of places) stay within \<open>2^24\<close>, the kernels
  compute the squared distance and the negated inner product exactly, whatever the dimension.
\<close>

theorem kernels_exact:
  assumes "list_all2 fint x X" and "list_all2 fint y Y" and "d \<le> length x" and "d \<le> length y"
    and "(\<Sum>i < d. (X ! i - Y ! i)\<^sup>2) \<le> 2 ^ 24" and "(\<Sum>i < d. \<bar>X ! i * Y ! i\<bar>) \<le> 2 ^ 24"
  shows "\<exists>w v. l2_compare x y d = Inr w \<and> fint w (\<Sum>i < d. (X ! i - Y ! i)\<^sup>2) \<and>
    ip_compare x y d = Inr v \<and> fint v (- (\<Sum>i < d. X ! i * Y ! i))"
  using l2_compare_ok [OF assms(1-5)] ip_compare_ok [OF assms(1-4,6)] by blast

theorem kernels_exact_witness:
  "\<exists>w v. l2_compare (replicate 21 0x40400000) (replicate 21 0x3F800000) 21 = Inr w \<and> fint w 84 \<and>
    ip_compare (replicate 21 0x40400000) (replicate 21 0x3F800000) 21 = Inr v \<and> fint v (- 63)"
proof -
  have "fint 0x40400000 3" "fint 0x3F800000 1"
    by (auto simp: fint_def fl_is_def dec32_def fl_decode_def f32_def Let_def f_unit_def)
  then have "list_all2 fint (replicate 21 0x40400000) (replicate 21 3)" "list_all2 fint (replicate 21 0x3F800000) (replicate 21 1)"
    by (simp_all add: list_all2_conv_all_nth)
  from kernels_exact [OF this, of 21] show ?thesis by simp
qed

end
