(* ===== verification/KernelSearch.thy ===== *)
theory KernelSearch
  imports Distances BaseIndex
begin

text \<open>
  The search with the distance kernel in place of the comparison parameter: on vectors of integers it ranks by the
  exact squared distance.
\<close>

text \<open>The search compares the floats that the kernel returns; \<open>f_place\<close> is their order.\<close>

definition l2_key :: "nat \<Rightarrow> u32 list \<Rightarrow> u32 list \<Rightarrow> int" where
  "l2_key d x y = (case l2_compare x y d of Inl _ \<Rightarrow> 0 | Inr w \<Rightarrow> f_place w)"

definition sqdist :: "int list \<Rightarrow> int list \<Rightarrow> int" where
  "sqdist X Y = (\<Sum>i < length X. (X ! i - Y ! i)\<^sup>2)"

lemma l2_key_exact:
  assumes "list_all2 fint x X" and "list_all2 fint y Y" and "length X = length Y" and "sqdist X Y \<le> 2 ^ 24"
  shows "l2_key (length X) x y = sqdist X Y * 2 ^ 149"
proof -
  have "length X \<le> length x" "length X \<le> length y" using assms(1-3) by (auto dest: list_all2_lengthD)
  from l2_compare_ok [OF assms(1,2) this] assms(4) obtain w where "l2_compare x y (length X) = Inr w" "fint w (sqdist X Y)"
    unfolding sqdist_def by blast
  then show ?thesis by (simp add: l2_key_def f_place_fint)
qed

text \<open>
  C38: on an index of integer vectors at squared distances of at most \<open>2^24\<close> from the query, the search with the \<open>L2\<close>
  kernel returns the \<open>K\<close> reachable vertices at the least exact squared distances, in order.
\<close>

theorem l2_search_exact:
  assumes "base_input_ok ix" and "malloc_ok malloc" and "generate_base_index malloc ix = Inr ix'"
    and "sc_wf sc" and "ix_base_num ix < fuel"
    and "card (ag_reach (base_agraph ix) {ix_base_graph_EP ix}) \<le> unat (sc_L sc)"
    and "K \<le> card (ag_reach (base_agraph ix) {ix_base_graph_EP ix})"
    and "\<And>v. v \<in> ag_reach (base_agraph ix) {ix_base_graph_EP ix} \<Longrightarrow>
      list_all2 fint (ag_vec (base_agraph ix) v) (V v) \<and> length (V v) = ix_dimension ix \<and> sqdist (V v) q \<le> 2 ^ 24"
    and "list_all2 fint query q" and "length q = ix_dimension ix"
  shows "\<exists>st. search_base_index ix' (l2_key (ix_dimension ix)) fuel sc query K =
    Inr (map (\<lambda>(d, v). (v, d * 2 ^ 149))
      (least_keys K ((\<lambda>v. (sqdist (V v) q, v)) ` ag_reach (base_agraph ix) {ix_base_graph_EP ix})), st)"
proof -
  let ?R = "ag_reach (base_agraph ix) {ix_base_graph_EP ix}" and ?h = "\<lambda>(d :: int, v :: u32). (d * 2 ^ 149, v)"
  have "l2_key (ix_dimension ix) (ag_vec (base_agraph ix) v) query = sqdist (V v) q * 2 ^ 149" if "v \<in> ?R" for v
    using l2_key_exact [of "ag_vec (base_agraph ix) v" "V v" query q] assms(8) [OF that] assms(9,10) by simp
  then have keys: "vkey (\<lambda>v. l2_key (ix_dimension ix) (ag_vec (base_agraph ix) v) query) ` ?R = ?h ` (\<lambda>v. (sqdist (V v) q, v)) ` ?R"
    unfolding image_image by (intro image_cong) (auto simp: vkey_def)
  have "{ix_base_graph_EP ix} \<subseteq> ag_nodes (base_agraph ix)" using assms(1) by (simp add: base_input_ok_def)
  then have "finite ?R" using ag_reach_nodes [OF base_agraph_wf [OF assms(1)]] by (auto intro: finite_subset)
  then have "least_keys K (?h ` (\<lambda>v. (sqdist (V v) q, v)) ` ?R) = map ?h (least_keys K ((\<lambda>v. (sqdist (V v) q, v)) ` ?R))"
    by (intro least_keys_image) (auto intro!: strict_mono_onI simp: less_prod_def)
  moreover obtain st where "search_base_index ix' (l2_key (ix_dimension ix)) fuel sc query K =
      Inr (map (\<lambda>(d, v). (v, d)) (least_keys K (vkey (\<lambda>v. l2_key (ix_dimension ix) (ag_vec (base_agraph ix) v) query) ` ?R)), st)"
    using base_search_least [OF assms(1-7), of "l2_key (ix_dimension ix)" query] by auto
  ultimately show ?thesis unfolding keys by (auto simp: case_prod_unfold comp_def)
qed

lemma ag_reach_edges:
  fixes A :: "'i set"
  assumes "ag_edges g = ag_edges h"
  shows "ag_reach g A = ag_reach h A"
proof -
  have "v \<in> ag_reach h A" if "v \<in> ag_reach g A" "ag_edges g = ag_edges h" for g h :: "'i agraph" and v
    using that by (induction rule: ag_reach.induct) (auto intro: ag_reach.intros)
  with assms show ?thesis by (metis subsetI subset_antisym)
qed

definition tiny_floats :: index where
  "tiny_floats = tiny_index\<lparr>ix_base_data := Some [0x40A00000, 0x40400000]\<rparr>"

theorem l2_search_exact_witness:
  "\<exists>ix' sc st. generate_base_index zero_malloc tiny_floats = Inr ix' \<and> sc_new 2 1 = Inr sc \<and>
     search_base_index ix' (l2_key 1) 3 sc [0x3F800000] 2 = Inr ([(1, 4 * 2 ^ 149), (0, 16 * 2 ^ 149)], st)"
proof -
  have ok: "base_input_ok tiny_floats" by (simp add: tiny_floats_def tiny_index_def index_new_def base_input_ok_def)
  obtain ix' where gen: "generate_base_index zero_malloc tiny_floats = Inr ix'"
    using generate_base_index_repr [OF ok tiny_ok(2)] by (auto simp: zero_malloc_def)
  have "\<exists>sc :: (u32, int) scratch. sc_new 2 1 = Inr sc" unfolding sc_new_ok by simp
  then obtain sc :: "(u32, int) scratch" where sc: "sc_new 2 1 = Inr sc" by blast
  have sel: "ix_base_num tiny_floats = 2" "ix_base_graph_EP tiny_floats = 0" "ix_dimension tiny_floats = 1"
    by (simp_all add: tiny_floats_def tiny_index_def index_new_def)
  have "ag_edges (base_agraph tiny_floats) = ag_edges (base_agraph tiny_index)" by (simp add: tiny_floats_def base_agraph_def)
  then have graph: "ag_reach (base_agraph tiny_floats) {0} = {0, 1}" using ag_reach_edges tiny_reach by metis
  define V where "V v = (if v = 0 then [5] else [3 :: int])" for v :: u32
  have fints: "fint 0x40A00000 5" "fint 0x40400000 3" "fint 0x3F800000 1"
    by (auto simp: fint_def fl_is_def dec32_def fl_decode_def f32_def Let_def f_unit_def)
  have vec: "list_all2 fint (ag_vec (base_agraph tiny_floats) v) (V v) \<and> length (V v) = 1 \<and> sqdist (V v) [1] \<le> 2 ^ 24"
    if "v \<in> {0, 1}" for v
    using that fints by (auto simp: V_def tiny_floats_def tiny_index_def base_agraph_def slice_def sqdist_def)
  have "(\<lambda>v. (sqdist (V v) [1], v)) ` {0, 1} = set [(4, 1), (16, 0)]" by (auto simp: V_def sqdist_def)
  moreover have "sorted_list_of_set (set [(4, 1), (16, 0)]) = [(4 :: int, 1 :: u32), (16, 0)]"
    by (rule sorted_list_of_set.idem_if_sorted_distinct) auto
  ultimately have keys: "least_keys 2 ((\<lambda>v. (sqdist (V v) [1], v)) ` {0, 1}) = [(4, 1), (16, 0)]"
    by (simp only: least_keys_def) simp
  have pre: "ix_base_num tiny_floats < 3" "card (ag_reach (base_agraph tiny_floats) {ix_base_graph_EP tiny_floats}) \<le> unat (sc_L sc)"
    "2 \<le> card (ag_reach (base_agraph tiny_floats) {ix_base_graph_EP tiny_floats})"
    by (simp_all add: sel graph sc_new_wf(3) [OF sc])
  have "\<exists>st. search_base_index ix' (l2_key (ix_dimension tiny_floats)) 3 sc [0x3F800000] 2 =
    Inr (map (\<lambda>(d, v). (v, d * 2 ^ 149))
      (least_keys 2 ((\<lambda>v. (sqdist (V v) [1], v)) ` ag_reach (base_agraph tiny_floats) {ix_base_graph_EP tiny_floats})), st)"
    by (rule l2_search_exact [OF ok tiny_ok(2) gen sc_new_wf(1) [OF sc] pre]) (use vec fints in \<open>simp_all add: sel graph\<close>)
  then show ?thesis using gen sc unfolding sel graph keys by auto
qed

end
