(* ===== verification/BinFiles.thy ===== *)
theory BinFiles
  imports FileFormats CachedIO
begin

text \<open>
  The binary arrays of \<open>include/efanna2e/util.h\<close>: two 32-bit numbers (points and dimensions), then the elements, at
  any offset of a file. An element of \<open>sz\<close> bytes is a word. A read past the end of the file, which the code does not
  check, stops the model with \<open>Out_Of_Bounds\<close>.
\<close>

section \<open>Arrays of words\<close>

definition words_bytes :: "nat \<Rightarrow> 'a::len word list \<Rightarrow> byte list" where
  "words_bytes sz ws = concat (map (le_bytes sz) ws)"

definition load_words :: "nat \<Rightarrow> byte list \<Rightarrow> nat \<Rightarrow> nat \<Rightarrow> 'a::len word list result" where
  "load_words sz m off n = rmap (\<lambda>i. rbind (load m (off + sz * i) sz) (\<lambda>bs. Inr (le_word bs))) [0..<n]"

lemma length_words_bytes [simp]: "length (words_bytes sz ws) = sz * length ws"
  by (induction ws) (simp_all add: words_bytes_def)

lemma slice_words_bytes: "i < length ws \<Longrightarrow> slice (words_bytes sz ws) (sz * i) sz = le_bytes sz (ws ! i)"
proof (induction ws arbitrary: i)
  case (Cons w ws)
  then show ?case by (cases i) (simp_all add: words_bytes_def slice_def)
qed simp

lemma load_words_slice:
  fixes ws :: "'a::len word list"
  assumes "slice m off (sz * length ws) = words_bytes sz ws" and "off + sz * length ws \<le> length m" and "LENGTH('a) \<le> 8 * sz"
  shows "load_words sz m off (length ws) = Inr ws"
proof -
  have "rbind (load m (off + sz * i) sz) (\<lambda>bs. Inr (le_word bs)) = Inr (ws ! i)" if "i < length ws" for i
  proof -
    have "sz * i + sz \<le> sz * length ws" using that by (metis Suc_leI add.commute mult_Suc_right mult_le_mono2)
    then have "slice m (off + sz * i) sz = slice (slice m off (sz * length ws)) (sz * i) sz" "off + sz * i + sz \<le> length m"
      using assms(2) by (simp_all add: slice_slice)
    then show ?thesis using that assms(1,3) by (simp add: load_def slice_words_bytes le_word_bytes)
  qed
  then have "load_words sz m off (length ws) = Inr (map ((!) ws) [0..<length ws])"
    unfolding load_words_def by (intro rmap_pure) simp
  then show ?thesis by (simp add: map_nth)
qed

section \<open>Writing\<close>

text \<open>Writing at a position: a gap behind the end is filled with zeros.\<close>

definition put_at :: "byte list \<Rightarrow> nat \<Rightarrow> byte list \<Rightarrow> byte list" where
  "put_at f off bs = take off (f @ replicate (off - length f) 0) @ bs @ drop (off + length bs) f"

definition save_bin_stream :: "nat \<Rightarrow> fbytes \<Rightarrow> 'a::len word list \<Rightarrow> nat \<Rightarrow> nat \<Rightarrow> nat \<Rightarrow> (nat \<times> fbytes) result" where
  "save_bin_stream sz writer data npts ndims offset =
     rbind (rslice data 0 (npts * ndims)) (\<lambda>data.
     let npts_u32 = of_nat npts :: u32; ndims_u32 = of_nat ndims :: u32; bytes_written = npts * ndims * sz + 2 * 4 in
     Inr (bytes_written, put_at writer offset (le_bytes 4 npts_u32 @ le_bytes 4 ndims_u32 @ words_bytes sz data)))"

text \<open>\<open>save_bin\<close> starts with an empty file.\<close>

definition save_bin :: "nat \<Rightarrow> 'a::len word list \<Rightarrow> nat \<Rightarrow> nat \<Rightarrow> nat \<Rightarrow> (nat \<times> fbytes) result" where
  "save_bin sz data npts ndims offset = save_bin_stream sz [] data npts ndims offset"

section \<open>Reading\<close>

definition load_bin :: "nat \<Rightarrow> fbytes \<Rightarrow> nat \<Rightarrow> ('a::len word list \<times> nat \<times> nat) result" where
  "load_bin sz f offset =
     rbind (load32 f offset) (\<lambda>npts_u32.
     rbind (load32 f (offset + 4)) (\<lambda>dim_u32.
     let npts = unat npts_u32; dim = unat dim_u32 in
     rbind (load_words sz f (offset + 8) (npts * dim)) (\<lambda>data. Inr (data, npts, dim))))"

text \<open>
  \<open>copy_aligned_data_from_file\<close>: the rows of a file to rows of \<open>rounded_dim\<close> elements of one byte, the rest of every
  row zero. The stream throws at the end of the file.
\<close>

definition copy_aligned_data_from_file :: "fbytes \<Rightarrow> byte list \<Rightarrow> nat \<Rightarrow> nat \<Rightarrow> (byte list \<times> u32 \<times> u32) result" where
  "copy_aligned_data_from_file f data rounded_dim offset =
     rbind (read_throw f offset 4) (\<lambda>b1. rbind (read_throw f (offset + 4) 4) (\<lambda>b2.
     let npts = le_word b1 :: u32; dim = le_word b2 :: u32 in
     rbind (require (unat dim \<le> rounded_dim \<or> npts = 0) Out_Of_Bounds) (\<lambda>_.
     rbind (rfold (\<lambda>i (pos, data).
        rbind (read_throw f pos (unat dim)) (\<lambda>row.
        rbind (store data (i * rounded_dim) row) (\<lambda>data.
        rbind (store data (i * rounded_dim + unat dim) (replicate (rounded_dim - unat dim) 0)) (\<lambda>data.
        Inr (pos + unat dim, data))))) [0..<unat npts] (offset + 8, data)) (\<lambda>(pos, data).
     Inr (data, npts, dim)))))"

section \<open>Reading what was written\<close>

lemma length_padded [simp]: "length (take off (f @ replicate (off - length f) z)) = off"
  by (simp del: take_append)

lemma slice_put_at_same: "slice (put_at f off bs) off (length bs) = bs"
proof -
  define p where "p = take off (f @ replicate (off - length f) 0)"
  have "put_at f off bs = p @ bs @ drop (off + length bs) f" "length p = off" unfolding put_at_def p_def by (rule refl, rule length_padded)
  then show ?thesis by (simp add: slice_def)
qed

lemma length_put_at: "length (put_at f off bs) = max (length f) (off + length bs)"
  unfolding put_at_def length_append length_padded by simp

lemma slice_put_at_other:
  assumes "o2 + n \<le> off \<or> off + length bs \<le> o2" and "o2 + n \<le> length f"
  shows "slice (put_at f off bs) o2 n = slice f o2 n"
proof (rule nth_equalityI)
  show "length (slice (put_at f off bs) o2 n) = length (slice f o2 n)" using assms(2) by (simp add: length_put_at)
  fix i assume "i < length (slice (put_at f off bs) o2 n)"
  then show "slice (put_at f off bs) o2 n ! i = slice f o2 n ! i"
    using assms by (auto simp: slice_def put_at_def nth_append simp del: take_append)
qed

text \<open>The bytes of an array with its header.\<close>

definition bin_bytes :: "nat \<Rightarrow> 'a::len word list \<Rightarrow> nat \<Rightarrow> nat \<Rightarrow> byte list" where
  "bin_bytes sz data npts ndims = le_bytes 4 (of_nat npts :: u32) @ le_bytes 4 (of_nat ndims :: u32) @ words_bytes sz data"

lemma length_bin_bytes [simp]: "length (bin_bytes sz data npts ndims) = 8 + sz * length data"
  by (simp add: bin_bytes_def)

lemma save_bin_stream_ok:
  "length data = npts * ndims \<Longrightarrow>
   save_bin_stream sz w data npts ndims off = Inr (npts * ndims * sz + 8, put_at w off (bin_bytes sz data npts ndims))"
  by (simp add: save_bin_stream_def bin_bytes_def slice_def Let_def)

lemma load_bin_at:
  fixes data :: "'a::len word list"
  assumes "slice f off (8 + sz * length data) = bin_bytes sz data npts ndims" and "off + 8 + sz * length data \<le> length f"
    and "length data = npts * ndims" and "npts < 2 ^ 32" and "ndims < 2 ^ 32" and "LENGTH('a) \<le> 8 * sz"
  shows "load_bin sz f off = Inr (data, npts, ndims)"
proof -
  let ?n = "8 + sz * length data"
  have part: "slice f (off + i) k = slice (bin_bytes sz data npts ndims) i k" if "i + k \<le> ?n" for i k
    using slice_slice [OF that, of f off] assms(1) by simp
  have "load32 f off = Inr (of_nat npts)"
    using part [of 0 4] assms(2) by (intro load32_slice) (simp_all add: bin_bytes_def slice_def)
  moreover have "load32 f (off + 4) = Inr (of_nat ndims)"
    using part [of 4 4] assms(2) by (intro load32_slice) (simp_all add: bin_bytes_def slice_def)
  moreover have "load_words sz f (off + 8) (npts * ndims) = Inr data"
    unfolding assms(3) [symmetric] using part [of 8 "sz * length data"] assms(2,6)
    by (intro load_words_slice) (simp_all add: bin_bytes_def slice_def)
  ultimately show ?thesis using assms(4,5) by (simp add: load_bin_def unat_of_nat32 Let_def)
qed

lemma load_bin_put:
  fixes data :: "'a::len word list"
  assumes "length data = npts * ndims" and "npts < 2 ^ 32" and "ndims < 2 ^ 32" and "LENGTH('a) \<le> 8 * sz"
  shows "load_bin sz (put_at w off (bin_bytes sz data npts ndims)) off = Inr (data, npts, ndims)"
  using slice_put_at_same [of w off "bin_bytes sz data npts ndims"] assms
  by (intro load_bin_at) (simp_all add: length_put_at)

end
