(* ===== verification/PqTable.thy ===== *)
theory PqTable
  imports BinFiles FloatExact
begin

text \<open>
  The table of product quantisation, \<open>FixedChunkPQTable\<close> of \<open>src/pq.cpp\<close>: a vector is cut into chunks of dimensions, and
  of every chunk only the number (one byte) of one of 256 centres is kept. The distances of a query to all centres
  are tabulated once; a distance to a compressed vector is then a sum of table entries.
\<close>

section \<open>The table\<close>

definition NUM_PQ_CENTROIDS :: nat where
  "NUM_PQ_CENTROIDS = 256"

definition METADATA_SIZE :: nat where
  "METADATA_SIZE = 4096"

record pq_table =
  pt_tables :: "u32 list"
  pt_ndims :: nat
  pt_n_chunks :: nat
  pt_chunk_offsets :: "u32 list"
  pt_centroid :: "u32 list"
  pt_tables_tr :: "u32 list"

text \<open>\<open>tables\<close> by columns.\<close>

definition transpose :: "u32 list \<Rightarrow> nat \<Rightarrow> u32 list result" where
  "transpose tables nd =
     rfold (\<lambda>i tr. rfold (\<lambda>j tr. rbind (rget tables (i * nd + j)) (\<lambda>x. rput tr (j * NUM_PQ_CENTROIDS + i) x)) [0..<nd] tr)
       [0..<NUM_PQ_CENTROIDS] (replicate (NUM_PQ_CENTROIDS * nd) 0)"

text \<open>A file of the wrong shape is only reported; the table is then filled from what it holds.\<close>

definition load_pq_centroid_bin :: "fbytes \<Rightarrow> pq_table result" where
  "load_pq_centroid_bin f =
     rbind (load_bin 8 f 0) (\<lambda>(file_offset_data :: u64 list, nr, nc).
     rbind (rget file_offset_data 0) (\<lambda>o0. rbind (rget file_offset_data 1) (\<lambda>o1. rbind (rget file_offset_data 2) (\<lambda>o2.
     rbind (load_bin 4 f (unat o0)) (\<lambda>(tables, nr, nc).
     let ndims = nc in
     rbind (load_bin 4 f (unat o1)) (\<lambda>(centroid, nr, nc).
     rbind (load_bin 4 f (unat o2)) (\<lambda>(chunk_offsets, nr, nc).
     let n_chunks = unat (of_nat nr - 1 :: u64) in
     rbind (transpose tables ndims) (\<lambda>tables_tr.
     Inr \<lparr>pt_tables = tables, pt_ndims = ndims, pt_n_chunks = n_chunks, pt_chunk_offsets = chunk_offsets,
          pt_centroid = centroid, pt_tables_tr = tables_tr\<rparr>))))))))"

definition get_num_chunks :: "pq_table \<Rightarrow> u32" where
  "get_num_chunks t = of_nat (pt_n_chunks t)"

section \<open>Queries\<close>

definition preprocess_query :: "pq_table \<Rightarrow> u32 list \<Rightarrow> u32 list result" where
  "preprocess_query t query_vec =
     rfold (\<lambda>d q. rbind (rget q d) (\<lambda>x. rbind (rget (pt_centroid t) d) (\<lambda>c. rput q d (fsub x c)))) [0..<pt_ndims t] query_vec"

text \<open>The dimensions of a chunk, and the entry of dimension \<open>j\<close> of centre \<open>idx\<close>.\<close>

definition chunk_dims :: "pq_table \<Rightarrow> nat \<Rightarrow> nat list result" where
  "chunk_dims t chunk =
     rbind (rget (pt_chunk_offsets t) chunk) (\<lambda>a. rbind (rget (pt_chunk_offsets t) (chunk + 1)) (\<lambda>b. Inr [unat a..<unat b]))"

definition center_dim :: "pq_table \<Rightarrow> nat \<Rightarrow> nat \<Rightarrow> u32 result" where
  "center_dim t j idx = rget (pt_tables_tr t) (j * NUM_PQ_CENTROIDS + idx)"

text \<open>
  The loops of \<open>populate_chunk_distances\<close> and \<open>populate_chunk_inner_products\<close>: \<open>upd\<close> combines an entry of the distances
  with an entry of the table and the query.
\<close>

definition populate_dim :: "(u32 \<Rightarrow> u32 \<Rightarrow> u32 \<Rightarrow> u32) \<Rightarrow> pq_table \<Rightarrow> u32 list \<Rightarrow> nat \<Rightarrow> nat \<Rightarrow> u32 list \<Rightarrow> u32 list result" where
  "populate_dim upd t query_vec chunk j dist_vec =
     rfold (\<lambda>idx dv.
       rbind (rget dv (chunk * NUM_PQ_CENTROIDS + idx)) (\<lambda>x.
       rbind (center_dim t j idx) (\<lambda>c. rbind (rget query_vec j) (\<lambda>q.
       rput dv (chunk * NUM_PQ_CENTROIDS + idx) (upd x c q))))) [0..<NUM_PQ_CENTROIDS] dist_vec"

definition populate :: "(u32 \<Rightarrow> u32 \<Rightarrow> u32 \<Rightarrow> u32) \<Rightarrow> pq_table \<Rightarrow> u32 list \<Rightarrow> u32 list \<Rightarrow> u32 list result" where
  "populate upd t query_vec dist_vec =
     rbind (require (NUM_PQ_CENTROIDS * pt_n_chunks t \<le> length dist_vec) Out_Of_Bounds) (\<lambda>_.
     rfold (\<lambda>chunk dv. rbind (chunk_dims t chunk) (\<lambda>js. rfold (populate_dim upd t query_vec chunk) js dv)) [0..<pt_n_chunks t]
       (replicate (NUM_PQ_CENTROIDS * pt_n_chunks t) 0 @ drop (NUM_PQ_CENTROIDS * pt_n_chunks t) dist_vec))"

text \<open>The difference is a \<open>float\<close>, its square is taken in \<open>double\<close> and rounded.\<close>

definition l2_upd :: "u32 \<Rightarrow> u32 \<Rightarrow> u32 \<Rightarrow> u32" where
  "l2_upd x c q = (let diff = f2d (fsub c q) in fadd x (d2f (dmul diff diff)))"

definition ip_upd :: "u32 \<Rightarrow> u32 \<Rightarrow> u32 \<Rightarrow> u32" where
  "ip_upd x c q = (let prd = f2d (fmul c q) in fsub x (d2f prd))"

definition populate_chunk_distances :: "pq_table \<Rightarrow> u32 list \<Rightarrow> u32 list \<Rightarrow> u32 list result" where
  "populate_chunk_distances t query_vec dist_vec = populate l2_upd t query_vec dist_vec"

definition populate_chunk_inner_products :: "pq_table \<Rightarrow> u32 list \<Rightarrow> u32 list \<Rightarrow> u32 list result" where
  "populate_chunk_inner_products t query_vec dist_vec = populate ip_upd t query_vec dist_vec"

text \<open>The distance computed without the tabulated distances.\<close>

definition sum_chunks :: "(u32 \<Rightarrow> u32 \<Rightarrow> u32 \<Rightarrow> u32) \<Rightarrow> pq_table \<Rightarrow> u32 list \<Rightarrow> byte list \<Rightarrow> u32 result" where
  "sum_chunks upd t query_vec base_vec =
     rfold (\<lambda>chunk res.
       rbind (chunk_dims t chunk) (\<lambda>js.
       rfold (\<lambda>j res.
         rbind (rget base_vec chunk) (\<lambda>b. rbind (center_dim t j (unat b)) (\<lambda>c. rbind (rget query_vec j) (\<lambda>q.
         Inr (upd res c q))))) js res)) [0..<pt_n_chunks t] 0"

definition l2_distance :: "pq_table \<Rightarrow> u32 list \<Rightarrow> byte list \<Rightarrow> u32 result" where
  "l2_distance t query_vec base_vec =
     sum_chunks (\<lambda>res c q. let diff = fsub c q in fadd res (fmul diff diff)) t query_vec base_vec"

definition inner_product :: "pq_table \<Rightarrow> u32 list \<Rightarrow> byte list \<Rightarrow> u32 result" where
  "inner_product t query_vec base_vec =
     rbind (sum_chunks (\<lambda>res c q. let diff = fmul c q in fadd res diff) t query_vec base_vec) (\<lambda>res. Inr (fneg res))"

definition inflate_vector :: "pq_table \<Rightarrow> byte list \<Rightarrow> u32 list \<Rightarrow> u32 list result" where
  "inflate_vector t base_vec out_vec =
     rfold (\<lambda>chunk out.
       rbind (chunk_dims t chunk) (\<lambda>js.
       rfold (\<lambda>j out.
         rbind (rget base_vec chunk) (\<lambda>b. rbind (center_dim t j (unat b)) (\<lambda>c. rbind (rget (pt_centroid t) j) (\<lambda>m.
         rput out j (fadd c m))))) js out)) [0..<pt_n_chunks t] out_vec"

section \<open>Looking distances up\<close>

text \<open>\<open>pq_id\<close> points into the compressed vectors, at \<open>off\<close>.\<close>

definition pq_dist_lookup_single :: "byte list \<Rightarrow> nat \<Rightarrow> nat \<Rightarrow> u32 list \<Rightarrow> u32 result" where
  "pq_dist_lookup_single pq_id off pq_nchunks pq_dists =
     rfold (\<lambda>chunk dist_out.
       rbind (rget pq_id (off + chunk)) (\<lambda>pq_centerid.
       rbind (rget pq_dists (NUM_PQ_CENTROIDS * chunk + unat pq_centerid)) (\<lambda>d. Inr (fadd dist_out d)))) [0..<pq_nchunks] 0"

definition aggregate_coords :: "u32 list \<Rightarrow> byte list \<Rightarrow> nat \<Rightarrow> byte list \<Rightarrow> byte list result" where
  "aggregate_coords ids all_coords ndims out =
     rfold (\<lambda>i out. rbind (rget ids i) (\<lambda>v. rbind (load all_coords (unat v * ndims) ndims) (\<lambda>bs. store out (i * ndims) bs)))
       [0..<length ids] out"

definition pq_dist_lookup :: "byte list \<Rightarrow> nat \<Rightarrow> nat \<Rightarrow> u32 list \<Rightarrow> u32 list result" where
  "pq_dist_lookup pq_ids n_pts pq_nchunks pq_dists =
     rfold (\<lambda>chunk dists_out.
       rfold (\<lambda>idx dists_out.
         rbind (rget dists_out idx) (\<lambda>x.
         rbind (rget pq_ids (pq_nchunks * idx + chunk)) (\<lambda>pq_centerid.
         rbind (rget pq_dists (chunk * 256 + unat pq_centerid)) (\<lambda>d.
         rput dists_out idx (fadd x d))))) [0..<n_pts] dists_out) [0..<pq_nchunks] (replicate n_pts 0)"

end
