(* ===== verification/MathUtils.thy ===== *)
theory MathUtils
  imports IndexState FloatExact
begin

text \<open>
  Clustering (\<open>src/math_utils.cpp\<close>): the closest centres of points, Lloyd's algorithm and the choice of the first
  centres. Points and centres are the rows of arrays. The two functions of MKL that the code calls are parameters,
  and so are the random numbers. Parallel loops run in order.
\<close>

text \<open>\<open>cblas_snrm2\<close> of a vector; \<open>cblas_sgemm\<close> (row major, the second matrix transposed) of sizes \<open>m\<close>, \<open>n\<close>, \<open>k\<close>.\<close>

record mkl =
  snrm2 :: "u32 list \<Rightarrow> u32"
  sgemm :: "nat \<Rightarrow> nat \<Rightarrow> nat \<Rightarrow> u32 \<Rightarrow> u32 list \<Rightarrow> u32 list \<Rightarrow> u32 \<Rightarrow> u32 list \<Rightarrow> u32 list"

text \<open>What MKL promises of shapes.\<close>

definition mkl_ok :: "mkl \<Rightarrow> bool" where
  "mkl_ok mk \<longleftrightarrow> (\<forall>m n k al a b be c. length c = m * n \<longrightarrow> length (sgemm mk m n k al a b be c) = m * n)"

definition f_zero :: u32 where "f_zero = 0"
definition f_one :: u32 where "f_one = 0x3F800000"
definition f_minus_two :: u32 where "f_minus_two = 0xC0000000"
definition f_max :: u32 where "f_max = 0x7F7FFFFF"
definition f_epsilon :: u32 where "f_epsilon = 0x34000000"
definition d_stop :: u64 where "d_stop = 0x3EE4F8B588E368F1"

section \<open>Closest centres\<close>

definition calc_distance :: "u32 list \<Rightarrow> nat \<Rightarrow> u32 list \<Rightarrow> nat \<Rightarrow> nat \<Rightarrow> u32 result" where
  "calc_distance v1 o1 v2 o2 dim =
     rfold (\<lambda>j dist. rbind (rget v1 (o1 + j)) (\<lambda>a. rbind (rget v2 (o2 + j)) (\<lambda>b.
       Inr (fadd dist (fmul (fsub a b) (fsub a b)))))) [0..<dim] f_zero"

definition compute_vecs_l2sq :: "mkl \<Rightarrow> u32 list \<Rightarrow> nat \<Rightarrow> nat \<Rightarrow> u32 list result" where
  "compute_vecs_l2sq mk data num_points dim =
     rmap (\<lambda>i. rbind (rslice data (i * dim) dim) (\<lambda>v. let r = snrm2 mk v in Inr (fmul r r))) [0..<num_points]"

text \<open>The matrix of squared distances, as \<open>|x|^2 + |c|^2 - 2 x c\<close>.\<close>

definition distance_matrix :: "mkl \<Rightarrow> u32 list \<Rightarrow> nat \<Rightarrow> nat \<Rightarrow> u32 list \<Rightarrow> nat \<Rightarrow> u32 list \<Rightarrow> u32 list \<Rightarrow> u32 list \<Rightarrow> u32 list" where
  "distance_matrix mk data num_points dim centers num_centers docs_l2sq centers_l2sq dist_matrix =
     (let ones_a = replicate num_centers f_one; ones_b = replicate num_points f_one;
          dist_matrix = sgemm mk num_points num_centers 1 f_one docs_l2sq ones_a f_zero dist_matrix;
          dist_matrix = sgemm mk num_points num_centers 1 f_one ones_b centers_l2sq f_one dist_matrix
      in sgemm mk num_points num_centers dim f_minus_two data centers f_one dist_matrix)"

text \<open>The loop over a row; the index stays what it was when no entry is below the largest \<open>float\<close>.\<close>

definition closest_in_row :: "u32 list \<Rightarrow> u32 \<Rightarrow> u32" where
  "closest_in_row current ci =
     fst (foldl (\<lambda>(ci, mn) j. if flt (current ! j) mn then (of_nat j, current ! j) else (ci, mn)) (ci, f_max) [0..<length current])"

text \<open>For \<open>k = 1\<close>, the only value that is used; with no centre at all the arrays stay as they were.\<close>

definition compute_closest_centers_in_block ::
    "mkl \<Rightarrow> u32 list \<Rightarrow> nat \<Rightarrow> nat \<Rightarrow> u32 list \<Rightarrow> nat \<Rightarrow> u32 list \<Rightarrow> u32 list \<Rightarrow> u32 list \<Rightarrow> u32 list \<Rightarrow> (u32 list \<times> u32 list) result" where
  "compute_closest_centers_in_block mk data num_points dim centers num_centers docs_l2sq centers_l2sq center_index dist_matrix =
     (if num_centers < 1 then Inr (center_index, dist_matrix)
      else let dist_matrix = distance_matrix mk data num_points dim centers num_centers docs_l2sq centers_l2sq dist_matrix in
        rbind (rfold (\<lambda>i ci.
          rbind (rget ci i) (\<lambda>c. rbind (rslice dist_matrix (i * num_centers) num_centers) (\<lambda>current.
          rput ci i (closest_in_row current c)))) [0..<num_points] center_index) (\<lambda>center_index.
        Inr (center_index, dist_matrix)))"

text \<open>
  The points are one block, so without points the size of a block is divided by zero. \<open>inverted_index\<close> collects the
  points of every centre; \<open>fresh\<close> is the content of new arrays.
\<close>

definition compute_closest_centers ::
    "mkl \<Rightarrow> (nat \<Rightarrow> u32 list) \<Rightarrow> u32 list \<Rightarrow> nat \<Rightarrow> nat \<Rightarrow> u32 list \<Rightarrow> nat \<Rightarrow> u32 list \<Rightarrow> nat list list \<Rightarrow> u32 list option \<Rightarrow> (u32 list \<times> nat list list) result" where
  "compute_closest_centers mk fresh data num_points dim pivot_data num_centers closest_centers_ivf inverted_index pts_norms_squared =
     (if num_centers < 1 then Inr (closest_centers_ivf, inverted_index)
      else
        rbind (require (num_points \<noteq> 0) (Runtime_Error ''division by zero'')) (\<lambda>_.
        rbind (case pts_norms_squared of None \<Rightarrow> compute_vecs_l2sq mk data num_points dim | Some n \<Rightarrow> Inr n) (\<lambda>pts_norms.
        rbind (compute_vecs_l2sq mk pivot_data num_centers dim) (\<lambda>pivs_norms_squared.
        rbind (compute_closest_centers_in_block mk data num_points dim pivot_data num_centers pts_norms pivs_norms_squared
                 (fresh num_points) (fresh (num_centers * num_points))) (\<lambda>(closest_centers, dist).
        rfold (\<lambda>j (ivf, inv).
          rbind (rget closest_centers j) (\<lambda>this_center_id.
          rbind (rput ivf j this_center_id) (\<lambda>ivf.
          if inv = [] then Inr (ivf, inv)
          else rbind (rget inv (unat this_center_id)) (\<lambda>docs. rbind (rput inv (unat this_center_id) (docs @ [j])) (\<lambda>inv. Inr (ivf, inv))))))
          [0..<num_points] (closest_centers_ivf, inverted_index))))))"

section \<open>Lloyd's algorithm\<close>

text \<open>A centre becomes the mean of its points, computed in \<open>double\<close>; a centre without points becomes zero.\<close>

definition cluster_sum :: "u32 list \<Rightarrow> nat \<Rightarrow> nat list \<Rightarrow> u64 list result" where
  "cluster_sum data dim docs =
     rfold (\<lambda>p sums. rbind (rslice data (p * dim) dim) (\<lambda>current. Inr (map2 (\<lambda>s x. dadd s (f2d x)) sums current))) docs (replicate dim 0)"

definition new_center :: "u32 list \<Rightarrow> nat \<Rightarrow> nat list \<Rightarrow> u32 list result" where
  "new_center data dim docs =
     rbind (cluster_sum data dim docs) (\<lambda>sums.
     Inr (if 0 < length docs then map (\<lambda>s. d2f (ddiv s (d_of_int (int (length docs))))) sums else replicate dim f_zero))"

definition RESIDUAL_CHUNK :: nat where
  "RESIDUAL_CHUNK = 2 * 8192"

definition residual_of :: "u32 list \<Rightarrow> nat \<Rightarrow> nat \<Rightarrow> u32 list \<Rightarrow> u32 list \<Rightarrow> u32 result" where
  "residual_of data num_points dim centers closest_center =
     (let nchunks = num_points div RESIDUAL_CHUNK + (if num_points mod RESIDUAL_CHUNK = 0 then 0 else 1) in
      rbind (rmap (\<lambda>chunk.
        rfold (\<lambda>d r. rbind (rget closest_center d) (\<lambda>c.
          rbind (calc_distance data (d * dim) centers (unat c * dim) dim) (\<lambda>x. Inr (fadd r x))))
          [chunk * RESIDUAL_CHUNK..<min num_points ((chunk + 1) * RESIDUAL_CHUNK)] f_zero) [0..<nchunks]) (\<lambda>residuals.
      Inr (foldl fadd f_zero residuals)))"

definition lloyds_iter ::
    "mkl \<Rightarrow> (nat \<Rightarrow> u32 list) \<Rightarrow> u32 list \<Rightarrow> nat \<Rightarrow> nat \<Rightarrow> u32 list \<Rightarrow> nat \<Rightarrow> u32 list \<Rightarrow> u32 list \<Rightarrow> (u32 \<times> u32 list \<times> u32 list) result" where
  "lloyds_iter mk fresh data num_points dim centers num_centers docs_l2sq closest_center =
     rbind (compute_closest_centers mk fresh data num_points dim centers num_centers closest_center (replicate num_centers []) (Some docs_l2sq))
       (\<lambda>(closest_center, closest_docs).
     rbind (rmap (new_center data dim) closest_docs) (\<lambda>rows.
     let centers = concat rows in
     rbind (residual_of data num_points dim centers closest_center) (\<lambda>residual. Inr (residual, centers, closest_center))))"

text \<open>The rounds \<open>i, i + 1, ..\<close> until the residual hardly changes.\<close>

fun lloyds_loop ::
    "nat \<Rightarrow> bool \<Rightarrow> mkl \<Rightarrow> (nat \<Rightarrow> u32 list) \<Rightarrow> u32 list \<Rightarrow> nat \<Rightarrow> nat \<Rightarrow> nat \<Rightarrow> u32 list \<Rightarrow> u32 \<Rightarrow> u32 list \<Rightarrow> u32 list \<Rightarrow> (u32 \<times> u32 list \<times> u32 list) result" where
  "lloyds_loop 0 first mk fresh data num_points dim num_centers docs_l2sq residual centers closest_center = Inr (residual, centers, closest_center)"
| "lloyds_loop (Suc reps) first mk fresh data num_points dim num_centers docs_l2sq residual centers closest_center =
     (let old_residual = residual in
      rbind (lloyds_iter mk fresh data num_points dim centers num_centers docs_l2sq closest_center) (\<lambda>(residual, centers, closest_center).
      if \<not> first \<and> dlt (f2d (fdiv (fsub old_residual residual) residual)) d_stop \<or> flt residual f_epsilon
      then Inr (residual, centers, closest_center)
      else lloyds_loop reps False mk fresh data num_points dim num_centers docs_l2sq residual centers closest_center))"

definition run_lloyds ::
    "mkl \<Rightarrow> (nat \<Rightarrow> u32 list) \<Rightarrow> u32 list \<Rightarrow> nat \<Rightarrow> nat \<Rightarrow> u32 list \<Rightarrow> nat \<Rightarrow> nat \<Rightarrow> u32 list \<Rightarrow> (u32 \<times> u32 list \<times> u32 list) result" where
  "run_lloyds mk fresh data num_points dim centers num_centers max_reps closest_center =
     rbind (compute_vecs_l2sq mk data num_points dim) (\<lambda>docs_l2sq.
     lloyds_loop max_reps True mk fresh data num_points dim num_centers docs_l2sq f_max centers closest_center)"

section \<open>The first centres\<close>

text \<open>
  The random numbers: \<open>rn_picks\<close> numbers of points, \<open>rn_darts\<close> the numbers in \<open>[0, 1)\<close> drawn by the loop of
  \<open>kmeanspp_selecting_pivots\<close>, which may draw any number of them before it has found enough centres.
\<close>

record random =
  rn_picks :: "nat \<Rightarrow> nat"
  rn_darts :: "u64 list"

text \<open>A point picked twice is skipped, and the place of the centre stays as it was.\<close>

definition selecting_pivots :: "random \<Rightarrow> u32 list \<Rightarrow> nat \<Rightarrow> nat \<Rightarrow> u32 list \<Rightarrow> nat \<Rightarrow> u32 list result" where
  "selecting_pivots rn data num_points dim pivot_data num_centers =
     rbind (rfold (\<lambda>j (picked, piv).
       let tmp_pivot = rn_picks rn j in
       if tmp_pivot \<in> set picked then Inr (picked, piv)
       else rbind (rslice data (tmp_pivot * dim) dim) (\<lambda>row.
         rbind (require (j * dim + dim \<le> length piv) Out_Of_Bounds) (\<lambda>_.
         Inr (picked @ [tmp_pivot], take (j * dim) piv @ row @ drop (j * dim + dim) piv))))
       [0..<num_centers] ([], pivot_data)) (\<lambda>(picked, piv). Inr piv)"

text \<open>Where the dart falls: the first point whose share of the sum contains it, or the last point.\<close>

fun throw_dart :: "u64 \<Rightarrow> u64 \<Rightarrow> nat \<Rightarrow> u32 list \<Rightarrow> nat" where
  "throw_dart dart prefix_sum i [] = i - 1"
| "throw_dart dart prefix_sum i (d # dist) =
     (if dle prefix_sum dart \<and> dlt dart (dadd prefix_sum (f2d d)) then i
      else throw_dart dart (dadd prefix_sum (f2d d)) (i + 1) dist)"

text \<open>Distances to the closest centre so far.\<close>

definition closer_dist :: "u32 list \<Rightarrow> nat \<Rightarrow> nat \<Rightarrow> nat \<Rightarrow> u32 \<Rightarrow> u32 result" where
  "closer_dist data dim pivot i d =
     rbind (calc_distance data (i * dim) data (pivot * dim) dim) (\<lambda>x. Inr (if flt x d then x else d))"

fun kpp_loop ::
    "u64 list \<Rightarrow> nat \<Rightarrow> bool \<Rightarrow> nat list \<Rightarrow> u32 list \<Rightarrow> nat \<Rightarrow> nat \<Rightarrow> u32 list \<Rightarrow> nat \<Rightarrow> u32 list \<Rightarrow> u32 list result" where
  "kpp_loop darts num_picked sum_flag picked data num_points dim pivot_data num_centers dist =
     (if num_picked < num_centers then
        (case darts of [] \<Rightarrow> Inl Out_Of_Fuel
         | dart # darts \<Rightarrow>
           let sum = foldl (\<lambda>s d. dadd s (f2d d)) 0 dist;
               sum_flag = (sum_flag \<or> dle sum 0 \<and> dle 0 sum);
               tmp_pivot = throw_dart (dmul dart sum) 0 0 dist in
           if tmp_pivot \<in> set picked \<and> \<not> sum_flag
           then kpp_loop darts num_picked sum_flag picked data num_points dim pivot_data num_centers dist
           else
             rbind (rslice data (tmp_pivot * dim) dim) (\<lambda>row.
             rbind (require (num_picked * dim + dim \<le> length pivot_data) Out_Of_Bounds) (\<lambda>_.
             rbind (rmap (\<lambda>i. rbind (rget dist i) (closer_dist data dim tmp_pivot i)) [0..<num_points]) (\<lambda>dist.
             kpp_loop darts (num_picked + 1) sum_flag (picked @ [tmp_pivot]) data num_points dim
               (take (num_picked * dim) pivot_data @ row @ drop (num_picked * dim + dim) pivot_data) num_centers dist))))
      else Inr pivot_data)"

declare kpp_loop.simps [simp del]

definition kmeanspp_selecting_pivots :: "random \<Rightarrow> u32 list \<Rightarrow> nat \<Rightarrow> nat \<Rightarrow> u32 list \<Rightarrow> nat \<Rightarrow> u32 list result" where
  "kmeanspp_selecting_pivots rn data num_points dim pivot_data num_centers =
     (if 2 ^ 23 < num_points then selecting_pivots rn data num_points dim pivot_data num_centers
      else let init_id = rn_picks rn 0 in
        rbind (rslice data (init_id * dim) dim) (\<lambda>row.
        rbind (require (dim \<le> length pivot_data) Out_Of_Bounds) (\<lambda>_.
        rbind (rmap (\<lambda>i. calc_distance data (i * dim) data (init_id * dim) dim) [0..<num_points]) (\<lambda>dist.
        kpp_loop (rn_darts rn) 1 False [init_id] data num_points dim (row @ drop dim pivot_data) num_centers dist))))"

end
