(* ===== verification/PqTrain.thy ===== *)
theory PqTrain
  imports PqTable MathUtils
begin

text \<open>
  Training of product quantisation, \<open>generate_pq_pivots\<close> of \<open>src/pq.cpp\<close>: the dimensions are dealt out to the chunks,
  the vectors are clustered chunk by chunk, and the centres are written to a file.
\<close>

section \<open>Dealing out the dimensions\<close>

text \<open>The largest \<open>float\<close>, above every load.\<close>

definition MAX_LOAD :: nat where
  "MAX_LOAD = 2 ^ 128 - 2 ^ 104"

text \<open>The bin with the least load among those below the threshold; \<open>None\<close> is \<open>num_pq_chunks + 1\<close>, no bin.\<close>

definition choose_bin :: "nat list \<Rightarrow> nat list list \<Rightarrow> nat \<Rightarrow> nat option" where
  "choose_bin bin_loads bin_to_dims cur_bin_threshold =
     fst (foldl (\<lambda>(cur_best, cur_best_load) b.
       if bin_loads ! b < cur_best_load \<and> length (bin_to_dims ! b) < cur_bin_threshold then (Some b, bin_loads ! b)
       else (cur_best, cur_best_load)) (None, MAX_LOAD) [0..<length bin_to_dims])"

record dealing =
  dl_bins :: "nat list list"
  dl_num_high :: nat
  dl_threshold :: nat

text \<open>One dimension; the loads stay zero, because the code never updates them.\<close>

definition deal_dim :: "nat \<Rightarrow> nat \<Rightarrow> nat \<Rightarrow> nat list \<Rightarrow> nat \<Rightarrow> dealing \<Rightarrow> dealing result" where
  "deal_dim low_val high_val max_num_high bin_loads d s =
     (case choose_bin bin_loads (dl_bins s) (dl_threshold s) of
        None \<Rightarrow> Inl Out_Of_Bounds
      | Some cur_best \<Rightarrow>
        let dims = dl_bins s ! cur_best @ [d]; s = s\<lparr>dl_bins := (dl_bins s)[cur_best := dims]\<rparr> in
        if length dims = high_val then
          let s = s\<lparr>dl_num_high := dl_num_high s + 1\<rparr> in
          Inr (if dl_num_high s = max_num_high then s\<lparr>dl_threshold := low_val\<rparr> else s)
        else Inr s)"

definition deal_dims :: "nat \<Rightarrow> nat \<Rightarrow> nat list list result" where
  "deal_dims dim num_pq_chunks =
     rbind (require (num_pq_chunks \<noteq> 0) (Runtime_Error ''division by zero'')) (\<lambda>_.
     let low_val = dim div num_pq_chunks; high_val = (dim + num_pq_chunks - 1) div num_pq_chunks;
         max_num_high = dim - low_val * num_pq_chunks in
     rbind (rfold (deal_dim low_val high_val max_num_high (replicate num_pq_chunks 0)) [0..<dim]
       \<lparr>dl_bins = replicate num_pq_chunks [], dl_num_high = 0, dl_threshold = high_val\<rparr>) (\<lambda>s. Inr (dl_bins s)))"

definition offsets_of :: "nat list list \<Rightarrow> nat \<Rightarrow> u32 list result" where
  "offsets_of bin_to_dims dim =
     rbind (rfold (\<lambda>b offs.
       if 0 < b then rbind (rget offs (b - 1)) (\<lambda>x. Inr (offs @ [x + of_nat (length (bin_to_dims ! (b - 1)))])) else Inr offs)
       [0..<length bin_to_dims] [0]) (\<lambda>offs. Inr (offs @ [of_nat dim]))"

section \<open>Centring\<close>

definition column_mean :: "u32 list \<Rightarrow> nat \<Rightarrow> nat \<Rightarrow> nat \<Rightarrow> u32 result" where
  "column_mean train_data num_train dim d =
     rbind (rfold (\<lambda>p c. rbind (rget train_data (p * dim + d)) (\<lambda>x. Inr (fadd c x))) [0..<num_train] 0) (\<lambda>c.
     Inr (fdiv c (f_of_int (int num_train))))"

definition center_data :: "u32 list \<Rightarrow> nat \<Rightarrow> nat \<Rightarrow> u32 list \<Rightarrow> u32 list result" where
  "center_data train_data num_train dim centroid =
     rfold (\<lambda>d. rfold (\<lambda>p tr. rbind (rget tr (p * dim + d)) (\<lambda>x. rbind (rget centroid d) (\<lambda>c. rput tr (p * dim + d) (fsub x c))))
       [0..<num_train]) [0..<dim] train_data"

section \<open>The centres of a chunk\<close>

definition cut_columns :: "u32 list \<Rightarrow> nat \<Rightarrow> nat \<Rightarrow> nat \<Rightarrow> nat \<Rightarrow> u32 list result" where
  "cut_columns train_data num_train dim off cur_chunk_size =
     rbind (rmap (\<lambda>j. rslice train_data (j * dim + off) cur_chunk_size) [0..<num_train]) (\<lambda>rows. Inr (concat rows))"

definition train_chunk :: "mkl \<Rightarrow> (nat \<Rightarrow> u32 list) \<Rightarrow> random \<Rightarrow> u32 list \<Rightarrow> nat \<Rightarrow> nat \<Rightarrow> nat \<Rightarrow> nat \<Rightarrow> u32 list result" where
  "train_chunk mk fresh rn cur_data num_train cur_chunk_size num_centers max_k_means_reps =
     rbind (kmeanspp_selecting_pivots rn cur_data num_train cur_chunk_size (replicate (num_centers * cur_chunk_size) 0) num_centers) (\<lambda>cur_pivot_data.
     rbind (run_lloyds mk fresh cur_data num_train cur_chunk_size cur_pivot_data num_centers max_k_means_reps (replicate num_train 0))
       (\<lambda>(residual, cur_pivot_data, closest_center). Inr cur_pivot_data))"

text \<open>The centres go to their columns of \<open>full_pivot_data\<close>, which is raw memory.\<close>

definition store_columns :: "byte list \<Rightarrow> nat \<Rightarrow> nat \<Rightarrow> nat \<Rightarrow> nat \<Rightarrow> u32 list \<Rightarrow> byte list result" where
  "store_columns full_pivot_data num_centers dim off cur_chunk_size cur_pivot_data =
     rfold (\<lambda>j m. rbind (rslice cur_pivot_data (j * cur_chunk_size) cur_chunk_size) (\<lambda>row. store m (4 * (j * dim + off)) (bytes32s row)))
       [0..<num_centers] full_pivot_data"

definition train_chunks ::
    "mkl \<Rightarrow> (nat \<Rightarrow> u32 list) \<Rightarrow> (nat \<Rightarrow> random) \<Rightarrow> u32 list \<Rightarrow> nat \<Rightarrow> nat \<Rightarrow> nat \<Rightarrow> nat \<Rightarrow> u32 list \<Rightarrow> nat \<Rightarrow> byte list \<Rightarrow> byte list result" where
  "train_chunks mk fresh rnd train_data num_train dim num_centers max_k_means_reps chunk_offsets num_pq_chunks full_pivot_data =
     rfold (\<lambda>i m.
       rbind (rget chunk_offsets i) (\<lambda>a. rbind (rget chunk_offsets (i + 1)) (\<lambda>b.
       let cur_chunk_size = unat (b - a) in
       if cur_chunk_size = 0 then Inr m
       else
         rbind (cut_columns train_data num_train dim (unat a) cur_chunk_size) (\<lambda>cur_data.
         rbind (train_chunk mk fresh (rnd i) cur_data num_train cur_chunk_size num_centers max_k_means_reps) (\<lambda>cur_pivot_data.
         store_columns m num_centers dim (unat a) cur_chunk_size cur_pivot_data)))))
       [0..<num_pq_chunks] full_pivot_data"

section \<open>The file\<close>

definition write_pivots :: "byte list \<Rightarrow> nat \<Rightarrow> nat \<Rightarrow> u32 list \<Rightarrow> u32 list \<Rightarrow> fbytes result" where
  "write_pivots full_pivot_data num_centers dim centroid chunk_offsets =
     rbind (load32s full_pivot_data 0 (num_centers * dim)) (\<lambda>pivots.
     let c0 = METADATA_SIZE in
     rbind (save_bin_stream 4 [] pivots num_centers dim c0) (\<lambda>(n, w).
     let c1 = c0 + n in
     rbind (save_bin_stream 4 w centroid dim 1 c1) (\<lambda>(n, w).
     let c2 = c1 + n in
     rbind (save_bin_stream 4 w chunk_offsets (length chunk_offsets) 1 c2) (\<lambda>(n, w).
     let c3 = c2 + n in
     rbind (save_bin_stream 8 w (map of_nat [c0, c1, c2, c3] :: u64 list) 4 1 0) (\<lambda>(n, w). Inr w)))))"

text \<open>
  The whole function; \<open>-1\<close> when there is nothing to do. When the file exists with another shape, the buffer for
  the centres is replaced by what was read from it, whatever its length. \<open>alloc\<close> is the content of new memory.
\<close>

definition generate_pq_pivots ::
    "mkl \<Rightarrow> (nat \<Rightarrow> u32 list) \<Rightarrow> (nat \<Rightarrow> byte list) \<Rightarrow> (nat \<Rightarrow> random) \<Rightarrow> files \<Rightarrow> u32 list \<Rightarrow> nat \<Rightarrow> nat \<Rightarrow> nat \<Rightarrow> nat \<Rightarrow> nat \<Rightarrow> string \<Rightarrow> bool
      \<Rightarrow> (int \<times> files) result" where
  "generate_pq_pivots mk fresh alloc rnd fs passed_train_data num_train dim num_centers num_pq_chunks max_k_means_reps pq_pivots_path make_zero_mean =
     (if dim < num_pq_chunks then Inr (-1, fs)
      else
        rbind (rslice passed_train_data 0 (num_train * dim)) (\<lambda>train_data.
        let n = unat (of_nat (num_centers * dim) :: u32) in
        rbind (case fs pq_pivots_path of
            None \<Rightarrow> Inr (False, replicate n 0 @ drop n (alloc (4 * n)))
          | Some f \<Rightarrow> rbind (load_bin 4 f METADATA_SIZE) (\<lambda>(ws :: u32 list, file_num_centers, file_dim).
              Inr (file_dim = dim \<and> file_num_centers = num_centers, bytes32s ws))) (\<lambda>(found, full_pivot_data).
        if found then Inr (-1, fs)
        else
          rbind (if make_zero_mean then rmap (column_mean train_data num_train dim) [0..<dim] else Inr (replicate dim 0)) (\<lambda>centroid.
          rbind (if make_zero_mean then center_data train_data num_train dim centroid else Inr train_data) (\<lambda>train_data.
          rbind (deal_dims dim num_pq_chunks) (\<lambda>bin_to_dims.
          rbind (offsets_of bin_to_dims dim) (\<lambda>chunk_offsets.
          rbind (train_chunks mk fresh rnd train_data num_train dim num_centers max_k_means_reps chunk_offsets num_pq_chunks full_pivot_data) (\<lambda>full_pivot_data.
          rbind (write_pivots full_pivot_data num_centers dim centroid chunk_offsets) (\<lambda>w.
          Inr (0, fs(pq_pivots_path \<mapsto> w)))))))))))"

end
