(* ===== verification/PqEncode.thy ===== *)
theory PqEncode
  imports PqTrain CachedIO
begin

text \<open>
  Encoding with product quantisation, \<open>generate_pq_data_from_pivots\<close> and \<open>generate_quantized_data\<close> of \<open>src/pq.cpp\<close>, with
  the sampling of \<open>include/generate_subgraph.h\<close>. The base vectors stream through a cached file, block after block; of
  every vector and chunk the number of the closest centre is written. The file that is written is another one than
  the base file.
\<close>

section \<open>Elements\<close>

text \<open>The three element types for which the templates are instantiated, and their conversion to \<open>float\<close>.\<close>

datatype elem = Int8 | UInt8 | Float32

fun elem_size :: "elem \<Rightarrow> nat" where
  "elem_size Int8 = 1"
| "elem_size UInt8 = 1"
| "elem_size Float32 = 4"

fun elem_float :: "elem \<Rightarrow> byte list \<Rightarrow> u32" where
  "elem_float Int8 bs = f_of_int (sint (le_word bs :: byte))"
| "elem_float UInt8 bs = f_of_int (uint (le_word bs :: byte))"
| "elem_float Float32 bs = le_word bs"

definition convert_types :: "elem \<Rightarrow> byte list \<Rightarrow> nat \<Rightarrow> nat \<Rightarrow> u32 list" where
  "convert_types T srcmat npts dim = map (\<lambda>i. elem_float T (slice srcmat (i * elem_size T) (elem_size T))) [0..<npts * dim]"

section \<open>Sampling\<close>

definition READ_BLOCK :: nat where
  "READ_BLOCK = 64 * 1024 * 1024"

definition d_one :: u64 where
  "d_one = 0x3FF0000000000000"

text \<open>The two header fields, through the cache.\<close>

definition read_header :: "files \<Rightarrow> string \<Rightarrow> (nat \<times> nat \<times> cached_in) result" where
  "read_header fs data_file =
     rbind (open_read ''basic_ios::clear'' fs data_file) (\<lambda>f.
     rbind (cached_open f READ_BLOCK) (\<lambda>base_reader.
     rbind (cached_read 4 base_reader) (\<lambda>(b1, base_reader).
     rbind (cached_read 4 base_reader) (\<lambda>(b2, base_reader).
     Inr (unat (le_word b1 :: u32), unat (le_word b2 :: u32), base_reader)))))"

text \<open>\<open>rnd i\<close> is the random number drawn for vector \<open>i\<close>.\<close>

definition gen_random_slice :: "elem \<Rightarrow> files \<Rightarrow> string \<Rightarrow> u64 \<Rightarrow> (nat \<Rightarrow> u32) \<Rightarrow> (u32 list \<times> nat \<times> nat) result" where
  "gen_random_slice T fs data_file p_val rnd =
     rbind (read_header fs data_file) (\<lambda>(npts, ndims, base_reader).
     let p_val = if dlt p_val d_one then p_val else d_one in
     rbind (rfold (\<lambda>i (base_reader, sampled_vectors).
       rbind (cached_read (ndims * elem_size T) base_reader) (\<lambda>(cur_vector_T, base_reader).
       Inr (base_reader, if dlt (f2d (rnd i)) p_val then sampled_vectors @ [convert_types T cur_vector_T 1 ndims] else sampled_vectors)))
       [0..<npts] (base_reader, [])) (\<lambda>(base_reader, sampled_vectors).
     Inr (concat sampled_vectors, length sampled_vectors, ndims)))"

section \<open>The centres\<close>

text \<open>
  The arrays of the file of centres; wrong shapes are only reported. Without a file the pointers stay unset, so
  that any access through them fails.
\<close>

definition load_pivots :: "files \<Rightarrow> string \<Rightarrow> (u32 list \<times> u32 list \<times> u32 list) result" where
  "load_pivots fs pq_pivots_path =
     (case fs pq_pivots_path of None \<Rightarrow> Inr ([], [], [])
      | Some f \<Rightarrow>
        rbind (load_bin 8 f 0) (\<lambda>(file_offset_data :: u64 list, nr, nc).
        rbind (rget file_offset_data 0) (\<lambda>o0. rbind (load_bin 4 f (unat o0)) (\<lambda>(full_pivot_data, nr, nc).
        rbind (rget file_offset_data 1) (\<lambda>o1. rbind (load_bin 4 f (unat o1)) (\<lambda>(centroid, nr, nc).
        rbind (rget file_offset_data 2) (\<lambda>o2. rbind (load_bin 4 f (unat o2)) (\<lambda>(chunk_offsets, nr, nc).
        Inr (full_pivot_data, centroid, chunk_offsets)))))))))"

section \<open>Encoding\<close>

definition BLOCK_SIZE :: nat where
  "BLOCK_SIZE = 3000000"

text \<open>The vectors of a block minus the centroid.\<close>

definition center_block :: "u32 list \<Rightarrow> nat \<Rightarrow> nat \<Rightarrow> u32 list \<Rightarrow> u32 list result" where
  "center_block block_data_tmp cur_blk_size dim centroid =
     rfold (\<lambda>p. rfold (\<lambda>d tmp. rbind (rget tmp (p * dim + d)) (\<lambda>x. rbind (rget centroid d) (\<lambda>c. rput tmp (p * dim + d) (fsub x c))))
       [0..<dim]) [0..<cur_blk_size] block_data_tmp"

text \<open>The closest centres of one chunk of dimensions.\<close>

definition encode_chunk ::
    "mkl \<Rightarrow> (nat \<Rightarrow> u32 list) \<Rightarrow> nat \<Rightarrow> nat \<Rightarrow> u32 list \<Rightarrow> nat \<Rightarrow> nat \<Rightarrow> u32 list \<Rightarrow> nat \<Rightarrow> u32 list result" where
  "encode_chunk mk fresh num_centers dim full_pivot_data off cur_chunk_size block_data_float cur_blk_size =
     rbind (cut_columns block_data_float cur_blk_size dim off cur_chunk_size) (\<lambda>cur_data.
     rbind (cut_columns full_pivot_data num_centers dim off cur_chunk_size) (\<lambda>cur_pivot_data.
     rbind (compute_closest_centers mk fresh cur_data cur_blk_size cur_chunk_size cur_pivot_data num_centers
              (replicate cur_blk_size 0) [] None) (\<lambda>(closest_center, inverted_index).
     Inr closest_center)))"

text \<open>Column \<open>i\<close> of the codes.\<close>

definition put_codes :: "nat \<Rightarrow> nat \<Rightarrow> nat \<Rightarrow> u32 list \<Rightarrow> u32 list \<Rightarrow> u32 list result" where
  "put_codes num_pq_chunks cur_blk_size i closest_center block_compressed_base =
     rfold (\<lambda>j base. rbind (rget closest_center j) (\<lambda>c. rput base (j * num_pq_chunks + i) c)) [0..<cur_blk_size] block_compressed_base"

definition encode_block ::
    "mkl \<Rightarrow> (nat \<Rightarrow> u32 list) \<Rightarrow> nat \<Rightarrow> nat \<Rightarrow> nat \<Rightarrow> u32 list \<Rightarrow> u32 list \<Rightarrow> u32 list \<Rightarrow> nat \<Rightarrow> u32 list \<Rightarrow> u32 list result" where
  "encode_block mk fresh num_centers num_pq_chunks dim full_pivot_data chunk_offsets block_data_float cur_blk_size block_compressed_base =
     rfold (\<lambda>i base.
       rbind (rget chunk_offsets i) (\<lambda>a. rbind (rget chunk_offsets (i + 1)) (\<lambda>b.
       let cur_chunk_size = unat (b - a) in
       if cur_chunk_size = 0 then Inr base
       else
         rbind (encode_chunk mk fresh num_centers dim full_pivot_data (unat a) cur_chunk_size block_data_float cur_blk_size) (\<lambda>closest_center.
         put_codes num_pq_chunks cur_blk_size i closest_center base))))
       [0..<num_pq_chunks] block_compressed_base"

text \<open>More than 256 centres take four bytes a code, otherwise one.\<close>

definition code_bytes :: "nat \<Rightarrow> u32 list \<Rightarrow> byte list" where
  "code_bytes num_centers codes = (if 256 < num_centers then words_bytes 4 codes else map ucast codes)"

record encoding =
  en_reader :: cached_in
  en_codes :: "u32 list"
  en_floats :: "u32 list"
  en_out :: "byte list"

text \<open>
  One block. The buffers are as long as a whole block and keep what an earlier block left behind the end of a
  shorter one.
\<close>

definition encode_step ::
    "mkl \<Rightarrow> (nat \<Rightarrow> u32 list) \<Rightarrow> elem \<Rightarrow> nat \<Rightarrow> nat \<Rightarrow> nat \<Rightarrow> u32 list \<times> u32 list \<times> u32 list \<Rightarrow> nat \<Rightarrow> nat \<Rightarrow> nat \<Rightarrow> encoding \<Rightarrow> encoding result" where
  "encode_step mk fresh T num_centers num_pq_chunks dim pivots num_points block_size block s =
     (let (full_pivot_data, centroid, chunk_offsets) = pivots;
          start_id = block * block_size; end_id = min ((block + 1) * block_size) num_points; cur_blk_size = end_id - start_id in
      rbind (cached_read (elem_size T * (cur_blk_size * dim)) (en_reader s)) (\<lambda>(block_data_T, reader).
      rbind (center_block (convert_types T block_data_T cur_blk_size dim) cur_blk_size dim centroid) (\<lambda>block_data_tmp.
      let block_data_float = block_data_tmp @ drop (cur_blk_size * dim) (en_floats s) in
      rbind (encode_block mk fresh num_centers num_pq_chunks dim full_pivot_data chunk_offsets block_data_float cur_blk_size (en_codes s)) (\<lambda>codes.
      rbind (rslice codes 0 (cur_blk_size * num_pq_chunks)) (\<lambda>out.
      Inr \<lparr>en_reader = reader, en_codes = codes, en_floats = block_data_float, en_out = en_out s @ code_bytes num_centers out\<rparr>)))))"

definition generate_pq_data_from_pivots ::
    "mkl \<Rightarrow> (nat \<Rightarrow> u32 list) \<Rightarrow> elem \<Rightarrow> files \<Rightarrow> string \<Rightarrow> nat \<Rightarrow> nat \<Rightarrow> string \<Rightarrow> string \<Rightarrow> (int \<times> files) result" where
  "generate_pq_data_from_pivots mk fresh T fs data_file num_centers num_pq_chunks pq_pivots_path pq_compressed_vectors_path =
     rbind (read_header fs data_file) (\<lambda>(num_points, dim, base_reader).
     rbind (load_pivots fs pq_pivots_path) (\<lambda>pivots.
     let block_size = if num_points \<le> BLOCK_SIZE then num_points else BLOCK_SIZE in
     rbind (require (block_size \<noteq> 0) (Runtime_Error ''division by zero'')) (\<lambda>_.
     let num_blocks = num_points div block_size + (if num_points mod block_size = 0 then 0 else 1) in
     rbind (rfold (encode_step mk fresh T num_centers num_pq_chunks dim pivots num_points block_size) [0..<num_blocks]
       \<lparr>en_reader = base_reader, en_codes = replicate (block_size * num_pq_chunks) 0, en_floats = replicate (block_size * dim) 0,
        en_out = le_bytes 4 (of_nat num_points :: u32) @ le_bytes 4 (of_nat num_pq_chunks :: u32)\<rparr>) (\<lambda>s.
     Inr (0, fs(pq_compressed_vectors_path \<mapsto> en_out s))))))"

section \<open>Sampling, training and encoding\<close>

definition NUM_KMEANS_REPS_PQ :: nat where
  "NUM_KMEANS_REPS_PQ = 12"

text \<open>Vectors are never centred; the result of the two steps is not looked at.\<close>

definition generate_quantized_data ::
    "mkl \<Rightarrow> (nat \<Rightarrow> u32 list) \<Rightarrow> (nat \<Rightarrow> byte list) \<Rightarrow> (nat \<Rightarrow> u32) \<Rightarrow> (nat \<Rightarrow> random) \<Rightarrow> elem \<Rightarrow> files \<Rightarrow> string \<Rightarrow> string \<Rightarrow> string \<Rightarrow> u64 \<Rightarrow> nat
      \<Rightarrow> files result" where
  "generate_quantized_data mk fresh alloc draws rnd T fs data_file_to_use pq_pivots_path pq_compressed_vectors_path p_val num_pq_chunks =
     rbind (gen_random_slice T fs data_file_to_use p_val draws) (\<lambda>(train_data, train_size, train_dim).
     rbind (generate_pq_pivots mk fresh alloc rnd fs train_data train_size train_dim NUM_PQ_CENTROIDS
              (unat (of_nat num_pq_chunks :: u32)) NUM_KMEANS_REPS_PQ pq_pivots_path False) (\<lambda>(r, fs).
     rbind (generate_pq_data_from_pivots mk fresh T fs data_file_to_use NUM_PQ_CENTROIDS (unat (of_nat num_pq_chunks :: u32))
              pq_pivots_path pq_compressed_vectors_path) (\<lambda>(r, fs). Inr fs)))"

end
