(* ===== verification/PqDealing.thy ===== *)
theory PqDealing
  imports PqTrain
begin

text \<open>
  How the dimensions are dealt out: the chunks get consecutive dimensions, the first ones one more than the others when
  the division leaves a rest.
\<close>

definition chunk_off :: "nat \<Rightarrow> nat \<Rightarrow> nat \<Rightarrow> nat" where
  "chunk_off dim n b = b * (dim div n) + min b (dim mod n)"

lemma chunk_off_0 [simp]: "chunk_off dim n 0 = 0"
  by (simp add: chunk_off_def)

lemma chunk_off_Suc: "chunk_off dim n (Suc b) = chunk_off dim n b + dim div n + (if b < dim mod n then 1 else 0)"
  by (auto simp: chunk_off_def min_def)

lemma chunk_off_last: "0 < n \<Longrightarrow> chunk_off dim n n = dim"
  using mod_less_divisor [of n dim] by (simp add: chunk_off_def min_absorb2 less_imp_le)

lemma chunk_off_mono: "b \<le> c \<Longrightarrow> chunk_off dim n b \<le> chunk_off dim n c"
  by (simp add: chunk_off_def add_mono)

lemma chunk_off_less: "n \<le> dim \<Longrightarrow> 0 < n \<Longrightarrow> chunk_off dim n b < chunk_off dim n (Suc b)"
  by (simp add: chunk_off_Suc div_greater_zero_iff)

lemma chunk_off_exists:
  assumes "d < dim" and "0 < n"
  shows "\<exists>b < n. chunk_off dim n b \<le> d \<and> d < chunk_off dim n (Suc b)"
proof -
  have "\<exists>b. d < chunk_off dim n (Suc b)" using chunk_off_last [OF assms(2), of dim] assms by (metis Suc_pred)
  then obtain b where b: "d < chunk_off dim n (Suc b)" "\<And>c. c < b \<Longrightarrow> \<not> d < chunk_off dim n (Suc c)"
    using LeastI_ex [of "\<lambda>b. d < chunk_off dim n (Suc b)"] not_less_Least by blast
  have "chunk_off dim n b \<le> d" using b(2) [of "b - 1"] by (cases b) (auto simp: not_less)
  moreover have "b < n"
  proof (rule ccontr)
    assume "\<not> b < n"
    then have "dim \<le> chunk_off dim n b" using chunk_off_mono [of n b dim n] chunk_off_last [OF assms(2)] by simp
    with calculation assms(1) show False by simp
  qed
  ultimately show ?thesis using b(1) by blast
qed

lemma ceil_div:
  fixes dim n :: nat
  assumes "0 < n"
  shows "(dim + n - 1) div n = dim div n + (if dim mod n = 0 then 0 else 1)"
proof -
  define q r where "q = dim div n" and "r = dim mod n"
  have dim: "dim = q * n + r" unfolding q_def r_def by (rule div_mult_mod_eq [symmetric])
  have r: "r < n" unfolding r_def using assms by simp
  have "(q * n + r + n - 1) div n = q + (if r = 0 then 0 else 1)"
    using r by (intro div_nat_eqI) (auto simp: algebra_simps)
  then show ?thesis unfolding dim [symmetric] by (simp add: q_def r_def)
qed

section \<open>The bin that is chosen\<close>

lemma choose_bin_first:
  assumes "b < length bins" and "length (bins ! b) < th" and "\<And>c. c < b \<Longrightarrow> th \<le> length (bins ! c)"
  shows "choose_bin (replicate (length bins) 0) bins th = Some b"
proof -
  let ?f = "\<lambda>(cur_best :: nat option, cur_best_load :: nat) c. if replicate (length bins) 0 ! c < cur_best_load \<and> length (bins ! c) < th
      then (Some c, replicate (length bins) 0 ! c) else (cur_best, cur_best_load)"
  have keep: "foldl ?f (x, ld) cs = (x, ld)" if "\<forall>c \<in> set cs. c < length bins \<and> (ld = 0 \<or> th \<le> length (bins ! c))" for x ld cs
    using that by (induction cs) (auto simp: not_less)
  have "[0..<length bins] = [0..<b] @ b # [Suc b..<length bins]"
    using assms(1) by (metis append_self_conv2 upt_add_eq_append upt_conv_Cons le_add_diff_inverse less_imp_le zero_le)
  then have "foldl ?f (None, MAX_LOAD) [0..<length bins] = foldl ?f (?f (foldl ?f (None, MAX_LOAD) [0..<b]) b) [Suc b..<length bins]"
    by simp
  also have "foldl ?f (None, MAX_LOAD) [0..<b] = (None, MAX_LOAD)" using assms(1,3) by (intro keep) simp
  also have "?f (None, MAX_LOAD) b = (Some b, 0)" using assms(1,2) by (simp add: MAX_LOAD_def)
  also have "foldl ?f (Some b, 0) [Suc b..<length bins] = (Some b, 0)" by (intro keep) simp
  finally show ?thesis by (simp add: choose_bin_def)
qed

section \<open>All dimensions\<close>

text \<open>The bins after \<open>d\<close> dimensions, and how many of the larger ones are full.\<close>

definition dealt :: "nat \<Rightarrow> nat \<Rightarrow> nat \<Rightarrow> nat list list" where
  "dealt dim n d = map (\<lambda>b. [min (chunk_off dim n b) d..<min (chunk_off dim n (Suc b)) d]) [0..<n]"

definition deal_inv :: "nat \<Rightarrow> nat \<Rightarrow> nat \<Rightarrow> dealing \<Rightarrow> bool" where
  "deal_inv dim n d s \<longleftrightarrow> dl_bins s = dealt dim n d \<and>
     (dim mod n = 0 \<longrightarrow> dl_threshold s = dim div n) \<and>
     (dim mod n \<noteq> 0 \<longrightarrow> dl_num_high s = min (dim mod n) (d div (dim div n + 1)) \<and>
        dl_threshold s = (if chunk_off dim n (dim mod n) \<le> d then dim div n else dim div n + 1))"

lemma length_dealt [simp]: "length (dealt dim n d) = n"
  by (simp add: dealt_def)

lemma nth_dealt: "b < n \<Longrightarrow> dealt dim n d ! b = [min (chunk_off dim n b) d..<min (chunk_off dim n (Suc b)) d]"
  by (simp add: dealt_def)

lemma dealt_step:
  assumes "b < n" and "chunk_off dim n b \<le> d" and "d < chunk_off dim n (Suc b)"
  shows "(dealt dim n d)[b := dealt dim n d ! b @ [d]] = dealt dim n (Suc d)" and "length (dealt dim n d ! b @ [d]) = Suc d - chunk_off dim n b"
proof -
  show "(dealt dim n d)[b := dealt dim n d ! b @ [d]] = dealt dim n (Suc d)"
  proof (rule nth_equalityI)
    fix c assume "c < length ((dealt dim n d)[b := dealt dim n d ! b @ [d]])"
    then have c: "c < n" by simp
    consider "c < b" | "c = b" | "b < c" by linarith
    then show "(dealt dim n d)[b := dealt dim n d ! b @ [d]] ! c = dealt dim n (Suc d) ! c"
    proof cases
      case 1
      then have "chunk_off dim n c \<le> d" "chunk_off dim n (Suc c) \<le> d"
        using assms(2) chunk_off_mono [of c b dim n] chunk_off_mono [of "Suc c" b dim n] by linarith+
      then show ?thesis using 1 c by (simp add: nth_dealt)
    next
      case 2
      have "min (chunk_off dim n b) d = chunk_off dim n b" "min (chunk_off dim n (Suc b)) d = d"
        "min (chunk_off dim n b) (Suc d) = chunk_off dim n b" "min (chunk_off dim n (Suc b)) (Suc d) = Suc d"
        using assms(2,3) by simp_all
      then show ?thesis using 2 c assms(2) by (simp add: nth_dealt)
    next
      case 3
      then have "Suc d \<le> chunk_off dim n c" "Suc d \<le> chunk_off dim n (Suc c)"
        using assms(3) chunk_off_mono [of "Suc b" c dim n] chunk_off_mono [of c "Suc c" dim n] by linarith+
      then show ?thesis using 3 c by (simp add: nth_dealt)
    qed
  qed simp
  show "length (dealt dim n d ! b @ [d]) = Suc d - chunk_off dim n b" using assms by (simp add: nth_dealt min_def)
qed

lemma large_offs: "b \<le> dim mod n \<Longrightarrow> chunk_off dim n b = b * (dim div n + 1)"
  by (simp add: chunk_off_def)

lemma deal_dim_ok:
  assumes n: "0 < n" "n \<le> dim" and d: "d < dim" and inv: "deal_inv dim n d s"
  shows "\<exists>s'. deal_dim (dim div n) ((dim + n - 1) div n) (dim - dim div n * n) (replicate n 0) d s = Inr s' \<and> deal_inv dim n (Suc d) s'"
proof -
  let ?q = "dim div n" and ?r = "dim mod n" and ?off = "chunk_off dim n"
  have high: "(dim + n - 1) div n = ?q + (if ?r = 0 then 0 else 1)" and maxhigh: "dim - ?q * n = ?r"
    using ceil_div [OF n(1)] by (simp_all add: minus_div_mult_eq_mod)
  obtain b where b: "b < n" "?off b \<le> d" "d < ?off (Suc b)" using chunk_off_exists [OF d n(1)] by blast
  have bins: "dl_bins s = dealt dim n d" using inv by (simp add: deal_inv_def)
  have size: "?off (Suc c) = ?off c + ?q + (if c < ?r then 1 else 0)" for c by (rule chunk_off_Suc)
  have large: "b < ?r \<longleftrightarrow> d < ?off ?r"
    using b(2,3) chunk_off_mono [of "Suc b" ?r dim n] chunk_off_mono [of ?r b dim n] by (meson Suc_leI leD le_trans not_le_imp_less less_le_trans)
  have "choose_bin (replicate (length (dl_bins s)) 0) (dl_bins s) (dl_threshold s) = Some b"
  proof (rule choose_bin_first)
    show "b < length (dl_bins s)" using b(1) bins by simp
    show "length (dl_bins s ! b) < dl_threshold s"
      using b inv large size [of b] by (auto simp: bins nth_dealt deal_inv_def min_def split: if_splits)
    fix c assume c: "c < b"
    then have "?off (Suc c) \<le> d" "?off c \<le> d" using b(2) chunk_off_mono [of "Suc c" b dim n] chunk_off_mono [of c b dim n] by simp_all
    then show "dl_threshold s \<le> length (dl_bins s ! c)"
      using b c inv large size [of c] by (auto simp: bins nth_dealt deal_inv_def min_def split: if_splits)
  qed
  then have chosen: "choose_bin (replicate n 0) (dl_bins s) (dl_threshold s) = Some b" by (simp add: bins)
  note step = dealt_step [OF b]
  have run: "deal_dim ?q ((dim + n - 1) div n) (dim - ?q * n) (replicate n 0) d s =
    (let s' = s\<lparr>dl_bins := dealt dim n (Suc d)\<rparr> in
     if Suc d - ?off b = ?q + (if ?r = 0 then 0 else 1) then
       Inr (if dl_num_high s + 1 = ?r then s'\<lparr>dl_num_high := dl_num_high s + 1, dl_threshold := ?q\<rparr> else s'\<lparr>dl_num_high := dl_num_high s + 1\<rparr>)
     else Inr s')"
    by (simp only: deal_dim_def chosen option.case Let_def) (simp only: bins step high maxhigh, simp)
  show ?thesis
  proof (cases "?r = 0")
    case True
    then show ?thesis using inv unfolding run by (simp add: deal_inv_def Let_def)
  next
    case r: False
    have full: "Suc d - ?off b = ?q + 1 \<longleftrightarrow> b < ?r \<and> Suc d = ?off (Suc b)" using b size [of b] by auto
    show ?thesis
    proof (cases "b < ?r \<and> Suc d = ?off (Suc b)")
      case True
      then have "Suc d = Suc b * (?q + 1)" using large_offs [of "Suc b" dim n] by simp
      then have "Suc d div (?q + 1) = Suc b" "d div (?q + 1) = b" using b(2) large_offs [of b dim n] True by (auto intro!: div_nat_eqI simp: algebra_simps)
      moreover have "?off ?r \<le> Suc d \<longleftrightarrow> Suc b = ?r"
        using True chunk_off_less [OF n(2,1)] chunk_off_mono [of "Suc (Suc b)" ?r dim n] by (metis Suc_leI le_antisym not_less order_less_le_trans order_refl)
      ultimately show ?thesis
        using True r inv full large unfolding run by (auto simp: deal_inv_def Let_def)
    next
      case False
      have "min ?r (Suc d div (?q + 1)) = min ?r (d div (?q + 1))"
      proof (cases "b < ?r")
        case True
        then have "b * (?q + 1) \<le> d" "Suc d < Suc b * (?q + 1)" using b False large_offs [of b dim n] large_offs [of "Suc b" dim n] by auto
        then have "Suc d div (?q + 1) = b" "d div (?q + 1) = b" by (auto intro!: div_nat_eqI simp: mult.commute)
        then show ?thesis by simp
      next
        case F: False
        then have "?r * (?q + 1) \<le> d" using large large_offs [of ?r dim n] by simp
        then have "?r \<le> d div (?q + 1)" "?r \<le> Suc d div (?q + 1)" by (simp_all add: less_eq_div_iff_mult_less_eq)
        then show ?thesis by simp
      qed
      moreover have "?off ?r \<le> Suc d \<longleftrightarrow> ?off ?r \<le> d"
      proof (cases "b < ?r")
        case True
        then have "Suc d < ?off (Suc b)" "?off (Suc b) \<le> ?off ?r" using False b(3) chunk_off_mono [of "Suc b" ?r dim n] by auto
        then show ?thesis by simp
      next
        case F: False
        then show ?thesis using large by simp
      qed
      moreover have "Suc d - ?off b \<noteq> ?q + 1" using full False by blast
      ultimately show ?thesis using r inv unfolding run by (simp add: deal_inv_def Let_def)
    qed
  qed
qed

lemma deal_dims_ok:
  assumes "0 < n" and "n \<le> dim"
  shows "deal_dims dim n = Inr (map (\<lambda>b. [chunk_off dim n b..<chunk_off dim n (Suc b)]) [0..<n])"
proof -
  let ?s0 = "\<lparr>dl_bins = replicate n [], dl_num_high = 0, dl_threshold = (dim + n - 1) div n\<rparr>"
  have "(dim + n - 1) div n = dim div n + (if dim mod n = 0 then 0 else 1)" by (rule ceil_div [OF assms(1)])
  then have start: "deal_inv dim n 0 ?s0"
    using large_offs [of "dim mod n" dim n]
    by (auto simp: deal_inv_def dealt_def intro!: nth_equalityI)
  have "\<exists>s. rfold (deal_dim (dim div n) ((dim + n - 1) div n) (dim - dim div n * n) (replicate n 0)) [0..<dim] ?s0 = Inr s \<and> deal_inv dim n (length [0..<dim]) s"
  proof (rule rfold_invariant [where P = "\<lambda>ds s. deal_inv dim n (length ds) s"])
    fix ys d zs s assume "[0..<dim] = ys @ d # zs" and "deal_inv dim n (length ys) s"
    moreover have "d = length ys" "d < dim" using upt_split [OF calculation(1)] by simp_all
    ultimately show "\<exists>s'. deal_dim (dim div n) ((dim + n - 1) div n) (dim - dim div n * n) (replicate n 0) d s = Inr s' \<and> deal_inv dim n (length (ys @ [d])) s'"
      using deal_dim_ok [OF assms] by simp
  qed (use start in simp)
  then obtain s where "rfold (deal_dim (dim div n) ((dim + n - 1) div n) (dim - dim div n * n) (replicate n 0)) [0..<dim] ?s0 = Inr s"
    "dl_bins s = dealt dim n dim" by (auto simp: deal_inv_def)
  moreover have "chunk_off dim n b \<le> dim" if "b \<le> n" for b
    using chunk_off_mono [OF that, of dim n] chunk_off_last [OF assms(1)] by simp
  ultimately show ?thesis using assms(1) by (auto simp: deal_dims_def dealt_def Let_def min_absorb1)
qed

end
