(* ===== verification/PqLookup.thy ===== *)
theory PqLookup
  imports PqTable
begin

text \<open>
  What the tables of product quantisation hold, and that looking a distance up gives the distance: exactly, when the
  numbers are integers that fit.
\<close>

section \<open>Loops that update a range\<close>

definition upd_range :: "nat \<Rightarrow> nat \<Rightarrow> (nat \<Rightarrow> 'a \<Rightarrow> 'a) \<Rightarrow> 'a list \<Rightarrow> 'a list" where
  "upd_range b n h xs = map (\<lambda>k. if b \<le> k \<and> k < b + n then h (k - b) (xs ! k) else xs ! k) [0..<length xs]"

lemma length_upd_range [simp]: "length (upd_range b n h xs) = length xs"
  by (simp add: upd_range_def)

lemma nth_upd_range [simp]: "k < length xs \<Longrightarrow> upd_range b n h xs ! k = (if b \<le> k \<and> k < b + n then h (k - b) (xs ! k) else xs ! k)"
  by (simp add: upd_range_def)

lemma upd_range_0 [simp]: "upd_range b 0 h xs = xs"
  by (intro nth_equalityI) auto

lemma rfold_update:
  assumes "\<And>i ys. i < n \<Longrightarrow> length ys = length xs \<Longrightarrow> f i ys = Inr (ys[b + i := h i (ys ! (b + i))])" and "b + n \<le> length xs"
  shows "rfold f [0..<n] xs = Inr (upd_range b n h xs)"
  using assms
proof (induction n)
  case 0
  then show ?case by simp
next
  case (Suc n)
  have "rfold f [0..<n] xs = Inr (upd_range b n h xs)" using Suc.prems by (intro Suc.IH) auto
  moreover have "(upd_range b n h xs)[b + n := h n (upd_range b n h xs ! (b + n))] = upd_range b (Suc n) h xs"
    using Suc.prems(2) by (intro nth_equalityI) (auto simp: nth_list_update)
  ultimately show ?case using Suc.prems by (simp add: rfold_append)
qed

lemma rfold_ranges:
  assumes "\<And>j ys. j \<in> set js \<Longrightarrow> length ys = length xs \<Longrightarrow> f j ys = Inr (upd_range b n (h j) ys)"
  shows "rfold f js xs = Inr (upd_range b n (\<lambda>i x. foldl (\<lambda>x j. h j i x) x js) xs)"
  using assms
proof (induction js arbitrary: xs)
  case Nil
  then show ?case by (simp add: upd_range_def map_nth)
next
  case (Cons j js)
  have "rfold f js (upd_range b n (h j) xs) = Inr (upd_range b n (\<lambda>i x. foldl (\<lambda>x j. h j i x) x js) (upd_range b n (h j) xs))"
    using Cons.prems by (intro Cons.IH) simp
  moreover have "upd_range b n (\<lambda>i x. foldl (\<lambda>x j. h j i x) x js) (upd_range b n (h j) xs) = upd_range b n (\<lambda>i x. foldl (\<lambda>x j. h j i x) x (j # js)) xs"
    by (intro nth_equalityI) auto
  ultimately show ?case using Cons.prems by simp
qed

lemma rfold_blocks:
  assumes "\<And>c ys. c < m \<Longrightarrow> length ys = length xs \<Longrightarrow> f c ys = Inr (upd_range (c * n) n (h c) ys)" and "m * n \<le> length xs"
  shows "rfold f [0..<m] xs = Inr (upd_range 0 (m * n) (\<lambda>k. h (k div n) (k mod n)) xs)"
  using assms
proof (induction m)
  case 0
  then show ?case by (simp add: upd_range_def map_nth)
next
  case (Suc m)
  let ?h = "\<lambda>k. h (k div n) (k mod n)"
  have "rfold f [0..<m] xs = Inr (upd_range 0 (m * n) ?h xs)" using Suc.prems by (intro Suc.IH) auto
  moreover have "upd_range (m * n) n (h m) (upd_range 0 (m * n) ?h xs) = upd_range 0 (Suc m * n) ?h xs"
  proof (rule nth_equalityI)
    fix k assume "k < length (upd_range (m * n) n (h m) (upd_range 0 (m * n) ?h xs))"
    moreover have "k div n = m" "k mod n = k - m * n" if "m * n \<le> k" "k < m * n + n"
      using that div_nat_eqI [of n m k] by (simp_all add: ac_simps modulo_nat_def)
    ultimately show "upd_range (m * n) n (h m) (upd_range 0 (m * n) ?h xs) ! k = upd_range 0 (Suc m * n) ?h xs ! k" by auto
  qed simp
  ultimately show ?case using Suc.prems by (simp add: rfold_append)
qed

section \<open>The tabulated distances\<close>

text \<open>A table whose chunks cut the dimensions into consecutive pieces.\<close>

definition table_wf :: "pq_table \<Rightarrow> bool" where
  "table_wf t \<longleftrightarrow> length (pt_chunk_offsets t) = pt_n_chunks t + 1 \<and> pt_chunk_offsets t ! 0 = 0 \<and>
     unat (pt_chunk_offsets t ! pt_n_chunks t) = pt_ndims t \<and>
     (\<forall>c < pt_n_chunks t. unat (pt_chunk_offsets t ! c) \<le> unat (pt_chunk_offsets t ! (c + 1))) \<and>
     length (pt_centroid t) = pt_ndims t \<and> length (pt_tables_tr t) = pt_ndims t * NUM_PQ_CENTROIDS"

definition dims_of :: "pq_table \<Rightarrow> nat \<Rightarrow> nat list" where
  "dims_of t c = [unat (pt_chunk_offsets t ! c)..<unat (pt_chunk_offsets t ! (c + 1))]"

definition center_at :: "pq_table \<Rightarrow> nat \<Rightarrow> nat \<Rightarrow> u32" where
  "center_at t j i = pt_tables_tr t ! (j * NUM_PQ_CENTROIDS + i)"

lemma chunk_dims_ok: "table_wf t \<Longrightarrow> c < pt_n_chunks t \<Longrightarrow> chunk_dims t c = Inr (dims_of t c)"
  by (simp add: table_wf_def chunk_dims_def dims_of_def)

lemma dims_below:
  assumes "table_wf t" and "j \<in> set (dims_of t c)" and "c < pt_n_chunks t"
  shows "j < pt_ndims t"
proof -
  have "unat (pt_chunk_offsets t ! (c + 1)) \<le> unat (pt_chunk_offsets t ! n)" if "c + 1 \<le> n" "n \<le> pt_n_chunks t" for n
    using that assms(1) by (induction n rule: dec_induct) (auto simp: table_wf_def intro: order_trans)
  from this [of "pt_n_chunks t"] show ?thesis using assms by (simp add: table_wf_def dims_of_def)
qed

lemma center_dim_ok:
  assumes "table_wf t" and "j < pt_ndims t" and "i < NUM_PQ_CENTROIDS"
  shows "center_dim t j i = Inr (center_at t j i)"
proof -
  have "j * NUM_PQ_CENTROIDS + i < Suc j * NUM_PQ_CENTROIDS" using assms(3) by simp
  also have "\<dots> \<le> pt_ndims t * NUM_PQ_CENTROIDS" using assms(2) by (intro mult_le_mono1) simp
  finally show ?thesis using assms(1) by (simp add: center_dim_def center_at_def table_wf_def)
qed

text \<open>An entry: the loop over the dimensions of the chunk, for one centre.\<close>

definition chunk_fold :: "(u32 \<Rightarrow> u32 \<Rightarrow> u32 \<Rightarrow> u32) \<Rightarrow> pq_table \<Rightarrow> u32 list \<Rightarrow> nat \<Rightarrow> nat \<Rightarrow> u32 \<Rightarrow> u32" where
  "chunk_fold upd t q c i x = foldl (\<lambda>x j. upd x (center_at t j i) (q ! j)) x (dims_of t c)"

lemma populate_ok:
  assumes wf: "table_wf t" and q: "pt_ndims t \<le> length q" and dv: "NUM_PQ_CENTROIDS * pt_n_chunks t \<le> length dv"
  shows "\<exists>dv'. populate upd t q dv = Inr dv' \<and> length dv' = length dv \<and>
    (\<forall>c < pt_n_chunks t. \<forall>i < NUM_PQ_CENTROIDS. dv' ! (c * NUM_PQ_CENTROIDS + i) = chunk_fold upd t q c i 0)"
proof -
  let ?N = NUM_PQ_CENTROIDS and ?m = "pt_n_chunks t"
  let ?h = "\<lambda>c i. chunk_fold upd t q c i"
  let ?start = "replicate (?N * ?m) 0 @ drop (?N * ?m) dv"
  have len: "length ?start = length dv" using dv by simp
  have inner: "populate_dim upd t q c j ys = Inr (upd_range (c * ?N) ?N (\<lambda>i x. upd x (center_at t j i) (q ! j)) ys)"
    if "c < ?m" "j \<in> set (dims_of t c)" "length ys = length dv" for c j ys
    unfolding populate_dim_def
  proof (rule rfold_update)
    have "c * ?N + ?N \<le> Suc c * ?N" by simp
    also have "\<dots> \<le> ?m * ?N" using that(1) by (intro mult_le_mono1) simp
    finally show fits: "c * ?N + ?N \<le> length ys" using dv that(3) by (simp add: mult.commute)
    fix i and zs :: "u32 list" assume "i < ?N" and "length zs = length ys"
    then show "rbind (rget zs (c * ?N + i)) (\<lambda>x. rbind (center_dim t j i) (\<lambda>a. rbind (rget q j) (\<lambda>b.
      rput zs (c * ?N + i) (upd x a b)))) = Inr (zs[c * ?N + i := upd (zs ! (c * ?N + i)) (center_at t j i) (q ! j)])"
      using fits dims_below [OF wf that(2,1)] q center_dim_ok [OF wf] by simp
  qed
  have "populate upd t q dv = Inr (upd_range 0 (?m * ?N) (\<lambda>k. ?h (k div ?N) (k mod ?N)) ?start)"
    unfolding populate_def using dv
  proof (simp, intro rfold_blocks)
    fix c and ys :: "u32 list" assume c: "c < ?m" and ys: "length ys = length ?start"
    show "rbind (chunk_dims t c) (\<lambda>js. rfold (populate_dim upd t q c) js ys) = Inr (upd_range (c * ?N) ?N (?h c) ys)"
      unfolding chunk_dims_ok [OF wf c] rbind_Inr chunk_fold_def using ys len
      by (intro rfold_ranges inner c) simp_all
  qed (simp add: mult.commute)
  moreover have "c * ?N + i < ?m * ?N \<and> c * ?N + i < length dv \<and> ?start ! (c * ?N + i) = 0" if "c < ?m" "i < ?N" for c i
  proof -
    have "c * ?N + i < Suc c * ?N" using that(2) by simp
    also have "\<dots> \<le> ?m * ?N" using that(1) by (intro mult_le_mono1) simp
    finally have "c * ?N + i < ?m * ?N" .
    then show ?thesis using dv by (simp add: nth_append mult.commute)
  qed
  ultimately show ?thesis using len by (intro exI [of _ "upd_range 0 (?m * ?N) (\<lambda>k. ?h (k div ?N) (k mod ?N)) ?start"]) simp
qed

section \<open>Looking up\<close>

text \<open>A loop whose body never fails.\<close>

lemma rfold_foldl:
  assumes "\<And>x s. x \<in> set xs \<Longrightarrow> f x s = Inr (g s x)"
  shows "rfold f xs s = Inr (foldl g s xs)"
  using assms by (induction xs arbitrary: s) simp_all

lemma lookup_index:
  assumes "c < m" and "NUM_PQ_CENTROIDS * m \<le> length dv"
  shows "NUM_PQ_CENTROIDS * c + unat (b :: byte) < length dv"
proof -
  have "unat b < NUM_PQ_CENTROIDS" using unsigned_less [of b, where 'a = nat] by (simp add: NUM_PQ_CENTROIDS_def)
  then have "NUM_PQ_CENTROIDS * c + unat b < NUM_PQ_CENTROIDS * Suc c" by simp
  also have "\<dots> \<le> NUM_PQ_CENTROIDS * m" using assms(1) by (intro mult_le_mono2) simp
  finally show ?thesis using assms(2) by simp
qed

lemma lookup_single_ok:
  assumes "off + m \<le> length ids" and "NUM_PQ_CENTROIDS * m \<le> length dv"
  shows "pq_dist_lookup_single ids off m dv =
    Inr (foldl (\<lambda>x c. fadd x (dv ! (NUM_PQ_CENTROIDS * c + unat (ids ! (off + c))))) 0 [0..<m])"
  unfolding pq_dist_lookup_single_def using assms(1) lookup_index [OF _ assms(2)] by (intro rfold_foldl) simp

lemma byte_center: "unat (b :: byte) < NUM_PQ_CENTROIDS"
  using unsigned_less [of b, where 'a = nat] by (simp add: NUM_PQ_CENTROIDS_def)

lemma sum_chunks_ok:
  assumes wf: "table_wf t" and "pt_ndims t \<le> length q" and "pt_n_chunks t \<le> length base"
  shows "sum_chunks upd t q base = Inr (foldl (\<lambda>x c. chunk_fold upd t q c (unat (base ! c)) x) 0 [0..<pt_n_chunks t])"
  unfolding sum_chunks_def
proof (rule rfold_foldl)
  fix c res assume "c \<in> set [0..<pt_n_chunks t]"
  then have c: "c < pt_n_chunks t" by simp
  show "rbind (chunk_dims t c) (\<lambda>js. rfold (\<lambda>j res. rbind (rget base c) (\<lambda>b. rbind (center_dim t j (unat b)) (\<lambda>c.
      rbind (rget q j) (\<lambda>q. Inr (upd res c q))))) js res) = Inr (chunk_fold upd t q c (unat (base ! c)) res)"
    unfolding chunk_dims_ok [OF wf c] rbind_Inr chunk_fold_def
    using assms(3) c dims_below [OF wf _ c] order_less_le_trans [OF _ assms(2)]
    by (intro rfold_foldl) (simp add: center_dim_ok [OF wf] byte_center)
qed

text \<open>The batched lookup works chunk by chunk, and gives for every vector what the single one gives.\<close>

lemma batch_lookup_ok:
  assumes "n * m \<le> length ids" and "NUM_PQ_CENTROIDS * m \<le> length dv"
  shows "pq_dist_lookup ids n m dv = rmap (\<lambda>i. pq_dist_lookup_single ids (m * i) m dv) [0..<n]"
proof -
  let ?d = "\<lambda>i c. dv ! (NUM_PQ_CENTROIDS * c + unat (ids ! (m * i + c)))"
  have fits: "m * i + c < length ids" if "i < n" "c < m" for i c
  proof -
    have "m * i + c < m * Suc i" using that(2) by simp
    also have "\<dots> \<le> m * n" using that(1) by (intro mult_le_mono2) simp
    finally show ?thesis using assms(1) by (simp add: mult.commute)
  qed
  have "pq_dist_lookup ids n m dv = Inr (upd_range 0 n (\<lambda>i x. foldl (\<lambda>x c. fadd x (?d i c)) x [0..<m]) (replicate n 0))"
    unfolding pq_dist_lookup_def
  proof (rule rfold_ranges, rule rfold_update)
    fix c i and ys zs :: "u32 list"
    assume "c \<in> set [0..<m]" "length ys = length (replicate n (0 :: u32))" "i < n" "length zs = length ys"
    then show "rbind (rget zs i) (\<lambda>x. rbind (rget ids (m * i + c)) (\<lambda>b. rbind (rget dv (c * 256 + unat b)) (\<lambda>d. rput zs i (fadd x d))))
        = Inr (zs[0 + i := fadd (zs ! (0 + i)) (?d i c)])"
      using fits [of i c] lookup_index [OF _ assms(2), of c] by (simp add: NUM_PQ_CENTROIDS_def mult.commute)
  qed simp
  moreover have "upd_range 0 n (\<lambda>i x. foldl (\<lambda>x c. fadd x (?d i c)) x [0..<m]) (replicate n 0) = map (\<lambda>i. foldl (\<lambda>x c. fadd x (?d i c)) 0 [0..<m]) [0..<n]"
    by (intro nth_equalityI) simp_all
  moreover have "pq_dist_lookup_single ids (m * i) m dv = Inr (foldl (\<lambda>x c. fadd x (?d i c)) 0 [0..<m])" if "i < n" for i
  proof (rule lookup_single_ok [OF _ assms(2)])
    have "m * i + m = Suc i * m" by simp
    also have "\<dots> \<le> n * m" using that by (intro mult_le_mono1) simp
    finally show "m * i + m \<le> length ids" using assms(1) by simp
  qed
  then have "rmap (\<lambda>i. pq_dist_lookup_single ids (m * i) m dv) [0..<n] = Inr (map (\<lambda>i. foldl (\<lambda>x c. fadd x (?d i c)) 0 [0..<m]) [0..<n])"
    by (intro rmap_pure) simp
  ultimately show ?thesis by simp
qed

section \<open>Exactness\<close>

lemma foldl_exact:
  assumes "\<And>j x X. j \<in> set js \<Longrightarrow> fint x X \<Longrightarrow> \<bar>X\<bar> + \<bar>T j\<bar> \<le> 2 ^ 24 \<Longrightarrow> fint (f x j) (X + T j)"
    and "fint x X" and "\<bar>X\<bar> + (\<Sum>j\<leftarrow>js. \<bar>T j\<bar>) \<le> 2 ^ 24"
  shows "fint (foldl f x js) (X + (\<Sum>j\<leftarrow>js. T j))"
  using assms
proof (induction js arbitrary: x X)
  case (Cons j js)
  have pos: "0 \<le> (\<Sum>j\<leftarrow>js. \<bar>T j\<bar>)" by (rule sum_list_nonneg) auto
  have "fint (f x j) (X + T j)" using Cons.prems pos by (intro Cons.prems(1)) auto
  moreover have "\<bar>X + T j\<bar> + (\<Sum>j\<leftarrow>js. \<bar>T j\<bar>) \<le> 2 ^ 24" using Cons.prems(3) by simp
  ultimately have "fint (foldl f (f x j) js) (X + T j + (\<Sum>j\<leftarrow>js. T j))" using Cons.prems(1) by (intro Cons.IH) auto
  then show ?case by (simp add: add.assoc)
qed simp

text \<open>The places of a compressed vector: every dimension, with the centre that stands for it.\<close>

definition pq_places :: "pq_table \<Rightarrow> byte list \<Rightarrow> (nat \<times> nat) list" where
  "pq_places t code = concat (map (\<lambda>c. map (\<lambda>j. (j, unat (code ! c))) (dims_of t c)) [0..<pt_n_chunks t])"

lemma pq_places_dims:
  assumes "table_wf t"
  shows "map fst (pq_places t code) = [0..<pt_ndims t]"
proof -
  have "concat (map (dims_of t) [0..<c]) = [0..<unat (pt_chunk_offsets t ! c)]" if "c \<le> pt_n_chunks t" for c
    using that
  proof (induction c)
    case (Suc c)
    then have "unat (pt_chunk_offsets t ! c) \<le> unat (pt_chunk_offsets t ! Suc c)" using assms by (auto simp: table_wf_def)
    then show ?case using Suc upt_add_eq_append [of 0 "unat (pt_chunk_offsets t ! c)" "unat (pt_chunk_offsets t ! Suc c) - unat (pt_chunk_offsets t ! c)"]
      by (simp add: dims_of_def)
  qed (use assms in \<open>simp add: table_wf_def\<close>)
  from this [of "pt_n_chunks t"] show ?thesis
    using assms by (simp add: pq_places_def map_concat comp_def table_wf_def)
qed

text \<open>\<open>C\<close> and \<open>Q\<close> are the integers in the table and the query; \<open>T\<close> is what is added up for a place.\<close>

definition upd_exact :: "(u32 \<Rightarrow> u32 \<Rightarrow> u32 \<Rightarrow> u32) \<Rightarrow> (int \<Rightarrow> int \<Rightarrow> int) \<Rightarrow> bool" where
  "upd_exact upd T \<longleftrightarrow> (\<forall>x X c C q Q. fint x X \<longrightarrow> fint c C \<longrightarrow> fint q Q \<longrightarrow> \<bar>X\<bar> + \<bar>T C Q\<bar> \<le> 2 ^ 24 \<longrightarrow> fint (upd x c q) (X + T C Q))"

definition ints_ok :: "pq_table \<Rightarrow> u32 list \<Rightarrow> (nat \<Rightarrow> nat \<Rightarrow> int) \<Rightarrow> (nat \<Rightarrow> int) \<Rightarrow> bool" where
  "ints_ok t q C Q \<longleftrightarrow> (\<forall>j < pt_ndims t. fint (q ! j) (Q j) \<and> (\<forall>i < NUM_PQ_CENTROIDS. fint (center_at t j i) (C j i)))"

lemma chunk_fold_exact:
  assumes "table_wf t" and "upd_exact upd T" and "ints_ok t q C Q" and "c < pt_n_chunks t" and "i < NUM_PQ_CENTROIDS"
    and "fint x X" and "\<bar>X\<bar> + (\<Sum>j\<leftarrow>dims_of t c. \<bar>T (C j i) (Q j)\<bar>) \<le> 2 ^ 24"
  shows "fint (chunk_fold upd t q c i x) (X + (\<Sum>j\<leftarrow>dims_of t c. T (C j i) (Q j)))"
  unfolding chunk_fold_def
  by (rule foldl_exact [OF _ assms(6,7)])
    (use assms(2-5) dims_below [OF assms(1) _ assms(4)] in \<open>auto simp: upd_exact_def ints_ok_def\<close>)

lemma sum_list_concat: "sum_list (concat xss) = (\<Sum>xs\<leftarrow>xss. sum_list xs :: int)"
  by (induction xss) simp_all

lemma sum_places: "(\<Sum>(j, i)\<leftarrow>pq_places t code. f j i :: int) = (\<Sum>c\<leftarrow>[0..<pt_n_chunks t]. \<Sum>j\<leftarrow>dims_of t c. f j (unat (code ! c)))"
  by (simp add: pq_places_def map_concat comp_def sum_list_concat case_prod_unfold)

lemma sum_list_abs_le: "\<bar>\<Sum>j\<leftarrow>js. T j :: int\<bar> \<le> (\<Sum>j\<leftarrow>js. \<bar>T j\<bar>)"
  by (induction js) (auto intro: order_trans [OF abs_triangle_ineq])

lemma sum_chunks_exact:
  assumes wf: "table_wf t" and upd: "upd_exact upd T" and ints: "ints_ok t q C Q" and "pt_ndims t \<le> length q" and "pt_n_chunks t \<le> length code"
    and bound: "(\<Sum>(j, i)\<leftarrow>pq_places t code. \<bar>T (C j i) (Q j)\<bar>) \<le> 2 ^ 24"
  shows "\<exists>d. sum_chunks upd t q code = Inr d \<and> fint d (\<Sum>(j, i)\<leftarrow>pq_places t code. T (C j i) (Q j))"
proof -
  let ?T = "\<lambda>c. \<Sum>j\<leftarrow>dims_of t c. T (C j (unat (code ! c))) (Q j)" and ?A = "\<lambda>c. \<Sum>j\<leftarrow>dims_of t c. \<bar>T (C j (unat (code ! c))) (Q j)\<bar>"
  have "fint (foldl (\<lambda>x c. chunk_fold upd t q c (unat (code ! c)) x) 0 cs) (\<Sum>c\<leftarrow>cs. ?T c)"
    if "set cs \<subseteq> {..<pt_n_chunks t}" "(\<Sum>c\<leftarrow>cs. ?A c) \<le> 2 ^ 24" for cs
    using that
  proof (induction cs rule: rev_induct)
    case (snoc c cs)
    have "0 \<le> ?A c" by (rule sum_list_nonneg) auto
    then have IH: "fint (foldl (\<lambda>x c. chunk_fold upd t q c (unat (code ! c)) x) 0 cs) (\<Sum>c\<leftarrow>cs. ?T c)"
      using snoc.prems by (intro snoc.IH) auto
    have "\<bar>\<Sum>c\<leftarrow>cs. ?T c\<bar> \<le> (\<Sum>c\<leftarrow>cs. ?A c)"
      by (rule order_trans [OF sum_list_abs_le sum_list_mono]) (rule sum_list_abs_le)
    then have "\<bar>\<Sum>c\<leftarrow>cs. ?T c\<bar> + ?A c \<le> 2 ^ 24" using snoc.prems(2) by simp
    from chunk_fold_exact [OF wf upd ints _ byte_center IH this] snoc.prems(1) show ?case by simp
  qed simp
  from this [of "[0..<pt_n_chunks t]"] bound show ?thesis
    unfolding sum_chunks_ok [OF wf assms(4,5)] sum_places by (simp add: atLeast0LessThan)
qed

text \<open>Looking up adds the sums of the chunks.\<close>

lemma lookup_exact_of:
  assumes wf: "table_wf t" and upd: "upd_exact upd T" and ints: "ints_ok t q C Q"
    and dv: "NUM_PQ_CENTROIDS * pt_n_chunks t \<le> length dv"
      "\<And>c i. c < pt_n_chunks t \<Longrightarrow> i < NUM_PQ_CENTROIDS \<Longrightarrow> dv ! (c * NUM_PQ_CENTROIDS + i) = chunk_fold upd t q c i 0"
    and "off + pt_n_chunks t \<le> length ids" and code: "code = slice ids off (pt_n_chunks t)"
    and bound: "(\<Sum>(j, i)\<leftarrow>pq_places t code. \<bar>T (C j i) (Q j)\<bar>) \<le> 2 ^ 24"
  shows "\<exists>d. pq_dist_lookup_single ids off (pt_n_chunks t) dv = Inr d \<and> fint d (\<Sum>(j, i)\<leftarrow>pq_places t code. T (C j i) (Q j))"
proof -
  let ?m = "pt_n_chunks t" and ?T = "\<lambda>c. \<Sum>j\<leftarrow>dims_of t c. T (C j (unat (code ! c))) (Q j)"
  let ?A = "\<lambda>c. \<Sum>j\<leftarrow>dims_of t c. \<bar>T (C j (unat (code ! c))) (Q j)\<bar>" and ?d = "\<lambda>c. dv ! (NUM_PQ_CENTROIDS * c + unat (ids ! (off + c)))"
  have all: "(\<Sum>c\<leftarrow>[0..<?m]. ?A c) \<le> 2 ^ 24" using bound unfolding sum_places .
  have d: "fint (?d c) (?T c)" if c: "c < ?m" for c
  proof -
    have "?A c \<le> (\<Sum>c\<leftarrow>[0..<?m]. ?A c)" using c by (intro member_le_sum_list) (auto intro!: sum_list_nonneg)
    then have "\<bar>0\<bar> + ?A c \<le> 2 ^ 24" using all by simp
    moreover have "ids ! (off + c) = code ! c" using c assms(6) by (simp add: code slice_def)
    ultimately show ?thesis
      using chunk_fold_exact [OF wf upd ints c byte_center [of "code ! c"] fint_zero] dv(2) [OF c byte_center] by (simp add: mult.commute)
  qed
  have "(\<Sum>c\<leftarrow>[0..<?m]. \<bar>?T c\<bar>) \<le> (\<Sum>c\<leftarrow>[0..<?m]. ?A c)" by (rule sum_list_mono) (rule sum_list_abs_le)
  then have "fint (foldl (\<lambda>x c. fadd x (?d c)) 0 [0..<?m]) (0 + (\<Sum>c\<leftarrow>[0..<?m]. ?T c))"
    using all d by (intro foldl_exact fint_add fint_zero) auto
  then show ?thesis using lookup_single_ok [OF assms(6), of dv] dv(1) unfolding sum_places by simp
qed

section \<open>The two distances\<close>

lemma abs_diff_bound: "\<bar>(x - y)\<^sup>2\<bar> \<le> (2 :: int) ^ 24 \<Longrightarrow> \<bar>x - y\<bar> \<le> 2 ^ 24"
  using square_ge_abs [of "x - y"] by simp

lemma upd_exact_l2: "upd_exact l2_upd (\<lambda>C Q. (C - Q)\<^sup>2)"
proof -
  have "fint (l2_upd x c q) (X + (C - Q)\<^sup>2)"
    if "fint x X" "fint c C" "fint q Q" and b: "\<bar>X\<bar> + \<bar>(C - Q)\<^sup>2\<bar> \<le> 2 ^ 24" for x X c C q Q
  proof -
    have d: "\<bar>(C - Q)\<^sup>2\<bar> \<le> 2 ^ 24" "\<bar>C - Q\<bar> \<le> 2 ^ 24" using b abs_diff_bound [of C Q] by linarith+
    then have "dint (f2d (fsub c q)) (C - Q)" using that by (intro dint_f2d fint_sub) simp_all
    then have "fint (d2f (dmul (f2d (fsub c q)) (f2d (fsub c q)))) ((C - Q)\<^sup>2)"
      unfolding power2_eq_square using d(1) by (intro fint_d2f dint_mul) (simp_all add: power2_eq_square)
    then show ?thesis using that(1) b unfolding l2_upd_def Let_def by (intro fint_add) linarith+
  qed
  then show ?thesis by (simp add: upd_exact_def Let_def)
qed

lemma upd_exact_l2_plain: "upd_exact (\<lambda>res c q. let diff = fsub c q in fadd res (fmul diff diff)) (\<lambda>C Q. (C - Q)\<^sup>2)"
proof -
  have "fint (fadd x (fmul (fsub c q) (fsub c q))) (X + (C - Q)\<^sup>2)"
    if "fint x X" "fint c C" "fint q Q" and b: "\<bar>X\<bar> + \<bar>(C - Q)\<^sup>2\<bar> \<le> 2 ^ 24" for x X c C q Q
  proof -
    have d: "\<bar>(C - Q)\<^sup>2\<bar> \<le> 2 ^ 24" "\<bar>C - Q\<bar> \<le> 2 ^ 24" using b abs_diff_bound [of C Q] by linarith+
    then have "fint (fmul (fsub c q) (fsub c q)) ((C - Q)\<^sup>2)"
      unfolding power2_eq_square using that d(1) by (intro fint_mul fint_sub) (simp_all add: power2_eq_square)
    then show ?thesis using that(1) b by (intro fint_add) linarith+
  qed
  then show ?thesis by (simp add: upd_exact_def Let_def)
qed

lemma upd_exact_ip: "upd_exact ip_upd (\<lambda>C Q. - (C * Q))"
proof -
  have "fint (ip_upd x c q) (X - C * Q)"
    if "fint x X" "fint c C" "fint q Q" and b: "\<bar>X\<bar> + \<bar>C * Q\<bar> \<le> 2 ^ 24" for x X c C q Q
  proof -
    have "\<bar>C * Q\<bar> \<le> 2 ^ 24" using b by linarith
    then have "fint (d2f (f2d (fmul c q))) (C * Q)" using that by (intro fint_d2f dint_f2d fint_mul) simp_all
    then show ?thesis using that(1) b unfolding ip_upd_def Let_def by (intro fint_sub) linarith+
  qed
  then show ?thesis by (simp add: upd_exact_def Let_def)
qed

lemma upd_exact_ip_plain: "upd_exact (\<lambda>res c q. let diff = fmul c q in fadd res diff) (\<lambda>C Q. C * Q)"
proof -
  have "fint (fadd x (fmul c q)) (X + C * Q)"
    if "fint x X" "fint c C" "fint q Q" and b: "\<bar>X\<bar> + \<bar>C * Q\<bar> \<le> 2 ^ 24" for x X c C q Q
  proof -
    have "\<bar>C * Q\<bar> \<le> 2 ^ 24" using b by linarith
    then show ?thesis using that by (intro fint_add fint_mul) linarith+
  qed
  then show ?thesis by (simp add: upd_exact_def Let_def)
qed

lemma neg_sum_places: "(\<Sum>(j, i)\<leftarrow>ps. - f j i :: int) = - (\<Sum>(j, i)\<leftarrow>ps. f j i)"
  by (induction ps) auto

text \<open>
  C36: on integers that fit 24 bits, tabulating a query and looking a compressed vector up gives exactly the squared
  distance (or the negated inner product) of the query to the vector of centres that the code stands for; so
  does the direct computation, and the batched lookup gives what the single ones give.
\<close>

theorem lookup_exact:
  assumes "table_wf t" and "ints_ok t q C Q" and "pt_ndims t \<le> length q" and "NUM_PQ_CENTROIDS * pt_n_chunks t \<le> length dv"
    and "off + pt_n_chunks t \<le> length ids" and "code = slice ids off (pt_n_chunks t)"
    and "(\<Sum>(j, i)\<leftarrow>pq_places t code. (C j i - Q j)\<^sup>2) \<le> 2 ^ 24" and "(\<Sum>(j, i)\<leftarrow>pq_places t code. \<bar>C j i * Q j\<bar>) \<le> 2 ^ 24"
  shows "map fst (pq_places t code) = [0..<pt_ndims t] \<and>
    (\<exists>dl d d'. populate_chunk_distances t q dv = Inr dl \<and> pq_dist_lookup_single ids off (pt_n_chunks t) dl = Inr d \<and>
       l2_distance t q code = Inr d' \<and> fint d (\<Sum>(j, i)\<leftarrow>pq_places t code. (C j i - Q j)\<^sup>2) \<and>
       fint d' (\<Sum>(j, i)\<leftarrow>pq_places t code. (C j i - Q j)\<^sup>2) \<and>
       (\<forall>n. n * pt_n_chunks t \<le> length ids \<longrightarrow>
          pq_dist_lookup ids n (pt_n_chunks t) dl = rmap (\<lambda>i. pq_dist_lookup_single ids (pt_n_chunks t * i) (pt_n_chunks t) dl) [0..<n])) \<and>
    (\<exists>di p p'. populate_chunk_inner_products t q dv = Inr di \<and> pq_dist_lookup_single ids off (pt_n_chunks t) di = Inr p \<and>
       inner_product t q code = Inr p' \<and> fint p (- (\<Sum>(j, i)\<leftarrow>pq_places t code. C j i * Q j)) \<and>
       fint p' (- (\<Sum>(j, i)\<leftarrow>pq_places t code. C j i * Q j)))"
proof -
  let ?L = "\<Sum>(j, i)\<leftarrow>pq_places t code. (C j i - Q j)\<^sup>2" and ?P = "\<Sum>(j, i)\<leftarrow>pq_places t code. C j i * Q j"
  have code: "pt_n_chunks t \<le> length code" using assms(5,6) by simp
  have "\<bar>?P\<bar> \<le> 2 ^ 24" using sum_list_abs_le [of "\<lambda>(j, i). C j i * Q j" "pq_places t code"] assms(8) by (simp add: case_prod_unfold)
  obtain dl where dl: "populate_chunk_distances t q dv = Inr dl" "length dl = length dv"
      "\<And>c i. c < pt_n_chunks t \<Longrightarrow> i < NUM_PQ_CENTROIDS \<Longrightarrow> dl ! (c * NUM_PQ_CENTROIDS + i) = chunk_fold l2_upd t q c i 0"
    using populate_ok [OF assms(1,3,4)] unfolding populate_chunk_distances_def by blast
  obtain d where d: "pq_dist_lookup_single ids off (pt_n_chunks t) dl = Inr d" "fint d ?L"
    using lookup_exact_of [OF assms(1) upd_exact_l2 assms(2) _ dl(3) assms(5,6)] assms(4,7) dl(2) by auto
  obtain d' where d': "l2_distance t q code = Inr d'" "fint d' ?L"
    using sum_chunks_exact [OF assms(1) upd_exact_l2_plain assms(2,3) code] assms(7) unfolding l2_distance_def by auto
  obtain di where di: "populate_chunk_inner_products t q dv = Inr di" "length di = length dv"
      "\<And>c i. c < pt_n_chunks t \<Longrightarrow> i < NUM_PQ_CENTROIDS \<Longrightarrow> di ! (c * NUM_PQ_CENTROIDS + i) = chunk_fold ip_upd t q c i 0"
    using populate_ok [OF assms(1,3,4)] unfolding populate_chunk_inner_products_def by blast
  obtain p where p: "pq_dist_lookup_single ids off (pt_n_chunks t) di = Inr p" "fint p (- ?P)"
    using lookup_exact_of [OF assms(1) upd_exact_ip assms(2) _ di(3) assms(5,6)] assms(4,8) di(2) by (auto simp: neg_sum_places)
  obtain p' where p': "inner_product t q code = Inr p'" "fint p' (- ?P)"
    using sum_chunks_exact [OF assms(1) upd_exact_ip_plain assms(2,3) code assms(8)] fint_neg \<open>\<bar>?P\<bar> \<le> 2 ^ 24\<close>
    unfolding inner_product_def by auto
  have "\<forall>n. n * pt_n_chunks t \<le> length ids \<longrightarrow>
      pq_dist_lookup ids n (pt_n_chunks t) dl = rmap (\<lambda>i. pq_dist_lookup_single ids (pt_n_chunks t * i) (pt_n_chunks t) dl) [0..<n]"
    using batch_lookup_ok assms(4) dl(2) by simp
  with dl(1) d d' di(1) p p' pq_places_dims [OF assms(1)] show ?thesis by blast
qed

definition tiny_table :: pq_table where
  "tiny_table = \<lparr>pt_tables = replicate 512 0x3F800000, pt_ndims = 2, pt_n_chunks = 2, pt_chunk_offsets = [0, 1, 2],
     pt_centroid = [0, 0], pt_tables_tr = replicate 512 0x3F800000\<rparr>"

theorem lookup_exact_witness:
  "\<exists>dl d. populate_chunk_distances tiny_table [0x40400000, 0x3F800000] (replicate 512 0) = Inr dl \<and>
    pq_dist_lookup_single [0, 7, 9] 1 2 dl = Inr d \<and> fint d 4"
proof -
  have fints: "fint 0x40400000 3" "fint 0x3F800000 1"
    by (auto simp: fint_def fl_is_def dec32_def fl_decode_def f32_def Let_def f_unit_def)
  have sel: "pt_n_chunks tiny_table = 2" "pt_ndims tiny_table = 2" by (simp_all add: tiny_table_def)
  have wf: "table_wf tiny_table" by (auto simp: table_wf_def tiny_table_def NUM_PQ_CENTROIDS_def less_2_cases_iff)
  have ints: "ints_ok tiny_table [0x40400000, 0x3F800000] (\<lambda>_ _. 1) (\<lambda>j. if j = 0 then 3 else 1)"
    using fints by (auto simp: ints_ok_def tiny_table_def center_at_def NUM_PQ_CENTROIDS_def less_2_cases_iff)
  have upts: "[0..<2] = [0, 1 :: nat]" "[Suc 0..<2] = [1]" by (simp_all add: numeral_2_eq_2)
  have places: "pq_places tiny_table (slice [0, 7, 9] 1 2) = [(0, 7), (1, 9)]"
    using upts by (simp add: pq_places_def dims_of_def tiny_table_def slice_def)
  show ?thesis
    using lookup_exact [OF wf ints, of "replicate 512 0" 1 "[0, 7, 9]", OF _ _ _ refl] unfolding sel places
    by (auto simp: NUM_PQ_CENTROIDS_def)
qed

end
