(* ===== verification/PqPivots.thy ===== *)
theory PqPivots
  imports PqDealing PqLookup
begin

text \<open>
  The file that \<open>generate_pq_pivots\<close> writes is a table with the centres of the clustering, chunk by chunk, as
  \<open>load_pq_centroid_bin\<close> reads it.
\<close>

section \<open>Shapes\<close>

lemma rfold_keeps:
  assumes "rfold f xs s = Inr s'" and "P s" and "\<And>x s s'. x \<in> set xs \<Longrightarrow> P s \<Longrightarrow> f x s = Inr s' \<Longrightarrow> P s'"
  shows "P s'"
  using assms by (induction xs arbitrary: s) (auto simp: rbind_eq_Inr)

lemma rslice_eq_Inr [result_simps]: "rslice xs i n = Inr ys \<longleftrightarrow> i + n \<le> length xs \<and> ys = slice xs i n"
  by (auto simp: rslice_def)

lemma length_replace: "a + length row \<le> length xs \<Longrightarrow> length (take a xs @ row @ drop (a + length row) xs) = length xs"
  by simp

lemma kpp_loop_length: "kpp_loop darts np sf picked data n dim piv nc dist = Inr p \<Longrightarrow> length p = length piv"
proof (induction darts arbitrary: np sf picked piv dist)
  case Nil
  then show ?case by (subst (asm) kpp_loop.simps) (simp split: if_splits)
next
  case (Cons dart darts)
  show ?case
  proof (cases "np < nc")
    case True
    define sm where "sm = foldl (\<lambda>s d. dadd s (f2d d)) 0 dist"
    define tmp where "tmp = throw_dart (dmul dart sm) 0 0 dist"
    define sf1 where "sf1 = (sf \<or> dle sm 0 \<and> dle 0 sm)"
    have run: "(if tmp \<in> set picked \<and> \<not> sf1 then kpp_loop darts np sf1 picked data n dim piv nc dist
       else rbind (rslice data (tmp * dim) dim) (\<lambda>row. rbind (require (np * dim + dim \<le> length piv) Out_Of_Bounds) (\<lambda>_.
         rbind (rmap (\<lambda>i. rbind (rget dist i) (closer_dist data dim tmp i)) [0..<n]) (\<lambda>dist.
         kpp_loop darts (np + 1) sf1 (picked @ [tmp]) data n dim (take (np * dim) piv @ row @ drop (np * dim + dim) piv) nc dist)))) = Inr p"
      using Cons.prems True unfolding sm_def tmp_def sf1_def by (subst (asm) kpp_loop.simps) (simp only: list.case Let_def if_True)
    show ?thesis
    proof (cases "tmp \<in> set picked \<and> \<not> sf1")
      case True
      then show ?thesis using run Cons.IH by simp
    next
      case False
      then obtain row dist1 where "np * dim + dim \<le> length piv" "row = slice data (tmp * dim) dim" "tmp * dim + dim \<le> length data"
        "kpp_loop darts (np + 1) sf1 (picked @ [tmp]) data n dim (take (np * dim) piv @ row @ drop (np * dim + dim) piv) nc dist1 = Inr p"
        using run by (simp only: if_False rbind_eq_Inr require_eq_Inr rslice_eq_Inr) blast
      from Cons.IH [OF this(4)] this(1-3) show ?thesis by simp
    qed
  qed (use Cons.prems in \<open>subst (asm) kpp_loop.simps, simp\<close>)
qed

lemma selecting_pivots_length:
  assumes "selecting_pivots rn data n dim piv nc = Inr p"
  shows "length p = length piv"
proof -
  obtain picked where run: "rfold (\<lambda>j (picked, piv). let tmp_pivot = rn_picks rn j in
       if tmp_pivot \<in> set picked then Inr (picked, piv)
       else rbind (rslice data (tmp_pivot * dim) dim) (\<lambda>row. rbind (require (j * dim + dim \<le> length piv) Out_Of_Bounds) (\<lambda>_.
         Inr (picked @ [tmp_pivot], take (j * dim) piv @ row @ drop (j * dim + dim) piv)))) [0..<nc] ([], piv) = Inr (picked, p)"
    using assms by (auto simp: selecting_pivots_def result_simps)
  have "length (snd (picked, p)) = length piv"
    by (rule rfold_keeps [OF run, of "\<lambda>(_, q). length q = length piv", simplified case_prod_unfold])
      (auto simp: Let_def result_simps min_absorb2 split: if_splits)
  then show ?thesis by simp
qed

lemma kmeanspp_length: "kmeanspp_selecting_pivots rn data n dim piv nc = Inr p \<Longrightarrow> length p = length piv"
  by (auto simp: kmeanspp_selecting_pivots_def Let_def result_simps selecting_pivots_length dest!: kpp_loop_length split: if_splits)

lemma compute_closest_length:
  assumes "compute_closest_centers mk fresh data n dim piv nc ivf iv norms = Inr (ivf', iv1)"
  shows "length iv1 = length iv"
proof (cases "nc < 1")
  case False
  then obtain cc where run: "rfold (\<lambda>j (ivf, iv). rbind (rget cc j) (\<lambda>c. rbind (rput ivf j c) (\<lambda>ivf.
          if iv = [] then Inr (ivf, iv)
          else rbind (rget iv (unat c)) (\<lambda>docs. rbind (rput iv (unat c) (docs @ [j])) (\<lambda>iv. Inr (ivf, iv))))))
          [0..<n] (ivf, iv) = Inr (ivf', iv1)"
    using assms by (auto simp: compute_closest_centers_def result_simps)
  have "length (snd (ivf', iv1)) = length iv"
    by (rule rfold_keeps [OF run, of "\<lambda>(_, q). length q = length iv", simplified case_prod_unfold])
      (auto simp: result_simps split: if_splits)
  then show ?thesis by simp
qed (use assms in \<open>simp add: compute_closest_centers_def\<close>)

lemma new_center_length: "new_center data dim docs = Inr c \<Longrightarrow> length c = dim"
proof -
  assume "new_center data dim docs = Inr c"
  then obtain sums where sums: "cluster_sum data dim docs = Inr sums" and c: "length c = (if 0 < length docs then length sums else dim)"
    by (auto simp: new_center_def result_simps)
  have "length sums = dim" using sums unfolding cluster_sum_def
    by (rule rfold_keeps) (auto simp: result_simps)
  then show ?thesis using c by simp
qed

lemma lloyds_iter_length:
  assumes "lloyds_iter mk fresh data n dim centers nc docs cc = Inr (r, centers', cc')"
  shows "length centers' = nc * dim"
proof -
  obtain cd rows where "compute_closest_centers mk fresh data n dim centers nc cc (replicate nc []) (Some docs) = Inr (cc', cd)"
    and rows: "rmap (new_center data dim) cd = Inr rows" and centers': "centers' = concat rows"
    using assms by (auto simp: lloyds_iter_def result_simps Let_def)
  then have len: "length rows = nc" using compute_closest_length by (fastforce simp: rmap_eq_Inr)
  have "\<forall>row \<in> set rows. length row = dim"
    using rows new_center_length by (auto simp: rmap_eq_Inr in_set_conv_nth) metis
  then have "map length rows = replicate (length rows) dim" by (intro replicate_eqI [symmetric, THEN sym]) (auto simp: in_set_conv_nth)
  then show ?thesis by (simp add: centers' length_concat len sum_list_replicate)
qed

lemma lloyds_loop_length:
  "lloyds_loop reps first mk fresh data n dim nc docs r centers cc = Inr (r', centers', cc') \<Longrightarrow> length centers = nc * dim \<Longrightarrow> length centers' = nc * dim"
proof (induction reps arbitrary: first r centers cc)
  case (Suc reps)
  then obtain r1 c1 cc1 where it: "lloyds_iter mk fresh data n dim centers nc docs cc = Inr (r1, c1, cc1)"
    and rest: "(r', centers', cc') = (r1, c1, cc1) \<or> lloyds_loop reps False mk fresh data n dim nc docs r1 c1 cc1 = Inr (r', centers', cc')"
    by (auto simp: Let_def result_simps split: if_splits)
  from lloyds_iter_length [OF it] rest Suc.IH show ?case by auto
qed simp

lemma train_chunk_length:
  assumes "train_chunk mk fresh rn data n sz nc reps = Inr p"
  shows "length p = nc * sz"
proof -
  obtain piv where "kmeanspp_selecting_pivots rn data n sz (replicate (nc * sz) 0) nc = Inr piv"
    and "\<exists>r cc. run_lloyds mk fresh data n sz piv nc reps (replicate n 0) = Inr (r, p, cc)"
    using assms by (auto simp: train_chunk_def result_simps)
  then show ?thesis using kmeanspp_length lloyds_loop_length by (fastforce simp: run_lloyds_def result_simps)
qed

section \<open>The offsets\<close>

abbreviation chunk_dim_lists :: "nat \<Rightarrow> nat \<Rightarrow> nat list list" where
  "chunk_dim_lists dim n \<equiv> map (\<lambda>b. [chunk_off dim n b..<chunk_off dim n (Suc b)]) [0..<n]"

lemma offsets_of_ok:
  assumes "0 < n"
  shows "offsets_of (chunk_dim_lists dim n) dim = Inr (map (\<lambda>b. of_nat (chunk_off dim n b)) [0..<Suc n])"
proof -
  let ?bins = "chunk_dim_lists dim n" and ?off = "chunk_off dim n"
  let ?P = "\<lambda>bs offs. offs = map (\<lambda>b. of_nat (?off b) :: u32) [0..<max 1 (length bs)]"
  have "\<exists>offs. rfold (\<lambda>b offs. if 0 < b then rbind (rget offs (b - 1)) (\<lambda>x. Inr (offs @ [x + of_nat (length (?bins ! (b - 1)))])) else Inr offs)
      [0..<length ?bins] [0] = Inr offs \<and> ?P [0..<length ?bins] offs"
  proof (rule rfold_invariant)
    fix ys b zs offs assume split: "[0..<length ?bins] = ys @ b # zs" and P: "?P ys offs"
    have b: "b = length ys" "b < n" using upt_split [OF split] by simp_all
    show "\<exists>s. (if 0 < b then rbind (rget offs (b - 1)) (\<lambda>x. Inr (offs @ [x + of_nat (length (?bins ! (b - 1)))])) else Inr offs) = Inr s \<and> ?P (ys @ [b]) s"
    proof (cases b)
      case (Suc c)
      then have "of_nat (?off c) + of_nat (?off (Suc c) - ?off c) = (of_nat (?off (Suc c)) :: u32)"
        using chunk_off_mono [of c "Suc c" dim n] by (simp flip: of_nat_add)
      moreover have "length ys = Suc c" using b(1) Suc by simp
      ultimately show ?thesis using P b(2) Suc by (auto simp: max_def nth_append)
    qed (use P b in simp)
  qed simp
  then show ?thesis using assms chunk_off_last [OF assms, of dim] by (simp add: offsets_of_def max_def)
qed

section \<open>Columns in memory\<close>

lemma place_bound: "j < nc \<Longrightarrow> k \<le> dim \<Longrightarrow> j * dim + k \<le> nc * (dim :: nat)"
proof -
  assume "j < nc" "k \<le> dim"
  then have "j * dim + k \<le> Suc j * dim" by simp
  also have "\<dots> \<le> nc * dim" using \<open>j < nc\<close> by (intro mult_le_mono1) simp
  finally show ?thesis .
qed

lemma places_apart:
  assumes "i < j" and "a + m \<le> dim"
  shows "i * dim + a + m \<le> j * dim + (c :: nat)"
proof -
  have "i * dim + a + m \<le> Suc i * dim" using assms(2) by simp
  also have "\<dots> \<le> j * dim" using assms(1) by (intro mult_le_mono1) simp
  finally show ?thesis by simp
qed

lemma quadruple: "x + k \<le> y \<or> y + s \<le> x \<Longrightarrow> 4 * x + 4 * k \<le> 4 * y \<or> 4 * y + 4 * s \<le> 4 * (x :: nat)"
  by presburger

lemma store_columns_ok:
  assumes "length m = 4 * (nc * dim)" and "off + sz \<le> dim" and "length p = nc * sz"
  shows "\<exists>m1. store_columns m nc dim off sz p = Inr m1 \<and> length m1 = length m \<and>
    (\<forall>j < nc. slice m1 (4 * (j * dim + off)) (4 * sz) = bytes32s (slice p (j * sz) sz)) \<and>
    (\<forall>j < nc. \<forall>a k. (a + k \<le> off \<or> off + sz \<le> a) \<and> a + k \<le> dim \<longrightarrow> slice m1 (4 * (j * dim + a)) (4 * k) = slice m (4 * (j * dim + a)) (4 * k))"
proof -
  let ?P = "\<lambda>js m1. length m1 = length m \<and>
    (\<forall>j \<in> set js. slice m1 (4 * (j * dim + off)) (4 * sz) = bytes32s (slice p (j * sz) sz)) \<and>
    (\<forall>j < nc. \<forall>a k. (a + k \<le> off \<or> off + sz \<le> a) \<and> a + k \<le> dim \<longrightarrow> slice m1 (4 * (j * dim + a)) (4 * k) = slice m (4 * (j * dim + a)) (4 * k))"
  have "\<exists>m1. rfold (\<lambda>j m. rbind (rslice p (j * sz) sz) (\<lambda>row. store m (4 * (j * dim + off)) (bytes32s row))) [0..<nc] m = Inr m1 \<and> ?P [0..<nc] m1"
  proof (rule rfold_invariant)
    fix ys j zs m1 assume split: "[0..<nc] = ys @ j # zs" and P: "?P ys m1"
    have j: "j = length ys" "j < nc" using upt_split [OF split] by simp_all
    have ys: "i < j" if "i \<in> set ys" for i using upt_split_prefix [OF split] that j(1) by auto
    have row: "j * sz + sz \<le> length p" using row_bound [OF j(2), of sz] assms(3) by simp
    let ?row = "slice p (j * sz) sz"
    have len: "length (bytes32s ?row) = 4 * sz" using row by simp
    have "4 * (j * dim + off) + 4 * sz \<le> length m1" using place_bound [OF j(2) assms(2)] P assms(1) by simp
    then obtain m2 where m2: "store m1 (4 * (j * dim + off)) (bytes32s ?row) = Inr m2" unfolding store_def len by simp
    have other: "slice m2 (4 * (i * dim + a)) (4 * k) = slice m1 (4 * (i * dim + a)) (4 * k)"
      if "i \<noteq> j \<or> a + k \<le> off \<or> off + sz \<le> a" "a + k \<le> dim" for i a k
    proof (rule slice_store_other [OF m2], unfold len)
      have "i * dim + a + k \<le> j * dim + off \<or> j * dim + off + sz \<le> i * dim + a"
        using that places_apart [of i j a k dim off] places_apart [of j i off sz dim a] assms(2) by (cases i j rule: linorder_cases) auto
      then show "4 * (i * dim + a) + 4 * k \<le> 4 * (j * dim + off) \<or> 4 * (j * dim + off) + 4 * sz \<le> 4 * (i * dim + a)" by (rule quadruple)
    qed
    have "slice m2 (4 * (i * dim + off)) (4 * sz) = bytes32s (slice p (i * sz) sz)" if "i \<in> set (ys @ [j])" for i
    proof (cases "i = j")
      case True
      then show ?thesis using slice_store_same [OF m2] len by simp
    next
      case False
      then show ?thesis using other [of i off sz] assms(2) P that by auto
    qed
    moreover have "slice m2 (4 * (i * dim + a)) (4 * k) = slice m (4 * (i * dim + a)) (4 * k)"
      if "i < nc" "(a + k \<le> off \<or> off + sz \<le> a) \<and> a + k \<le> dim" for i a k
      using other [of i a k] that P by auto
    ultimately show "\<exists>s. rbind (rslice p (j * sz) sz) (\<lambda>row. store m1 (4 * (j * dim + off)) (bytes32s row)) = Inr s \<and> ?P (ys @ [j]) s"
      using m2 row P length_store [OF m2] by auto
  qed simp
  then show ?thesis by (auto simp: store_columns_def)
qed

end
