(* ===== verification/PqRoundtrip.thy ===== *)
theory PqRoundtrip
  imports PqPivots
begin

text \<open>From the training of product quantisation to the table that is loaded.\<close>

section \<open>The centres in memory\<close>

abbreviation chunk_size :: "nat \<Rightarrow> nat \<Rightarrow> nat \<Rightarrow> nat" where
  "chunk_size dim n i \<equiv> chunk_off dim n (Suc i) - chunk_off dim n i"

definition offset_words :: "nat \<Rightarrow> nat \<Rightarrow> u32 list" where
  "offset_words dim n = map (\<lambda>b. of_nat (chunk_off dim n b)) [0..<Suc n]"

lemma chunk_off_le: "0 < n \<Longrightarrow> i \<le> n \<Longrightarrow> chunk_off dim n i \<le> dim"
  using chunk_off_mono [of i n dim n] chunk_off_last [of n dim] by simp

lemma offset_words_nth:
  assumes "0 < n" and "i \<le> n" and "dim < 2 ^ 32"
  shows "unat (offset_words dim n ! i) = chunk_off dim n i"
proof -
  have "offset_words dim n ! i = of_nat (chunk_off dim n i)" using assms(2) by (auto simp: offset_words_def nth_append less_Suc_eq)
  then show ?thesis using chunk_off_le [OF assms(1,2), of dim] assms(3) by (simp add: unat_of_nat32)
qed

lemma length_offset_words [simp]: "length (offset_words dim n) = Suc n"
  by (simp add: offset_words_def)

lemma train_chunks_ok:
  assumes n: "0 < n" "n \<le> dim" "dim < 2 ^ 32" and m: "length m = 4 * (nc * dim)"
    and P: "\<And>i. i < n \<Longrightarrow> \<exists>data. cut_columns train num dim (chunk_off dim n i) (chunk_size dim n i) = Inr data \<and>
      train_chunk mk fresh (rnd i) data num (chunk_size dim n i) nc reps = Inr (P i)"
  shows "\<exists>m1. train_chunks mk fresh rnd train num dim nc reps (offset_words dim n) n m = Inr m1 \<and> length m1 = length m \<and>
    (\<forall>i < n. \<forall>j < nc. slice m1 (4 * (j * dim + chunk_off dim n i)) (4 * chunk_size dim n i) =
       bytes32s (slice (P i) (j * chunk_size dim n i) (chunk_size dim n i)))"
proof -
  let ?off = "chunk_off dim n" and ?sz = "chunk_size dim n" and ?co = "offset_words dim n"
  let ?step = "\<lambda>i m. rbind (rget ?co i) (\<lambda>a. rbind (rget ?co (i + 1)) (\<lambda>b. let cur_chunk_size = unat (b - a) in
       if cur_chunk_size = 0 then Inr m
       else rbind (cut_columns train num dim (unat a) cur_chunk_size) (\<lambda>cur_data.
         rbind (train_chunk mk fresh (rnd i) cur_data num cur_chunk_size nc reps) (\<lambda>p. store_columns m nc dim (unat a) cur_chunk_size p))))"
  let ?ok = "\<lambda>is m1. length m1 = length m \<and> (\<forall>i \<in> set is. \<forall>j < nc. slice m1 (4 * (j * dim + ?off i)) (4 * ?sz i) = bytes32s (slice (P i) (j * ?sz i) (?sz i)))"
  have "\<exists>m1. rfold ?step [0..<n] m = Inr m1 \<and> ?ok [0..<n] m1"
  proof (rule rfold_invariant)
    fix ys i zs m1 assume split: "[0..<n] = ys @ i # zs" and ok: "?ok ys m1"
    have i: "i < n" and ys: "set ys = {..<i}" using upt_split [OF split] upt_split_prefix [OF split] by simp_all
    have ends: "?off i \<le> ?off (Suc i)" "?off (Suc i) \<le> dim" "?off i < ?off (Suc i)"
      using chunk_off_mono [of i "Suc i" dim n] chunk_off_le [OF n(1), of "Suc i" dim] i chunk_off_less [OF n(2,1)] by simp_all
    have a: "unat (?co ! i) = ?off i" "unat (?co ! (i + 1)) = ?off (Suc i)" using offset_words_nth [OF n(1) _ n(3)] i by simp_all
    then have sz: "unat (?co ! (i + 1) - ?co ! i) = ?sz i" using ends(1) by (simp add: unat_sub word_le_nat_alt)
    obtain data where data: "cut_columns train num dim (?off i) (?sz i) = Inr data" "train_chunk mk fresh (rnd i) data num (?sz i) nc reps = Inr (P i)"
      using P [OF i] by blast
    have "?off i + ?sz i \<le> dim" "length m1 = 4 * (nc * dim)" using ends ok m by simp_all
    from store_columns_ok [OF this(2,1) train_chunk_length [OF data(2)]] obtain m2 where m2: "store_columns m1 nc dim (?off i) (?sz i) (P i) = Inr m2"
      "length m2 = length m1" "\<forall>j < nc. slice m2 (4 * (j * dim + ?off i)) (4 * ?sz i) = bytes32s (slice (P i) (j * ?sz i) (?sz i))"
      "\<forall>j < nc. \<forall>a k. (a + k \<le> ?off i \<or> ?off i + ?sz i \<le> a) \<and> a + k \<le> dim \<longrightarrow> slice m2 (4 * (j * dim + a)) (4 * k) = slice m1 (4 * (j * dim + a)) (4 * k)"
      by blast
    have "slice m2 (4 * (j * dim + ?off c)) (4 * ?sz c) = bytes32s (slice (P c) (j * ?sz c) (?sz c))" if "c < i" "j < nc" for c j
    proof -
      have "?off c + ?sz c \<le> ?off i" using chunk_off_mono [of "Suc c" i dim n] chunk_off_mono [of c "Suc c" dim n] that(1) by simp
      then show ?thesis using m2(4) that ok ys ends by auto
    qed
    then have "?ok (ys @ [i]) m2" using m2(2,3) ok ys by auto
    moreover have "?step i m1 = Inr m2"
      using i ends(3) data m2(1) by (simp add: sz [simplified] a [simplified] Let_def)
    ultimately show "\<exists>s. ?step i m1 = Inr s \<and> ?ok (ys @ [i]) s" by blast
  qed simp
  then show ?thesis unfolding train_chunks_def by (simp only: set_upt) auto
qed

lemma pivot_words:
  assumes "length m = 4 * (nc * dim)" and "\<And>j. j < nc \<Longrightarrow> slice m (4 * (j * dim + off)) (4 * sz) = bytes32s (slice p (j * sz) sz)"
    and "off + sz \<le> dim" and "length p = nc * sz" and "j < nc" and "k < sz"
  shows "load32 m (4 * (j * dim + off + k)) = Inr (p ! (j * sz + k))"
proof (rule load32_slice)
  have row: "j * sz + sz \<le> length p" using row_bound [OF assms(5), of sz] assms(4) by simp
  have "slice m (4 * (j * dim + off + k)) 4 = slice (slice m (4 * (j * dim + off)) (4 * sz)) (4 * k) 4"
    using assms(6) by (subst slice_slice) (simp_all add: distrib_left)
  also have "\<dots> = le_bytes 4 (slice p (j * sz) sz ! k)"
    unfolding assms(2) [OF assms(5)] using row assms(6) by (intro slice_bytes32s) simp
  finally show "slice m (4 * (j * dim + off + k)) 4 = le_bytes 4 (p ! (j * sz + k))"
    using row assms(6) by (simp add: slice_def)
  have "j * dim + off + k + 1 \<le> nc * dim" using place_bound [OF assms(5), of "off + k + 1" dim] assms(3,6) by simp
  then show "4 * (j * dim + off + k) + 4 \<le> length m" using assms(1) by simp
qed

lemma load32s_total:
  assumes "off + 4 * n \<le> length m"
  shows "\<exists>ws. load32s m off n = Inr ws \<and> length ws = n \<and> (\<forall>i < n. load32 m (off + 4 * i) = Inr (ws ! i))"
proof -
  have "\<exists>ws. load32s m off n = Inr ws"
    unfolding load32s_def using assms by (intro rmap_total) (auto simp: load32_def load_def)
  then show ?thesis by (auto simp: load32s_def rmap_eq_Inr)
qed

section \<open>The file\<close>

text \<open>Four arrays one after the other, the first in front.\<close>

lemma write_pivots_ok:
  assumes ws: "load32s m 0 (nc * dim) = Inr ws" "length ws = nc * dim" and cen: "length centroid = dim"
    and small: "nc < 2 ^ 32" "dim < 2 ^ 32" "length offs < 2 ^ 32"
  defines "c1 \<equiv> METADATA_SIZE + (nc * dim * 4 + 8)" and "c2 \<equiv> METADATA_SIZE + (nc * dim * 4 + 8) + (dim * 4 + 8)"
  shows "\<exists>w c3. write_pivots m nc dim centroid offs = Inr w \<and>
    load_bin 8 w 0 = Inr (map of_nat [METADATA_SIZE, c1, c2, c3] :: u64 list, 4, 1) \<and>
    load_bin 4 w METADATA_SIZE = Inr (ws, nc, dim) \<and> load_bin 4 w c1 = Inr (centroid, dim, 1) \<and> load_bin 4 w c2 = Inr (offs, length offs, 1)"
proof -
  define c3 where "c3 = c2 + (length offs * 4 + 8)"
  define B0 where "B0 = bin_bytes 4 ws nc dim"
  define B1 where "B1 = bin_bytes 4 centroid dim 1"
  define B2 where "B2 = bin_bytes 4 offs (length offs) 1"
  define B3 where "B3 = bin_bytes 8 (map of_nat [METADATA_SIZE, c1, c2, c3] :: u64 list) 4 1"
  define w0 where "w0 = put_at [] METADATA_SIZE B0"
  define w1 where "w1 = put_at w0 c1 B1"
  define w2 where "w2 = put_at w1 c2 B2"
  define w3 where "w3 = put_at w2 0 B3"
  have lens: "length B0 = nc * dim * 4 + 8" "length B1 = dim * 4 + 8" "length B2 = length offs * 4 + 8" "length B3 = 40"
    using ws(2) cen by (simp_all add: B0_def B1_def B2_def B3_def)
  have w: "length w0 = c1" "length w1 = c2" "length w2 = c3" "length w3 = c3"
    by (simp_all add: w0_def w1_def w2_def w3_def length_put_at lens c1_def c2_def c3_def METADATA_SIZE_def)
  have run: "write_pivots m nc dim centroid offs = Inr w3"
    unfolding write_pivots_def Let_def ws(1) rbind_Inr
    using ws(2) cen by (simp add: save_bin_stream_ok w0_def w1_def w2_def w3_def B0_def B1_def B2_def B3_def c1_def c2_def c3_def)
  have keep0: "slice w3 METADATA_SIZE (length B0) = B0"
  proof -
    have "slice w3 METADATA_SIZE (length B0) = slice w2 METADATA_SIZE (length B0)" unfolding w3_def
      by (intro slice_put_at_other) (simp_all add: lens w METADATA_SIZE_def c3_def c2_def)
    also have "\<dots> = slice w1 METADATA_SIZE (length B0)" unfolding w2_def
      by (intro slice_put_at_other) (simp_all add: lens w c2_def)
    also have "\<dots> = slice w0 METADATA_SIZE (length B0)" unfolding w1_def
      by (intro slice_put_at_other) (simp_all add: lens w c1_def)
    finally show ?thesis by (simp add: w0_def slice_put_at_same)
  qed
  have keep1: "slice w3 c1 (length B1) = B1"
  proof -
    have "slice w3 c1 (length B1) = slice w2 c1 (length B1)" unfolding w3_def
      by (intro slice_put_at_other) (simp_all add: lens w METADATA_SIZE_def c3_def c2_def c1_def)
    also have "\<dots> = slice w1 c1 (length B1)" unfolding w2_def
      by (intro slice_put_at_other) (simp_all add: lens w c2_def c1_def)
    finally show ?thesis by (simp add: w1_def slice_put_at_same)
  qed
  have keep2: "slice w3 c2 (length B2) = B2"
  proof -
    have "slice w3 c2 (length B2) = slice w2 c2 (length B2)" unfolding w3_def
      by (intro slice_put_at_other) (simp_all add: lens w METADATA_SIZE_def c3_def c2_def)
    then show ?thesis by (simp add: w2_def slice_put_at_same)
  qed
  have "load_bin 8 w3 0 = Inr (map of_nat [METADATA_SIZE, c1, c2, c3] :: u64 list, 4, 1)"
    unfolding w3_def B3_def by (rule load_bin_put) simp_all
  moreover have "load_bin 4 w3 METADATA_SIZE = Inr (ws, nc, dim)"
    using keep0 w(4) ws(2) small by (intro load_bin_at) (simp_all add: B0_def lens [unfolded B0_def] c3_def c2_def ac_simps)
  moreover have "load_bin 4 w3 c1 = Inr (centroid, dim, 1)"
    using keep1 w(4) cen small by (intro load_bin_at) (simp_all add: B1_def c3_def c2_def c1_def ac_simps)
  moreover have "load_bin 4 w3 c2 = Inr (offs, length offs, 1)"
    using keep2 w(4) small by (intro load_bin_at) (simp_all add: B2_def c3_def ac_simps)
  ultimately show ?thesis using run by blast
qed

section \<open>The table by columns\<close>

lemma rfold_product: "rfold (\<lambda>x. rfold (f x) ys) xs s = rfold (\<lambda>(x, y). f x y) (List.product xs ys) s"
proof (induction xs arbitrary: s)
  case (Cons x xs)
  have "rfold (\<lambda>(x, y). f x y) (map (Pair x) ys) s = rfold (f x) ys s" for s by (induction ys arbitrary: s) (auto simp: rbind_def split: sum.split)
  moreover have "rfold (\<lambda>x. rfold (f x) ys) xs = rfold (\<lambda>(x, y). f x y) (List.product xs ys)" using Cons by (intro ext)
  ultimately show ?case by (simp add: rfold_append)
qed simp

text \<open>A loop that writes every place once.\<close>

lemma rfold_put:
  assumes "distinct xs" and "inj_on pos (set xs)" and "\<And>x s. x \<in> set xs \<Longrightarrow> length s = n \<Longrightarrow> f x s = Inr (s[pos x := val x])"
    and "\<And>x. x \<in> set xs \<Longrightarrow> pos x < n" and "length s = n"
  shows "\<exists>s1. rfold f xs s = Inr s1 \<and> length s1 = n \<and> (\<forall>x \<in> set xs. s1 ! pos x = val x)"
proof -
  have "\<exists>s1. rfold f xs s = Inr s1 \<and> (length s1 = n \<and> (\<forall>x \<in> set xs. s1 ! pos x = val x))"
  proof (rule rfold_invariant [where P = "\<lambda>ys t. length t = n \<and> (\<forall>x \<in> set ys. t ! pos x = val x)"])
    fix ys x zs t assume split: "xs = ys @ x # zs" and P: "length t = n \<and> (\<forall>x \<in> set ys. t ! pos x = val x)"
    then have x: "x \<notin> set ys" "x \<in> set xs" using assms(1) by auto
    have "pos x \<noteq> pos y" if "y \<in> set ys" for y using inj_onD [OF assms(2), of y x] that split x(1) by auto
    then have "t[pos x := val x] ! pos y = val y" if "y \<in> set (ys @ [x])" for y
      using that P assms(4) [OF x(2)] by (cases "y = x") auto
    then show "\<exists>s. f x t = Inr s \<and> length s = n \<and> (\<forall>y \<in> set (ys @ [x]). s ! pos y = val y)"
      using assms(3) [OF x(2)] P by simp
  qed (use assms(5) in simp)
  then show ?thesis by blast
qed

lemma transpose_ok:
  assumes "length tables = NUM_PQ_CENTROIDS * nd"
  shows "\<exists>tr. transpose tables nd = Inr tr \<and> length tr = nd * NUM_PQ_CENTROIDS \<and>
    (\<forall>i < NUM_PQ_CENTROIDS. \<forall>j < nd. tr ! (j * NUM_PQ_CENTROIDS + i) = tables ! (i * nd + j))"
proof -
  let ?N = NUM_PQ_CENTROIDS and ?f = "\<lambda>i j tr. rbind (rget tables (i * nd + j)) (\<lambda>x. rput tr (j * NUM_PQ_CENTROIDS + i) x)"
  let ?xs = "List.product [0..<NUM_PQ_CENTROIDS] [0..<nd]"
  have src: "i * nd + j < length tables" if "i < ?N" "j < nd" for i j
    using place_bound [OF that(1), of "Suc j" nd] that(2) assms by simp
  have dst: "j * ?N + i < nd * ?N" if "i < ?N" "j < nd" for i j using place_bound [OF that(2), of "Suc i" ?N] that(1) by simp
  have "\<exists>tr. rfold (\<lambda>(i, j). ?f i j) ?xs (replicate (?N * nd) 0) = Inr tr \<and> length tr = nd * ?N \<and>
      (\<forall>x \<in> set ?xs. tr ! (case x of (i, j) \<Rightarrow> j * ?N + i) = (case x of (i, j) \<Rightarrow> tables ! (i * nd + j)))"
  proof (rule rfold_put)
    show "distinct ?xs" by (simp add: distinct_product)
    show "inj_on (\<lambda>(i, j). j * ?N + i) (set ?xs)"
    proof (rule inj_onI, clarsimp)
      fix i j i' j' assume "j * ?N + i = j' * ?N + i'" "i < ?N" "i' < ?N"
      then have "(j * ?N + i) mod ?N = (j' * ?N + i') mod ?N" "(j * ?N + i) div ?N = (j' * ?N + i') div ?N" by simp_all
      then show "i = i' \<and> j = j'" using \<open>i < ?N\<close> \<open>i' < ?N\<close> by simp
    qed
  qed (use src dst in \<open>auto simp: mult.commute\<close>)
  then show ?thesis unfolding transpose_def rfold_product by (simp only: set_product set_upt) fastforce
qed

section \<open>Training and loading\<close>

lemma unat_of_nat64: "k < 2 ^ 64 \<Longrightarrow> unat (of_nat k :: u64) = k"
  by (simp add: unat_of_nat)

text \<open>The table that is loaded from the file of the pivots \<open>ws\<close>.\<close>

lemma load_written_table:
  assumes n: "0 < n" "n \<le> dim" "dim < 2 ^ 24" and ws: "load32s m 0 (NUM_PQ_CENTROIDS * dim) = Inr ws" "length ws = NUM_PQ_CENTROIDS * dim"
  shows "\<exists>w t. write_pivots m NUM_PQ_CENTROIDS dim (replicate dim 0) (offset_words dim n) = Inr w \<and> load_pq_centroid_bin w = Inr t \<and>
    table_wf t \<and> pt_tables t = ws \<and> pt_ndims t = dim \<and> pt_n_chunks t = n \<and> pt_centroid t = replicate dim 0 \<and> pt_chunk_offsets t = offset_words dim n \<and>
    (\<forall>i < NUM_PQ_CENTROIDS. \<forall>j < dim. center_at t j i = ws ! (i * dim + j))"
proof -
  let ?N = NUM_PQ_CENTROIDS
  define c1 c2 where "c1 = METADATA_SIZE + (?N * dim * 4 + 8)" and "c2 = METADATA_SIZE + (?N * dim * 4 + 8) + (dim * 4 + 8)"
  obtain w c3 where w: "write_pivots m ?N dim (replicate dim 0) (offset_words dim n) = Inr w"
    and b: "load_bin 8 w 0 = Inr (map of_nat [METADATA_SIZE, c1, c2, c3] :: u64 list, 4, 1)" "load_bin 4 w METADATA_SIZE = Inr (ws, ?N, dim)"
      "load_bin 4 w c1 = Inr (replicate dim (0 :: u32), dim, 1)" "load_bin 4 w c2 = Inr (offset_words dim n, Suc n, 1)"
    using write_pivots_ok [OF ws, of "replicate dim 0" "offset_words dim n"] n unfolding c1_def c2_def
    by (auto simp: NUM_PQ_CENTROIDS_def)
  have small: "unat (of_nat METADATA_SIZE :: u64) = METADATA_SIZE" "unat (of_nat c1 :: u64) = c1" "unat (of_nat c2 :: u64) = c2"
    by (rule unat_of_nat64, use n(3) in \<open>simp add: METADATA_SIZE_def c1_def c2_def NUM_PQ_CENTROIDS_def\<close>)+
  have nch: "unat (of_nat (Suc n) - 1 :: u64) = n" using n by (simp add: unat_of_nat)
  obtain tr where tr: "transpose ws dim = Inr tr" "length tr = dim * ?N" "\<forall>i < ?N. \<forall>j < dim. tr ! (j * ?N + i) = ws ! (i * dim + j)"
    using transpose_ok [OF ws(2)] by blast
  define t where "t = \<lparr>pt_tables = ws, pt_ndims = dim, pt_n_chunks = n, pt_chunk_offsets = offset_words dim n, pt_centroid = replicate dim 0, pt_tables_tr = tr\<rparr>"
  have "load_pq_centroid_bin w = Inr t"
    unfolding load_pq_centroid_bin_def b(1) rbind_Inr prod.case using b(2-4) tr(1) small nch by (simp add: t_def Let_def)
  moreover have "table_wf t"
  proof -
    have "dim < 2 ^ 32" using n(3) by simp
    then have off: "unat (offset_words dim n ! i) = chunk_off dim n i" if "i \<le> n" for i using offset_words_nth [OF n(1) that] by simp
    have "offset_words dim n ! 0 = 0" unfolding word_unat_eq_iff off [OF le0] by simp
    then show ?thesis
      using off n tr(2) chunk_off_last [OF n(1), of dim] chunk_off_mono [of _ "Suc _" dim n]
      by (auto simp: table_wf_def t_def)
  qed
  ultimately show ?thesis using w tr(3) by (auto simp: t_def center_at_def)
qed


text \<open>One point, clustered into 256 centres without a round of Lloyd's algorithm.\<close>

lemma float_zeros: "fsub 0 0 = 0" "fmul 0 0 = 0" "fadd 0 0 = 0" "f2d 0 = 0" "dadd 0 0 = 0" "dle 0 0" "\<not> flt 0 0"
  by (simp_all add: fsub_def fmul_def fadd_def f2d_def dadd_def dle_def flt_def enc32_def enc64_def dec32_def dec64_def fl_decode_def fl_round_def
      fl_le_def fl_less_def sign_code_def f32_def f64_def round_div_def)

lemma zero_distance: "calc_distance [0] 0 [0] 0 1 = Inr 0"
  by (simp add: calc_distance_def f_zero_def float_zeros)

lemma one_point_loop:
  assumes "np \<le> nc" and "nc - np \<le> length darts" and "length piv = nc"
  shows "\<exists>p. kpp_loop darts np sf picked [0] 1 1 piv nc [0] = Inr p"
  using assms
proof (induction darts arbitrary: np sf picked piv)
  case Nil
  then show ?case by (subst kpp_loop.simps) simp
next
  case (Cons dart darts)
  show ?case
  proof (cases "np < nc")
    case True
    then have step: "kpp_loop (dart # darts) np sf picked [0] 1 1 piv nc [0] =
      kpp_loop darts (np + 1) True (picked @ [0]) [0] 1 1 (take np piv @ [0] @ drop (Suc np) piv) nc [0]"
      using Cons.prems(3)
      by (subst kpp_loop.simps) (simp add: Let_def float_zeros closer_dist_def zero_distance [simplified] rslice_def slice_def)
    show ?thesis unfolding step using Cons.prems True by (intro Cons.IH) auto
  qed (use Cons.prems in \<open>subst kpp_loop.simps, simp\<close>)
qed

definition no_mkl :: mkl where
  "no_mkl = \<lparr>snrm2 = (\<lambda>_. 0), sgemm = (\<lambda>m n k al a b be c. c)\<rparr>"

definition no_random :: random where
  "no_random = \<lparr>rn_picks = (\<lambda>_. 0), rn_darts = replicate 255 0\<rparr>"

lemma one_point_trains: "\<exists>p. train_chunk no_mkl fresh no_random [0] 1 1 NUM_PQ_CENTROIDS 0 = Inr p"
proof -
  have "\<exists>p. kpp_loop (replicate 255 0) 1 False [0] [0] 1 1 ([0] @ drop 1 (replicate NUM_PQ_CENTROIDS 0)) NUM_PQ_CENTROIDS [0] = Inr p"
    by (rule one_point_loop) (simp_all add: NUM_PQ_CENTROIDS_def)
  then obtain p where "kpp_loop (replicate 255 0) (Suc 0) False [0] [0] (Suc 0) (Suc 0) (0 # drop (Suc 0) (replicate NUM_PQ_CENTROIDS 0)) NUM_PQ_CENTROIDS [0] = Inr p"
    by auto
  then have "kmeanspp_selecting_pivots no_random [0] 1 1 (replicate (NUM_PQ_CENTROIDS * 1) 0) NUM_PQ_CENTROIDS = Inr p"
    by (simp add: kmeanspp_selecting_pivots_def no_random_def rslice_def slice_def zero_distance [simplified]) (simp add: NUM_PQ_CENTROIDS_def)
  then show ?thesis by (simp add: train_chunk_def run_lloyds_def compute_vecs_l2sq_def no_mkl_def rslice_def Let_def)
qed


end
