(* ===== verification/PqCodes.thy ===== *)
theory PqCodes
  imports PqEncode PqRoundtrip
begin

text \<open>What the encoding of product quantisation writes: for every vector and chunk, the first of the closest centres.\<close>

section \<open>The closest entry of a row\<close>

lemma flt_place: "flt a b \<longleftrightarrow> dec32 a \<noteq> NaN \<and> dec32 b \<noteq> NaN \<and> f_place a < f_place b"
  by (simp add: flt_def f_place_def fl_less_def)

text \<open>The first least entry, among the entries that are numbers.\<close>

definition is_closest :: "u32 list \<Rightarrow> nat \<Rightarrow> bool" where
  "is_closest row j \<longleftrightarrow> j < length row \<and> (\<forall>i < length row. \<not> flt (row ! i) (row ! j)) \<and> (\<forall>i < j. dec32 (row ! i) \<noteq> NaN \<longrightarrow> flt (row ! j) (row ! i))"

definition scan_row :: "u32 list \<Rightarrow> u32 \<times> u32 \<Rightarrow> nat list \<Rightarrow> u32 \<times> u32" where
  "scan_row row s js = foldl (\<lambda>(ci, mn) j. if flt (row ! j) mn then (of_nat j, row ! j) else (ci, mn)) s js"

lemma scan_row_closest:
  assumes "scan_row row (ci, f_max) [0..<n] = (c, mn)" and "n \<le> length row"
  shows "dec32 mn \<noteq> NaN \<and> (\<forall>i < n. \<not> flt (row ! i) mn) \<and>
    (c = ci \<and> mn = f_max \<or> (\<exists>j < n. c = of_nat j \<and> mn = row ! j \<and> flt mn f_max \<and> (\<forall>i < j. dec32 (row ! i) \<noteq> NaN \<longrightarrow> flt mn (row ! i))))"
  using assms
proof (induction n arbitrary: c mn)
  case 0
  then show ?case by (auto simp: scan_row_def f_max_def dec32_def fl_decode_def f32_def Let_def)
next
  case (Suc n)
  obtain c0 m0 where prev: "scan_row row (ci, f_max) [0..<n] = (c0, m0)" by fastforce
  note IH = Suc.IH [OF prev]
  have step: "(c, mn) = (if flt (row ! n) m0 then (of_nat n, row ! n) else (c0, m0))"
    using Suc.prems(1) prev by (simp add: scan_row_def)
  have old: "dec32 m0 \<noteq> NaN" "\<forall>i < n. \<not> flt (row ! i) m0" using IH Suc.prems(2) by auto
  show ?case
  proof (cases "flt (row ! n) m0")
    case True
    then have new: "c = of_nat n" "mn = row ! n" using step by simp_all
    have "\<not> flt (row ! i) mn" if "i < Suc n" for i
      using that True old new by (cases "i = n") (auto simp: flt_place less_Suc_eq)
    moreover have "flt mn (row ! i)" if "i < n" "dec32 (row ! i) \<noteq> NaN" for i
      using that True old new by (auto simp: flt_place)
    moreover have "flt mn f_max" using IH Suc.prems(2) True new by (auto simp: flt_place)
    ultimately show ?thesis using True new by (auto simp: flt_place)
  next
    case False
    then have "c = c0" "mn = m0" using step by simp_all
    then show ?thesis using IH Suc.prems(2) False by (fastforce simp: less_Suc_eq)
  qed
qed

lemma closest_in_row_ok:
  assumes "\<exists>j < length row. flt (row ! j) f_max"
  shows "\<exists>j. closest_in_row row ci = of_nat j \<and> is_closest row j"
proof -
  obtain c mn where scan: "scan_row row (ci, f_max) [0..<length row] = (c, mn)" by fastforce
  note scan_row_closest [OF scan order_refl]
  moreover have "closest_in_row row ci = c" using scan by (simp add: closest_in_row_def scan_row_def)
  ultimately show ?thesis using assms by (auto simp: is_closest_def)
qed

section \<open>Blocks of columns\<close>

definition cols :: "u32 list \<Rightarrow> nat \<Rightarrow> nat \<Rightarrow> nat \<Rightarrow> nat \<Rightarrow> u32 list" where
  "cols data n dim off sz = concat (map (\<lambda>j. slice data (j * dim + off) sz) [0..<n])"

lemma cut_columns_ok:
  assumes "n * dim \<le> length data" and "off + sz \<le> dim"
  shows "cut_columns data n dim off sz = Inr (cols data n dim off sz)"
proof -
  have "j * dim + off + sz \<le> length data" if "j < n" for j
    using place_bound [OF that, of "off + sz" dim] assms by simp
  then have "rmap (\<lambda>j. rslice data (j * dim + off) sz) [0..<n] = Inr (map (\<lambda>j. slice data (j * dim + off) sz) [0..<n])"
    by (intro rmap_pure) simp
  then show ?thesis by (simp add: cut_columns_def cols_def)
qed

lemma length_cols:
  assumes "n * dim \<le> length data" and "off + sz \<le> dim"
  shows "length (cols data n dim off sz) = n * sz"
proof -
  have "length (slice data (j * dim + off) sz) = sz" if "j < n" for j
    using place_bound [OF that, of "off + sz" dim] assms by simp
  then have "map length (map (\<lambda>j. slice data (j * dim + off) sz) [0..<n]) = replicate n sz"
    by (intro nth_equalityI) simp_all
  then show ?thesis by (simp only: cols_def length_concat sum_list_replicate of_nat_id)
qed

lemma cols_append:
  assumes "n * dim \<le> length data" and "off + sz \<le> dim"
  shows "cols (data @ tail) n dim off sz = cols data n dim off sz"
proof -
  have "slice (data @ tail) (j * dim + off) sz = slice data (j * dim + off) sz" if "j < n" for j
    using place_bound [OF that, of "off + sz" dim] assms by (simp add: slice_def)
  then show ?thesis by (auto simp: cols_def intro!: arg_cong [where f = concat])
qed

definition l2sqs :: "mkl \<Rightarrow> u32 list \<Rightarrow> nat \<Rightarrow> nat \<Rightarrow> u32 list" where
  "l2sqs mk data n dim = map (\<lambda>i. let r = snrm2 mk (slice data (i * dim) dim) in fmul r r) [0..<n]"

lemma compute_vecs_l2sq_ok: "n * dim \<le> length data \<Longrightarrow> compute_vecs_l2sq mk data n dim = Inr (l2sqs mk data n dim)"
  unfolding compute_vecs_l2sq_def l2sqs_def
  by (intro rmap_pure) (use row_bound [of _ n dim] order_trans in \<open>fastforce simp: Let_def\<close>)

section \<open>The closest centres of a block\<close>

text \<open>Row \<open>j\<close> of the matrix of distances between points and centres.\<close>

definition dist_rows :: "mkl \<Rightarrow> (nat \<Rightarrow> u32 list) \<Rightarrow> u32 list \<Rightarrow> nat \<Rightarrow> nat \<Rightarrow> u32 list \<Rightarrow> nat \<Rightarrow> nat \<Rightarrow> u32 list" where
  "dist_rows mk fresh data n dim centers nc j =
     slice (distance_matrix mk data n dim centers nc (l2sqs mk data n dim) (l2sqs mk centers nc dim) (fresh (nc * n))) (j * nc) nc"

lemma distance_matrix_length:
  "mkl_ok mk \<Longrightarrow> length dm = n * nc \<Longrightarrow> length (distance_matrix mk data n dim centers nc d c dm) = n * nc"
  by (simp add: distance_matrix_def mkl_ok_def Let_def)

lemma copy_codes:
  assumes "length cc = n" and "length ivf = n" and "k \<le> n"
  shows "rfold (\<lambda>j (ivf, iv). rbind (rget cc j) (\<lambda>c. rbind (rput ivf j c) (\<lambda>ivf.
      if iv = [] then Inr (ivf, iv)
      else rbind (rget iv (unat c)) (\<lambda>docs. rbind (rput iv (unat c) (docs @ [j])) (\<lambda>iv. Inr (ivf, iv)))))) [0..<k] (ivf, [])
    = Inr (take k cc @ drop k ivf, [])"
  using assms(3)
proof (induction k)
  case (Suc k)
  then have "(take k cc @ drop k ivf)[k := cc ! k] = take (Suc k) cc @ drop (Suc k) ivf"
    using assms by (intro nth_equalityI) (auto simp: nth_list_update nth_append less_Suc_eq)
  then show ?case using Suc assms by (simp add: rfold_append)
qed simp

lemma closest_centers_ok:
  assumes mk: "mkl_ok mk" and fresh: "\<And>k. length (fresh k) = k" and nc: "0 < nc" and n: "0 < n"
    and data: "n * dim \<le> length data" and centers: "nc * dim \<le> length centers"
  shows "compute_closest_centers mk fresh data n dim centers nc (replicate n 0) [] None =
    Inr (map (\<lambda>j. closest_in_row (dist_rows mk fresh data n dim centers nc j) (fresh n ! j)) [0..<n], [])"
proof -
  let ?D = "distance_matrix mk data n dim centers nc (l2sqs mk data n dim) (l2sqs mk centers nc dim) (fresh (nc * n))"
  let ?c = "\<lambda>j. closest_in_row (dist_rows mk fresh data n dim centers nc j) (fresh n ! j)"
  have D: "length ?D = n * nc" by (rule distance_matrix_length [OF mk]) (simp add: fresh)
  have fits: "j * nc + nc \<le> length ?D" if "j < n" for j using row_bound [OF that, of nc] D by simp
  have loop1: "rfold (\<lambda>i ci. rbind (rget ci i) (\<lambda>c. rbind (rslice ?D (i * nc) nc) (\<lambda>current. rput ci i (closest_in_row current c)))) [0..<n] (fresh n)
      = Inr (upd_range 0 n (\<lambda>j c. closest_in_row (slice ?D (j * nc) nc) c) (fresh n))"
    by (rule rfold_update) (use fits fresh in \<open>simp_all\<close>)
  have eq: "upd_range 0 n (\<lambda>j c. closest_in_row (slice ?D (j * nc) nc) c) (fresh n) = map ?c [0..<n]"
    by (intro nth_equalityI) (simp_all add: fresh dist_rows_def)
  have block: "compute_closest_centers_in_block mk data n dim centers nc (l2sqs mk data n dim) (l2sqs mk centers nc dim) (fresh n) (fresh (nc * n))
      = Inr (map ?c [0..<n], ?D)"
    unfolding compute_closest_centers_in_block_def Let_def loop1 eq using nc by simp
  have "rfold (\<lambda>j (ivf, iv). rbind (rget (map ?c [0..<n]) j) (\<lambda>c. rbind (rput ivf j c) (\<lambda>ivf.
      if iv = [] then Inr (ivf, iv)
      else rbind (rget iv (unat c)) (\<lambda>docs. rbind (rput iv (unat c) (docs @ [j])) (\<lambda>iv. Inr (ivf, iv)))))) [0..<n] (replicate n 0, [])
    = Inr (map ?c [0..<n], [])"
    using copy_codes [of "map ?c [0..<n]" n "replicate n 0" n] by simp
  then show ?thesis
    using nc n by (simp add: compute_closest_centers_def compute_vecs_l2sq_ok data centers block)
qed

section \<open>Encoding a block\<close>

text \<open>The code of point \<open>j\<close> among \<open>n\<close> vectors \<open>data\<close>, for the chunk at \<open>off\<close>.\<close>

definition code_of :: "mkl \<Rightarrow> (nat \<Rightarrow> u32 list) \<Rightarrow> nat \<Rightarrow> nat \<Rightarrow> u32 list \<Rightarrow> nat \<Rightarrow> nat \<Rightarrow> u32 list \<Rightarrow> nat \<Rightarrow> nat \<Rightarrow> u32" where
  "code_of mk fresh nc dim pivots off sz data n j =
     closest_in_row (dist_rows mk fresh (cols data n dim off sz) n sz (cols pivots nc dim off sz) nc j) (fresh n ! j)"

lemma encode_chunk_ok:
  assumes "mkl_ok mk" and "\<And>k. length (fresh k) = k" and "0 < nc" and "0 < n" and "off + sz \<le> dim"
    and "length data = n * dim" and "nc * dim \<le> length pivots"
  shows "encode_chunk mk fresh nc dim pivots off sz (data @ tail) n = Inr (map (code_of mk fresh nc dim pivots off sz data n) [0..<n])"
proof -
  have cut: "cut_columns (data @ tail) n dim off sz = Inr (cols data n dim off sz)"
    using assms(5,6) by (simp add: cut_columns_ok cols_append)
  have "compute_closest_centers mk fresh (cols data n dim off sz) n sz (cols pivots nc dim off sz) nc (replicate n 0) [] None =
      Inr (map (code_of mk fresh nc dim pivots off sz data n) [0..<n], [])"
    unfolding code_of_def using assms by (intro closest_centers_ok) (simp_all add: length_cols)
  then show ?thesis by (simp add: encode_chunk_def cut cut_columns_ok [OF assms(7,5)])
qed

lemma code_place: "j < n \<Longrightarrow> i < m \<Longrightarrow> j * m + i < n * (m :: nat)"
  using place_bound [of j n "Suc i" m] by simp

lemma code_place_inj: "j * m + i = j' * m + i' \<Longrightarrow> i < m \<Longrightarrow> i' < m \<Longrightarrow> j = j' \<and> i = (i' :: nat)"
proof -
  assume eq: "j * m + i = j' * m + i'" and "i < m" "i' < m"
  then have "(j * m + i) div m = (j' * m + i') div m" "(j * m + i) mod m = (j' * m + i') mod m" by simp_all
  then show ?thesis using \<open>i < m\<close> \<open>i' < m\<close> by simp
qed

lemma put_codes_ok:
  assumes "i < m" and "length cc = n" and "n * m \<le> length base"
  shows "\<exists>base'. put_codes m n i cc base = Inr base' \<and> length base' = length base \<and> (\<forall>j < n. base' ! (j * m + i) = cc ! j) \<and>
    (\<forall>j < n. \<forall>c < m. c \<noteq> i \<longrightarrow> base' ! (j * m + c) = base ! (j * m + c))"
proof -
  let ?P = "\<lambda>js b. length b = length base \<and> (\<forall>j \<in> set js. b ! (j * m + i) = cc ! j) \<and> (\<forall>j < n. \<forall>c < m. c \<noteq> i \<longrightarrow> b ! (j * m + c) = base ! (j * m + c))"
  have "\<exists>b. rfold (\<lambda>j base. rbind (rget cc j) (\<lambda>c. rput base (j * m + i) c)) [0..<n] base = Inr b \<and> ?P [0..<n] b"
  proof (rule rfold_invariant)
    fix ys j zs b assume split: "[0..<n] = ys @ j # zs" and P: "?P ys b"
    have j: "j < n" and ys: "set ys = {..<j}" using upt_split [OF split] upt_split_prefix [OF split] by simp_all
    have place: "j * m + i < length b" using code_place [OF j assms(1)] assms(3) P by simp
    have "b[j * m + i := cc ! j] ! (k * m + c) = b ! (k * m + c)" if "c < m" "c \<noteq> i \<or> k \<noteq> j" for k c
      using code_place_inj [of j m i k c] that assms(1) by (intro nth_list_update_neq) blast
    then have "?P (ys @ [j]) (b[j * m + i := cc ! j])" using P place assms(1) by (auto simp: ys)
    then show "\<exists>s. rbind (rget cc j) (\<lambda>c. rput b (j * m + i) c) = Inr s \<and> ?P (ys @ [j]) s" using j place assms(2) by simp
  qed simp
  then show ?thesis unfolding put_codes_def by (simp only: set_upt) auto
qed

text \<open>The place and the number of dimensions of chunk \<open>i\<close>.\<close>

definition ch_off :: "u32 list \<Rightarrow> nat \<Rightarrow> nat" where
  "ch_off offs i = unat (offs ! i)"

definition ch_size :: "u32 list \<Rightarrow> nat \<Rightarrow> nat" where
  "ch_size offs i = unat (offs ! (i + 1) - offs ! i)"

definition offsets_ok :: "u32 list \<Rightarrow> nat \<Rightarrow> nat \<Rightarrow> bool" where
  "offsets_ok offs m dim \<longleftrightarrow> length offs = m + 1 \<and> (\<forall>i < m. ch_off offs i + ch_size offs i \<le> dim)"

lemma encode_block_ok:
  assumes mk: "mkl_ok mk" and fresh: "\<And>k. length (fresh k) = k" and nc: "0 < nc" and n: "0 < n" and offs: "offsets_ok offs m dim"
    and data: "length data = n * dim" and pivots: "nc * dim \<le> length pivots" and base: "n * m \<le> length base"
  shows "\<exists>base'. encode_block mk fresh nc m dim pivots offs (data @ tail) n base = Inr base' \<and> length base' = length base \<and>
    (\<forall>i < m. 0 < ch_size offs i \<longrightarrow> (\<forall>j < n. base' ! (j * m + i) = code_of mk fresh nc dim pivots (ch_off offs i) (ch_size offs i) data n j))"
proof -
  let ?code = "\<lambda>i. code_of mk fresh nc dim pivots (ch_off offs i) (ch_size offs i) data n"
  let ?step = "\<lambda>i base. rbind (rget offs i) (\<lambda>a. rbind (rget offs (i + 1)) (\<lambda>b. let cur_chunk_size = unat (b - a) in
       if cur_chunk_size = 0 then Inr base
       else rbind (encode_chunk mk fresh nc dim pivots (unat a) cur_chunk_size (data @ tail) n) (\<lambda>cc. put_codes m n i cc base)))"
  let ?P = "\<lambda>is b. length b = length base \<and> (\<forall>i \<in> set is. 0 < ch_size offs i \<longrightarrow> (\<forall>j < n. b ! (j * m + i) = ?code i j))"
  have "\<exists>b. rfold ?step [0..<m] base = Inr b \<and> ?P [0..<m] b"
  proof (rule rfold_invariant)
    fix ys i zs b assume split: "[0..<m] = ys @ i # zs" and P: "?P ys b"
    have i: "i < m" and ys: "set ys = {..<i}" using upt_split [OF split] upt_split_prefix [OF split] by simp_all
    have offs': "i < length offs" "Suc i < length offs" "ch_off offs i + ch_size offs i \<le> dim" using offs i by (simp_all add: offsets_ok_def)
    show "\<exists>s. ?step i b = Inr s \<and> ?P (ys @ [i]) s"
    proof (cases "ch_size offs i = 0")
      case True
      then show ?thesis using P offs' by (simp add: ch_size_def ys)
    next
      case False
      have "encode_chunk mk fresh nc dim pivots (ch_off offs i) (ch_size offs i) (data @ tail) n = Inr (map (?code i) [0..<n])"
        by (rule encode_chunk_ok [OF mk fresh nc n offs'(3) data pivots])
      moreover obtain b' where b': "put_codes m n i (map (?code i) [0..<n]) b = Inr b'" "length b' = length b"
          "\<forall>j < n. b' ! (j * m + i) = map (?code i) [0..<n] ! j" "\<forall>j < n. \<forall>c < m. c \<noteq> i \<longrightarrow> b' ! (j * m + c) = b ! (j * m + c)"
        using put_codes_ok [OF i, of "map (?code i) [0..<n]" n b] base P by auto
      ultimately have "?step i b = Inr b'" using offs' False by (simp add: ch_size_def ch_off_def)
      moreover have "?P (ys @ [i]) b'" using b' P i by (auto simp: ys)
      ultimately show ?thesis by blast
    qed
  qed simp
  then show ?thesis unfolding encode_block_def by (simp only: set_upt) auto
qed

section \<open>The stream of blocks\<close>

text \<open>The vectors as floats, minus the centroid.\<close>

definition centered :: "elem \<Rightarrow> byte list \<Rightarrow> nat \<Rightarrow> u32 list \<Rightarrow> nat \<Rightarrow> u32 list" where
  "centered T body dim centroid n =
     map (\<lambda>k. fsub (elem_float T (slice body (k * elem_size T) (elem_size T))) (centroid ! (k mod dim))) [0..<n * dim]"

lemma length_centered [simp]: "length (centered T body dim centroid n) = n * dim"
  by (simp add: centered_def)

lemma nth_slice: "i < n \<Longrightarrow> off + n \<le> length xs \<Longrightarrow> slice xs off n ! i = xs ! (off + i)"
  by (simp add: slice_def)

lemma center_block_ok:
  assumes "length tmp = n * dim" and "length centroid = dim"
  shows "center_block tmp n dim centroid = Inr (map (\<lambda>k. fsub (tmp ! k) (centroid ! (k mod dim))) [0..<n * dim])"
proof -
  have "center_block tmp n dim centroid = Inr (upd_range 0 (n * dim) (\<lambda>k x. fsub x (centroid ! (k mod dim))) tmp)"
    unfolding center_block_def
  proof (rule rfold_blocks, rule rfold_update)
    fix p and ys :: "u32 list" assume p: "p < n" and ys: "length ys = length tmp"
    show "p * dim + dim \<le> length ys" using row_bound [OF p, of dim] ys assms(1) by simp
    then show "\<And>d zs. d < dim \<Longrightarrow> length zs = length ys \<Longrightarrow>
        rbind (rget zs (p * dim + d)) (\<lambda>x. rbind (rget centroid d) (\<lambda>c. rput zs (p * dim + d) (fsub x c))) =
        Inr (zs[p * dim + d := fsub (zs ! (p * dim + d)) (centroid ! d)])" using assms(2) by simp
  qed (simp add: assms(1))
  moreover have "upd_range 0 (n * dim) (\<lambda>k x. fsub x (centroid ! (k mod dim))) tmp = map (\<lambda>k. fsub (tmp ! k) (centroid ! (k mod dim))) [0..<n * dim]"
    using assms(1) by (intro nth_equalityI) simp_all
  ultimately show ?thesis by simp
qed

lemma read_block_centered:
  assumes "length centroid = dim" and "start + cur \<le> n"
  shows "center_block (convert_types T (slice f (8 + elem_size T * (start * dim)) (elem_size T * (cur * dim))) cur dim) cur dim centroid =
    Inr (slice (centered T (drop 8 f) dim centroid n) (start * dim) (cur * dim))"
proof -
  let ?es = "elem_size T"
  let ?bytes = "slice f (8 + ?es * (start * dim)) (?es * (cur * dim))"
  have fits: "start * dim + cur * dim \<le> n * dim" using mult_le_mono1 [OF assms(2), of dim] by (simp add: distrib_right)
  have elem: "slice ?bytes (k * ?es) ?es = slice (drop 8 f) ((start * dim + k) * ?es) ?es" if "k < cur * dim" for k
  proof -
    have "k * ?es + ?es \<le> ?es * (cur * dim)" using row_bound [OF that, of ?es] by (simp add: mult.commute)
    then show ?thesis by (simp add: slice_slice) (simp add: slice_def ac_simps distrib_left)
  qed
  have md: "(start * dim + k) mod dim = k mod dim" for k by simp
  have "map (\<lambda>k. fsub (convert_types T ?bytes cur dim ! k) (centroid ! (k mod dim))) [0..<cur * dim] = slice (centered T (drop 8 f) dim centroid n) (start * dim) (cur * dim)"
    using fits by (intro nth_equalityI) (auto simp: convert_types_def elem md nth_slice centered_def)
  then show ?thesis using assms(1) by (subst center_block_ok) (simp_all add: convert_types_def)
qed

text \<open>Vector \<open>p\<close> in the block it is encoded in, blocks of \<open>B\<close> vectors.\<close>

definition block_len :: "nat \<Rightarrow> nat \<Rightarrow> nat \<Rightarrow> nat" where
  "block_len n B b = min ((b + 1) * B) n - b * B"

definition vector_code ::
    "mkl \<Rightarrow> (nat \<Rightarrow> u32 list) \<Rightarrow> nat \<Rightarrow> nat \<Rightarrow> u32 list \<Rightarrow> u32 list \<Rightarrow> nat \<Rightarrow> nat \<Rightarrow> u32 list \<Rightarrow> nat \<Rightarrow> nat \<Rightarrow> u32" where
  "vector_code mk fresh nc dim pivots offs B n X p i =
     code_of mk fresh nc dim pivots (ch_off offs i) (ch_size offs i)
       (slice X (p div B * B * dim) (block_len n B (p div B) * dim)) (block_len n B (p div B)) (p mod B)"

definition stream_ok ::
    "mkl \<Rightarrow> (nat \<Rightarrow> u32 list) \<Rightarrow> elem \<Rightarrow> nat \<Rightarrow> nat \<Rightarrow> nat \<Rightarrow> u32 list \<times> u32 list \<times> u32 list \<Rightarrow> nat \<Rightarrow> nat \<Rightarrow> byte list \<Rightarrow> byte list \<Rightarrow> nat \<Rightarrow> encoding \<Rightarrow> bool" where
  "stream_ok mk fresh T nc m dim pivots n B f hdr k s \<longleftrightarrow> (case pivots of (piv, centroid, offs) \<Rightarrow>
     ci_ok (en_reader s) \<and> ci_file (en_reader s) = f \<and> ci_next (en_reader s) = 8 + elem_size T * (min (k * B) n * dim) \<and>
     length (en_codes s) = B * m \<and> length (en_floats s) = B * dim \<and>
     (\<exists>codes. en_out s = hdr @ codes \<and> length codes = min (k * B) n * m \<and>
       (\<forall>p < min (k * B) n. \<forall>i < m. 0 < ch_size offs i \<longrightarrow>
          codes ! (p * m + i) = ucast (vector_code mk fresh nc dim piv offs B n (centered T (drop 8 f) dim centroid n) p i))))"

lemma encode_step_ok:
  assumes mk: "mkl_ok mk" and fresh: "\<And>k. length (fresh k) = k" and nc: "0 < nc" "nc \<le> 256" and offs: "offsets_ok offs m dim"
    and cen: "length centroid = dim" and pivots: "nc * dim \<le> length piv" and f: "8 + elem_size T * (n * dim) \<le> length f"
    and k: "k * B < n" and B: "0 < B" and inv: "stream_ok mk fresh T nc m dim (piv, centroid, offs) n B f hdr k s"
  shows "\<exists>s'. encode_step mk fresh T nc m dim (piv, centroid, offs) n B k s = Inr s' \<and> stream_ok mk fresh T nc m dim (piv, centroid, offs) n B f hdr (Suc k) s'"
proof -
  let ?es = "elem_size T" and ?X = "centered T (drop 8 f) dim centroid n"
  define cur where "cur = block_len n B k"
  have cur: "min ((k + 1) * B) n - k * B = cur" "k * B + cur = min (Suc k * B) n" "0 < cur" "cur \<le> B" "k * B + cur \<le> n" "min (k * B) n = k * B"
    using k B by (auto simp: cur_def block_len_def)
  obtain codes where out: "en_out s = hdr @ codes" "length codes = k * B * m"
      "\<And>p i. p < k * B \<Longrightarrow> i < m \<Longrightarrow> 0 < ch_size offs i \<Longrightarrow> codes ! (p * m + i) = ucast (vector_code mk fresh nc dim piv offs B n ?X p i)"
    and rd: "ci_ok (en_reader s)" "ci_file (en_reader s) = f" "ci_next (en_reader s) = 8 + ?es * (k * B * dim)"
    and len: "length (en_codes s) = B * m" "length (en_floats s) = B * dim"
    using inv cur(6) by (auto simp: stream_ok_def)
  have "k * B * dim + cur * dim \<le> n * dim" using mult_le_mono1 [OF cur(5), of dim] by (simp add: distrib_right)
  then have "?es * (k * B * dim) + ?es * (cur * dim) \<le> ?es * (n * dim)" using mult_le_mono2 [of _ _ ?es] by (simp flip: distrib_left)
  then have "ci_next (en_reader s) + ?es * (cur * dim) \<le> length (ci_file (en_reader s))" using f rd by simp
  from cached_read_ok [OF rd(1) this] obtain r where r: "cached_read (?es * (cur * dim)) (en_reader s) = Inr (slice f (8 + ?es * (k * B * dim)) (?es * (cur * dim)), r)"
      "ci_ok r" "ci_next r = 8 + ?es * (k * B * dim) + ?es * (cur * dim)" "ci_file r = f" using rd(2,3) by auto
  let ?data = "slice ?X (k * B * dim) (cur * dim)"
  have data: "length ?data = cur * dim" using \<open>k * B * dim + cur * dim \<le> n * dim\<close> by simp
  have bm: "cur * m \<le> length (en_codes s)" "cur * dim \<le> B * dim" using mult_le_mono1 [OF cur(4)] len(1) by simp_all
  obtain cs where cs: "encode_block mk fresh nc m dim piv offs (?data @ drop (cur * dim) (en_floats s)) cur (en_codes s) = Inr cs" "length cs = B * m"
      "\<And>i j. i < m \<Longrightarrow> 0 < ch_size offs i \<Longrightarrow> j < cur \<Longrightarrow> cs ! (j * m + i) = code_of mk fresh nc dim piv (ch_off offs i) (ch_size offs i) ?data cur j"
    using encode_block_ok [OF mk fresh nc(1) cur(3) offs data pivots bm(1), of "drop (cur * dim) (en_floats s)"] unfolding len(1) by blast
  define s' where "s' = \<lparr>en_reader = r, en_codes = cs, en_floats = ?data @ drop (cur * dim) (en_floats s), en_out = hdr @ codes @ map ucast (slice cs 0 (cur * m))\<rparr>"
  have step: "encode_step mk fresh T nc m dim (piv, centroid, offs) n B k s = Inr s'"
    using r(1) cs(1,2) bm(1) len(1) nc(2) read_block_centered [OF cen cur(5)]
    by (simp add: encode_step_def Let_def cur(1) [simplified] out(1) code_bytes_def s'_def)
  have codes: "(codes @ map ucast (slice cs 0 (cur * m))) ! (p * m + i) = ucast (vector_code mk fresh nc dim piv offs B n ?X p i)"
    if p: "p < k * B + cur" and i: "i < m" "0 < ch_size offs i" for p i
  proof (cases "p < k * B")
    case True
    then show ?thesis using out(3) [OF True i] code_place [OF True i(1)] out(2) by (simp add: nth_append)
  next
    case False
    define j where "j = p - k * B"
    have j: "p = k * B + j" "j < cur" using False p by (simp_all add: j_def)
    have blk: "p div B = k" "p mod B = j" using j cur(4) by simp_all
    have "codes @ map ucast (slice cs 0 (cur * m)) = codes @ map ucast (take (cur * m) cs)" by (simp add: slice_def)
    moreover have "j * m + i < cur * m" using code_place [OF j(2) i(1)] .
    moreover have "p * m + i = length codes + (j * m + i)" using j(1) out(2) by (simp add: distrib_right)
    ultimately have "(codes @ map ucast (slice cs 0 (cur * m))) ! (p * m + i) = ucast (cs ! (j * m + i))"
      using bm(1) len(1) cs(2) by (simp add: nth_append)
    also have "\<dots> = ucast (vector_code mk fresh nc dim piv offs B n ?X p i)"
      unfolding vector_code_def blk cs(3) [OF i j(2)] cur_def ..
    finally show ?thesis .
  qed
  have "ci_next r = 8 + ?es * ((k * B + cur) * dim)" using r(3) by (simp add: distrib_right distrib_left)
  moreover have "length (codes @ map ucast (slice cs 0 (cur * m))) = (k * B + cur) * m"
    using out(2) bm(1) len(1) cs(2) by (simp add: distrib_right)
  moreover have "length (?data @ drop (cur * dim) (en_floats s)) = B * dim" using data len(2) bm(2) by simp
  ultimately have "stream_ok mk fresh T nc m dim (piv, centroid, offs) n B f hdr (Suc k) s'"
    unfolding stream_ok_def prod.case s'_def encoding.simps cur(2) [symmetric] using r(2,4) cs(2) codes by blast
  with step show ?thesis by blast
qed

section \<open>The files\<close>

lemma read_header_ok:
  assumes "fs path = Some f" and "f = le_bytes 4 (of_nat n :: u32) @ le_bytes 4 (of_nat dim :: u32) @ body" and "n < 2 ^ 32" and "dim < 2 ^ 32"
  shows "\<exists>r. read_header fs path = Inr (n, dim, r) \<and> ci_ok r \<and> ci_file r = f \<and> ci_next r = 8"
proof -
  obtain r0 where r0: "cached_open f READ_BLOCK = Inr r0" "ci_ok r0" "ci_next r0 = 0" "ci_file r0 = f"
    using cached_open_ok [of READ_BLOCK f] by (auto simp: READ_BLOCK_def)
  obtain r1 where r1: "cached_read 4 r0 = Inr (slice f 0 4, r1)" "ci_ok r1" "ci_next r1 = 4" "ci_file r1 = f"
    using cached_read_ok [OF r0(2), of 4] r0(3,4) by (auto simp: assms(2))
  obtain r2 where r2: "cached_read 4 r1 = Inr (slice f 4 4, r2)" "ci_ok r2" "ci_next r2 = 8" "ci_file r2 = f"
    using cached_read_ok [OF r1(2), of 4] r1(3,4) by (auto simp: assms(2))
  have "slice f 0 4 = le_bytes 4 (of_nat n :: u32)" "slice f 4 4 = le_bytes 4 (of_nat dim :: u32)"
    by (simp_all add: assms(2) slice_def)
  then show ?thesis using assms(1,3,4) r0(1) r1(1) r2 by (simp add: read_header_def open_read_def le_word_bytes unat_of_nat32)
qed

lemma load_pivots_table:
  assumes "fs path = Some w" and "load_pq_centroid_bin w = Inr t"
  shows "load_pivots fs path = Inr (pt_tables t, pt_centroid t, pt_chunk_offsets t)"
  using assms(2) by (auto simp: load_pq_centroid_bin_def load_pivots_def assms(1) result_simps Let_def)

lemma offsets_ok_table:
  assumes wf: "table_wf t"
  shows "offsets_ok (pt_chunk_offsets t) (pt_n_chunks t) (pt_ndims t)"
proof -
  let ?o = "pt_chunk_offsets t"
  have le: "unat (?o ! (i + 1)) \<le> unat (?o ! n)" if "i + 1 \<le> n" "n \<le> pt_n_chunks t" for i n
    using that wf by (induction n rule: dec_induct) (auto simp: table_wf_def intro: order_trans)
  have "ch_off ?o i + ch_size ?o i \<le> pt_ndims t" if i: "i < pt_n_chunks t" for i
  proof -
    have "unat (?o ! i) \<le> unat (?o ! (i + 1))" using wf i by (simp add: table_wf_def)
    then have "ch_off ?o i + ch_size ?o i = unat (?o ! (i + 1))" by (simp add: ch_off_def ch_size_def unat_sub word_le_nat_alt)
    then show ?thesis using le [of i "pt_n_chunks t"] i wf by (simp add: table_wf_def)
  qed
  then show ?thesis using wf by (simp add: offsets_ok_def table_wf_def)
qed

lemma stream_blocks:
  assumes mk: "mkl_ok mk" and fresh: "\<And>k. length (fresh k) = k" and nc: "0 < nc" "nc \<le> 256" and offs: "offsets_ok offs m dim"
    and cen: "length centroid = dim" and pivots: "nc * dim \<le> length piv" and f: "8 + elem_size T * (n * dim) \<le> length f"
    and B: "0 < B" and start: "stream_ok mk fresh T nc m dim (piv, centroid, offs) n B f hdr 0 s"
    and N: "N = n div B + (if n mod B = 0 then 0 else 1)"
  shows "\<exists>s'. rfold (encode_step mk fresh T nc m dim (piv, centroid, offs) n B) [0..<N] s = Inr s' \<and>
    stream_ok mk fresh T nc m dim (piv, centroid, offs) n B f hdr N s'"
proof -
  have less: "k * B < n" if "k < N" for k
  proof -
    have n: "n div B * B + n mod B = n" by simp
    have "k * B \<le> n div B * B" using that N by (intro mult_le_mono1) (auto split: if_splits)
    moreover have "k < n div B \<Longrightarrow> k * B < n div B * B" using B by simp
    moreover have "n mod B = 0 \<Longrightarrow> k < n div B" using that N by simp
    ultimately show ?thesis using n by linarith
  qed
  have "\<exists>s'. rfold (encode_step mk fresh T nc m dim (piv, centroid, offs) n B) [0..<N] s = Inr s' \<and>
      stream_ok mk fresh T nc m dim (piv, centroid, offs) n B f hdr (length [0..<N]) s'"
  proof (rule rfold_invariant [where P = "\<lambda>ks. stream_ok mk fresh T nc m dim (piv, centroid, offs) n B f hdr (length ks)"])
    fix ys k zs s1 assume split: "[0..<N] = ys @ k # zs" and inv: "stream_ok mk fresh T nc m dim (piv, centroid, offs) n B f hdr (length ys) s1"
    have k: "k = length ys" "k < N" using upt_split [OF split] by simp_all
    show "\<exists>s'. encode_step mk fresh T nc m dim (piv, centroid, offs) n B k s1 = Inr s' \<and> stream_ok mk fresh T nc m dim (piv, centroid, offs) n B f hdr (length (ys @ [k])) s'"
      using encode_step_ok [OF mk fresh nc offs cen pivots f less [OF k(2)] B, of hdr s1] inv k(1) by simp
  qed (use start in simp)
  then show ?thesis by simp
qed

section \<open>Reading the codes back\<close>

lemma copy_aligned_full:
  assumes g: "g = le_bytes 4 (of_nat n :: u32) @ le_bytes 4 (of_nat m :: u32) @ codes" and len: "length codes = n * m" "length buf = n * m"
    and small: "n < 2 ^ 32" "m < 2 ^ 32"
  shows "copy_aligned_data_from_file g buf m 0 = Inr (codes, of_nat n, of_nat m)"
proof -
  have hd: "read_throw g 0 4 = Inr (le_bytes 4 (of_nat n :: u32))" "read_throw g 4 4 = Inr (le_bytes 4 (of_nat m :: u32))"
    by (simp_all add: g read_throw_def slice_def)
  let ?step = "\<lambda>i (pos, data). rbind (read_throw g pos m) (\<lambda>row. rbind (store data (i * m) row) (\<lambda>data.
      rbind (store data (i * m + m) (replicate (m - m) 0)) (\<lambda>data. Inr (pos + m, data))))"
  have "rfold ?step [0..<k] (8, buf) = Inr (8 + k * m, take (k * m) codes @ drop (k * m) buf)" if "k \<le> n" for k
    using that
  proof (induction k)
    case (Suc k)
    let ?d = "take (k * m) codes @ drop (k * m) buf"
    have k: "k * m + m \<le> n * m" using row_bound [of k n m] Suc.prems by simp
    have mn: "min (n * m) (k * m) = k * m" "m \<le> n * m - k * m" using k by simp_all
    have row: "read_throw g (8 + k * m) m = Inr (slice codes (k * m) m)"
      using k len(1) by (simp add: g read_throw_def slice_def)
    have "store ?d (k * m) (slice codes (k * m) m) = Inr (take (k * m + m) codes @ drop (k * m + m) buf)"
      using k len mn by (simp add: store_def slice_def take_add add.commute [of m])
    moreover have "k * m + m \<le> length (take (k * m + m) codes @ drop (k * m + m) buf)" using k len by simp
    ultimately have "?step k (8 + k * m, ?d) = Inr (8 + k * m + m, take (k * m + m) codes @ drop (k * m + m) buf)"
      by (simp only: row prod.case rbind_Inr) simp
    then show ?case using Suc by (simp add: rfold_append ac_simps)
  qed simp
  from this [of n] show ?thesis
    using len small hd by (simp add: copy_aligned_data_from_file_def Let_def le_word_bytes unat_of_nat32)
qed

section \<open>The codes\<close>

text \<open>The distances of chunk \<open>i\<close> of vector \<open>p\<close> to the centres of the table, as its block of vectors gives them.\<close>

definition vector_row :: "mkl \<Rightarrow> (nat \<Rightarrow> u32 list) \<Rightarrow> pq_table \<Rightarrow> nat \<Rightarrow> u32 list \<Rightarrow> nat \<Rightarrow> nat \<Rightarrow> u32 list" where
  "vector_row mk fresh t n X p i =
     (let B = min n BLOCK_SIZE; cur = block_len n B (p div B); dim = pt_ndims t; off = ch_off (pt_chunk_offsets t) i; sz = ch_size (pt_chunk_offsets t) i in
      dist_rows mk fresh (cols (slice X (p div B * B * dim) (cur * dim)) cur dim off sz) cur sz
        (cols (pt_tables t) NUM_PQ_CENTROIDS dim off sz) NUM_PQ_CENTROIDS (p mod B))"

lemma vector_code_closest:
  assumes mk: "mkl_ok mk" and fresh: "\<And>k. length (fresh k) = k" and p: "p < n" and B: "B = min n BLOCK_SIZE"
    and fits: "\<exists>j < NUM_PQ_CENTROIDS. flt (vector_row mk fresh t n X p i ! j) f_max"
  shows "is_closest (vector_row mk fresh t n X p i)
    (unat (ucast (vector_code mk fresh NUM_PQ_CENTROIDS (pt_ndims t) (pt_tables t) (pt_chunk_offsets t) B n X p i) :: byte))"
proof -
  let ?row = "vector_row mk fresh t n X p i" and ?cur = "block_len n B (p div B)"
  have B0: "0 < B" using p by (simp add: B BLOCK_SIZE_def)
  have "p div B * B + p mod B = p" by simp
  moreover have "(p div B + 1) * B = p div B * B + B" by simp
  ultimately have "p mod B + p div B * B < n" "p mod B + p div B * B < (p div B + 1) * B" using p mod_less_divisor [OF B0, of p] by linarith+
  then have "p mod B < ?cur" unfolding block_len_def less_diff_conv by simp
  then have len: "length ?row = NUM_PQ_CENTROIDS"
    unfolding vector_row_def Let_def dist_rows_def B [symmetric]
    by (intro length_slice) (simp only: distance_matrix_length [OF mk] fresh mult.commute [of NUM_PQ_CENTROIDS] row_bound)
  obtain j where j: "closest_in_row ?row (fresh ?cur ! (p mod B)) = of_nat j" "is_closest ?row j"
    using closest_in_row_ok fits len by metis
  have "vector_code mk fresh NUM_PQ_CENTROIDS (pt_ndims t) (pt_tables t) (pt_chunk_offsets t) B n X p i = of_nat j"
    using j(1) by (simp add: vector_code_def code_of_def vector_row_def Let_def flip: B)
  moreover have "j < 256" using j(2) len by (simp add: is_closest_def NUM_PQ_CENTROIDS_def)
  then have "unat (ucast (of_nat j :: u32) :: byte) = j" by (simp add: unsigned_ucast_eq unsigned_of_nat take_bit_nat_eq_self)
  ultimately show ?thesis using j(2) by simp
qed


text \<open>One dimension, with any 256 centres.\<close>

lemma one_dim_table:
  assumes "length ws = 256"
  shows "\<exists>w t. load_pq_centroid_bin w = Inr t \<and> table_wf t \<and> pt_tables t = ws \<and> pt_ndims t = 1 \<and> pt_n_chunks t = 1 \<and>
    pt_centroid t = [0] \<and> pt_chunk_offsets t = [0, 1] \<and> (\<forall>i < 256. center_at t 0 i = ws ! i)"
proof -
  have "load32s (bytes32s ws) 0 (length ws) = Inr ws" by (rule load32s_slice) (simp_all add: slice_def)
  then have ws: "load32s (bytes32s ws) 0 (NUM_PQ_CENTROIDS * 1) = Inr ws" "length ws = NUM_PQ_CENTROIDS * 1"
    using assms by (simp_all add: NUM_PQ_CENTROIDS_def)
  have "offset_words 1 1 = [0, 1]" by (simp add: offset_words_def chunk_off_def)
  then show ?thesis using load_written_table [OF _ _ _ ws] by (fastforce simp: NUM_PQ_CENTROIDS_def)
qed


end
