(* ===== verification/PqSearch.thy ===== *)
theory PqSearch
  imports PqCodes NeighborQueue
begin

text \<open>
  Searching compressed vectors: \<open>IndexBF\<close> of \<open>include/index_bf.h\<close>, which compares a query with every vector, and the class
  \<open>PQ\<close> of \<open>include/index.h\<close>, the approximate distances by which the distributed search prunes.
\<close>

section \<open>The index\<close>

record index_bf =
  bf_base_num :: u32
  bf_num_pq_chunks :: nat
  bf_pq_data :: "byte list"
  bf_pq_table :: pq_table

text \<open>
  The variable for the dimension of the file is also the rounded dimension that is passed by reference, so the rows are
  never padded, whatever the caller expects.
\<close>

definition load_codes :: "files \<Rightarrow> string \<Rightarrow> byte list \<Rightarrow> (byte list \<times> u32 \<times> u32) result" where
  "load_codes fs path data =
     rbind (open_read ''basic_ios::clear'' fs path) (\<lambda>f.
     rbind (read_throw f 4 4) (\<lambda>b. copy_aligned_data_from_file f data (unat (le_word b :: u32)) 0))"

definition load_table :: "files \<Rightarrow> string \<Rightarrow> pq_table result" where
  "load_table fs path = (case fs path of None \<Rightarrow> Inl Out_Of_Bounds | Some f \<Rightarrow> load_pq_centroid_bin f)"

definition load_pq_structure :: "files \<Rightarrow> (nat \<Rightarrow> byte list) \<Rightarrow> u32 \<Rightarrow> u32 \<Rightarrow> string \<Rightarrow> string \<Rightarrow> index_bf \<Rightarrow> index_bf result" where
  "load_pq_structure fs alloc num_points num_pq_chunks pq_pivots_file pq_compressed_vectors_file ix =
     (let ix = ix\<lparr>bf_num_pq_chunks := unat num_pq_chunks\<rparr> in
      rbind (load_codes fs pq_compressed_vectors_file (alloc (unat (num_points * num_pq_chunks)))) (\<lambda>(pq_data, num_points, num_pq_chunks).
      rbind (load_table fs pq_pivots_file) (\<lambda>t. Inr (ix\<lparr>bf_pq_data := pq_data, bf_pq_table := t\<rparr>))))"

section \<open>The priority queue\<close>

text \<open>\<open>std::priority_queue\<close> of pairs (distance, id): the largest pair is on top. It is kept as the list of its pairs from the top down.\<close>

type_synonym heap = "(u32 \<times> u32) list"

fun pair_less :: "u32 \<times> u32 \<Rightarrow> u32 \<times> u32 \<Rightarrow> bool" where
  "pair_less (d1, i1) (d2, i2) \<longleftrightarrow> flt d1 d2 \<or> \<not> flt d2 d1 \<and> i1 < i2"

fun heap_push :: "u32 \<times> u32 \<Rightarrow> heap \<Rightarrow> heap" where
  "heap_push x [] = [x]"
| "heap_push x (y # ys) = (if pair_less x y then y # heap_push x ys else x # y # ys)"

definition heap_top :: "heap \<Rightarrow> (u32 \<times> u32) result" where
  "heap_top q = (case q of [] \<Rightarrow> Inl Out_Of_Bounds | x # xs \<Rightarrow> Inr x)"

definition heap_pop :: "heap \<Rightarrow> heap result" where
  "heap_pop q = (case q of [] \<Rightarrow> Inl Out_Of_Bounds | x # xs \<Rightarrow> Inr xs)"

section \<open>The search\<close>

definition bf_offer :: "nat \<Rightarrow> u32 list \<Rightarrow> nat \<Rightarrow> heap \<Rightarrow> heap result" where
  "bf_offer k dists i top_k =
     rbind (rget dists i) (\<lambda>d.
     if length top_k < k then Inr (heap_push (d, of_nat i) top_k)
     else rbind (heap_top top_k) (\<lambda>t.
       if flt d (fst t) then rbind (heap_pop top_k) (\<lambda>q. Inr (heap_push (d, of_nat i) q)) else Inr top_k))"

definition bf_take :: "nat \<Rightarrow> u32 list \<times> u32 list \<times> heap \<Rightarrow> (u32 list \<times> u32 list \<times> heap) result" where
  "bf_take i s =
     (case s of (indices, res_dists, top_k) \<Rightarrow>
       rbind (heap_top top_k) (\<lambda>t. rbind (rput res_dists i (fst t)) (\<lambda>rd. rbind (rput indices i (snd t)) (\<lambda>idx.
       rbind (heap_pop top_k) (\<lambda>q. Inr (idx, rd, q))))))"

text \<open>\<open>fresh\<close> is the content of new memory; \<open>k\<close> fits an \<open>int\<close>.\<close>

definition BFSearch :: "index_bf \<Rightarrow> (nat \<Rightarrow> u32 list) \<Rightarrow> u32 list \<Rightarrow> nat \<Rightarrow> u32 list \<Rightarrow> u32 list \<Rightarrow> (u32 list \<times> u32 list) result" where
  "BFSearch ix fresh query k indices res_dists =
     rbind (populate_chunk_inner_products (bf_pq_table ix) query (fresh (bf_num_pq_chunks ix * NUM_PQ_CENTROIDS))) (\<lambda>pq_dists.
     rbind (rmap (\<lambda>i. pq_dist_lookup_single (bf_pq_data ix) (i * bf_num_pq_chunks ix) (bf_num_pq_chunks ix) pq_dists) [0..<unat (bf_base_num ix)]) (\<lambda>dists.
     rbind (rfold (bf_offer k dists) [0..<unat (bf_base_num ix)] []) (\<lambda>top_k.
     rbind (rfold bf_take (rev [0..<k]) (indices, take k res_dists @ replicate (k - length res_dists) 0, top_k)) (\<lambda>(indices, res_dists, top_k).
     Inr (indices, res_dists)))))"

section \<open>Approximate distances of the distributed search\<close>

record pq =
  pq_chunks :: u32
  pq_tab :: pq_table
  pq_codes :: "byte list"
  pq_dist_vec :: "u32 list list"
  pq_loaded :: bool

definition PQ_PIVOTS_PATH :: string where
  "PQ_PIVOTS_PATH = ''./data/deep100M_pq_pivots.fbin''"

definition PQ_COMP_PATH :: string where
  "PQ_COMP_PATH = ''./data/deep100M_pq_comp.fbin''"

text \<open>\<open>PQ::load\<close>; without the files, pruning by approximate distances stays off.\<close>

definition pq_load :: "files \<Rightarrow> (nat \<Rightarrow> byte list) \<Rightarrow> (nat \<Rightarrow> u32 list) \<Rightarrow> nat \<Rightarrow> pq \<Rightarrow> pq result" where
  "pq_load fs alloc fresh num_threads p =
     (if fs PQ_PIVOTS_PATH = None \<or> fs PQ_COMP_PATH = None then Inr (p\<lparr>pq_loaded := False\<rparr>)
      else let N = 100 * 1000 * 1000 :: u32; Dim = 96 :: u32; num_pq_chunks = Dim div 4 in
        rbind (load_codes fs PQ_COMP_PATH (alloc (unat (N * num_pq_chunks)))) (\<lambda>(pq_data, N, num_pq_chunks).
        rbind (load_table fs PQ_PIVOTS_PATH) (\<lambda>t.
        Inr (p\<lparr>pq_chunks := num_pq_chunks, pq_tab := t, pq_codes := pq_data,
               pq_dist_vec := map (\<lambda>i. fresh (unat (num_pq_chunks * of_nat NUM_PQ_CENTROIDS))) [0..<num_threads], pq_loaded := True\<rparr>))))"

definition inti_dist_vec :: "nat \<Rightarrow> u32 list \<Rightarrow> pq \<Rightarrow> pq result" where
  "inti_dist_vec tid query p =
     (if \<not> pq_loaded p then Inr p
      else rbind (rget (pq_dist_vec p) tid) (\<lambda>dist_vec.
        rbind (populate_chunk_distances (pq_tab p) query dist_vec) (\<lambda>dist_vec.
        Inr (p\<lparr>pq_dist_vec := (pq_dist_vec p)[tid := dist_vec]\<rparr>))))"

definition compute_dist :: "nat \<Rightarrow> u32 \<Rightarrow> pq \<Rightarrow> u32 result" where
  "compute_dist tid base_id p =
     (if \<not> pq_loaded p then Inr 0
      else rbind (rget (pq_dist_vec p) tid) (\<lambda>dist_vec.
        pq_dist_lookup_single (pq_codes p) (unat (base_id * pq_chunks p)) (unat (pq_chunks p)) dist_vec))"

section \<open>The queue keeps the least pairs\<close>

definition pair_key :: "u32 \<times> u32 \<Rightarrow> int \<times> nat" where
  "pair_key x = (f_place (fst x), unat (snd x))"

lemma pair_less_key:
  assumes "dec32 (fst x) \<noteq> NaN" and "dec32 (fst y) \<noteq> NaN"
  shows "pair_less x y \<longleftrightarrow> pair_key x < pair_key y"
  using assms by (cases x; cases y) (auto simp: pair_key_def flt_place word_less_nat_alt)

definition numbers :: "heap \<Rightarrow> bool" where
  "numbers q \<longleftrightarrow> (\<forall>x \<in> set q. dec32 (fst x) \<noteq> NaN)"

lemma set_heap_push [simp]: "set (heap_push x q) = insert x (set q)"
  by (induction q) auto

lemma heap_push_insort:
  assumes "numbers q" and "dec32 (fst x) \<noteq> NaN" and "pair_key x \<notin> pair_key ` set q" and "sorted_wrt (<) (rev (map pair_key q))"
  shows "rev (map pair_key (heap_push x q)) = insort (pair_key x) (rev (map pair_key q))"
  using assms
proof (induction q)
  case (Cons y ys)
  have y: "\<forall>z \<in> set (rev (map pair_key ys)). z < pair_key y" using Cons.prems(4) by (simp add: sorted_wrt_append)
  have less: "pair_less x y \<longleftrightarrow> pair_key x < pair_key y" using Cons.prems by (intro pair_less_key) (simp_all add: numbers_def)
  show ?case
  proof (cases "pair_key x < pair_key y")
    case True
    have ins: "insort a (zs @ [b]) = insort a zs @ [b]" if "a < b" for a b :: "int \<times> nat" and zs using that by (induction zs) auto
    show ?thesis using True Cons less by (simp add: numbers_def sorted_wrt_append ins)
  next
    case False
    then have "pair_key y < pair_key x" using Cons.prems(3) by auto
    then have "\<forall>z \<in> set (rev (map pair_key (y # ys))). z < pair_key x" using y by auto
    then show ?thesis using insort_split [of "rev (map pair_key (y # ys))" "pair_key x" "[]"] False less by simp
  qed
qed simp

text \<open>The keys of the first \<open>n\<close> distances.\<close>

definition dist_keys :: "u32 list \<Rightarrow> nat \<Rightarrow> (int \<times> nat) set" where
  "dist_keys dists n = (\<lambda>i. (f_place (dists ! i), i)) ` {..<n}"

lemma length_least_keys: "length (least_keys k S) = min k (card S)"
  by (simp add: least_keys_def)

lemma card_dist_keys: "card (dist_keys dists n) = n"
  unfolding dist_keys_def by (subst card_image) (auto simp: inj_on_def)

lemma bf_offer_ok:
  assumes dists: "i < length dists" "dec32 (dists ! i) \<noteq> NaN" "length dists < 2 ^ 32" and k: "0 < k"
    and q: "rev (map pair_key q) = least_keys k (dist_keys dists i)" "\<forall>x \<in> set q. unat (snd x) < i \<and> fst x = dists ! unat (snd x)" "numbers q"
  shows "\<exists>q'. bf_offer k dists i q = Inr q' \<and> rev (map pair_key q') = least_keys k (dist_keys dists (Suc i)) \<and>
    (\<forall>x \<in> set q'. unat (snd x) < Suc i \<and> fst x = dists ! unat (snd x)) \<and> numbers q'"
proof -
  let ?S = "dist_keys dists i" and ?x = "(dists ! i, of_nat i :: u32)"
  have i: "unat (of_nat i :: u32) = i" using dists(1,3) by (intro unat_of_nat32) simp
  have key: "pair_key ?x = (f_place (dists ! i), i)" using i by (simp add: pair_key_def)
  have S: "dist_keys dists (Suc i) = insert (pair_key ?x) ?S" unfolding key by (simp add: dist_keys_def lessThan_Suc)
  have fin: "finite ?S" by (simp add: dist_keys_def)
  have new: "pair_key ?x \<notin> ?S" unfolding key by (auto simp: dist_keys_def)
  have fresh: "pair_key ?x \<notin> set (least_keys k ?S)" using new set_least_keys [OF fin, of k] by blast
  have keys: "pair_key ` set q = set (least_keys k ?S)" using arg_cong [OF q(1), of set] by simp
  have insert: "least_keys k (dist_keys dists (Suc i)) = take k (insort (pair_key ?x) (rev (map pair_key q)))"
    using pool_insert_least_keys [OF fin fresh] by (simp add: S pool_insert_def q(1))
  have sorted: "sorted_wrt (<) (rev (map pair_key q))" unfolding q(1) by (rule least_keys_strict)
  have len: "length q = min k i" using arg_cong [OF q(1), of length] by (simp add: length_least_keys card_dist_keys)
  have old: "\<forall>x \<in> set q. unat (snd x) < Suc i \<and> fst x = dists ! unat (snd x)" using q(2) by auto
  show ?thesis
  proof (cases "length q < k")
    case True
    have "rev (map pair_key (heap_push ?x q)) = insort (pair_key ?x) (rev (map pair_key q))"
      by (rule heap_push_insort) (use q(3) dists(2) fresh keys sorted in auto)
    moreover have "length (insort (pair_key ?x) (rev (map pair_key q))) \<le> k" using True by simp
    ultimately have "rev (map pair_key (heap_push ?x q)) = least_keys k (dist_keys dists (Suc i))" unfolding insert by simp
    moreover have "bf_offer k dists i q = Inr (heap_push ?x q)" using True dists(1) by (simp add: bf_offer_def)
    ultimately show ?thesis using old q(3) dists(2) i by (simp add: numbers_def)
  next
    case False
    then have full: "length q = k" using len by simp
    then obtain t ts where t: "q = t # ts" using k by (cases q) auto
    have tsnd: "unat (snd t) < i" and tnum: "dec32 (fst t) \<noteq> NaN" using q(2,3) by (simp_all add: t numbers_def)
    have less: "flt (dists ! i) (fst t) \<longleftrightarrow> pair_key ?x < pair_key t"
      using dists(2) tnum tsnd unfolding key unfolding pair_key_def by (auto simp: flt_place)
    have top: "\<forall>z \<in> set (rev (map pair_key ts)). z < pair_key t" using sorted by (simp add: t sorted_wrt_append)
    show ?thesis
    proof (cases "pair_key ?x < pair_key t")
      case True
      have "sorted_wrt (<) (rev (map pair_key ts))" using sorted by (simp add: t sorted_wrt_append)
      then have push: "rev (map pair_key (heap_push ?x ts)) = insort (pair_key ?x) (rev (map pair_key ts))"
        by (intro heap_push_insort) (use q(3) dists(2) fresh keys in \<open>auto simp: t numbers_def\<close>)
      have ins: "insort a (zs @ [b]) = insort a zs @ [b]" if "a < b" for a b :: "int \<times> nat" and zs using that by (induction zs) auto
      have "take k (insort (pair_key ?x) (rev (map pair_key q))) = insort (pair_key ?x) (rev (map pair_key ts))"
        using ins [OF True, of "rev (map pair_key ts)"] full by (simp add: t)
      then have "rev (map pair_key (heap_push ?x ts)) = least_keys k (dist_keys dists (Suc i))" unfolding insert push by simp
      moreover have "bf_offer k dists i q = Inr (heap_push ?x ts)"
        using False True dists(1) less by (simp add: bf_offer_def t heap_top_def heap_pop_def)
      ultimately show ?thesis using old q(3) dists(2) i by (simp add: numbers_def t)
    next
      case False': False
      have "\<forall>z \<in> set (rev (map pair_key q)). z < pair_key ?x"
      proof -
        have "pair_key t \<noteq> pair_key ?x" using fresh keys by (auto simp: t)
        then have "pair_key t < pair_key ?x" using False' by auto
        then show ?thesis using top by (auto simp: t)
      qed
      then have "insort (pair_key ?x) (rev (map pair_key q)) = rev (map pair_key q) @ [pair_key ?x]"
        using insort_split [of "rev (map pair_key q)" "pair_key ?x" "[]"] by simp
      then have "rev (map pair_key q) = least_keys k (dist_keys dists (Suc i))" unfolding insert using full by simp
      moreover have "bf_offer k dists i q = Inr q"
        using False False' dists(1) less by (simp add: bf_offer_def t heap_top_def)
      ultimately show ?thesis using old q(3) by blast
    qed
  qed
qed

lemma bf_offers_ok:
  assumes "\<And>i. i < length dists \<Longrightarrow> dec32 (dists ! i) \<noteq> NaN" and "length dists < 2 ^ 32" and "0 < k"
  shows "\<exists>q. rfold (bf_offer k dists) [0..<length dists] [] = Inr q \<and> rev (map pair_key q) = least_keys k (dist_keys dists (length dists)) \<and>
    (\<forall>x \<in> set q. unat (snd x) < length dists \<and> fst x = dists ! unat (snd x)) \<and> length q = min k (length dists)"
proof -
  let ?P = "\<lambda>n q. rev (map pair_key q) = least_keys k (dist_keys dists n) \<and> (\<forall>x \<in> set q. unat (snd x) < n \<and> fst x = dists ! unat (snd x)) \<and> numbers q"
  have "\<exists>q. rfold (bf_offer k dists) [0..<length dists] [] = Inr q \<and> ?P (length [0..<length dists]) q"
  proof (rule rfold_invariant [where P = "\<lambda>is. ?P (length is)"])
    fix ys i zs q assume split: "[0..<length dists] = ys @ i # zs" and P: "?P (length ys) q"
    have i: "i = length ys" "i < length dists" using upt_split [OF split] by simp_all
    show "\<exists>q'. bf_offer k dists i q = Inr q' \<and> ?P (length (ys @ [i])) q'"
      using bf_offer_ok [OF i(2) assms(1) [OF i(2)] assms(2,3), of q] P by (simp add: i(1))
  qed (simp add: dist_keys_def least_keys_def numbers_def)
  then obtain q where q: "rfold (bf_offer k dists) [0..<length dists] [] = Inr q" "?P (length dists) q" by auto
  have "length q = min k (length dists)"
    using arg_cong [OF conjunct1 [OF q(2)], of length] by (simp add: length_least_keys card_dist_keys)
  with q show ?thesis by blast
qed

lemma bf_take_all:
  assumes "length q = k" and "k \<le> length idx" and "k \<le> length rd"
  shows "rfold bf_take (rev [0..<k]) (idx, rd, q) = Inr (map snd (rev q) @ drop k idx, map fst (rev q) @ drop k rd, [])"
  using assms
proof (induction q arbitrary: k idx rd)
  case (Cons x xs)
  then obtain n where k: "k = Suc n" "length xs = n" by (cases k) auto
  have drops: "drop n (rd[n := fst x]) = fst x # drop k rd" "drop n (idx[n := snd x]) = snd x # drop k idx"
    using Cons.prems k(1) by (simp_all add: drop_update_swap Cons_nth_drop_Suc [symmetric])
  have "rfold bf_take (rev [0..<k]) (idx, rd, x # xs) = rfold bf_take (rev [0..<n]) (idx[n := snd x], rd[n := fst x], xs)"
    using Cons.prems k(1) by (simp add: bf_take_def heap_top_def heap_pop_def)
  also have "\<dots> = Inr (map snd (rev xs) @ drop n (idx[n := snd x]), map fst (rev xs) @ drop n (rd[n := fst x]), [])"
    using Cons.prems k by (intro Cons.IH) simp_all
  finally show ?case by (simp add: drops)
qed simp

section \<open>The search\<close>

text \<open>The distance of vector \<open>i\<close>: the sums over the chunks, added up.\<close>

definition approx_ip :: "pq_table \<Rightarrow> u32 list \<Rightarrow> byte list \<Rightarrow> nat \<Rightarrow> u32" where
  "approx_ip t q codes i =
     foldl (\<lambda>x c. fadd x (chunk_fold ip_upd t q c (unat (codes ! (i * pt_n_chunks t + c))) 0)) 0 [0..<pt_n_chunks t]"

lemma load_codes_ok:
  assumes "fs path = Some (le_bytes 4 (of_nat n :: u32) @ le_bytes 4 (of_nat m :: u32) @ codes)" and "length codes = n * m" "length buf = n * m"
    and "n < 2 ^ 32" "m < 2 ^ 32"
  shows "load_codes fs path buf = Inr (codes, of_nat n, of_nat m)"
  using copy_aligned_full [OF refl assms(2-5)] assms(5)
  by (simp add: load_codes_def assms(1) open_read_def read_throw_def slice_def le_word_bytes unat_of_nat32)

lemma approx_dists:
  assumes wf: "table_wf t" and q: "pt_ndims t \<le> length query" and fresh: "\<And>k. length (fresh k) = k" and codes: "length codes = n * pt_n_chunks t"
  shows "\<exists>dv. populate_chunk_inner_products t query (fresh (pt_n_chunks t * NUM_PQ_CENTROIDS)) = Inr dv \<and>
    rmap (\<lambda>i. pq_dist_lookup_single codes (i * pt_n_chunks t) (pt_n_chunks t) dv) [0..<n] = Inr (map (approx_ip t query codes) [0..<n])"
proof -
  let ?m = "pt_n_chunks t" and ?N = NUM_PQ_CENTROIDS
  obtain dv where dv: "populate ip_upd t query (fresh (?m * ?N)) = Inr dv" "length dv = ?m * ?N"
      "\<And>c i. c < ?m \<Longrightarrow> i < ?N \<Longrightarrow> dv ! (c * ?N + i) = chunk_fold ip_upd t query c i 0"
    using populate_ok [OF wf q, of "fresh (?m * ?N)" ip_upd] fresh by (auto simp: mult.commute)
  have "pq_dist_lookup_single codes (i * ?m) ?m dv = Inr (approx_ip t query codes i)" if "i < n" for i
  proof -
    have fits: "i * ?m + ?m \<le> length codes" using row_bound [OF that, of ?m] codes by simp
    have "foldl (\<lambda>x c. fadd x (dv ! (?N * c + unat (codes ! (i * ?m + c))))) 0 [0..<?m] = approx_ip t query codes i"
      unfolding approx_ip_def by (intro foldl_cong) (simp_all add: dv(3) [OF _ byte_center, simplified mult.commute [of _ ?N]])
    then show ?thesis using lookup_single_ok [OF fits, of dv] dv(2) by (simp add: mult.commute)
  qed
  then have "rmap (\<lambda>i. pq_dist_lookup_single codes (i * ?m) ?m dv) [0..<n] = Inr (map (approx_ip t query codes) [0..<n])"
    by (intro rmap_pure) simp
  with dv(1) show ?thesis by (simp add: populate_chunk_inner_products_def)
qed

text \<open>
  C40: the compressed vectors and the table load as they were written, and the search over them returns the \<open>k\<close> vectors
  with the least (distance, id), in order, with their distances, when the distances are numbers.
\<close>

theorem bf_search_nearest:
  assumes "fs piv = Some w" and "load_pq_centroid_bin w = Inr t" and "table_wf t" and "m = pt_n_chunks t"
    and "fs codes_path = Some (le_bytes 4 (of_nat n :: u32) @ le_bytes 4 (of_nat m :: u32) @ codes)" and "length codes = n * m"
    and "n < 2 ^ 32" and "m < 2 ^ 32" and "n * m < 2 ^ 32" and "\<And>k. length (alloc k) = k" and "\<And>k. length (fresh k) = k"
    and "bf_base_num ix = of_nat n" and "pt_ndims t \<le> length query" and "0 < k" and "k \<le> n" and "k \<le> length indices"
    and "\<And>i. i < n \<Longrightarrow> dec32 (approx_ip t query codes i) \<noteq> NaN"
  shows "\<exists>ix' ids rd. load_pq_structure fs alloc (of_nat n) (of_nat m) piv codes_path ix = Inr ix' \<and>
    BFSearch ix' fresh query k indices [] = Inr (ids @ drop k indices, rd) \<and>
    length ids = k \<and> map pair_key (zip rd ids) = least_keys k ((\<lambda>i. (f_place (approx_ip t query codes i), i)) ` {..<n}) \<and>
    (\<forall>j < k. rd ! j = approx_ip t query codes (unat (ids ! j)))"
proof -
  let ?ds = "map (approx_ip t query codes) [0..<n]"
  define ix' where "ix' = ix\<lparr>bf_num_pq_chunks := m, bf_pq_data := codes, bf_pq_table := t\<rparr>"
  have "unat (of_nat n * of_nat m :: u32) = n * m" using assms(9) by (simp add: unat_of_nat32 flip: of_nat_mult)
  then have load: "load_pq_structure fs alloc (of_nat n) (of_nat m) piv codes_path ix = Inr ix'"
    using load_codes_ok [of fs codes_path n m codes "alloc (n * m)", OF assms(5,6) _ assms(7,8)] assms(1,2,8,10)
    by (simp add: load_pq_structure_def load_table_def ix'_def unat_of_nat32)
  obtain dv where dv: "populate_chunk_inner_products t query (fresh (m * NUM_PQ_CENTROIDS)) = Inr dv"
      "rmap (\<lambda>i. pq_dist_lookup_single codes (i * m) m dv) [0..<n] = Inr ?ds"
    using approx_dists [OF assms(3,13), of fresh codes n] assms(4,6,11) by auto
  obtain q where q: "rfold (bf_offer k ?ds) [0..<n] [] = Inr q" "rev (map pair_key q) = least_keys k (dist_keys ?ds n)"
      "\<And>x. x \<in> set q \<Longrightarrow> unat (snd x) < n \<and> fst x = ?ds ! unat (snd x)" "length q = k"
    using bf_offers_ok [of ?ds k] assms(7,14,15,17) by auto
  have sel: "bf_pq_table ix' = t" "bf_num_pq_chunks ix' = m" "bf_pq_data ix' = codes" "unat (bf_base_num ix') = n"
    using assms(7,12) by (simp_all add: ix'_def unat_of_nat32)
  have "BFSearch ix' fresh query k indices [] = Inr (map snd (rev q) @ drop k indices, map fst (rev q))"
    unfolding BFSearch_def sel dv rbind_Inr q(1) using bf_take_all [OF q(4) assms(16), of "replicate k 0"] by simp
  moreover have "zip (map fst (rev q)) (map snd (rev q)) = rev q" by (rule zip_map_fst_snd)
  moreover have "dist_keys ?ds n = (\<lambda>i. (f_place (approx_ip t query codes i), i)) ` {..<n}" by (simp add: dist_keys_def)
  moreover have "map fst (rev q) ! j = approx_ip t query codes (unat (map snd (rev q) ! j))" if "j < k" for j
    using q(3) [of "rev q ! j"] q(4) that nth_mem [of j "rev q"] by simp
  ultimately show ?thesis using load q(2) by (intro exI [of _ ix'] exI [of _ "map snd (rev q)"] exI [of _ "map fst (rev q)"]) (simp add: rev_map q(4))
qed

section \<open>Approximate distances for pruning\<close>

definition approx_l2 :: "pq_table \<Rightarrow> u32 list \<Rightarrow> byte list \<Rightarrow> nat \<Rightarrow> u32" where
  "approx_l2 t q codes i =
     foldl (\<lambda>x c. fadd x (chunk_fold l2_upd t q c (unat (codes ! (i * pt_n_chunks t + c))) 0)) 0 [0..<pt_n_chunks t]"

text \<open>After a query was tabulated by a thread, the distance of every vertex is its tabulated squared distance; the threads do not disturb each other.\<close>

lemma compute_dist_ok:
  assumes "pq_loaded p" and wf: "table_wf (pq_tab p)" and m: "m = pt_n_chunks (pq_tab p)" "unat (pq_chunks p) = m"
    and tid: "tid < length (pq_dist_vec p)" "length (pq_dist_vec p ! tid) = NUM_PQ_CENTROIDS * m" and q: "pt_ndims (pq_tab p) \<le> length query"
    and codes: "length (pq_codes p) = n * m" and v: "v < n" and small: "n * m < 2 ^ 32" "n < 2 ^ 32"
  shows "\<exists>p'. inti_dist_vec tid query p = Inr p' \<and> compute_dist tid (of_nat v) p' = Inr (approx_l2 (pq_tab p) query (pq_codes p) v) \<and>
    (\<forall>t < length (pq_dist_vec p). t \<noteq> tid \<longrightarrow> pq_dist_vec p' ! t = pq_dist_vec p ! t)"
proof -
  let ?t = "pq_tab p"
  obtain dv where dv: "populate l2_upd ?t query (pq_dist_vec p ! tid) = Inr dv" "length dv = NUM_PQ_CENTROIDS * m"
      "\<And>c i. c < m \<Longrightarrow> i < NUM_PQ_CENTROIDS \<Longrightarrow> dv ! (c * NUM_PQ_CENTROIDS + i) = chunk_fold l2_upd ?t query c i 0"
    using populate_ok [OF wf q, of "pq_dist_vec p ! tid" l2_upd] tid(2) m(1) by auto
  define p' where "p' = p\<lparr>pq_dist_vec := (pq_dist_vec p)[tid := dv]\<rparr>"
  have init: "inti_dist_vec tid query p = Inr p'"
    using assms(1) tid(1) dv(1) by (simp add: inti_dist_vec_def populate_chunk_distances_def p'_def)
  have fits: "v * m + m \<le> length (pq_codes p)" using row_bound [OF v, of m] codes by simp
  have "v * m \<le> n * m" "v < 2 ^ 32" using v small(2) by (auto intro: mult_le_mono1)
  then have "v * m < 2 ^ 32" "v < 2 ^ 32" using small(1) by linarith+
  then have "unat (of_nat v * pq_chunks p) = v * m" using m(2) small(1) by (simp add: unat_word_ariths unat_of_nat32)
  moreover have "foldl (\<lambda>x c. fadd x (dv ! (NUM_PQ_CENTROIDS * c + unat (pq_codes p ! (v * m + c))))) 0 [0..<m] = approx_l2 ?t query (pq_codes p) v"
    unfolding approx_l2_def m(1) [symmetric] by (intro foldl_cong) (simp_all add: dv(3) [OF _ byte_center, simplified mult.commute [of _ NUM_PQ_CENTROIDS]])
  ultimately have "compute_dist tid (of_nat v) p' = Inr (approx_l2 ?t query (pq_codes p) v)"
    using assms(1) tid(1) dv(2) lookup_single_ok [OF fits, of dv] by (simp add: compute_dist_def p'_def m(2))
  with init show ?thesis by (intro exI [of _ p']) (simp add: p'_def)
qed

text \<open>Two vectors in one dimension, coded by the centres 0 and 1; the query is 3.\<close>

definition empty_bf :: "u32 \<Rightarrow> index_bf" where
  "empty_bf n = \<lparr>bf_base_num = n, bf_num_pq_chunks = 0, bf_pq_data = [],
     bf_pq_table = \<lparr>pt_tables = [], pt_ndims = 0, pt_n_chunks = 0, pt_chunk_offsets = [], pt_centroid = [], pt_tables_tr = []\<rparr>\<rparr>"

theorem bf_search_nearest_witness:
  "\<exists>fs ix' rd. load_pq_structure fs (\<lambda>k. replicate k 0) 2 1 ''pivots'' ''codes'' (empty_bf 2) = Inr ix' \<and>
    BFSearch ix' (\<lambda>k. replicate k 0) [0x40400000] 1 [9] [] = Inr ([1], rd)"
proof -
  define ws :: "u32 list" where "ws = [0, 0x3F800000] @ replicate 254 0"
  obtain w t where t: "load_pq_centroid_bin w = Inr t" "table_wf t" "pt_ndims t = 1" "pt_n_chunks t = 1" "pt_chunk_offsets t = [0, 1]"
      "\<forall>i < 256. center_at t 0 i = ws ! i" using one_dim_table [of ws] by (auto simp: ws_def)
  let ?fs = "[''pivots'' \<mapsto> w, ''codes'' \<mapsto> le_bytes 4 (of_nat 2 :: u32) @ le_bytes 4 (of_nat 1 :: u32) @ [0, 1]]"
  let ?d = "approx_ip t [0x40400000] [0, 1]"
  have fints: "fint 0x40400000 3" "fint 0x3F800000 1"
    by (auto simp: fint_def fl_is_def dec32_def fl_decode_def f32_def Let_def f_unit_def)
  have dims: "dims_of t 0 = [0]" using t(5) by (simp add: dims_of_def)
  have ip: "fint (ip_upd 0 c 0x40400000) (- (C * 3))" if "fint c C" "\<bar>C\<bar> \<le> 1" for c C
  proof -
    have "\<bar>0\<bar> + \<bar>- (C * 3)\<bar> \<le> 2 ^ 24" using that(2) by simp
    with upd_exact_ip fint_zero that(1) fints(1) have "fint (ip_upd 0 c 0x40400000) (0 + - (C * 3))" unfolding upd_exact_def by blast
    then show ?thesis by simp
  qed
  have dist: "?d i = fadd 0 (ip_upd 0 (ws ! i) 0x40400000)" if "i < 2" for i
    using that t(4,6) by (auto simp: approx_ip_def chunk_fold_def dims less_2_cases_iff)
  have "fint (fadd 0 (ip_upd 0 (ws ! i) 0x40400000)) (0 + - (int i * 3))" if "i < 2" for i
    by (rule fint_add [OF fint_zero ip]) (use that fints(2) in \<open>auto simp: ws_def less_2_cases_iff\<close>)
  then have d: "fint (?d i) (- (int i * 3))" if "i < 2" for i using dist [OF that] that by simp
  have num: "dec32 (?d i) \<noteq> NaN" if "i < 2" for i using d [OF that] by (auto simp: fint_def fl_is_def)
  have "(\<lambda>i. (f_place (?d i), i)) ` {..<2} = {(0, 0 :: nat), (- (3 * 2 ^ 149), 1)}"
    using f_place_fint [OF d [of 0]] f_place_fint [OF d [of 1]] by (auto simp: less_2_cases_iff image_iff)
  then have least: "least_keys 1 ((\<lambda>i. (f_place (?d i), i)) ` {..<2}) = [(- (3 * 2 ^ 149), 1 :: nat)]"
    by (simp add: least_keys_def)
  have hyps: "?fs ''pivots'' = Some w" "1 = pt_n_chunks t" "?fs ''codes'' = Some (le_bytes 4 (of_nat 2 :: u32) @ le_bytes 4 (of_nat 1 :: u32) @ [0, 1])"
    "length [0, 1 :: byte] = 2 * 1" "(2 :: nat) < 2 ^ 32" "(1 :: nat) < 2 ^ 32" "(2 :: nat) * 1 < 2 ^ 32"
    "\<And>k. length (replicate k (0 :: byte)) = k" "\<And>k. length (replicate k (0 :: u32)) = k"
    "bf_base_num (empty_bf 2) = of_nat 2" "pt_ndims t \<le> length [0x40400000 :: u32]" "(0 :: nat) < 1" "(1 :: nat) \<le> 2" "1 \<le> length [9 :: u32]"
    using t(3,4) by (simp_all add: empty_bf_def)
  obtain ix' ids rd where r: "load_pq_structure ?fs (\<lambda>k. replicate k 0) (of_nat 2) (of_nat 1) ''pivots'' ''codes'' (empty_bf 2) = Inr ix'"
      "BFSearch ix' (\<lambda>k. replicate k 0) [0x40400000] 1 [9] [] = Inr (ids @ drop 1 [9], rd)"
      "length ids = 1" "map pair_key (zip rd ids) = [(- (3 * 2 ^ 149), 1)]"
    by (rule bf_search_nearest [OF hyps(1) t(1,2) hyps(2-) num, unfolded least, THEN exE]) (assumption, elim exE conjE, rule that)
  obtain i where ids: "ids = [i]" using r(3) by (auto simp: length_Suc_conv)
  then have "unat i = 1" using r(4) by (cases rd) (auto simp: pair_key_def)
  then have "i = 1" by (simp add: word_unat_eq_iff)
  then show ?thesis using r(1,2) ids by (intro exI [of _ ?fs] exI [of _ ix'] exI [of _ rd]) simp
qed

end
