(* ===== verification/BaseFiles.thy ===== *)
theory BaseFiles
  imports BinFiles FloatExact
begin

text \<open>
  Loading base vectors for the brute-force index, \<open>IndexBF::LoadBaseData\<close> of \<open>include/index_bf.h\<close> with the readers of
  \<open>include/efanna2e/util.h\<close>. Rows are padded to a multiple of eight floats (the machine has AVX).
\<close>

section \<open>Square roots\<close>

fun isqrt :: "nat \<Rightarrow> nat" where
  "isqrt n = (if n = 0 then 0 else let r = 2 * isqrt (n div 4) in if (r + 1) * (r + 1) \<le> n then r + 1 else r)"

declare isqrt.simps [simp del]

lemma isqrt_bounds: "isqrt n * isqrt n \<le> n \<and> n < (isqrt n + 1) * (isqrt n + 1)"
proof (induction n rule: isqrt.induct)
  case (1 n)
  show ?case
  proof (cases "n = 0")
    case False
    define q where "q = isqrt (n div 4)"
    have IH: "q * q \<le> n div 4" "n div 4 < (q + 1) * (q + 1)" using 1 [OF False] by (simp_all add: q_def)
    have "n div 4 * 4 \<le> n" "n < (n div 4 + 1) * 4" by simp_all
    moreover have "(n div 4 + 1) * 4 \<le> (q + 1) * (q + 1) * 4" using IH(2) by (intro mult_le_mono1) simp
    ultimately have "(2 * q) * (2 * q) \<le> n" "n < (2 * q + 2) * (2 * q + 2)" using IH(1) by (simp_all add: algebra_simps)
    moreover have "isqrt n = (if (2 * q + 1) * (2 * q + 1) \<le> n then 2 * q + 1 else 2 * q)"
      using False by (subst isqrt.simps) (simp only: Let_def q_def if_False)
    ultimately show ?thesis by (cases "(2 * q + 1) * (2 * q + 1) \<le> n") (simp_all add: not_le)
  qed (simp add: isqrt.simps)
qed

text \<open>
  The root of a finite number in units of its format. When the root is no whole number of units, a half is added to
  the part below: rounding keeps at most the leading bits of the root, which has more than those.
\<close>

fun fl_sqrt :: "fmt \<Rightarrow> fl \<Rightarrow> fl" where
  "fl_sqrt f (Fin s k) =
     (if k = 0 then Fin s 0
      else if s then NaN
      else let n = k * 2 ^ f_unit f; r = isqrt n in
        if r * r = n then fl_round f False r 1 else fl_round f False (2 * r + 1) 2)"
| "fl_sqrt f (Inf s) = (if s then NaN else Inf False)"
| "fl_sqrt f NaN = NaN"

definition fsqrt :: "u32 \<Rightarrow> u32" where
  "fsqrt a = enc32 (fl_sqrt f32 (dec32 a))"

section \<open>Reading and padding\<close>

definition DATA_ALIGN_FACTOR :: nat where
  "DATA_ALIGN_FACTOR = 8"

definition aligned_dim :: "nat \<Rightarrow> nat" where
  "aligned_dim d = (d + DATA_ALIGN_FACTOR - 1) div DATA_ALIGN_FACTOR * DATA_ALIGN_FACTOR"

text \<open>The number of vectors must be the one the size of the file gives.\<close>

definition load_meta :: "fbytes \<Rightarrow> (u32 \<times> u32) result" where
  "load_meta f =
     rbind (load32 f 0) (\<lambda>points_num. rbind (load32 f 4) (\<lambda>dim.
     rbind (require (dim \<noteq> 0) (Runtime_Error ''division by zero'')) (\<lambda>_.
     let calc_contained_pts = of_nat ((length f - 8) div unat dim div 4) :: u32 in
     rbind (require (points_num = calc_contained_pts) (Runtime_Error ''Data file size wrong!'')) (\<lambda>_.
     Inr (points_num, dim)))))"

text \<open>Every row goes to a padded row of the new array. A file that is too short leaves the position of the stream at -1.\<close>

definition load_data :: "fbytes \<Rightarrow> nat \<Rightarrow> nat \<Rightarrow> u32 list result" where
  "load_data f pts d =
     (if 8 + pts * d * 4 \<le> length f then
        rbind (rmap (\<lambda>i. load_words 4 f (8 + i * (d * 4)) d) [0..<pts]) (\<lambda>rows.
        Inr (concat (map (\<lambda>row. row @ replicate (aligned_dim d - d) 0) rows)))
      else Inl (Runtime_Error ''Data file size wrong!''))"

text \<open>\<open>data_align\<close> pads rows of \<open>d\<close> floats that follow each other without gaps.\<close>

definition data_align :: "u32 list \<Rightarrow> nat \<Rightarrow> nat \<Rightarrow> (u32 list \<times> nat) result" where
  "data_align data_ori pts d =
     rbind (rmap (\<lambda>i. rslice data_ori (i * d) d) [0..<pts]) (\<lambda>rows.
     Inr (concat (map (\<lambda>row. row @ replicate (aligned_dim d - d) 0) rows), unat (of_nat (aligned_dim d) :: u32)))"

definition normalize :: "u32 list \<Rightarrow> u32 list" where
  "normalize arr = (let sm = fsqrt (foldl (\<lambda>s x. fadd s (fmul x x)) 0 arr) in map (\<lambda>x. fdiv x sm) arr)"

section \<open>Loading the base\<close>

record base_data =
  bd_data :: "u32 list"
  bd_num :: u32
  bd_dim :: u32

text \<open>The array that \<open>load_data\<close> has padded is padded again. The result and the dimension the caller gets.\<close>

definition LoadBaseData :: "files \<Rightarrow> string \<Rightarrow> bool \<Rightarrow> (base_data \<times> nat) result" where
  "LoadBaseData fs base_data_file need_normalize =
     rbind (open_read ''open file error'' fs base_data_file) (\<lambda>f.
     rbind (load_meta f) (\<lambda>(base_num, base_dim).
     rbind (load_data f (unat base_num) (unat base_dim)) (\<lambda>base_data.
     rbind (data_align base_data (unat base_num) (unat base_dim)) (\<lambda>(aligned_base_data, new_dim).
     rbind (rmap (\<lambda>i. rslice aligned_base_data (i * new_dim) new_dim) [0..<unat base_num]) (\<lambda>rows.
     Inr (\<lparr>bd_data = (if need_normalize then concat (map normalize rows) else aligned_base_data), bd_num = base_num, bd_dim = base_dim\<rparr>, new_dim))))))"

section \<open>Padding twice\<close>

lemma concat_uniform_nth:
  assumes "\<And>r. r \<in> set rows \<Longrightarrow> length r = c" and "i < length rows" and "j < c"
  shows "concat rows ! (i * c + j) = rows ! i ! j"
  using assms
proof (induction rows arbitrary: i)
  case (Cons r rows)
  then show ?case by (cases i) (auto simp: nth_append add.assoc)
qed simp

text \<open>
  Element \<open>j\<close> of the second vector after padding twice is the element behind the first vector, of the array whose rows
  already are padded: with a dimension that is no multiple of eight it is a zero of the padding.
\<close>

lemma padded_twice:
  assumes rows: "\<And>r. r \<in> set rows \<Longrightarrow> length r = d" and "2 \<le> length rows" and "d < aligned_dim d" and "0 < d"
  shows "\<exists>a n. data_align (concat (map (\<lambda>r. r @ replicate (aligned_dim d - d) 0) rows)) (length rows) d = Inr (a, n) \<and> a ! aligned_dim d = 0"
proof -
  let ?A = "aligned_dim d" and ?pad = "\<lambda>r. r @ replicate (aligned_dim d - d) (0 :: u32)"
  let ?data = "concat (map ?pad rows)"
  have "sum_list (map length (map ?pad rows)) = sum_list (map (\<lambda>_. ?A) rows)"
    using rows assms(3) by (auto intro!: arg_cong [where f = sum_list])
  then have len: "length ?data = length rows * ?A" by (simp add: length_concat sum_list_triv)
  have "i * d + d \<le> length ?data" if "i < length rows" for i
  proof -
    have "i * d + d \<le> length rows * d" using row_bound [OF that] .
    also have "\<dots> \<le> length rows * ?A" using assms(3) by (intro mult_le_mono2) simp
    finally show ?thesis unfolding len .
  qed
  then have "rmap (\<lambda>i. rslice ?data (i * d) d) [0..<length rows] = Inr (map (\<lambda>i. slice ?data (i * d) d) [0..<length rows])"
    by (intro rmap_pure) simp
  then have run: "data_align ?data (length rows) d =
      Inr (concat (map ?pad (map (\<lambda>i. slice ?data (i * d) d) [0..<length rows])), unat (of_nat ?A :: u32))"
    by (simp only: data_align_def rbind_Inr)
  have slen: "length (slice ?data (i * d) d) = d" if "i < length rows" for i
    using \<open>\<And>i. i < length rows \<Longrightarrow> i * d + d \<le> length ?data\<close> [OF that] by simp
  have "concat (map ?pad (map (\<lambda>i. slice ?data (i * d) d) [0..<length rows])) ! (1 * ?A + 0) = map ?pad (map (\<lambda>i. slice ?data (i * d) d) [0..<length rows]) ! 1 ! 0"
    by (rule concat_uniform_nth) (use slen assms in auto)
  also have "\<dots> = slice ?data (1 * d) d ! 0" using slen [of 1] assms(2,4) by (simp add: nth_append)
  also have "\<dots> = ?data ! d"
  proof -
    have "0 < length rows" using assms(2) by linarith
    then have "d \<le> length ?data" using \<open>\<And>i. i < length rows \<Longrightarrow> i * d + d \<le> length ?data\<close> by fastforce
    then show ?thesis using assms(4) by (simp only: slice_def nth_take mult_1) simp
  qed
  also have "\<dots> = 0" using rows assms(2,3) by (cases rows) (simp_all add: nth_append)
  finally show ?thesis using run by simp
qed

text \<open>So the second of two vectors of a file of one-dimensional vectors is lost.\<close>

lemma load_base_scrambled:
  "\<exists>b. LoadBaseData [''base'' \<mapsto> [2, 0, 0, 0, 1, 0, 0, 0, 0, 0, 128, 63, 0, 0, 0, 64]] ''base'' False = Inr (b, 8) \<and>
    bd_data b ! 0 = 0x3F800000 \<and> bd_data b ! 8 = 0"
  by (simp add: LoadBaseData_def open_read_def load_meta_def load_data_def data_align_def load_words_def load32_def load_def slice_def
      aligned_dim_def DATA_ALIGN_FACTOR_def rslice_def upt_rec nth_append)

end
