(* ===== verification/SimpleMap.thy ===== *)
theory SimpleMap
  imports Prelude
begin

unbundle bit_operations_syntax

text \<open>
  The hash map of the RDMA library (\<open>rdma_lib/simple_map.hpp\<close>): 64 buckets, each with a first entry in place and a
  chain behind it. An entry is never changed or removed, so a pointer to the next entry is the entry. The slots
  of a new map have no defined content; they are an argument of the constructor. \<open>record_sets\<close> is never used.
\<close>

section \<open>The map\<close>

datatype 'v simple_bucket =
  Simple_Bucket (sb_key: u32) (sb_val: 'v) (sb_next: "'v simple_bucket option")

record 'v simple_map =
  sm_slots :: "'v simple_bucket list"
  sm_slot_empty :: "bool list"
  sm_dummy_val :: 'v
  sm_size :: nat

definition S_BUCKET_NUM :: nat where "S_BUCKET_NUM = 64"

text \<open>The loop over the data runs once, and the \<open>switch\<close> on \<open>8 & 7\<close> has no branch for 0.\<close>

definition murmur_hash64A :: "u64 \<Rightarrow> u32 \<Rightarrow> u64" where
  "murmur_hash64A key seed =
     (let m = 0xc6a4a7935bd1e995; r = 47;
          h = ucast seed XOR (8 * m);
          k = key * m;
          k = k XOR drop_bit r k;
          k = k * m;
          h = h XOR k;
          h = h * m;
          h = h XOR drop_bit r h;
          h = h * m
      in h XOR drop_bit r h)"

definition get_hash :: "u32 \<Rightarrow> nat" where
  "get_hash key = unat (murmur_hash64A (scast key) 0xdeadbeef) mod S_BUCKET_NUM"

definition sm_new :: "'v simple_bucket list \<Rightarrow> 'v \<Rightarrow> 'v simple_map" where
  "sm_new slots d =
     \<lparr>sm_slots = slots, sm_slot_empty = replicate S_BUCKET_NUM True, sm_dummy_val = d, sm_size = 0\<rparr>"

text \<open>The walk to the end of a chain, where the new entry is linked.\<close>

fun sb_link :: "'v simple_bucket \<Rightarrow> 'v simple_bucket \<Rightarrow> 'v simple_bucket" where
  "sb_link nb (Simple_Bucket k v None) = Simple_Bucket k v (Some nb)"
| "sb_link nb (Simple_Bucket k v (Some b)) = Simple_Bucket k v (Some (sb_link nb b))"

definition sm_insert :: "u32 \<Rightarrow> 'v \<Rightarrow> 'v simple_map \<Rightarrow> 'v simple_map" where
  "sm_insert key val m =
     (let hash = get_hash key in
      if sm_slot_empty m ! hash
      then m\<lparr>sm_slots := (sm_slots m)[hash := Simple_Bucket key val None],
             sm_slot_empty := (sm_slot_empty m)[hash := False], sm_size := sm_size m + 1\<rparr>
      else m\<lparr>sm_slots := (sm_slots m)[hash := sb_link (Simple_Bucket key val None) (sm_slots m ! hash)],
             sm_size := sm_size m + 1\<rparr>)"

fun sb_find :: "u32 \<Rightarrow> 'v \<Rightarrow> 'v simple_bucket option \<Rightarrow> 'v" where
  "sb_find key d None = d"
| "sb_find key d (Some (Simple_Bucket k v nxt)) = (if k = key then v else sb_find key d nxt)"

text \<open>\<open>operator[]\<close> yields a reference; every use in the library reads it.\<close>

definition sm_lookup :: "'v simple_map \<Rightarrow> u32 \<Rightarrow> 'v" where
  "sm_lookup m key =
     (let hash = get_hash key in
      if sm_slot_empty m ! hash then sm_dummy_val m
      else let b = sm_slots m ! hash in
        if sb_key b = key then sb_val b else sb_find key (sm_dummy_val m) (sb_next b))"

section \<open>The map it stands for\<close>

text \<open>The entries of a chain, those of a bucket, and the map of all of them: the first entry of a key counts.\<close>

fun sb_entries :: "'v simple_bucket \<Rightarrow> (u32 \<times> 'v) list" where
  "sb_entries (Simple_Bucket k v None) = [(k, v)]"
| "sb_entries (Simple_Bucket k v (Some b)) = (k, v) # sb_entries b"

definition sm_entries :: "'v simple_map \<Rightarrow> nat \<Rightarrow> (u32 \<times> 'v) list" where
  "sm_entries m i = (if sm_slot_empty m ! i then [] else sb_entries (sm_slots m ! i))"

definition sm_map :: "'v simple_map \<Rightarrow> u32 \<Rightarrow> 'v option" where
  "sm_map m key = map_of (sm_entries m (get_hash key)) key"

definition sm_wf :: "'v simple_map \<Rightarrow> bool" where
  "sm_wf m \<longleftrightarrow> length (sm_slots m) = S_BUCKET_NUM \<and> length (sm_slot_empty m) = S_BUCKET_NUM \<and>
     sm_size m = (\<Sum>i<S_BUCKET_NUM. length (sm_entries m i))"

lemma get_hash_less [simp]: "get_hash key < S_BUCKET_NUM"
  by (simp add: get_hash_def S_BUCKET_NUM_def)

lemma sb_entries_link: "sb_entries (sb_link nb b) = sb_entries b @ sb_entries nb"
  by (induction nb b rule: sb_link.induct) simp_all

lemma sb_find_entries: "sb_find key d (Some b) = (case map_of (sb_entries b) key of None \<Rightarrow> d | Some v \<Rightarrow> v)"
  by (induction b rule: sb_entries.induct) auto

lemma sm_entries_insert:
  assumes "sm_wf m" and "i < S_BUCKET_NUM"
  shows "sm_entries (sm_insert key val m) i = sm_entries m i @ (if i = get_hash key then [(key, val)] else [])"
  using assms by (auto simp: sm_insert_def sm_entries_def sm_wf_def Let_def sb_entries_link nth_list_update)

lemma sm_new_wf [simp]: "length slots = S_BUCKET_NUM \<Longrightarrow> sm_wf (sm_new slots d)"
  by (simp add: sm_wf_def sm_new_def sm_entries_def)

lemma sm_map_new [simp]: "sm_map (sm_new slots d) key = None"
  by (simp add: sm_map_def sm_new_def sm_entries_def)

lemma sm_insert_dummy [simp]: "sm_dummy_val (sm_insert key val m) = sm_dummy_val m"
  by (simp add: sm_insert_def Let_def)

lemma sm_insert_size: "sm_size (sm_insert key val m) = sm_size m + 1"
  by (simp add: sm_insert_def Let_def)

lemma sm_insert_wf [simp]:
  assumes "sm_wf m"
  shows "sm_wf (sm_insert key val m)"
proof -
  have "(\<Sum>i<S_BUCKET_NUM. length (sm_entries (sm_insert key val m) i)) =
      (\<Sum>i<S_BUCKET_NUM. length (sm_entries m i) + (if i = get_hash key then 1 else 0))"
    by (rule sum.cong) (auto simp: sm_entries_insert [OF assms])
  also have "\<dots> = (\<Sum>i<S_BUCKET_NUM. length (sm_entries m i)) + 1"
    by (simp add: sum.distrib)
  finally have "sm_size (sm_insert key val m) = (\<Sum>i<S_BUCKET_NUM. length (sm_entries (sm_insert key val m) i))"
    using assms by (simp add: sm_wf_def sm_insert_size)
  with assms show ?thesis by (simp add: sm_wf_def) (simp add: sm_insert_def Let_def)
qed

text \<open>The interface of the clients: an insertion adds a key that was absent, and changes no other.\<close>

locale first_wins_map =
  fixes wf :: "'m \<Rightarrow> bool" and view :: "'m \<Rightarrow> 'k \<Rightarrow> 'v option"
    and ins :: "'k \<Rightarrow> 'v \<Rightarrow> 'm \<Rightarrow> 'm" and dummy :: "'m \<Rightarrow> 'v" and get :: "'m \<Rightarrow> 'k \<Rightarrow> 'v"
  assumes wf_ins: "wf m \<Longrightarrow> wf (ins k v m)"
    and dummy_ins: "dummy (ins k v m) = dummy m"
    and view_ins: "wf m \<Longrightarrow> view (ins k v m) = (if view m k = None then (view m)(k \<mapsto> v) else view m)"
    and get_view: "wf m \<Longrightarrow> get m k = (case view m k of None \<Rightarrow> dummy m | Some v \<Rightarrow> v)"
begin

lemma get_ins:
  assumes "wf m"
  shows "get (ins k v m) k' = (if k' = k \<and> view m k = None then v else get m k')"
  using assms by (auto simp: get_view wf_ins view_ins dummy_ins cong: option.case_cong)

lemma wf_inserts: "wf m \<Longrightarrow> wf (fold (\<lambda>(k, v). ins k v) kvs m)"
  by (induction kvs arbitrary: m) (auto simp: wf_ins)

lemma dummy_inserts: "dummy (fold (\<lambda>(k, v). ins k v) kvs m) = dummy m"
  by (induction kvs arbitrary: m) (auto simp: dummy_ins)

lemma view_inserts:
  "wf m \<Longrightarrow> view (fold (\<lambda>(k, v). ins k v) kvs m) = map_of kvs ++ view m"
proof (induction kvs arbitrary: m)
  case (Cons kv kvs)
  obtain k v where kv: "kv = (k, v)" by force
  from Cons show ?case
    by (auto simp: kv wf_ins view_ins map_add_def fun_eq_iff split: option.split)
qed simp

lemma get_inserts:
  assumes "wf m" and "view m = Map.empty"
  shows "get (fold (\<lambda>(k, v). ins k v) kvs m) k = (case map_of kvs k of None \<Rightarrow> dummy m | Some v \<Rightarrow> v)"
  using assms by (simp add: get_view wf_inserts view_inserts dummy_inserts cong: option.case_cong)

end

interpretation sm: first_wins_map sm_wf sm_map sm_insert sm_dummy_val sm_lookup
proof (unfold_locales, goal_cases)
  case (3 m k v)
  then show ?case
    by (auto simp: sm_map_def sm_entries_insert fun_eq_iff map_add_def split: option.split)
next
  case (4 m k)
  show ?case
  proof (cases "sm_slot_empty m ! get_hash k")
    case False
    have "sm_lookup m k = sb_find k (sm_dummy_val m) (Some (sm_slots m ! get_hash k))"
      using False by (cases "sm_slots m ! get_hash k") (simp add: sm_lookup_def Let_def)
    with False show ?thesis by (simp add: sb_find_entries sm_map_def sm_entries_def)
  qed (simp add: sm_lookup_def Let_def sm_map_def sm_entries_def)
qed (simp_all)

text \<open>
  C32: entries put into a new map with \<open>insert\<close> are found by \<open>operator[]\<close> as in the list of insertions: the first
  value inserted for a key, and the dummy value for a key that was never inserted, whatever the slots held at
  first and however the keys collide. The size counts the insertions.
\<close>

theorem simple_map_finds_first:
  assumes "length slots = S_BUCKET_NUM"
  shows "sm_lookup (fold (\<lambda>(k, v). sm_insert k v) kvs (sm_new slots d)) key =
      (case map_of kvs key of None \<Rightarrow> d | Some v \<Rightarrow> v) \<and>
    sm_size (fold (\<lambda>(k, v). sm_insert k v) kvs (sm_new slots d)) = length kvs"
proof
  have "sm_dummy_val (sm_new slots d) = d" "sm_map (sm_new slots d) = Map.empty"
    by (auto simp: sm_new_def) (simp add: fun_eq_iff flip: sm_new_def)
  with sm.get_inserts [of "sm_new slots d" kvs key] assms
  show "sm_lookup (fold (\<lambda>(k, v). sm_insert k v) kvs (sm_new slots d)) key =
      (case map_of kvs key of None \<Rightarrow> d | Some v \<Rightarrow> v)" by (simp cong: option.case_cong)
  have "sm_size (fold (\<lambda>(k, v). sm_insert k v) kvs m) = sm_size m + length kvs" for m :: "'a simple_map"
    by (induction kvs arbitrary: m) (auto simp: sm_insert_size)
  then show "sm_size (fold (\<lambda>(k, v). sm_insert k v) kvs (sm_new slots d)) = length kvs"
    by (simp add: sm_new_def)
qed

lemma simple_map_finds_first_witness:
  "sm_lookup (fold (\<lambda>(k, v). sm_insert k v) [(3, True), (3, False), (4, True)]
     (sm_new (replicate S_BUCKET_NUM (Simple_Bucket 3 False None)) False)) 3 = True"
  using simple_map_finds_first [of "replicate S_BUCKET_NUM (Simple_Bucket 3 False None)"
    "[(3, True), (3, False), (4, True)]" False 3] by simp

end
