(* ===== verification/RecvRing.thy ===== *)
theory RecvRing
  imports SimpleMap
begin

text \<open>
  Receiving (\<open>rdma_lib/rdmaio.hpp\<close>): every queue pair that receives has an array of receive requests, linked into
  a ring, whose buffers lie one after the other in the registered memory. Polling counts the requests used up, and
  posts them again once there are more than one. The helpers of the queue pairs are objects reached by pointers
  from the hash map of the library; a pointer is the index of its object. The verbs library is a parameter.
\<close>

section \<open>Requests and helpers\<close>

record sge =
  sg_addr :: nat
  sg_length :: nat
  sg_lkey :: u32

record recv_wr =
  rr_wr_id :: nat
  rr_sge :: sge
  rr_next :: "nat option"

definition RC_MAX_RECV_SIZE :: nat where "RC_MAX_RECV_SIZE = 1024"
definition UD_MAX_RECV_SIZE :: nat where "UD_MAX_RECV_SIZE = 2048"
definition MIN_STEP_SIZE :: nat where "MIN_STEP_SIZE = 64"
definition MAX_PACKET_SIZE :: nat where "MAX_PACKET_SIZE = 4032"
definition GRH_SIZE :: nat where "GRH_SIZE = 40"

text \<open>\<open>cap.max_recv_wr\<close> of a reliable queue pair, as \<open>init_rc\<close> asks for it.\<close>

definition rc_max_recv_wr :: nat where "rc_max_recv_wr = 1"

text \<open>
  \<open>next\<close> is a pointer into the array \<open>rr\<close>. The arrays of the code have 2048 entries; those from \<open>max_recv_num\<close> on
  are never used. The completions in \<open>wc\<close> are read only for their status, right after the poll.
\<close>

record recv_helper =
  recv_head :: nat
  recv_step :: nat
  idle_recv_num :: nat
  max_idle_recv_num :: nat
  max_recv_num :: nat
  rh_rr :: "recv_wr list"

text \<open>
  \<open>ibv_post_recv\<close> on a queue pair, with the buffers of a list of requests; \<open>ibv_poll_cq\<close> on its receive queue for
  at most a number of completions, \<open>None\<close> for a negative result, otherwise the request and the success of each.
\<close>

record 'n recv_verbs =
  rv_post :: "u32 \<Rightarrow> (nat \<times> sge) list \<Rightarrow> 'n \<Rightarrow> 'n \<times> int"
  rv_poll :: "u32 \<Rightarrow> nat \<Rightarrow> 'n \<Rightarrow> 'n \<times> (nat \<times> bool) list option"

record 'n recv_ctrl =
  rc_net :: 'n
  rc_qps :: "u32 list"
  rc_conn_buf :: nat
  rc_conn_lkey :: u32
  rc_dgram_buf :: nat
  rc_dgram_lkey :: u32
  rc_heap :: "recv_helper list"
  rc_recv_helpers :: "nat option simple_map"

text \<open>\<open>recv_helpers_[qid]\<close> of a queue pair that has none is the null pointer, which is then followed.\<close>

definition helper_of :: "'n recv_ctrl \<Rightarrow> u32 \<Rightarrow> nat result" where
  "helper_of c qid = (case sm_lookup (rc_recv_helpers c) qid of None \<Rightarrow> Inl Out_Of_Bounds | Some p \<Rightarrow> Inr p)"

section \<open>Posting\<close>

text \<open>
  The requests that the library walks through, from one to the next: none if the walk leaves the array or never
  ends.
\<close>

partial_function (option) rr_chain :: "recv_wr list \<Rightarrow> nat \<Rightarrow> (nat \<times> sge) list option" where
  "rr_chain rr i =
     (if i < length rr
      then case rr_next (rr ! i) of
          None \<Rightarrow> Some [(rr_wr_id (rr ! i), rr_sge (rr ! i))]
        | Some j \<Rightarrow> Option.bind (rr_chain rr j) (\<lambda>ws. Some ((rr_wr_id (rr ! i), rr_sge (rr ! i)) # ws))
      else None)"

text \<open>
  The ring is cut behind the last request while the library has it. The code is there twice, for connections and
  for datagrams.
\<close>

definition post_recvs :: "'n recv_verbs \<Rightarrow> u32 \<Rightarrow> nat \<Rightarrow> 'n recv_ctrl \<Rightarrow> 'n recv_ctrl result" where
  "post_recvs rv qid recv_num c =
     rbind (helper_of c qid) (\<lambda>p.
     let h = rc_heap c ! p;
         head = recv_head h;
         tail = int head + int recv_num - 1;
         tail = (if int (max_recv_num h) \<le> tail then tail - int (max_recv_num h) else tail)
     in rbind (require (0 \<le> tail \<and> nat tail < length (rh_rr h)) Out_Of_Bounds) (\<lambda>_.
     let t = nat tail;
         temp_rr = rr_next (rh_rr h ! t);
         rr = (rh_rr h)[t := (rh_rr h ! t)\<lparr>rr_next := None\<rparr>]
     in case rr_chain rr head of
         None \<Rightarrow> Inl Out_Of_Fuel
       | Some ws \<Rightarrow>
         (case rv_post rv qid ws (rc_net c) of (n, rc) \<Rightarrow>
          rbind (require (rc = 0) Assert_Failed) (\<lambda>_.
          let rr = rr[t := (rr ! t)\<lparr>rr_next := temp_rr\<rparr>]
          in Inr (c\<lparr>rc_net := n,
               rc_heap := (rc_heap c)[p := h\<lparr>rh_rr := rr, recv_head := (t + 1) mod max_recv_num h\<rparr>]\<rparr>)))))"

definition post_conn_recvs :: "'n recv_verbs \<Rightarrow> u32 \<Rightarrow> nat \<Rightarrow> 'n recv_ctrl \<Rightarrow> 'n recv_ctrl result" where
  "post_conn_recvs rv qid recv_num c = post_recvs rv qid recv_num c"

definition post_ud_recvs :: "'n recv_verbs \<Rightarrow> u32 \<Rightarrow> nat \<Rightarrow> 'n recv_ctrl \<Rightarrow> 'n recv_ctrl result" where
  "post_ud_recvs rv qid recv_num c = post_recvs rv qid recv_num c"

section \<open>Setting up\<close>

text \<open>\<open>while (recv_step < bound) recv_step += MIN_STEP_SIZE;\<close>\<close>

function step_loop :: "nat \<Rightarrow> nat \<Rightarrow> nat" where
  "step_loop bound s = (if s < bound then step_loop bound (s + MIN_STEP_SIZE) else s)"
  by pat_completeness auto

termination
  by (relation "measure (\<lambda>(bound, s). bound - s)") (auto simp: MIN_STEP_SIZE_def)

declare step_loop.simps [simp del]

definition recv_entry :: "nat \<Rightarrow> u32 \<Rightarrow> nat \<Rightarrow> nat \<Rightarrow> nat \<times> sge" where
  "recv_entry base lkey step i = (base + i * step, \<lparr>sg_addr = base + i * step, sg_length = step, sg_lkey = lkey\<rparr>)"

definition recv_requests :: "nat \<Rightarrow> u32 \<Rightarrow> nat \<Rightarrow> nat \<Rightarrow> recv_wr list" where
  "recv_requests base lkey step num =
     map (\<lambda>i. \<lparr>rr_wr_id = fst (recv_entry base lkey step i), rr_sge = snd (recv_entry base lkey step i),
       rr_next = Some (if i < num - 1 then i + 1 else 0)\<rparr>) [0..<num]"

text \<open>The object that both functions fill: \<open>max_idle_recv_num\<close> keeps its initial value 1.\<close>

definition new_recv_helper :: "nat \<Rightarrow> nat \<Rightarrow> recv_wr list \<Rightarrow> recv_helper" where
  "new_recv_helper step num rr =
     \<lparr>recv_head = 0, recv_step = step, idle_recv_num = 0, max_idle_recv_num = 1, max_recv_num = num, rh_rr = rr\<rparr>"

definition add_helper :: "u32 \<Rightarrow> recv_helper \<Rightarrow> 'n recv_ctrl \<Rightarrow> 'n recv_ctrl" where
  "add_helper qid h c = c\<lparr>rc_heap := rc_heap c @ [h],
     rc_recv_helpers := sm_insert qid (Some (length (rc_heap c))) (rc_recv_helpers c)\<rparr>"

definition init_conn_recv_qp :: "'n recv_verbs \<Rightarrow> u32 \<Rightarrow> 'n recv_ctrl \<Rightarrow> 'n recv_ctrl result" where
  "init_conn_recv_qp rv qid c =
     rbind (require (qid \<in> set (rc_qps c)) Out_Of_Bounds) (\<lambda>_.
     let num = RC_MAX_RECV_SIZE; step = step_loop MAX_PACKET_SIZE 0 in
     rbind (require (0 < step \<and> step mod MIN_STEP_SIZE = 0) Assert_Failed) (\<lambda>_.
     let rr = recv_requests (rc_conn_buf c) (rc_conn_lkey c) step num in
     post_conn_recvs rv qid num (add_helper qid (new_recv_helper step num rr) c)))"

text \<open>A datagram is received behind a header of 40 bytes, so that the data of a buffer is aligned.\<close>

definition init_dgram_recv_qp :: "'n recv_verbs \<Rightarrow> u32 \<Rightarrow> 'n recv_ctrl \<Rightarrow> 'n recv_ctrl result" where
  "init_dgram_recv_qp rv qid c =
     rbind (require (qid \<in> set (rc_qps c)) Out_Of_Bounds) (\<lambda>_.
     let num = UD_MAX_RECV_SIZE; step = step_loop (MAX_PACKET_SIZE + GRH_SIZE) 0 in
     rbind (require (0 < step \<and> step mod MIN_STEP_SIZE = 0) Assert_Failed) (\<lambda>_.
     let rr = recv_requests (rc_dgram_buf c + (MIN_STEP_SIZE - GRH_SIZE)) (rc_dgram_lkey c) step num in
     post_ud_recvs rv qid num (add_helper qid (new_recv_helper step num rr) c)))"

section \<open>Polling\<close>

text \<open>The code is there twice, too; \<open>post\<close> is the function that posts the used requests again.\<close>

definition poll_recv_cqs ::
    "(u32 \<Rightarrow> nat \<Rightarrow> 'n recv_ctrl \<Rightarrow> 'n recv_ctrl result) \<Rightarrow> 'n recv_verbs \<Rightarrow> u32 \<Rightarrow> 'n recv_ctrl \<Rightarrow> ('n recv_ctrl \<times> int) result" where
  "poll_recv_cqs post rv qid c =
     rbind (require (qid \<in> set (rc_qps c)) Out_Of_Bounds) (\<lambda>_.
     rbind (helper_of c qid) (\<lambda>p.
     let h = rc_heap c ! p in
     case rv_poll rv qid (max_recv_num h) (rc_net c) of
       (n, None) \<Rightarrow> Inl Assert_Failed
     | (n, Some cs) \<Rightarrow>
       let rc = (if list_all snd cs then int (length cs) else - 1);
           idle = idle_recv_num h + length cs;
           c = c\<lparr>rc_net := n, rc_heap := (rc_heap c)[p := h\<lparr>idle_recv_num := idle\<rparr>]\<rparr>
       in if max_idle_recv_num h < idle
          then rbind (post qid idle c) (\<lambda>c.
            Inr (c\<lparr>rc_heap := (rc_heap c)[p := (rc_heap c ! p)\<lparr>idle_recv_num := 0\<rparr>]\<rparr>, rc))
          else Inr (c, rc)))"

definition poll_conn_recv_cqs :: "'n recv_verbs \<Rightarrow> u32 \<Rightarrow> 'n recv_ctrl \<Rightarrow> ('n recv_ctrl \<times> int) result" where
  "poll_conn_recv_cqs rv qid c = poll_recv_cqs (post_conn_recvs rv) rv qid c"

definition poll_dgram_recv_cqs :: "'n recv_verbs \<Rightarrow> u32 \<Rightarrow> 'n recv_ctrl \<Rightarrow> ('n recv_ctrl \<times> int) result" where
  "poll_dgram_recv_cqs rv qid c = poll_recv_cqs (post_ud_recvs rv) rv qid c"

section \<open>What the library promises\<close>

text \<open>
  The buffers posted and not yet used, per queue pair and in order. A receive queue takes a list for which it has
  room, and refuses one for which it has not (\<open>ENOMEM\<close>). A poll returns completions of the first buffers; it may
  return fewer than there are, and they may be failures.
\<close>

definition recv_post_ok :: "'n recv_verbs \<Rightarrow> ('n \<Rightarrow> u32 \<Rightarrow> (nat \<times> sge) list) \<Rightarrow> (u32 \<Rightarrow> nat) \<Rightarrow> bool" where
  "recv_post_ok rv out cap \<longleftrightarrow> (\<forall>n q ws.
     (length (out n q) + length ws \<le> cap q \<longrightarrow>
        (\<exists>n'. rv_post rv q ws n = (n', 0) \<and> out n' = (out n)(q := out n q @ ws))) \<and>
     (cap q < length (out n q) + length ws \<longrightarrow> snd (rv_post rv q ws n) \<noteq> 0))"

definition recv_poll_ok :: "'n recv_verbs \<Rightarrow> ('n \<Rightarrow> u32 \<Rightarrow> (nat \<times> sge) list) \<Rightarrow> bool" where
  "recv_poll_ok rv out \<longleftrightarrow> (\<forall>n q k. \<exists>n' cs. rv_poll rv q k n = (n', Some cs) \<and>
     length cs \<le> k \<and> length cs \<le> length (out n q) \<and>
     map fst cs = map fst (take (length cs) (out n q)) \<and> out n' = (out n)(q := drop (length cs) (out n q)))"

definition recv_ok :: "'n recv_verbs \<Rightarrow> ('n \<Rightarrow> u32 \<Rightarrow> (nat \<times> sge) list) \<Rightarrow> (u32 \<Rightarrow> nat) \<Rightarrow> bool" where
  "recv_ok rv out cap \<longleftrightarrow> recv_post_ok rv out cap \<and> recv_poll_ok rv out"

definition sge_disjoint :: "nat \<times> sge \<Rightarrow> nat \<times> sge \<Rightarrow> bool" where
  "sge_disjoint v w \<longleftrightarrow> sg_addr (snd v) + sg_length (snd v) \<le> sg_addr (snd w) \<or>
     sg_addr (snd w) + sg_length (snd w) \<le> sg_addr (snd v)"

section \<open>The ring\<close>

text \<open>\<open>num\<close> entries of the ring, from \<open>i\<close> on.\<close>

definition ring_part :: "(nat \<Rightarrow> 'a) \<Rightarrow> nat \<Rightarrow> nat \<Rightarrow> nat \<Rightarrow> 'a list" where
  "ring_part e num i k = map (\<lambda>j. e ((i + j) mod num)) [0..<k]"

lemma length_ring_part [simp]: "length (ring_part e num i k) = k"
  by (simp add: ring_part_def)

lemma ring_part_0 [simp]: "ring_part e num i 0 = []"
  by (simp add: ring_part_def)

lemma ring_part_Suc: "ring_part e num i (Suc k) = e (i mod num) # ring_part e num (Suc i) k"
  unfolding ring_part_def by (simp add: map_upt_Suc del: upt_Suc)

lemma ring_part_mod: "ring_part e num (i mod num) k = ring_part e num i k"
  by (simp add: ring_part_def mod_add_left_eq)

lemma ring_part_append: "ring_part e num i k @ ring_part e num (i + k) l = ring_part e num i (k + l)"
  by (rule nth_equalityI) (auto simp: ring_part_def nth_append)

lemma drop_ring_part: "drop l (ring_part e num i k) = ring_part e num (i + l) (k - l)"
  by (rule nth_equalityI) (auto simp: ring_part_def ac_simps)

text \<open>A walk of \<open>k\<close> requests ends where the ring is cut.\<close>

lemma rr_chain_ring:
  assumes "rr = (recv_requests base lkey step num)[t := (recv_requests base lkey step num ! t)\<lparr>rr_next := None\<rparr>]"
    and "t < num"
  shows "i < num \<Longrightarrow> 0 < k \<Longrightarrow> k \<le> num \<Longrightarrow> (i + k - 1) mod num = t \<Longrightarrow>
    rr_chain rr i = Some (ring_part (recv_entry base lkey step) num i k)"
proof (induction k arbitrary: i)
  case (Suc k)
  have entry: "length rr = num" "rr_wr_id (rr ! i) = fst (recv_entry base lkey step i)"
    "rr_sge (rr ! i) = snd (recv_entry base lkey step i)"
    "rr_next (rr ! i) = (if i = t then None else Some (if i < num - 1 then i + 1 else 0))"
    using assms Suc.prems(1) by (auto simp: recv_requests_def nth_list_update)
  show ?case
  proof (cases k)
    case 0
    then have "i = t" using Suc.prems by simp
    with 0 entry Suc.prems(1) show ?thesis
      by (subst rr_chain.simps) (simp add: ring_part_Suc)
  next
    case (Suc k')
    let ?j = "if i < num - 1 then i + 1 else 0"
    have j: "?j = (i + 1) mod num" "?j < num"
      using Suc.prems(1) by (cases "Suc i = num", simp, simp)+
    have "(?j + k - 1) mod num = (i + 1 + (k - 1)) mod num"
      unfolding j(1) using Suc by (simp add: mod_add_left_eq flip: add_diff_assoc)
    then have t: "(?j + k - 1) mod num = t" using Suc.prems(4) Suc by simp
    have "i \<noteq> t"
    proof
      assume "i = t"
      with Suc.prems(4) have "(i + k) mod num = i mod num" using Suc.prems(1) by simp
      then have "num dvd k" by (simp add: mod_eq_dvd_iff_nat)
      with Suc.prems(3) Suc show False by (auto dest: dvd_imp_le)
    qed
    moreover have "rr_chain rr ?j = Some (ring_part (recv_entry base lkey step) num ?j k)"
      by (rule Suc.IH) (use j t Suc Suc.prems in auto)
    moreover have "ring_part (recv_entry base lkey step) num ?j k = ring_part (recv_entry base lkey step) num (Suc i) k"
      unfolding j(1) by (simp add: ring_part_mod)
    ultimately show ?thesis using entry Suc.prems(1)
      by (subst rr_chain.simps) (simp add: ring_part_Suc)
  qed
qed simp


lemma recv_requests_length [simp]: "length (recv_requests base lkey step num) = num"
  by (simp add: recv_requests_def)

lemma recv_postD:
  assumes "recv_ok rv out cap" and "length (out n q) + length ws \<le> cap q"
  shows "\<exists>n'. rv_post rv q ws n = (n', 0) \<and> out n' = (out n)(q := out n q @ ws)"
  using assms unfolding recv_ok_def recv_post_ok_def by blast

text \<open>Posting \<open>k\<close> requests gives the library the next \<open>k\<close> buffers from the head on.\<close>

lemma post_recvs_eq:
  assumes p: "sm_lookup (rc_recv_helpers c) q = Some p" "rc_heap c ! p = h"
    and h: "rh_rr h = recv_requests base lkey step num" "max_recv_num h = num" "recv_head h < num"
    and k: "0 < k" "k \<le> num"
  shows "post_recvs rv q k c =
    (case rv_post rv q (ring_part (recv_entry base lkey step) num (recv_head h) k) (rc_net c) of (n, rc) \<Rightarrow>
     rbind (require (rc = 0) Assert_Failed) (\<lambda>_. Inr (c\<lparr>rc_net := n,
       rc_heap := (rc_heap c)[p := h\<lparr>recv_head := (recv_head h + k) mod num\<rparr>]\<rparr>)))"
proof -
  let ?i = "recv_head h" and ?ring = "recv_requests base lkey step num"
  let ?tail = "if int num \<le> int ?i + int k - 1 then int ?i + int k - 1 - int num else int ?i + int k - 1"
  define t where "t = (?i + k - 1) mod num"
  have t: "t = (if num \<le> ?i + k - 1 then ?i + k - 1 - num else ?i + k - 1)"
    unfolding t_def using h(3) k by (auto simp: mod_if)
  then have tail: "?tail = int t" using k h(3) by auto
  have "t < num" unfolding t_def using h(3) by (intro mod_less_divisor) simp
  have chain: "rr_chain (?ring[t := (?ring ! t)\<lparr>rr_next := None\<rparr>]) ?i =
      Some (ring_part (recv_entry base lkey step) num ?i k)"
    by (rule rr_chain_ring [OF refl \<open>t < num\<close>]) (use h(3) k t_def in simp_all)
  have relink: "?ring[t := (?ring ! t)\<lparr>rr_next := rr_next (?ring ! t)\<rparr>] = ?ring" by simp
  have "Suc t mod num = (?i + k) mod num"
    using k unfolding t_def by (simp add: mod_Suc_eq)
  moreover have "h\<lparr>rh_rr := ?ring\<rparr> = h" using h(1) by (cases h) simp
  then have "h\<lparr>rh_rr := ?ring, recv_head := x\<rparr> = h\<lparr>recv_head := x\<rparr>" for x by (rule arg_cong)
  ultimately show ?thesis
    unfolding post_recvs_def helper_of_def p(1) option.case rbind_Inr Let_def p(2) h(1,2) tail
    using chain \<open>t < num\<close> relink by (simp add: prod.case_eq_if)
qed

lemma post_recvs_ring:
  assumes rv: "recv_ok rv out cap" and p: "sm_lookup (rc_recv_helpers c) q = Some p" "rc_heap c ! p = h"
    and h: "rh_rr h = recv_requests base lkey step num" "max_recv_num h = num" "recv_head h < num"
    and k: "0 < k" "k \<le> num" and room: "length (out (rc_net c) q) + k \<le> cap q"
  shows "\<exists>n'. post_recvs rv q k c = Inr (c\<lparr>rc_net := n',
      rc_heap := (rc_heap c)[p := h\<lparr>recv_head := (recv_head h + k) mod num\<rparr>]\<rparr>) \<and>
    out n' = (out (rc_net c))(q := out (rc_net c) q @ ring_part (recv_entry base lkey step) num (recv_head h) k)"
  using recv_postD [OF rv, of "rc_net c" q "ring_part (recv_entry base lkey step) num (recv_head h) k"] room
  by (auto simp: post_recvs_eq [OF p h k])

text \<open>A receive queue without room refuses, and the assertion fails.\<close>

lemma post_recvs_refused:
  assumes rv: "recv_ok rv out cap" and p: "sm_lookup (rc_recv_helpers c) q = Some p" "rc_heap c ! p = h"
    and h: "rh_rr h = recv_requests base lkey step num" "max_recv_num h = num" "recv_head h < num"
    and k: "0 < k" "k \<le> num" and room: "cap q < length (out (rc_net c) q) + k"
  shows "post_recvs rv q k c = Inl Assert_Failed"
proof -
  have "snd (rv_post rv q (ring_part (recv_entry base lkey step) num (recv_head h) k) (rc_net c)) \<noteq> 0"
    using rv room unfolding recv_ok_def recv_post_ok_def by simp
  then show ?thesis by (simp add: post_recvs_eq [OF p h k] prod.case_eq_if require_def)
qed

section \<open>Several queue pairs\<close>

text \<open>Different queue pairs have different objects.\<close>

definition helpers_ok :: "'n recv_ctrl \<Rightarrow> bool" where
  "helpers_ok c \<longleftrightarrow> sm_wf (rc_recv_helpers c) \<and> sm_dummy_val (rc_recv_helpers c) = None \<and>
     (\<forall>q. sm_map (rc_recv_helpers c) q \<noteq> Some None) \<and>
     (\<forall>q p. sm_lookup (rc_recv_helpers c) q = Some p \<longrightarrow> p < length (rc_heap c) \<and>
        (\<forall>q'. sm_lookup (rc_recv_helpers c) q' = Some p \<longrightarrow> q' = q))"

text \<open>
  The invariant of one queue pair: posted are all requests of its ring but the one, at most, that was used and not
  yet posted again, in the order of the ring.
\<close>

definition ring_ok :: "('n \<Rightarrow> u32 \<Rightarrow> (nat \<times> sge) list) \<Rightarrow> nat \<Rightarrow> u32 \<Rightarrow> nat \<Rightarrow> nat \<Rightarrow> 'n recv_ctrl \<Rightarrow> u32 \<Rightarrow> bool" where
  "ring_ok out base lkey step num c q \<longleftrightarrow> (\<exists>p h. sm_lookup (rc_recv_helpers c) q = Some p \<and> rc_heap c ! p = h \<and>
     rh_rr h = recv_requests base lkey step num \<and> max_recv_num h = num \<and> max_idle_recv_num h = 1 \<and>
     recv_head h < num \<and> idle_recv_num h \<le> 1 \<and>
     out (rc_net c) q = ring_part (recv_entry base lkey step) num (recv_head h + idle_recv_num h) (num - idle_recv_num h))"

definition same_params :: "'n recv_ctrl \<Rightarrow> 'n recv_ctrl \<Rightarrow> bool" where
  "same_params c c' \<longleftrightarrow> rc_qps c' = rc_qps c \<and> rc_conn_buf c' = rc_conn_buf c \<and> rc_conn_lkey c' = rc_conn_lkey c \<and>
     rc_dgram_buf c' = rc_dgram_buf c \<and> rc_dgram_lkey c' = rc_dgram_lkey c"

text \<open>An operation on one queue pair leaves the objects and the receive queues of the others alone.\<close>

definition only_touches :: "('n \<Rightarrow> u32 \<Rightarrow> (nat \<times> sge) list) \<Rightarrow> u32 \<Rightarrow> 'n recv_ctrl \<Rightarrow> 'n recv_ctrl \<Rightarrow> bool" where
  "only_touches out q c c' \<longleftrightarrow> same_params c c' \<and> rc_recv_helpers c' = rc_recv_helpers c \<and>
     length (rc_heap c') = length (rc_heap c) \<and>
     (\<forall>p. sm_lookup (rc_recv_helpers c) q \<noteq> Some p \<longrightarrow> rc_heap c' ! p = rc_heap c ! p) \<and>
     (\<forall>q'. q' \<noteq> q \<longrightarrow> out (rc_net c') q' = out (rc_net c) q')"

lemma ring_ok_posted:
  "ring_ok out base lkey step num c q \<Longrightarrow>
    \<exists>head idle. idle \<le> 1 \<and> out (rc_net c) q = ring_part (recv_entry base lkey step) num head (num - idle)"
  unfolding ring_ok_def by blast

lemma only_touches_store: "only_touches out q c c' \<Longrightarrow> helpers_ok c \<Longrightarrow> helpers_ok c'"
  by (simp add: only_touches_def helpers_ok_def)

lemma only_touches_ring:
  assumes "only_touches out q c c'" and "helpers_ok c" and "q' \<noteq> q" and "ring_ok out base lkey step num c q'"
  shows "ring_ok out base lkey step num c' q'"
proof -
  from assms(4) obtain p where "sm_lookup (rc_recv_helpers c) q' = Some p" by (auto simp: ring_ok_def)
  with assms(1-3) have "sm_lookup (rc_recv_helpers c') q' = Some p" "rc_heap c' ! p = rc_heap c ! p"
    "out (rc_net c') q' = out (rc_net c) q'"
    by (auto simp: only_touches_def helpers_ok_def)
  with assms(4) \<open>sm_lookup (rc_recv_helpers c) q' = Some p\<close> show ?thesis by (auto simp: ring_ok_def)
qed

lemma add_helper_lookup:
  assumes "helpers_ok c" and "sm_lookup (rc_recv_helpers c) q = None"
  shows "sm_lookup (rc_recv_helpers (add_helper q h c)) q' =
      (if q' = q then Some (length (rc_heap c)) else sm_lookup (rc_recv_helpers c) q')"
proof -
  have "sm_map (rc_recv_helpers c) q = None"
    using assms by (auto simp: helpers_ok_def sm.get_view split: option.splits)
  with assms(1) show ?thesis by (simp add: add_helper_def helpers_ok_def sm.get_ins)
qed

lemma add_helper_ok:
  assumes "helpers_ok c" and "sm_lookup (rc_recv_helpers c) q = None"
  shows "helpers_ok (add_helper q h c)"
proof -
  have heap: "rc_heap (add_helper q h c) = rc_heap c @ [h]" by (simp add: add_helper_def)
  have map: "sm_wf (rc_recv_helpers (add_helper q h c))" "sm_dummy_val (rc_recv_helpers (add_helper q h c)) = None"
    "\<forall>q'. sm_map (rc_recv_helpers (add_helper q h c)) q' \<noteq> Some None"
    using assms(1) by (auto simp: helpers_ok_def add_helper_def sm.view_ins)
  have "p < length (rc_heap c)" if "sm_lookup (rc_recv_helpers c) q' = Some p" for q' p
    using assms(1) that by (auto simp: helpers_ok_def)
  then have "p < length (rc_heap c @ [h]) \<and> (\<forall>q''. sm_lookup (rc_recv_helpers (add_helper q h c)) q'' = Some p \<longrightarrow> q'' = q')"
    if "sm_lookup (rc_recv_helpers (add_helper q h c)) q' = Some p" for q' p
    using that assms(1) unfolding add_helper_lookup [OF assms]
    by (fastforce simp: helpers_ok_def split: if_splits)
  with map show ?thesis unfolding helpers_ok_def heap by blast
qed

lemma add_helper_ring:
  assumes "helpers_ok c" and "sm_lookup (rc_recv_helpers c) q = None" and "q' \<noteq> q"
    and "ring_ok out base lkey step num c q'"
  shows "ring_ok out base lkey step num (add_helper q h c) q'"
proof -
  have "rc_heap (add_helper q h c) ! p = rc_heap c ! p" if "sm_lookup (rc_recv_helpers c) q' = Some p" for p
    using assms(1) that by (auto simp: helpers_ok_def add_helper_def nth_append)
  moreover have "rc_net (add_helper q h c) = rc_net c" by (simp add: add_helper_def)
  ultimately show ?thesis using assms(3,4) unfolding ring_ok_def add_helper_lookup [OF assms(1,2)] by auto
qed

text \<open>Polling keeps the invariant, and never fails.\<close>

lemma recv_pollD:
  assumes "recv_ok rv out cap"
  obtains n' cs where "rv_poll rv q k n = (n', Some cs)" "length cs \<le> k" "length cs \<le> length (out n q)"
    "out n' = (out n)(q := drop (length cs) (out n q))"
  using assms unfolding recv_ok_def recv_poll_ok_def by blast

lemma poll_recv_cqs_ring:
  assumes rv: "recv_ok rv out cap" and c: "helpers_ok c" "q \<in> set (rc_qps c)" "num \<le> cap q"
    and ring: "ring_ok out base lkey step num c q"
  shows "\<exists>c' rc. poll_recv_cqs (post_recvs rv) rv q c = Inr (c', rc) \<and> only_touches out q c c' \<and>
    ring_ok out base lkey step num c' q"
proof -
  from ring obtain p h where p: "sm_lookup (rc_recv_helpers c) q = Some p" "rc_heap c ! p = h"
    and h: "rh_rr h = recv_requests base lkey step num" "max_recv_num h = num" "max_idle_recv_num h = 1"
      "recv_head h < num" "idle_recv_num h \<le> 1"
    and out: "out (rc_net c) q = ring_part (recv_entry base lkey step) num (recv_head h + idle_recv_num h) (num - idle_recv_num h)"
    by (auto simp: ring_ok_def)
  let ?e = "recv_entry base lkey step" and ?i = "recv_head h"
  have "p < length (rc_heap c)" using c(1) p(1) by (auto simp: helpers_ok_def)
  obtain n' cs where n': "rv_poll rv q num (rc_net c) = (n', Some cs)"
    "length cs \<le> length (out (rc_net c) q)" "out n' = (out (rc_net c))(q := drop (length cs) (out (rc_net c) q))"
    by (rule recv_pollD [OF rv, of q num "rc_net c"])
  define idle where "idle = idle_recv_num h + length cs"
  have idle: "idle \<le> num" using n'(2) h(4,5) unfolding out idle_def by simp
  have left: "out n' q = ring_part ?e num (?i + idle) (num - idle)"
    unfolding n'(3) out by (simp add: drop_ring_part idle_def add.assoc)
  let ?c = "c\<lparr>rc_net := n', rc_heap := (rc_heap c)[p := h\<lparr>idle_recv_num := idle\<rparr>]\<rparr>"
  let ?rc = "if list_all snd cs then int (length cs) else - 1"
  have poll: "poll_recv_cqs (post_recvs rv) rv q c = (if 1 < idle
      then rbind (post_recvs rv q idle ?c) (\<lambda>c. Inr (c\<lparr>rc_heap := (rc_heap c)[p := (rc_heap c ! p)\<lparr>idle_recv_num := 0\<rparr>]\<rparr>, ?rc))
      else Inr (?c, ?rc))"
    using c(2) n'(1) p h(2,3) by (simp add: poll_recv_cqs_def helper_of_def Let_def idle_def)
  show ?thesis
  proof (cases "1 < idle")
    case False
    have "only_touches out q c ?c"
      using p(1) n'(3) by (auto simp: only_touches_def same_params_def nth_list_update)
    moreover have "ring_ok out base lkey step num ?c q"
      using p(1) h False left \<open>p < length (rc_heap c)\<close> by (auto simp: ring_ok_def)
    ultimately show ?thesis using poll False by auto
  next
    case True
    let ?h = "h\<lparr>idle_recv_num := idle\<rparr>"
    have "\<exists>n''. post_recvs rv q idle ?c = Inr (?c\<lparr>rc_net := n'',
          rc_heap := (rc_heap ?c)[p := ?h\<lparr>recv_head := (recv_head ?h + idle) mod num\<rparr>]\<rparr>) \<and>
        out n'' = (out (rc_net ?c))(q := out (rc_net ?c) q @ ring_part ?e num (recv_head ?h) idle)"
      by (rule post_recvs_ring [OF rv])
        (use p(1) h True idle left c(3) \<open>p < length (rc_heap c)\<close> in simp_all)
    then obtain n'' where n'': "post_recvs rv q idle ?c = Inr (?c\<lparr>rc_net := n'',
          rc_heap := (rc_heap ?c)[p := ?h\<lparr>recv_head := (recv_head ?h + idle) mod num\<rparr>]\<rparr>)"
      "out n'' = (out n')(q := out n' q @ ring_part ?e num ?i idle)" by auto
    have "ring_part ?e num ?i idle = ring_part ?e num (?i + num) idle"
      using ring_part_mod [of ?e num "?i + num" idle] ring_part_mod [of ?e num ?i idle] by simp
    then have "ring_part ?e num (?i + idle) (num - idle) @ ring_part ?e num ?i idle = ring_part ?e num (?i + idle) num"
      using ring_part_append [of ?e num "?i + idle" "num - idle" idle] idle by simp
    then have full: "out n'' q = ring_part ?e num ((?i + idle) mod num) num"
      unfolding n''(2) by (simp add: left ring_part_mod)
    let ?c' = "c\<lparr>rc_net := n'', rc_heap := (rc_heap c)[p := h\<lparr>idle_recv_num := 0, recv_head := (?i + idle) mod num\<rparr>]\<rparr>"
    have "poll_recv_cqs (post_recvs rv) rv q c = Inr (?c', ?rc)"
      using poll True n''(1) \<open>p < length (rc_heap c)\<close> by (cases h) simp
    moreover have "only_touches out q c ?c'"
      using p(1) n'(3) n''(2) by (auto simp: only_touches_def same_params_def nth_list_update)
    moreover have "ring_ok out base lkey step num ?c' q"
      using p(1) h full \<open>p < length (rc_heap c)\<close> by (auto simp: ring_ok_def)
    ultimately show ?thesis by blast
  qed
qed

section \<open>Datagram queue pairs\<close>

lemma step_loop_eq: "step_loop bound s = s + 64 * ((bound - s + 63) div 64)"
proof (induction bound s rule: step_loop.induct)
  case (1 bound s)
  show ?case
  proof (cases "s < bound")
    case True
    have "(d + 63) div 64 = Suc ((d - 64 + 63) div 64)" if "0 < d" for d :: nat
    proof -
      have "(d + 63) div 64 = ((d - 1) + 64) div 64" using that by simp
      also have "\<dots> = Suc ((d - 1) div 64)" by simp
      also have "(d - 1) div 64 = (d - 64 + 63) div 64" using that by (cases "d < 64") simp_all
      finally show ?thesis .
    qed
    from this [of "bound - s"] True have "(bound - s + 63) div 64 = Suc ((bound - (s + 64) + 63) div 64)" by simp
    with 1 True show ?thesis by (subst step_loop.simps) (simp add: MIN_STEP_SIZE_def)
  qed (subst step_loop.simps, simp)
qed

abbreviation dgram_ring :: "('n \<Rightarrow> u32 \<Rightarrow> (nat \<times> sge) list) \<Rightarrow> 'n recv_ctrl \<Rightarrow> u32 \<Rightarrow> bool" where
  "dgram_ring out c \<equiv> ring_ok out (rc_dgram_buf c + 24) (rc_dgram_lkey c) 4096 UD_MAX_RECV_SIZE c"

lemma init_dgram_ring:
  assumes rv: "recv_ok rv out cap" and c: "helpers_ok c" "q \<in> set (rc_qps c)" "UD_MAX_RECV_SIZE \<le> cap q"
    and fresh: "sm_lookup (rc_recv_helpers c) q = None" "out (rc_net c) q = []"
  shows "\<exists>c'. init_dgram_recv_qp rv q c = Inr c' \<and> helpers_ok c' \<and> same_params c c' \<and> dgram_ring out c' q \<and>
    (\<forall>q'. q' \<noteq> q \<longrightarrow> sm_lookup (rc_recv_helpers c') q' = sm_lookup (rc_recv_helpers c) q' \<and>
       out (rc_net c') q' = out (rc_net c) q' \<and>
       (\<forall>base lkey step num. ring_ok out base lkey step num c q' \<longrightarrow> ring_ok out base lkey step num c' q'))"
proof -
  let ?base = "rc_dgram_buf c + 24" and ?num = UD_MAX_RECV_SIZE
  let ?h = "new_recv_helper 4096 ?num (recv_requests ?base (rc_dgram_lkey c) 4096 ?num)"
  let ?a = "add_helper q ?h c" and ?p = "length (rc_heap c)"
  note look = add_helper_lookup [OF c(1) fresh(1)] and store = add_helper_ok [OF c(1) fresh(1)]
  have init: "init_dgram_recv_qp rv q c = post_recvs rv q ?num ?a"
    using c(2) by (simp add: init_dgram_recv_qp_def post_ud_recvs_def step_loop_eq Let_def MIN_STEP_SIZE_def
      MAX_PACKET_SIZE_def GRH_SIZE_def)
  have a: "rc_heap ?a = rc_heap c @ [?h]" "rc_net ?a = rc_net c" "same_params c ?a"
    by (simp_all add: add_helper_def same_params_def)
  have "\<exists>n'. post_recvs rv q ?num ?a = Inr (?a\<lparr>rc_net := n',
      rc_heap := (rc_heap ?a)[?p := ?h\<lparr>recv_head := (recv_head ?h + ?num) mod ?num\<rparr>]\<rparr>) \<and>
    out n' = (out (rc_net ?a))(q := out (rc_net ?a) q @ ring_part (recv_entry ?base (rc_dgram_lkey c) 4096) ?num (recv_head ?h) ?num)"
    by (rule post_recvs_ring [OF rv])
      (use look a c(3) fresh(2) in \<open>simp_all add: new_recv_helper_def UD_MAX_RECV_SIZE_def\<close>)
  then obtain n' where raw: "post_recvs rv q ?num ?a = Inr (?a\<lparr>rc_net := n',
      rc_heap := (rc_heap ?a)[?p := ?h\<lparr>recv_head := (recv_head ?h + ?num) mod ?num\<rparr>]\<rparr>)"
    "out n' = (out (rc_net c))(q := ring_part (recv_entry ?base (rc_dgram_lkey c) 4096) ?num 0 ?num)"
    by (auto simp: a(2) fresh(2)) (simp add: new_recv_helper_def)
  have "(rc_heap ?a)[?p := ?h\<lparr>recv_head := (recv_head ?h + ?num) mod ?num\<rparr>] = rc_heap ?a"
    by (simp add: a(1)) (simp add: new_recv_helper_def)
  then have "?a\<lparr>rc_net := n', rc_heap := (rc_heap ?a)[?p := ?h\<lparr>recv_head := (recv_head ?h + ?num) mod ?num\<rparr>]\<rparr> =
      ?a\<lparr>rc_net := n'\<rparr>" by (cases ?a) simp
  note n' = raw(1) [unfolded this] raw(2)
  let ?c = "?a\<lparr>rc_net := n'\<rparr>"
  have touch: "only_touches out q ?a ?c" using n'(2) a(2) by (simp add: only_touches_def same_params_def)
  have "dgram_ring out ?c q"
    using look n'(2) a by (simp add: ring_ok_def new_recv_helper_def same_params_def UD_MAX_RECV_SIZE_def)
  moreover have "helpers_ok ?c" "same_params c ?c"
    using only_touches_store [OF touch store] a(3) by (simp_all add: same_params_def)
  moreover have "ring_ok out base lkey step num ?c q'"
    if "q' \<noteq> q" "ring_ok out base lkey step num c q'" for q' base lkey step num
    by (rule only_touches_ring [OF touch store that(1) add_helper_ring [OF c(1) fresh(1) that]])
  ultimately show ?thesis
    using init n' look by (intro exI [of _ ?c]) (simp add: a(2))
qed

lemma same_params_trans: "same_params a b \<Longrightarrow> same_params b c \<Longrightarrow> same_params a c"
  by (simp add: same_params_def)

lemma dgram_ring_params: "same_params c c' \<Longrightarrow> dgram_ring out c' q = ring_ok out (rc_dgram_buf c + 24) (rc_dgram_lkey c) 4096 UD_MAX_RECV_SIZE c' q"
  by (simp add: same_params_def)

definition dgram_ready :: "'n recv_verbs \<Rightarrow> ('n \<Rightarrow> u32 \<Rightarrow> (nat \<times> sge) list) \<Rightarrow> (u32 \<Rightarrow> nat) \<Rightarrow> 'n recv_ctrl \<Rightarrow> u32 \<Rightarrow> bool" where
  "dgram_ready rv out cap c q \<longleftrightarrow> q \<in> set (rc_qps c) \<and> UD_MAX_RECV_SIZE \<le> cap q \<and>
     sm_lookup (rc_recv_helpers c) q = None \<and> out (rc_net c) q = []"

lemma init_all_dgram:
  assumes "recv_ok rv out cap"
  shows "helpers_ok c \<Longrightarrow> distinct qids \<Longrightarrow> \<forall>q \<in> set qids. dgram_ready rv out cap c q \<Longrightarrow>
    \<forall>q \<in> D. dgram_ring out c q \<Longrightarrow> D \<inter> set qids = {} \<Longrightarrow>
    \<exists>c'. rfold (init_dgram_recv_qp rv) qids c = Inr c' \<and> helpers_ok c' \<and> same_params c c' \<and>
      (\<forall>q \<in> D \<union> set qids. dgram_ring out c' q)"
proof (induction qids arbitrary: c D)
  case Nil
  then show ?case by (simp add: same_params_def)
next
  case (Cons q qids)
  have q: "q \<in> set (rc_qps c)" "UD_MAX_RECV_SIZE \<le> cap q" "sm_lookup (rc_recv_helpers c) q = None" "out (rc_net c) q = []"
    using Cons.prems(3) by (auto simp: dgram_ready_def)
  from init_dgram_ring [OF assms Cons.prems(1) q] obtain c' where c': "init_dgram_recv_qp rv q c = Inr c'" "helpers_ok c'"
      "same_params c c'" "dgram_ring out c' q"
    and other: "\<forall>q'. q' \<noteq> q \<longrightarrow> sm_lookup (rc_recv_helpers c') q' = sm_lookup (rc_recv_helpers c) q' \<and>
       out (rc_net c') q' = out (rc_net c) q' \<and>
       (\<forall>base lkey step num. ring_ok out base lkey step num c q' \<longrightarrow> ring_ok out base lkey step num c' q')" by blast
  have "\<exists>c''. rfold (init_dgram_recv_qp rv) qids c' = Inr c'' \<and> helpers_ok c'' \<and> same_params c' c'' \<and>
      (\<forall>q' \<in> insert q D \<union> set qids. dgram_ring out c'' q')"
  proof (rule Cons.IH [OF c'(2)])
    show "distinct qids" "insert q D \<inter> set qids = {}" using Cons.prems(2,5) by auto
    show "\<forall>q' \<in> set qids. dgram_ready rv out cap c' q'"
      using Cons.prems(2,3) other c'(3) by (auto simp: dgram_ready_def same_params_def)
    show "\<forall>q' \<in> insert q D. dgram_ring out c' q'"
      using Cons.prems(4,5) c'(4) other unfolding dgram_ring_params [OF c'(3)] by auto
  qed
  with c'(1,3) show ?case by (auto intro: same_params_trans)
qed

lemma poll_all_dgram:
  assumes "recv_ok rv out cap" and "set polls \<subseteq> Q" and "\<forall>q \<in> Q. UD_MAX_RECV_SIZE \<le> cap q"
  shows "helpers_ok c \<Longrightarrow> \<forall>q \<in> Q. q \<in> set (rc_qps c) \<and> dgram_ring out c q \<Longrightarrow>
    \<exists>c'. rfold (\<lambda>q c. rbind (poll_dgram_recv_cqs rv q c) (\<lambda>(c, rc). Inr c)) polls c = Inr c' \<and>
      same_params c c' \<and> (\<forall>q \<in> Q. dgram_ring out c' q)"
  using assms(2)
proof (induction polls arbitrary: c)
  case Nil
  then show ?case by (simp add: same_params_def)
next
  case (Cons q polls)
  have "post_ud_recvs rv = (post_recvs rv :: u32 \<Rightarrow> nat \<Rightarrow> _)" by (simp add: post_ud_recvs_def fun_eq_iff)
  moreover have q: "q \<in> set (rc_qps c)" "UD_MAX_RECV_SIZE \<le> cap q" "dgram_ring out c q"
    using Cons.prems assms(3) by auto
  ultimately obtain c' rc where c': "poll_dgram_recv_cqs rv q c = Inr (c', rc)" "only_touches out q c c'"
      "ring_ok out (rc_dgram_buf c + 24) (rc_dgram_lkey c) 4096 UD_MAX_RECV_SIZE c' q"
    using poll_recv_cqs_ring [OF assms(1) Cons.prems(1) q] by (auto simp: poll_dgram_recv_cqs_def)
  have same: "same_params c c'" using c'(2) by (simp add: only_touches_def)
  have "\<exists>c''. rfold (\<lambda>q c. rbind (poll_dgram_recv_cqs rv q c) (\<lambda>(c, rc). Inr c)) polls c' = Inr c'' \<and>
      same_params c' c'' \<and> (\<forall>q \<in> Q. dgram_ring out c'' q)"
  proof (rule Cons.IH)
    show "helpers_ok c'" by (rule only_touches_store [OF c'(2) Cons.prems(1)])
    show "set polls \<subseteq> Q" using Cons.prems(3) by simp
    show "\<forall>q' \<in> Q. q' \<in> set (rc_qps c') \<and> dgram_ring out c' q'"
    proof
      fix q' assume "q' \<in> Q"
      then have "dgram_ring out c' q'"
        unfolding dgram_ring_params [OF same]
        using Cons.prems(2) c'(3) only_touches_ring [OF c'(2) Cons.prems(1)] by (cases "q' = q") simp_all
      with Cons.prems(2) same \<open>q' \<in> Q\<close> show "q' \<in> set (rc_qps c') \<and> dgram_ring out c' q'"
        by (simp add: same_params_def)
    qed
  qed
  with c'(1) same show ?case by (auto intro: same_params_trans)
qed

text \<open>Buffers of different requests of a ring do not overlap.\<close>

lemma ring_part_disjoint:
  assumes "k \<le> num"
  shows "sorted_wrt sge_disjoint (ring_part (recv_entry base lkey step) num i k)"
proof -
  have apart: "sge_disjoint (recv_entry base lkey step a) (recv_entry base lkey step b)" if "a \<noteq> b" for a b
  proof -
    have "Suc a * step \<le> b * step \<or> Suc b * step \<le> a * step"
      using that by (metis mult_le_mono1 Suc_leI nat_neq_iff)
    then show ?thesis by (simp add: sge_disjoint_def recv_entry_def ac_simps)
  qed
  have "(i + j) mod num \<noteq> (i + j') mod num" if "j < j'" "j' < num" for j j'
  proof
    assume "(i + j) mod num = (i + j') mod num"
    then have "(i + j') mod num = (i + j) mod num" by simp
    then have "num dvd j' - j" using that(1) by (simp add: mod_eq_dvd_iff_nat)
    with that show False by (auto dest: dvd_imp_le)
  qed
  then show ?thesis using apart assms by (simp add: sorted_wrt_iff_nth_less ring_part_def)
qed

section \<open>A card\<close>

text \<open>A card that holds the posted buffers, and completes every other one of those asked for, all of them good.\<close>

definition fifo_card :: "(u32 \<Rightarrow> nat) \<Rightarrow> (u32 \<Rightarrow> (nat \<times> sge) list) recv_verbs" where
  "fifo_card cap = \<lparr>
     rv_post = (\<lambda>q ws n. if length (n q) + length ws \<le> cap q then (n(q := n q @ ws), 0) else (n, 12)),
     rv_poll = (\<lambda>q k n. let cs = take (min k (Suc (length (n q)) div 2)) (n q) in
       (n(q := drop (length cs) (n q)), Some (map (\<lambda>w. (fst w, True)) cs)))\<rparr>"

lemma fifo_card_ok: "recv_ok (fifo_card cap) (\<lambda>n. n) cap"
  by (auto simp: recv_ok_def recv_post_ok_def recv_poll_ok_def fifo_card_def Let_def)

definition recv_start :: "u32 list \<Rightarrow> (u32 \<Rightarrow> (nat \<times> sge) list) recv_ctrl" where
  "recv_start qps = \<lparr>rc_net = (\<lambda>_. []), rc_qps = qps, rc_conn_buf = 4096, rc_conn_lkey = 1, rc_dgram_buf = 8192,
     rc_dgram_lkey = 2, rc_heap = [], rc_recv_helpers = sm_new (replicate S_BUCKET_NUM (Simple_Bucket 0 None None)) None\<rparr>"

section \<open>Properties\<close>

lemma new_helpers_ok:
  assumes "rc_recv_helpers c = sm_new slots None" and "length slots = S_BUCKET_NUM"
  shows "helpers_ok c \<and> sm_lookup (rc_recv_helpers c) q = None"
proof -
  have "sm_lookup (sm_new slots None) q = (None :: nat option)" for q
    using assms(2) by (simp add: sm.get_view) (simp add: sm_new_def)
  with assms show ?thesis by (simp add: helpers_ok_def) (simp add: sm_new_def)
qed

text \<open>
  C30: datagram queue pairs set up one after the other, each with a receive queue as large as was asked for, and then
  polled in any order and any number of times, never fail and never lose or repeat a buffer: after every poll a
  queue pair has all of its 2048 buffers posted, or all but one, in the cyclic order of its ring and without
  overlap, whatever number of completions each poll yields and whether they are failures or not.
\<close>

theorem datagram_receives_cycle:
  assumes "recv_ok rv out cap" and "rc_recv_helpers c = sm_new slots None" and "length slots = S_BUCKET_NUM"
    and "distinct qids" and "set qids \<subseteq> set (rc_qps c)"
    and "\<forall>q \<in> set qids. UD_MAX_RECV_SIZE \<le> cap q \<and> out (rc_net c) q = []" and "set polls \<subseteq> set qids"
  shows "\<exists>c1 c2. rfold (init_dgram_recv_qp rv) qids c = Inr c1 \<and>
    rfold (\<lambda>q c. rbind (poll_dgram_recv_cqs rv q c) (\<lambda>(c, rc). Inr c)) polls c1 = Inr c2 \<and>
    (\<forall>q \<in> set qids. (\<exists>head idle. idle \<le> 1 \<and> out (rc_net c2) q =
        ring_part (recv_entry (rc_dgram_buf c + 24) (rc_dgram_lkey c) 4096) UD_MAX_RECV_SIZE head (UD_MAX_RECV_SIZE - idle)) \<and>
      sorted_wrt sge_disjoint (out (rc_net c2) q))"
proof -
  note new = new_helpers_ok [OF assms(2,3)]
  have "\<forall>q \<in> set qids. dgram_ready rv out cap c q"
    using assms(5,6) new by (auto simp: dgram_ready_def)
  then obtain c1 where c1: "rfold (init_dgram_recv_qp rv) qids c = Inr c1" "helpers_ok c1" "same_params c c1"
    "\<forall>q \<in> set qids. dgram_ring out c1 q"
    using init_all_dgram [OF assms(1) conjunct1 [OF new] assms(4), of "{}"] by auto
  have "\<forall>q \<in> set qids. q \<in> set (rc_qps c1) \<and> dgram_ring out c1 q"
    using c1(3,4) assms(5) by (auto simp: same_params_def)
  then obtain c2 where c2: "rfold (\<lambda>q c. rbind (poll_dgram_recv_cqs rv q c) (\<lambda>(c, rc). Inr c)) polls c1 = Inr c2"
    "same_params c1 c2" "\<forall>q \<in> set qids. dgram_ring out c2 q"
    using poll_all_dgram [OF assms(1,7) _ c1(2)] assms(6) by blast
  have "(\<exists>head idle. idle \<le> 1 \<and> out (rc_net c2) q =
        ring_part (recv_entry (rc_dgram_buf c + 24) (rc_dgram_lkey c) 4096) UD_MAX_RECV_SIZE head (UD_MAX_RECV_SIZE - idle)) \<and>
      sorted_wrt sge_disjoint (out (rc_net c2) q)" if "q \<in> set qids" for q
    using c2(3) that unfolding dgram_ring_params [OF same_params_trans [OF c1(3) c2(2)]]
    using ring_ok_posted ring_part_disjoint by (metis diff_le_self)
  with c1(1) c2(1) show ?thesis by blast
qed

lemma datagram_receives_cycle_witness:
  "\<exists>c1 c2. rfold (init_dgram_recv_qp (fifo_card (\<lambda>_. 2048))) [65536, 65537] (recv_start [65536, 65537]) = Inr c1 \<and>
    rfold (\<lambda>q c. rbind (poll_dgram_recv_cqs (fifo_card (\<lambda>_. 2048)) q c) (\<lambda>(c, rc). Inr c)) [65536, 65537, 65536] c1 = Inr c2 \<and>
    (\<forall>q \<in> {65536, 65537}. 2047 \<le> length (rc_net c2 q) \<and> sorted_wrt sge_disjoint (rc_net c2 q))"
proof -
  have "\<exists>c1 c2. rfold (init_dgram_recv_qp (fifo_card (\<lambda>_. 2048))) [65536, 65537] (recv_start [65536, 65537]) = Inr c1 \<and>
    rfold (\<lambda>q c. rbind (poll_dgram_recv_cqs (fifo_card (\<lambda>_. 2048)) q c) (\<lambda>(c, rc). Inr c)) [65536, 65537, 65536] c1 = Inr c2 \<and>
    (\<forall>q \<in> set [65536, 65537]. (\<exists>head idle. idle \<le> 1 \<and> rc_net c2 q =
        ring_part (recv_entry (rc_dgram_buf (recv_start [65536, 65537]) + 24) (rc_dgram_lkey (recv_start [65536, 65537])) 4096)
          UD_MAX_RECV_SIZE head (UD_MAX_RECV_SIZE - idle)) \<and>
      sorted_wrt sge_disjoint (rc_net c2 q))"
    by (rule datagram_receives_cycle [OF fifo_card_ok, where slots = "replicate S_BUCKET_NUM (Simple_Bucket 0 None None)"])
      (simp_all add: recv_start_def UD_MAX_RECV_SIZE_def)
  moreover have "2047 \<le> length (ring_part e UD_MAX_RECV_SIZE head (UD_MAX_RECV_SIZE - idle))" if "idle \<le> 1" for e :: "nat \<Rightarrow> nat \<times> sge" and head idle
    using that by (simp add: UD_MAX_RECV_SIZE_def)
  ultimately show ?thesis by (metis list.simps(15) empty_set)
qed

text \<open>
  C31: receiving on a connected queue pair cannot be set up. \<open>init_rc\<close> asks for a receive queue with room for one
  request and \<open>init_conn_recv_qp\<close> posts 1024 of them at once; where the card grants what was asked for and no more,
  or anything below 1024, the post is refused and the assertion behind it fails.
\<close>

theorem connection_receives_refused:
  assumes "recv_ok rv out cap" and "helpers_ok c" and "sm_lookup (rc_recv_helpers c) q = None"
    and "q \<in> set (rc_qps c)" and "rc_max_recv_wr \<le> cap q" and "cap q < RC_MAX_RECV_SIZE"
  shows "init_conn_recv_qp rv q c = Inl Assert_Failed"
proof -
  let ?num = RC_MAX_RECV_SIZE and ?ring = "recv_requests (rc_conn_buf c) (rc_conn_lkey c) 4032 RC_MAX_RECV_SIZE"
  let ?h = "new_recv_helper 4032 ?num ?ring"
  have init: "init_conn_recv_qp rv q c = post_recvs rv q ?num (add_helper q ?h c)"
    using assms(4) by (simp add: init_conn_recv_qp_def post_conn_recvs_def step_loop_eq Let_def MIN_STEP_SIZE_def MAX_PACKET_SIZE_def)
  show ?thesis
    unfolding init
    by (rule post_recvs_refused [OF assms(1), where p = "length (rc_heap c)" and h = ?h and num = ?num])
      (use assms(6) in \<open>simp_all add: add_helper_lookup [OF assms(2,3)] new_recv_helper_def RC_MAX_RECV_SIZE_def,
        simp_all add: add_helper_def\<close>)
qed

lemma connection_receives_refused_witness:
  "init_conn_recv_qp (fifo_card (\<lambda>_. rc_max_recv_wr)) 7 (recv_start [7]) = Inl Assert_Failed"
  by (rule connection_receives_refused [OF fifo_card_ok
        conjunct1 [OF new_helpers_ok [of _ "replicate S_BUCKET_NUM (Simple_Bucket 0 None None)"]]
        conjunct2 [OF new_helpers_ok [of _ "replicate S_BUCKET_NUM (Simple_Bucket 0 None None)"]]])
    (simp_all add: recv_start_def rc_max_recv_wr_def RC_MAX_RECV_SIZE_def)

end
