(* ===== verification/Spec2Isabelle.thy ===== *)
theory Spec2Isabelle
  imports Scratch InsertPool BucketSearch Affinity LearnSearch MemLayout ProfileSearch DeployProps HungaryBuckets ConnectLive CachedIO KernelSearch PqSearch BaseFiles RecvRing
begin

text \<open>
  RED-ANNS: approximate nearest neighbour search on a proximity graph that is spread over the memories of several
  servers and read by one-sided RDMA.

  \<^bold>\<open>The program.\<close> \<open>numaann::Index\<close> (\<open>src/index.cpp\<close>) reads vectors and a graph, lays them out as fixed-size
  records, one array per server, and searches the graph best-first. A server keeps its records in
  registered memory (\<open>core/mem.hpp\<close>); the graph store (\<open>core/store/gstore.hpp\<close>) hands the search a pointer to the record of
  any vertex, reading remote ones through the RDMA device (\<open>core/rdma.hpp\<close>) and the queue pairs of
  \<open>rdma_lib/rdmaio.hpp\<close> into the buffer of the calling thread, or finding them in a cache (\<open>core/store/cache.hpp\<close>). The
  search overlaps reading and computing: it goes on for up to \<open>relax\<close> rounds before it waits for a batch.

  \<^bold>\<open>Conventions.\<close> Code that may throw, fail an assertion or leave an allocation returns \<open>fault + 'a\<close>
  (\<open>Prelude\<close>). Machine words are \<open>w word\<close>; \<open>size_t\<close> counters that only count are \<open>nat\<close>. Memory is a list of bytes
  (\<open>ByteMemory\<close>), a float its 32-bit pattern, and a distance function of a search a parameter into any linear
  order (so the results hold for every distance without NaN; \<open>KernelSearch\<close> puts the code's own in). Loops that depend on data run on fuel;
  the theorems about them give the fuel that is enough, one more round than there are vertices.

  \<^bold>\<open>Theories.\<close>
  \<^item> \<open>NeighborQueue\<close>, \<open>Scratch\<close>, \<open>InsertPool\<close>: the bounded priority queues, scratch space and visited lists, and the
    insertion into sorted pools, of \<open>include/neighbor.h\<close>, \<open>include/visited_list_pool.h\<close>, \<open>include/efanna2e/neighbor.h\<close>. The
    queue keeps the least entries, in order.
  \<^item> \<open>GreedySpec\<close>, \<open>BestFirst\<close>: the abstract best-first search on a graph and the code's, which refines it over any
    kind of visited set (locale \<open>visited_set\<close>, interpreted for the flat and the per-server sets).
  \<^item> \<open>IndexState\<close>, \<open>BaseIndex\<close>: the fields of \<open>Index\<close>; the flat index and its search.
  \<^item> \<open>Partition\<close>, \<open>BucketLayout\<close>, \<open>Buckets\<close>, \<open>BucketSearch\<close>: the assignment of vertices to servers, the records, the
    partitioned index, and its search, which agrees with the flat one.
  \<^item> \<open>Affinity\<close>, \<open>LearnSearch\<close>: which server a query is sent to, adaptive entry points, and the beam search on
    the learning graph.
  \<^item> \<open>FileFormats\<close>, \<open>TextNumbers\<close>, \<open>Params\<close>, \<open>CachedIO\<close>: the files of \<open>include/common.h\<close>, the parameters, and the
    streams of \<open>include/efanna2e/cached_io.h\<close>.
  \<^item> \<open>Deploy\<close>: loading the inputs, saving the index, loading it on a server.
  \<^item> \<open>MemLayout\<close>: the registered memory and its regions, which do not overlap.
  \<^item> \<open>Verbs\<close>, \<open>RdmaDevice\<close>, \<open>SimNic\<close>: posting and polling on queue pairs. The verbs library (\<open>ibv_post_send\<close>,
    \<open>ibv_poll_cq\<close>) is a parameter \<open>'n verbs\<close> over an unknown state \<open>'n\<close>; \<open>verbs_ok\<close> states what it promises: a read
    may land at any time before its completion, completions come in order, and memory outside posted
    reads is left alone. \<open>SimNic\<close> is a card that keeps this promise, for the witnesses.
  \<^item> \<open>GStore\<close>, \<open>RemoteReads\<close>, \<open>StoreOps\<close>, \<open>CacheChoice\<close>, \<open>VertexCache\<close>: the graph store and its cache, the invariant \<open>store_ok\<close>
    that every pointer handed out leads to the record of its vertex once it is waited for, and which vertices
    the cache holds.
  \<^item> \<open>RelaxedSpec\<close>, \<open>DistSearch\<close>, \<open>DistCorrect\<close>, \<open>DistStore\<close>, \<open>DistProps\<close>: the delayed best-first search, the distributed
    search of the code over any store (locale \<open>vertex_fetch\<close>), its correctness there, the interpretation on the
    graph store, and the properties.
  \<^item> \<open>ProfileSearch\<close>, \<open>DeployProps\<close>: the search that counts accesses and the filling of the cache from its counters; the
    pipeline from the generated index to the answers of a loaded cluster.

  \<^item> \<open>Hungary\<close>, \<open>HungaryDfs\<close>, \<open>HungaryOpt\<close>, \<open>HungaryBuckets\<close>: the Hungarian method of \<open>include/hungary.h\<close>. Weights are at most
    \<open>0x1FFFFFFF\<close> and \<open>n\<close> times their bound fits an \<open>int\<close>; \<open>n + 1\<close> calls of \<open>dfs\<close> can nest and \<open>n + 1\<close> rounds are enough per
    vertex. The matching is optimal and the assignment it gives balanced.

  \<^item> \<open>Checksum\<close>, \<open>Connect\<close>, \<open>ConnectInv\<close>, \<open>ConnectLive\<close>: the checksum of messages, and how the servers connect their
    queue pairs: a state machine of all servers (\<open>server_step\<close>), each in the loop of the constructor of \<open>RDMA_Device\<close>
    while its background thread answers. The invariant \<open>servers_ok\<close> holds after every step; under a fair
    schedule all servers get connected, up to 200 threads. The verbs that create and change queue pairs are a parameter
    (\<open>qv_ok\<close> states their documented behaviour), TCP carries a message or not.

  \<^item> \<open>SimpleMap\<close>, \<open>RecvRing\<close>: the hash map of the RDMA library (\<open>rdma_lib/simple_map.hpp\<close>), which refines a map that keeps the first value of a
    key (locale \<open>first_wins_map\<close>), and the rings of receive requests that it leads to. The receive queue is a parameter,
    first in first out (\<open>recv_ok\<close>); polling keeps the posted buffers in the order of the ring.

  \<^item> \<open>Floats\<close>, \<open>FloatExact\<close>: \<open>float\<close> and \<open>double\<close> by IEEE 754, rounding to the nearest, ties to even, one NaN; products and sums are
    rounded one by one (no fused multiply-add). Sums and products of integers up to \<open>2 ^ 24\<close> are exact.
  \<^item> \<open>Distances\<close>, \<open>KernelSearch\<close>: the vectorised distances of \<open>include/distance.h\<close>, exact on integer vectors, and with them the search
    on the flat index from vectors to labels.
  \<^item> \<open>BinFiles\<close>, \<open>PqTable\<close>, \<open>PqLookup\<close>: the arrays with a header of \<open>include/efanna2e/util.h\<close> and the tables of product
    quantisation (\<open>src/pq.cpp\<close>); the lookups give the distances computed from the centres.
  \<^item> \<open>MathUtils\<close>, \<open>PqTrain\<close>, \<open>PqDealing\<close>, \<open>PqPivots\<close>, \<open>PqRoundtrip\<close>: k-means (\<open>src/math_utils.cpp\<close>) and the training of product
    quantisation, up to the file that the tables load. The products of matrices (MKL) and the random numbers are parameters;
    the random numbers the loop of k-means++ draws are its fuel.
  \<^item> \<open>PqEncode\<close>, \<open>PqCodes\<close>, \<open>PqSearch\<close>, \<open>BaseFiles\<close>: encoding the base vectors block by block, with the codes it writes; the search over
    codes (\<open>include/index_bf.h\<close>) and the class \<open>PQ\<close> of \<open>include/index.h\<close>, whose \<open>compute_dist\<close> is what the distributed search
    takes as \<open>pq_dist\<close>; loading, padding and normalising base vectors.

  \<^bold>\<open>Not modelled.\<close> The cosine distance. Logging, timers, thread binding, statistics that are only printed; MPI and ZeroMQ, the
  sockets of the connection, unreliable queue pairs, the creation of datagram queue pairs and sending on them; the vendored hash
  containers of \<open>include/tsl\<close>, used as sets and maps. Threads run one at a time: what they share while they search is
  only read, or counted.
\<close>

end
